(* ===== verification/Prelude.thy ===== *)
theory Prelude
  imports Main "HOL-Library.Monad_Syntax"
begin

text \<open>
  Shared vocabulary of the development.

  \<^item> \<open>cl_break_if\<close>: the assertion macro \<open>CL_BREAK_IF\<close> of \<open>src/cl/trap.h\<close>.  A debug build raises a
    trap and never comes back when its condition holds, so an operation of the model returns an
    \<open>option\<close>, with \<open>None\<close> for a trap.  A release build compiles the macro to nothing; the two builds
    agree on every run on which the model returns \<open>Some\<close>.
  \<^item> \<open>omap\<close>: a \<open>std::map\<close> as the list of its items in key order, which is the order in which the code
    iterates; \<open>omap_find\<close>, \<open>omap_put\<close>, \<open>omap_erase\<close> \<open>omap_from\<close> and \<open>omap_at\<close> are \<open>find\<close>,
    \<open>operator[] =\<close>, \<open>erase\<close>, \<open>lower_bound\<close> and a read through \<open>operator[]\<close> with its default value.
  \<^item> a \<open>std::set\<close> is an HOL set; \<open>BOOST_FOREACH\<close> over it visits \<open>sorted_list_of_set\<close>.
\<close>

named_theorems omap_simps \<open>lookup and membership laws of ordered maps\<close>
named_theorems omap_intros \<open>preservation of key order by the operations on ordered maps\<close>

section \<open>Traps\<close>

definition cl_break_if :: "bool \<Rightarrow> unit option" where
  "cl_break_if c = (if c then None else Some ())"

lemma cl_break_if_simps [simp]:
  "cl_break_if True = None"
  "cl_break_if False = Some ()"
  by (simp_all add: cl_break_if_def)

lemma cl_break_if_eq_Some [simp]: "cl_break_if c = Some u \<longleftrightarrow> \<not> c"
  by (simp add: cl_break_if_def)

lemma cl_break_if_bind [simp]:
  "Option.bind (cl_break_if c) f = (if c then None else f ())"
  by (simp add: cl_break_if_def)

lemma if_None_eq_Some [simp]:
  "(if c then None else e) = Some x \<longleftrightarrow> \<not> c \<and> e = Some x"
  "(if c then e else None) = Some x \<longleftrightarrow> c \<and> e = Some x"
  by auto

text \<open>Elimination rules that take a successful run of a \<open>do\<close> block apart.\<close>

lemma bind_SomeE: "Option.bind m f = Some y \<Longrightarrow> (\<And>x. m = Some x \<Longrightarrow> f x = Some y \<Longrightarrow> P) \<Longrightarrow> P"
  by (auto simp: bind_eq_Some_conv)

lemma if_SomeE:
  "(if c then a else b) = Some y \<Longrightarrow> (c \<Longrightarrow> a = Some y \<Longrightarrow> P) \<Longrightarrow> (\<not> c \<Longrightarrow> b = Some y \<Longrightarrow> P) \<Longrightarrow> P"
  by (auto split: if_splits)

lemma prod_SomeE: "(case p of (a, b) \<Rightarrow> f a b) = Some y \<Longrightarrow> (\<And>a b. p = (a, b) \<Longrightarrow> f a b = Some y \<Longrightarrow> P) \<Longrightarrow> P"
  by (auto split: prod.splits)

lemma option_SomeE:
  "(case p of None \<Rightarrow> a | Some x \<Rightarrow> f x) = Some y \<Longrightarrow> (p = None \<Longrightarrow> a = Some y \<Longrightarrow> P) \<Longrightarrow>
   (\<And>x. p = Some x \<Longrightarrow> f x = Some y \<Longrightarrow> P) \<Longrightarrow> P"
  by (auto split: option.splits)

lemma break_SomeE: "cl_break_if c = Some u \<Longrightarrow> (\<not> c \<Longrightarrow> P) \<Longrightarrow> P"
  by auto

lemma pair_SomeE: "Some (a, b) = Some (c, d) \<Longrightarrow> (c = a \<Longrightarrow> d = b \<Longrightarrow> P) \<Longrightarrow> P"
  by auto

lemma map_SomeE: "map_option f m = Some y \<Longrightarrow> (\<And>x. m = Some x \<Longrightarrow> y = f x \<Longrightarrow> P) \<Longrightarrow> P"
  by auto

lemma None_SomeE: "None = Some y \<Longrightarrow> P"
  by simp

lemmas some_elims = bind_SomeE if_SomeE prod_SomeE option_SomeE break_SomeE pair_SomeE map_SomeE None_SomeE

section \<open>Loops\<close>

text \<open>\<open>BOOST_FOREACH\<close> over a sequence with a body that may trap.\<close>

fun ofold :: "('a \<Rightarrow> 's \<Rightarrow> 's option) \<Rightarrow> 'a list \<Rightarrow> 's \<Rightarrow> 's option" where
  "ofold f [] s = Some s"
| "ofold f (x # xs) s = do { s' \<leftarrow> f x s; ofold f xs s' }"

lemma ofold_append: "ofold f (xs @ ys) s = do { s' \<leftarrow> ofold f xs s; ofold f ys s' }"
proof (induction xs arbitrary: s)
  case (Cons x xs)
  then show ?case by (cases "f x s") simp_all
qed simp

lemma ofold_cong [fundef_cong]:
  "xs = ys \<Longrightarrow> s = t \<Longrightarrow> (\<And>x u. x \<in> set ys \<Longrightarrow> f x u = g x u) \<Longrightarrow> ofold f xs s = ofold g ys t"
proof (induction xs arbitrary: ys s t)
  case (Cons x xs)
  then show ?case by (cases "f x s") auto
qed auto

text \<open>The loop rules: partial correctness, and that a loop whose body cannot trap returns.\<close>

lemma ofold_invariant:
  assumes "ofold f xs s = Some t" "P s"
    and "\<And>x u v. x \<in> set xs \<Longrightarrow> P u \<Longrightarrow> f x u = Some v \<Longrightarrow> P v"
  shows "P t"
  using assms by (induction xs arbitrary: s) (auto simp: bind_eq_Some_conv)

lemma ofold_total:
  assumes "P s" and "\<And>x u. x \<in> set xs \<Longrightarrow> P u \<Longrightarrow> \<exists>v. f x u = Some v \<and> P v"
  shows "\<exists>t. ofold f xs s = Some t \<and> P t"
  using assms
proof (induction xs arbitrary: s)
  case (Cons x xs)
  from Cons.prems obtain v where v: "f x s = Some v" "P v" by (meson list.set_intros(1))
  have "\<exists>t. ofold f xs v = Some t \<and> P t"
    using Cons.prems(2) v(2) by (intro Cons.IH) auto
  with v show ?case by simp
qed simp

section \<open>Ordered maps\<close>

type_synonym ('k, 'v) omap = "('k \<times> 'v) list"

abbreviation omap_find :: "('k, 'v) omap \<Rightarrow> 'k \<Rightarrow> 'v option" where
  "omap_find \<equiv> map_of"

definition omap_wf :: "('k::linorder, 'v) omap \<Rightarrow> bool" where
  "omap_wf m \<longleftrightarrow> sorted_wrt (<) (map fst m)"

fun omap_put :: "'k::linorder \<Rightarrow> 'v \<Rightarrow> ('k, 'v) omap \<Rightarrow> ('k, 'v) omap" where
  "omap_put k v [] = [(k, v)]"
| "omap_put k v (e # m) =
     (if fst e < k then e # omap_put k v m
      else if fst e = k then (k, v) # m
      else (k, v) # e # m)"

definition omap_erase :: "'k \<Rightarrow> ('k, 'v) omap \<Rightarrow> ('k, 'v) omap" where
  "omap_erase k m = filter (\<lambda>e. fst e \<noteq> k) m"

definition omap_from :: "'k::linorder \<Rightarrow> ('k, 'v) omap \<Rightarrow> ('k, 'v) omap" where
  "omap_from k m = dropWhile (\<lambda>e. fst e < k) m"

definition omap_before :: "'k::linorder \<Rightarrow> ('k, 'v) omap \<Rightarrow> ('k, 'v) omap" where
  "omap_before k m = takeWhile (\<lambda>e. fst e < k) m"

definition omap_at :: "'v \<Rightarrow> ('k, 'v) omap \<Rightarrow> 'k \<Rightarrow> 'v" where
  "omap_at dflt m k = (case omap_find m k of None \<Rightarrow> dflt | Some v \<Rightarrow> v)"

lemma omap_wf_simps [simp]:
  "omap_wf []"
  "omap_wf (e # m) \<longleftrightarrow> (\<forall>x \<in> set m. fst e < fst x) \<and> omap_wf m"
  by (auto simp: omap_wf_def)

lemma omap_wf_append:
  "omap_wf (m @ n) \<longleftrightarrow> omap_wf m \<and> omap_wf n \<and> (\<forall>a \<in> set m. \<forall>b \<in> set n. fst a < fst b)"
  by (auto simp: omap_wf_def sorted_wrt_append)

lemma omap_wf_distinct: "omap_wf m \<Longrightarrow> distinct (map fst m)"
  by (auto simp: omap_wf_def strict_sorted_iff)

lemma omap_find_eq_Some: "omap_wf m \<Longrightarrow> omap_find m k = Some v \<longleftrightarrow> (k, v) \<in> set m"
  by (simp add: omap_wf_distinct)

lemma omap_at_eq: "omap_wf m \<Longrightarrow> (k, v) \<in> set m \<Longrightarrow> omap_at d m k = v"
  by (simp add: omap_at_def flip: omap_find_eq_Some)

lemma omap_at_cases: "omap_at d m k = d \<or> (k, omap_at d m k) \<in> set m"
  by (cases "omap_find m k") (auto simp: omap_at_def dest: map_of_SomeD)

lemma omap_find_put [omap_simps]: "omap_find (omap_put k v m) x = (if x = k then Some v else omap_find m x)"
  by (induction m) auto

lemma fst_set_omap_put [omap_simps]: "fst ` set (omap_put k v m) = insert k (fst ` set m)"
  by (induction m) auto

lemma omap_wf_put [omap_intros]: "omap_wf m \<Longrightarrow> omap_wf (omap_put k v m)"
proof (induction m)
  case (Cons e m)
  have "fst e < fst x" if "fst e < k" "x \<in> set (omap_put k v m)" for x
  proof -
    from that(2) have "fst x \<in> insert k (fst ` set m)"
      by (metis fst_set_omap_put imageI)
    with that(1) Cons.prems show ?thesis by auto
  qed
  with Cons show ?case by (auto intro: less_trans)
qed simp

lemma set_omap_put [omap_simps]:
  "omap_wf m \<Longrightarrow> set (omap_put k v m) = insert (k, v) {e \<in> set m. fst e \<noteq> k}"
  by (induction m) auto

lemma omap_find_erase [omap_simps]: "omap_find (omap_erase k m) x = (if x = k then None else omap_find m x)"
  by (induction m) (auto simp: omap_erase_def)

lemma omap_wf_erase [omap_intros]: "omap_wf m \<Longrightarrow> omap_wf (omap_erase k m)"
  by (induction m) (auto simp: omap_erase_def)

lemma set_omap_erase [omap_simps]: "set (omap_erase k m) = {e \<in> set m. fst e \<noteq> k}"
  by (auto simp: omap_erase_def)

lemma omap_before_from: "omap_before k m @ omap_from k m = m"
  by (simp add: omap_before_def omap_from_def)

lemma set_omap_from [omap_simps]: "omap_wf m \<Longrightarrow> set (omap_from k m) = {e \<in> set m. k \<le> fst e}"
  by (induction m) (auto simp: omap_from_def)

lemma set_omap_before [omap_simps]: "omap_wf m \<Longrightarrow> set (omap_before k m) = {e \<in> set m. fst e < k}"
  by (induction m) (auto simp: omap_before_def)

lemma omap_wf_from [omap_intros]: "omap_wf m \<Longrightarrow> omap_wf (omap_from k m)"
  by (metis omap_before_from omap_wf_append)

lemma omap_wf_before [omap_intros]: "omap_wf m \<Longrightarrow> omap_wf (omap_before k m)"
  by (metis omap_before_from omap_wf_append)

end
