(* ===== verification/IntArena.thy ===== *)
theory IntArena
  imports Prelude
begin

text \<open>
  The interval container \<open>IntervalArena\<close> of \<open>src/sl/intarena.hh\<close>: a two-level map from the end of a
  right-open interval to its begin to the set of fields stored there.  The abstract view of an arena
  is, for each field, the set of offsets it occupies (\<open>arena_at\<close>); the lemmas show that \<open>add\<close>,
  \<open>sub\<close>, \<open>intersects\<close>, \<open>exactMatch\<close> and \<open>reverseLookup\<close> compute what that view says.  The laws are
  collected in the locale \<open>interval_store\<close>, which the symbolic heap relies on.
\<close>

type_synonym chunk = "int \<times> int"
type_synonym 'f leaf = "'f set"
type_synonym 'f line = "(int, 'f leaf) omap"
type_synonym 'f arena = "(int, 'f line) omap"

section \<open>Operations\<close>

text \<open>\<open>operator[]\<close> of the two maps creates the missing line and leaf.\<close>

definition arena_insert :: "int \<Rightarrow> int \<Rightarrow> 'f \<Rightarrow> 'f arena \<Rightarrow> 'f arena" where
  "arena_insert beg end fld cont =
     (let line = omap_at [] cont end;
          leaf = omap_at {} line beg
      in omap_put end (omap_put beg (insert fld leaf) line) cont)"

definition arena_add :: "chunk \<Rightarrow> 'f \<Rightarrow> 'f arena \<Rightarrow> 'f arena option" where
  "arena_add key fld cont =
     (let beg = fst key; end = snd key
      in do { cl_break_if (end \<le> beg); Some (arena_insert beg end fld cont) })"

text \<open>
  The inner loop of \<open>sub\<close> on one line: the entries that begin before the window ends lose the field.
  The result carries the line, whether anything was hit, and the parts above the window to insert again.
\<close>

fun sub_line :: "int \<Rightarrow> int \<Rightarrow> 'f \<Rightarrow> 'f line \<Rightarrow> 'f line \<times> bool \<times> chunk list" where
  "sub_line winBeg winEnd fld [] = ([], False, [])"
| "sub_line winBeg winEnd fld ((beg, os) # line) =
     (if winEnd \<le> beg then ((beg, os) # line, False, [])
      else let (line', anyHit, rec) = sub_line winBeg winEnd fld line;
               hit = (fld \<in> os)
           in ((beg, os - {fld}) # line', hit \<or> anyHit,
               (if hit \<and> beg < winBeg then [(beg, winBeg)] else []) @ rec))"

text \<open>The outer loop, over the lines that end behind the begin of the window.\<close>

fun sub_lines :: "int \<Rightarrow> int \<Rightarrow> 'f \<Rightarrow> 'f arena \<Rightarrow> ('f arena \<times> chunk list) option" where
  "sub_lines winBeg winEnd fld [] = Some ([], [])"
| "sub_lines winBeg winEnd fld ((end, line) # cont) =
     (if line = [] \<or> winEnd \<le> fst (hd line)
      then do {
        (cont', rec) \<leftarrow> sub_lines winBeg winEnd fld cont;
        Some ((end, line) # cont', rec)
      }
      else do {
        cl_break_if (end \<le> winBeg);
        let (line', anyHit, rec1) = sub_line winBeg winEnd fld line;
        let rec2 = (if anyHit \<and> winEnd < end then [(winEnd, end)] else []);
        (cont', rec) \<leftarrow> sub_lines winBeg winEnd fld cont;
        Some ((end, line') # cont', rec1 @ rec2 @ rec)
      })"

definition arena_recover :: "'f \<Rightarrow> chunk list \<Rightarrow> 'f arena \<Rightarrow> 'f arena" where
  "arena_recover fld rec cont = fold (\<lambda>(beg, end). arena_insert beg end fld) rec cont"

definition arena_sub :: "chunk \<Rightarrow> 'f \<Rightarrow> 'f arena \<Rightarrow> 'f arena option" where
  "arena_sub key fld cont =
     (let winBeg = fst key; winEnd = snd key
      in do {
        cl_break_if (winEnd \<le> winBeg);
        (rest, rec) \<leftarrow> sub_lines winBeg winEnd fld (omap_from (winBeg + 1) cont);
        Some (arena_recover fld rec (omap_before (winBeg + 1) cont @ rest))
      })"

fun intersects_line :: "int \<Rightarrow> 'f line \<Rightarrow> 'f set" where
  "intersects_line winEnd [] = {}"
| "intersects_line winEnd ((beg, os) # line) =
     (if winEnd \<le> beg then {} else os \<union> intersects_line winEnd line)"

fun intersects_lines :: "int \<Rightarrow> int \<Rightarrow> 'f arena \<Rightarrow> 'f set option" where
  "intersects_lines winBeg winEnd [] = Some {}"
| "intersects_lines winBeg winEnd ((end, line) # cont) =
     (if line = [] \<or> winEnd \<le> fst (hd line)
      then intersects_lines winBeg winEnd cont
      else do {
        cl_break_if (end \<le> winBeg);
        dst \<leftarrow> intersects_lines winBeg winEnd cont;
        Some (intersects_line winEnd line \<union> dst)
      })"

definition arena_intersects :: "'f set \<Rightarrow> chunk \<Rightarrow> 'f arena \<Rightarrow> 'f set option" where
  "arena_intersects dst key cont =
     (let winBeg = fst key; winEnd = snd key
      in do {
        cl_break_if (winEnd \<le> winBeg);
        os \<leftarrow> intersects_lines winBeg winEnd (omap_from (winBeg + 1) cont);
        Some (dst \<union> os)
      })"

definition arena_reverseLookup :: "chunk list \<Rightarrow> 'f \<Rightarrow> 'f arena \<Rightarrow> chunk list" where
  "arena_reverseLookup dst fld cont =
     dst @ concat (map (\<lambda>(end, line).
       map (\<lambda>(beg, leaf). (beg, end)) (filter (\<lambda>(beg, leaf). fld \<in> leaf) line)) cont)"

definition arena_exactMatch :: "'f set \<Rightarrow> chunk \<Rightarrow> 'f arena \<Rightarrow> 'f set" where
  "arena_exactMatch dst key cont =
     (case omap_find cont (snd key) of
        None \<Rightarrow> dst
      | Some line \<Rightarrow> (case omap_find line (fst key) of None \<Rightarrow> dst | Some leaf \<Rightarrow> dst \<union> leaf))"

definition arena_clear :: "'f arena \<Rightarrow> 'f arena" where
  "arena_clear cont = []"

section \<open>The abstract view\<close>

definition arena_key :: "'f arena \<Rightarrow> 'f \<Rightarrow> int \<Rightarrow> int \<Rightarrow> bool" where
  "arena_key cont fld beg end \<longleftrightarrow>
     (\<exists>line leaf. (end, line) \<in> set cont \<and> (beg, leaf) \<in> set line \<and> fld \<in> leaf)"

definition arena_at :: "'f arena \<Rightarrow> 'f \<Rightarrow> int set" where
  "arena_at cont fld = (\<Union>{{beg..<end} | beg end. arena_key cont fld beg end})"

definition line_wf :: "int \<Rightarrow> 'f line \<Rightarrow> bool" where
  "line_wf end line \<longleftrightarrow> omap_wf line \<and> (\<forall>(beg, leaf) \<in> set line. beg < end \<and> finite leaf)"

definition arena_wf :: "'f arena \<Rightarrow> bool" where
  "arena_wf cont \<longleftrightarrow> omap_wf cont \<and> (\<forall>(end, line) \<in> set cont. line_wf end line)"

lemma arena_at_iff: "x \<in> arena_at cont fld \<longleftrightarrow> (\<exists>beg end. arena_key cont fld beg end \<and> beg \<le> x \<and> x < end)"
  by (force simp: arena_at_def)

lemma arena_key_less: "arena_wf cont \<Longrightarrow> arena_key cont fld beg end \<Longrightarrow> beg < end"
  by (fastforce simp: arena_wf_def arena_key_def line_wf_def)

lemma arena_wf_Nil [simp]: "arena_wf []"
  by (simp add: arena_wf_def)

lemma arena_at_Nil [simp]: "arena_at [] fld = {}"
  by (simp add: arena_at_def arena_key_def)

lemma arena_wf_Cons:
  "arena_wf ((end, line) # cont) \<longleftrightarrow>
     (\<forall>x \<in> set cont. end < fst x) \<and> line_wf end line \<and> arena_wf cont"
  by (auto simp: arena_wf_def)

lemma arena_key_Cons:
  "arena_key ((end', line) # cont) fld beg end \<longleftrightarrow>
     (end = end' \<and> (\<exists>leaf. (beg, leaf) \<in> set line \<and> fld \<in> leaf)) \<or> arena_key cont fld beg end"
  by (auto simp: arena_key_def)

lemma arena_key_append:
  "arena_key (m @ n) fld beg end \<longleftrightarrow> arena_key m fld beg end \<or> arena_key n fld beg end"
  by (auto simp: arena_key_def)

subsection \<open>Insertion\<close>

lemma line_wf_put: "line_wf end line \<Longrightarrow> beg < end \<Longrightarrow> finite leaf \<Longrightarrow> line_wf end (omap_put beg leaf line)"
  by (auto simp: line_wf_def omap_intros omap_simps)

lemma line_wf_at: "arena_wf cont \<Longrightarrow> line_wf end (omap_at [] cont end)"
  using omap_at_cases [of "[]" cont "end"] by (auto simp: arena_wf_def line_wf_def)

lemma finite_leaf_at: "line_wf end line \<Longrightarrow> finite (omap_at {} line beg)"
  using omap_at_cases [of "{}" line beg] by (auto simp: line_wf_def)

lemma arena_wf_insert:
  "arena_wf cont \<Longrightarrow> beg < end \<Longrightarrow> arena_wf (arena_insert beg end fld cont)"
  using line_wf_at [of cont "end"] finite_leaf_at [of "end" "omap_at [] cont end" beg]
  by (auto simp: arena_insert_def arena_wf_def omap_intros omap_simps line_wf_put Let_def)

lemma arena_key_insert:
  assumes "arena_wf cont"
  shows "arena_key (arena_insert beg end fld cont) f b e \<longleftrightarrow>
    arena_key cont f b e \<or> (f = fld \<and> b = beg \<and> e = end)"
proof -
  define line where "line = omap_at [] cont end"
  define leaf where "leaf = omap_at {} line beg"
  have wf: "omap_wf cont" "omap_wf line"
    using assms line_wf_at [OF assms, of "end"] by (simp_all add: line_def arena_wf_def line_wf_def)
  have line_eq: "l = line" if "(end, l) \<in> set cont" for l
    using omap_at_eq [OF wf(1) that] by (simp add: line_def)
  have line_in: "line = [] \<or> (end, line) \<in> set cont"
    unfolding line_def by (rule omap_at_cases)
  have leaf_eq: "os = leaf" if "(beg, os) \<in> set line" for os
    using omap_at_eq [OF wf(2) that] by (simp add: leaf_def)
  have leaf_in: "leaf = {} \<or> (beg, leaf) \<in> set line"
    unfolding leaf_def by (rule omap_at_cases)
  have key_end: "arena_key cont f b end \<longleftrightarrow> (\<exists>os. (b, os) \<in> set line \<and> f \<in> os)"
    using line_eq line_in by (auto simp: arena_key_def)
  have key_beg: "(\<exists>os. (beg, os) \<in> set line \<and> f \<in> os) \<longleftrightarrow> f \<in> leaf"
    using leaf_eq leaf_in by auto
  have eq: "arena_insert beg end fld cont = omap_put end (omap_put beg (insert fld leaf) line) cont"
    by (simp add: arena_insert_def line_def leaf_def Let_def)
  have "arena_key (arena_insert beg end fld cont) f b e \<longleftrightarrow>
      (if e = end then (if b = beg then f = fld \<or> f \<in> leaf else (\<exists>os. (b, os) \<in> set line \<and> f \<in> os))
       else arena_key cont f b e)"
    by (auto simp: eq arena_key_def omap_simps wf)
  with key_end key_beg show ?thesis by auto
qed

lemma arena_at_insert:
  "arena_wf cont \<Longrightarrow>
    arena_at (arena_insert beg end fld cont) f = arena_at cont f \<union> (if f = fld then {beg..<end} else {})"
  by (auto simp: arena_at_iff arena_key_insert set_eq_iff)

subsection \<open>Subtraction\<close>

text \<open>Closed forms of the two loops, on lines and arenas in key order.\<close>

definition cut_line :: "int \<Rightarrow> 'f \<Rightarrow> 'f line \<Rightarrow> 'f line" where
  "cut_line winEnd fld line = map (\<lambda>(b, os). (b, if b < winEnd then os - {fld} else os)) line"

definition hit_line :: "int \<Rightarrow> 'f \<Rightarrow> 'f line \<Rightarrow> bool" where
  "hit_line winEnd fld line \<longleftrightarrow> (\<exists>(b, os) \<in> set line. b < winEnd \<and> fld \<in> os)"

definition parts_above :: "int \<Rightarrow> int \<Rightarrow> 'f \<Rightarrow> 'f line \<Rightarrow> chunk list" where
  "parts_above winBeg winEnd fld line =
     map (\<lambda>(b, os). (b, winBeg)) (filter (\<lambda>(b, os). b < winEnd \<and> fld \<in> os \<and> b < winBeg) line)"

lemma sub_line_closed:
  "omap_wf line \<Longrightarrow> sub_line winBeg winEnd fld line =
    (cut_line winEnd fld line, hit_line winEnd fld line, parts_above winBeg winEnd fld line)"
proof (induction winBeg winEnd fld line rule: sub_line.induct)
  case (2 winBeg winEnd fld beg os line)
  have beyond: "map (\<lambda>(b, os). (b, if b < winEnd then os - {fld} else os)) line = line \<and>
      filter (\<lambda>(b, os). b < winEnd \<and> fld \<in> os \<and> b < winBeg) line = [] \<and>
      \<not> (\<exists>(b, os) \<in> set line. b < winEnd \<and> fld \<in> os)" if "winEnd \<le> beg"
    using that "2.prems" by (fastforce simp: filter_empty_conv intro!: map_idI)
  with 2 show ?case
    by (auto simp: Let_def cut_line_def hit_line_def parts_above_def)
qed (simp add: cut_line_def hit_line_def parts_above_def)

lemma sub_lines_closed:
  "\<forall>(end, line) \<in> set cont. winBeg < end \<and> omap_wf line \<Longrightarrow> sub_lines winBeg winEnd fld cont =
    Some (map (\<lambda>(end, line). (end, cut_line winEnd fld line)) cont,
      concat (map (\<lambda>(end, line). parts_above winBeg winEnd fld line @
        (if hit_line winEnd fld line \<and> winEnd < end then [(winEnd, end)] else [])) cont))"
proof (induction winBeg winEnd fld cont rule: sub_lines.induct)
  case (2 winBeg winEnd fld e line cont)
  have skip: "cut_line winEnd fld line = line \<and> parts_above winBeg winEnd fld line = [] \<and>
      \<not> hit_line winEnd fld line" if "line = [] \<or> winEnd \<le> fst (hd line)"
    using that "2.prems"
    by (cases line) (fastforce simp: cut_line_def hit_line_def parts_above_def filter_empty_conv
        intro!: map_idI)+
  from 2 have "omap_wf line" "winBeg < e" by auto
  with 2 skip show ?case by (auto simp: sub_line_closed Let_def)
qed simp

lemma cut_line_key:
  "(\<exists>leaf. (b, leaf) \<in> set (cut_line winEnd fld line) \<and> f \<in> leaf) \<longleftrightarrow>
   (\<exists>leaf. (b, leaf) \<in> set line \<and> f \<in> leaf) \<and> \<not> (f = fld \<and> b < winEnd)"
  by (fastforce simp: cut_line_def split: if_splits)

lemma fst_cut_line: "map fst (cut_line winEnd fld line) = map fst line"
  by (auto simp: cut_line_def)

lemma line_wf_cut: "line_wf end line \<Longrightarrow> line_wf end (cut_line winEnd fld line)"
  by (auto simp: line_wf_def omap_wf_def fst_cut_line) (auto simp: cut_line_def)

lemma arena_recover_spec:
  "arena_wf cont \<Longrightarrow> \<forall>(b, e) \<in> set rec. b < e \<Longrightarrow>
    arena_wf (arena_recover fld rec cont) \<and>
    (arena_key (arena_recover fld rec cont) f b e \<longleftrightarrow>
       arena_key cont f b e \<or> (f = fld \<and> (b, e) \<in> set rec))"
proof (induction rec arbitrary: cont)
  case (Cons r rec)
  obtain b' e' where r: "r = (b', e')" by (cases r)
  with Cons.prems have "arena_wf (arena_insert b' e' fld cont)"
    by (auto intro: arena_wf_insert)
  from Cons.IH [OF this] Cons.prems r show ?case
    by (auto simp: arena_recover_def arena_key_insert)
qed (simp add: arena_recover_def)

text \<open>What \<open>sub\<close> leaves of the lines before the pieces are inserted again.\<close>

definition cut_arena :: "int \<Rightarrow> int \<Rightarrow> 'f \<Rightarrow> 'f arena \<Rightarrow> 'f arena" where
  "cut_arena winBeg winEnd fld cont = omap_before (winBeg + 1) cont @
     map (\<lambda>(end, line). (end, cut_line winEnd fld line)) (omap_from (winBeg + 1) cont)"

definition pieces :: "int \<Rightarrow> int \<Rightarrow> 'f \<Rightarrow> 'f arena \<Rightarrow> chunk list" where
  "pieces winBeg winEnd fld cont =
     concat (map (\<lambda>(end, line). parts_above winBeg winEnd fld line @
        (if hit_line winEnd fld line \<and> winEnd < end then [(winEnd, end)] else []))
       (omap_from (winBeg + 1) cont))"

lemma arena_sub_closed:
  assumes "arena_wf cont" "winBeg < winEnd"
  shows "arena_sub (winBeg, winEnd) fld cont =
    Some (arena_recover fld (pieces winBeg winEnd fld cont) (cut_arena winBeg winEnd fld cont))"
proof -
  have "\<forall>(end, line) \<in> set (omap_from (winBeg + 1) cont). winBeg < end \<and> omap_wf line"
    using assms by (auto simp: arena_wf_def line_wf_def omap_simps)
  from sub_lines_closed [OF this] assms show ?thesis
    by (simp add: arena_sub_def cut_arena_def pieces_def)
qed

lemma arena_wf_cut:
  assumes "arena_wf cont"
  shows "arena_wf (cut_arena winBeg winEnd fld cont)"
proof -
  have "map fst (cut_arena winBeg winEnd fld cont) =
      map fst (omap_before (winBeg + 1) cont @ omap_from (winBeg + 1) cont)"
    by (auto simp: cut_arena_def)
  then have "omap_wf (cut_arena winBeg winEnd fld cont)"
    using assms by (simp add: omap_wf_def omap_before_from arena_wf_def)
  with assms show ?thesis
    by (auto simp: arena_wf_def cut_arena_def omap_simps line_wf_cut)
qed

lemma arena_key_cut:
  assumes "arena_wf cont"
  shows "arena_key (cut_arena winBeg winEnd fld cont) f b e \<longleftrightarrow>
    arena_key cont f b e \<and> \<not> (f = fld \<and> b < winEnd \<and> winBeg < e)"
proof -
  from assms have wf: "omap_wf cont" by (simp add: arena_wf_def)
  have "arena_key (map (\<lambda>(end, line). (end, cut_line winEnd fld line)) (omap_from (winBeg + 1) cont)) f b e
      \<longleftrightarrow> winBeg < e \<and> (\<exists>line. (e, line) \<in> set cont \<and>
          (\<exists>leaf. (b, leaf) \<in> set (cut_line winEnd fld line) \<and> f \<in> leaf))"
    by (force simp: arena_key_def omap_simps wf)
  moreover have "arena_key (omap_before (winBeg + 1) cont) f b e \<longleftrightarrow> e \<le> winBeg \<and> arena_key cont f b e"
    by (auto simp: arena_key_def omap_simps wf)
  ultimately show ?thesis
    by (auto simp: cut_arena_def arena_key_append cut_line_key arena_key_def)
qed

lemma set_pieces:
  assumes "arena_wf cont"
  shows "(b, e) \<in> set (pieces winBeg winEnd fld cont) \<longleftrightarrow>
    (e = winBeg \<and> b < winBeg \<and> b < winEnd \<and> (\<exists>e'. arena_key cont fld b e' \<and> winBeg < e')) \<or>
    (b = winEnd \<and> winEnd < e \<and> winBeg < e \<and> (\<exists>b'. arena_key cont fld b' e \<and> b' < winEnd))"
proof -
  from assms have wf: "omap_wf cont" by (simp add: arena_wf_def)
  show ?thesis
    by (fastforce simp: pieces_def parts_above_def hit_line_def arena_key_def omap_simps wf split: if_splits)
qed

lemma arena_sub_key:
  assumes "arena_wf cont" "winBeg < winEnd" "arena_sub (winBeg, winEnd) fld cont = Some cont'"
  shows "arena_wf cont'"
    and "arena_key cont' f b e \<longleftrightarrow>
      (arena_key cont f b e \<and> \<not> (f = fld \<and> b < winEnd \<and> winBeg < e)) \<or>
      (f = fld \<and>
        (e = winBeg \<and> b < winBeg \<and> (\<exists>e'. arena_key cont fld b e' \<and> winBeg < e') \<or>
         b = winEnd \<and> winEnd < e \<and> (\<exists>b'. arena_key cont fld b' e \<and> b' < winEnd)))"
proof -
  have pieces: "\<forall>(b, e) \<in> set (pieces winBeg winEnd fld cont). b < e"
    using assms(2) by (auto simp: set_pieces [OF assms(1)])
  from assms have cont': "cont' =
      arena_recover fld (pieces winBeg winEnd fld cont) (cut_arena winBeg winEnd fld cont)"
    by (simp add: arena_sub_closed)
  note rec = arena_recover_spec [OF arena_wf_cut [OF assms(1)] pieces]
  from rec show "arena_wf cont'" by (simp add: cont')
  show "arena_key cont' f b e \<longleftrightarrow>
      (arena_key cont f b e \<and> \<not> (f = fld \<and> b < winEnd \<and> winBeg < e)) \<or>
      (f = fld \<and>
        (e = winBeg \<and> b < winBeg \<and> (\<exists>e'. arena_key cont fld b e' \<and> winBeg < e') \<or>
         b = winEnd \<and> winEnd < e \<and> (\<exists>b'. arena_key cont fld b' e \<and> b' < winEnd)))"
    using rec assms(2) by (auto simp: cont' arena_key_cut set_pieces assms(1))
qed

lemma arena_at_sub:
  assumes "arena_wf cont" "winBeg < winEnd" "arena_sub (winBeg, winEnd) fld cont = Some cont'"
  shows "arena_at cont' f = (if f = fld then arena_at cont f - {winBeg..<winEnd} else arena_at cont f)"
proof (rule set_eqI)
  fix x
  show "x \<in> arena_at cont' f \<longleftrightarrow>
    x \<in> (if f = fld then arena_at cont f - {winBeg..<winEnd} else arena_at cont f)"
  proof (cases "f = fld")
    case False
    then show ?thesis by (simp add: arena_at_iff arena_sub_key(2) [OF assms])
  next
    case True
    have "\<exists>b e. arena_key cont' fld b e \<and> b \<le> x \<and> x < e"
      if "arena_key cont fld b e" "b \<le> x" "x < e" "\<not> (winBeg \<le> x \<and> x < winEnd)" for b e
    proof -
      have "arena_key cont' fld b winBeg" if "x < winBeg" "winBeg < e"
        using that \<open>arena_key cont fld b e\<close> \<open>b \<le> x\<close> by (auto simp: arena_sub_key(2) [OF assms])
      moreover have "arena_key cont' fld winEnd e" if "winEnd \<le> x" "b < winEnd"
        using that \<open>arena_key cont fld b e\<close> \<open>x < e\<close> by (auto simp: arena_sub_key(2) [OF assms])
      moreover have "arena_key cont' fld b e" if "\<not> (b < winEnd \<and> winBeg < e)"
        using that \<open>arena_key cont fld b e\<close> by (auto simp: arena_sub_key(2) [OF assms])
      ultimately show ?thesis using that assms(2) by (meson not_le)
    qed
    moreover have "\<exists>b e. arena_key cont fld b e \<and> b \<le> x \<and> x < e" "\<not> (winBeg \<le> x \<and> x < winEnd)"
      if "arena_key cont' fld b e" "b \<le> x" "x < e" for b e
      using that assms(2) by (force simp: arena_sub_key(2) [OF assms])+
    ultimately have "(\<exists>b e. arena_key cont' fld b e \<and> b \<le> x \<and> x < e) \<longleftrightarrow>
        (\<exists>b e. arena_key cont fld b e \<and> b \<le> x \<and> x < e) \<and> \<not> (winBeg \<le> x \<and> x < winEnd)"
      by blast
    with True show ?thesis by (simp add: arena_at_iff)
  qed
qed

subsection \<open>Queries\<close>

lemma intersects_line_closed:
  "omap_wf line \<Longrightarrow> intersects_line winEnd line = \<Union>{os. \<exists>b. (b, os) \<in> set line \<and> b < winEnd}"
proof (induction winEnd line rule: intersects_line.induct)
  case (2 winEnd beg os line)
  then show ?case by (cases "winEnd \<le> beg") (auto, force)
qed simp

lemma intersects_lines_closed:
  "\<forall>(end, line) \<in> set cont. winBeg < end \<and> omap_wf line \<Longrightarrow> intersects_lines winBeg winEnd cont =
    Some {f. \<exists>b e. arena_key cont f b e \<and> b < winEnd}"
proof (induction winBeg winEnd cont rule: intersects_lines.induct)
  case (2 winBeg winEnd e line cont)
  then have wf: "omap_wf line" "winBeg < e" by auto
  have "intersects_line winEnd line = {f. \<exists>b leaf. (b, leaf) \<in> set line \<and> f \<in> leaf \<and> b < winEnd}"
    by (auto simp: intersects_line_closed wf)
  moreover have "\<not> (\<exists>b leaf. (b, leaf) \<in> set line \<and> f \<in> leaf \<and> b < winEnd)"
    if "line = [] \<or> winEnd \<le> fst (hd line)" for f
    using that wf by (cases line) fastforce+
  ultimately show ?case
    using 2 by (auto simp: arena_key_Cons)
qed (simp add: arena_key_def)

lemma arena_intersects_eq:
  assumes "arena_wf cont" "winBeg < winEnd"
  shows "arena_intersects dst (winBeg, winEnd) cont =
    Some (dst \<union> {f. arena_at cont f \<inter> {winBeg..<winEnd} \<noteq> {}})"
proof -
  from assms have wf: "omap_wf cont" by (simp add: arena_wf_def)
  have "\<forall>(end, line) \<in> set (omap_from (winBeg + 1) cont). winBeg < end \<and> omap_wf line"
    using assms by (auto simp: arena_wf_def line_wf_def omap_simps)
  note lines = intersects_lines_closed [OF this]
  have from_key: "arena_key (omap_from (winBeg + 1) cont) f b e \<longleftrightarrow> winBeg < e \<and> arena_key cont f b e" for f b e
    by (auto simp: arena_key_def omap_simps wf)
  have meet: "(\<exists>x. x \<in> arena_at cont f \<inter> {winBeg..<winEnd}) \<longleftrightarrow>
      (\<exists>b e. winBeg < e \<and> arena_key cont f b e \<and> b < winEnd)" for f
  proof
    assume "\<exists>b e. winBeg < e \<and> arena_key cont f b e \<and> b < winEnd"
    then obtain b e where be: "winBeg < e" "arena_key cont f b e" "b < winEnd" by blast
    with arena_key_less [OF assms(1) be(2)] assms(2)
    have "max b winBeg \<in> arena_at cont f \<inter> {winBeg..<winEnd}"
      by (force simp: arena_at_iff)
    then show "\<exists>x. x \<in> arena_at cont f \<inter> {winBeg..<winEnd}" by blast
  qed (force simp: arena_at_iff)
  have "{f. arena_at cont f \<inter> {winBeg..<winEnd} \<noteq> {}} =
      {f. \<exists>b e. arena_key (omap_from (winBeg + 1) cont) f b e \<and> b < winEnd}"
    by (simp only: ex_in_conv [symmetric] meet from_key conj_assoc)
  with assms(2) show ?thesis by (simp add: arena_intersects_def lines)
qed

lemma set_arena_reverseLookup:
  "(b, e) \<in> set (arena_reverseLookup dst fld cont) \<longleftrightarrow> (b, e) \<in> set dst \<or> arena_key cont fld b e"
  by (fastforce simp: arena_reverseLookup_def arena_key_def)

lemma arena_exactMatch_eq:
  assumes "arena_wf cont"
  shows "arena_exactMatch dst (b, e) cont = dst \<union> {f. arena_key cont f b e}"
proof -
  from assms have wf: "omap_wf cont" by (simp add: arena_wf_def)
  have wfl: "omap_wf line" if "(e, line) \<in> set cont" for line
    using assms that by (auto simp: arena_wf_def line_wf_def)
  show ?thesis
  proof (cases "omap_find cont e")
    case None
    then show ?thesis
      by (auto simp: arena_exactMatch_def arena_key_def dest: weak_map_of_SomeI)
  next
    case (Some line)
    then have line: "(e, line) \<in> set cont" by (rule map_of_SomeD)
    have key: "arena_key cont f b e \<longleftrightarrow> (\<exists>leaf. omap_find line b = Some leaf \<and> f \<in> leaf)" for f
      using Some by (auto simp: arena_key_def omap_find_eq_Some [OF wfl [OF line]]
          simp flip: omap_find_eq_Some [OF wf])
    with Some show ?thesis
      by (auto simp: arena_exactMatch_def split: option.splits)
  qed
qed

lemma arena_add_eq:
  "beg < end \<Longrightarrow> arena_add (beg, end) fld cont = Some (arena_insert beg end fld cont)"
  by (simp add: arena_add_def)

section \<open>The interface\<close>

text \<open>
  What a client of the arena relies on, stated on the occupied offsets only.
\<close>

locale interval_store =
  fixes wf :: "'a \<Rightarrow> bool"
    and occ :: "'a \<Rightarrow> 'f \<Rightarrow> int set"
    and nil :: "'a"
    and add :: "chunk \<Rightarrow> 'f \<Rightarrow> 'a \<Rightarrow> 'a option"
    and sub :: "chunk \<Rightarrow> 'f \<Rightarrow> 'a \<Rightarrow> 'a option"
    and isect :: "'f set \<Rightarrow> chunk \<Rightarrow> 'a \<Rightarrow> 'f set option"
  assumes wf_nil: "wf nil"
    and occ_nil: "occ nil f = {}"
    and add_ok: "wf a \<Longrightarrow> b < e \<Longrightarrow> \<exists>a'. add (b, e) f a = Some a' \<and> wf a' \<and>
      (\<forall>g. occ a' g = (if g = f then occ a g \<union> {b..<e} else occ a g))"
    and sub_ok: "wf a \<Longrightarrow> b < e \<Longrightarrow> \<exists>a'. sub (b, e) f a = Some a' \<and> wf a' \<and>
      (\<forall>g. occ a' g = (if g = f then occ a g - {b..<e} else occ a g))"
    and isect_ok: "wf a \<Longrightarrow> b < e \<Longrightarrow> isect dst (b, e) a = Some (dst \<union> {f. occ a f \<inter> {b..<e} \<noteq> {}})"
begin

lemma add_then_isect:
  assumes "wf a" "b < e" "add (b, e) f a = Some a'" "isect {} (b, e) a' = Some fs"
  shows "f \<in> fs"
  using assms add_ok [of a b e f] isect_ok [of a' b e "{}"] by auto

lemma sub_then_isect:
  assumes "wf a" "b < e" "sub (b, e) f a = Some a'" "isect {} (b, e) a' = Some fs"
  shows "f \<notin> fs"
  using assms sub_ok [of a b e f] isect_ok [of a' b e "{}"] by auto

text \<open>Removing a sequence of chunks leaves what none of them covers.\<close>

lemma sub_all:
  assumes "wf a" "\<forall>(b, e) \<in> set cs. b < e"
  shows "\<exists>a'. ofold (\<lambda>c. sub c f) cs a = Some a' \<and> wf a' \<and>
    (\<forall>g. occ a' g = (if g = f then occ a g - (\<Union>(b, e) \<in> set cs. {b..<e}) else occ a g))"
  using assms
proof (induction cs arbitrary: a)
  case (Cons c cs)
  obtain b e where c: "c = (b, e)" by (cases c)
  with Cons.prems obtain a1 where a1: "sub c f a = Some a1" "wf a1"
    "\<And>g. occ a1 g = (if g = f then occ a g - {b..<e} else occ a g)"
    using sub_ok [of a b e f] by auto
  from Cons.IH [OF a1(2)] Cons.prems c obtain a' where "ofold (\<lambda>c. sub c f) cs a1 = Some a'" "wf a'"
    "\<And>g. occ a' g = (if g = f then occ a1 g - (\<Union>(b, e) \<in> set cs. {b..<e}) else occ a1 g)"
    by auto
  with a1 c show ?case by auto
qed simp

end

interpretation ia: interval_store arena_wf arena_at "[]" arena_add arena_sub arena_intersects
proof
  fix a :: "'f arena" and b e :: int and f :: 'f
  assume wf: "arena_wf a" and be: "b < e"
  show "\<exists>a'. arena_add (b, e) f a = Some a' \<and> arena_wf a' \<and>
      (\<forall>g. arena_at a' g = (if g = f then arena_at a g \<union> {b..<e} else arena_at a g))"
    using wf be by (auto simp: arena_add_eq arena_wf_insert arena_at_insert)
  have "\<exists>a'. arena_sub (b, e) f a = Some a'"
    using wf be by (simp add: arena_sub_closed)
  then show "\<exists>a'. arena_sub (b, e) f a = Some a' \<and> arena_wf a' \<and>
      (\<forall>g. arena_at a' g = (if g = f then arena_at a g - {b..<e} else arena_at a g))"
    using arena_sub_key(1) [OF wf be] arena_at_sub [OF wf be] by blast
qed (simp_all add: arena_intersects_eq)

section \<open>Properties\<close>

text \<open>
  C24: on a well-formed arena and a non-empty window, \<open>IntervalArena::sub\<close> returns, keeps the arena
  well-formed, removes exactly the offsets of the window from the field it is called for, and leaves
  what every other field occupies alone.
\<close>

theorem arena_sub_removes_window:
  assumes "arena_wf cont" "winBeg < winEnd"
  shows "\<exists>cont'. arena_sub (winBeg, winEnd) fld cont = Some cont' \<and> arena_wf cont' \<and>
    arena_at cont' fld = arena_at cont fld - {winBeg..<winEnd} \<and>
    (\<forall>f. f \<noteq> fld \<longrightarrow> arena_at cont' f = arena_at cont f)"
  using ia.sub_ok [OF assms, of fld] by auto

theorem arena_sub_removes_window_witness:
  "\<exists>cont'. arena_sub (2, 6) (7 :: int) [(8, [(0, {7 :: int, 9})])] = Some cont' \<and> arena_wf cont' \<and>
    arena_at cont' 7 = arena_at [(8, [(0, {7 :: int, 9})])] 7 - {2..<6} \<and>
    (\<forall>f. f \<noteq> 7 \<longrightarrow> arena_at cont' f = arena_at [(8, [(0, {7 :: int, 9})])] f)"
  by (rule arena_sub_removes_window) (simp_all add: arena_wf_def line_wf_def)

text \<open>
  C25: on a well-formed arena and a non-empty window, \<open>IntervalArena::intersects\<close> returns and adds to
  the destination exactly the fields that occupy some offset of the window.
\<close>

theorem arena_intersects_exact:
  assumes "arena_wf cont" "winBeg < winEnd"
  shows "arena_intersects dst (winBeg, winEnd) cont =
    Some (dst \<union> {f. \<exists>x. winBeg \<le> x \<and> x < winEnd \<and> x \<in> arena_at cont f})"
  using ia.isect_ok [OF assms] by (auto simp: set_eq_iff)

theorem arena_intersects_exact_witness:
  "arena_intersects {} (2, 6) [(4, [(0, {7 :: int})]), (9, [(6, {8})])] =
    Some ({} \<union> {f. \<exists>x. 2 \<le> x \<and> x < 6 \<and> x \<in> arena_at [(4, [(0, {7 :: int})]), (9, [(6, {8})])] f})"
  by (rule arena_intersects_exact) (simp_all add: arena_wf_def line_wf_def)

text \<open>
  C26: a chunk that \<open>IntervalArena::add\<close> maps to a field is found again: \<open>intersects\<close> on every window that shares a
  byte with the chunk returns the field with those that it returned already, and no other window returns more than before;
  \<open>exactMatch\<close> on the same chunk returns the field with those that were there already, and \<open>reverseLookup\<close> of the field
  lists the chunk with the chunks it had.
\<close>

theorem arena_add_found:
  assumes "arena_wf cont" "beg < end"
  shows "\<exists>cont'. arena_add (beg, end) fld cont = Some cont' \<and> arena_wf cont' \<and>
    (\<forall>ws we. ws < we \<longrightarrow> arena_intersects {} (ws, we) cont' =
       map_option (if ws < end \<and> beg < we then insert fld else id) (arena_intersects {} (ws, we) cont)) \<and>
    arena_exactMatch {} (beg, end) cont' = insert fld (arena_exactMatch {} (beg, end) cont) \<and>
    set (arena_reverseLookup [] fld cont') = insert (beg, end) (set (arena_reverseLookup [] fld cont))"
proof -
  let ?c = "arena_insert beg end fld cont"
  from assms have wf: "arena_wf ?c" by (rule arena_wf_insert)
  have at: "arena_at ?c f = arena_at cont f \<union> (if f = fld then {beg..<end} else {})" for f
    using arena_at_insert [OF assms(1)] by auto
  have "arena_intersects {} (ws, we) ?c =
      map_option (if ws < end \<and> beg < we then insert fld else id) (arena_intersects {} (ws, we) cont)" if w: "ws < we" for ws we
  proof -
    have "{beg..<end} \<inter> {ws..<we} \<noteq> {} \<longleftrightarrow> ws < end \<and> beg < we" using assms(2) w by auto
    then show ?thesis unfolding arena_intersects_eq [OF wf w] arena_intersects_eq [OF assms(1) w] at
      by (auto simp: Int_Un_distrib2)
  qed
  moreover have "set (arena_reverseLookup [] fld ?c) = insert (beg, end) (set (arena_reverseLookup [] fld cont))"
    by (auto simp: set_arena_reverseLookup arena_key_insert assms(1))
  ultimately show ?thesis
    using wf assms by (auto simp: arena_add_eq arena_exactMatch_eq arena_key_insert)
qed

theorem arena_add_found_witness:
  "\<exists>cont'. arena_add (0, 4) (5 :: int) [(4, [(0, {3 :: int})])] = Some cont' \<and> arena_wf cont' \<and>
    arena_intersects {} (2, 6) cont' = Some {3, 5} \<and>
    arena_exactMatch {} (0, 4) cont' = insert 5 (arena_exactMatch {} (0, 4) [(4, [(0, {3 :: int})])]) \<and>
    set (arena_reverseLookup [] 5 cont') = insert (0, 4) (set (arena_reverseLookup [] 5 [(4, [(0, {3 :: int})])]))"
proof -
  have "arena_wf [(4, [(0, {3 :: int})])]" "(0 :: int) < 4" by (simp_all add: arena_wf_def line_wf_def)
  moreover have "arena_intersects {} (2, 6) [(4, [(0, {3 :: int})])] = Some {3}" by code_simp
  ultimately show ?thesis using arena_add_found [of "[(4, [(0, {3 :: int})])]" 0 4 5] by (auto simp: insert_commute)
qed

end
