(* ===== verification/IntRange.thy ===== *)
theory IntRange
  imports Prelude "HOL-Library.Signed_Division"
begin

unbundle bit_operations_syntax

text \<open>
  The integer ranges of \<open>src/sl/intrange.hh\<close> and \<open>src/sl/intrange.cc\<close>.  \<open>TInt\<close> is a 64-bit signed
  integer (\<open>long\<close> on LP64, \<open>long long\<close> with \<open>USE_LONG_LONG\<close>): an \<open>int\<close> whose arithmetic is brought
  back to 64 bits by \<open>wrap64\<close> wherever the code's own arithmetic may leave them.  \<open>IntMin\<close> and \<open>IntMax\<close>
  stand for an unbounded end.  Every operation runs the debug-build self check \<open>chkRange\<close> and returns
  \<open>None\<close> where it traps.  The lemmas compare each operation with the numbers a range stands for
  (\<open>range_set\<close>).
\<close>

section \<open>Numbers\<close>

definition IntMin :: int where "IntMin = - (2 ^ 63)"
definition IntMax :: int where "IntMax = 2 ^ 63 - 1"

definition wrap64 :: "int \<Rightarrow> int" where
  "wrap64 x = signed_take_bit 63 x"

definition RZ_MIN :: int where "RZ_MIN = drop_bit 1 IntMin"
definition RZ_MAX :: int where "RZ_MAX = drop_bit 1 IntMax"

definition RZ_CORRUPTION :: "int \<Rightarrow> bool" where
  "RZ_CORRUPTION n \<longleftrightarrow> (IntMin \<noteq> n \<and> n < RZ_MIN) \<or> (IntMax \<noteq> n \<and> RZ_MAX < n)"

section \<open>Ranges\<close>

record range =
  lo :: int
  hi :: int
  alignment :: int

definition rngFromNum :: "int \<Rightarrow> range" where
  "rngFromNum num = \<lparr>lo = num, hi = num, alignment = 1\<rparr>"

definition FullRange :: range where
  "FullRange = \<lparr>lo = IntMin, hi = IntMax, alignment = 1\<rparr>"

definition chkRange :: "range \<Rightarrow> unit option" where
  "chkRange rng = do {
     cl_break_if (RZ_CORRUPTION (lo rng));
     cl_break_if (RZ_CORRUPTION (hi rng));
     cl_break_if (IntMax = lo rng);
     cl_break_if (IntMin = hi rng);
     cl_break_if (hi rng < lo rng);
     cl_break_if (alignment rng < 1);
     cl_break_if (IntMin \<noteq> lo rng \<and> lo rng smod alignment rng \<noteq> 0);
     cl_break_if (IntMax \<noteq> hi rng \<and> hi rng smod alignment rng \<noteq> 0);
     cl_break_if (IntMin \<noteq> lo rng \<and> IntMax \<noteq> hi rng \<and>
       wrap64 (wrap64 (1 + hi rng) - lo rng) < alignment rng)
   }"

text \<open>
  The loop of \<open>approxGCD\<close>: at the start of round \<open>i\<close> the variable \<open>gcd\<close> is \<open>1 << (i - 1)\<close>.
\<close>

function approxGCD_loop :: "int \<Rightarrow> int \<Rightarrow> nat \<Rightarrow> int" where
  "approxGCD_loop a b i =
     (let gcd = push_bit (i - 1) 1
      in if gcd \<le> a \<and> gcd \<le> b \<and> gcd < RZ_MAX then
           (let msk = push_bit i 1 - 1
            in if a AND msk \<noteq> 0 then gcd
               else if b AND msk \<noteq> 0 then gcd
               else approxGCD_loop a b (Suc i))
         else gcd)"
  by pat_completeness auto
termination
proof (relation "measure (\<lambda>(a, b, i). 64 - i)")
  fix a b gcd msk :: int and i :: nat
  assume "gcd = push_bit (i - 1) 1" "gcd \<le> a \<and> gcd \<le> b \<and> gcd < RZ_MAX"
  then have "(2::int) ^ (i - 1) < 2 ^ 62"
    by (simp add: RZ_MAX_def IntMax_def push_bit_eq_mult drop_bit_eq_div)
  then have "i < 64"
    using power_less_imp_less_exp [of "2::int" "i - 1" 62] by simp
  then show "((a, b, Suc i), a, b, i) \<in> measure (\<lambda>(a, b, i). 64 - i)"
    by simp
qed simp

declare approxGCD_loop.simps [simp del]

definition approxGCD :: "int \<Rightarrow> int \<Rightarrow> int option" where
  "approxGCD a b = do {
     cl_break_if (a < RZ_MIN \<or> RZ_MAX < a);
     cl_break_if (b < RZ_MIN \<or> RZ_MAX < b);
     let a = (if a < 0 then wrap64 (- a) else a);
     let b = (if b < 0 then wrap64 (- b) else b);
     Some (approxGCD_loop a b 1)
   }"

definition range_join :: "range \<Rightarrow> range \<Rightarrow> range option" where
  "range_join rng1 rng2 =
     (let result = \<lparr>lo = min (lo rng1) (lo rng2), hi = max (hi rng1) (hi rng2), alignment = 1\<rparr>
      in do { chkRange result; Some result })"

definition isSingular :: "range \<Rightarrow> bool option" where
  "isSingular rng = do { chkRange rng; Some (lo rng = hi rng) }"

definition isAligned :: "range \<Rightarrow> bool option" where
  "isAligned rng = do { chkRange rng; Some (1 < alignment rng) }"

text \<open>\<open>isRangeByNum\<close>: \<open>Some None\<close> for \<open>false\<close>, \<open>Some (Some isRange1)\<close> for \<open>true\<close> and the flag it stores.\<close>

definition isRangeByNum :: "range \<Rightarrow> range \<Rightarrow> bool option option" where
  "isRangeByNum rng1 rng2 = do {
     s1 \<leftarrow> isSingular rng1;
     s2 \<leftarrow> isSingular rng2;
     let isRange1 = (\<not> s1);
     let isRange2 = (\<not> s2);
     Some (if isRange1 = isRange2 then None else Some isRange1)
   }"

definition isCovered :: "range \<Rightarrow> range \<Rightarrow> bool option" where
  "isCovered small big = do {
     chkRange small;
     chkRange big;
     if lo big \<le> lo small \<and> hi small \<le> hi big then
       (if alignment big = 1 then Some True
        else do {
          g \<leftarrow> approxGCD (alignment small) (alignment big);
          Some (alignment big = g)
        })
     else Some False
   }"

definition adjustAlignment :: "range \<Rightarrow> range option" where
  "adjustAlignment rng = do {
     rng \<leftarrow> (if IntMin \<noteq> lo rng then do {
         g \<leftarrow> approxGCD (alignment rng) (lo rng);
         Some (rng\<lparr>alignment := g\<rparr>)
       } else Some rng);
     rng \<leftarrow> (if IntMax \<noteq> hi rng then do {
         g \<leftarrow> approxGCD (alignment rng) (hi rng);
         Some (rng\<lparr>alignment := g\<rparr>)
       } else Some rng);
     chkRange rng;
     Some rng
   }"

text \<open>\<open>widthOf\<close> returns an unsigned 64-bit number.\<close>

definition widthOf :: "range \<Rightarrow> int option" where
  "widthOf rng = do {
     chkRange rng;
     cl_break_if (rng = FullRange);
     Some ((1 + hi rng - lo rng) mod 2 ^ 64)
   }"

definition invertInt :: "int \<Rightarrow> int option" where
  "invertInt num = do {
     cl_break_if (RZ_CORRUPTION num);
     Some (if IntMin = num then IntMax
       else if IntMax = num then IntMin
       else wrap64 (- num))
   }"

definition range_uminus :: "range \<Rightarrow> range option" where
  "range_uminus rng = do {
     h \<leftarrow> invertInt (lo rng);
     l \<leftarrow> invertInt (hi rng);
     Some (rng\<lparr>lo := l, hi := h\<rparr>)
   }"

datatype EIntBinOp = IBO_ADD | IBO_MUL | IBO_LSHIFT | IBO_RSHIFT

fun intBinOp :: "int \<Rightarrow> int \<Rightarrow> EIntBinOp \<Rightarrow> int" where
  "intBinOp dst other IBO_ADD = wrap64 (dst + other)"
| "intBinOp dst other IBO_MUL = wrap64 (dst * other)"
| "intBinOp dst other IBO_LSHIFT = wrap64 (push_bit (nat other) dst)"
| "intBinOp dst other IBO_RSHIFT = drop_bit (nat other) dst"

definition rngBinOp :: "range \<Rightarrow> range \<Rightarrow> EIntBinOp \<Rightarrow> range option" where
  "rngBinOp rng other code = do {
     chkRange rng;
     chkRange other;
     let l = (if IntMin \<noteq> lo rng then
                (if IntMin = lo other then IntMin else intBinOp (lo rng) (lo other) code)
              else lo rng);
     let h = (if IntMax \<noteq> hi rng then
                (if IntMax = hi other then IntMax else intBinOp (hi rng) (hi other) code)
              else hi rng);
     Some (rng\<lparr>lo := l, hi := h\<rparr>)
   }"

definition alignmentOf :: "range \<Rightarrow> int option" where
  "alignmentOf rng = do {
     chkRange rng;
     s \<leftarrow> isSingular rng;
     if \<not> s then Some (alignment rng)
     else do {
       cl_break_if (1 \<noteq> alignment rng);
       let num = lo rng;
       Some (if num = 0 then 1 else if num < 0 then wrap64 (- num) else num)
     }
   }"

text \<open>\<open>operator+=\<close>, \<open>operator-=\<close>, \<open>operator<<=\<close>, \<open>operator>>=\<close> and \<open>operator*=\<close>.\<close>

definition range_add :: "range \<Rightarrow> range \<Rightarrow> range option" where
  "range_add rng other = do {
     al1 \<leftarrow> alignmentOf rng;
     al2 \<leftarrow> alignmentOf other;
     rng \<leftarrow> rngBinOp rng other IBO_ADD;
     let rng = rng\<lparr>alignment := 1\<rparr>;
     s \<leftarrow> isSingular rng;
     rng \<leftarrow> (if \<not> s then do { g \<leftarrow> approxGCD al1 al2; Some (rng\<lparr>alignment := g\<rparr>) } else Some rng);
     chkRange rng;
     Some rng
   }"

definition range_sub :: "range \<Rightarrow> range \<Rightarrow> range option" where
  "range_sub rng other = do { neg \<leftarrow> range_uminus other; range_add rng neg }"

definition range_lshift :: "range \<Rightarrow> int \<Rightarrow> range option" where
  "range_lshift rng n = do {
     rng \<leftarrow> rngBinOp rng (rngFromNum n) IBO_LSHIFT;
     let rng = rng\<lparr>alignment := 1\<rparr>;
     chkRange rng;
     Some rng
   }"

definition range_rshift :: "range \<Rightarrow> int \<Rightarrow> range option" where
  "range_rshift rng n = do {
     rng \<leftarrow> rngBinOp rng (rngFromNum n) IBO_RSHIFT;
     let rng = rng\<lparr>alignment := 1\<rparr>;
     chkRange rng;
     Some rng
   }"

definition range_mult :: "range \<Rightarrow> range \<Rightarrow> range option" where
  "range_mult rng other = do {
     r \<leftarrow> isRangeByNum rng other;
     let coef = (case r of None \<Rightarrow> 1 | Some isRange1 \<Rightarrow> if isRange1 then lo other else lo rng);
     let coef = (if coef = 0 then 1 else if coef < 0 then wrap64 (- coef) else coef);
     rng \<leftarrow> rngBinOp rng other IBO_MUL;
     let rng = (if lo rng = hi rng then rng\<lparr>alignment := 1\<rparr>
                else rng\<lparr>alignment := wrap64 (wrap64 (alignment rng * alignment other) * coef)\<rparr>);
     chkRange rng;
     Some rng
   }"

text \<open>
  The loop of \<open>isZeroIntersection\<close> runs on the alignment less one, which is not negative there.
\<close>

function isZeroIntersection_loop :: "nat \<Rightarrow> int \<Rightarrow> bool" where
  "isZeroIntersection_loop al msk =
     (if odd al then
        (let msk = drop_bit 1 msk
         in if msk = 0 then True else isZeroIntersection_loop (al div 2) msk)
      else False)"
  by pat_completeness auto
termination
  by (relation "measure fst") (auto elim: oddE)

declare isZeroIntersection_loop.simps [simp del]

definition isZeroIntersection :: "int \<Rightarrow> int \<Rightarrow> bool option" where
  "isZeroIntersection al msk = do {
     cl_break_if (al < 1);
     Some (if msk = 0 then True else isZeroIntersection_loop (nat (al - 1)) msk)
   }"

text \<open>The loop of \<open>maskToAlignment\<close> is entered with a non-zero msk only.\<close>

function maskToAlignment_loop :: "int \<Rightarrow> int \<Rightarrow> int" where
  "maskToAlignment_loop msk al =
     (if msk \<noteq> 0 \<and> msk AND 1 = 0 then maskToAlignment_loop (drop_bit 1 msk) (wrap64 (push_bit 1 al))
      else al)"
  by pat_completeness auto
termination
  by (relation "measure (\<lambda>(msk, al). nat \<bar>msk\<bar>)") (auto simp: drop_bit_eq_div and_one_eq)

declare maskToAlignment_loop.simps [simp del]

definition maskToAlignment :: "int \<Rightarrow> int option" where
  "maskToAlignment msk = do {
     cl_break_if (msk = 0);
     Some (maskToAlignment_loop msk 1)
   }"

text \<open>
  \<open>extendSignedIntFromLeft\<close> ends at the latest when \<open>singleOne\<close> has been shifted out.
\<close>

function extendSigned_loop :: "int \<Rightarrow> int \<Rightarrow> int" where
  "extendSigned_loop num singleOne =
     (let num' = wrap64 (num OR singleOne)
      in if num = num' \<or> singleOne \<le> 0 then num' else extendSigned_loop num' (drop_bit 1 singleOne))"
  by pat_completeness auto
termination
  by (relation "measure (nat \<circ> snd)") (auto simp: drop_bit_eq_div)

declare extendSigned_loop.simps [simp del]

definition extendSignedIntFromLeft :: "int \<Rightarrow> int" where
  "extendSignedIntFromLeft num = extendSigned_loop num (2 ^ 63)"

definition range_and :: "range \<Rightarrow> int \<Rightarrow> range option" where
  "range_and rng msk = do {
     z \<leftarrow> isZeroIntersection (alignment rng) msk;
     if z then Some (rngFromNum 0)
     else do {
       let msk = (if 0 < msk then extendSignedIntFromLeft msk else msk);
       al \<leftarrow> maskToAlignment msk;
       let rng = \<lparr>lo = lo rng AND msk, hi = hi rng AND msk, alignment = al\<rparr>;
       chkRange rng;
       Some rng
     }
   }"

section \<open>Arithmetic facts\<close>

lemma wrap64_id [simp]: "- (2 ^ 63) \<le> x \<Longrightarrow> x < 2 ^ 63 \<Longrightarrow> wrap64 x = x"
  by (simp add: wrap64_def signed_take_bit_int_eq_self)

lemma limits:
  "IntMin = - 9223372036854775808" "IntMax = 9223372036854775807"
  "RZ_MIN = - 4611686018427387904" "RZ_MAX = 4611686018427387903"
  by (simp_all add: IntMin_def IntMax_def RZ_MIN_def RZ_MAX_def drop_bit_eq_div)

lemma wrap64_eq [simp]:
  "- 9223372036854775808 \<le> x \<Longrightarrow> x \<le> 9223372036854775807 \<Longrightarrow> wrap64 x = x"
  by (rule wrap64_id) simp_all

lemma smod_eq_0_iff: "0 < b \<Longrightarrow> (a :: int) smod b = 0 \<longleftrightarrow> b dvd a"
  by (simp add: signed_modulo_int_def signed_divide_int_def mult.assoc sgn_eq_0_iff)
    (metis dvd_0_right dvd_abs_iff dvd_eq_mod_eq_0)

text \<open>What a range that passes \<open>chkRange\<close> looks like.\<close>

definition range_ok :: "range \<Rightarrow> bool" where
  "range_ok rng \<longleftrightarrow> chkRange rng = Some ()"

lemma chkRange_unit: "chkRange rng = Some u \<longleftrightarrow> range_ok rng"
  by (simp add: range_ok_def)

lemma chkRange_bind [simp]:
  "Option.bind (chkRange rng) f = (if range_ok rng then f () else None)"
  by (cases "chkRange rng") (simp_all add: range_ok_def)

lemma range_ok_iff:
  "range_ok rng \<longleftrightarrow>
    \<not> RZ_CORRUPTION (lo rng) \<and> \<not> RZ_CORRUPTION (hi rng) \<and> lo rng \<noteq> IntMax \<and> hi rng \<noteq> IntMin \<and>
    lo rng \<le> hi rng \<and> 1 \<le> alignment rng \<and>
    (lo rng \<noteq> IntMin \<longrightarrow> alignment rng dvd lo rng) \<and>
    (hi rng \<noteq> IntMax \<longrightarrow> alignment rng dvd hi rng) \<and>
    (lo rng \<noteq> IntMin \<longrightarrow> hi rng \<noteq> IntMax \<longrightarrow>
      alignment rng \<le> wrap64 (wrap64 (1 + hi rng) - lo rng))"
  by (auto simp: range_ok_def chkRange_def smod_eq_0_iff split: if_splits)

lemma not_corrupt:
  assumes "\<not> RZ_CORRUPTION n"
  shows "n = IntMin \<or> n = IntMax \<or> RZ_MIN \<le> n \<and> n \<le> RZ_MAX"
  using assms unfolding RZ_CORRUPTION_def by linarith

lemma range_okD:
  assumes "range_ok rng"
  shows "lo rng \<noteq> IntMax" "hi rng \<noteq> IntMin" "lo rng \<le> hi rng" "1 \<le> alignment rng"
    and "\<not> RZ_CORRUPTION (lo rng)" "\<not> RZ_CORRUPTION (hi rng)"
  using assms by (simp_all add: range_ok_iff)

lemma range_ok_bounds:
  assumes "range_ok rng"
  shows "lo rng = IntMin \<or> RZ_MIN \<le> lo rng \<and> lo rng \<le> RZ_MAX"
    and "hi rng = IntMax \<or> RZ_MIN \<le> hi rng \<and> hi rng \<le> RZ_MAX"
    and "lo rng \<le> hi rng" and "1 \<le> alignment rng"
  using range_okD [OF assms] not_corrupt by blast+

lemma range_ok_fits:
  assumes "range_ok rng"
  shows "IntMin \<le> lo rng" "lo rng < IntMax" "IntMin < hi rng" "hi rng \<le> IntMax"
  using range_ok_bounds [OF assms] by (auto simp: limits)

lemma range_ok_num: "RZ_MIN \<le> n \<Longrightarrow> n \<le> RZ_MAX \<Longrightarrow> range_ok (rngFromNum n)"
  by (auto simp: range_ok_iff rngFromNum_def RZ_CORRUPTION_def limits)

subsection \<open>The greatest common power of two\<close>

lemma and_mask_eq_0_iff: "a AND (2 ^ i - 1) = 0 \<longleftrightarrow> (2 :: int) ^ i dvd a"
  by (simp add: dvd_eq_mod_eq_0 flip: mask_eq_exp_minus_1 take_bit_eq_mask take_bit_eq_mod)

lemma approxGCD_loop_unfold:
  "approxGCD_loop a b i =
    (if 2 ^ (i - 1) \<le> a \<and> 2 ^ (i - 1) \<le> b \<and> 2 ^ (i - 1) < RZ_MAX then
       (if 2 ^ i dvd a \<and> 2 ^ i dvd b then approxGCD_loop a b (Suc i) else 2 ^ (i - 1)) else 2 ^ (i - 1))"
  by (subst approxGCD_loop.simps) (simp only: and_mask_eq_0_iff push_bit_of_1 Let_def, simp)

lemma approxGCD_loop_spec:
  assumes "0 \<le> a" "0 \<le> b" "a \<le> 2 ^ 62" "1 \<le> i" "2 ^ (i - 1) dvd a" "2 ^ (i - 1) dvd b"
  shows "\<exists>k. approxGCD_loop a b i = 2 ^ k \<and> 2 ^ k dvd a \<and> 2 ^ k dvd b \<and>
    (a \<noteq> 0 \<longrightarrow> b \<noteq> 0 \<longrightarrow> \<not> (2 ^ Suc k dvd a \<and> 2 ^ Suc k dvd b))"
  using assms
proof (induction a b i rule: approxGCD_loop.induct)
  case (1 a b i)
  let ?go = "2 ^ (i - 1) \<le> a \<and> 2 ^ (i - 1) \<le> b \<and> 2 ^ (i - 1) < RZ_MAX"
  consider (stop) "\<not> ?go" | (found) "?go" "\<not> (2 ^ i dvd a \<and> 2 ^ i dvd b)"
    | (go) "?go" "2 ^ i dvd a" "2 ^ i dvd b"
    by blast
  then show ?case
  proof cases
    case stop
    have "\<not> 2 ^ Suc (i - 1) dvd a" if "a \<noteq> 0" "b \<noteq> 0"
    proof
      assume dvd: "2 ^ Suc (i - 1) dvd a"
      have le: "2 * 2 ^ (i - 1) \<le> a"
        using zdvd_imp_le [OF dvd] that "1.prems"(1) by (simp only: power_Suc)
      then have "2 ^ (i - 1) \<le> a"
        using zero_le_power [of "2 :: int" "i - 1"] by linarith
      moreover have "2 ^ (i - 1) \<le> b"
        using that "1.prems" by (simp add: zdvd_imp_le)
      ultimately show False using le stop "1.prems"(3) by (auto simp: limits)
    qed
    with stop "1.prems" show ?thesis
      by (subst approxGCD_loop_unfold) (intro exI [of _ "i - 1"], auto)
  next
    case found
    with "1.prems" show ?thesis
      by (subst approxGCD_loop_unfold) (intro exI [of _ "i - 1"], auto)
  next
    case go
    have "\<exists>k. approxGCD_loop a b (Suc i) = 2 ^ k \<and> 2 ^ k dvd a \<and> 2 ^ k dvd b \<and>
        (a \<noteq> 0 \<longrightarrow> b \<noteq> 0 \<longrightarrow> \<not> (2 ^ Suc k dvd a \<and> 2 ^ Suc k dvd b))"
      by (rule "1.IH" [OF refl _ refl])
        (use go "1.prems" in \<open>simp_all add: and_mask_eq_0_iff push_bit_of_1\<close>)
    with go show ?thesis by (subst approxGCD_loop_unfold) simp
  qed
qed

lemma approxGCD_spec:
  assumes "approxGCD a b = Some g"
  shows "\<exists>k. g = 2 ^ k \<and> g dvd a \<and> g dvd b \<and>
    (a \<noteq> 0 \<longrightarrow> b \<noteq> 0 \<longrightarrow> \<not> (2 * g dvd a \<and> 2 * g dvd b))"
proof -
  from assms have "\<bar>a\<bar> \<le> 2 ^ 62" and g: "g = approxGCD_loop \<bar>a\<bar> \<bar>b\<bar> 1"
    by (auto simp: approxGCD_def limits abs_if split: if_splits)
  then obtain k where "g = 2 ^ k" "2 ^ k dvd \<bar>a\<bar>" "2 ^ k dvd \<bar>b\<bar>"
    "\<bar>a\<bar> \<noteq> 0 \<longrightarrow> \<bar>b\<bar> \<noteq> 0 \<longrightarrow> \<not> (2 ^ Suc k dvd \<bar>a\<bar> \<and> 2 ^ Suc k dvd \<bar>b\<bar>)"
    using approxGCD_loop_spec [of "\<bar>a\<bar>" "\<bar>b\<bar>" 1] by auto
  then show ?thesis by auto
qed

lemma approxGCD_dvd:
  assumes "approxGCD a b = Some g"
  shows "g dvd a" "g dvd b" "1 \<le> g"
  using approxGCD_spec [OF assms] by auto

section \<open>What a range stands for\<close>

definition range_set :: "range \<Rightarrow> int set" where
  "range_set rng = {x. (lo rng = IntMin \<or> lo rng \<le> x) \<and> (hi rng = IntMax \<or> x \<le> hi rng) \<and>
     alignment rng dvd x}"

lemma range_set_num [simp]: "n \<noteq> IntMin \<Longrightarrow> n \<noteq> IntMax \<Longrightarrow> range_set (rngFromNum n) = {n}"
  by (auto simp: range_set_def rngFromNum_def)

lemma range_set_full [simp]: "range_set FullRange = UNIV"
  by (auto simp: range_set_def FullRange_def)

lemma isSingular_eq: "isSingular rng = Some b \<longleftrightarrow> range_ok rng \<and> b = (lo rng = hi rng)"
  by (auto simp: isSingular_def)

lemma range_set_singular:
  assumes "range_ok rng" "lo rng = hi rng"
  shows "range_set rng = {lo rng}" "lo rng \<noteq> IntMin" "lo rng \<noteq> IntMax"
  using assms by (auto simp: range_set_def range_ok_iff)

lemma alignmentOf_dvd:
  assumes "alignmentOf rng = Some al" "x \<in> range_set rng"
  shows "al dvd x"
proof (cases "lo rng = hi rng")
  case True
  with assms have "x = lo rng"
    by (auto simp: alignmentOf_def isSingular_def range_set_singular split: if_splits)
  moreover have "wrap64 (- lo rng) = - lo rng" if "lo rng < 0" "range_ok rng" "lo rng = hi rng"
    using that range_ok_bounds [of rng] range_set_singular(2) [of rng]
    by (intro wrap64_eq) (auto simp: limits)
  ultimately show ?thesis
    using assms True by (auto simp: alignmentOf_def isSingular_def Let_def split: if_splits)
next
  case False
  with assms show ?thesis by (auto simp: alignmentOf_def isSingular_def range_set_def split: if_splits)
qed

subsection \<open>Addition, subtraction, join and inclusion\<close>

lemma rngBinOp_add_bounds:
  assumes "rngBinOp rng other IBO_ADD = Some r"
  shows "lo r = (if lo rng = IntMin \<or> lo other = IntMin then IntMin else lo rng + lo other)"
    and "hi r = (if hi rng = IntMax \<or> hi other = IntMax then IntMax else hi rng + hi other)"
    and "alignment r = alignment rng"
proof -
  from assms have ok: "range_ok rng" "range_ok other"
    by (auto simp: rngBinOp_def split: if_splits)
  have "wrap64 (lo rng + lo other) = lo rng + lo other" if "lo rng \<noteq> IntMin" "lo other \<noteq> IntMin"
    using that range_ok_bounds(1) [OF ok(1)] range_ok_bounds(1) [OF ok(2)]
    by (intro wrap64_eq) (auto simp: limits)
  moreover have "wrap64 (hi rng + hi other) = hi rng + hi other" if "hi rng \<noteq> IntMax" "hi other \<noteq> IntMax"
    using that range_ok_bounds(2) [OF ok(1)] range_ok_bounds(2) [OF ok(2)]
    by (intro wrap64_eq) (auto simp: limits)
  ultimately show "lo r = (if lo rng = IntMin \<or> lo other = IntMin then IntMin else lo rng + lo other)"
    and "hi r = (if hi rng = IntMax \<or> hi other = IntMax then IntMax else hi rng + hi other)"
    and "alignment r = alignment rng"
    using assms ok by (auto simp: rngBinOp_def Let_def)
qed

lemma range_add_sound:
  assumes "range_add rng other = Some r" "x \<in> range_set rng" "y \<in> range_set other"
  shows "x + y \<in> range_set r"
proof -
  from assms(1) obtain al1 al2 r1 g where al: "alignmentOf rng = Some al1" "alignmentOf other = Some al2"
    and r1: "rngBinOp rng other IBO_ADD = Some r1"
    and r: "r = r1\<lparr>alignment := g\<rparr>" "g = 1 \<or> approxGCD al1 al2 = Some g"
    by (auto simp: range_add_def Let_def bind_eq_Some_conv split: if_splits)
  have dvd: "al1 dvd x" "al2 dvd y"
    using al assms(2,3) by (blast intro: alignmentOf_dvd)+
  have "g dvd x + y"
  proof (cases "g = 1")
    case False
    with r(2) have "approxGCD al1 al2 = Some g" by simp
    from approxGCD_dvd(1,2) [OF this] dvd show ?thesis
      by (meson dvd_add dvd_trans)
  qed simp
  moreover have "lo rng \<noteq> IntMin \<Longrightarrow> lo rng \<le> x" "lo other \<noteq> IntMin \<Longrightarrow> lo other \<le> y"
    "hi rng \<noteq> IntMax \<Longrightarrow> x \<le> hi rng" "hi other \<noteq> IntMax \<Longrightarrow> y \<le> hi other"
    using assms(2,3) by (auto simp: range_set_def)
  ultimately show ?thesis
    by (auto simp: range_set_def r rngBinOp_add_bounds [OF r1])
qed

lemma invertInt_eq:
  "invertInt n = Some m \<longleftrightarrow> \<not> RZ_CORRUPTION n \<and>
    m = (if n = IntMin then IntMax else if n = IntMax then IntMin else - n)"
proof -
  have "wrap64 (- n) = - n" if "\<not> RZ_CORRUPTION n" "n \<noteq> IntMin" "n \<noteq> IntMax"
    using that by (intro wrap64_eq) (auto simp: RZ_CORRUPTION_def limits)
  then show ?thesis by (auto simp: invertInt_def)
qed

lemma range_uminus_sound:
  assumes "range_uminus rng = Some r" "lo rng \<noteq> IntMax" "hi rng \<noteq> IntMin" "x \<in> range_set rng"
  shows "- x \<in> range_set r"
  using assms by (auto simp: range_uminus_def invertInt_eq range_set_def bind_eq_Some_conv split: if_splits)

lemma range_sub_sound:
  assumes "range_sub rng other = Some r" "x \<in> range_set rng" "y \<in> range_set other"
  shows "x - y \<in> range_set r"
proof -
  from assms(1) obtain neg where neg: "range_uminus other = Some neg" "range_add rng neg = Some r"
    by (auto simp: range_sub_def bind_eq_Some_conv)
  from neg(2) have "range_ok neg"
    by (auto simp: range_add_def alignmentOf_def bind_eq_Some_conv split: if_splits)
  then have "lo neg \<noteq> IntMax" "hi neg \<noteq> IntMin" by (rule range_okD)+
  with neg(1) have "lo other \<noteq> IntMax" "hi other \<noteq> IntMin"
    by (auto simp: range_uminus_def invertInt_eq bind_eq_Some_conv limits split: if_splits)
  from range_uminus_sound [OF neg(1) this assms(3)] have "- y \<in> range_set neg" .
  from range_add_sound [OF neg(2) assms(2) this] show ?thesis by simp
qed

lemma range_join_sound:
  assumes "range_join a b = Some r" "range_ok a" "range_ok b" "x \<in> range_set a \<or> x \<in> range_set b"
  shows "x \<in> range_set r"
proof -
  from assms(1) have "lo r = min (lo a) (lo b)" "hi r = max (hi a) (hi b)" "alignment r = 1"
    by (auto simp: range_join_def Let_def split: if_splits)
  with assms(4) range_ok_fits [OF assms(2)] range_ok_fits [OF assms(3)] show ?thesis
    by (auto simp: range_set_def min_def max_def)
qed

lemma isCovered_sound:
  assumes "isCovered small big = Some True"
  shows "range_set small \<subseteq> range_set big"
proof -
  from assms have ok: "range_ok small" "range_ok big" and bd: "lo big \<le> lo small" "hi small \<le> hi big"
    by (auto simp: isCovered_def split: if_splits)
  have "alignment big = 1 \<or> alignment big dvd alignment small"
    using assms ok bd by (auto simp: isCovered_def bind_eq_Some_conv split: if_splits dest: approxGCD_dvd)
  then have al: "alignment small dvd x \<Longrightarrow> alignment big dvd x" for x
    by (auto intro: dvd_trans)
  have "lo big = IntMin" if "lo small = IntMin"
    using that bd(1) range_ok_bounds(1) [OF ok(2)] by (auto simp: limits)
  moreover have "hi big = IntMax" if "hi small = IntMax"
    using that bd(2) range_ok_bounds(2) [OF ok(2)] by (auto simp: limits)
  ultimately show ?thesis
    using bd al by (fastforce simp: range_set_def)
qed

subsection \<open>Shifts and multiplication\<close>

lemma range_rshift_sound:
  assumes "range_rshift rng n = Some r" "x \<in> range_set rng"
  shows "drop_bit (nat n) x \<in> range_set r"
proof -
  from assms(1) have ok: "range_ok rng" "range_ok (rngFromNum n)"
    by (auto simp: range_rshift_def rngBinOp_def split: if_splits)
  then have "n \<noteq> IntMin" "n \<noteq> IntMax" by (auto simp: range_ok_iff rngFromNum_def)
  moreover have "drop_bit (nat n) a \<le> drop_bit (nat n) b" if "a \<le> b" for a b :: int
    using that by (simp add: drop_bit_eq_div zdiv_mono1)
  ultimately show ?thesis
    using assms ok by (auto simp: range_rshift_def rngBinOp_def Let_def range_set_def rngFromNum_def
        split: if_splits)
qed

definition fits64 :: "int \<Rightarrow> bool" where
  "fits64 x \<longleftrightarrow> IntMin \<le> x \<and> x \<le> IntMax"

lemma wrap64_fits: "fits64 x \<Longrightarrow> wrap64 x = x"
  by (simp add: fits64_def limits)

lemma range_lshift_sound:
  assumes "range_lshift rng n = Some r" "x \<in> range_set rng"
    and "lo rng \<noteq> IntMin \<Longrightarrow> fits64 (push_bit (nat n) (lo rng))"
    and "hi rng \<noteq> IntMax \<Longrightarrow> fits64 (push_bit (nat n) (hi rng))"
  shows "push_bit (nat n) x \<in> range_set r"
proof -
  from assms(1) have ok: "range_ok rng" "range_ok (rngFromNum n)"
    by (auto simp: range_lshift_def rngBinOp_def split: if_splits)
  then have "n \<noteq> IntMin" "n \<noteq> IntMax" by (auto simp: range_ok_iff rngFromNum_def)
  moreover have "push_bit (nat n) a \<le> push_bit (nat n) b" if "a \<le> b" for a b :: int
    using that by (simp add: push_bit_eq_mult)
  ultimately show ?thesis
    using assms ok by (auto simp: range_lshift_def rngBinOp_def Let_def range_set_def rngFromNum_def
        wrap64_fits split: if_splits)
qed

lemma range_ok_align_le:
  assumes "range_ok rng" "0 \<le> lo rng" "hi rng \<noteq> IntMax"
  shows "lo rng = hi rng \<Longrightarrow> alignment rng = 1" and "lo rng \<noteq> hi rng \<Longrightarrow> alignment rng \<le> hi rng"
proof -
  have ok: "lo rng \<noteq> IntMin" "lo rng \<le> hi rng" "hi rng \<le> RZ_MAX"
    using assms range_ok_bounds [OF assms(1)] by (auto simp: limits)
  have dvd: "alignment rng dvd hi rng" and al: "1 \<le> alignment rng"
    using assms by (auto simp: range_ok_iff)
  have "wrap64 (wrap64 (1 + hi rng) - lo rng) = 1 + hi rng - lo rng"
    using ok assms(2) by (simp add: limits)
  with assms ok al show "lo rng = hi rng \<Longrightarrow> alignment rng = 1"
    by (auto simp: range_ok_iff)
  show "lo rng \<noteq> hi rng \<Longrightarrow> alignment rng \<le> hi rng"
    using zdvd_imp_le [OF dvd] ok(2) assms(2) by simp
qed

lemma isRangeByNum_eq:
  "range_ok rng1 \<Longrightarrow> range_ok rng2 \<Longrightarrow> isRangeByNum rng1 rng2 =
    Some (if (lo rng1 = hi rng1) = (lo rng2 = hi rng2) then None else Some (lo rng1 \<noteq> hi rng1))"
  by (simp add: isRangeByNum_def isSingular_def)

lemma rngBinOp_mult_eq:
  assumes "range_ok rng" "range_ok other" "lo rng \<noteq> IntMin" "lo other \<noteq> IntMin"
    "hi rng \<noteq> IntMax" "hi other \<noteq> IntMax" "fits64 (lo rng * lo other)" "fits64 (hi rng * hi other)"
  shows "rngBinOp rng other IBO_MUL = Some (rng\<lparr>lo := lo rng * lo other, hi := hi rng * hi other\<rparr>)"
  using assms by (simp add: rngBinOp_def wrap64_fits)

text \<open>The factor that \<open>operator*=\<close> adds to the alignment of a product of non-negative ranges.\<close>

definition mult_coef :: "range \<Rightarrow> range \<Rightarrow> int" where
  "mult_coef rng other = (if (lo rng = hi rng) = (lo other = hi other) then 1
    else if lo rng = hi rng then (if lo rng = 0 then 1 else lo rng)
    else (if lo other = 0 then 1 else lo other))"

lemma range_mult_eq:
  assumes "range_mult rng other = Some r" "0 \<le> lo rng" "0 \<le> lo other"
    "hi rng \<noteq> IntMax" "hi other \<noteq> IntMax" "fits64 (lo rng * lo other)" "fits64 (hi rng * hi other)"
  shows "range_ok rng" "range_ok other" "lo r = lo rng * lo other" "hi r = hi rng * hi other"
    "alignment r = (if lo rng * lo other = hi rng * hi other then 1
       else wrap64 (wrap64 (alignment rng * alignment other) * mult_coef rng other))"
proof -
  from assms(1) show ok: "range_ok rng" "range_ok other"
    by (auto simp: range_mult_def rngBinOp_def bind_eq_Some_conv split: if_splits)
  have fin: "lo rng \<noteq> IntMin" "lo other \<noteq> IntMin" using assms(2,3) by (auto simp: limits)
  have "(let c = (case if (lo rng = hi rng) = (lo other = hi other) then None else Some (lo rng \<noteq> hi rng)
        of None \<Rightarrow> 1 | Some isRange1 \<Rightarrow> if isRange1 then lo other else lo rng)
      in if c = 0 then 1 else if c < 0 then wrap64 (- c) else c) = mult_coef rng other"
    using assms(2,3) by (simp add: mult_coef_def)
  then have "r = (if lo rng * lo other = hi rng * hi other
      then rng\<lparr>lo := lo rng * lo other, hi := hi rng * hi other, alignment := 1\<rparr>
      else rng\<lparr>lo := lo rng * lo other, hi := hi rng * hi other,
        alignment := wrap64 (wrap64 (alignment rng * alignment other) * mult_coef rng other)\<rparr>)"
    using assms(1) unfolding range_mult_def isRangeByNum_eq [OF ok]
      rngBinOp_mult_eq [OF ok fin assms(4-7)]
    by (simp add: Let_def split: if_splits)
  then show "lo r = lo rng * lo other" "hi r = hi rng * hi other"
    "alignment r = (if lo rng * lo other = hi rng * hi other then 1
       else wrap64 (wrap64 (alignment rng * alignment other) * mult_coef rng other))"
    by simp_all
qed

text \<open>The new alignment divides every product and does not overflow.\<close>

lemma mult_alignment:
  assumes ok: "range_ok rng" "range_ok other" "0 \<le> lo rng" "0 \<le> lo other"
      "hi rng \<noteq> IntMax" "hi other \<noteq> IntMax"
    and xy: "lo rng \<le> x" "x \<le> hi rng" "lo other \<le> y" "y \<le> hi other"
      "alignment rng dvd x" "alignment other dvd y"
    and ne: "lo rng * lo other \<noteq> hi rng * hi other"
  shows "alignment rng * alignment other * mult_coef rng other \<le> hi rng * hi other \<and>
    alignment rng * alignment other \<le> hi rng * hi other \<and> 0 \<le> mult_coef rng other \<and>
    alignment rng * alignment other * mult_coef rng other dvd x * y"
proof -
  note al1 = range_ok_align_le [OF ok(1,3,5)] and al2 = range_ok_align_le [OF ok(2,4,6)]
  note pos = range_okD(4) [OF ok(1)] range_okD(4) [OF ok(2)]
  consider (num1) "lo rng = hi rng" "lo other \<noteq> hi other"
    | (num2) "lo rng \<noteq> hi rng" "lo other = hi other"
    | (both) "lo rng \<noteq> hi rng" "lo other \<noteq> hi other"
    using ne by (cases "lo rng = hi rng"; cases "lo other = hi other") auto
  then show ?thesis
  proof cases
    case num1
    with ne ok(3) have "1 \<le> lo rng" "mult_coef rng other = lo rng" "x = lo rng" "alignment rng = 1"
      using xy al1 by (auto simp: mult_coef_def)
    with num1 xy(6) pos al2(2) show ?thesis
      using mult_mono [of 1 "lo rng" "alignment other" "hi other"]
      by (simp add: mult.commute mult_left_mono mult_dvd_mono)
  next
    case num2
    with ne ok(4) have "1 \<le> lo other" "mult_coef rng other = lo other" "y = lo other" "alignment other = 1"
      using xy al2 by (auto simp: mult_coef_def)
    with num2 xy(5) pos al1(2) show ?thesis
      using mult_mono [of "alignment rng" "hi rng" 1 "lo other"]
      by (simp add: mult_right_mono mult_dvd_mono)
  next
    case both
    with al1 al2 pos xy(5,6) show ?thesis
      by (auto simp: mult_coef_def intro: mult_mono mult_dvd_mono)
  qed
qed

lemma range_mult_sound:
  assumes "range_mult rng other = Some r" "x \<in> range_set rng" "y \<in> range_set other"
    and nn: "0 \<le> lo rng" "0 \<le> lo other" "hi rng \<noteq> IntMax" "hi other \<noteq> IntMax"
    and fits: "fits64 (hi rng * hi other)"
  shows "x * y \<in> range_set r"
proof -
  have xy: "lo rng \<le> x" "x \<le> hi rng" "lo other \<le> y" "y \<le> hi other"
    "alignment rng dvd x" "alignment other dvd y"
    using assms(2-7) by (auto simp: range_set_def limits)
  have bnd: "lo rng * lo other \<le> x * y" "x * y \<le> hi rng * hi other"
    using xy nn by (auto intro!: mult_mono)
  have "0 \<le> lo rng * lo other" "lo rng * lo other \<le> hi rng * hi other"
    using nn bnd by simp_all
  then have "fits64 (lo rng * lo other)"
    using fits by (simp add: fits64_def limits)
  note r = range_mult_eq [OF assms(1) nn this fits]
  have "alignment r dvd x * y"
  proof (cases "lo rng * lo other = hi rng * hi other")
    case False
    note al = mult_alignment [OF r(1,2) nn xy False]
    have "0 \<le> alignment rng * alignment other"
      using range_okD(4) [OF r(1)] range_okD(4) [OF r(2)] by simp
    with al fits have "wrap64 (alignment rng * alignment other) = alignment rng * alignment other"
      "0 \<le> alignment rng * alignment other * mult_coef rng other"
      by (simp_all add: fits64_def limits)
    with al fits False show ?thesis by (simp add: r(5) fits64_def limits)
  qed (simp add: r(5))
  with bnd show ?thesis by (simp add: range_set_def r)
qed

subsection \<open>Masking\<close>

lemma and_minus_exp: "x AND - (2 ^ k) = (2 :: int) ^ k * (x div 2 ^ k)"
proof -
  have "x AND NOT (mask k) = push_bit k (drop_bit k x)"
    by (rule bit_eqI) (auto simp: bit_simps)
  then show ?thesis by (simp add: minus_exp_eq_not_mask push_bit_eq_mult drop_bit_eq_div mult.commute)
qed

lemma isZeroIntersection_loop_sound:
  "isZeroIntersection_loop al m \<Longrightarrow> (1 + int al) dvd x \<Longrightarrow> x AND m = 0"
proof (induction al m arbitrary: x rule: isZeroIntersection_loop.induct)
  case (1 al m)
  from "1.prems"(1) have odd: "odd al"
    and step: "m div 2 = 0 \<or> isZeroIntersection_loop (al div 2) (m div 2)"
    by (subst (asm) isZeroIntersection_loop.simps; auto simp: Let_def drop_bit_eq_div split: if_splits)+
  obtain c where c: "al = 2 * c + 1" using odd by (auto elim: oddE)
  from "1.prems"(2) obtain d where d: "x = 2 * ((1 + int c) * d)"
    by (auto simp: c elim!: dvdE) (metis distrib_left mult.assoc mult.right_neutral)
  have "x div 2 AND m div 2 = 0"
  proof (cases "m div 2 = 0")
    case False
    then show ?thesis
      using step odd by (intro "1.IH") (simp_all add: drop_bit_eq_div c d)
  qed simp
  moreover have "x AND m = of_bool (odd x \<and> odd m) + 2 * (x div 2 AND m div 2)"
    by (rule and_rec)
  ultimately show ?case by (simp add: d)
qed

lemma maskToAlignment_loop_exp:
  "k + j \<le> 62 \<Longrightarrow> maskToAlignment_loop (- (2 ^ k)) (2 ^ j) = 2 ^ (k + j)"
proof (induction k arbitrary: j)
  case 0
  then show ?case by (subst maskToAlignment_loop.simps) (simp add: and_one_eq)
next
  case (Suc k)
  have "(2 :: int) ^ Suc j < 2 ^ 63" using Suc.prems by (intro power_strict_increasing) auto
  then have "wrap64 (push_bit 1 (2 ^ j)) = 2 ^ Suc j"
    by (simp add: push_bit_eq_mult wrap64_id order_trans [of _ 0])
  moreover have "drop_bit 1 (- (2 ^ Suc k)) = (- (2 ^ k) :: int)"
    by (simp add: drop_bit_eq_div)
  ultimately show ?case
    using Suc.IH [of "Suc j"] Suc.prems
    by (subst maskToAlignment_loop.simps) (simp add: and_one_eq)
qed

lemma range_and_sound:
  assumes "range_and rng m = Some r" "x \<in> range_set rng" "lo rng \<noteq> IntMin" "hi rng \<noteq> IntMax"
    and "isZeroIntersection (alignment rng) m = Some True \<or> (\<exists>k \<le> 62. m = - (2 ^ k))"
  shows "x AND m \<in> range_set r"
proof (cases "isZeroIntersection (alignment rng) m = Some True")
  case True
  then have "m = 0 \<or> isZeroIntersection_loop (nat (alignment rng - 1)) m" "1 \<le> alignment rng"
    by (auto simp: isZeroIntersection_def split: if_splits)
  moreover have "alignment rng dvd x" using assms(2) by (simp add: range_set_def)
  ultimately have "x AND m = 0"
    using isZeroIntersection_loop_sound [of "nat (alignment rng - 1)" m x] by auto
  moreover have "r = rngFromNum 0" using assms(1) True by (simp add: range_and_def)
  ultimately show ?thesis by (simp add: range_set_def rngFromNum_def)
next
  case False
  with assms(5) obtain k where k: "k \<le> 62" "m = - (2 ^ k)" by blast
  have mask: "maskToAlignment m = Some (2 ^ k)"
    using maskToAlignment_loop_exp [of k 0] k by (simp add: maskToAlignment_def)
  have "isZeroIntersection (alignment rng) m = Some False"
    using assms(1) False by (auto simp: range_and_def bind_eq_Some_conv)
  then have r: "r = \<lparr>lo = lo rng AND m, hi = hi rng AND m, alignment = 2 ^ k\<rparr>"
    using assms(1) mask k by (auto simp: range_and_def Let_def split: if_splits)
  have "lo rng \<le> x" "x \<le> hi rng" using assms(2-4) by (auto simp: range_set_def)
  then show ?thesis
    by (simp add: range_set_def r k(2) and_minus_exp zdiv_mono1)
qed

section \<open>Properties\<close>

text \<open>
  C27: addition and subtraction of ranges are sound.  When \<open>operator+=\<close> and \<open>operator-=\<close> pass their
  self checks, the resulting range contains every sum (every difference) of a number of the first
  range and a number of the second one, alignment included.
\<close>

theorem range_add_sub_sound:
  assumes "range_add rng other = Some s" "range_sub rng other = Some d"
    and "x \<in> range_set rng" "y \<in> range_set other"
  shows "x + y \<in> range_set s \<and> x - y \<in> range_set d"
  using assms range_add_sound range_sub_sound by blast

definition wit_rng1 :: range where "wit_rng1 = \<lparr>lo = 4, hi = 12, alignment = 4\<rparr>"
definition wit_rng2 :: range where "wit_rng2 = \<lparr>lo = IntMin, hi = 6, alignment = 2\<rparr>"

theorem range_add_sub_sound_witness:
  "8 + -2 \<in> range_set \<lparr>lo = IntMin, hi = 18, alignment = 2\<rparr> \<and>
   8 - -2 \<in> range_set \<lparr>lo = -2, hi = IntMax, alignment = 2\<rparr>"
proof (rule range_add_sub_sound)
  show "range_add wit_rng1 wit_rng2 = Some \<lparr>lo = IntMin, hi = 18, alignment = 2\<rparr>" by code_simp
  show "range_sub wit_rng1 wit_rng2 = Some \<lparr>lo = -2, hi = IntMax, alignment = 2\<rparr>" by code_simp
qed (simp_all add: range_set_def wit_rng1_def wit_rng2_def limits)

text \<open>
  C28: \<open>join\<close> covers both of its arguments, and a positive answer of \<open>isCovered\<close> means that every number
  of the small range is a number of the big one.
\<close>

theorem range_join_isCovered_sound:
  assumes "range_ok a" "range_ok b" "range_join a b = Some j" "isCovered small big = Some True"
  shows "range_set a \<union> range_set b \<subseteq> range_set j \<and> range_set small \<subseteq> range_set big"
  using range_join_sound [OF assms(3,1,2)] isCovered_sound [OF assms(4)] by blast

theorem range_join_isCovered_sound_witness:
  "range_set wit_rng1 \<union> range_set wit_rng2 \<subseteq> range_set \<lparr>lo = IntMin, hi = 12, alignment = 1\<rparr> \<and>
   range_set wit_rng1 \<subseteq> range_set \<lparr>lo = 0, hi = 16, alignment = 2\<rparr>"
proof (rule range_join_isCovered_sound)
  show "range_ok wit_rng1" "range_ok wit_rng2" by code_simp+
  show "range_join wit_rng1 wit_rng2 = Some \<lparr>lo = IntMin, hi = 12, alignment = 1\<rparr>" by code_simp
  show "isCovered wit_rng1 \<lparr>lo = 0, hi = 16, alignment = 2\<rparr> = Some True" by code_simp
qed

lemma approxGCD_total: "RZ_MIN \<le> a \<Longrightarrow> a \<le> RZ_MAX \<Longrightarrow> RZ_MIN \<le> b \<Longrightarrow> b \<le> RZ_MAX \<Longrightarrow> \<exists>g. approxGCD a b = Some g"
  by (simp add: approxGCD_def)

lemma approxGCD_zero:
  assumes "approxGCD a b = Some g" "a = 0 \<or> b = 0"
  shows "g = 1"
proof -
  from assms(1) have g: "g = approxGCD_loop \<bar>a\<bar> \<bar>b\<bar> 1"
    by (auto simp: approxGCD_def limits abs_if split: if_splits)
  show ?thesis unfolding g using assms(2) by (subst approxGCD_loop_unfold) auto
qed

text \<open>
  C32: on all numbers within the limits of a range, \<open>approxGCD\<close> ends without a failed assertion and returns a power of
  two that divides both of its arguments.  If neither argument is zero, it is the greatest such power: its double does not
  divide both.  If one of them is zero, the result is 1, although the greatest power of two that divides the other one
  divides both.
\<close>

theorem approxGCD_greatest_power:
  assumes "RZ_MIN \<le> a" "a \<le> RZ_MAX" "RZ_MIN \<le> b" "b \<le> RZ_MAX"
  shows "\<exists>g. approxGCD a b = Some g \<and> (\<exists>k. g = 2 ^ k) \<and> g dvd a \<and> g dvd b \<and>
    (if a = 0 \<or> b = 0 then g = 1 else \<not> (2 * g dvd a \<and> 2 * g dvd b))"
proof -
  from approxGCD_total [OF assms] obtain g where g: "approxGCD a b = Some g" by blast
  with approxGCD_spec [OF g] approxGCD_zero [OF g] show ?thesis by auto
qed

theorem approxGCD_greatest_power_witness:
  "approxGCD (-12) 40 = Some 4 \<and> \<not> (2 * (4 :: int) dvd -12 \<and> 2 * (4 :: int) dvd 40) \<and> approxGCD 0 4 = Some 1"
proof (intro conjI)
  show g: "approxGCD (-12) 40 = Some 4" by code_simp
  show "\<not> (2 * (4 :: int) dvd -12 \<and> 2 * (4 :: int) dvd 40)"
    using approxGCD_greatest_power [of "-12" 40] g by (simp add: limits)
  show "approxGCD 0 4 = Some 1"
    using approxGCD_greatest_power [of 0 4] by (simp add: limits)
qed

text \<open>
  C29: multiplication of two bounded non-negative ranges whose greatest product fits into the 64-bit
  number is sound: every product of a number of the first range and one of the second is in the result.
\<close>

theorem range_mult_nonneg_sound:
  assumes "range_mult rng other = Some r" "x \<in> range_set rng" "y \<in> range_set other"
    and "0 \<le> lo rng" "0 \<le> lo other" "hi rng \<noteq> IntMax" "hi other \<noteq> IntMax"
    and "fits64 (hi rng * hi other)"
  shows "x * y \<in> range_set r"
  using assms by (rule range_mult_sound)

theorem range_mult_nonneg_sound_witness:
  "8 * 3 \<in> range_set \<lparr>lo = 12, hi = 36, alignment = 12\<rparr>"
proof (rule range_mult_nonneg_sound)
  show "range_mult wit_rng1 (rngFromNum 3) = Some \<lparr>lo = 12, hi = 36, alignment = 12\<rparr>" by code_simp
qed (simp_all add: range_set_def wit_rng1_def rngFromNum_def limits fits64_def)

text \<open>
  C30: masking a bounded range is sound for the masks that clear low bits (\<open>-(2^k)\<close>) and for masks that
  \<open>isZeroIntersection\<close> finds to be covered by the alignment: the result contains \<open>x & mask\<close> for every
  number \<open>x\<close> of the range.
\<close>

theorem range_and_aligned_sound:
  assumes "range_and rng m = Some r" "x \<in> range_set rng" "lo rng \<noteq> IntMin" "hi rng \<noteq> IntMax"
    and "isZeroIntersection (alignment rng) m = Some True \<or> (\<exists>k \<le> 62. m = - (2 ^ k))"
  shows "x AND m \<in> range_set r"
  using assms by (rule range_and_sound)

theorem range_and_aligned_sound_witness:
  "21 AND (-8) \<in> range_set \<lparr>lo = 16, hi = 32, alignment = 8\<rparr>"
proof (rule range_and_aligned_sound)
  show "range_and \<lparr>lo = 17, hi = 37, alignment = 1\<rparr> (-8) = Some \<lparr>lo = 16, hi = 32, alignment = 8\<rparr>"
    by code_simp
  show "isZeroIntersection (alignment \<lparr>lo = 17, hi = 37, alignment = 1\<rparr>) (- 8) = Some True \<or>
      (\<exists>k \<le> 62. (- 8 :: int) = - (2 ^ k))"
    by (rule disjI2, rule exI [of _ 3]) simp
qed (simp_all add: range_set_def limits)

text \<open>
  C31: the shifts of a range.  Shifting to the right is sound without further conditions.  Shifting to the left is
  sound as long as the shifted bounds, where the range is bounded, fit into the 64-bit number.
\<close>

theorem range_shift_sound:
  assumes "x \<in> range_set rng"
  shows "(range_rshift rng n = Some r \<longrightarrow> drop_bit (nat n) x \<in> range_set r) \<and>
    (range_lshift rng n = Some l \<longrightarrow> (lo rng \<noteq> IntMin \<longrightarrow> fits64 (push_bit (nat n) (lo rng))) \<longrightarrow>
      (hi rng \<noteq> IntMax \<longrightarrow> fits64 (push_bit (nat n) (hi rng))) \<longrightarrow> push_bit (nat n) x \<in> range_set l)"
  using range_rshift_sound [OF _ assms] range_lshift_sound [OF _ assms] by blast

theorem range_shift_sound_witness:
  "drop_bit (nat 2) 8 \<in> range_set (\<lparr>lo = 1, hi = 3, alignment = 1\<rparr>) \<and>
   push_bit (nat 2) 8 \<in> range_set \<lparr>lo = 16, hi = 48, alignment = 1\<rparr>"
proof -
  have x: "8 \<in> range_set wit_rng1" by (simp add: range_set_def wit_rng1_def limits)
  have r: "range_rshift wit_rng1 2 = Some \<lparr>lo = 1, hi = 3, alignment = 1\<rparr>" by code_simp
  have l: "range_lshift wit_rng1 2 = Some \<lparr>lo = 16, hi = 48, alignment = 1\<rparr>" by code_simp
  have f: "fits64 (push_bit (nat 2) (lo wit_rng1))" "fits64 (push_bit (nat 2) (hi wit_rng1))"
    by (simp_all add: wit_rng1_def fits64_def limits push_bit_eq_mult)
  show ?thesis using range_shift_sound [OF x, of 2 "\<lparr>lo = 1, hi = 3, alignment = 1\<rparr>" "\<lparr>lo = 16, hi = 48, alignment = 1\<rparr>"] r l f
    by blast
qed

text \<open>
  Where the bounds of a product or of a range shifted to the left do not fit into 64 bits, the code wraps around, and the
  result may pass the self checks.
\<close>

lemma range_mult_wraps:
  "range_mult \<lparr>lo = 0, hi = 2 ^ 32, alignment = 1\<rparr> \<lparr>lo = 0, hi = 2 ^ 32, alignment = 1\<rparr> = Some \<lparr>lo = 0, hi = 0, alignment = 1\<rparr> \<and>
   1 \<in> range_set \<lparr>lo = 0, hi = 2 ^ 32, alignment = 1\<rparr> \<and> 1 * 1 \<notin> range_set \<lparr>lo = 0, hi = 0, alignment = 1\<rparr>"
  by (intro conjI, code_simp) (simp_all add: range_set_def limits)

lemma range_lshift_wraps:
  "range_lshift \<lparr>lo = 0, hi = 2 ^ 61, alignment = 1\<rparr> 3 = Some \<lparr>lo = 0, hi = 0, alignment = 1\<rparr> \<and>
   1 \<in> range_set \<lparr>lo = 0, hi = 2 ^ 61, alignment = 1\<rparr> \<and> push_bit 3 (1 :: int) \<notin> range_set \<lparr>lo = 0, hi = 0, alignment = 1\<rparr>"
  by (intro conjI, code_simp) (simp_all add: range_set_def limits)

text \<open>
  The multiplication is not sound on ranges with negative numbers, and the masking is not sound for a
  positive mask, although both pass their self checks.
\<close>

theorem range_mult_negative_unsound:
  "range_mult \<lparr>lo = -2, hi = 3, alignment = 1\<rparr> \<lparr>lo = -5, hi = 4, alignment = 1\<rparr> =
     Some \<lparr>lo = 10, hi = 12, alignment = 1\<rparr> \<and>
   0 \<in> range_set \<lparr>lo = -2, hi = 3, alignment = 1\<rparr> \<and>
   0 \<in> range_set \<lparr>lo = -5, hi = 4, alignment = 1\<rparr> \<and>
   0 * 0 \<notin> range_set \<lparr>lo = 10, hi = 12, alignment = 1\<rparr>"
  by (intro conjI, code_simp) (simp_all add: range_set_def limits)

theorem range_and_positive_mask_unsound:
  "range_and \<lparr>lo = 100, hi = 200, alignment = 1\<rparr> 15 = Some \<lparr>lo = 100, hi = 200, alignment = 1\<rparr> \<and>
   112 \<in> range_set \<lparr>lo = 100, hi = 200, alignment = 1\<rparr> \<and>
   112 AND 15 \<notin> range_set \<lparr>lo = 100, hi = 200, alignment = 1\<rparr>"
  by (intro conjI, code_simp) (simp_all add: range_set_def limits)

end
