(* ===== verification/WorkList.thy ===== *)
theory WorkList
  imports Prelude "HOL-Library.While_Combinator"
begin

text \<open>
  The work list of \<open>src/cl/worklist.hh\<close>: a scheduler (\<open>std::stack\<close> by default, \<open>std::queue\<close> for a
  breadth-first search) and the set of the items that were ever scheduled.  The locale \<open>worklist\<close>
  states what a client relies on; the search loop that the analyzer writes over and over again,
  \<^verbatim>\<open>while (wl.next(x)) foreach (y in succ(x)) wl.schedule(y);\<close>, is proved once to visit exactly the
  items reachable from the first one, each of them once.
\<close>

section \<open>Operations\<close>

datatype sched = SchedStack | SchedQueue

record 'a work_list =
  todo :: "'a list"
  seen :: "'a set"

fun sched_push :: "sched \<Rightarrow> 'a \<Rightarrow> 'a list \<Rightarrow> 'a list" where
  "sched_push SchedStack item cont = item # cont"
| "sched_push SchedQueue item cont = cont @ [item]"

definition wl_new :: "'a work_list" where
  "wl_new = \<lparr>todo = [], seen = {}\<rparr>"

definition wl_init :: "sched \<Rightarrow> 'a \<Rightarrow> 'a work_list" where
  "wl_init k item = \<lparr>todo = sched_push k item [], seen = {item}\<rparr>"

text \<open>\<open>next\<close>: \<open>None\<close> for \<open>false\<close>, otherwise the item and the work list without it.\<close>

definition wl_next :: "'a work_list \<Rightarrow> ('a \<times> 'a work_list) option" where
  "wl_next wl = (case todo wl of [] \<Rightarrow> None | dst # rest \<Rightarrow> Some (dst, wl\<lparr>todo := rest\<rparr>))"

definition wl_schedule :: "sched \<Rightarrow> 'a \<Rightarrow> 'a work_list \<Rightarrow> bool \<times> 'a work_list" where
  "wl_schedule k item wl =
     (if item \<in> seen wl then (False, wl)
      else (True, wl\<lparr>todo := sched_push k item (todo wl), seen := insert item (seen wl)\<rparr>))"

definition wl_seen :: "'a work_list \<Rightarrow> 'a \<Rightarrow> bool" where
  "wl_seen wl item \<longleftrightarrow> item \<in> seen wl"

definition wl_cntSeen :: "'a work_list \<Rightarrow> nat" where
  "wl_cntSeen wl = card (seen wl)"

definition wl_cntTodo :: "'a work_list \<Rightarrow> nat" where
  "wl_cntTodo wl = length (todo wl)"

definition wl_wf :: "'a work_list \<Rightarrow> bool" where
  "wl_wf wl \<longleftrightarrow> distinct (todo wl) \<and> set (todo wl) \<subseteq> seen wl \<and> finite (seen wl)"

definition wl_pending :: "'a work_list \<Rightarrow> 'a set" where
  "wl_pending wl = set (todo wl)"

lemma set_sched_push [simp]: "set (sched_push k item cont) = insert item (set cont)"
  by (cases k) auto

lemma distinct_sched_push [simp]: "distinct (sched_push k item cont) \<longleftrightarrow> item \<notin> set cont \<and> distinct cont"
  by (cases k) auto

lemma length_sched_push [simp]: "length (sched_push k item cont) = Suc (length cont)"
  by (cases k) auto

section \<open>The interface and the search loop\<close>

locale worklist =
  fixes wf :: "'w \<Rightarrow> bool"
    and pending :: "'w \<Rightarrow> 'a set"
    and known :: "'w \<Rightarrow> 'a set"
    and init :: "'a \<Rightarrow> 'w"
    and next_item :: "'w \<Rightarrow> ('a \<times> 'w) option"
    and schedule :: "'a \<Rightarrow> 'w \<Rightarrow> bool \<times> 'w"
  assumes init_ok: "wf (init x) \<and> pending (init x) = {x} \<and> known (init x) = {x}"
    and pending_known: "wf w \<Longrightarrow> pending w \<subseteq> known w \<and> finite (known w)"
    and next_None: "wf w \<Longrightarrow> next_item w = None \<longleftrightarrow> pending w = {}"
    and next_Some: "wf w \<Longrightarrow> next_item w = Some (x, w') \<Longrightarrow>
      wf w' \<and> x \<in> pending w \<and> pending w' = pending w - {x} \<and> known w' = known w"
    and schedule_ok: "wf w \<Longrightarrow> schedule x w = (fresh, w') \<Longrightarrow>
      wf w' \<and> fresh = (x \<notin> known w) \<and> known w' = insert x (known w) \<and>
      pending w' = (if x \<in> known w then pending w else insert x (pending w))"
begin

definition schedule_all :: "'a list \<Rightarrow> 'w \<Rightarrow> 'w" where
  "schedule_all xs w = fold (\<lambda>x w. snd (schedule x w)) xs w"

definition round :: "('a \<Rightarrow> 'a list) \<Rightarrow> 'w \<times> 'a list \<Rightarrow> 'w \<times> 'a list" where
  "round succ = (\<lambda>(w, out). case next_item w of
     None \<Rightarrow> (w, out) | Some (x, w') \<Rightarrow> (schedule_all (succ x) w', out @ [x]))"

text \<open>The search returns the items in the order in which \<open>next\<close> hands them out.\<close>

definition search :: "('a \<Rightarrow> 'a list) \<Rightarrow> 'a \<Rightarrow> ('w \<times> 'a list) option" where
  "search succ start = while_option (\<lambda>(w, out). next_item w \<noteq> None) (round succ) (init start, [])"

lemma schedule_all_ok:
  "wf w \<Longrightarrow> wf (schedule_all xs w) \<and> known (schedule_all xs w) = known w \<union> set xs \<and>
    pending (schedule_all xs w) = pending w \<union> (set xs - known w)"
proof (induction xs arbitrary: w)
  case (Cons x xs)
  obtain fresh w' where s: "schedule x w = (fresh, w')" by (cases "schedule x w")
  note ok = schedule_ok [OF Cons.prems s]
  then have "wf w'" by blast
  from Cons.IH [OF this] ok s pending_known [OF Cons.prems] show ?case
    by (auto simp: schedule_all_def)
qed (simp add: schedule_all_def)

definition search_inv :: "('a \<Rightarrow> 'a list) \<Rightarrow> 'a \<Rightarrow> 'w \<times> 'a list \<Rightarrow> bool" where
  "search_inv succ start = (\<lambda>(w, out). wf w \<and> distinct out \<and> start \<in> known w \<and>
     known w = set out \<union> pending w \<and> set out \<inter> pending w = {} \<and>
     known w \<subseteq> {y. (start, y) \<in> {(x, y). y \<in> set (succ x)}\<^sup>*} \<and>
     (\<forall>x \<in> set out. set (succ x) \<subseteq> known w))"

lemma search_inv_init: "search_inv succ start (init start, [])"
  using init_ok [of start] by (simp add: search_inv_def)

lemma search_inv_round:
  assumes "search_inv succ start s" "next_item (fst s) \<noteq> None"
  shows "search_inv succ start (round succ s)"
proof -
  obtain w out where s: "s = (w, out)" by (cases s)
  with assms(2) obtain x w' where next': "next_item w = Some (x, w')" by auto
  have wf: "wf w" using assms(1) by (simp add: s search_inv_def)
  note nx = next_Some [OF wf next'] and pk = pending_known [OF wf]
  then have wf': "wf w'" by blast
  note sched = schedule_all_ok [OF wf', of "succ x"]
  have "(start, x) \<in> {(x, y). y \<in> set (succ x)}\<^sup>*"
    using assms(1) nx pk by (auto simp: s search_inv_def)
  then have reach: "set (succ x) \<subseteq> {y. (start, y) \<in> {(x, y). y \<in> set (succ x)}\<^sup>*}"
    by (auto intro: rtrancl_into_rtrancl)
  have K: "known (schedule_all (succ x) w') = known w \<union> set (succ x)"
    and P: "pending (schedule_all (succ x) w') = (pending w - {x}) \<union> (set (succ x) - known w)"
    using sched nx by simp_all
  have inv: "distinct out" "start \<in> known w" "known w = set out \<union> pending w" "set out \<inter> pending w = {}"
    "known w \<subseteq> {y. (start, y) \<in> {(x, y). y \<in> set (succ x)}\<^sup>*}" "\<forall>x \<in> set out. set (succ x) \<subseteq> known w"
    using assms(1) unfolding s search_inv_def split by blast+
  have x: "x \<in> pending w" using nx by blast
  have "search_inv succ start (schedule_all (succ x) w', out @ [x])"
    unfolding search_inv_def split K P
  proof (intro conjI)
    show "known w \<union> set (succ x) = set (out @ [x]) \<union> (pending w - {x} \<union> (set (succ x) - known w))"
      using inv(3) x by auto
    show "\<forall>y \<in> set (out @ [x]). set (succ y) \<subseteq> known w \<union> set (succ x)"
      using inv(6) by (simp add: le_supI1)
    show "distinct (out @ [x])" "set (out @ [x]) \<inter> (pending w - {x} \<union> (set (succ x) - known w)) = {}"
      using inv(1,3,4) x by auto
    show "wf (schedule_all (succ x) w')" "start \<in> known w \<union> set (succ x)"
      using sched inv(2) by simp_all
    show "known w \<union> set (succ x) \<subseteq> {y. (start, y) \<in> {(x, y). y \<in> set (succ x)}\<^sup>*}"
      using inv(5) reach by (rule Un_least)
  qed
  then show ?thesis by (simp add: s round_def next')
qed

lemma search_result:
  assumes "search succ start = Some (w, out)"
  shows "set out = {y. (start, y) \<in> {(x, y). y \<in> set (succ x)}\<^sup>*}" and "distinct out" and "known w = set out"
proof -
  have inv: "search_inv succ start (w, out)"
    using assms unfolding search_def
    by (rule while_option_rule [where P = "search_inv succ start", rotated])
      (auto intro: search_inv_init search_inv_round)
  have "next_item w = None"
    using while_option_stop [OF assms [unfolded search_def]] by (cases "next_item w") auto
  then have "pending w = {}" using inv next_None by (simp add: search_inv_def)
  with inv have eq: "known w = set out" by (simp add: search_inv_def)
  with inv have closed: "\<forall>x \<in> set out. set (succ x) \<subseteq> set out" and "start \<in> set out"
    unfolding search_inv_def split by blast+
  have "y \<in> set out" if "(start, y) \<in> {(x, y). y \<in> set (succ x)}\<^sup>*" for y
    using that by (induction rule: rtrancl_induct) (use closed \<open>start \<in> set out\<close> in auto)
  with inv eq show "set out = {y. (start, y) \<in> {(x, y). y \<in> set (succ x)}\<^sup>*}" and "distinct out" and "known w = set out"
    by (auto simp: search_inv_def)
qed

lemma search_terminates:
  assumes "finite {y. (start, y) \<in> {(x, y). y \<in> set (succ x)}\<^sup>*}"
  shows "\<exists>w out. search succ start = Some (w, out)"
proof -
  let ?R = "{y. (start, y) \<in> {(x, y). y \<in> set (succ x)}\<^sup>*}"
  have "\<exists>t. while_option (\<lambda>(w, out). next_item w \<noteq> None) (round succ) (init start, []) = Some t"
  proof (rule measure_while_option_Some [where P = "search_inv succ start" and f = "\<lambda>(w, out). card ?R - length out"])
    fix s
    assume inv: "search_inv succ start s" and b: "case s of (w, out) \<Rightarrow> next_item w \<noteq> None"
    obtain w out where s: "s = (w, out)" by (cases s)
    with b obtain x w' where next': "next_item w = Some (x, w')" by auto
    have step: "round succ s = (schedule_all (succ x) w', out @ [x])"
      by (simp add: s round_def next')
    have inv': "search_inv succ start (round succ s)"
      using inv b s by (intro search_inv_round) auto
    have "set (out @ [x]) \<subseteq> ?R" "distinct (out @ [x])"
      using inv' unfolding step by (auto simp: search_inv_def)
    then have "length (out @ [x]) \<le> card ?R"
      using assms by (metis card_mono distinct_card)
    then show "search_inv succ start (round succ s) \<and>
        (case round succ s of (w, out) \<Rightarrow> card ?R - length out) < (case s of (w, out) \<Rightarrow> card ?R - length out)"
      using inv' unfolding step by (simp add: s)
  qed (rule search_inv_init)
  then show ?thesis unfolding search_def by auto
qed

end

interpretation wl_dfs: worklist wl_wf wl_pending seen "wl_init SchedStack" wl_next "wl_schedule SchedStack"
  by unfold_locales
    (auto simp: wl_wf_def wl_pending_def wl_init_def wl_next_def wl_schedule_def split: list.splits if_splits)

interpretation wl_bfs: worklist wl_wf wl_pending seen "wl_init SchedQueue" wl_next "wl_schedule SchedQueue"
  by unfold_locales
    (auto simp: wl_wf_def wl_pending_def wl_init_def wl_next_def wl_schedule_def split: list.splits if_splits)

section \<open>Properties\<close>

text \<open>
  The search loop over a depth-first work list, written out on the operations of the class.
\<close>

definition wl_round :: "('a \<Rightarrow> 'a list) \<Rightarrow> 'a work_list \<times> 'a list \<Rightarrow> 'a work_list \<times> 'a list" where
  "wl_round succ = (\<lambda>(w, out). case wl_next w of
     None \<Rightarrow> (w, out)
   | Some (x, w') \<Rightarrow> (fold (\<lambda>y w. snd (wl_schedule SchedStack y w)) (succ x) w', out @ [x]))"

definition wl_search :: "('a \<Rightarrow> 'a list) \<Rightarrow> 'a \<Rightarrow> ('a work_list \<times> 'a list) option" where
  "wl_search succ start =
     while_option (\<lambda>(w, out). wl_next w \<noteq> None) (wl_round succ) (wl_init SchedStack start, [])"

lemma wl_search_eq: "wl_search succ start = wl_dfs.search succ start"
  unfolding wl_search_def wl_dfs.search_def wl_round_def wl_dfs.round_def wl_dfs.schedule_all_def ..

text \<open>
  C34: a depth-first search driven by \<open>WorkList::next\<close> and \<open>WorkList::schedule\<close> ends when finitely many
  items are reachable; it hands out every reachable item, nothing else, and no item twice.
\<close>

theorem wl_search_reachable:
  assumes "finite {y. (start, y) \<in> {(x, y). y \<in> set (succ x)}\<^sup>*}"
  shows "\<exists>w out. wl_search succ start = Some (w, out) \<and> distinct out \<and>
    set out = {y. (start, y) \<in> {(x, y). y \<in> set (succ x)}\<^sup>*} \<and> seen w = set out"
  using wl_dfs.search_terminates [OF assms] wl_dfs.search_result [of succ start]
  by (auto simp: wl_search_eq)

definition wit_succ :: "nat \<Rightarrow> nat list" where
  "wit_succ n = (if n = 0 then [1, 2] else if n = 1 then [2, 0] else [])"

lemma wit_succ_reach: "{y. (0, y) \<in> {(x, y). y \<in> set (wit_succ x)}\<^sup>*} \<subseteq> {0, 1, 2}"
proof
  fix y
  assume "y \<in> {y. (0, y) \<in> {(x, y). y \<in> set (wit_succ x)}\<^sup>*}"
  then have "(0, y) \<in> {(x, y). y \<in> set (wit_succ x)}\<^sup>*" by simp
  then show "y \<in> {0, 1, 2}"
    by (induction rule: rtrancl_induct) (auto simp: wit_succ_def split: if_splits)
qed

theorem wl_search_reachable_witness:
  "\<exists>w out. wl_search wit_succ 0 = Some (w, out) \<and> distinct out \<and>
    set out = {y. (0, y) \<in> {(x, y). y \<in> set (wit_succ x)}\<^sup>*} \<and> seen w = set out"
  by (rule wl_search_reachable) (rule finite_subset [OF wit_succ_reach], simp)

end
