(* ===== verification/ClTypes.thy ===== *)
theory ClTypes
  imports Prelude WorkList "HOL-Library.Product_Lexorder"
begin

text \<open>
  Type information of the analysed program: \<open>struct cl_type\<close> of \<open>src/include/cl/code_listener.h\<close>, the
  helpers of \<open>src/include/cl/clutil.hh\<close> and \<open>src/cl/clutil.cc\<close>, and the part of
  \<open>CodeStorage::Storage\<close> the symbolic heap reads.  A \<open>TObjType\<close> is the address of a type: a number
  that is 0 for NULL and is resolved in the table \<open>stor_types\<close>; to dereference an address that is not
  there is a trap.  The lemmas show that the type comparison terminates within its bound.
\<close>

section \<open>Types\<close>

datatype cl_type_e = CL_TYPE_VOID | CL_TYPE_UNKNOWN | CL_TYPE_PTR | CL_TYPE_STRUCT | CL_TYPE_UNION
  | CL_TYPE_ARRAY | CL_TYPE_FNC | CL_TYPE_INT | CL_TYPE_CHAR | CL_TYPE_BOOL | CL_TYPE_ENUM
  | CL_TYPE_REAL | CL_TYPE_STRING

type_synonym TObjType = int

text \<open>An item of a nested type: its type, its name (NULL when anonymous) and its offset.\<close>

record cl_type_item =
  item_type :: TObjType
  item_name :: "string option"
  item_offset :: int

record cl_type =
  clt_uid :: int
  clt_code :: cl_type_e
  clt_size :: int
  clt_items :: "cl_type_item list"
  clt_is_unsigned :: bool

datatype EVar = VAR_VOID | VAR_GL | VAR_LC | VAR_FNC_ARG

record cl_var =
  var_code :: EVar
  var_type :: TObjType

record stor =
  stor_types :: "(TObjType, cl_type) omap"
  stor_vars :: "(int, cl_var) omap"
  genericDataPtr :: TObjType
  dataPtrSizeof :: int

definition clt_at :: "stor \<Rightarrow> TObjType \<Rightarrow> cl_type option" where
  "clt_at st clt = (if clt = 0 then None else map_of (stor_types st) clt)"

fun isOnStack_var :: "cl_var \<Rightarrow> bool" where
  "isOnStack_var v = (case var_code v of VAR_FNC_ARG \<Rightarrow> True | VAR_LC \<Rightarrow> True | VAR_VOID \<Rightarrow> False | VAR_GL \<Rightarrow> False)"

definition targetTypeOfPtr :: "stor \<Rightarrow> TObjType \<Rightarrow> TObjType option" where
  "targetTypeOfPtr st clt =
     (if clt = 0 then Some 0
      else do {
        t \<leftarrow> clt_at st clt;
        if clt_code t \<noteq> CL_TYPE_PTR then Some 0
        else do {
          cl_break_if (length (clt_items t) \<noteq> 1);
          let tgt = item_type (hd (clt_items t));
          cl_break_if (tgt = 0);
          Some tgt
        }
      })"

definition targetTypeOfArray :: "stor \<Rightarrow> TObjType \<Rightarrow> TObjType option" where
  "targetTypeOfArray st clt = do {
     t \<leftarrow> clt_at st clt;
     cl_break_if (clt_code t \<noteq> CL_TYPE_ARRAY \<or> length (clt_items t) \<noteq> 1);
     let tgt = item_type (hd (clt_items t));
     cl_break_if (tgt = 0);
     Some tgt
   }"

definition isComposite :: "stor \<Rightarrow> TObjType \<Rightarrow> bool \<Rightarrow> bool option" where
  "isComposite st clt includingArray =
     (if clt = 0 then Some False
      else do {
        t \<leftarrow> clt_at st clt;
        Some (case clt_code t of
            CL_TYPE_ARRAY \<Rightarrow> includingArray
          | CL_TYPE_STRUCT \<Rightarrow> True
          | CL_TYPE_UNION \<Rightarrow> True
          | _ \<Rightarrow> False)
      })"

definition isDataPtr :: "stor \<Rightarrow> TObjType \<Rightarrow> bool option" where
  "isDataPtr st clt =
     (if clt = 0 then Some False
      else do {
        t \<leftarrow> clt_at st clt;
        if clt_code t \<noteq> CL_TYPE_PTR then Some False
        else do {
          tgt \<leftarrow> targetTypeOfPtr st clt;
          t' \<leftarrow> clt_at st tgt;
          Some (clt_code t' \<noteq> CL_TYPE_FNC)
        }
      })"

definition isCodePtr :: "stor \<Rightarrow> TObjType \<Rightarrow> bool option" where
  "isCodePtr st clt =
     (if clt = 0 then Some False
      else do {
        t \<leftarrow> clt_at st clt;
        if clt_code t \<noteq> CL_TYPE_PTR then Some False
        else do {
          tgt \<leftarrow> targetTypeOfPtr st clt;
          t' \<leftarrow> clt_at st tgt;
          Some (clt_code t' = CL_TYPE_FNC)
        }
      })"

definition offsetByIdxChain :: "stor \<Rightarrow> TObjType \<Rightarrow> nat list \<Rightarrow> int option" where
  "offsetByIdxChain st clt ic = map_option fst (ofold (\<lambda>idx (off, clt). do {
       t \<leftarrow> clt_at st clt;
       cl_break_if (length (clt_items t) \<le> idx);
       let item = clt_items t ! idx;
       Some (off + item_offset item, item_type item)
     }) ic (0, clt))"

section \<open>Semantic comparison of types\<close>

text \<open>
  \<open>operator==\<close> on types walks both type graphs along a work list of pairs of addresses.  One step gives
  the verdict (\<open>Inl\<close>) or the new work list (\<open>Inr\<close>).  The loop is bounded by fuel; every pair is scheduled
  at most once, so the square of the number of types is enough (\<open>cl_type_eq_fuel\<close> below).
\<close>

definition is_scalar_code :: "cl_type_e \<Rightarrow> bool" where
  "is_scalar_code c \<longleftrightarrow> c \<in> {CL_TYPE_VOID, CL_TYPE_INT, CL_TYPE_CHAR, CL_TYPE_BOOL, CL_TYPE_REAL, CL_TYPE_ENUM}"

fun names_match :: "cl_type_item \<Rightarrow> cl_type_item \<Rightarrow> bool" where
  "names_match a b = (case (item_name a, item_name b) of (Some x, Some y) \<Rightarrow> x = y | _ \<Rightarrow> True)"

fun clt_eq_nest :: "(cl_type_item \<times> cl_type_item) list \<Rightarrow> (int \<times> int) work_list \<Rightarrow> bool + (int \<times> int) work_list" where
  "clt_eq_nest [] wl = Inr wl"
| "clt_eq_nest ((a, b) # ps) wl =
     (if \<not> names_match a b then Inl False
      else clt_eq_nest ps (snd (wl_schedule SchedStack (item_type a, item_type b) wl)))"

definition clt_eq_step :: "stor \<Rightarrow> int \<times> int \<Rightarrow> (int \<times> int) work_list \<Rightarrow> (bool + (int \<times> int) work_list) option" where
  "clt_eq_step st item wl = do {
     a \<leftarrow> clt_at st (fst item);
     b \<leftarrow> clt_at st (snd item);
     if clt_uid a = clt_uid b then Some (Inr wl)
     else if clt_code b \<noteq> clt_code a then Some (Inl False)
     else if length (clt_items b) \<noteq> length (clt_items a) then Some (Inl False)
     else if is_scalar_code (clt_code a) then
       (if clt_size a \<noteq> clt_size b then Some (Inl False)
        else if clt_is_unsigned a \<noteq> clt_is_unsigned b then Some (Inl False)
        else Some (Inl True))
     else if clt_code a = CL_TYPE_UNKNOWN then Some (Inl False)
     else if clt_code a = CL_TYPE_STRING then None
     else Some (clt_eq_nest (zip (clt_items a) (clt_items b)) wl)
   }"

text \<open>The outer \<open>None\<close> stands for running out of fuel, the inner one for a trap.\<close>

fun clt_eq_loop :: "nat \<Rightarrow> stor \<Rightarrow> (int \<times> int) work_list \<Rightarrow> bool option option" where
  "clt_eq_loop 0 st wl = None"
| "clt_eq_loop (Suc n) st wl =
     (case wl_next wl of
        None \<Rightarrow> Some (Some True)
      | Some (item, wl') \<Rightarrow>
          (case clt_eq_step st item wl' of
             None \<Rightarrow> Some None
           | Some (Inl r) \<Rightarrow> Some (Some r)
           | Some (Inr wl'') \<Rightarrow> clt_eq_loop n st wl''))"

definition clt_eq_fuel :: "stor \<Rightarrow> nat" where
  "clt_eq_fuel st = (\<Sum>t\<leftarrow>map snd (stor_types st). length (clt_items t)) * (\<Sum>t\<leftarrow>map snd (stor_types st). length (clt_items t)) + 2"

definition cl_type_eq :: "stor \<Rightarrow> TObjType \<Rightarrow> TObjType \<Rightarrow> bool option" where
  "cl_type_eq st a b = Option.bind (clt_eq_loop (clt_eq_fuel st) st (wl_init SchedStack (a, b))) id"

subsection \<open>The bound on the loop\<close>

definition clt_targets :: "stor \<Rightarrow> int set" where
  "clt_targets st = (\<Union>t \<in> set (map snd (stor_types st)). item_type ` set (clt_items t))"

definition clt_pairs :: "stor \<Rightarrow> int \<times> int \<Rightarrow> (int \<times> int) set" where
  "clt_pairs st p = insert p (clt_targets st \<times> clt_targets st)"

definition clt_wl_ok :: "stor \<Rightarrow> int \<times> int \<Rightarrow> (int \<times> int) work_list \<Rightarrow> bool" where
  "clt_wl_ok st p wl \<longleftrightarrow> seen wl \<subseteq> clt_pairs st p"

definition clt_measure :: "stor \<Rightarrow> int \<times> int \<Rightarrow> (int \<times> int) work_list \<Rightarrow> nat" where
  "clt_measure st p wl = card (clt_pairs st p - seen wl) + length (todo wl)"

lemma card_UN_list: "card (\<Union>t \<in> set ts. f ` set (g t)) \<le> (\<Sum>t\<leftarrow>ts. length (g t))"
proof (induction ts)
  case (Cons t ts)
  have "card (f ` set (g t)) \<le> length (g t)"
    by (meson card_image_le card_length finite_set le_trans)
  with Cons show ?case
    by (simp, meson add_mono card_Un_le le_trans)
qed simp

lemma clt_pairs_card: "finite (clt_pairs st p)" "card (clt_pairs st p) + 1 \<le> clt_eq_fuel st"
proof -
  let ?N = "\<Sum>t\<leftarrow>map snd (stor_types st). length (clt_items t)"
  have fin: "finite (clt_targets st)" by (simp add: clt_targets_def)
  then show "finite (clt_pairs st p)" by (simp add: clt_pairs_def)
  have "card (clt_targets st \<times> clt_targets st) \<le> ?N * ?N"
    using card_UN_list [of item_type clt_items "map snd (stor_types st)"]
    by (simp only: clt_targets_def card_cartesian_product mult_le_mono)
  then show "card (clt_pairs st p) + 1 \<le> clt_eq_fuel st"
    using fin by (simp add: clt_pairs_def clt_eq_fuel_def card_insert_if)
qed

lemma clt_schedule_measure:
  assumes "clt_wl_ok st p wl" "q \<in> clt_pairs st p"
  shows "clt_wl_ok st p (snd (wl_schedule SchedStack q wl))"
    and "clt_measure st p (snd (wl_schedule SchedStack q wl)) = clt_measure st p wl"
proof -
  show "clt_wl_ok st p (snd (wl_schedule SchedStack q wl))"
    using assms by (auto simp: clt_wl_ok_def wl_schedule_def)
  show "clt_measure st p (snd (wl_schedule SchedStack q wl)) = clt_measure st p wl"
  proof (cases "q \<in> seen wl")
    case False
    with assms(2) have "card (clt_pairs st p - seen wl) = Suc (card (clt_pairs st p - insert q (seen wl)))"
      using clt_pairs_card(1) [of st p]
      by (metis Diff_iff Diff_insert finite_Diff card_Suc_Diff1)
    with False show ?thesis by (simp add: clt_measure_def wl_schedule_def)
  qed (simp add: wl_schedule_def)
qed

lemma clt_eq_nest_measure:
  assumes "clt_eq_nest ps wl = Inr wl'" "clt_wl_ok st p wl"
    and "\<forall>(a, b) \<in> set ps. (item_type a, item_type b) \<in> clt_pairs st p"
  shows "clt_wl_ok st p wl' \<and> clt_measure st p wl' = clt_measure st p wl"
  using assms
proof (induction ps wl rule: clt_eq_nest.induct)
  case (2 a b ps wl)
  then show ?case using clt_schedule_measure [of st p wl "(item_type a, item_type b)"]
    by (auto split: if_splits)
qed auto

lemma clt_at_items:
  assumes "clt_at st x = Some a" "clt_at st y = Some b"
  shows "\<forall>(i, j) \<in> set (zip (clt_items a) (clt_items b)). (item_type i, item_type j) \<in> clt_pairs st p"
proof -
  have "a \<in> set (map snd (stor_types st))" "b \<in> set (map snd (stor_types st))"
    using assms by (force simp: clt_at_def split: if_splits dest: map_of_SomeD)+
  then show ?thesis
    by (auto simp: clt_pairs_def clt_targets_def dest: set_zip_leftD set_zip_rightD)
qed

lemma clt_eq_step_measure:
  assumes "clt_eq_step st item wl = Some (Inr wl')" "clt_wl_ok st p wl"
  shows "clt_wl_ok st p wl' \<and> clt_measure st p wl' = clt_measure st p wl"
  using assms clt_at_items [of st "fst item" _ "snd item" _ p] clt_eq_nest_measure [of _ wl wl' st p]
  by (auto simp: clt_eq_step_def bind_eq_Some_conv split: if_splits)

lemma clt_eq_loop_enough:
  "clt_wl_ok st p wl \<Longrightarrow> clt_measure st p wl < n \<Longrightarrow>
   clt_eq_loop n st wl \<noteq> None \<and> (\<forall>m \<ge> n. clt_eq_loop m st wl = clt_eq_loop n st wl)"
proof (induction n arbitrary: wl)
  case (Suc n)
  have split_m: "(\<forall>m \<ge> Suc n. P m) \<longleftrightarrow> (\<forall>m \<ge> n. P (Suc m))" for P
    by (metis Suc_le_D Suc_le_mono)
  show ?case
  proof (cases "todo wl")
    case (Cons item rest)
    let ?wl = "wl\<lparr>todo := rest\<rparr>"
    have nxt: "wl_next wl = Some (item, ?wl)" by (simp add: wl_next_def Cons)
    have ok: "clt_wl_ok st p ?wl" using Suc.prems by (simp add: clt_wl_ok_def)
    have lt: "clt_measure st p ?wl < n" using Suc.prems Cons by (simp add: clt_measure_def)
    show ?thesis
    proof (cases "\<exists>wl'. clt_eq_step st item ?wl = Some (Inr wl')")
      case True
      then obtain wl' where step: "clt_eq_step st item ?wl = Some (Inr wl')" by blast
      have same: "clt_eq_loop (Suc m) st wl = clt_eq_loop m st wl'" for m using nxt step by simp
      from clt_eq_step_measure [OF step ok] lt have "clt_eq_loop n st wl' \<noteq> None \<and>
          (\<forall>m \<ge> n. clt_eq_loop m st wl' = clt_eq_loop n st wl')" by (intro Suc.IH) simp_all
      then show ?thesis unfolding split_m same .
    next
      case False
      then show ?thesis unfolding split_m using nxt
        by (simp split: option.splits sum.splits)
    qed
  qed (auto simp: split_m wl_next_def)
qed simp

subsection \<open>Symmetry\<close>

definition wl_swap :: "(int \<times> int) work_list \<Rightarrow> (int \<times> int) work_list" where
  "wl_swap wl = \<lparr>todo = map prod.swap (todo wl), seen = prod.swap ` seen wl\<rparr>"

lemma wl_swap_schedule:
  "snd (wl_schedule SchedStack (y, x) (wl_swap wl)) = wl_swap (snd (wl_schedule SchedStack (x, y) wl))"
  by (force simp: wl_schedule_def wl_swap_def)

lemma wl_swap_next:
  "wl_next (wl_swap wl) = map_option (\<lambda>(p, w). (prod.swap p, wl_swap w)) (wl_next wl)"
  by (cases "todo wl") (simp_all add: wl_next_def wl_swap_def)

lemma names_match_sym: "names_match a b = names_match b a"
  by (auto split: option.splits)

lemma clt_eq_nest_swap:
  "clt_eq_nest (map prod.swap ps) (wl_swap wl) = map_sum id wl_swap (clt_eq_nest ps wl)"
proof (induction ps wl rule: clt_eq_nest.induct)
  case (2 a b ps wl)
  then show ?case using names_match_sym [of a b] by (simp add: wl_swap_schedule del: names_match.simps)
qed simp

lemma zip_swap: "zip ys xs = map prod.swap (zip xs ys)"
  by (simp add: zip_commute [of ys xs] prod.swap_def case_prod_unfold)

lemma clt_eq_step_swap:
  "clt_eq_step st (prod.swap item) (wl_swap wl) = map_option (map_sum id wl_swap) (clt_eq_step st item wl)"
proof (cases "clt_at st (fst item)"; cases "clt_at st (snd item)")
  fix a b assume "clt_at st (fst item) = Some a" "clt_at st (snd item) = Some b"
  then show ?thesis
    by (auto simp: clt_eq_step_def clt_eq_nest_swap zip_swap [of "clt_items b"])
qed (simp_all add: clt_eq_step_def)

lemma clt_eq_loop_swap: "clt_eq_loop n st (wl_swap wl) = clt_eq_loop n st wl"
proof (induction n arbitrary: wl)
  case (Suc n)
  then show ?case
    by (auto simp: wl_swap_next clt_eq_step_swap split: option.splits sum.splits)
qed simp

subsection \<open>The verdict\<close>

text \<open>
  What the comparison is about: two types agree as far as can be told without their items.  Types with the same
  \<open>uid\<close> are the same type; others have the same code and number of items, and scalar types the same size and
  sign; the names of items, where both have one, are equal.
\<close>

definition types_agree :: "stor \<Rightarrow> int \<times> int \<Rightarrow> bool" where
  "types_agree st q \<longleftrightarrow> (\<exists>s t. clt_at st (fst q) = Some s \<and> clt_at st (snd q) = Some t \<and> (clt_uid s = clt_uid t \<or>
     clt_code s = clt_code t \<and> length (clt_items s) = length (clt_items t) \<and>
     (if clt_code s \<in> {CL_TYPE_VOID, CL_TYPE_INT, CL_TYPE_CHAR, CL_TYPE_BOOL, CL_TYPE_REAL, CL_TYPE_ENUM}
      then clt_size s = clt_size t \<and> clt_is_unsigned s = clt_is_unsigned t
      else clt_code s \<noteq> CL_TYPE_UNKNOWN \<and> clt_code s \<noteq> CL_TYPE_STRING \<and>
        (\<forall>i < length (clt_items s). \<forall>x y. item_name (clt_items s ! i) = Some x \<longrightarrow> item_name (clt_items t ! i) = Some y \<longrightarrow> x = y))))"

text \<open>The pairs of types that are at the same place of the two type graphs.\<close>

inductive types_paired :: "stor \<Rightarrow> int \<times> int \<Rightarrow> int \<times> int \<Rightarrow> bool" for st p where
  start: "types_paired st p p"
| item: "types_paired st p (x, y) \<Longrightarrow> clt_at st x = Some s \<Longrightarrow> clt_at st y = Some t \<Longrightarrow> clt_uid s \<noteq> clt_uid t \<Longrightarrow>
    i < length (clt_items s) \<Longrightarrow> i < length (clt_items t) \<Longrightarrow>
    types_paired st p (item_type (clt_items s ! i), item_type (clt_items t ! i))"

text \<open>Two scalar types that agree but are not the same type.\<close>

definition equal_scalars :: "stor \<Rightarrow> int \<times> int \<Rightarrow> bool" where
  "equal_scalars st q \<longleftrightarrow> types_agree st q \<and> (\<exists>s t. clt_at st (fst q) = Some s \<and> clt_at st (snd q) = Some t \<and> clt_uid s \<noteq> clt_uid t \<and>
     clt_code s \<in> {CL_TYPE_VOID, CL_TYPE_INT, CL_TYPE_CHAR, CL_TYPE_BOOL, CL_TYPE_REAL, CL_TYPE_ENUM})"

definition pair_items :: "stor \<Rightarrow> int \<times> int \<Rightarrow> (int \<times> int) set" where
  "pair_items st q = {(item_type (clt_items s ! i), item_type (clt_items t ! i)) | s t i.
     clt_at st (fst q) = Some s \<and> clt_at st (snd q) = Some t \<and> clt_uid s \<noteq> clt_uid t \<and> i < length (clt_items s) \<and> i < length (clt_items t)}"

lemma pair_items_paired: "types_paired st p q \<Longrightarrow> r \<in> pair_items st q \<Longrightarrow> types_paired st p r"
  by (cases q) (auto simp: pair_items_def intro: types_paired.item)

text \<open>Pairs that have been taken from the list agree, and their items have been scheduled.\<close>

definition eq_inv :: "stor \<Rightarrow> int \<times> int \<Rightarrow> (int \<times> int) work_list \<Rightarrow> bool" where
  "eq_inv st p wl \<longleftrightarrow> p \<in> seen wl \<and> (\<forall>q \<in> seen wl. types_paired st p q) \<and> set (todo wl) \<subseteq> seen wl \<and>
     (\<forall>q \<in> seen wl - set (todo wl). types_agree st q \<and> pair_items st q \<subseteq> seen wl) \<and> (types_agree st p \<or> todo wl = [p])"

lemma clt_eq_nest_Inr:
  "clt_eq_nest ps wl = Inr wl' \<Longrightarrow> (\<forall>(a, b) \<in> set ps. names_match a b) \<and>
     seen wl' = seen wl \<union> (\<lambda>(a, b). (item_type a, item_type b)) ` set ps \<and> set (todo wl') = set (todo wl) \<union> (seen wl' - seen wl)"
proof (induction ps wl rule: clt_eq_nest.induct)
  case (2 a b ps wl)
  then show ?case by (auto simp: wl_schedule_def simp del: names_match.simps split: if_splits)
qed simp

lemma clt_eq_nest_Inl: "clt_eq_nest ps wl = Inl r \<Longrightarrow> \<not> r \<and> (\<exists>(a, b) \<in> set ps. \<not> names_match a b)"
  by (induction ps wl rule: clt_eq_nest.induct) (auto split: if_splits)

lemma names_match_iff: "names_match a b \<longleftrightarrow> (\<forall>x y. item_name a = Some x \<longrightarrow> item_name b = Some y \<longrightarrow> x = y)"
  by (auto split: option.splits)

lemma all_zip_nth: "length xs = length ys \<Longrightarrow> (\<forall>(a, b) \<in> set (zip xs ys). P a b) \<longleftrightarrow> (\<forall>i < length xs. P (xs ! i) (ys ! i))"
  by (auto simp: set_zip)

text \<open>One round of the loop.\<close>

lemma clt_eq_step_verdict:
  "case clt_eq_step st q wl of
     Some (Inr wl') \<Rightarrow> types_agree st q \<and> seen wl' = seen wl \<union> pair_items st q \<and> set (todo wl') = set (todo wl) \<union> (seen wl' - seen wl)
   | Some (Inl True) \<Rightarrow> equal_scalars st q
   | _ \<Rightarrow> \<not> types_agree st q"
proof (cases "clt_at st (fst q) = None \<or> clt_at st (snd q) = None")
  case True
  then have "clt_eq_step st q wl = None" "\<not> types_agree st q" by (auto simp: clt_eq_step_def types_agree_def)
  then show ?thesis by simp
next
  case False
  then obtain s t where st: "clt_at st (fst q) = Some s" "clt_at st (snd q) = Some t" by auto
  have it: "pair_items st q = (if clt_uid s = clt_uid t then {} else
      {(item_type (clt_items s ! i), item_type (clt_items t ! i)) | i. i < length (clt_items s) \<and> i < length (clt_items t)})"
    by (auto simp: pair_items_def st)
  have ag: "types_agree st q \<longleftrightarrow> (clt_uid s = clt_uid t \<or>
     clt_code s = clt_code t \<and> length (clt_items s) = length (clt_items t) \<and>
     (if is_scalar_code (clt_code s) then clt_size s = clt_size t \<and> clt_is_unsigned s = clt_is_unsigned t
      else clt_code s \<noteq> CL_TYPE_UNKNOWN \<and> clt_code s \<noteq> CL_TYPE_STRING \<and>
        (\<forall>(a, b) \<in> set (zip (clt_items s) (clt_items t)). names_match a b)))"
    using all_zip_nth [of "clt_items s" "clt_items t" names_match] unfolding types_agree_def st is_scalar_code_def names_match_iff
    by (cases "length (clt_items s) = length (clt_items t)") simp_all
  have sc: "equal_scalars st q \<longleftrightarrow> types_agree st q \<and> clt_uid s \<noteq> clt_uid t \<and> is_scalar_code (clt_code s)"
    by (auto simp: equal_scalars_def st is_scalar_code_def)
  consider (uid) "clt_uid s = clt_uid t" | (differ) "clt_uid s \<noteq> clt_uid t" "clt_code t \<noteq> clt_code s \<or> length (clt_items t) \<noteq> length (clt_items s)"
    | (scalar) "clt_uid s \<noteq> clt_uid t" "clt_code t = clt_code s" "length (clt_items t) = length (clt_items s)" "is_scalar_code (clt_code s)"
    | (bad) "clt_uid s \<noteq> clt_uid t" "clt_code t = clt_code s" "length (clt_items t) = length (clt_items s)" "\<not> is_scalar_code (clt_code s)"
        "clt_code s = CL_TYPE_UNKNOWN \<or> clt_code s = CL_TYPE_STRING"
    | (nest) "clt_uid s \<noteq> clt_uid t" "clt_code t = clt_code s" "length (clt_items t) = length (clt_items s)" "\<not> is_scalar_code (clt_code s)"
        "clt_code s \<noteq> CL_TYPE_UNKNOWN" "clt_code s \<noteq> CL_TYPE_STRING"
    by blast
  then show ?thesis
  proof cases
    case uid
    then have "clt_eq_step st q wl = Some (Inr wl)" by (simp add: clt_eq_step_def st)
    then show ?thesis using uid ag it by simp
  next
    case differ
    then have "clt_eq_step st q wl = Some (Inl False)" by (auto simp: clt_eq_step_def st)
    then show ?thesis using differ ag by auto
  next
    case scalar
    then have "clt_eq_step st q wl = Some (Inl (clt_size s = clt_size t \<and> clt_is_unsigned s = clt_is_unsigned t))"
      by (simp add: clt_eq_step_def st)
    then show ?thesis using scalar ag sc by (simp split: bool.split)
  next
    case bad
    then have "clt_eq_step st q wl = Some (Inl False) \<or> clt_eq_step st q wl = None" by (auto simp: clt_eq_step_def st)
    then show ?thesis using bad ag by auto
  next
    case nest
    have img: "(\<lambda>(a, b). (item_type a, item_type b)) ` set (zip (clt_items s) (clt_items t)) = pair_items st q"
      using nest by (force simp: it set_zip image_iff)
    have step: "clt_eq_step st q wl = Some (clt_eq_nest (zip (clt_items s) (clt_items t)) wl)"
      using nest by (simp add: clt_eq_step_def st)
    have agn: "types_agree st q \<longleftrightarrow> (\<forall>(a, b) \<in> set (zip (clt_items s) (clt_items t)). names_match a b)"
      unfolding ag using nest by (simp del: names_match.simps)
    show ?thesis
    proof (cases "clt_eq_nest (zip (clt_items s) (clt_items t)) wl")
      case (Inl r)
      from clt_eq_nest_Inl [OF this] have "\<not> r" "\<not> types_agree st q" unfolding agn by blast+
      then show ?thesis by (simp add: step Inl)
    next
      case (Inr wl')
      from clt_eq_nest_Inr [OF this, folded agn, unfolded img] show ?thesis by (simp add: step Inr)
    qed
  qed
qed

lemma verdict_cases:
  obtains "x = None" | "x = Some (Inl False)" | "x = Some (Inl True)" | y where "x = Some (Inr y)"
proof (cases x)
  case (Some v)
  show ?thesis
  proof (cases v)
    case (Inl r)
    then show ?thesis using that \<open>x = Some v\<close> by (cases r) simp_all
  qed (use that \<open>x = Some v\<close> in simp)
qed (use that in simp)

lemma clt_eq_loop_verdict:
  "eq_inv st p wl \<Longrightarrow> clt_eq_loop n st wl = Some res \<Longrightarrow>
   (case res of
      Some True \<Rightarrow> types_agree st p \<and> ((\<forall>q. types_paired st p q \<longrightarrow> types_agree st q) \<or> (\<exists>q. types_paired st p q \<and> equal_scalars st q))
    | _ \<Rightarrow> \<exists>q. types_paired st p q \<and> \<not> types_agree st q)"
proof (induction n arbitrary: wl)
  case (Suc n)
  note I = Suc.prems(1) [unfolded eq_inv_def]
  show ?case
  proof (cases "todo wl")
    case Nil
    have "q \<in> seen wl" if "types_paired st p q" for q
      using that
    proof induction
      case start
      then show ?case using I by simp
    next
      case (item x y s t i)
      then have "(item_type (clt_items s ! i), item_type (clt_items t ! i)) \<in> pair_items st (x, y)" by (auto simp: pair_items_def)
      then show ?case using item.IH I Nil by auto
    qed
    then show ?thesis using I Nil Suc.prems(2) by (auto simp: wl_next_def)
  next
    case (Cons q rest)
    let ?wl = "wl\<lparr>todo := rest\<rparr>"
    have q: "types_paired st p q" "q \<in> seen wl" using I Cons by auto
    have loop: "clt_eq_loop (Suc n) st wl = (case clt_eq_step st q ?wl of
        None \<Rightarrow> Some None | Some (Inl r) \<Rightarrow> Some (Some r) | Some (Inr wl'') \<Rightarrow> clt_eq_loop n st wl'')"
      by (simp add: wl_next_def Cons)
    have pq: "types_agree st p \<or> q = p" using I Cons by auto
    note v = clt_eq_step_verdict [of st q ?wl]
    consider (trap) "clt_eq_step st q ?wl = None" | (no) "clt_eq_step st q ?wl = Some (Inl False)"
      | (yes) "clt_eq_step st q ?wl = Some (Inl True)" | (more) wl' where "clt_eq_step st q ?wl = Some (Inr wl')"
      by (rule verdict_cases)
    then show ?thesis
    proof cases
      case more
      then have v: "types_agree st q" "seen wl' = seen wl \<union> pair_items st q" "set (todo wl') = set rest \<union> (seen wl' - seen wl)"
        using v by simp_all
      have "eq_inv st p wl'" unfolding eq_inv_def
      proof (intro conjI ballI)
        show "p \<in> seen wl'" using I v by simp
        show "types_paired st p r" if "r \<in> seen wl'" for r using that I v(2) pair_items_paired [OF q(1)] by blast
        show "set (todo wl') \<subseteq> seen wl'" using I Cons v by auto
        show "types_agree st p \<or> todo wl' = [p]" using pq v(1) by auto
        fix r assume "r \<in> seen wl' - set (todo wl')"
        then have r: "r \<in> seen wl" "r \<notin> set rest" using v(3) by auto
        show "types_agree st r" using r I Cons v(1) by (cases "r = q") auto
        show "pair_items st r \<subseteq> seen wl'" using r I Cons v(2) by (cases "r = q") auto
      qed
      then show ?thesis using Suc.IH [of wl'] Suc.prems(2) loop more by simp
    next
      case yes
      then have "equal_scalars st q" "res = Some True" using Suc.prems(2) loop v by simp_all
      moreover from this have "types_agree st p" using pq by (auto simp: equal_scalars_def)
      ultimately show ?thesis using q(1) by (cases q) (simp, blast)
    next
      case trap
      then have "res = None" "\<not> types_agree st q" using Suc.prems(2) loop v by simp_all
      then show ?thesis using q(1) by (cases q) auto
    next
      case no
      then have "res = Some False" "\<not> types_agree st q" using Suc.prems(2) loop v by simp_all
      then show ?thesis using q(1) by (cases q) auto
    qed
  qed
qed simp

section \<open>Properties\<close>

lemma clt_eq_loop_total:
  "clt_eq_loop (clt_eq_fuel st) st (wl_init SchedStack (a, b)) \<noteq> None \<and>
   (\<forall>m \<ge> clt_eq_fuel st. clt_eq_loop m st (wl_init SchedStack (a, b)) = clt_eq_loop (clt_eq_fuel st) st (wl_init SchedStack (a, b)))"
proof (rule clt_eq_loop_enough)
  show "clt_wl_ok st (a, b) (wl_init SchedStack (a, b))" by (simp add: clt_wl_ok_def clt_pairs_def wl_init_def)
  have "Suc (card (clt_pairs st (a, b) - {(a, b)})) = card (clt_pairs st (a, b))"
    using clt_pairs_card(1) by (intro card_Suc_Diff1) (auto simp: clt_pairs_def)
  with clt_pairs_card(2) [of st "(a, b)"] show "clt_measure st (a, b) (wl_init SchedStack (a, b)) < clt_eq_fuel st"
    by (simp add: clt_measure_def wl_init_def)
qed

text \<open>
  C38: the comparison of two types terminates, although type graphs are cyclic: the bound on the number
  of rounds is never reached, and any larger bound gives the same verdict.
\<close>

theorem cl_type_eq_terminates:
  "clt_eq_loop (clt_eq_fuel st) st (wl_init SchedStack (a, b)) \<noteq> None \<and>
   (\<forall>n \<ge> clt_eq_fuel st. Option.bind (clt_eq_loop n st (wl_init SchedStack (a, b))) id = cl_type_eq st a b)"
  using clt_eq_loop_total [of st a b] unfolding cl_type_eq_def by (intro conjI allI impI) (blast, metis)

text \<open>
  C39: the verdict of the comparison.  If it is \<open>true\<close>, the two types agree, and either all pairs of types at the same
  place of the two type graphs agree, or there is a pair of equal scalar types among them that are not the same type
  (the loop returns at the first such pair).  If it is \<open>false\<close> or the code stops at an assertion, some pair at the same
  place does not agree.  The verdict does not depend on the order of the two types.
\<close>

theorem cl_type_eq_verdict:
  "(case cl_type_eq st a b of
      Some True \<Rightarrow> types_agree st (a, b) \<and>
        ((\<forall>q. types_paired st (a, b) q \<longrightarrow> types_agree st q) \<or> (\<exists>q. types_paired st (a, b) q \<and> equal_scalars st q))
    | _ \<Rightarrow> \<exists>q. types_paired st (a, b) q \<and> \<not> types_agree st q) \<and>
   cl_type_eq st a b = cl_type_eq st b a"
proof
  have "eq_inv st (a, b) (wl_init SchedStack (a, b))" by (auto simp: eq_inv_def wl_init_def intro: types_paired.start)
  note v = clt_eq_loop_verdict [OF this]
  from clt_eq_loop_total [THEN conjunct1] obtain res where "clt_eq_loop (clt_eq_fuel st) st (wl_init SchedStack (a, b)) = Some res"
    by blast
  with v [OF this] show "case cl_type_eq st a b of
      Some True \<Rightarrow> types_agree st (a, b) \<and>
        ((\<forall>q. types_paired st (a, b) q \<longrightarrow> types_agree st q) \<or> (\<exists>q. types_paired st (a, b) q \<and> equal_scalars st q))
    | _ \<Rightarrow> \<exists>q. types_paired st (a, b) q \<and> \<not> types_agree st q"
    by (simp add: cl_type_eq_def)
  have "wl_init SchedStack (b, a) = wl_swap (wl_init SchedStack (a, b))"
    by (simp add: wl_init_def wl_swap_def)
  then show "cl_type_eq st a b = cl_type_eq st b a"
    by (simp add: cl_type_eq_def clt_eq_loop_swap)
qed

text \<open>A structure with a pointer to itself and a field, in two copies with different ids.\<close>

definition wit_stor :: stor where
  "wit_stor = \<lparr>stor_types =
     [(1, \<lparr>clt_uid = 1, clt_code = CL_TYPE_STRUCT, clt_size = 16,
          clt_items = [\<lparr>item_type = 2, item_name = Some ''next'', item_offset = 0\<rparr>,
                       \<lparr>item_type = 3, item_name = Some ''data'', item_offset = 8\<rparr>], clt_is_unsigned = False\<rparr>),
      (2, \<lparr>clt_uid = 2, clt_code = CL_TYPE_PTR, clt_size = 8,
          clt_items = [\<lparr>item_type = 1, item_name = None, item_offset = 0\<rparr>], clt_is_unsigned = True\<rparr>),
      (3, \<lparr>clt_uid = 3, clt_code = CL_TYPE_INT, clt_size = 4, clt_items = [], clt_is_unsigned = False\<rparr>),
      (4, \<lparr>clt_uid = 4, clt_code = CL_TYPE_PTR, clt_size = 8,
          clt_items = [\<lparr>item_type = 1, item_name = None, item_offset = 0\<rparr>], clt_is_unsigned = True\<rparr>),
      (5, \<lparr>clt_uid = 5, clt_code = CL_TYPE_INT, clt_size = 8, clt_items = [], clt_is_unsigned = False\<rparr>)],
     stor_vars = [(10, \<lparr>var_code = VAR_LC, var_type = 2\<rparr>), (11, \<lparr>var_code = VAR_GL, var_type = 1\<rparr>)],
     genericDataPtr = 2, dataPtrSizeof = 8\<rparr>"

theorem cl_type_eq_terminates_witness:
  "clt_eq_loop (clt_eq_fuel wit_stor + 5) wit_stor (wl_init SchedStack (2, 4)) = Some (Some True) \<and>
   Option.bind (clt_eq_loop (clt_eq_fuel wit_stor + 5) wit_stor (wl_init SchedStack (2, 4))) id = cl_type_eq wit_stor 2 4"
proof
  show "clt_eq_loop (clt_eq_fuel wit_stor + 5) wit_stor (wl_init SchedStack (2, 4)) = Some (Some True)"
    by code_simp
  show "Option.bind (clt_eq_loop (clt_eq_fuel wit_stor + 5) wit_stor (wl_init SchedStack (2, 4))) id = cl_type_eq wit_stor 2 4"
    using cl_type_eq_terminates [of wit_stor 2 4] le_add1 by blast
qed

theorem cl_type_eq_verdict_witness:
  "cl_type_eq wit_stor 2 4 = Some True \<and> types_agree wit_stor (2, 4) \<and>
   cl_type_eq wit_stor 3 5 = Some False \<and> (\<exists>q. types_paired wit_stor (3, 5) q \<and> \<not> types_agree wit_stor q) \<and>
   cl_type_eq wit_stor 3 5 = cl_type_eq wit_stor 5 3"
proof (intro conjI)
  show e: "cl_type_eq wit_stor 2 4 = Some True" by code_simp
  show "types_agree wit_stor (2, 4)" using cl_type_eq_verdict [of wit_stor 2 4] by (simp add: e)
  show f: "cl_type_eq wit_stor 3 5 = Some False" by code_simp
  show "\<exists>q. types_paired wit_stor (3, 5) q \<and> \<not> types_agree wit_stor q" using cl_type_eq_verdict [of wit_stor 3 5] unfolding f by simp
  show "cl_type_eq wit_stor 3 5 = cl_type_eq wit_stor 5 3" using cl_type_eq_verdict [of wit_stor 3 5] by blast
qed

end
