(* ===== verification/SymPred.thy ===== *)
theory SymPred
  imports Prelude "HOL-Library.Product_Lexorder"
begin

text \<open>
  Predicates over pairs of values: \<open>SymPairSet\<close> and \<open>SymPairMap\<close> of \<open>src/sl/sympred.hh\<close>, and the lookup
  containers \<open>NeqDb\<close>, \<open>CoincidenceDb\<close> and \<open>CVarMap\<close> of \<open>src/sl/symheap.cc\<close> that are built on them.
  The locale \<open>sym_relation\<close> states what the heap relies on, and is interpreted on the set of pairs.
\<close>

section \<open>Symmetric relations and maps\<close>

text \<open>\<open>sortValues\<close>: the pair in non-decreasing order.\<close>

definition sortValues :: "'k::linorder \<Rightarrow> 'k \<Rightarrow> 'k \<times> 'k" where
  "sortValues a b = (if b < a then (b, a) else (a, b))"

definition sps_chk :: "'k::linorder \<Rightarrow> 'k \<Rightarrow> ('k \<times> 'k) set \<Rightarrow> bool" where
  "sps_chk k1 k2 cont \<longleftrightarrow> sortValues k1 k2 \<in> cont"

text \<open>\<open>add\<close> and \<open>del\<close> for the template parameter \<open>IREFLEXIVE\<close>; the flag tells whether the set has changed.\<close>

definition sps_add :: "bool \<Rightarrow> 'k::linorder \<Rightarrow> 'k \<Rightarrow> ('k \<times> 'k) set \<Rightarrow> (bool \<times> ('k \<times> 'k) set) option" where
  "sps_add ireflexive k1 k2 cont = do {
     cl_break_if (ireflexive \<and> k1 = k2);
     let item = sortValues k1 k2;
     Some (item \<notin> cont, insert item cont)
   }"

definition sps_del :: "bool \<Rightarrow> 'k::linorder \<Rightarrow> 'k \<Rightarrow> ('k \<times> 'k) set \<Rightarrow> (bool \<times> ('k \<times> 'k) set) option" where
  "sps_del ireflexive k1 k2 cont = do {
     cl_break_if (ireflexive \<and> k1 = k2);
     let item = sortValues k1 k2;
     Some (item \<in> cont, cont - {item})
   }"

definition spm_add :: "'k::linorder \<Rightarrow> 'k \<Rightarrow> 'v \<Rightarrow> ('k \<times> 'k, 'v) omap \<Rightarrow> ('k \<times> 'k, 'v) omap option" where
  "spm_add k1 k2 val db = do {
     let key = sortValues k1 k2;
     cl_break_if (omap_find db key \<noteq> None);
     Some (omap_put key val db)
   }"

text \<open>\<open>chk\<close>: \<open>None\<close> for \<open>false\<close>, otherwise the stored value.\<close>

definition spm_chk :: "'k::linorder \<Rightarrow> 'k \<Rightarrow> ('k \<times> 'k, 'v) omap \<Rightarrow> 'v option" where
  "spm_chk k1 k2 db = omap_find db (sortValues k1 k2)"

section \<open>The containers of the heap\<close>

type_synonym neq_db = "(int \<times> int) set"
type_synonym coin_db = "(int \<times> int, int) omap"

definition relatedOf :: "int \<Rightarrow> int \<times> int \<Rightarrow> int list" where
  "relatedOf val item = (if fst item = val then [snd item] else if snd item = val then [fst item] else [])"

definition neq_gatherRelatedValues :: "int list \<Rightarrow> int \<Rightarrow> neq_db \<Rightarrow> int list" where
  "neq_gatherRelatedValues dst val cont = dst @ concat (map (relatedOf val) (sorted_list_of_set cont))"

definition coin_gatherRelatedValues :: "int list \<Rightarrow> int \<Rightarrow> coin_db \<Rightarrow> int list" where
  "coin_gatherRelatedValues dst val db = dst @ concat (map (relatedOf val) (map fst db))"

record cvar =
  cv_uid :: int
  cv_inst :: int

type_synonym cvar_map = "cvar \<Rightarrow> int option"

definition cvm_insert :: "cvar \<Rightarrow> int \<Rightarrow> cvar_map \<Rightarrow> cvar_map option" where
  "cvm_insert cv val cont = do { cl_break_if (cont cv \<noteq> None); Some (cont(cv \<mapsto> val)) }"

definition cvm_remove :: "cvar \<Rightarrow> cvar_map \<Rightarrow> cvar_map option" where
  "cvm_remove cv cont = do { cl_break_if (cont cv = None); Some (cont(cv := None)) }"

text \<open>\<open>find\<close>: \<open>-1\<close> is \<open>OBJ_INVALID\<close>; a local variable that is not there falls back to the global one.\<close>

definition cvm_find :: "cvar \<Rightarrow> cvar_map \<Rightarrow> int option" where
  "cvm_find cv cont =
     (if cv_inst cv = 0 then Some (case cont cv of Some obj \<Rightarrow> obj | None \<Rightarrow> - 1)
      else (let gl = cv\<lparr>cv_inst := 0\<rparr>
            in if cont cv = None \<and> cont gl = None then Some (- 1)
               else do {
                 cl_break_if (cont cv \<noteq> None \<and> cont gl \<noteq> None);
                 case cont cv of Some obj \<Rightarrow> Some obj | None \<Rightarrow> cont gl
               }))"

section \<open>Laws\<close>

lemma sortValues_commute: "sortValues a b = sortValues b a"
  by (auto simp: sortValues_def)

lemma sortValues_eq_iff: "sortValues a b = sortValues c d \<longleftrightarrow> (a = c \<and> b = d) \<or> (a = d \<and> b = c)"
  by (auto simp: sortValues_def)

lemma sortValues_cases: "sortValues a b = (a, b) \<or> sortValues a b = (b, a)"
  by (simp add: sortValues_def)

text \<open>
  What the clients of a predicate store rely on: the relation is symmetric, and adding or deleting a pair
  changes the answer for this pair only.
\<close>

locale sym_relation =
  fixes chk :: "'k \<Rightarrow> 'k \<Rightarrow> 's \<Rightarrow> bool"
    and add :: "'k \<Rightarrow> 'k \<Rightarrow> 's \<Rightarrow> (bool \<times> 's) option"
    and del :: "'k \<Rightarrow> 'k \<Rightarrow> 's \<Rightarrow> (bool \<times> 's) option"
  assumes chk_sym: "chk a b s = chk b a s"
    and add_spec: "add a b s = Some (c, s') \<Longrightarrow>
      c = (\<not> chk a b s) \<and> (chk x y s' \<longleftrightarrow> chk x y s \<or> (x = a \<and> y = b) \<or> (x = b \<and> y = a))"
    and del_spec: "del a b s = Some (c, s') \<Longrightarrow>
      c = chk a b s \<and> (chk x y s' \<longleftrightarrow> chk x y s \<and> \<not> ((x = a \<and> y = b) \<or> (x = b \<and> y = a)))"
    and add_del_total: "a \<noteq> b \<Longrightarrow> add a b s \<noteq> None \<and> del a b s \<noteq> None"
begin

text \<open>Deleting the pairs of one key with every key of a list.\<close>

definition del_all :: "'k \<Rightarrow> 'k list \<Rightarrow> 's \<Rightarrow> 's option" where
  "del_all v ks = ofold (\<lambda>k s. map_option snd (del k v s)) ks"

lemma del_all_total: "v \<notin> set ks \<Longrightarrow> \<exists>s'. del_all v ks s = Some s'"
proof (induction ks arbitrary: s)
  case (Cons k ks)
  with add_del_total [of k v s] obtain c s1 where "del k v s = Some (c, s1)" by auto
  with Cons show ?case by (simp add: del_all_def)
qed (simp add: del_all_def)

lemma del_all_chk:
  "del_all v ks s = Some s' \<Longrightarrow> chk x y s' \<longleftrightarrow> chk x y s \<and> \<not> (x = v \<and> y \<in> set ks) \<and> \<not> (y = v \<and> x \<in> set ks)"
proof (induction ks arbitrary: s)
  case (Cons k ks)
  then obtain c s1 where "del k v s = Some (c, s1)" "del_all v ks s1 = Some s'"
    by (auto simp: del_all_def bind_eq_Some_conv)
  with Cons.IH [of s1] del_spec [of k v s c s1 x y] show ?case by auto
qed (simp add: del_all_def)

lemma add_then_del:
  assumes "add a b s = Some (True, s1)" "del a b s1 = Some (c, s2)"
  shows "c \<and> chk x y s2 = chk x y s"
  using add_spec [OF assms(1)] del_spec [OF assms(2)] chk_sym by metis

end

interpretation neq: sym_relation
  "sps_chk :: int \<Rightarrow> int \<Rightarrow> neq_db \<Rightarrow> bool"
  "sps_add True :: int \<Rightarrow> int \<Rightarrow> neq_db \<Rightarrow> (bool \<times> neq_db) option"
  "sps_del True :: int \<Rightarrow> int \<Rightarrow> neq_db \<Rightarrow> (bool \<times> neq_db) option"
  by unfold_locales
    (auto simp: sps_chk_def sps_add_def sps_del_def Let_def sortValues_eq_iff sortValues_commute split: if_splits)

section \<open>Properties\<close>

lemma set_relatedOf: "x \<in> set (relatedOf val item) \<longleftrightarrow> item = (val, x) \<or> item = (x, val)"
  by (cases item) (auto simp: relatedOf_def)

definition neq_wf :: "neq_db \<Rightarrow> bool" where
  "neq_wf cont \<longleftrightarrow> finite cont \<and> (\<forall>(a, b) \<in> cont. a < b)"

lemma neq_wf_add: "sps_add True a b cont = Some (c, cont') \<Longrightarrow> neq_wf cont \<Longrightarrow> neq_wf cont'"
  by (auto simp: sps_add_def neq_wf_def sortValues_def Let_def split: if_splits)

lemma neq_wf_del: "sps_del True a b cont = Some (c, cont') \<Longrightarrow> neq_wf cont \<Longrightarrow> neq_wf cont'"
  by (auto simp: sps_del_def neq_wf_def sortValues_def Let_def split: if_splits)

lemma set_neq_gather:
  assumes "neq_wf cont"
  shows "set (neq_gatherRelatedValues dst val cont) = set dst \<union> {x. sps_chk val x cont}"
proof -
  have lt: "a < b" if "(a, b) \<in> cont" for a b using assms that by (auto simp: neq_wf_def)
  have chk: "sps_chk val x cont \<longleftrightarrow> (val, x) \<in> cont \<or> (x, val) \<in> cont" for x
    using lt [of val x] lt [of x val] by (auto simp: sps_chk_def sortValues_def)
  have "finite cont" using assms by (simp add: neq_wf_def)
  then have "x \<in> set (neq_gatherRelatedValues dst val cont) \<longleftrightarrow> x \<in> set dst \<or> (\<exists>p \<in> cont. x \<in> set (relatedOf val p))" for x
    by (simp add: neq_gatherRelatedValues_def)
  then show ?thesis by (intro set_eqI) (simp only: chk set_relatedOf Un_iff mem_Collect_eq, blast)
qed

lemma neq_gather_irrefl: "neq_wf cont \<Longrightarrow> val \<notin> set (neq_gatherRelatedValues [] val cont)"
  unfolding set_neq_gather by (force simp: sps_chk_def sortValues_def neq_wf_def)

text \<open>
  C33: killing every \<open>Neq\<close> predicate that \<open>gatherRelatedValues\<close> finds for a value removes exactly the
  predicates about this value: none of them is left, every other one still holds, and no deletion traps.
\<close>

theorem neq_kill_value:
  assumes "neq_wf cont"
  shows "\<exists>cont'. ofold (\<lambda>k s. map_option snd (sps_del True k val s)) (neq_gatherRelatedValues [] val cont) cont
      = Some cont' \<and> neq_wf cont' \<and>
    (\<forall>x y. sps_chk x y cont' \<longleftrightarrow> sps_chk x y cont \<and> x \<noteq> val \<and> y \<noteq> val)"
proof -
  let ?ks = "neq_gatherRelatedValues [] val cont"
  obtain cont' where del: "neq.del_all val ?ks cont = Some cont'"
    using neq.del_all_total neq_gather_irrefl [OF assms] by blast
  have "sps_chk x y cont' \<longleftrightarrow> sps_chk x y cont \<and> x \<noteq> val \<and> y \<noteq> val" for x y
    using neq.del_all_chk [OF del, of x y] neq.chk_sym [of x y cont]
    by (auto simp: set_neq_gather [OF assms])
  moreover have "neq_wf cont'"
    by (rule ofold_invariant [OF del [unfolded neq.del_all_def]]) (auto simp: assms dest: neq_wf_del)
  ultimately show ?thesis using del by (auto simp: neq.del_all_def)
qed

theorem neq_kill_value_witness:
  "ofold (\<lambda>k s. map_option snd (sps_del True k 3 s)) (neq_gatherRelatedValues [] 3 {(1, 3), (3, 5), (1, 5)})
     {(1, 3), (3, 5), (1, 5)} = Some {(1, 5 :: int)} \<and>
   (\<exists>cont'. ofold (\<lambda>k s. map_option snd (sps_del True k 3 s)) (neq_gatherRelatedValues [] 3 {(1, 3), (3, 5), (1, 5)})
     {(1, 3), (3, 5), (1, 5)} = Some cont' \<and> \<not> sps_chk 1 3 cont' \<and> sps_chk 1 5 cont')"
proof
  show "ofold (\<lambda>k s. map_option snd (sps_del True k 3 s)) (neq_gatherRelatedValues [] 3 {(1, 3), (3, 5), (1, 5)})
     {(1, 3), (3, 5), (1, 5)} = Some {(1, 5 :: int)}"
    by code_simp
  have "neq_wf {(1, 3), (3, 5), (1, 5)}" by (simp add: neq_wf_def)
  from neq_kill_value [OF this, of 3] obtain cont' where
    res: "ofold (\<lambda>k s. map_option snd (sps_del True k 3 s)) (neq_gatherRelatedValues [] 3 {(1, 3), (3, 5), (1, 5)})
       {(1, 3), (3, 5), (1, 5)} = Some cont'"
    and chk: "\<And>x y. sps_chk x y cont' \<longleftrightarrow> sps_chk x y {(1, 3), (3, 5), (1, 5)} \<and> x \<noteq> 3 \<and> y \<noteq> 3"
    by blast
  have "\<not> sps_chk 1 3 cont' \<and> sps_chk 1 5 cont'"
    unfolding chk by (simp add: sps_chk_def sortValues_def)
  with res show "\<exists>cont'. ofold (\<lambda>k s. map_option snd (sps_del True k 3 s)) (neq_gatherRelatedValues [] 3 {(1, 3), (3, 5), (1, 5)})
     {(1, 3), (3, 5), (1, 5)} = Some cont' \<and> \<not> sps_chk 1 3 cont' \<and> sps_chk 1 5 cont'"
    by blast
qed

end
