(* ===== verification/HeapEnts.thy ===== *)
theory HeapEnts
  imports Prelude IntArena IntRange ClTypes SymPred
begin

text \<open>
  The entities of a symbolic heap (first part of \<open>src/sl/symheap.cc\<close> and \<open>src/sl/symheap.hh\<close>): blocks
  and fields, values, regions, custom values, the table of custom values, and the record of a heap with the
  typed access to its entities.  An id resolves to at most one entity; to ask for an entity that is not there
  or is of another class is a trap, as in \<open>EntStore::getEntRO\<close> and \<open>getEntRW\<close>.
\<close>

section \<open>Identifiers and enumerations\<close>

abbreviation (input) VAL_NULL :: int where "VAL_NULL \<equiv> 0"
abbreviation (input) VAL_INVALID :: int where "VAL_INVALID \<equiv> - 1"
abbreviation (input) VAL_TRUE :: int where "VAL_TRUE \<equiv> 1"
abbreviation (input) VAL_FALSE :: int where "VAL_FALSE \<equiv> 0"
abbreviation (input) FLD_INVALID :: int where "FLD_INVALID \<equiv> - 1"
abbreviation (input) FLD_DEREF_FAILED :: int where "FLD_DEREF_FAILED \<equiv> - 2"
abbreviation (input) FLD_UNKNOWN :: int where "FLD_UNKNOWN \<equiv> - 3"
abbreviation (input) OBJ_INVALID :: int where "OBJ_INVALID \<equiv> - 1"
abbreviation (input) OBJ_NULL :: int where "OBJ_NULL \<equiv> 2"
abbreviation (input) OBJ_RETURN :: int where "OBJ_RETURN \<equiv> 3"

type_synonym TValId = int
type_synonym TFldId = int
type_synonym TObjId = int
type_synonym TOffset = int
type_synonym TSizeOf = int

datatype EValueOrigin = VO_INVALID | VO_ASSIGNED | VO_UNKNOWN | VO_REINTERPRET | VO_DEREF_FAILED
  | VO_STACK | VO_HEAP

datatype EValueTarget = VT_INVALID | VT_UNKNOWN | VT_COMPOSITE | VT_CUSTOM | VT_OBJECT | VT_RANGE

datatype EStorageClass = SC_INVALID | SC_UNKNOWN | SC_STATIC | SC_ON_HEAP | SC_ON_STACK

datatype ETargetSpecifier = TS_INVALID | TS_REGION | TS_FIRST | TS_LAST | TS_ALL

datatype EBlockKind = BK_INVALID | BK_FIELD | BK_COMPOSITE | BK_UNIFORM

fun isUninitialized :: "EValueOrigin \<Rightarrow> bool" where
  "isUninitialized VO_HEAP = True"
| "isUninitialized VO_STACK = True"
| "isUninitialized _ = False"

definition isOnHeap :: "EStorageClass \<Rightarrow> bool" where
  "isOnHeap code \<longleftrightarrow> SC_ON_HEAP = code"

definition isOnStack :: "EStorageClass \<Rightarrow> bool" where
  "isOnStack code \<longleftrightarrow> SC_ON_STACK = code"

fun isProgramVar :: "EStorageClass \<Rightarrow> bool" where
  "isProgramVar SC_STATIC = True"
| "isProgramVar SC_ON_STACK = True"
| "isProgramVar _ = False"

fun isAnyDataArea :: "EValueTarget \<Rightarrow> bool" where
  "isAnyDataArea VT_OBJECT = True"
| "isAnyDataArea VT_RANGE = True"
| "isAnyDataArea _ = False"

fun canPointToFront :: "ETargetSpecifier \<Rightarrow> bool" where
  "canPointToFront TS_REGION = True"
| "canPointToFront TS_FIRST = True"
| "canPointToFront _ = False"

fun canPointToBack :: "ETargetSpecifier \<Rightarrow> bool" where
  "canPointToBack TS_REGION = True"
| "canPointToBack TS_LAST = True"
| "canPointToBack _ = False"

section \<open>Custom values\<close>

text \<open>
  A floating-point number up to what the code can observe of it, its comparisons: a finite number, given by
  its rank in the order of the finite numbers, one of the infinities, or NaN, which compares with nothing.
\<close>

datatype double = FpNan | FpNegInf | FpFin int | FpPosInf

fun double_le :: "double \<Rightarrow> double \<Rightarrow> bool" where
  "double_le FpNan _ = False"
| "double_le _ FpNan = False"
| "double_le FpNegInf _ = True"
| "double_le _ FpPosInf = True"
| "double_le (FpFin a) (FpFin b) = (a \<le> b)"
| "double_le _ _ = False"

definition areEqual :: "double \<Rightarrow> double \<Rightarrow> bool" where
  "areEqual a b \<longleftrightarrow> double_le a b \<and> double_le b a"

datatype custom_value = CV_INVALID | CV_FNC int | CV_INT_RANGE range | CV_REAL double | CV_STRING string

fun cv_uid_of :: "custom_value \<Rightarrow> int option" where
  "cv_uid_of (CV_FNC u) = Some u"
| "cv_uid_of _ = None"

fun cv_rng :: "custom_value \<Rightarrow> range option" where
  "cv_rng (CV_INT_RANGE r) = Some r"
| "cv_rng _ = None"

fun cv_fpn :: "custom_value \<Rightarrow> double option" where
  "cv_fpn (CV_REAL d) = Some d"
| "cv_fpn _ = None"

fun cv_str :: "custom_value \<Rightarrow> string option" where
  "cv_str (CV_STRING s) = Some s"
| "cv_str _ = None"

fun custom_value_eq :: "custom_value \<Rightarrow> custom_value \<Rightarrow> bool" where
  "custom_value_eq CV_INVALID CV_INVALID = True"
| "custom_value_eq (CV_FNC a) (CV_FNC b) = (a = b)"
| "custom_value_eq (CV_REAL a) (CV_REAL b) = areEqual a b"
| "custom_value_eq (CV_STRING a) (CV_STRING b) = (a = b)"
| "custom_value_eq (CV_INT_RANGE a) (CV_INT_RANGE b) = (a = b)"
| "custom_value_eq _ _ = False"

text \<open>\<open>rngFromCustom\<close> of \<open>src/sl/symutil.cc\<close>.\<close>

fun rngFromCustom :: "custom_value \<Rightarrow> range option" where
  "rngFromCustom (CV_INT_RANGE r) = Some r"
| "rngFromCustom _ = None"

record cv_mapper =
  fncMap :: "int \<Rightarrow> int option"
  numMap :: "int \<Rightarrow> int option"
  fpnMap :: "double \<Rightarrow> int option"
  strMap :: "string \<Rightarrow> int option"

text \<open>
  \<open>CustomValueMapper::lookup\<close> returns a reference to the stored id, which it first sets to \<open>VAL_INVALID\<close> when
  there is none.  The model returns the id read through the reference; \<open>cvm_assign\<close> is an assignment through it.
\<close>

definition assignInvalidIfNotFound :: "('k \<Rightarrow> int option) \<Rightarrow> 'k \<Rightarrow> int \<times> ('k \<Rightarrow> int option)" where
  "assignInvalidIfNotFound cont item =
     (case cont item of Some v \<Rightarrow> (v, cont) | None \<Rightarrow> (- 1, cont(item \<mapsto> - 1)))"

definition cvm_lookup :: "custom_value \<Rightarrow> cv_mapper \<Rightarrow> (int \<times> cv_mapper) option" where
  "cvm_lookup item m =
     (case item of
        CV_INVALID \<Rightarrow> None
      | CV_FNC u \<Rightarrow> Some (let (v, c) = assignInvalidIfNotFound (fncMap m) u in (v, m\<lparr>fncMap := c\<rparr>))
      | CV_INT_RANGE r \<Rightarrow> do {
          s \<leftarrow> isSingular r;
          cl_break_if (\<not> s);
          Some (let (v, c) = assignInvalidIfNotFound (numMap m) (lo r) in (v, m\<lparr>numMap := c\<rparr>))
        }
      | CV_REAL d \<Rightarrow> Some (let (v, c) = assignInvalidIfNotFound (fpnMap m) d in (v, m\<lparr>fpnMap := c\<rparr>))
      | CV_STRING s \<Rightarrow> Some (let (v, c) = assignInvalidIfNotFound (strMap m) s in (v, m\<lparr>strMap := c\<rparr>)))"

fun cvm_assign :: "custom_value \<Rightarrow> int \<Rightarrow> cv_mapper \<Rightarrow> cv_mapper" where
  "cvm_assign (CV_FNC u) v m = m\<lparr>fncMap := (fncMap m)(u \<mapsto> v)\<rparr>"
| "cvm_assign (CV_INT_RANGE r) v m = m\<lparr>numMap := (numMap m)(lo r \<mapsto> v)\<rparr>"
| "cvm_assign (CV_REAL d) v m = m\<lparr>fpnMap := (fpnMap m)(d \<mapsto> v)\<rparr>"
| "cvm_assign (CV_STRING s) v m = m\<lparr>strMap := (strMap m)(s \<mapsto> v)\<rparr>"
| "cvm_assign CV_INVALID v m = m"

definition cvm_empty :: cv_mapper where
  "cvm_empty = \<lparr>fncMap = (\<lambda>_. None), numMap = (\<lambda>_. None), fpnMap = (\<lambda>_. None), strMap = (\<lambda>_. None)\<rparr>"

section \<open>Entities\<close>

text \<open>
  \<open>BlockEntity\<close> and its subclass \<open>FieldOfObj\<close>: the part that only a field has is \<open>None\<close> for a plain block.
\<close>

record field_part =
  clt :: TObjType
  extRefCnt :: int

record block_ent =
  blk_code :: EBlockKind
  blk_obj :: TObjId
  blk_off :: TOffset
  blk_size :: TSizeOf
  blk_value :: TValId
  blk_fld :: "field_part option"

text \<open>
  \<open>BaseValue\<close> and its subclasses.  \<open>ReferableValue\<close> adds the dependent values, \<open>AnchorValue\<close> the map of
  offset values; they are abstract, so every value is of one of the classes of \<open>val_part\<close>.
\<close>

datatype val_part =
    PlainValue
  | CompValue (compObj: TFldId)
  | InternalCustomValue (customDeps: "TValId list") (customData: custom_value)
  | RangeValue (rangeDeps: "TValId list") (rangeOffMap: "(TOffset, TValId) omap") (rangeOf: range)
  | BaseAddress (addrDeps: "TValId list") (addrOffMap: "(TOffset, TValId) omap") (addrObj: TObjId) (addrTs: ETargetSpecifier)

record base_value =
  val_code :: EValueTarget
  val_origin :: EValueOrigin
  val_root :: TValId
  val_anchor :: TValId
  val_offRoot :: TOffset
  val_usedBy :: "TFldId set"
  val_part :: val_part

record call_inst =
  ci_uid :: int
  ci_inst :: int

record region =
  reg_code :: EStorageClass
  reg_cVar :: cvar
  reg_anonStackOf :: call_inst
  reg_size :: range
  reg_liveFields :: "(TFldId, EBlockKind) omap"
  reg_usedByGl :: "TFldId set"
  reg_arena :: "TFldId arena"
  reg_lastKnownClt :: TObjType
  reg_isValid :: bool
  reg_protoLevel :: int
  reg_addrByTS :: "ETargetSpecifier \<Rightarrow> TValId option"

datatype ent = EntBlock block_ent | EntVal base_value | EntRegion region

definition new_region :: "EStorageClass \<Rightarrow> region" where
  "new_region code = \<lparr>reg_code = code, reg_cVar = \<lparr>cv_uid = - 1, cv_inst = - 1\<rparr>,
     reg_anonStackOf = \<lparr>ci_uid = - 1, ci_inst = - 1\<rparr>, reg_size = rngFromNum 0, reg_liveFields = [],
     reg_usedByGl = {}, reg_arena = [], reg_lastKnownClt = 0, reg_isValid = True, reg_protoLevel = 0,
     reg_addrByTS = (\<lambda>_. None)\<rparr>"

text \<open>\<open>valRoot\<close> and \<open>anchor\<close> are set by \<open>assignId\<close>.\<close>

definition new_value :: "EValueTarget \<Rightarrow> EValueOrigin \<Rightarrow> val_part \<Rightarrow> base_value" where
  "new_value code origin p = \<lparr>val_code = code, val_origin = origin, val_root = VAL_INVALID,
     val_anchor = VAL_INVALID, val_offRoot = 0, val_usedBy = {}, val_part = p\<rparr>"

definition new_base_address :: "TObjId \<Rightarrow> ETargetSpecifier \<Rightarrow> base_value" where
  "new_base_address obj ts = new_value VT_OBJECT VO_ASSIGNED (BaseAddress [] [] obj ts)"

definition bkFromClt :: "stor \<Rightarrow> TObjType \<Rightarrow> EBlockKind option" where
  "bkFromClt st t = do { c \<leftarrow> isComposite st t False; Some (if c then BK_COMPOSITE else BK_FIELD) }"

definition new_field :: "stor \<Rightarrow> TObjId \<Rightarrow> TOffset \<Rightarrow> TObjType \<Rightarrow> block_ent option" where
  "new_field st obj off t = do {
     c \<leftarrow> bkFromClt st t;
     ty \<leftarrow> clt_at st t;
     Some \<lparr>blk_code = c, blk_obj = obj, blk_off = off, blk_size = clt_size ty, blk_value = VAL_INVALID,
       blk_fld = Some \<lparr>clt = t, extRefCnt = 0\<rparr>\<rparr>
   }"

section \<open>The heap\<close>

text \<open>
  \<open>SymHeapCore::Private\<close> with the reference to the storage of the analysed program.  The process-wide switch of
  the self-checks is kept beside it.  The trace graph node and the exit point, which no operation on the memory
  reads, are left out.
\<close>

record sheap =
  storOf :: stor
  bypassSelfChecks :: bool
  ents :: "int \<Rightarrow> ent option"
  entCnt :: int
  liveObjs :: "TObjId set"
  cVarMap :: cvar_map
  cValueMap :: cv_mapper
  coinDb :: coin_db
  neqDb :: neq_db

definition getBlock :: "int \<Rightarrow> sheap \<Rightarrow> block_ent option" where
  "getBlock i h = (case ents h i of Some (EntBlock b) \<Rightarrow> Some b | _ \<Rightarrow> None)"

definition getField :: "int \<Rightarrow> sheap \<Rightarrow> (block_ent \<times> field_part) option" where
  "getField i h = do { b \<leftarrow> getBlock i h; f \<leftarrow> blk_fld b; Some (b, f) }"

definition getVal :: "int \<Rightarrow> sheap \<Rightarrow> base_value option" where
  "getVal i h = (case ents h i of Some (EntVal v) \<Rightarrow> Some v | _ \<Rightarrow> None)"

definition getRegion :: "int \<Rightarrow> sheap \<Rightarrow> region option" where
  "getRegion i h = (case ents h i of Some (EntRegion r) \<Rightarrow> Some r | _ \<Rightarrow> None)"

fun custom_of :: "base_value \<Rightarrow> custom_value option" where
  "custom_of v = (case val_part v of InternalCustomValue _ c \<Rightarrow> Some c | _ \<Rightarrow> None)"

fun range_of :: "base_value \<Rightarrow> range option" where
  "range_of v = (case val_part v of RangeValue _ _ r \<Rightarrow> Some r | _ \<Rightarrow> None)"

fun addr_of :: "base_value \<Rightarrow> (TObjId \<times> ETargetSpecifier) option" where
  "addr_of v = (case val_part v of BaseAddress _ _ obj ts \<Rightarrow> Some (obj, ts) | _ \<Rightarrow> None)"

fun offMap_of :: "base_value \<Rightarrow> (TOffset, TValId) omap option" where
  "offMap_of v = (case val_part v of
      RangeValue _ m _ \<Rightarrow> Some m | BaseAddress _ m _ _ \<Rightarrow> Some m | _ \<Rightarrow> None)"

fun deps_of :: "base_value \<Rightarrow> TValId list option" where
  "deps_of v = (case val_part v of
      InternalCustomValue ds _ \<Rightarrow> Some ds | RangeValue ds _ _ \<Rightarrow> Some ds | BaseAddress ds _ _ _ \<Rightarrow> Some ds | _ \<Rightarrow> None)"

fun set_offMap :: "(TOffset, TValId) omap \<Rightarrow> val_part \<Rightarrow> val_part" where
  "set_offMap m (RangeValue ds _ r) = RangeValue ds m r"
| "set_offMap m (BaseAddress ds _ obj ts) = BaseAddress ds m obj ts"
| "set_offMap m p = p"

fun set_deps :: "TValId list \<Rightarrow> val_part \<Rightarrow> val_part" where
  "set_deps ds (InternalCustomValue _ c) = InternalCustomValue ds c"
| "set_deps ds (RangeValue _ m r) = RangeValue ds m r"
| "set_deps ds (BaseAddress _ m obj ts) = BaseAddress ds m obj ts"
| "set_deps ds p = p"

fun set_custom :: "custom_value \<Rightarrow> val_part \<Rightarrow> val_part" where
  "set_custom c (InternalCustomValue ds _) = InternalCustomValue ds c"
| "set_custom c p = p"

declare custom_of.simps [simp del] range_of.simps [simp del] addr_of.simps [simp del]
  offMap_of.simps [simp del] deps_of.simps [simp del]

text \<open>Writing through a pointer obtained by \<open>getEntRW\<close>, releasing an entity, and allocating an id for one.\<close>

definition putEnt :: "int \<Rightarrow> ent \<Rightarrow> sheap \<Rightarrow> sheap" where
  "putEnt i e h = h\<lparr>ents := (ents h)(i \<mapsto> e)\<rparr>"

definition releaseEnt :: "int \<Rightarrow> sheap \<Rightarrow> sheap" where
  "releaseEnt i h = h\<lparr>ents := (ents h)(i := None)\<rparr>"

definition assignEnt :: "ent \<Rightarrow> sheap \<Rightarrow> int \<times> sheap" where
  "assignEnt e h = (entCnt h, h\<lparr>ents := (ents h)(entCnt h \<mapsto> e), entCnt := entCnt h + 1\<rparr>)"

definition assignBlock :: "block_ent \<Rightarrow> sheap \<Rightarrow> TFldId \<times> sheap" where
  "assignBlock b = assignEnt (EntBlock b)"

definition assignRegion :: "region \<Rightarrow> sheap \<Rightarrow> TObjId \<times> sheap" where
  "assignRegion r = assignEnt (EntRegion r)"

definition assignVal :: "base_value \<Rightarrow> sheap \<Rightarrow> TValId \<times> sheap" where
  "assignVal v h = assignEnt (EntVal (v\<lparr>val_root := entCnt h, val_anchor := entCnt h\<rparr>)) h"

definition modVal :: "int \<Rightarrow> (base_value \<Rightarrow> base_value) \<Rightarrow> sheap \<Rightarrow> sheap option" where
  "modVal i f h = do { v \<leftarrow> getVal i h; Some (putEnt i (EntVal (f v)) h) }"

definition modBlock :: "int \<Rightarrow> (block_ent \<Rightarrow> block_ent) \<Rightarrow> sheap \<Rightarrow> sheap option" where
  "modBlock i f h = do { b \<leftarrow> getBlock i h; Some (putEnt i (EntBlock (f b)) h) }"

definition modRegion :: "int \<Rightarrow> (region \<Rightarrow> region) \<Rightarrow> sheap \<Rightarrow> sheap option" where
  "modRegion i f h = do { r \<leftarrow> getRegion i h; Some (putEnt i (EntRegion (f r)) h) }"

section \<open>Laws of the access functions\<close>

lemma get_putEnt [simp]:
  "getVal j (putEnt i e h) = (if j = i then (case e of EntVal v \<Rightarrow> Some v | _ \<Rightarrow> None) else getVal j h)"
  "getBlock j (putEnt i e h) = (if j = i then (case e of EntBlock v \<Rightarrow> Some v | _ \<Rightarrow> None) else getBlock j h)"
  "getRegion j (putEnt i e h) = (if j = i then (case e of EntRegion v \<Rightarrow> Some v | _ \<Rightarrow> None) else getRegion j h)"
  by (simp_all add: getVal_def getBlock_def getRegion_def putEnt_def)

lemma get_releaseEnt [simp]:
  "getVal j (releaseEnt i h) = (if j = i then None else getVal j h)"
  "getBlock j (releaseEnt i h) = (if j = i then None else getBlock j h)"
  "getRegion j (releaseEnt i h) = (if j = i then None else getRegion j h)"
  by (simp_all add: getVal_def getBlock_def getRegion_def releaseEnt_def)

lemma get_tables [simp]:
  "getVal j (h\<lparr>liveObjs := l\<rparr>) = getVal j h" "getVal j (h\<lparr>cVarMap := c\<rparr>) = getVal j h"
  "getVal j (h\<lparr>cValueMap := m\<rparr>) = getVal j h" "getVal j (h\<lparr>coinDb := d\<rparr>) = getVal j h"
  "getVal j (h\<lparr>neqDb := n\<rparr>) = getVal j h"
  "getBlock j (h\<lparr>liveObjs := l\<rparr>) = getBlock j h" "getBlock j (h\<lparr>cVarMap := c\<rparr>) = getBlock j h"
  "getBlock j (h\<lparr>cValueMap := m\<rparr>) = getBlock j h" "getBlock j (h\<lparr>coinDb := d\<rparr>) = getBlock j h"
  "getBlock j (h\<lparr>neqDb := n\<rparr>) = getBlock j h"
  "getRegion j (h\<lparr>liveObjs := l\<rparr>) = getRegion j h" "getRegion j (h\<lparr>cVarMap := c\<rparr>) = getRegion j h"
  "getRegion j (h\<lparr>cValueMap := m\<rparr>) = getRegion j h" "getRegion j (h\<lparr>coinDb := d\<rparr>) = getRegion j h"
  "getRegion j (h\<lparr>neqDb := n\<rparr>) = getRegion j h"
  "getVal j (h\<lparr>entCnt := n'\<rparr>) = getVal j h" "getBlock j (h\<lparr>entCnt := n'\<rparr>) = getBlock j h"
  "getRegion j (h\<lparr>entCnt := n'\<rparr>) = getRegion j h"
  by (simp_all add: getVal_def getBlock_def getRegion_def)

lemma putEnt_other [simp]:
  "storOf (putEnt i e h) = storOf h" "bypassSelfChecks (putEnt i e h) = bypassSelfChecks h"
  "entCnt (putEnt i e h) = entCnt h" "liveObjs (putEnt i e h) = liveObjs h" "cVarMap (putEnt i e h) = cVarMap h"
  "cValueMap (putEnt i e h) = cValueMap h" "coinDb (putEnt i e h) = coinDb h" "neqDb (putEnt i e h) = neqDb h"
  by (simp_all add: putEnt_def)

lemma releaseEnt_other [simp]:
  "storOf (releaseEnt i h) = storOf h" "bypassSelfChecks (releaseEnt i h) = bypassSelfChecks h"
  "entCnt (releaseEnt i h) = entCnt h" "liveObjs (releaseEnt i h) = liveObjs h" "cVarMap (releaseEnt i h) = cVarMap h"
  "cValueMap (releaseEnt i h) = cValueMap h" "coinDb (releaseEnt i h) = coinDb h" "neqDb (releaseEnt i h) = neqDb h"
  by (simp_all add: releaseEnt_def)

text \<open>The three ways to allocate an id, in terms of the new heap.\<close>

definition allocEnt :: "ent \<Rightarrow> sheap \<Rightarrow> sheap" where
  "allocEnt e h = h\<lparr>ents := (ents h)(entCnt h \<mapsto> e), entCnt := entCnt h + 1\<rparr>"

lemma assign_eq [simp]:
  "assignBlock b h = (entCnt h, allocEnt (EntBlock b) h)"
  "assignRegion r h = (entCnt h, allocEnt (EntRegion r) h)"
  "assignVal v h = (entCnt h, allocEnt (EntVal (v\<lparr>val_root := entCnt h, val_anchor := entCnt h\<rparr>)) h)"
  by (simp_all add: assignBlock_def assignRegion_def assignVal_def assignEnt_def allocEnt_def)

lemma get_allocEnt [simp]:
  "getVal j (allocEnt e h) = (if j = entCnt h then (case e of EntVal v \<Rightarrow> Some v | _ \<Rightarrow> None) else getVal j h)"
  "getBlock j (allocEnt e h) = (if j = entCnt h then (case e of EntBlock v \<Rightarrow> Some v | _ \<Rightarrow> None) else getBlock j h)"
  "getRegion j (allocEnt e h) = (if j = entCnt h then (case e of EntRegion v \<Rightarrow> Some v | _ \<Rightarrow> None) else getRegion j h)"
  by (simp_all add: getVal_def getBlock_def getRegion_def allocEnt_def)

lemma allocEnt_other [simp]:
  "storOf (allocEnt e h) = storOf h" "bypassSelfChecks (allocEnt e h) = bypassSelfChecks h"
  "entCnt (allocEnt e h) = entCnt h + 1" "liveObjs (allocEnt e h) = liveObjs h" "cVarMap (allocEnt e h) = cVarMap h"
  "cValueMap (allocEnt e h) = cValueMap h" "coinDb (allocEnt e h) = coinDb h" "neqDb (allocEnt e h) = neqDb h"
  by (simp_all add: allocEnt_def)

lemma putEnt_allocEnt [simp]: "putEnt (entCnt h) e' (allocEnt e h) = allocEnt e' h"
  by (simp add: putEnt_def allocEnt_def)

lemma get_exclusive:
  "getVal i h = Some v \<Longrightarrow> getBlock i h = None \<and> getRegion i h = None"
  "getBlock i h = Some b \<Longrightarrow> getVal i h = None \<and> getRegion i h = None"
  "getRegion i h = Some r \<Longrightarrow> getVal i h = None \<and> getBlock i h = None"
  by (auto simp: getVal_def getBlock_def getRegion_def split: option.splits ent.splits)

lemma modVal_eq_Some: "modVal i f h = Some h' \<longleftrightarrow> (\<exists>v. getVal i h = Some v \<and> h' = putEnt i (EntVal (f v)) h)"
  by (auto simp: modVal_def bind_eq_Some_conv)

lemma modBlock_eq_Some: "modBlock i f h = Some h' \<longleftrightarrow> (\<exists>b. getBlock i h = Some b \<and> h' = putEnt i (EntBlock (f b)) h)"
  by (auto simp: modBlock_def bind_eq_Some_conv)

lemma modRegion_eq_Some: "modRegion i f h = Some h' \<longleftrightarrow> (\<exists>r. getRegion i h = Some r \<and> h' = putEnt i (EntRegion (f r)) h)"
  by (auto simp: modRegion_def bind_eq_Some_conv)

lemmas mod_eq_Some = modVal_eq_Some modBlock_eq_Some modRegion_eq_Some

lemma getField_eq_Some: "getField i h = Some (b, f) \<longleftrightarrow> getBlock i h = Some b \<and> blk_fld b = Some f"
  by (auto simp: getField_def bind_eq_Some_conv)

end
