(* ===== verification/EntStore.thy ===== *)
theory EntStore
  imports HeapEnts "HOL-Library.Multiset"
begin

text \<open>
  The entity store behind a symbolic heap (\<open>src/sl/syments.hh\<close>): a vector of pointers to reference-counted
  entities that copies of a heap share until one of them writes, and a counter of ids shared by all copies.  The
  memory is explicit: an address resolves to an object with its reference count, to use a released object is a
  trap.  The theory shows that sharing cannot be observed: every store behaves as a map of its own from ids to
  entities, the one the model of the heap works with.
\<close>

section \<open>Reference counters\<close>

definition rc_isShared :: "int \<Rightarrow> bool option" where
  "rc_isShared cnt = do { cl_break_if (cnt < 1); Some (1 < cnt) }"

text \<open>The result of the code, whether cloning is needed, with the new count.\<close>

definition rc_enter :: "int \<Rightarrow> (bool \<times> int) option" where
  "rc_enter cnt = do { cl_break_if (cnt < 1); Some (False, cnt + 1) }"

definition rc_requireExclusivity :: "int \<Rightarrow> (bool \<times> int) option" where
  "rc_requireExclusivity cnt = do {
     shared \<leftarrow> rc_isShared cnt;
     Some (if \<not> shared then (False, cnt) else (True, cnt - 1))
   }"

definition rc_leave :: "int \<Rightarrow> bool \<times> int" where
  "rc_leave cnt = (cnt - 1 = 0, cnt - 1)"

definition rc_destroy :: "int \<Rightarrow> unit option" where
  "rc_destroy cnt = cl_break_if (cnt \<noteq> 0)"

section \<open>Memory of reference-counted objects\<close>

record 'a rc_obj =
  rc_cnt :: int
  rc_val :: 'a

record 'a rc_mem =
  rc_cells :: "nat \<Rightarrow> 'a rc_obj option"
  rc_brk :: nat

definition rc_empty :: "'a rc_mem" where
  "rc_empty = \<lparr>rc_cells = (\<lambda>_. None), rc_brk = 0\<rparr>"

text \<open>\<open>new\<close>, also as the copy made by a clone: the count of the new object is one.\<close>

definition rc_new :: "'a \<Rightarrow> 'a rc_mem \<Rightarrow> nat \<times> 'a rc_mem" where
  "rc_new v m = (rc_brk m, m\<lparr>rc_cells := (rc_cells m)(rc_brk m \<mapsto> \<lparr>rc_cnt = 1, rc_val = v\<rparr>), rc_brk := rc_brk m + 1\<rparr>)"

definition rc_put :: "nat \<Rightarrow> 'a rc_obj \<Rightarrow> 'a rc_mem \<Rightarrow> 'a rc_mem" where
  "rc_put p ob m = m\<lparr>rc_cells := (rc_cells m)(p \<mapsto> ob)\<rparr>"

definition rcl_enter :: "nat \<Rightarrow> 'a rc_mem \<Rightarrow> (nat \<times> 'a rc_mem) option" where
  "rcl_enter p m = do {
     ob \<leftarrow> rc_cells m p;
     (needCloning, cnt) \<leftarrow> rc_enter (rc_cnt ob);
     let m = rc_put p (ob\<lparr>rc_cnt := cnt\<rparr>) m;
     Some (if needCloning then rc_new (rc_val ob) m else (p, m))
   }"

definition rcl_leave :: "nat \<Rightarrow> 'a rc_mem \<Rightarrow> 'a rc_mem option" where
  "rcl_leave p m = do {
     ob \<leftarrow> rc_cells m p;
     let (wasLast, cnt) = rc_leave (rc_cnt ob);
     if wasLast then do {
       rc_destroy cnt;
       Some (m\<lparr>rc_cells := (rc_cells m)(p := None)\<rparr>)
     }
     else Some (rc_put p (ob\<lparr>rc_cnt := cnt\<rparr>) m)
   }"

definition rcl_requireExclusivity :: "nat \<Rightarrow> 'a rc_mem \<Rightarrow> (nat \<times> 'a rc_mem) option" where
  "rcl_requireExclusivity p m = do {
     ob \<leftarrow> rc_cells m p;
     (needCloning, cnt) \<leftarrow> rc_requireExclusivity (rc_cnt ob);
     let m = rc_put p (ob\<lparr>rc_cnt := cnt\<rparr>) m;
     Some (if needCloning then rc_new (rc_val ob) m else (p, m))
   }"

section \<open>The store\<close>

text \<open>A null pointer in the vector is \<open>None\<close>.\<close>

record ent_store =
  es_ents :: "nat option list"
  es_entCnt :: nat

record 'e ent_mem =
  em_ents :: "'e rc_mem"
  em_cnts :: "int rc_mem"

definition es_lastId :: "ent_store \<Rightarrow> int" where
  "es_lastId s = - 1 + int (length (es_ents s))"

definition es_outOfRange :: "int \<Rightarrow> ent_store \<Rightarrow> bool" where
  "es_outOfRange i s \<longleftrightarrow> es_lastId s < i \<or> i < 0"

text \<open>\<open>std::vector::resize\<close> with null pointers.\<close>

definition es_resize :: "int \<Rightarrow> nat option list \<Rightarrow> nat option list" where
  "es_resize n xs = take (nat n) xs @ replicate (nat n - length xs) None"

definition es_isValidEnt :: "int \<Rightarrow> ent_store \<Rightarrow> bool" where
  "es_isValidEnt i s \<longleftrightarrow> \<not> es_outOfRange i s \<and> es_ents s ! nat i \<noteq> None"

definition es_create :: "'e ent_mem \<Rightarrow> ent_store \<times> 'e ent_mem" where
  "es_create m = (let (c, cm) = rc_new 0 (em_cnts m) in (\<lparr>es_ents = [], es_entCnt = c\<rparr>, m\<lparr>em_cnts := cm\<rparr>))"

text \<open>The copy constructor and the destructor, with their loops over the entities.\<close>

definition es_copy :: "ent_store \<Rightarrow> 'e ent_mem \<Rightarrow> (ent_store \<times> 'e ent_mem) option" where
  "es_copy s m = do {
     (c, cm) \<leftarrow> rcl_enter (es_entCnt s) (em_cnts m);
     (xs, em) \<leftarrow> ofold (\<lambda>ent (xs, em).
         case ent of
           None \<Rightarrow> Some (xs @ [None], em)
         | Some p \<Rightarrow> do { (p, em) \<leftarrow> rcl_enter p em; Some (xs @ [Some p], em) }) (es_ents s) ([], em_ents m);
     Some (\<lparr>es_ents = xs, es_entCnt = c\<rparr>, \<lparr>em_ents = em, em_cnts = cm\<rparr>)
   }"

definition es_destroy :: "ent_store \<Rightarrow> 'e ent_mem \<Rightarrow> 'e ent_mem option" where
  "es_destroy s m = do {
     cm \<leftarrow> rcl_leave (es_entCnt s) (em_cnts m);
     em \<leftarrow> ofold (\<lambda>ent em. case ent of None \<Rightarrow> Some em | Some p \<Rightarrow> rcl_leave p em) (es_ents s) (em_ents m);
     Some \<lparr>em_ents = em, em_cnts = cm\<rparr>
   }"

definition es_assignAt :: "int \<Rightarrow> nat \<Rightarrow> ent_store \<Rightarrow> 'e ent_mem \<Rightarrow> (ent_store \<times> 'e ent_mem) option" where
  "es_assignAt i p s m = do {
     ob \<leftarrow> rc_cells (em_ents m) p;
     shared \<leftarrow> rc_isShared (rc_cnt ob);
     cl_break_if shared;
     let xs = (if es_lastId s < i then es_resize (i + 1) (es_ents s) else es_ents s);
     cl_break_if (i < 0);
     cl_break_if (xs ! nat i \<noteq> None);
     let s = s\<lparr>es_ents := xs[nat i := Some p]\<rparr>;
     c \<leftarrow> rc_cells (em_cnts m) (es_entCnt s);
     let cntNow = 1 + i;
     Some (s, if rc_val c < cntNow then m\<lparr>em_cnts := rc_put (es_entCnt s) (c\<lparr>rc_val := cntNow\<rparr>) (em_cnts m)\<rparr> else m)
   }"

definition es_assign :: "nat \<Rightarrow> ent_store \<Rightarrow> 'e ent_mem \<Rightarrow> (int \<times> ent_store \<times> 'e ent_mem) option" where
  "es_assign p s m = do {
     ob \<leftarrow> rc_cells (em_ents m) p;
     shared \<leftarrow> rc_isShared (rc_cnt ob);
     cl_break_if shared;
     c \<leftarrow> rc_cells (em_cnts m) (es_entCnt s);
     let i = rc_val c;
     (s, m) \<leftarrow> es_assignAt i p s m;
     Some (i, s, m)
   }"

text \<open>An index out of the vector or a null pointer there is undefined behaviour of the code, hence a trap.\<close>

definition es_release :: "int \<Rightarrow> ent_store \<Rightarrow> 'e ent_mem \<Rightarrow> (ent_store \<times> 'e ent_mem) option" where
  "es_release i s m = do {
     cl_break_if (es_outOfRange i s);
     p \<leftarrow> es_ents s ! nat i;
     em \<leftarrow> rcl_leave p (em_ents m);
     Some (s\<lparr>es_ents := (es_ents s)[nat i := None]\<rparr>, m\<lparr>em_ents := em\<rparr>)
   }"

definition es_getEntRO :: "int \<Rightarrow> ent_store \<Rightarrow> nat option" where
  "es_getEntRO i s = do {
     cl_break_if (es_outOfRange i s);
     es_ents s ! nat i
   }"

definition es_getEntRW :: "int \<Rightarrow> ent_store \<Rightarrow> 'e ent_mem \<Rightarrow> (nat \<times> ent_store \<times> 'e ent_mem) option" where
  "es_getEntRW i s m = do {
     p \<leftarrow> es_getEntRO i s;
     (p, em) \<leftarrow> rcl_requireExclusivity p (em_ents m);
     Some (p, s\<lparr>es_ents := (es_ents s)[nat i := Some p]\<rparr>, m\<lparr>em_ents := em\<rparr>)
   }"

text \<open>What the clients do with the pointers: they read, respectively overwrite, the entity behind them.\<close>

definition es_read :: "int \<Rightarrow> ent_store \<Rightarrow> 'e ent_mem \<Rightarrow> 'e option" where
  "es_read i s m = do { p \<leftarrow> es_getEntRO i s; map_option rc_val (rc_cells (em_ents m) p) }"

definition es_write :: "int \<Rightarrow> 'e \<Rightarrow> ent_store \<Rightarrow> 'e ent_mem \<Rightarrow> (ent_store \<times> 'e ent_mem) option" where
  "es_write i e s m = do {
     (p, s, m) \<leftarrow> es_getEntRW i s m;
     ob \<leftarrow> rc_cells (em_ents m) p;
     Some (s, m\<lparr>em_ents := rc_put p (ob\<lparr>rc_val := e\<rparr>) (em_ents m)\<rparr>)
   }"

section \<open>Reference counts are exact\<close>

text \<open>The memory holds the objects with a reference in the multiset \<open>M\<close>, each with the number of its references.\<close>

definition rc_ok :: "nat multiset \<Rightarrow> 'a rc_mem \<Rightarrow> bool" where
  "rc_ok M m \<longleftrightarrow> (\<forall>p. case rc_cells m p of
       None \<Rightarrow> p \<notin># M
     | Some ob \<Rightarrow> rc_cnt ob = int (count M p) \<and> p \<in># M \<and> p < rc_brk m)"

definition rc_at :: "'a rc_mem \<Rightarrow> nat \<Rightarrow> 'a option" where
  "rc_at m p = map_option rc_val (rc_cells m p)"

lemma rc_okE:
  assumes "rc_ok M m" "p \<in># M"
  obtains ob where "rc_cells m p = Some ob" "rc_cnt ob = int (count M p)" "p < rc_brk m"
  using assms by (auto simp: rc_ok_def split: option.splits dest: spec [of _ p])

lemma rc_ok_brk: "rc_ok M m \<Longrightarrow> rc_brk m \<notin># M" "rc_ok M m \<Longrightarrow> rc_cells m (rc_brk m) = None"
  by (auto simp: rc_ok_def split: option.splits dest: spec [of _ "rc_brk m"])

lemma rc_at_put [simp]: "rc_at (rc_put p ob m) q = (if q = p then Some (rc_val ob) else rc_at m q)"
  by (simp add: rc_at_def rc_put_def)

lemma rc_cells_put [simp]:
  "rc_cells (rc_put p ob m) q = (if q = p then Some ob else rc_cells m q)" "rc_brk (rc_put p ob m) = rc_brk m"
  by (simp_all add: rc_put_def)

lemma rc_okI:
  assumes "\<And>p. rc_cells m p = None \<Longrightarrow> p \<notin># M"
    and "\<And>p ob. rc_cells m p = Some ob \<Longrightarrow> rc_cnt ob = int (count M p) \<and> p \<in># M \<and> p < rc_brk m"
  shows "rc_ok M m"
  using assms by (simp add: rc_ok_def split: option.splits)

lemma rc_okD:
  "rc_ok M m \<Longrightarrow> rc_cells m p = None \<Longrightarrow> p \<notin># M"
  "rc_ok M m \<Longrightarrow> rc_cells m p = Some ob \<Longrightarrow> rc_cnt ob = int (count M p) \<and> p \<in># M \<and> p < rc_brk m"
  by (auto simp: rc_ok_def split: option.splits dest: spec [of _ p])

lemma rc_ok_put:
  assumes "rc_ok M m" "p \<in># M" "\<And>q. q \<noteq> p \<Longrightarrow> count M' q = count M q" "p \<in># M'" "rc_cnt ob = int (count M' p)"
  shows "rc_ok M' (rc_put p ob m)"
proof (rule rc_okI)
  have m: "q \<in># M' \<longleftrightarrow> q \<in># M" if "q \<noteq> p" for q
    using assms(3) [OF that] by (metis count_greater_zero_iff)
  show "q \<notin># M'" if "rc_cells (rc_put p ob m) q = None" for q
    using that m rc_okD(1) [OF assms(1), of q] by (auto split: if_splits)
  show "rc_cnt o' = int (count M' q) \<and> q \<in># M' \<and> q < rc_brk (rc_put p ob m)" if c: "rc_cells (rc_put p ob m) q = Some o'" for q o'
  proof (cases "q = p")
    case True
    with c assms(4,5) rc_okE [OF assms(1,2)] show ?thesis by auto
  next
    case False
    with c rc_okD(2) [OF assms(1), of q o'] m assms(3) show ?thesis by simp
  qed
qed

lemma rc_new_ok:
  assumes "rc_ok M m" "rc_new v m = (p, m')"
  shows "rc_ok (add_mset p M) m'" "p \<notin># M" "rc_at m' p = Some v" "q \<in># M \<Longrightarrow> rc_at m' q = rc_at m q"
proof -
  have p: "p = rc_brk m" "m' = m\<lparr>rc_cells := (rc_cells m)(p \<mapsto> \<lparr>rc_cnt = 1, rc_val = v\<rparr>), rc_brk := p + 1\<rparr>"
    using assms(2) by (auto simp: rc_new_def)
  show n: "p \<notin># M" using rc_ok_brk [OF assms(1)] p by simp
  have "rc_cnt ob = int (count (add_mset p M) q) \<and> q \<in># add_mset p M \<and> q < rc_brk m'" if "rc_cells m' q = Some ob" for q ob
    using that n rc_okD(2) [OF assms(1), of q ob] by (cases "q = p") (auto simp: p not_in_iff)
  moreover have "q \<notin># add_mset p M" if "rc_cells m' q = None" for q
    using that rc_okD(1) [OF assms(1), of q] by (auto simp: p split: if_splits)
  ultimately show "rc_ok (add_mset p M) m'" by (rule rc_okI [rotated])
  show "rc_at m' p = Some v" "q \<in># M \<Longrightarrow> rc_at m' q = rc_at m q"
    using n by (auto simp: p rc_at_def)
qed

lemma rcl_enter_ok:
  assumes "rc_ok M m" "p \<in># M"
  obtains m' where "rcl_enter p m = Some (p, m')" "rc_ok (add_mset p M) m'" "\<And>q. rc_at m' q = rc_at m q"
proof -
  from assms obtain ob where ob: "rc_cells m p = Some ob" "rc_cnt ob = int (count M p)" by (rule rc_okE)
  moreover have "1 \<le> int (count M p)" using assms(2) by (simp add: Suc_le_eq)
  ultimately have e: "rcl_enter p m = Some (p, rc_put p (ob\<lparr>rc_cnt := rc_cnt ob + 1\<rparr>) m)"
    by (simp add: rcl_enter_def rc_enter_def)
  show thesis
    by (rule that [OF e]) (use assms ob in \<open>auto intro: rc_ok_put simp: rc_at_def\<close>)
qed

lemma rcl_leave_ok:
  assumes "rc_ok (add_mset p M) m"
  obtains m' where "rcl_leave p m = Some m'" "rc_ok M m'" "\<And>q. q \<in># M \<Longrightarrow> rc_at m' q = rc_at m q"
proof -
  from assms obtain ob where ob: "rc_cells m p = Some ob" "rc_cnt ob = int (count M p) + 1" "p < rc_brk m"
    by (auto elim: rc_okE [where p = p])
  show thesis
  proof (cases "p \<in># M")
    case False
    with ob have e: "rcl_leave p m = Some (m\<lparr>rc_cells := (rc_cells m)(p := None)\<rparr>)"
      by (simp add: rcl_leave_def rc_leave_def rc_destroy_def not_in_iff)
    have "rc_ok M (m\<lparr>rc_cells := (rc_cells m)(p := None)\<rparr>)"
      using assms False by (fastforce simp: rc_ok_def split: option.splits)
    then show thesis by (rule that [OF e]) (use False in \<open>auto simp: rc_at_def\<close>)
  next
    case True
    then have "0 < count M p" by simp
    with ob have e: "rcl_leave p m = Some (rc_put p (ob\<lparr>rc_cnt := rc_cnt ob - 1\<rparr>) m)"
      by (simp add: rcl_leave_def rc_leave_def del: count_greater_zero_iff)
    show thesis
      by (rule that [OF e]) (use assms ob True in \<open>auto intro: rc_ok_put simp: rc_at_def\<close>)
  qed
qed

lemma rcl_requireExclusivity_ok:
  assumes "rc_ok (add_mset p M) m"
  obtains p' m' where "rcl_requireExclusivity p m = Some (p', m')" "rc_ok (add_mset p' M) m'" "p' \<notin># M"
    "rc_at m' p' = rc_at m p" "\<And>q. q \<in># M \<Longrightarrow> rc_at m' q = rc_at m q"
proof -
  from assms obtain ob where ob: "rc_cells m p = Some ob" "rc_cnt ob = int (count M p) + 1" "p < rc_brk m"
    by (auto elim: rc_okE [where p = p])
  show thesis
  proof (cases "p \<in># M")
    case False
    with ob have e: "rcl_requireExclusivity p m = Some (p, rc_put p (ob\<lparr>rc_cnt := rc_cnt ob\<rparr>) m)"
      by (simp add: rcl_requireExclusivity_def rc_requireExclusivity_def rc_isShared_def not_in_iff)
    show thesis
      by (rule that [OF e]) (use assms ob False in \<open>auto intro!: rc_ok_put [where M = "add_mset p M"] simp: rc_at_def\<close>)
  next
    case True
    then have pos: "0 < count M p" by simp
    let ?m = "rc_put p (ob\<lparr>rc_cnt := rc_cnt ob - 1\<rparr>) m"
    have e: "rcl_requireExclusivity p m = Some (rc_new (rc_val ob) ?m)"
      using ob pos by (simp add: rcl_requireExclusivity_def rc_requireExclusivity_def rc_isShared_def del: count_greater_zero_iff)
    have ok: "rc_ok M ?m" using assms ob True by (auto intro!: rc_ok_put [where M = "add_mset p M"])
    obtain p' m' where n: "rc_new (rc_val ob) ?m = (p', m')" by fastforce
    have old: "rc_at ?m q = rc_at m q" for q by (simp add: rc_at_def ob)
    show thesis
      by (rule that [of p' m']) (use e n rc_new_ok [OF ok n] old ob in \<open>auto simp: rc_at_def\<close>)
  qed
qed

lemma rc_write_ok:
  assumes "rc_ok (add_mset p M) m" "p \<notin># M" "rc_cells m p = Some ob"
  shows "rc_ok (add_mset p M) (rc_put p (ob\<lparr>rc_val := v\<rparr>) m)" "rc_at (rc_put p (ob\<lparr>rc_val := v\<rparr>) m) p = Some v"
    "q \<in># M \<Longrightarrow> rc_at (rc_put p (ob\<lparr>rc_val := v\<rparr>) m) q = rc_at m q"
proof -
  have "rc_cnt ob = int (count (add_mset p M) p)" using assms(1,3) by (auto elim: rc_okE [where p = p])
  with assms(1) show "rc_ok (add_mset p M) (rc_put p (ob\<lparr>rc_val := v\<rparr>) m)" by (auto intro: rc_ok_put)
  show "rc_at (rc_put p (ob\<lparr>rc_val := v\<rparr>) m) p = Some v"
    "q \<in># M \<Longrightarrow> rc_at (rc_put p (ob\<lparr>rc_val := v\<rparr>) m) q = rc_at m q"
    using assms(2) by auto
qed

section \<open>One store among others\<close>

fun es_ptrs :: "nat option list \<Rightarrow> nat multiset" where
  "es_ptrs [] = {#}"
| "es_ptrs (None # xs) = es_ptrs xs"
| "es_ptrs (Some p # xs) = add_mset p (es_ptrs xs)"

lemma es_ptrs_append [simp]: "es_ptrs (xs @ ys) = es_ptrs xs + es_ptrs ys"
  by (induction xs rule: es_ptrs.induct) auto

lemma es_ptrs_replicate [simp]: "es_ptrs (replicate n None) = {#}"
  by (induction n) auto

lemma es_ptrs_update: "i < length xs \<Longrightarrow> es_ptrs (xs[i := Some p]) = add_mset p (es_ptrs (xs[i := None]))"
  by (induction xs arbitrary: i rule: es_ptrs.induct) (auto split: nat.splits)

lemma es_ptrs_nth: "i < length xs \<Longrightarrow> xs ! i = Some p \<Longrightarrow> es_ptrs xs = add_mset p (es_ptrs (xs[i := None]))"
  using es_ptrs_update [of i xs p] list_update_id [of xs i] by simp

lemma es_ptrs_None: "i < length xs \<Longrightarrow> xs ! i = None \<Longrightarrow> es_ptrs (xs[i := None]) = es_ptrs xs"
  by (metis list_update_id)

lemma es_ptrs_mem: "i < length xs \<Longrightarrow> xs ! i = Some p \<Longrightarrow> p \<in># es_ptrs xs"
  using es_ptrs_nth by simp

text \<open>
  What a store relies on: \<open>R\<close> and \<open>C\<close> are the references to entities and counters that other stores hold.
\<close>

definition store_ok :: "nat multiset \<Rightarrow> nat multiset \<Rightarrow> ent_store \<Rightarrow> 'e ent_mem \<Rightarrow> bool" where
  "store_ok R C s m \<longleftrightarrow> rc_ok (R + es_ptrs (es_ents s)) (em_ents m) \<and> rc_ok (add_mset (es_entCnt s) C) (em_cnts m) \<and>
     (\<exists>n. rc_at (em_cnts m) (es_entCnt s) = Some n \<and> int (length (es_ents s)) \<le> n)"

text \<open>What an operation on a store guarantees to the other stores.\<close>

definition mem_frame :: "nat multiset \<Rightarrow> nat multiset \<Rightarrow> 'e ent_mem \<Rightarrow> 'e ent_mem \<Rightarrow> bool" where
  "mem_frame R C m m' \<longleftrightarrow> (\<forall>p \<in># R. rc_at (em_ents m') p = rc_at (em_ents m) p) \<and>
     (\<forall>c n. c \<in># C \<longrightarrow> rc_at (em_cnts m) c = Some n \<longrightarrow> (\<exists>n' \<ge> n. rc_at (em_cnts m') c = Some n'))"

definition es_cnt :: "ent_store \<Rightarrow> 'e ent_mem \<Rightarrow> int" where
  "es_cnt s m = the (rc_at (em_cnts m) (es_entCnt s))"

lemma es_read_eq:
  "es_read i s m = (if 0 \<le> i \<and> i < int (length (es_ents s)) then Option.bind (es_ents s ! nat i) (rc_at (em_ents m)) else None)"
  by (cases "es_ents s ! nat i") (auto simp: es_read_def es_getEntRO_def es_outOfRange_def es_lastId_def rc_at_def)

lemma store_ok_read:
  assumes "store_ok R C s m" "0 \<le> i" "i < int (length (es_ents s))" "es_ents s ! nat i = Some p"
  obtains e where "es_read i s m = Some e" "rc_at (em_ents m) p = Some e"
proof -
  have "p \<in># R + es_ptrs (es_ents s)" using es_ptrs_mem [of "nat i" "es_ents s" p] assms by simp
  then obtain ob where "rc_cells (em_ents m) p = Some ob" using assms(1) by (auto simp: store_ok_def elim: rc_okE)
  then show thesis using assms that by (simp add: es_read_eq rc_at_def)
qed

lemma store_readE:
  assumes "es_read i s m = Some e"
  obtains p where "0 \<le> i" "i < int (length (es_ents s))" "es_ents s ! nat i = Some p" "rc_at (em_ents m) p = Some e"
  using assms by (auto simp: es_read_eq bind_eq_Some_conv split: if_splits)

lemma es_write_ok:
  assumes "store_ok R C s m" "es_read i s m \<noteq> None"
  obtains s' m' where "es_write i e s m = Some (s', m')" "store_ok R C s' m'" "mem_frame R C m m'"
    "(\<lambda>j. es_read j s' m') = (\<lambda>j. es_read j s m)(i \<mapsto> e)" "es_cnt s' m' = es_cnt s m"
proof -
  from assms(2) obtain p where i: "0 \<le> i" "i < int (length (es_ents s))" and p: "es_ents s ! nat i = Some p"
    by (auto elim: store_readE)
  let ?n = "nat i" and ?rest = "R + es_ptrs ((es_ents s)[nat i := None])"
  have n: "?n < length (es_ents s)" using i by simp
  have "rc_ok (add_mset p ?rest) (em_ents m)"
    using assms(1) es_ptrs_nth [OF n p] by (simp add: store_ok_def)
  then obtain p' em where x: "rcl_requireExclusivity p (em_ents m) = Some (p', em)" "rc_ok (add_mset p' ?rest) em"
    "p' \<notin># ?rest" "\<And>q. q \<in># ?rest \<Longrightarrow> rc_at em q = rc_at (em_ents m) q"
    by (rule rcl_requireExclusivity_ok) blast
  obtain ob where ob: "rc_cells em p' = Some ob" using x(2) by (auto elim: rc_okE [where p = p'])
  let ?s = "s\<lparr>es_ents := (es_ents s)[nat i := Some p']\<rparr>" and ?m = "m\<lparr>em_ents := rc_put p' (ob\<lparr>rc_val := e\<rparr>) em\<rparr>"
  have w: "es_write i e s m = Some (?s, ?m)"
    using i p x(1) ob by (simp add: es_write_def es_getEntRW_def es_getEntRO_def es_outOfRange_def es_lastId_def)
  note wr = rc_write_ok [OF x(2,3) ob, where v = e]
  have same: "rc_at (em_ents ?m) q = rc_at (em_ents m) q" if "q \<in># ?rest" for q
    using wr(3) [OF that] x(4) [OF that] by (simp del: rc_at_put)
  have "es_read j ?s ?m = es_read j s m" if "j \<noteq> i" for j
  proof -
    have "rc_at (em_ents ?m) q = rc_at (em_ents m) q" if "0 \<le> j" "j < int (length (es_ents s))" "es_ents s ! nat j = Some q" for q
      using that \<open>j \<noteq> i\<close> i(1) es_ptrs_mem [of "nat j" "(es_ents s)[nat i := None]" q] by (intro same) simp
    then show ?thesis using that i(1) by (auto simp: es_read_eq intro!: Option.bind_cong)
  qed
  moreover have "es_read i ?s ?m = Some e" using i n by (simp add: es_read_eq)
  ultimately have "(\<lambda>j. es_read j ?s ?m) = (\<lambda>j. es_read j s m)(i \<mapsto> e)" by auto
  moreover have "store_ok R C ?s ?m"
    using assms(1) wr(1) es_ptrs_update [OF n, of p'] by (simp add: store_ok_def)
  moreover have "mem_frame R C m ?m" using same by (auto simp: mem_frame_def simp del: rc_at_put)
  ultimately show thesis using that [OF w] by (simp add: es_cnt_def)
qed

lemma es_release_ok:
  assumes "store_ok R C s m" "es_read i s m \<noteq> None"
  obtains s' m' where "es_release i s m = Some (s', m')" "store_ok R C s' m'" "mem_frame R C m m'"
    "(\<lambda>j. es_read j s' m') = (\<lambda>j. es_read j s m)(i := None)" "es_cnt s' m' = es_cnt s m"
proof -
  from assms(2) obtain p where i: "0 \<le> i" "i < int (length (es_ents s))" and p: "es_ents s ! nat i = Some p"
    by (auto elim: store_readE)
  let ?n = "nat i" and ?rest = "R + es_ptrs ((es_ents s)[nat i := None])"
  have n: "?n < length (es_ents s)" using i by simp
  have "rc_ok (add_mset p ?rest) (em_ents m)"
    using assms(1) es_ptrs_nth [OF n p] by (simp add: store_ok_def)
  then obtain em where x: "rcl_leave p (em_ents m) = Some em" "rc_ok ?rest em"
    "\<And>q. q \<in># ?rest \<Longrightarrow> rc_at em q = rc_at (em_ents m) q"
    by (rule rcl_leave_ok) blast
  let ?s = "s\<lparr>es_ents := (es_ents s)[nat i := None]\<rparr>" and ?m = "m\<lparr>em_ents := em\<rparr>"
  have w: "es_release i s m = Some (?s, ?m)"
    using i p x(1) by (simp add: es_release_def es_outOfRange_def es_lastId_def)
  have "es_read j ?s ?m = es_read j s m" if "j \<noteq> i" for j
  proof -
    have "rc_at em q = rc_at (em_ents m) q" if "0 \<le> j" "j < int (length (es_ents s))" "es_ents s ! nat j = Some q" for q
      using that \<open>j \<noteq> i\<close> i(1) es_ptrs_mem [of "nat j" "(es_ents s)[nat i := None]" q] by (intro x(3)) simp
    then show ?thesis using that i(1) by (auto simp: es_read_eq intro!: Option.bind_cong)
  qed
  moreover have "es_read i ?s ?m = None" using i n by (simp add: es_read_eq)
  ultimately have "(\<lambda>j. es_read j ?s ?m) = (\<lambda>j. es_read j s m)(i := None)" by auto
  moreover have "store_ok R C ?s ?m" using assms(1) x(2) by (simp add: store_ok_def)
  moreover have "mem_frame R C m ?m" using x(3) by (auto simp: mem_frame_def)
  ultimately show thesis using that [OF w] by (simp add: es_cnt_def)
qed

text \<open>A new entity; the vector grows when the id lies beyond its end.\<close>

lemma es_assignAt_ok:
  assumes "store_ok R C s m" "0 \<le> i" "es_read i s m = None" "rc_new e (em_ents m) = (p, em)"
  obtains s' m' where "es_assignAt i p s (m\<lparr>em_ents := em\<rparr>) = Some (s', m')" "store_ok R C s' m'" "mem_frame R C m m'"
    "(\<lambda>j. es_read j s' m') = (\<lambda>j. es_read j s m)(i \<mapsto> e)" "es_cnt s' m' = max (es_cnt s m) (1 + i)"
proof -
  define xs where "xs = (if es_lastId s < i then es_resize (i + 1) (es_ents s) else es_ents s)"
  have len: "length xs = max (length (es_ents s)) (nat i + 1)"
    using assms(2) by (auto simp: xs_def es_lastId_def es_resize_def nat_add_distrib)
  have ptrs: "es_ptrs xs = es_ptrs (es_ents s)"
    using assms(2) by (auto simp: xs_def es_lastId_def es_resize_def)
  have nth: "xs ! j = (if j < length (es_ents s) then es_ents s ! j else None)" if "j < length xs" for j
    using that by (auto simp: xs_def es_resize_def nth_append)
  have null: "xs ! nat i = None"
  proof (cases "es_ents s ! nat i")
    case (Some q)
    then show ?thesis
      using assms(2,3) len by (cases "i < int (length (es_ents s))") (auto simp: nth elim: store_ok_read [OF assms(1,2)])
  qed (simp add: nth len)
  from assms(1) have ok: "rc_ok (R + es_ptrs (es_ents s)) (em_ents m)" by (simp add: store_ok_def)
  note new = rc_new_ok [OF ok assms(4)]
  from new(3) obtain ob where ob: "rc_cells em p = Some ob" "rc_val ob = e" by (auto simp: rc_at_def)
  from new(1,2) ob have "rc_cnt ob = 1" by (auto dest: rc_okD simp: not_in_iff)
  from assms(1) obtain c where c: "rc_cells (em_cnts m) (es_entCnt s) = Some c" "int (length (es_ents s)) \<le> rc_val c"
    by (auto simp: store_ok_def rc_at_def)
  let ?s = "s\<lparr>es_ents := xs[nat i := Some p]\<rparr>"
  define cm where "cm = (if rc_val c < 1 + i then rc_put (es_entCnt s) (c\<lparr>rc_val := 1 + i\<rparr>) (em_cnts m) else em_cnts m)"
  have eq: "es_assignAt i p s (m\<lparr>em_ents := em\<rparr>) = Some (?s, \<lparr>em_ents = em, em_cnts = cm\<rparr>)"
    using assms(2) null ob \<open>rc_cnt ob = 1\<close> c(1)
    by (simp add: es_assignAt_def rc_isShared_def Let_def cm_def flip: xs_def)
  have cnts: "rc_ok (add_mset (es_entCnt s) C) cm"
    using assms(1) c(1) rc_okD(2) by (auto simp: store_ok_def cm_def intro!: rc_ok_put [where M = "add_mset (es_entCnt s) C"])
  have at: "rc_at cm q = (if q = es_entCnt s then Some (max (rc_val c) (1 + i)) else rc_at (em_cnts m) q)" for q
    using c(1) by (auto simp: cm_def rc_at_def)
  have "store_ok R C ?s \<lparr>em_ents = em, em_cnts = cm\<rparr>"
    using new(1) cnts len c(2) assms(2) es_ptrs_update [of "nat i" xs p] es_ptrs_None [OF _ null] ptrs
    by (simp add: store_ok_def at)
  moreover have "mem_frame R C m \<lparr>em_ents = em, em_cnts = cm\<rparr>"
    using new(4) at c(1) by (auto simp: mem_frame_def rc_at_def [of "em_cnts m"])
  moreover have "es_read j ?s \<lparr>em_ents = em, em_cnts = cm\<rparr> = ((\<lambda>j. es_read j s m)(i \<mapsto> e)) j" for j
  proof (cases "j = i")
    case False
    have "rc_at em q = rc_at (em_ents m) q" if "0 \<le> j" "j < int (length (es_ents s))" "es_ents s ! nat j = Some q" for q
      using that es_ptrs_mem [of "nat j" "es_ents s" q] by (intro new(4)) simp
    moreover have "nat j \<noteq> nat i" if "0 \<le> j" using that False assms(2) by simp
    ultimately show ?thesis
      using False len by (auto simp: es_read_eq nth intro!: Option.bind_cong)
  qed (use assms(2) len new(3) in \<open>simp add: es_read_eq\<close>)
  moreover have "es_cnt ?s \<lparr>em_ents = em, em_cnts = cm\<rparr> = max (es_cnt s m) (1 + i)"
    using c(1) by (simp add: es_cnt_def at) (simp add: rc_at_def)
  ultimately show thesis using that [OF eq] by presburger
qed

lemma es_assign_ok:
  assumes "store_ok R C s m" "rc_new e (em_ents m) = (p, em)"
  obtains s' m' where "es_assign p s (m\<lparr>em_ents := em\<rparr>) = Some (es_cnt s m, s', m')" "store_ok R C s' m'" "mem_frame R C m m'"
    "es_read (es_cnt s m) s m = None" "(\<lambda>j. es_read j s' m') = (\<lambda>j. es_read j s m)(es_cnt s m \<mapsto> e)"
    "es_cnt s' m' = es_cnt s m + 1"
proof -
  from assms(1) obtain c where c: "rc_cells (em_cnts m) (es_entCnt s) = Some c" "int (length (es_ents s)) \<le> rc_val c"
    by (auto simp: store_ok_def rc_at_def)
  then have n: "es_cnt s m = rc_val c" by (simp add: es_cnt_def rc_at_def)
  then have free: "es_read (es_cnt s m) s m = None" using c(2) by (simp add: es_read_eq)
  from assms(1) have ok: "rc_ok (R + es_ptrs (es_ents s)) (em_ents m)" by (simp add: store_ok_def)
  note new = rc_new_ok [OF ok assms(2)]
  from new(3) obtain ob where ob: "rc_cells em p = Some ob" by (auto simp: rc_at_def)
  from new(1,2) ob have "rc_cnt ob = 1" by (auto dest: rc_okD simp: not_in_iff)
  with c n ob have eq: "es_assign p s (m\<lparr>em_ents := em\<rparr>) =
      Option.bind (es_assignAt (es_cnt s m) p s (m\<lparr>em_ents := em\<rparr>)) (\<lambda>(s', m'). Some (es_cnt s m, s', m'))"
    by (simp add: es_assign_def rc_isShared_def Let_def)
  have "0 \<le> es_cnt s m" using c(2) n by simp
  from es_assignAt_ok [OF assms(1) this free assms(2)] obtain s' m' where
    "es_assignAt (es_cnt s m) p s (m\<lparr>em_ents := em\<rparr>) = Some (s', m')" "store_ok R C s' m'" "mem_frame R C m m'"
    "(\<lambda>j. es_read j s' m') = (\<lambda>j. es_read j s m)(es_cnt s m \<mapsto> e)" "es_cnt s' m' = max (es_cnt s m) (1 + es_cnt s m)"
    by blast
  then show thesis using that eq free by simp
qed

text \<open>The loops of the copy constructor and of the destructor.\<close>

lemma copy_loop_ok:
  assumes "rc_ok M em" "es_ptrs ys \<subseteq># M"
  shows "\<exists>em'. ofold (\<lambda>ent (xs, em).
         case ent of
           None \<Rightarrow> Some (xs @ [None], em)
         | Some p \<Rightarrow> do { (p, em) \<leftarrow> rcl_enter p em; Some (xs @ [Some p], em) }) ys (xs, em) = Some (xs @ ys, em') \<and>
      rc_ok (M + es_ptrs ys) em' \<and> (\<forall>q. rc_at em' q = rc_at em q)"
  using assms
proof (induction ys arbitrary: xs em M rule: es_ptrs.induct)
  case (2 ys)
  from 2(1) [OF 2(2), of "xs @ [None]"] 2(3) show ?case by simp
next
  case (3 p ys)
  have "p \<in># M" using 3(3) by (simp add: insert_subset_eq_iff)
  with 3(2) obtain em1 where em1: "rcl_enter p em = Some (p, em1)" "rc_ok (add_mset p M) em1" "\<And>q. rc_at em1 q = rc_at em q"
    by (rule rcl_enter_ok) blast
  have "es_ptrs ys \<subseteq># add_mset p M"
    using 3(3) by (simp, metis add_mset_add_single mset_subset_eq_add_left subset_mset.order_trans union_commute union_mset_add_mset_left)
  from 3(1) [OF em1(2) this, of "xs @ [Some p]"] em1 show ?case by simp
qed simp

lemma destroy_loop_ok:
  assumes "rc_ok (M + es_ptrs ys) em"
  shows "\<exists>em'. ofold (\<lambda>ent em. case ent of None \<Rightarrow> Some em | Some p \<Rightarrow> rcl_leave p em) ys em = Some em' \<and>
      rc_ok M em' \<and> (\<forall>q \<in># M. rc_at em' q = rc_at em q)"
  using assms
proof (induction ys arbitrary: em rule: es_ptrs.induct)
  case (3 p ys)
  then have "rc_ok (add_mset p (M + es_ptrs ys)) em" by simp
  then obtain em1 where em1: "rcl_leave p em = Some em1" "rc_ok (M + es_ptrs ys) em1"
    "\<And>q. q \<in># M + es_ptrs ys \<Longrightarrow> rc_at em1 q = rc_at em q"
    by (rule rcl_leave_ok) blast
  from 3(1) [OF em1(2)] em1 show ?case by auto
qed simp_all

section \<open>All stores of the process\<close>

text \<open>The memory and the stores that live in it; a handle is an index of the list, \<open>None\<close> a destroyed store.\<close>

record 'e ent_sys =
  sys_mem :: "'e ent_mem"
  sys_stores :: "ent_store option list"

definition sys_get :: "nat \<Rightarrow> 'e ent_sys \<Rightarrow> ent_store option" where
  "sys_get k S = (if k < length (sys_stores S) then sys_stores S ! k else None)"

definition sys_put :: "nat \<Rightarrow> ent_store option \<times> 'e ent_mem \<Rightarrow> 'e ent_sys \<Rightarrow> 'e ent_sys" where
  "sys_put k sm S = \<lparr>sys_mem = snd sm, sys_stores = (sys_stores S)[k := fst sm]\<rparr>"

definition sys_create :: "'e ent_sys \<Rightarrow> nat \<times> 'e ent_sys" where
  "sys_create S = (let (s, m) = es_create (sys_mem S) in
     (length (sys_stores S), \<lparr>sys_mem = m, sys_stores = sys_stores S @ [Some s]\<rparr>))"

definition sys_copy :: "nat \<Rightarrow> 'e ent_sys \<Rightarrow> (nat \<times> 'e ent_sys) option" where
  "sys_copy k S = do {
     s \<leftarrow> sys_get k S;
     (s', m) \<leftarrow> es_copy s (sys_mem S);
     Some (length (sys_stores S), \<lparr>sys_mem = m, sys_stores = sys_stores S @ [Some s']\<rparr>)
   }"

definition sys_destroy :: "nat \<Rightarrow> 'e ent_sys \<Rightarrow> 'e ent_sys option" where
  "sys_destroy k S = do { s \<leftarrow> sys_get k S; m \<leftarrow> es_destroy s (sys_mem S); Some (sys_put k (None, m) S) }"

definition sys_assign :: "nat \<Rightarrow> 'e \<Rightarrow> 'e ent_sys \<Rightarrow> (int \<times> 'e ent_sys) option" where
  "sys_assign k e S = do {
     s \<leftarrow> sys_get k S;
     let (p, em) = rc_new e (em_ents (sys_mem S));
     (i, s, m) \<leftarrow> es_assign p s ((sys_mem S)\<lparr>em_ents := em\<rparr>);
     Some (i, sys_put k (Some s, m) S)
   }"

definition sys_assignAt :: "nat \<Rightarrow> int \<Rightarrow> 'e \<Rightarrow> 'e ent_sys \<Rightarrow> 'e ent_sys option" where
  "sys_assignAt k i e S = do {
     s \<leftarrow> sys_get k S;
     let (p, em) = rc_new e (em_ents (sys_mem S));
     (s, m) \<leftarrow> es_assignAt i p s ((sys_mem S)\<lparr>em_ents := em\<rparr>);
     Some (sys_put k (Some s, m) S)
   }"

definition sys_release :: "nat \<Rightarrow> int \<Rightarrow> 'e ent_sys \<Rightarrow> 'e ent_sys option" where
  "sys_release k i S = do { s \<leftarrow> sys_get k S; (s, m) \<leftarrow> es_release i s (sys_mem S); Some (sys_put k (Some s, m) S) }"

definition sys_write :: "nat \<Rightarrow> int \<Rightarrow> 'e \<Rightarrow> 'e ent_sys \<Rightarrow> 'e ent_sys option" where
  "sys_write k i e S = do { s \<leftarrow> sys_get k S; (s, m) \<leftarrow> es_write i e s (sys_mem S); Some (sys_put k (Some s, m) S) }"

text \<open>What a client sees of a store.\<close>

definition sys_view :: "'e ent_sys \<Rightarrow> nat \<Rightarrow> int \<Rightarrow> 'e option" where
  "sys_view S k i = Option.bind (sys_get k S) (\<lambda>s. es_read i s (sys_mem S))"

definition sys_cnt :: "'e ent_sys \<Rightarrow> nat \<Rightarrow> int" where
  "sys_cnt S k = (case sys_get k S of None \<Rightarrow> 0 | Some s \<Rightarrow> es_cnt s (sys_mem S))"

fun stores_refs :: "(ent_store \<Rightarrow> nat multiset) \<Rightarrow> ent_store option list \<Rightarrow> nat multiset" where
  "stores_refs f [] = {#}"
| "stores_refs f (None # ss) = stores_refs f ss"
| "stores_refs f (Some s # ss) = f s + stores_refs f ss"

abbreviation ents_refs :: "ent_store option list \<Rightarrow> nat multiset" where
  "ents_refs \<equiv> stores_refs (\<lambda>s. es_ptrs (es_ents s))"

abbreviation cnts_refs :: "ent_store option list \<Rightarrow> nat multiset" where
  "cnts_refs \<equiv> stores_refs (\<lambda>s. {#es_entCnt s#})"

text \<open>Every count is exact, and no id of a store has yet to be handed out.\<close>

definition sys_inv :: "'e ent_sys \<Rightarrow> bool" where
  "sys_inv S \<longleftrightarrow> rc_ok (ents_refs (sys_stores S)) (em_ents (sys_mem S)) \<and>
     rc_ok (cnts_refs (sys_stores S)) (em_cnts (sys_mem S)) \<and>
     (\<forall>k s. sys_get k S = Some s \<longrightarrow>
        (\<exists>n. rc_at (em_cnts (sys_mem S)) (es_entCnt s) = Some n \<and> int (length (es_ents s)) \<le> n))"

lemma stores_refs_append [simp]: "stores_refs f (xs @ ys) = stores_refs f xs + stores_refs f ys"
  by (induction f xs rule: stores_refs.induct) auto

lemma stores_refs_update:
  "k < length ss \<Longrightarrow> stores_refs f (ss[k := Some s]) = f s + stores_refs f (ss[k := None])"
  by (induction f ss arbitrary: k rule: stores_refs.induct) (auto split: nat.splits)

lemma stores_refs_nth: "k < length ss \<Longrightarrow> ss ! k = Some s \<Longrightarrow> stores_refs f ss = f s + stores_refs f (ss[k := None])"
  using stores_refs_update [of k ss f s] list_update_id [of ss k] by simp

lemma stores_refs_mem: "k < length ss \<Longrightarrow> ss ! k = Some s \<Longrightarrow> p \<in># f s \<Longrightarrow> p \<in># stores_refs f ss"
  by (simp add: stores_refs_nth)

lemma stores_refs_none: "(\<And>k. k < length ss \<Longrightarrow> ss ! k = None) \<Longrightarrow> stores_refs f ss = {#}"
proof (induction f ss rule: stores_refs.induct)
  case (2 f ss)
  have "ss ! k = None" if "k < length ss" for k using 2(2) [of "Suc k"] that by simp
  then show ?case using 2(1) by simp
next
  case (3 f s ss)
  from 3(2) [of 0] show ?case by simp
qed simp

text \<open>From one store to all of them.\<close>

abbreviation others :: "nat \<Rightarrow> 'e ent_sys \<Rightarrow> nat multiset \<times> nat multiset" where
  "others k S \<equiv> (ents_refs ((sys_stores S)[k := None]), cnts_refs ((sys_stores S)[k := None]))"

lemma sys_inv_store:
  assumes "sys_inv S" "sys_get k S = Some s"
  shows "store_ok (fst (others k S)) (snd (others k S)) s (sys_mem S)"
proof -
  from assms(2) have "k < length (sys_stores S)" "sys_stores S ! k = Some s"
    by (auto simp: sys_get_def split: if_splits)
  from stores_refs_nth [OF this] assms show ?thesis
    by (simp add: sys_inv_def store_ok_def union_commute)
qed

lemma mem_frame_view:
  assumes "sys_inv S" "sys_get j S = Some t" "j \<noteq> k" "mem_frame (fst (others k S)) (snd (others k S)) (sys_mem S) m"
  shows "es_read i t m = es_read i t (sys_mem S)" "es_cnt t (sys_mem S) \<le> es_cnt t m"
    "\<exists>n. rc_at (em_cnts m) (es_entCnt t) = Some n \<and> int (length (es_ents t)) \<le> n"
proof -
  let ?ss = "(sys_stores S)[k := None]"
  from assms(2) have j: "j < length ?ss" "?ss ! j = Some t"
    using assms(3) by (auto simp: sys_get_def split: if_splits)
  have "rc_at (em_ents m) q = rc_at (em_ents (sys_mem S)) q" if "0 \<le> i" "i < int (length (es_ents t))" "es_ents t ! nat i = Some q" for q
    using assms(4) stores_refs_mem [OF j, of q "\<lambda>s. es_ptrs (es_ents s)"] es_ptrs_mem [of "nat i" "es_ents t" q] that by (simp add: mem_frame_def)
  then show "es_read i t m = es_read i t (sys_mem S)" by (auto simp: es_read_eq intro!: Option.bind_cong)
  obtain n where n: "rc_at (em_cnts (sys_mem S)) (es_entCnt t) = Some n" "int (length (es_ents t)) \<le> n"
    using assms(1,2) unfolding sys_inv_def by blast
  have "es_entCnt t \<in># cnts_refs ?ss" using stores_refs_mem [OF j, of "es_entCnt t" "\<lambda>s. {#es_entCnt s#}"] by simp
  with assms(4) n obtain n' where n': "n \<le> n'" "rc_at (em_cnts m) (es_entCnt t) = Some n'"
    unfolding mem_frame_def fst_conv snd_conv by blast
  then show "es_cnt t (sys_mem S) \<le> es_cnt t m"
    "\<exists>n. rc_at (em_cnts m) (es_entCnt t) = Some n \<and> int (length (es_ents t)) \<le> n"
    using n by (auto simp: es_cnt_def)
qed

lemma sys_get_put: "sys_get j (sys_put k (x, m) S) = (if j = k \<and> k < length (sys_stores S) then x else sys_get j S)"
  by (auto simp: sys_get_def sys_put_def)

lemma sys_put_ok:
  assumes "sys_inv S" "sys_get k S = Some s" "store_ok (fst (others k S)) (snd (others k S)) s' m"
    "mem_frame (fst (others k S)) (snd (others k S)) (sys_mem S) m"
  shows "sys_inv (sys_put k (Some s', m) S)" "sys_view (sys_put k (Some s', m) S) k = (\<lambda>i. es_read i s' m)"
    "sys_cnt (sys_put k (Some s', m) S) k = es_cnt s' m"
    "j \<noteq> k \<Longrightarrow> sys_view (sys_put k (Some s', m) S) j = sys_view S j"
    "j \<noteq> k \<Longrightarrow> sys_cnt S j \<le> sys_cnt (sys_put k (Some s', m) S) j"
    "sys_get j (sys_put k (Some s', m) S) = None \<longleftrightarrow> sys_get j S = None"
proof -
  from assms(2) have k: "k < length (sys_stores S)" by (auto simp: sys_get_def split: if_splits)
  let ?S = "sys_put k (Some s', m) S"
  have m: "sys_mem ?S = m" by (simp add: sys_put_def)
  have refs: "rc_ok (ents_refs (sys_stores ?S)) (em_ents m)" "rc_ok (cnts_refs (sys_stores ?S)) (em_cnts m)"
    using assms(3) stores_refs_update [OF k] by (simp_all add: sys_put_def store_ok_def union_commute)
  have "\<exists>n. rc_at (em_cnts m) (es_entCnt t) = Some n \<and> int (length (es_ents t)) \<le> n" if t: "sys_get j ?S = Some t" for j t
  proof (cases "j = k")
    case True
    then show ?thesis using t k assms(3) by (simp add: sys_get_put store_ok_def)
  next
    case False
    with t have "sys_get j S = Some t" by (simp add: sys_get_put)
    from mem_frame_view(3) [OF assms(1) this False assms(4)] show ?thesis .
  qed
  with refs show "sys_inv ?S" by (simp add: sys_inv_def m)
  show "sys_view ?S k = (\<lambda>i. es_read i s' m)" "sys_cnt ?S k = es_cnt s' m"
    using k by (auto simp: sys_view_def sys_cnt_def sys_get_put m)
  show "sys_get j ?S = None \<longleftrightarrow> sys_get j S = None"
    using assms(2) by (auto simp: sys_get_put)
  assume jk: "j \<noteq> k"
  show "sys_view ?S j = sys_view S j" "sys_cnt S j \<le> sys_cnt ?S j"
    using mem_frame_view(1,2) [OF assms(1) _ jk assms(4)] jk
    by (auto simp: sys_view_def sys_cnt_def sys_get_put m fun_eq_iff split: option.splits intro!: Option.bind_cong)
qed

section \<open>The interface of the store\<close>

text \<open>
  Stores with values of their own: an operation on one of them changes its view in one point and leaves the views of
  all others alone; the counters only grow.
\<close>

locale versioned_store =
  fixes inv :: "'s \<Rightarrow> bool"
    and live :: "'s \<Rightarrow> nat \<Rightarrow> bool"
    and view :: "'s \<Rightarrow> nat \<Rightarrow> int \<Rightarrow> 'e option"
    and cnt :: "'s \<Rightarrow> nat \<Rightarrow> int"
    and copy :: "nat \<Rightarrow> 's \<Rightarrow> (nat \<times> 's) option"
    and destroy :: "nat \<Rightarrow> 's \<Rightarrow> 's option"
    and assign :: "nat \<Rightarrow> 'e \<Rightarrow> 's \<Rightarrow> (int \<times> 's) option"
    and release :: "nat \<Rightarrow> int \<Rightarrow> 's \<Rightarrow> 's option"
    and put :: "nat \<Rightarrow> int \<Rightarrow> 'e \<Rightarrow> 's \<Rightarrow> 's option"
  assumes copy_ok: "inv S \<Longrightarrow> live S k \<Longrightarrow> \<exists>c S'. copy k S = Some (c, S') \<and> inv S' \<and> \<not> live S c \<and> live S' c \<and>
      view S' c = view S k \<and> cnt S' c = cnt S k \<and>
      (\<forall>j. live S j \<longrightarrow> live S' j \<and> view S' j = view S j \<and> cnt S' j = cnt S j)"
    and destroy_ok: "inv S \<Longrightarrow> live S k \<Longrightarrow> \<exists>S'. destroy k S = Some S' \<and> inv S' \<and> \<not> live S' k \<and>
      (\<forall>j. live S j \<longrightarrow> j \<noteq> k \<longrightarrow> live S' j \<and> view S' j = view S j \<and> cnt S' j = cnt S j)"
    and assign_ok: "inv S \<Longrightarrow> live S k \<Longrightarrow> \<exists>S'. assign k e S = Some (cnt S k, S') \<and> inv S' \<and>
      view S k (cnt S k) = None \<and> view S' k = (view S k)(cnt S k \<mapsto> e) \<and> cnt S' k = cnt S k + 1 \<and> live S' k \<and>
      (\<forall>j. live S j \<longrightarrow> j \<noteq> k \<longrightarrow> live S' j \<and> view S' j = view S j \<and> cnt S j \<le> cnt S' j)"
    and release_ok: "inv S \<Longrightarrow> live S k \<Longrightarrow> view S k i \<noteq> None \<Longrightarrow> \<exists>S'. release k i S = Some S' \<and> inv S' \<and>
      view S' k = (view S k)(i := None) \<and> cnt S' k = cnt S k \<and> live S' k \<and>
      (\<forall>j. live S j \<longrightarrow> j \<noteq> k \<longrightarrow> live S' j \<and> view S' j = view S j \<and> cnt S j \<le> cnt S' j)"
    and write_ok: "inv S \<Longrightarrow> live S k \<Longrightarrow> view S k i \<noteq> None \<Longrightarrow> \<exists>S'. put k i e S = Some S' \<and> inv S' \<and>
      view S' k = (view S k)(i \<mapsto> e) \<and> cnt S' k = cnt S k \<and> live S' k \<and>
      (\<forall>j. live S j \<longrightarrow> j \<noteq> k \<longrightarrow> live S' j \<and> view S' j = view S j \<and> cnt S j \<le> cnt S' j)"
begin

text \<open>Copy-on-put: a copy keeps the view of the original at the time of copying, whichever of the two is written.\<close>

lemma copy_write:
  assumes "inv S" "live S k" "view S k i \<noteq> None"
  obtains c S1 S2 S3 where "copy k S = Some (c, S1)" "put k i e S1 = Some S2" "put c i e' S2 = Some S3"
    "view S3 k = (view S k)(i \<mapsto> e)" "view S3 c = (view S k)(i \<mapsto> e')"
proof -
  from copy_ok [OF assms(1,2)] obtain c S1 where c: "copy k S = Some (c, S1)" "inv S1" "\<not> live S c" "live S1 c"
    "view S1 c = view S k" "live S1 k" "view S1 k = view S k" using assms(2) by blast
  then have ck: "c \<noteq> k" using assms(2) by blast
  from write_ok [OF c(2,6), of i e] assms(3) c(7) obtain S2 where w: "put k i e S1 = Some S2" "inv S2"
    "view S2 k = (view S k)(i \<mapsto> e)" "live S2 k" "live S2 c" "view S2 c = view S k" using c(4,5) ck by auto
  from write_ok [OF w(2,5), of i e'] assms(3) w(6) obtain S3 where "put c i e' S2 = Some S3"
    "view S3 c = (view S k)(i \<mapsto> e')" "view S3 k = (view S k)(i \<mapsto> e)" using w(3,4) ck by auto
  with c w that show thesis by blast
qed

end

lemma sys_frame_ops:
  assumes "sys_inv S" "sys_get k S = Some s" "store_ok (fst (others k S)) (snd (others k S)) s' m"
    "mem_frame (fst (others k S)) (snd (others k S)) (sys_mem S) m"
  defines "S' \<equiv> sys_put k (Some s', m) S"
  shows "\<forall>j. sys_get j S \<noteq> None \<longrightarrow> j \<noteq> k \<longrightarrow> sys_get j S' \<noteq> None \<and> sys_view S' j = sys_view S j \<and> sys_cnt S j \<le> sys_cnt S' j"
  using sys_put_ok(4-6) [OF assms(1-4)] by (simp add: S'_def)

lemma sys_view_eq: "sys_get k S = Some s \<Longrightarrow> sys_view S k = (\<lambda>i. es_read i s (sys_mem S))"
  "sys_get k S = Some s \<Longrightarrow> sys_cnt S k = es_cnt s (sys_mem S)"
  by (auto simp: sys_view_def sys_cnt_def)

lemma sys_write_ok:
  assumes "sys_inv S" "sys_get k S \<noteq> None" "sys_view S k i \<noteq> None"
  shows "\<exists>S'. sys_write k i e S = Some S' \<and> sys_inv S' \<and>
      sys_view S' k = (sys_view S k)(i \<mapsto> e) \<and> sys_cnt S' k = sys_cnt S k \<and> sys_get k S' \<noteq> None \<and>
      (\<forall>j. sys_get j S \<noteq> None \<longrightarrow> j \<noteq> k \<longrightarrow> sys_get j S' \<noteq> None \<and> sys_view S' j = sys_view S j \<and> sys_cnt S j \<le> sys_cnt S' j)"
proof -
  from assms(2) obtain s where s: "sys_get k S = Some s" by blast
  from sys_inv_store [OF assms(1) s] obtain s' m where w: "es_write i e s (sys_mem S) = Some (s', m)"
    and ok: "store_ok (fst (others k S)) (snd (others k S)) s' m" "mem_frame (fst (others k S)) (snd (others k S)) (sys_mem S) m"
    and v: "(\<lambda>j. es_read j s' m) = (\<lambda>j. es_read j s (sys_mem S))(i \<mapsto> e)" "es_cnt s' m = es_cnt s (sys_mem S)"
    by (rule es_write_ok [where i = i and e = e]) (use assms(3) s in \<open>auto simp: sys_view_eq\<close>)
  note p = sys_put_ok [OF assms(1) s ok] and f = sys_frame_ops [OF assms(1) s ok]
  have "sys_write k i e S = Some (sys_put k (Some s', m) S)" by (simp add: sys_write_def s w)
  with p(1-3) p(6) [of k] f v s show ?thesis by (simp add: sys_view_eq)
qed

lemma sys_release_ok:
  assumes "sys_inv S" "sys_get k S \<noteq> None" "sys_view S k i \<noteq> None"
  shows "\<exists>S'. sys_release k i S = Some S' \<and> sys_inv S' \<and>
      sys_view S' k = (sys_view S k)(i := None) \<and> sys_cnt S' k = sys_cnt S k \<and> sys_get k S' \<noteq> None \<and>
      (\<forall>j. sys_get j S \<noteq> None \<longrightarrow> j \<noteq> k \<longrightarrow> sys_get j S' \<noteq> None \<and> sys_view S' j = sys_view S j \<and> sys_cnt S j \<le> sys_cnt S' j)"
proof -
  from assms(2) obtain s where s: "sys_get k S = Some s" by blast
  from sys_inv_store [OF assms(1) s] obtain s' m where w: "es_release i s (sys_mem S) = Some (s', m)"
    and ok: "store_ok (fst (others k S)) (snd (others k S)) s' m" "mem_frame (fst (others k S)) (snd (others k S)) (sys_mem S) m"
    and v: "(\<lambda>j. es_read j s' m) = (\<lambda>j. es_read j s (sys_mem S))(i := None)" "es_cnt s' m = es_cnt s (sys_mem S)"
    by (rule es_release_ok [where i = i]) (use assms(3) s in \<open>auto simp: sys_view_eq\<close>)
  note p = sys_put_ok [OF assms(1) s ok] and f = sys_frame_ops [OF assms(1) s ok]
  have "sys_release k i S = Some (sys_put k (Some s', m) S)" by (simp add: sys_release_def s w)
  with p(1-3) p(6) [of k] f v s show ?thesis by (simp add: sys_view_eq)
qed

lemma sys_assign_ok:
  assumes "sys_inv S" "sys_get k S \<noteq> None"
  shows "\<exists>S'. sys_assign k e S = Some (sys_cnt S k, S') \<and> sys_inv S' \<and> sys_view S k (sys_cnt S k) = None \<and>
      sys_view S' k = (sys_view S k)(sys_cnt S k \<mapsto> e) \<and> sys_cnt S' k = sys_cnt S k + 1 \<and> sys_get k S' \<noteq> None \<and>
      (\<forall>j. sys_get j S \<noteq> None \<longrightarrow> j \<noteq> k \<longrightarrow> sys_get j S' \<noteq> None \<and> sys_view S' j = sys_view S j \<and> sys_cnt S j \<le> sys_cnt S' j)"
proof -
  from assms(2) obtain s where s: "sys_get k S = Some s" by blast
  obtain q em where n: "rc_new e (em_ents (sys_mem S)) = (q, em)" by fastforce
  from sys_inv_store [OF assms(1) s] n obtain s' m where
    w: "es_assign q s ((sys_mem S)\<lparr>em_ents := em\<rparr>) = Some (es_cnt s (sys_mem S), s', m)"
    and ok: "store_ok (fst (others k S)) (snd (others k S)) s' m" "mem_frame (fst (others k S)) (snd (others k S)) (sys_mem S) m"
    and v: "es_read (es_cnt s (sys_mem S)) s (sys_mem S) = None"
      "(\<lambda>j. es_read j s' m) = (\<lambda>j. es_read j s (sys_mem S))(es_cnt s (sys_mem S) \<mapsto> e)" "es_cnt s' m = es_cnt s (sys_mem S) + 1"
    by (rule es_assign_ok) blast
  note p = sys_put_ok [OF assms(1) s ok] and f = sys_frame_ops [OF assms(1) s ok]
  have "sys_assign k e S = Some (es_cnt s (sys_mem S), sys_put k (Some s', m) S)" by (simp add: sys_assign_def s w n)
  with p(1-3) p(6) [of k] f v s show ?thesis by (simp add: sys_view_eq)
qed

lemma sys_assignAt_ok:
  assumes "sys_inv S" "sys_get k S \<noteq> None" "0 \<le> i" "sys_view S k i = None"
  shows "\<exists>S'. sys_assignAt k i e S = Some S' \<and> sys_inv S' \<and>
      sys_view S' k = (sys_view S k)(i \<mapsto> e) \<and> sys_cnt S' k = max (sys_cnt S k) (1 + i) \<and> sys_get k S' \<noteq> None \<and>
      (\<forall>j. sys_get j S \<noteq> None \<longrightarrow> j \<noteq> k \<longrightarrow> sys_get j S' \<noteq> None \<and> sys_view S' j = sys_view S j \<and> sys_cnt S j \<le> sys_cnt S' j)"
proof -
  from assms(2) obtain s where s: "sys_get k S = Some s" by blast
  obtain q em where n: "rc_new e (em_ents (sys_mem S)) = (q, em)" by fastforce
  have free: "es_read i s (sys_mem S) = None" using assms(4) s by (simp add: sys_view_eq)
  from es_assignAt_ok [OF sys_inv_store [OF assms(1) s] assms(3) free n] obtain s' m where
    w: "es_assignAt i q s ((sys_mem S)\<lparr>em_ents := em\<rparr>) = Some (s', m)"
    and ok: "store_ok (fst (others k S)) (snd (others k S)) s' m" "mem_frame (fst (others k S)) (snd (others k S)) (sys_mem S) m"
    and v: "(\<lambda>j. es_read j s' m) = (\<lambda>j. es_read j s (sys_mem S))(i \<mapsto> e)" "es_cnt s' m = max (es_cnt s (sys_mem S)) (1 + i)"
    by blast
  note p = sys_put_ok [OF assms(1) s ok] and f = sys_frame_ops [OF assms(1) s ok]
  have "sys_assignAt k i e S = Some (sys_put k (Some s', m) S)" by (simp add: sys_assignAt_def s w n)
  with p(1-3) p(6) [of k] f v s show ?thesis by (simp add: sys_view_eq)
qed

lemma sys_get_append:
  "sys_get j \<lparr>sys_mem = m, sys_stores = sys_stores S @ [x]\<rparr> = (if j = length (sys_stores S) then x else sys_get j S)"
  by (auto simp: sys_get_def nth_append)

lemma sys_get_new: "sys_get (length (sys_stores S)) S = None"
  by (simp add: sys_get_def)

lemma sys_copy_ok:
  assumes "sys_inv S" "sys_get k S \<noteq> None"
  shows "\<exists>c S'. sys_copy k S = Some (c, S') \<and> sys_inv S' \<and> \<not> sys_get c S \<noteq> None \<and> sys_get c S' \<noteq> None \<and>
      sys_view S' c = sys_view S k \<and> sys_cnt S' c = sys_cnt S k \<and>
      (\<forall>j. sys_get j S \<noteq> None \<longrightarrow> sys_get j S' \<noteq> None \<and> sys_view S' j = sys_view S j \<and> sys_cnt S' j = sys_cnt S j)"
proof -
  from assms(2) obtain s where s: "sys_get k S = Some s" by blast
  let ?m = "sys_mem S" and ?ss = "sys_stores S"
  from s have k: "k < length ?ss" "?ss ! k = Some s" by (auto simp: sys_get_def split: if_splits)
  have ok: "rc_ok (ents_refs ?ss) (em_ents ?m)" "rc_ok (cnts_refs ?ss) (em_cnts ?m)" using assms(1) by (simp_all add: sys_inv_def)
  have "es_entCnt s \<in># cnts_refs ?ss" using stores_refs_mem [OF k, of "es_entCnt s" "\<lambda>s. {#es_entCnt s#}"] by simp
  with ok(2) obtain cm where cm: "rcl_enter (es_entCnt s) (em_cnts ?m) = Some (es_entCnt s, cm)"
    "rc_ok (add_mset (es_entCnt s) (cnts_refs ?ss)) cm" "\<And>q. rc_at cm q = rc_at (em_cnts ?m) q" by (rule rcl_enter_ok) blast
  have "es_ptrs (es_ents s) \<subseteq># ents_refs ?ss" using stores_refs_nth [OF k, of "\<lambda>s. es_ptrs (es_ents s)"] by simp
  from copy_loop_ok [OF ok(1) this, of "[]"] obtain em where em: "ofold (\<lambda>ent (xs, em).
         case ent of
           None \<Rightarrow> Some (xs @ [None], em)
         | Some p \<Rightarrow> do { (p, em) \<leftarrow> rcl_enter p em; Some (xs @ [Some p], em) }) (es_ents s) ([], em_ents ?m) = Some (es_ents s, em)"
    "rc_ok (ents_refs ?ss + es_ptrs (es_ents s)) em" "\<And>q. rc_at em q = rc_at (em_ents ?m) q" by auto
  let ?S = "\<lparr>sys_mem = \<lparr>em_ents = em, em_cnts = cm\<rparr>, sys_stores = ?ss @ [Some s]\<rparr>"
  have c: "sys_copy k S = Some (length ?ss, ?S)"
    by (simp add: sys_copy_def s es_copy_def cm(1) em(1) del: ofold.simps)
  have rd: "es_read i t (sys_mem ?S) = es_read i t ?m" "es_cnt t (sys_mem ?S) = es_cnt t ?m" for i t
    using em(3) cm(3) by (auto simp: es_read_eq es_cnt_def intro!: Option.bind_cong)
  have "sys_inv ?S"
    using assms(1) cm(2,3) em(2) s unfolding sys_inv_def sys_get_append by (auto simp: sys_inv_def)
  moreover have v: "sys_view ?S j = (if j = length ?ss then sys_view S k else sys_view S j)"
    "sys_cnt ?S j = (if j = length ?ss then sys_cnt S k else sys_cnt S j)" for j
    using s rd unfolding sys_view_def sys_cnt_def sys_get_append by (auto split: option.splits)
  ultimately show ?thesis
    using c sys_get_new [of S]
    by (intro exI [of _ "length ?ss"] exI [of _ ?S]) (auto simp: v sys_get_append)
qed

lemma sys_destroy_ok:
  assumes "sys_inv S" "sys_get k S \<noteq> None"
  shows "\<exists>S'. sys_destroy k S = Some S' \<and> sys_inv S' \<and> \<not> sys_get k S' \<noteq> None \<and>
      (\<forall>j. sys_get j S \<noteq> None \<longrightarrow> j \<noteq> k \<longrightarrow> sys_get j S' \<noteq> None \<and> sys_view S' j = sys_view S j \<and> sys_cnt S' j = sys_cnt S j)"
proof -
  from assms(2) obtain s where s: "sys_get k S = Some s" by blast
  let ?m = "sys_mem S"
  define R C where "R = fst (others k S)" and "C = snd (others k S)"
  have ok: "rc_ok (R + es_ptrs (es_ents s)) (em_ents ?m)" "rc_ok (add_mset (es_entCnt s) C) (em_cnts ?m)"
    using sys_inv_store [OF assms(1) s] by (simp_all add: store_ok_def R_def C_def)
  from ok(2) obtain cm where cm: "rcl_leave (es_entCnt s) (em_cnts ?m) = Some cm" "rc_ok C cm"
    "\<And>q. q \<in># C \<Longrightarrow> rc_at cm q = rc_at (em_cnts ?m) q" by (rule rcl_leave_ok) blast
  from destroy_loop_ok [OF ok(1)] obtain em where em:
    "ofold (\<lambda>ent em. case ent of None \<Rightarrow> Some em | Some p \<Rightarrow> rcl_leave p em) (es_ents s) (em_ents ?m) = Some em"
    "rc_ok R em" "\<forall>q \<in># R. rc_at em q = rc_at (em_ents ?m) q" by blast
  let ?n = "\<lparr>em_ents = em, em_cnts = cm\<rparr>"
  let ?S = "sys_put k (None, ?n) S"
  have d: "sys_destroy k S = Some ?S" by (simp add: sys_destroy_def s es_destroy_def cm(1) em(1))
  have fr: "mem_frame (fst (others k S)) (snd (others k S)) ?m ?n"
    using cm(3) em(3) by (auto simp: mem_frame_def R_def C_def)
  have get: "sys_get j ?S = (if j = k then None else sys_get j S)" for j
    using s by (auto simp: sys_get_put) (auto simp: sys_get_def split: if_splits)
  have m: "sys_mem ?S = ?n" by (simp add: sys_put_def)
  have "sys_inv ?S"
    using cm(2) em(2) mem_frame_view(3) [OF assms(1) _ _ fr] unfolding sys_inv_def m get
    by (auto simp: sys_put_def R_def C_def split: if_splits)
  moreover have "sys_view ?S j = sys_view S j" "sys_cnt ?S j = sys_cnt S j" if "j \<noteq> k" for j
  proof -
    have "es_cnt t ?n = es_cnt t ?m" if t: "sys_get j S = Some t" for t
    proof -
      have "es_entCnt t \<in># C"
        using t \<open>j \<noteq> k\<close> stores_refs_mem [of j "(sys_stores S)[k := None]" t "es_entCnt t" "\<lambda>s. {#es_entCnt s#}"]
        by (auto simp: C_def sys_get_def split: if_splits)
      then show ?thesis by (simp add: es_cnt_def cm(3))
    qed
    then show "sys_view ?S j = sys_view S j" "sys_cnt ?S j = sys_cnt S j"
      using mem_frame_view(1) [OF assms(1) _ that fr] that
      by (auto simp: sys_view_def sys_cnt_def get m fun_eq_iff split: option.splits intro!: Option.bind_cong)
  qed
  ultimately show ?thesis using d get by (intro exI [of _ ?S]) auto
qed

interpretation vs: versioned_store sys_inv "\<lambda>S k. sys_get k S \<noteq> None" sys_view sys_cnt sys_copy sys_destroy sys_assign
  sys_release sys_write
  by (unfold_locales; (rule sys_copy_ok sys_destroy_ok sys_assign_ok sys_release_ok sys_write_ok); assumption)

section \<open>Runs\<close>

text \<open>One operation, labelled with the handle of the store it works on; the new stores have handles of their own.\<close>

inductive sys_step :: "nat \<Rightarrow> 'e ent_sys \<Rightarrow> 'e ent_sys \<Rightarrow> bool" where
  "sys_create S = (k, S') \<Longrightarrow> sys_step k S S'"
| "sys_copy k S = Some (c, S') \<Longrightarrow> sys_step c S S'"
| "sys_destroy k S = Some S' \<Longrightarrow> sys_step k S S'"
| "sys_assign k e S = Some (i, S') \<Longrightarrow> sys_step k S S'"
| "0 \<le> i \<Longrightarrow> sys_view S k i = None \<Longrightarrow> sys_assignAt k i e S = Some S' \<Longrightarrow> sys_step k S S'"
| "sys_view S k i \<noteq> None \<Longrightarrow> sys_release k i S = Some S' \<Longrightarrow> sys_step k S S'"
| "sys_view S k i \<noteq> None \<Longrightarrow> sys_write k i e S = Some S' \<Longrightarrow> sys_step k S S'"

inductive sys_run :: "nat list \<Rightarrow> 'e ent_sys \<Rightarrow> 'e ent_sys \<Rightarrow> bool" where
  "sys_run [] S S"
| "sys_step k S S1 \<Longrightarrow> sys_run ks S1 S2 \<Longrightarrow> sys_run (k # ks) S S2"

definition sys_empty :: "'e ent_sys" where
  "sys_empty = \<lparr>sys_mem = \<lparr>em_ents = rc_empty, em_cnts = rc_empty\<rparr>, sys_stores = []\<rparr>"

lemma sys_inv_empty: "sys_inv sys_empty"
  by (simp add: sys_inv_def sys_empty_def rc_ok_def rc_empty_def sys_get_def)

lemma sys_create_ok:
  assumes "sys_inv S" "sys_create S = (k, S')"
  shows "sys_inv S'" "sys_get k S = None" "sys_get j S \<noteq> None \<Longrightarrow> sys_get j S' = sys_get j S \<and> sys_view S' j = sys_view S j"
proof -
  obtain c cm where n: "rc_new 0 (em_cnts (sys_mem S)) = (c, cm)" by fastforce
  let ?s = "\<lparr>es_ents = [], es_entCnt = c\<rparr>" and ?m = "(sys_mem S)\<lparr>em_cnts := cm\<rparr>"
  have e: "k = length (sys_stores S)" "S' = \<lparr>sys_mem = ?m, sys_stores = sys_stores S @ [Some ?s]\<rparr>"
    using assms(2) by (auto simp: sys_create_def es_create_def n)
  show free: "sys_get k S = None" by (simp add: e sys_get_def)
  have ok: "rc_ok (ents_refs (sys_stores S)) (em_ents (sys_mem S))" "rc_ok (cnts_refs (sys_stores S)) (em_cnts (sys_mem S))"
    using assms(1) by (simp_all add: sys_inv_def)
  note new = rc_new_ok [OF ok(2) n]
  have "\<exists>n. rc_at cm (es_entCnt t) = Some n \<and> int (length (es_ents t)) \<le> n" if t: "sys_get j S = Some t" for j t
  proof -
    have "es_entCnt t \<in># cnts_refs (sys_stores S)"
      using t stores_refs_mem [of j "sys_stores S" t "es_entCnt t" "\<lambda>s. {#es_entCnt s#}"] by (auto simp: sys_get_def split: if_splits)
    from new(4) [OF this] assms(1) t show ?thesis unfolding sys_inv_def by auto
  qed
  then show "sys_inv S'"
    using ok new(1,3) unfolding sys_inv_def e sys_get_append by auto
  show "sys_get j S' = sys_get j S \<and> sys_view S' j = sys_view S j" if "sys_get j S \<noteq> None"
    using that free by (auto simp: e sys_get_append sys_view_def es_read_eq)
qed

lemma sys_step_live: "sys_destroy k S = Some S' \<Longrightarrow> sys_get k S \<noteq> None" "sys_assign k e S = Some (i, S') \<Longrightarrow> sys_get k S \<noteq> None"
  "sys_assignAt k n e S = Some S' \<Longrightarrow> sys_get k S \<noteq> None" "sys_copy k S = Some (c, S') \<Longrightarrow> sys_get k S \<noteq> None"
  "sys_view S k n \<noteq> None \<Longrightarrow> sys_get k S \<noteq> None"
  by (auto simp: sys_destroy_def sys_assign_def sys_assignAt_def sys_copy_def sys_view_def bind_eq_Some_conv)

lemma sys_step_ok:
  "sys_step k S S' \<Longrightarrow> sys_inv S \<Longrightarrow>
    sys_inv S' \<and> (\<forall>j. sys_get j S \<noteq> None \<longrightarrow> j \<noteq> k \<longrightarrow> sys_get j S' \<noteq> None \<and> sys_view S' j = sys_view S j)"
proof (induction rule: sys_step.induct)
  case (1 S k S')
  then show ?case using sys_create_ok by metis
next
  case (2 k S c S')
  then show ?case using vs.copy_ok [OF _ sys_step_live(4)] by fastforce
next
  case (3 k S S')
  then show ?case using vs.destroy_ok [OF _ sys_step_live(1)] by fastforce
next
  case (4 k e S i S')
  then show ?case using vs.assign_ok [OF _ sys_step_live(2), of S k e i S' e] by auto
next
  case (5 i S k e S')
  then show ?case using sys_assignAt_ok [OF _ sys_step_live(3) [OF 5(3)] 5(1,2), of e] by auto
next
  case (6 S k i S')
  then show ?case using vs.release_ok [OF _ sys_step_live(5) [OF 6(1)] 6(1)] by auto
next
  case (7 S k i e S')
  then show ?case using vs.write_ok [OF _ sys_step_live(5) [OF 7(1)] 7(1), of e] by auto
qed

lemma sys_run_ok:
  "sys_run ks S S' \<Longrightarrow> sys_inv S \<Longrightarrow>
    sys_inv S' \<and> (\<forall>j. sys_get j S \<noteq> None \<longrightarrow> j \<notin> set ks \<longrightarrow> sys_get j S' \<noteq> None \<and> sys_view S' j = sys_view S j)"
proof (induction rule: sys_run.induct)
  case (2 k S S1 ks S2)
  from sys_step_ok [OF 2(1,4)] 2(3) show ?case by auto
qed simp

section \<open>Properties\<close>

text \<open>A store that holds the entities of a heap and hands out the ids of the heap.\<close>

definition store_abs :: "ent ent_sys \<Rightarrow> nat \<Rightarrow> sheap \<Rightarrow> bool" where
  "store_abs S k h \<longleftrightarrow> sys_get k S \<noteq> None \<and> ents h = sys_view S k \<and> entCnt h = sys_cnt S k"

text \<open>A new store with one entity.\<close>

definition wit_sys :: "ent ent_sys" where
  "wit_sys = snd (the (sys_assign 0 (EntRegion (new_region SC_ON_HEAP)) (snd (sys_create sys_empty))))"

definition wit_sys_heap :: sheap where
  "wit_sys_heap = \<lparr>storOf = \<lparr>stor_types = [], stor_vars = [], genericDataPtr = 0, dataPtrSizeof = 8\<rparr>, bypassSelfChecks = False,
     ents = sys_view wit_sys 0, entCnt = sys_cnt wit_sys 0, liveObjs = {}, cVarMap = (\<lambda>_. None), cValueMap = cvm_empty,
     coinDb = [], neqDb = {}\<rparr>"

lemma sys_create_handle: "fst (sys_create S) = length (sys_stores S)"
  by (simp add: sys_create_def split: prod.splits)

lemma sys_create_live: "sys_create S = (k, S') \<Longrightarrow> sys_get k S' \<noteq> None"
  by (auto simp: sys_create_def es_create_def sys_get_append split: prod.splits)

lemma wit_sys_ok: "sys_inv wit_sys" "sys_get 0 wit_sys \<noteq> None" "sys_view wit_sys 0 0 \<noteq> None"
proof -
  let ?e = "EntRegion (new_region SC_ON_HEAP)"
  obtain S1 where c: "sys_create (sys_empty :: ent ent_sys) = (0, S1)"
    using sys_create_handle [of "sys_empty :: ent ent_sys"] by (cases "sys_create (sys_empty :: ent ent_sys)") (simp add: sys_empty_def)
  have 1: "sys_inv S1" "sys_get 0 S1 \<noteq> None" using sys_create_ok(1) [OF sys_inv_empty c] sys_create_live [OF c] by auto
  from vs.assign_ok [OF 1, of ?e] obtain S2 where 2: "sys_assign 0 ?e S1 = Some (sys_cnt S1 0, S2)" "sys_inv S2"
    "sys_view S2 0 = (sys_view S1 0)(sys_cnt S1 0 \<mapsto> ?e)" "sys_get 0 S2 \<noteq> None" by blast
  have "sys_cnt S1 0 = 0"
    using c by (auto simp: sys_create_def sys_empty_def es_create_def rc_new_def sys_cnt_def sys_get_def es_cnt_def rc_at_def)
  with c 2 show "sys_inv wit_sys" "sys_get 0 wit_sys \<noteq> None" "sys_view wit_sys 0 0 \<noteq> None"
    by (simp_all add: wit_sys_def)
qed

text \<open>
  C14: the entity store refines the map of the heap model: for a store whose entities and counter are those of a heap,
  none of the operations traps, a new entity gets the id that the heap model hands out, and assigning, overwriting and
  releasing an entity, as well as copying the store, commute with the operations of the heap model.
\<close>

theorem ent_store_refines_heap:
  assumes "sys_inv S" "store_abs S k h"
  shows "(\<exists>S'. sys_assign k e S = Some (fst (assignEnt e h), S') \<and> sys_inv S' \<and> store_abs S' k (snd (assignEnt e h))) \<and>
    (ents h i \<noteq> None \<longrightarrow> (\<exists>S'. sys_write k i e S = Some S' \<and> sys_inv S' \<and> store_abs S' k (putEnt i e h))) \<and>
    (ents h i \<noteq> None \<longrightarrow> (\<exists>S'. sys_release k i S = Some S' \<and> sys_inv S' \<and> store_abs S' k (releaseEnt i h))) \<and>
    (\<exists>c S'. sys_copy k S = Some (c, S') \<and> sys_inv S' \<and> store_abs S' c h \<and> store_abs S' k h)"
proof -
  from assms(2) have a: "sys_get k S \<noteq> None" "ents h = sys_view S k" "entCnt h = sys_cnt S k" by (auto simp: store_abs_def)
  show ?thesis
    using vs.assign_ok [OF assms(1) a(1), of e] vs.write_ok [OF assms(1) a(1), of i e] vs.release_ok [OF assms(1) a(1), of i]
      vs.copy_ok [OF assms(1) a(1)] a
    by (fastforce simp: store_abs_def assignEnt_def putEnt_def releaseEnt_def)
qed

theorem ent_store_refines_heap_witness:
  "\<exists>S'. sys_release 0 0 wit_sys = Some S' \<and> sys_inv S' \<and> store_abs S' 0 (releaseEnt 0 wit_sys_heap)"
proof -
  have "store_abs wit_sys 0 wit_sys_heap" using wit_sys_ok by (simp add: store_abs_def wit_sys_heap_def)
  from ent_store_refines_heap [OF wit_sys_ok(1) this, of undefined 0] wit_sys_ok(3) show ?thesis
    by (simp add: wit_sys_heap_def)
qed

text \<open>
  C13: copies do not observe each other: whatever operations run on other stores, old or new, the entities that a
  store shows stay the same.
\<close>

theorem store_isolation:
  assumes "sys_inv S" "sys_run ks S S'" "sys_get j S \<noteq> None" "j \<notin> set ks"
  shows "sys_get j S' \<noteq> None \<and> sys_view S' j = sys_view S j"
  using sys_run_ok [OF assms(2,1)] assms(3,4) by blast

theorem store_isolation_witness:
  "\<exists>c S1 S2. sys_copy 0 wit_sys = Some (c, S1) \<and> sys_write c 0 (EntRegion (new_region SC_STATIC)) S1 = Some S2 \<and>
     sys_view S2 0 = sys_view wit_sys 0"
proof -
  let ?e = "EntRegion (new_region SC_STATIC)"
  from vs.copy_ok [OF wit_sys_ok(1,2)] obtain c S1 where c: "sys_copy 0 wit_sys = Some (c, S1)" "sys_inv S1"
    "sys_get c wit_sys = None" "sys_get c S1 \<noteq> None" "sys_view S1 c = sys_view wit_sys 0" by auto
  from vs.write_ok [OF c(2,4), of 0 ?e] wit_sys_ok(3) obtain S2 where w: "sys_write c 0 ?e S1 = Some S2"
    by (auto simp: c(5))
  have "sys_view S1 c 0 \<noteq> None" using c(5) wit_sys_ok(3) by simp
  note w' = sys_run.intros(2) [OF sys_step.intros(7) [OF this w] sys_run.intros(1)]
  have "sys_run [c, c] wit_sys S2" by (rule sys_run.intros(2) [OF sys_step.intros(2) [OF c(1)] w'])
  moreover have "0 \<notin> set [c, c]" using c(3) wit_sys_ok(2) by (cases "c = 0") auto
  ultimately show ?thesis using store_isolation [OF wit_sys_ok(1) _ wit_sys_ok(2)] c(1) w by blast
qed

text \<open>
  C15: along every run from the start of the process the reference count of every entity and of every counter is the
  number of the references that the stores hold; an object without a reference has been deleted, so that when all
  stores are destroyed nothing is left.
\<close>

theorem refcounts_exact:
  assumes "sys_run ks sys_empty S"
  shows "(\<forall>p. case rc_cells (em_ents (sys_mem S)) p of
        None \<Rightarrow> count (ents_refs (sys_stores S)) p = 0
      | Some ob \<Rightarrow> rc_cnt ob = int (count (ents_refs (sys_stores S)) p) \<and> 0 < rc_cnt ob) \<and>
    ((\<forall>k. sys_get k S = None) \<longrightarrow> (\<forall>p. rc_cells (em_ents (sys_mem S)) p = None \<and> rc_cells (em_cnts (sys_mem S)) p = None))"
proof -
  have inv: "sys_inv S" using sys_run_ok [OF assms sys_inv_empty] by blast
  then have ok: "rc_ok (ents_refs (sys_stores S)) (em_ents (sys_mem S))" "rc_ok (cnts_refs (sys_stores S)) (em_cnts (sys_mem S))"
    by (simp_all add: sys_inv_def)
  have "stores_refs f (sys_stores S) = {#}" if "\<forall>k. sys_get k S = None" for f
    by (rule stores_refs_none) (use that in \<open>auto simp: sys_get_def split: if_splits\<close>)
  then have none: "rc_cells (em_ents (sys_mem S)) p = None \<and> rc_cells (em_cnts (sys_mem S)) p = None" if "\<forall>k. sys_get k S = None" for p
    using that rc_okD(2) [OF ok(1), of p] rc_okD(2) [OF ok(2), of p] 
    by (cases "rc_cells (em_ents (sys_mem S)) p"; cases "rc_cells (em_cnts (sys_mem S)) p") auto
  have "case rc_cells (em_ents (sys_mem S)) p of
        None \<Rightarrow> count (ents_refs (sys_stores S)) p = 0
      | Some ob \<Rightarrow> rc_cnt ob = int (count (ents_refs (sys_stores S)) p) \<and> 0 < rc_cnt ob" for p
    using rc_okD [OF ok(1), of p] by (auto simp: not_in_iff split: option.splits)
  with none show ?thesis by blast
qed

theorem refcounts_exact_witness: "\<exists>S. sys_destroy 0 (snd (sys_create sys_empty)) = Some S \<and>
    (\<forall>p. rc_cells (em_ents (sys_mem S)) p = (None :: ent rc_obj option) \<and> rc_cells (em_cnts (sys_mem S)) p = None)"
proof -
  obtain S1 where c: "sys_create (sys_empty :: ent ent_sys) = (0, S1)"
    using sys_create_handle [of "sys_empty :: ent ent_sys"] by (cases "sys_create (sys_empty :: ent ent_sys)") (simp add: sys_empty_def)
  have 1: "sys_inv S1" "sys_get 0 S1 \<noteq> None" using sys_create_ok(1) [OF sys_inv_empty c] sys_create_live [OF c] by auto
  from vs.destroy_ok [OF this] obtain S where d: "sys_destroy 0 S1 = Some S" "sys_get 0 S = None" by auto
  have "sys_run [0, 0] sys_empty S"
    by (rule sys_run.intros(2) [OF sys_step.intros(1) [OF c] sys_run.intros(2) [OF sys_step.intros(3) [OF d(1)] sys_run.intros(1)]])
  moreover have "\<forall>k. sys_get k S = None"
    using c d by (auto simp: sys_create_def sys_empty_def sys_destroy_def sys_put_def sys_get_def bind_eq_Some_conv split: prod.splits)
  ultimately have "\<forall>p. rc_cells (em_ents (sys_mem S)) p = None \<and> rc_cells (em_cnts (sys_mem S)) p = None"
    using refcounts_exact by blast
  with c d show ?thesis by simp
qed

end
