(* ===== verification/IdMapper.thy ===== *)
theory IdMapper
  imports Prelude "HOL-Library.Product_Lexorder"
begin

text \<open>
  The bidirectional id map of \<open>src/sl/id_mapper.hh\<close>, used to translate heap entity ids along the
  edges of the trace graph.  The two search trees are sets of pairs; \<open>query\<close> reads a sorted interval
  of one of them.  The lemmas show that the two trees stay converse to each other, that a query
  returns the image of an id in increasing order, and that \<open>composite\<close> is relational composition.
\<close>

section \<open>Operations\<close>

datatype EDirection = D_LEFT_TO_RIGHT | D_RIGHT_TO_LEFT

datatype ENotFoundAction = NFA_TRAP_TO_DEBUGGER | NFA_RETURN_NOTHING | NFA_RETURN_IDENTITY

record id_mapper =
  nfa :: ENotFoundAction
  biSearch0 :: "(int \<times> int) set"
  biSearch1 :: "(int \<times> int) set"

text \<open>The order of the enumeration, which \<open>composite\<close> relies on.\<close>

fun nfa_rank :: "ENotFoundAction \<Rightarrow> nat" where
  "nfa_rank NFA_TRAP_TO_DEBUGGER = 0"
| "nfa_rank NFA_RETURN_NOTHING = 1"
| "nfa_rank NFA_RETURN_IDENTITY = 2"

fun biSearch :: "EDirection \<Rightarrow> id_mapper \<Rightarrow> (int \<times> int) set" where
  "biSearch D_LEFT_TO_RIGHT m = biSearch0 m"
| "biSearch D_RIGHT_TO_LEFT m = biSearch1 m"

fun dir_flip :: "EDirection \<Rightarrow> EDirection" where
  "dir_flip D_LEFT_TO_RIGHT = D_RIGHT_TO_LEFT"
| "dir_flip D_RIGHT_TO_LEFT = D_LEFT_TO_RIGHT"

definition idm_new :: "ENotFoundAction \<Rightarrow> id_mapper" where
  "idm_new a = \<lparr>nfa = a, biSearch0 = {}, biSearch1 = {}\<rparr>"

definition idm_setNotFoundAction :: "ENotFoundAction \<Rightarrow> id_mapper \<Rightarrow> id_mapper" where
  "idm_setNotFoundAction a m = m\<lparr>nfa := a\<rparr>"

definition idm_clear :: "id_mapper \<Rightarrow> id_mapper" where
  "idm_clear m = m\<lparr>nfa := NFA_TRAP_TO_DEBUGGER, biSearch0 := {}, biSearch1 := {}\<rparr>"

definition idm_flip :: "id_mapper \<Rightarrow> id_mapper" where
  "idm_flip m = m\<lparr>biSearch0 := biSearch1 m, biSearch1 := biSearch0 m\<rparr>"

definition idm_empty :: "id_mapper \<Rightarrow> bool option" where
  "idm_empty m = do {
     cl_break_if ((biSearch0 m = {}) \<noteq> (biSearch1 m = {}));
     Some (biSearch0 m = {})
   }"

definition idm_size :: "id_mapper \<Rightarrow> nat option" where
  "idm_size m = do {
     cl_break_if (card (biSearch0 m) \<noteq> card (biSearch1 m));
     Some (card (biSearch0 m))
   }"

definition idm_isTrivial :: "id_mapper \<Rightarrow> bool option" where
  "idm_isTrivial m = do { e \<leftarrow> idm_empty m; Some (e \<and> NFA_RETURN_IDENTITY = nfa m) }"

definition idm_insert :: "int \<Rightarrow> int \<Rightarrow> id_mapper \<Rightarrow> (bool \<times> id_mapper) option" where
  "idm_insert left right m =
     (let itemL = (left, right); itemR = (right, left)
      in do {
        cl_break_if ((itemL \<in> biSearch0 m) \<noteq> (itemR \<in> biSearch1 m));
        let changed = (itemL \<notin> biSearch0 m);
        let m = m\<lparr>biSearch0 := insert itemL (biSearch0 m)\<rparr>;
        if \<not> changed then Some (False, m)
        else Some (True, m\<lparr>biSearch1 := insert itemR (biSearch1 m)\<rparr>)
      })"

text \<open>
  \<open>query\<close> between the template parameters \<open>idMin\<close> and \<open>idMax\<close>; \<open>lower_bound\<close> and \<open>upper_bound\<close> of a
  \<open>std::set\<close> of pairs are taken in the lexicographic order.
\<close>

definition idm_query :: "int \<Rightarrow> int \<Rightarrow> EDirection \<Rightarrow> int list \<Rightarrow> int \<Rightarrow> id_mapper \<Rightarrow> int list option" where
  "idm_query idMin idMax dir dst ident m =
     (let beg = dropWhile (\<lambda>p. p < (ident, idMin)) (sorted_list_of_set (biSearch dir m))
      in if beg = [] \<or> fst (hd beg) \<noteq> ident then
           (case nfa m of
              NFA_TRAP_TO_DEBUGGER \<Rightarrow> None
            | NFA_RETURN_NOTHING \<Rightarrow> Some dst
            | NFA_RETURN_IDENTITY \<Rightarrow> Some (dst @ [ident]))
         else
           (let img = takeWhile (\<lambda>p. p \<le> (ident, idMax)) beg
            in do {
              cl_break_if (img = []);
              cl_break_if (\<exists>p \<in> set img. fst p \<noteq> ident);
              Some (dst @ map snd img)
            }))"

definition idm_project :: "int \<Rightarrow> int \<Rightarrow> EDirection \<Rightarrow> id_mapper \<Rightarrow> int set \<Rightarrow> int list \<Rightarrow> int set option" where
  "idm_project idMin idMax dir m dst srcCont =
     ofold (\<lambda>src dst. do { dstVect \<leftarrow> idm_query idMin idMax dir [] src m; Some (dst \<union> set dstVect) }) srcCont dst"

definition idm_insert_all :: "(int \<times> int) list \<Rightarrow> id_mapper \<Rightarrow> id_mapper option" where
  "idm_insert_all = ofold (\<lambda>(a, c) m. map_option snd (idm_insert a c m))"

text \<open>The two loops of \<open>composite\<close>: along the items of the mapping itself, and (reverse lookup) along
  the items of the other one.\<close>

definition composite_fwd :: "int \<Rightarrow> int \<Rightarrow> EDirection \<Rightarrow> id_mapper \<Rightarrow> id_mapper \<Rightarrow> id_mapper \<Rightarrow> id_mapper option" where
  "composite_fwd idMin idMax dir by m = ofold (\<lambda>item result. do {
       cList \<leftarrow> idm_query idMin idMax dir [] (snd item) by;
       idm_insert_all (map (\<lambda>c. (fst item, c)) cList) result
     }) (sorted_list_of_set (biSearch dir m))"

definition composite_rev :: "int \<Rightarrow> int \<Rightarrow> EDirection \<Rightarrow> id_mapper \<Rightarrow> id_mapper \<Rightarrow> id_mapper \<Rightarrow> id_mapper option" where
  "composite_rev idMin idMax dir by m = ofold (\<lambda>item result. do {
       aList \<leftarrow> idm_query idMin idMax (dir_flip dir) [] (fst item) m;
       idm_insert_all (map (\<lambda>a. (a, snd item)) aList) result
     }) (sorted_list_of_set (biSearch dir by))"

definition idm_composite :: "int \<Rightarrow> int \<Rightarrow> EDirection \<Rightarrow> id_mapper \<Rightarrow> id_mapper \<Rightarrow> id_mapper option" where
  "idm_composite idMin idMax dir by m = do {
     result \<leftarrow> composite_fwd idMin idMax dir by m (idm_new NFA_TRAP_TO_DEBUGGER);
     result \<leftarrow> (if NFA_RETURN_IDENTITY = nfa m
       then composite_rev idMin idMax dir by m result else Some result);
     let a = (if nfa_rank (nfa by) < nfa_rank (nfa m) then nfa by else nfa m);
     Some (case dir of
         D_LEFT_TO_RIGHT \<Rightarrow> m\<lparr>nfa := a, biSearch0 := biSearch0 result, biSearch1 := biSearch1 result\<rparr>
       | D_RIGHT_TO_LEFT \<Rightarrow> m\<lparr>nfa := a, biSearch0 := biSearch1 result, biSearch1 := biSearch0 result\<rparr>)
   }"

section \<open>The invariant\<close>

definition idm_wf :: "int \<Rightarrow> int \<Rightarrow> id_mapper \<Rightarrow> bool" where
  "idm_wf idMin idMax m \<longleftrightarrow> finite (biSearch0 m) \<and> biSearch1 m = (biSearch0 m)\<inverse> \<and>
     (\<forall>(a, b) \<in> biSearch0 m. idMin \<le> a \<and> a \<le> idMax \<and> idMin \<le> b \<and> b \<le> idMax)"

lemma biSearch_flip: "idm_wf idMin idMax m \<Longrightarrow> biSearch (dir_flip dir) m = (biSearch dir m)\<inverse>"
  by (cases dir) (auto simp: idm_wf_def)

lemma finite_biSearch: "idm_wf idMin idMax m \<Longrightarrow> finite (biSearch dir m)"
  by (cases dir) (auto simp: idm_wf_def)

lemma biSearch_bounds:
  "idm_wf idMin idMax m \<Longrightarrow> (a, b) \<in> biSearch dir m \<Longrightarrow> idMin \<le> a \<and> a \<le> idMax \<and> idMin \<le> b \<and> b \<le> idMax"
  by (cases dir) (auto simp: idm_wf_def)

lemma idm_wf_new: "idm_wf idMin idMax (idm_new a)"
  by (simp add: idm_wf_def idm_new_def)

lemma idm_wf_clear: "idm_wf idMin idMax (idm_clear m)"
  by (simp add: idm_wf_def idm_clear_def)

lemma idm_wf_flip: "idm_wf idMin idMax m \<Longrightarrow> idm_wf idMin idMax (idm_flip m)"
  by (auto simp: idm_wf_def idm_flip_def)

lemma idm_insert_ok:
  assumes "idm_wf idMin idMax m" "idMin \<le> a" "a \<le> idMax" "idMin \<le> b" "b \<le> idMax"
  shows "\<exists>m'. idm_insert a b m = Some ((a, b) \<notin> biSearch0 m, m') \<and> idm_wf idMin idMax m' \<and>
    biSearch0 m' = insert (a, b) (biSearch0 m) \<and> nfa m' = nfa m"
  using assms by (auto simp: idm_insert_def idm_wf_def Let_def)

lemma idm_insert_all_ok:
  "idm_wf idMin idMax m \<Longrightarrow> \<forall>(a, b) \<in> set ps. idMin \<le> a \<and> a \<le> idMax \<and> idMin \<le> b \<and> b \<le> idMax \<Longrightarrow>
   \<exists>m'. idm_insert_all ps m = Some m' \<and> idm_wf idMin idMax m' \<and>
     biSearch0 m' = biSearch0 m \<union> set ps \<and> nfa m' = nfa m"
proof (induction ps arbitrary: m)
  case (Cons p ps)
  obtain a b where p: "p = (a, b)" by (cases p)
  from Cons.prems p obtain m1 where m1: "idm_insert a b m = Some ((a, b) \<notin> biSearch0 m, m1)"
    "idm_wf idMin idMax m1" "biSearch0 m1 = insert (a, b) (biSearch0 m)" "nfa m1 = nfa m"
    using idm_insert_ok [of idMin idMax m a b] by auto
  from Cons.IH [OF m1(2)] Cons.prems(2) obtain m' where "idm_insert_all ps m1 = Some m'"
    "idm_wf idMin idMax m'" "biSearch0 m' = biSearch0 m1 \<union> set ps" "nfa m' = nfa m1"
    by auto
  with m1 p show ?case by (auto simp: idm_insert_all_def)
qed (simp add: idm_insert_all_def)

subsection \<open>Queries\<close>

definition idm_image :: "EDirection \<Rightarrow> id_mapper \<Rightarrow> int \<Rightarrow> int set" where
  "idm_image dir m ident = {b. (ident, b) \<in> biSearch dir m}"

lemma finite_idm_image: "idm_wf idMin idMax m \<Longrightarrow> finite (idm_image dir m ident)"
  by (rule finite_subset [of _ "snd ` biSearch dir m"])
    (force simp: idm_image_def finite_biSearch)+

lemma sorted_takeWhile_dropWhile:
  fixes lo hi :: "'a::linorder"
  shows "sorted xs \<Longrightarrow> takeWhile (\<lambda>p. p \<le> hi) (dropWhile (\<lambda>p. p < lo) xs) = filter (\<lambda>p. lo \<le> p \<and> p \<le> hi) xs"
proof (induction xs)
  case (Cons x xs)
  have "takeWhile (\<lambda>p. p \<le> hi) ys = filter (\<lambda>p. lo \<le> p \<and> p \<le> hi) ys"
    if "sorted ys" "\<forall>y \<in> set ys. lo \<le> y" for ys
    using that by (induction ys) (auto intro!: filter_False [symmetric] dest: order_trans)
  note whole = this [of "x # xs"]
  show ?case
  proof (cases "x < lo")
    case False
    with Cons.prems have "\<forall>y \<in> set (x # xs). lo \<le> y" by (auto intro: order_trans)
    with whole Cons.prems False show ?thesis by simp
  qed (use Cons in simp)
qed simp

lemma idm_query_found:
  assumes "idm_wf idMin idMax m" "idm_image dir m ident \<noteq> {}"
  shows "idm_query idMin idMax dir dst ident m = Some (dst @ sorted_list_of_set (idm_image dir m ident))"
proof -
  define S where "S = biSearch dir m"
  define beg where "beg = dropWhile (\<lambda>p. p < (ident, idMin)) (sorted_list_of_set S)"
  define img where "img = takeWhile (\<lambda>p. p \<le> (ident, idMax)) beg"
  have fin: "finite S" unfolding S_def by (rule finite_biSearch [OF assms(1)])
  have bnd: "idMin \<le> b \<and> b \<le> idMax" if "(a, b) \<in> S" for a b
    using biSearch_bounds [OF assms(1)] that unfolding S_def by blast
  have img_eq: "img = filter (\<lambda>p. (ident, idMin) \<le> p \<and> p \<le> (ident, idMax)) (sorted_list_of_set S)"
    unfolding img_def beg_def by (rule sorted_takeWhile_dropWhile) simp
  have set_img: "set img = {ident} \<times> idm_image dir m ident"
    using fin bnd by (auto simp: img_eq idm_image_def S_def less_eq_prod_def)
  have "sorted img" "distinct img" by (simp_all add: img_eq sorted_wrt_filter)
  then have "sorted (map snd img)" "distinct (map snd img)"
    using set_img by (auto simp: sorted_map distinct_map inj_on_def less_eq_prod_def
        intro: sorted_wrt_mono_rel [of img "(\<le>)"])
  moreover have "set (map snd img) = idm_image dir m ident" by (simp add: set_img)
  ultimately have map: "map snd img = sorted_list_of_set (idm_image dir m ident)"
    using sorted_list_of_set.idem_if_sorted_distinct by metis
  have "img \<noteq> []" using set_img assms(2) by auto
  then have "beg \<noteq> [] \<and> hd beg \<in> set img"
    unfolding img_def by (cases beg) (auto split: if_splits)
  then have "beg \<noteq> []" "fst (hd beg) = ident" using set_img by auto
  moreover have "\<not> (\<exists>p \<in> set img. fst p \<noteq> ident)" using set_img by auto
  ultimately show ?thesis
    using \<open>img \<noteq> []\<close> map by (simp add: idm_query_def Let_def flip: S_def beg_def img_def)
qed

lemma idm_query_not_found:
  assumes "idm_wf idMin idMax m" "idm_image dir m ident = {}"
  shows "idm_query idMin idMax dir dst ident m =
    (case nfa m of NFA_TRAP_TO_DEBUGGER \<Rightarrow> None | NFA_RETURN_NOTHING \<Rightarrow> Some dst
     | NFA_RETURN_IDENTITY \<Rightarrow> Some (dst @ [ident]))"
proof -
  let ?beg = "dropWhile (\<lambda>p. p < (ident, idMin)) (sorted_list_of_set (biSearch dir m))"
  have "?beg = [] \<or> hd ?beg \<in> biSearch dir m"
    using finite_biSearch [OF assms(1), of dir]
    by (metis hd_in_set set_dropWhileD set_sorted_list_of_set)
  then have "?beg = [] \<or> fst (hd ?beg) \<noteq> ident"
    using assms(2) by (cases "hd ?beg") (auto simp: idm_image_def)
  then show ?thesis by (simp add: idm_query_def Let_def)
qed

lemma set_idm_query:
  assumes "idm_wf idMin idMax m" "idm_query idMin idMax dir [] ident m = Some xs"
  shows "set xs = (if idm_image dir m ident = {} \<and> nfa m = NFA_RETURN_IDENTITY then {ident}
    else idm_image dir m ident)"
  using assms idm_query_found [OF assms(1)] idm_query_not_found [OF assms(1)] finite_idm_image [OF assms(1)]
  by (cases "idm_image dir m ident = {}") (auto split: ENotFoundAction.splits)

lemma idm_query_bounds:
  assumes "idm_wf idMin idMax m" "idm_query idMin idMax dir [] ident m = Some xs" "idMin \<le> ident" "ident \<le> idMax"
  shows "\<forall>x \<in> set xs. idMin \<le> x \<and> x \<le> idMax"
  using set_idm_query [OF assms(1,2)] biSearch_bounds [OF assms(1)] assms(3,4)
  by (auto simp: idm_image_def split: if_splits)

subsection \<open>Composition\<close>

lemma biSearch_bounds_fst: "idm_wf idMin idMax m \<Longrightarrow> p \<in> biSearch dir m \<Longrightarrow> idMin \<le> fst p \<and> fst p \<le> idMax"
  and biSearch_bounds_snd: "idm_wf idMin idMax m \<Longrightarrow> p \<in> biSearch dir m \<Longrightarrow> idMin \<le> snd p \<and> snd p \<le> idMax"
  using biSearch_bounds [of idMin idMax m "fst p" "snd p"] by auto

text \<open>One loop of \<open>composite\<close>: for each item of a list it runs a query and inserts pairs.\<close>

lemma idm_loop_ok:
  assumes "idm_wf idMin idMax r0"
    and "\<And>p. p \<in> set ps \<Longrightarrow> \<exists>xs. q p = Some xs \<and> set xs = Q p"
    and "\<And>p x. p \<in> set ps \<Longrightarrow> x \<in> Q p \<Longrightarrow>
      idMin \<le> fst (g p x) \<and> fst (g p x) \<le> idMax \<and> idMin \<le> snd (g p x) \<and> snd (g p x) \<le> idMax"
  shows "\<exists>r. ofold (\<lambda>p r. do { xs \<leftarrow> q p; idm_insert_all (map (g p) xs) r }) ps r0 = Some r \<and>
    idm_wf idMin idMax r \<and> biSearch0 r = biSearch0 r0 \<union> {g p x | p x. p \<in> set ps \<and> x \<in> Q p}"
  using assms
proof (induction ps arbitrary: r0)
  case (Cons p ps)
  from Cons.prems(2) obtain xs where q: "q p = Some xs" "set xs = Q p" by auto
  have "\<forall>y \<in> set (map (g p) xs). idMin \<le> fst y \<and> fst y \<le> idMax \<and> idMin \<le> snd y \<and> snd y \<le> idMax"
    using Cons.prems(3) [of p] q by auto
  then obtain r1 where r1: "idm_insert_all (map (g p) xs) r0 = Some r1"
    "idm_wf idMin idMax r1" "biSearch0 r1 = biSearch0 r0 \<union> g p ` Q p"
    using idm_insert_all_ok [OF Cons.prems(1), of "map (g p) xs"] q by (auto simp: case_prod_unfold)
  have "\<exists>r. ofold (\<lambda>p r. do { xs \<leftarrow> q p; idm_insert_all (map (g p) xs) r }) ps r1 = Some r \<and>
      idm_wf idMin idMax r \<and> biSearch0 r = biSearch0 r1 \<union> {g p x | p x. p \<in> set ps \<and> x \<in> Q p}"
    by (rule Cons.IH [OF r1(2)]) (simp_all add: Cons.prems)
  moreover have "biSearch0 r1 \<union> {g p x | p x. p \<in> set ps \<and> x \<in> Q p} =
      biSearch0 r0 \<union> {g p' x | p' x. p' \<in> set (p # ps) \<and> x \<in> Q p'}"
    unfolding r1(3) list.set by (rule set_eqI) (simp only: Un_iff image_iff mem_Collect_eq insert_iff, blast)
  ultimately show ?case using r1 q by simp
qed simp

text \<open>
  The relation an id map stands for: its items, and the identity on the ids it has no item for when
  that is its not-found action.
\<close>

definition idm_rel :: "EDirection \<Rightarrow> id_mapper \<Rightarrow> int \<Rightarrow> int set" where
  "idm_rel dir m x = (if idm_image dir m x = {} \<and> nfa m = NFA_RETURN_IDENTITY then {x} else idm_image dir m x)"

definition idm_total :: "EDirection \<Rightarrow> id_mapper \<Rightarrow> int \<Rightarrow> bool" where
  "idm_total dir m x \<longleftrightarrow> idm_image dir m x \<noteq> {} \<or> nfa m \<noteq> NFA_TRAP_TO_DEBUGGER"

lemma idm_query_rel:
  assumes "idm_wf idMin idMax m" "idm_total dir m x"
  shows "\<exists>xs. idm_query idMin idMax dir [] x m = Some xs \<and> set xs = idm_rel dir m x"
  using idm_query_found [OF assms(1), of dir x] idm_query_not_found [OF assms(1), of dir x]
    finite_idm_image [OF assms(1), of dir x] assms(2)
  by (cases "idm_image dir m x = {}") (auto simp: idm_rel_def idm_total_def split: ENotFoundAction.splits)

lemma idm_rel_bounds:
  assumes "idm_wf idMin idMax m" "idMin \<le> x" "x \<le> idMax" "y \<in> idm_rel dir m x"
  shows "idMin \<le> y \<and> y \<le> idMax"
  using assms biSearch_bounds [OF assms(1)] by (auto simp: idm_rel_def idm_image_def split: if_splits)

lemma composite_fwd_ok:
  assumes wf: "idm_wf idMin idMax m" "idm_wf idMin idMax by" "idm_wf idMin idMax r0"
    and total: "\<And>a b. (a, b) \<in> biSearch dir m \<Longrightarrow> idm_total dir by b"
  shows "\<exists>r. composite_fwd idMin idMax dir by m r0 = Some r \<and> idm_wf idMin idMax r \<and>
    biSearch0 r = biSearch0 r0 \<union> {(a, c). \<exists>b. (a, b) \<in> biSearch dir m \<and> c \<in> idm_rel dir by b}"
proof -
  note fin = finite_biSearch [OF wf(1), of dir]
  note bnd = biSearch_bounds_fst [OF wf(1)] biSearch_bounds_snd [OF wf(1)]
  have "\<exists>r. composite_fwd idMin idMax dir by m r0 = Some r \<and> idm_wf idMin idMax r \<and>
      biSearch0 r = biSearch0 r0 \<union>
        {(fst p, x) | p x. p \<in> set (sorted_list_of_set (biSearch dir m)) \<and> x \<in> idm_rel dir by (snd p)}"
    unfolding composite_fwd_def
  proof (rule idm_loop_ok [OF wf(3)])
    fix p assume "p \<in> set (sorted_list_of_set (biSearch dir m))"
    then have p: "p \<in> biSearch dir m" by (simp add: fin)
    then have "idm_total dir by (snd p)" using total by (metis prod.collapse)
    then show "\<exists>xs. idm_query idMin idMax dir [] (snd p) by = Some xs \<and> set xs = idm_rel dir by (snd p)"
      by (rule idm_query_rel [OF wf(2)])
    fix x assume "x \<in> idm_rel dir by (snd p)"
    then show "idMin \<le> fst (fst p, x) \<and> fst (fst p, x) \<le> idMax \<and> idMin \<le> snd (fst p, x) \<and> snd (fst p, x) \<le> idMax"
      using bnd [OF p] idm_rel_bounds [OF wf(2), of "snd p" x dir] by simp
  qed
  also have "{(fst p, x) | p x. p \<in> set (sorted_list_of_set (biSearch dir m)) \<and> x \<in> idm_rel dir by (snd p)}
      = {(a, c). \<exists>b. (a, b) \<in> biSearch dir m \<and> c \<in> idm_rel dir by b}"
    using fin by force
  finally show ?thesis .
qed

lemma composite_rev_ok:
  assumes wf: "idm_wf idMin idMax m" "idm_wf idMin idMax by" "idm_wf idMin idMax r0"
    and total: "\<And>b c. (b, c) \<in> biSearch dir by \<Longrightarrow> idm_total (dir_flip dir) m b"
  shows "\<exists>r. composite_rev idMin idMax dir by m r0 = Some r \<and> idm_wf idMin idMax r \<and>
    biSearch0 r = biSearch0 r0 \<union> {(a, c). \<exists>b. (b, c) \<in> biSearch dir by \<and> a \<in> idm_rel (dir_flip dir) m b}"
proof -
  note fin = finite_biSearch [OF wf(2), of dir]
  note bnd = biSearch_bounds_fst [OF wf(2)] biSearch_bounds_snd [OF wf(2)]
  have "\<exists>r. composite_rev idMin idMax dir by m r0 = Some r \<and> idm_wf idMin idMax r \<and>
      biSearch0 r = biSearch0 r0 \<union>
        {(x, snd p) | p x. p \<in> set (sorted_list_of_set (biSearch dir by)) \<and> x \<in> idm_rel (dir_flip dir) m (fst p)}"
    unfolding composite_rev_def
  proof (rule idm_loop_ok [OF wf(3)])
    fix p assume "p \<in> set (sorted_list_of_set (biSearch dir by))"
    then have p: "p \<in> biSearch dir by" by (simp add: fin)
    then have "idm_total (dir_flip dir) m (fst p)" using total by (metis prod.collapse)
    then show "\<exists>xs. idm_query idMin idMax (dir_flip dir) [] (fst p) m = Some xs \<and>
        set xs = idm_rel (dir_flip dir) m (fst p)"
      by (rule idm_query_rel [OF wf(1)])
    fix x assume "x \<in> idm_rel (dir_flip dir) m (fst p)"
    then show "idMin \<le> fst (x, snd p) \<and> fst (x, snd p) \<le> idMax \<and> idMin \<le> snd (x, snd p) \<and> snd (x, snd p) \<le> idMax"
      using bnd [OF p] idm_rel_bounds [OF wf(1), of "fst p" x "dir_flip dir"] by simp
  qed
  also have "{(x, snd p) | p x. p \<in> set (sorted_list_of_set (biSearch dir by)) \<and> x \<in> idm_rel (dir_flip dir) m (fst p)}
      = {(a, c). \<exists>b. (b, c) \<in> biSearch dir by \<and> a \<in> idm_rel (dir_flip dir) m b}"
    using fin by force
  finally show ?thesis .
qed

lemma idm_install:
  assumes "idm_wf idMin idMax r" "biSearch0 r = S"
  shows "idm_wf idMin idMax (m\<lparr>nfa := a, biSearch0 := biSearch0 r, biSearch1 := biSearch1 r\<rparr>)"
    and "idm_wf idMin idMax (m\<lparr>nfa := a, biSearch0 := biSearch1 r, biSearch1 := biSearch0 r\<rparr>)"
    and "biSearch D_LEFT_TO_RIGHT (m\<lparr>nfa := a, biSearch0 := biSearch0 r, biSearch1 := biSearch1 r\<rparr>) = S"
    and "biSearch D_RIGHT_TO_LEFT (m\<lparr>nfa := a, biSearch0 := biSearch1 r, biSearch1 := biSearch0 r\<rparr>) = S"
  using assms by (auto simp: idm_wf_def)

lemma idm_composite_ok:
  assumes wf: "idm_wf idMin idMax m" "idm_wf idMin idMax by"
    and total: "\<And>a b. (a, b) \<in> biSearch dir m \<Longrightarrow> idm_total dir by b"
  shows "\<exists>m'. idm_composite idMin idMax dir by m = Some m' \<and> idm_wf idMin idMax m' \<and>
    nfa m' = (if nfa_rank (nfa by) < nfa_rank (nfa m) then nfa by else nfa m) \<and>
    biSearch dir m' = {(a, c). \<exists>b. (a, b) \<in> biSearch dir m \<and> c \<in> idm_rel dir by b} \<union>
      (if nfa m = NFA_RETURN_IDENTITY
       then {(a, c). \<exists>b. (b, c) \<in> biSearch dir by \<and> a \<in> idm_rel (dir_flip dir) m b} else {})"
proof -
  let ?F = "{(a, c). \<exists>b. (a, b) \<in> biSearch dir m \<and> c \<in> idm_rel dir by b}"
  let ?R = "if nfa m = NFA_RETURN_IDENTITY
     then {(a, c). \<exists>b. (b, c) \<in> biSearch dir by \<and> a \<in> idm_rel (dir_flip dir) m b} else {}"
  obtain r1 where r1: "composite_fwd idMin idMax dir by m (idm_new NFA_TRAP_TO_DEBUGGER) = Some r1"
    "idm_wf idMin idMax r1" "biSearch0 r1 = ?F"
    using composite_fwd_ok [OF wf idm_wf_new [of idMin idMax NFA_TRAP_TO_DEBUGGER], of dir] total
    by (auto simp: idm_new_def)
  obtain r2 where r2: "(if NFA_RETURN_IDENTITY = nfa m
      then composite_rev idMin idMax dir by m r1 else Some r1) = Some r2"
    "idm_wf idMin idMax r2" "biSearch0 r2 = ?F \<union> ?R"
  proof (cases "nfa m = NFA_RETURN_IDENTITY")
    case True
    then have "idm_total (dir_flip dir) m b" for b by (simp add: idm_total_def)
    from composite_rev_ok [OF wf r1(2) this] obtain r where "composite_rev idMin idMax dir by m r1 = Some r"
      "idm_wf idMin idMax r" "biSearch0 r = ?F \<union> ?R" by (auto simp: r1(3) True)
    with True show ?thesis by (intro that [of r]) simp_all
  qed (use r1 in \<open>auto intro: that\<close>)
  let ?a = "if nfa_rank (nfa by) < nfa_rank (nfa m) then nfa by else nfa m"
  have res: "idm_composite idMin idMax dir by m = Some (case dir of
      D_LEFT_TO_RIGHT \<Rightarrow> m\<lparr>nfa := ?a, biSearch0 := biSearch0 r2, biSearch1 := biSearch1 r2\<rparr>
    | D_RIGHT_TO_LEFT \<Rightarrow> m\<lparr>nfa := ?a, biSearch0 := biSearch1 r2, biSearch1 := biSearch0 r2\<rparr>)"
    unfolding idm_composite_def r1(1) bind.bind_lunit r2(1) Let_def by (rule refl)
  show ?thesis
  proof (cases dir)
    case D_LEFT_TO_RIGHT
    show ?thesis
      by (rule exI, intro conjI, rule res, unfold D_LEFT_TO_RIGHT EDirection.case,
          rule idm_install(1) [OF r2(2,3)], simp, rule idm_install(3) [OF r2(2) r2(3) [unfolded D_LEFT_TO_RIGHT]])
  next
    case D_RIGHT_TO_LEFT
    show ?thesis
      by (rule exI, intro conjI, rule res, unfold D_RIGHT_TO_LEFT EDirection.case,
          rule idm_install(2) [OF r2(2,3)], simp, rule idm_install(4) [OF r2(2) r2(3) [unfolded D_RIGHT_TO_LEFT]])
  qed
qed

section \<open>Properties\<close>

text \<open>
  C36: on a well-formed map, \<open>query\<close> appends to its destination exactly the ids the queried one is
  mapped to, in increasing order, and on an id with no item behaves as the not-found action says
  (trap, nothing, or the id itself), in both directions.
\<close>

theorem idm_query_exact:
  assumes "idm_wf idMin idMax m"
  shows "idm_query idMin idMax dir dst ident m =
    (let img = {b. (ident, b) \<in> biSearch dir m}
     in if img \<noteq> {} then Some (dst @ sorted_list_of_set img)
        else case nfa m of NFA_TRAP_TO_DEBUGGER \<Rightarrow> None | NFA_RETURN_NOTHING \<Rightarrow> Some dst
             | NFA_RETURN_IDENTITY \<Rightarrow> Some (dst @ [ident]))"
  using idm_query_found [OF assms] idm_query_not_found [OF assms]
  by (simp add: idm_image_def Let_def)

definition idm_example :: "ENotFoundAction \<Rightarrow> (int \<times> int) list \<Rightarrow> id_mapper" where
  "idm_example a ps = \<lparr>nfa = a, biSearch0 = set ps, biSearch1 = (\<lambda>(x, y). (y, x)) ` set ps\<rparr>"

lemma idm_example_wf:
  "\<forall>p \<in> set ps. idMin \<le> fst p \<and> fst p \<le> idMax \<and> idMin \<le> snd p \<and> snd p \<le> idMax \<Longrightarrow>
   idm_wf idMin idMax (idm_example a ps)"
  by (force simp: idm_wf_def idm_example_def)

theorem idm_query_exact_witness:
  "idm_query 0 100 D_LEFT_TO_RIGHT [1] 5 (idm_example NFA_RETURN_IDENTITY [(5, 9), (5, 7), (6, 8)]) = Some [1, 7, 9]"
proof -
  have img: "{b::int. b = 9 \<or> b = 7} = {7, 9}" by auto
  show ?thesis
    by (subst idm_query_exact) (rule idm_example_wf, simp, simp add: idm_example_def Let_def img)
qed

text \<open>
  C35: \<open>composite\<close> of two well-formed maps with the same not-found action, which is not the trap, does not trap if no item
  of the second map starts at an id that the first one renamed away (an id that is a source and no target of the first
  map).  The new map is well formed (its two search trees are converse to each other), it has the same not-found
  action, and it sends each id that is a source of the first map or none of its targets to what the second map makes
  of the images under the first one.
\<close>

theorem idm_composite_relational:
  assumes wf: "idm_wf idMin idMax m" "idm_wf idMin idMax by"
    and nfa: "nfa m = nfa by" "nfa m \<noteq> NFA_TRAP_TO_DEBUGGER"
    and clash: "\<forall>(b, c) \<in> biSearch dir by.
      idm_image dir m b \<noteq> {} \<longrightarrow> idm_image (dir_flip dir) m b \<noteq> {}"
  shows "\<exists>m'. idm_composite idMin idMax dir by m = Some m' \<and> idm_wf idMin idMax m' \<and> nfa m' = nfa m \<and>
    (\<forall>a. idm_image dir m a \<noteq> {} \<or> idm_image (dir_flip dir) m a = {} \<longrightarrow>
       idm_rel dir m' a = (\<Union>b \<in> idm_rel dir m a. idm_rel dir by b))"
proof -
  have "idm_total dir by b" for b using nfa by (simp add: idm_total_def)
  from idm_composite_ok [of idMin idMax m "by" dir, OF wf this] obtain m' where
    m': "idm_composite idMin idMax dir by m = Some m'" "idm_wf idMin idMax m'" "nfa m' = nfa m"
    and img: "biSearch dir m' = {(a, c). \<exists>b. (a, b) \<in> biSearch dir m \<and> c \<in> idm_rel dir by b} \<union>
      (if nfa m = NFA_RETURN_IDENTITY
       then {(a, c). \<exists>b. (b, c) \<in> biSearch dir by \<and> a \<in> idm_rel (dir_flip dir) m b} else {})"
    using nfa by auto
  have flip: "(b, a) \<in> biSearch (dir_flip dir) m \<longleftrightarrow> (a, b) \<in> biSearch dir m" for a b
    by (simp add: biSearch_flip [OF wf(1)])
  have "idm_rel dir m' a = (\<Union>b \<in> idm_rel dir m a. idm_rel dir by b)"
    if a: "idm_image dir m a \<noteq> {} \<or> idm_image (dir_flip dir) m a = {}" for a
  proof (cases "nfa m = NFA_RETURN_IDENTITY")
    case True
    have "idm_image dir m' a = {c. \<exists>b \<in> idm_image dir m a. c \<in> idm_rel dir by b} \<union>
        {c. \<exists>b. (b, c) \<in> biSearch dir by \<and> a \<in> idm_rel (dir_flip dir) m b}"
      using True by (auto simp: idm_image_def img)
    also have "{c. \<exists>b. (b, c) \<in> biSearch dir by \<and> a \<in> idm_rel (dir_flip dir) m b} =
        {c. \<exists>b \<in> idm_image dir m a. (b, c) \<in> biSearch dir by} \<union>
        (if idm_image dir m a = {} then idm_image dir by a else {})"
      using True a clash flip by (auto simp: idm_rel_def idm_image_def split: if_splits)
    finally have "idm_image dir m' a = {c. \<exists>b \<in> idm_image dir m a. c \<in> idm_rel dir by b} \<union>
        (if idm_image dir m a = {} then idm_image dir by a else {})"
      by (auto simp: idm_rel_def idm_image_def split: if_splits)
    moreover have "\<forall>b. \<exists>c. c \<in> idm_rel dir by b" using True nfa by (auto simp: idm_rel_def)
    ultimately have "idm_image dir m' a = {} \<longleftrightarrow> idm_image dir m a = {} \<and> idm_image dir by a = {}"
      and eq: "idm_image dir m' a = (if idm_image dir m a = {} then idm_image dir by a
        else \<Union>b \<in> idm_image dir m a. idm_rel dir by b)"
      by (auto, blast+)
    with True m'(3) nfa show ?thesis
      unfolding idm_rel_def [of _ m'] idm_rel_def [of _ m] by (simp add: idm_rel_def)
  next
    case False
    then have "idm_image dir m' a = {c. \<exists>b \<in> idm_image dir m a. c \<in> idm_rel dir by b}"
      by (auto simp: idm_image_def img)
    with False m'(3) nfa show ?thesis by (auto simp: idm_rel_def [of _ m'] idm_rel_def [of _ m])
  qed
  with m' show ?thesis by blast
qed

lemma idm_image_example:
  "idm_image D_LEFT_TO_RIGHT (idm_example a ps) x = set (map snd (filter (\<lambda>p. fst p = x) ps))"
  "idm_image D_RIGHT_TO_LEFT (idm_example a ps) x = set (map fst (filter (\<lambda>p. snd p = x) ps))"
  by (force simp: idm_image_def idm_example_def)+

theorem idm_composite_relational_witness:
  "\<exists>m'. idm_composite 0 100 D_LEFT_TO_RIGHT (idm_example NFA_RETURN_IDENTITY [(7, 9), (3, 4)])
       (idm_example NFA_RETURN_IDENTITY [(5, 7), (5, 8)]) = Some m' \<and> idm_wf 0 100 m' \<and>
     idm_rel D_LEFT_TO_RIGHT m' 5 = {8, 9} \<and> idm_rel D_LEFT_TO_RIGHT m' 3 = {4}"
proof -
  have "\<exists>m'. idm_composite 0 100 D_LEFT_TO_RIGHT (idm_example NFA_RETURN_IDENTITY [(7, 9), (3, 4)])
       (idm_example NFA_RETURN_IDENTITY [(5, 7), (5, 8)]) = Some m' \<and> idm_wf 0 100 m' \<and>
       nfa m' = nfa (idm_example NFA_RETURN_IDENTITY [(5, 7), (5, 8)]) \<and>
     (\<forall>a. idm_image D_LEFT_TO_RIGHT (idm_example NFA_RETURN_IDENTITY [(5, 7), (5, 8)]) a \<noteq> {} \<or>
        idm_image (dir_flip D_LEFT_TO_RIGHT) (idm_example NFA_RETURN_IDENTITY [(5, 7), (5, 8)]) a = {} \<longrightarrow>
        idm_rel D_LEFT_TO_RIGHT m' a =
          (\<Union>b \<in> idm_rel D_LEFT_TO_RIGHT (idm_example NFA_RETURN_IDENTITY [(5, 7), (5, 8)]) a.
             idm_rel D_LEFT_TO_RIGHT (idm_example NFA_RETURN_IDENTITY [(7, 9), (3, 4)]) b))"
    by (rule idm_composite_relational)
      (rule idm_example_wf, simp, rule idm_example_wf, simp, auto simp: idm_example_def idm_image_def)
  then obtain m' where m': "idm_composite 0 100 D_LEFT_TO_RIGHT (idm_example NFA_RETURN_IDENTITY [(7, 9), (3, 4)])
       (idm_example NFA_RETURN_IDENTITY [(5, 7), (5, 8)]) = Some m'" "idm_wf 0 100 m'"
    and rel: "\<And>a. idm_image D_LEFT_TO_RIGHT (idm_example NFA_RETURN_IDENTITY [(5, 7), (5, 8)]) a \<noteq> {} \<or>
        idm_image (dir_flip D_LEFT_TO_RIGHT) (idm_example NFA_RETURN_IDENTITY [(5, 7), (5, 8)]) a = {} \<Longrightarrow>
        idm_rel D_LEFT_TO_RIGHT m' a =
          (\<Union>b \<in> idm_rel D_LEFT_TO_RIGHT (idm_example NFA_RETURN_IDENTITY [(5, 7), (5, 8)]) a.
             idm_rel D_LEFT_TO_RIGHT (idm_example NFA_RETURN_IDENTITY [(7, 9), (3, 4)]) b)"
    by blast
  have "idm_rel D_LEFT_TO_RIGHT m' 5 = {8, 9}" "idm_rel D_LEFT_TO_RIGHT m' 3 = {4}"
    using rel [of 5] rel [of 3] by (auto simp: idm_rel_def idm_image_example) (simp_all add: idm_example_def)
  with m' show ?thesis by blast
qed

text \<open>
  The proviso of the last theorem is needed: when the second map has an item for an id that the first
  one renamed away, the reverse loop of \<open>composite\<close> adds that item to the result as well.
\<close>

theorem idm_composite_clash:
  "\<exists>m'. idm_composite 0 100 D_LEFT_TO_RIGHT (idm_example NFA_RETURN_IDENTITY [(5, 9)])
       (idm_example NFA_RETURN_IDENTITY [(5, 7)]) = Some m' \<and> biSearch0 m' = {(5, 7), (5, 9)}"
proof -
  let ?m = "idm_example NFA_RETURN_IDENTITY [(5, 7)]" and ?by = "idm_example NFA_RETURN_IDENTITY [(5, 9)]"
  have bi: "biSearch D_LEFT_TO_RIGHT ?m = {(5, 7)}" "biSearch D_LEFT_TO_RIGHT ?by = {(5, 9)}"
    "nfa ?m = NFA_RETURN_IDENTITY" by (simp_all add: idm_example_def)
  have rel: "idm_rel D_LEFT_TO_RIGHT ?by 7 = {7}" "idm_rel (dir_flip D_LEFT_TO_RIGHT) ?m 5 = {5}"
    by (simp_all add: idm_rel_def idm_image_example, simp_all add: idm_example_def)
  have wf: "idm_wf 0 100 ?m" "idm_wf 0 100 ?by" by (rule idm_example_wf, simp)+
  have "idm_total D_LEFT_TO_RIGHT ?by b" for b by (simp add: idm_total_def idm_example_def)
  from idm_composite_ok [OF wf this] obtain m' where
    "idm_composite 0 100 D_LEFT_TO_RIGHT ?by ?m = Some m'" and
    "biSearch D_LEFT_TO_RIGHT m' = {(a, c). \<exists>b. (a, b) \<in> biSearch D_LEFT_TO_RIGHT ?m \<and>
        c \<in> idm_rel D_LEFT_TO_RIGHT ?by b} \<union>
      {(a, c). \<exists>b. (b, c) \<in> biSearch D_LEFT_TO_RIGHT ?by \<and> a \<in> idm_rel (dir_flip D_LEFT_TO_RIGHT) ?m b}"
    unfolding bi(3) by (simp only: simp_thms if_True) blast
  moreover have "{(a, c). \<exists>b. (a, b) \<in> {(5, 7)} \<and> c \<in> idm_rel D_LEFT_TO_RIGHT ?by b} \<union>
      {(a, c). \<exists>b. (b, c) \<in> {(5, 9)} \<and> a \<in> idm_rel (dir_flip D_LEFT_TO_RIGHT) ?m b} = {(5, 7), (5, 9)}"
    using rel by auto
  ultimately show ?thesis unfolding bi by simp
qed

end
