(* ===== verification/HeapVals.thy ===== *)
theory HeapVals
  imports HeapEnts
begin

text \<open>
  Values of a symbolic heap: creation, duplication, custom values, offset values, range values, addresses of
  objects and the queries on them (\<open>src/sl/symheap.cc\<close>, \<open>src/sl/symutil.cc\<close>, \<open>src/sl/symutil.hh\<close>).
\<close>

section \<open>Queries\<close>

definition isValidEnt :: "int \<Rightarrow> sheap \<Rightarrow> bool" where
  "isValidEnt i h \<longleftrightarrow> ents h i \<noteq> None"

definition isValid :: "TObjId \<Rightarrow> sheap \<Rightarrow> bool option" where
  "isValid obj h = (if \<not> isValidEnt obj h then Some False else map_option reg_isValid (getRegion obj h))"

definition objSize :: "TObjId \<Rightarrow> sheap \<Rightarrow> range option" where
  "objSize obj h = map_option reg_size (getRegion obj h)"

definition objStorClass :: "TObjId \<Rightarrow> sheap \<Rightarrow> EStorageClass option" where
  "objStorClass obj h = (if obj = OBJ_INVALID then Some SC_INVALID else map_option reg_code (getRegion obj h))"

definition valOrigin :: "TValId \<Rightarrow> sheap \<Rightarrow> EValueOrigin option" where
  "valOrigin val h =
     (if val = VAL_INVALID then Some VO_INVALID
      else if val = VAL_NULL then Some VO_ASSIGNED
      else map_option val_origin (getVal val h))"

definition valTarget :: "TValId \<Rightarrow> sheap \<Rightarrow> EValueTarget option" where
  "valTarget val h = (if val < VAL_NULL then Some VT_INVALID else map_option val_code (getVal val h))"

definition rootAddr :: "base_value \<Rightarrow> sheap \<Rightarrow> (TObjId \<times> ETargetSpecifier) option" where
  "rootAddr v h = do { r \<leftarrow> getVal (val_root v) h; addr_of r }"

definition targetSpec :: "TValId \<Rightarrow> sheap \<Rightarrow> ETargetSpecifier option" where
  "targetSpec addr h =
     (if addr < VAL_NULL then Some TS_INVALID
      else do {
        v \<leftarrow> getVal addr h;
        if \<not> isAnyDataArea (val_code v) then Some TS_INVALID
        else map_option snd (rootAddr v h)
      })"

definition objByAddr :: "TValId \<Rightarrow> sheap \<Rightarrow> TObjId option" where
  "objByAddr val h =
     (if val < VAL_NULL then Some OBJ_INVALID
      else do {
        v \<leftarrow> getVal val h;
        if \<not> isAnyDataArea (val_code v) then Some OBJ_INVALID
        else map_option fst (rootAddr v h)
      })"

definition valRoot :: "TValId \<Rightarrow> sheap \<Rightarrow> TValId option" where
  "valRoot val h = (if val \<le> 0 then Some val else map_option val_root (getVal val h))"

definition valOffset :: "TValId \<Rightarrow> sheap \<Rightarrow> TOffset option" where
  "valOffset val h =
     (if val \<le> 0 then Some 0
      else do {
        v \<leftarrow> getVal val h;
        case val_code v of VT_RANGE \<Rightarrow> None | VT_CUSTOM \<Rightarrow> Some 0 | _ \<Rightarrow> Some (val_offRoot v)
      })"

definition valOffsetRange :: "TValId \<Rightarrow> sheap \<Rightarrow> range option" where
  "valOffsetRange val h =
     (if val < VAL_NULL then Some (rngFromNum 0)
      else do {
        v \<leftarrow> getVal val h;
        case val_code v of
          VT_RANGE \<Rightarrow>
            if val_anchor v = val then range_of v
            else do {
              a \<leftarrow> getVal (val_anchor v) h;
              r \<leftarrow> range_of a;
              cl_break_if (val_offRoot v = 0);
              r \<leftarrow> range_add r (rngFromNum (val_offRoot v));
              al \<leftarrow> isAligned r;
              cl_break_if al;
              Some r
            }
        | VT_CUSTOM \<Rightarrow> Some (rngFromNum 0)
        | _ \<Rightarrow> Some (rngFromNum (val_offRoot v))
      })"

definition isPossibleToDeref :: "TValId \<Rightarrow> sheap \<Rightarrow> bool option" where
  "isPossibleToDeref val h = do {
     code \<leftarrow> valTarget val h;
     if code = VT_RANGE then Some False
     else do { obj \<leftarrow> objByAddr val h; isValid obj h }
   }"

definition areValProtosEqual :: "sheap \<Rightarrow> sheap \<Rightarrow> TValId \<Rightarrow> TValId \<Rightarrow> bool option" where
  "areValProtosEqual h1 h2 v1 v2 =
     (if v1 = v2 then Some True
      else if v1 \<le> 0 \<or> v2 \<le> 0 then Some False
      else do {
        code1 \<leftarrow> valTarget v1 h1;
        code2 \<leftarrow> valTarget v2 h2;
        if VT_UNKNOWN \<noteq> code1 \<or> VT_UNKNOWN \<noteq> code2 then Some False
        else do {
          off1 \<leftarrow> valOffset v1 h1;
          off2 \<leftarrow> valOffset v2 h2;
          cl_break_if (off1 \<noteq> 0 \<or> off2 \<noteq> 0);
          origin1 \<leftarrow> valOrigin v1 h1;
          origin2 \<leftarrow> valOrigin v2 h2;
          Some (origin1 = origin2)
        }
      })"

text \<open>
  \<open>chkValueDeps\<close>, a check of the debug build: every value that depends on the anchor of an integral range has
  the range of the anchor shifted by its own offset.
\<close>

definition chkValueDeps :: "TValId \<Rightarrow> sheap \<Rightarrow> bool option" where
  "chkValueDeps val h = do {
     v \<leftarrow> getVal val h;
     if VT_CUSTOM \<noteq> val_code v then Some True
     else do {
       c \<leftarrow> custom_of v;
       case c of
         CV_INT_RANGE _ \<Rightarrow> do {
           a \<leftarrow> getVal (val_anchor v) h;
           ac \<leftarrow> custom_of a;
           rngAnchor \<leftarrow> cv_rng ac;
           let loUnbounded = (IntMin = lo rngAnchor);
           let hiUnbounded = (IntMax = hi rngAnchor);
           width \<leftarrow> (if loUnbounded \<or> hiUnbounded then Some 0 else widthOf rngAnchor);
           deps \<leftarrow> deps_of a;
           ofold (\<lambda>depVal ok. do {
             d \<leftarrow> getVal depVal h;
             dc \<leftarrow> custom_of d;
             rng \<leftarrow> cv_rng dc;
             cl_break_if (loUnbounded \<noteq> (IntMin = lo rng));
             cl_break_if (hiUnbounded \<noteq> (IntMax = hi rng));
             if loUnbounded \<or> hiUnbounded then Some ok
             else do {
               cl_break_if (lo rng - lo rngAnchor \<noteq> val_offRoot d);
               cl_break_if (hi rng - hi rngAnchor \<noteq> val_offRoot d);
               w \<leftarrow> widthOf rng;
               cl_break_if (width \<noteq> w);
               Some ok
             }
           }) deps True
         }
       | _ \<Rightarrow> Some True
     }
   }"

section \<open>Creation of values\<close>

definition valCreate :: "EValueTarget \<Rightarrow> EValueOrigin \<Rightarrow> sheap \<Rightarrow> (TValId \<times> sheap) option" where
  "valCreate code origin h =
     (case code of
        VT_INVALID \<Rightarrow> None
      | VT_OBJECT \<Rightarrow> None
      | VT_RANGE \<Rightarrow> None
      | VT_UNKNOWN \<Rightarrow> Some (assignVal (new_value code origin PlainValue) h)
      | VT_COMPOSITE \<Rightarrow> Some (assignVal (new_value code origin (CompValue FLD_INVALID)) h)
      | VT_CUSTOM \<Rightarrow> Some (assignVal (new_value code origin (InternalCustomValue [] CV_INVALID)) h))"

text \<open>\<open>SymHeapCore::valCreate\<close>, the public wrapper.\<close>

definition valCreate_pub :: "EValueTarget \<Rightarrow> EValueOrigin \<Rightarrow> sheap \<Rightarrow> (TValId \<times> sheap) option" where
  "valCreate_pub code origin h =
     (case code of
        VT_RANGE \<Rightarrow> valCreate VT_UNKNOWN origin h
      | VT_UNKNOWN \<Rightarrow> valCreate VT_UNKNOWN origin h
      | _ \<Rightarrow> None)"

definition valDup :: "TValId \<Rightarrow> sheap \<Rightarrow> (TValId \<times> sheap) option" where
  "valDup val h =
     (if val \<le> 0 then Some (val, h)
      else do { v \<leftarrow> getVal val h; Some (assignVal (v\<lparr>val_usedBy := {}\<rparr>) h) })"

definition valsEqual :: "TValId \<Rightarrow> TValId \<Rightarrow> sheap \<Rightarrow> bool option" where
  "valsEqual v1 v2 h =
     (if v1 = v2 then Some True
      else if v1 \<le> 0 \<or> v2 \<le> 0 then Some False
      else do {
        d1 \<leftarrow> getVal v1 h;
        d2 \<leftarrow> getVal v2 h;
        if VT_UNKNOWN \<noteq> val_code d1 \<or> VT_UNKNOWN \<noteq> val_code d2 then Some False
        else do {
          cl_break_if (val_offRoot d1 \<noteq> 0 \<or> val_offRoot d2 \<noteq> 0);
          Some (val_origin d1 = val_origin d2)
        }
      })"

text \<open>A fresh custom value that is not entered into the table of custom values.\<close>

definition wrapFresh :: "custom_value \<Rightarrow> sheap \<Rightarrow> (TValId \<times> sheap) option" where
  "wrapFresh cv h = do {
     (val, h) \<leftarrow> valCreate VT_CUSTOM VO_ASSIGNED h;
     h \<leftarrow> modVal val (\<lambda>v. v\<lparr>val_part := set_custom cv (val_part v)\<rparr>) h;
     Some (val, h)
   }"

text \<open>Lookup in the table of custom values, with a fresh value when there is none.\<close>

definition wrapShared :: "custom_value \<Rightarrow> sheap \<Rightarrow> (TValId \<times> sheap) option" where
  "wrapShared cv h = do {
     (val, m) \<leftarrow> cvm_lookup cv (cValueMap h);
     let h = h\<lparr>cValueMap := m\<rparr>;
     if VAL_INVALID \<noteq> val then Some (val, h)
     else do {
       (val, h) \<leftarrow> wrapFresh cv h;
       Some (val, h\<lparr>cValueMap := cvm_assign cv val (cValueMap h)\<rparr>)
     }
   }"

definition wrapIntVal :: "int \<Rightarrow> sheap \<Rightarrow> (TValId \<times> sheap) option" where
  "wrapIntVal num h = (if num = 0 then Some (VAL_NULL, h) else wrapShared (CV_INT_RANGE (rngFromNum num)) h)"

definition valWrapCustom :: "custom_value \<Rightarrow> sheap \<Rightarrow> (TValId \<times> sheap) option" where
  "valWrapCustom cVal h =
     (case cVal of
        CV_INT_RANGE rng \<Rightarrow> do {
          s \<leftarrow> isSingular rng;
          if s then wrapIntVal (lo rng) h else wrapFresh cVal h
        }
      | _ \<Rightarrow> wrapShared cVal h)"

definition valUnwrapCustom :: "TValId \<Rightarrow> sheap \<Rightarrow> custom_value option" where
  "valUnwrapCustom val h = do {
     v \<leftarrow> getVal val h;
     cv \<leftarrow> custom_of v;
     let check = do { (val', _) \<leftarrow> cvm_lookup cv (cValueMap h); cl_break_if (val \<noteq> val'); Some cv };
     case cv of
       CV_INT_RANGE rng \<Rightarrow> do {
         s \<leftarrow> isSingular rng;
         if \<not> s then Some cv
         else do { cl_break_if (lo rng = 0); check }
       }
     | _ \<Rightarrow> check
   }"

text \<open>\<open>numFromVal\<close> and \<open>rngFromVal\<close>: the inner \<open>None\<close> stands for the result \<open>false\<close>.\<close>

definition numFromVal :: "TValId \<Rightarrow> sheap \<Rightarrow> int option option" where
  "numFromVal val h =
     (if val = VAL_NULL then Some (Some 0)
      else if val = VAL_TRUE then Some (Some 1)
      else do {
        code \<leftarrow> valTarget val h;
        if code \<noteq> VT_CUSTOM then Some None
        else do {
          cv \<leftarrow> valUnwrapCustom val h;
          case cv of
            CV_INT_RANGE rng \<Rightarrow> do { s \<leftarrow> isSingular rng; Some (if s then Some (lo rng) else None) }
          | _ \<Rightarrow> Some None
        }
      })"

definition rngFromVal :: "TValId \<Rightarrow> sheap \<Rightarrow> range option option" where
  "rngFromVal val h = do {
     num \<leftarrow> numFromVal val h;
     case num of
       Some n \<Rightarrow> Some (Some (rngFromNum n))
     | None \<Rightarrow> do {
         root \<leftarrow> valRoot val h;
         if root = VAL_NULL then map_option Some (valOffsetRange val h)
         else do {
           code \<leftarrow> valTarget val h;
           if code \<noteq> VT_CUSTOM then Some None
           else do {
             cv \<leftarrow> valUnwrapCustom val h;
             case cv of CV_INT_RANGE rng \<Rightarrow> Some (Some rng) | _ \<Rightarrow> Some None
           }
         }
       }
   }"

definition anyRangeFromVal :: "TValId \<Rightarrow> sheap \<Rightarrow> range option option" where
  "anyRangeFromVal val h = do {
     r \<leftarrow> rngFromVal val h;
     case r of
       Some rng \<Rightarrow> Some (Some rng)
     | None \<Rightarrow> do {
         code \<leftarrow> valTarget val h;
         if isAnyDataArea code then map_option Some (valOffsetRange val h)
         else if code = VT_UNKNOWN then Some (Some FullRange)
         else Some None
       }
   }"

definition stringFromVal :: "TValId \<Rightarrow> sheap \<Rightarrow> string option option" where
  "stringFromVal val h = do {
     code \<leftarrow> valTarget val h;
     if code \<noteq> VT_CUSTOM then Some None
     else do {
       cv \<leftarrow> valUnwrapCustom val h;
       case cv of CV_STRING str \<Rightarrow> Some (Some str) | _ \<Rightarrow> Some None
     }
   }"

definition valSizeOfTarget :: "TValId \<Rightarrow> sheap \<Rightarrow> range option" where
  "valSizeOfTarget ad h = do {
     p \<leftarrow> isPossibleToDeref ad h;
     if \<not> p then Some (rngFromNum 0)
     else do {
       off \<leftarrow> valOffsetRange ad h;
       if lo off < 0 then Some (rngFromNum 0)
       else do {
         obj \<leftarrow> objByAddr ad h;
         valid \<leftarrow> isValid obj h;
         if \<not> valid then Some (rngFromNum 0)
         else do { sz \<leftarrow> objSize obj h; range_sub sz off }
       }
     }
   }"

section \<open>Offset values and addresses\<close>

definition valByOffset :: "TValId \<Rightarrow> TOffset \<Rightarrow> sheap \<Rightarrow> (TValId \<times> sheap) option" where
  "valByOffset ad off h =
     (if off = 0 \<or> ad < 0 then Some (ad, h)
      else do {
        v \<leftarrow> getVal ad h;
        let root = val_root v;
        let code = val_code v;
        let anchor = (if code = VT_RANGE then val_anchor v else root);
        let off = off + val_offRoot v;
        if off = 0 then Some (anchor, h)
        else if code = VT_UNKNOWN then valDup ad h
        else if code = VT_CUSTOM then None
        else do {
          a \<leftarrow> getVal anchor h;
          offMap \<leftarrow> offMap_of a;
          case omap_find offMap off of
            Some val \<Rightarrow> Some (val, h)
          | None \<Rightarrow> do {
              let (val, h) = assignVal (new_value code (val_origin v) PlainValue) h;
              h \<leftarrow> modVal val (\<lambda>o'. o'\<lparr>val_root := root, val_anchor := anchor, val_offRoot := off\<rparr>) h;
              a \<leftarrow> getVal anchor h;
              offMap \<leftarrow> offMap_of a;
              h \<leftarrow> modVal anchor (\<lambda>a. a\<lparr>val_part := set_offMap (omap_put off val offMap) (val_part a)\<rparr>) h;
              Some (val, h)
            }
        }
      })"

definition valByRange :: "TValId \<Rightarrow> range \<Rightarrow> sheap \<Rightarrow> (TValId \<times> sheap) option" where
  "valByRange ad rng h = do {
     s \<leftarrow> isSingular rng;
     if s then valByOffset ad (lo rng) h
     else do {
       obj \<leftarrow> objByAddr ad h;
       valid \<leftarrow> isValid obj h;
       if \<not> valid then valCreate VT_UNKNOWN VO_UNKNOWN h
       else do {
         v \<leftarrow> getVal ad h;
         let root = val_root v;
         rng \<leftarrow> range_add rng (rngFromNum (val_offRoot v));
         al \<leftarrow> isAligned rng;
         cl_break_if al;
         let (val, h) = assignVal (new_value VT_RANGE VO_ASSIGNED (RangeValue [] [] rng)) h;
         h \<leftarrow> modVal val (\<lambda>r. r\<lparr>val_root := root, val_anchor := val\<rparr>) h;
         r \<leftarrow> getVal root h;
         (_, _) \<leftarrow> addr_of r;
         deps \<leftarrow> deps_of r;
         h \<leftarrow> modVal root (\<lambda>r. r\<lparr>val_part := set_deps (deps @ [val]) (val_part r)\<rparr>) h;
         Some (val, h)
       }
     }
   }"

definition addrOfTarget :: "TObjId \<Rightarrow> ETargetSpecifier \<Rightarrow> TOffset \<Rightarrow> sheap \<Rightarrow> (TValId \<times> sheap) option" where
  "addrOfTarget obj ts off h =
     (if obj = OBJ_INVALID then Some (VAL_INVALID, h)
      else do {
        r \<leftarrow> getRegion obj h;
        (base, h) \<leftarrow> (case reg_addrByTS r ts of
            None \<Rightarrow> do {
              let (base, h) = assignVal (new_base_address obj ts) h;
              h \<leftarrow> modRegion obj (\<lambda>r. r\<lparr>reg_addrByTS := (reg_addrByTS r)(ts \<mapsto> base)\<rparr>) h;
              Some (base, h)
            }
          | Some base \<Rightarrow> Some (base, h));
        valByOffset base off h
      })"

definition shiftCustomValue :: "TValId \<Rightarrow> TOffset \<Rightarrow> sheap \<Rightarrow> (TValId \<times> sheap) option" where
  "shiftCustomValue ref shift h = do {
     ok \<leftarrow> chkValueDeps ref h;
     cl_break_if (\<not> ok);
     r \<leftarrow> getVal ref h;
     rc \<leftarrow> custom_of r;
     rngRef \<leftarrow> rngFromCustom rc;
     rng \<leftarrow> range_add rngRef (rngFromNum shift);
     (val, h) \<leftarrow> valCreate VT_CUSTOM VO_ASSIGNED h;
     h \<leftarrow> modVal val (\<lambda>v. v\<lparr>val_anchor := val_anchor r, val_offRoot := val_offRoot r + shift,
            val_part := set_custom (CV_INT_RANGE rng) (val_part v)\<rparr>) h;
     a \<leftarrow> getVal (val_anchor r) h;
     deps \<leftarrow> deps_of a;
     h \<leftarrow> modVal (val_anchor r) (\<lambda>a. a\<lparr>val_part := set_deps (deps @ [val]) (val_part a)\<rparr>) h;
     ok \<leftarrow> chkValueDeps val h;
     cl_break_if (\<not> ok);
     Some (val, h)
   }"

definition valShift :: "TValId \<Rightarrow> TValId \<Rightarrow> sheap \<Rightarrow> (TValId \<times> sheap) option" where
  "valShift valToShift shiftBy h =
     (if valToShift < 0 then Some (valToShift, h)
      else do {
        v \<leftarrow> getVal valToShift h;
        r \<leftarrow> rngFromVal shiftBy h;
        rng \<leftarrow> r;
        let code = val_code v;
        s \<leftarrow> isSingular rng;
        if s then
          (if code = VT_CUSTOM then shiftCustomValue valToShift (lo rng) h
           else valByOffset valToShift (lo rng) h)
        else do {
          p \<leftarrow> isPossibleToDeref valToShift h;
          if p then valByRange valToShift rng h
          else do {
            cl_break_if (VT_RANGE \<noteq> code);
            sd \<leftarrow> getVal shiftBy h;
            let offTotal = val_offRoot v + val_offRoot sd;
            case spm_chk (val_anchor v) (val_anchor sd) (coinDb h) of
              Some valResult \<Rightarrow> valByOffset valResult offTotal h
            | None \<Rightarrow> do {
                offRng \<leftarrow> valOffsetRange valToShift h;
                rngResult \<leftarrow> range_add rng offRng;
                (valResult, h) \<leftarrow> valByRange (val_root v) rngResult h;
                (valSum, h) \<leftarrow> valByOffset valResult (- offTotal) h;
                db \<leftarrow> spm_add (val_anchor v) (val_anchor sd) valSum (coinDb h);
                Some (valResult, h\<lparr>coinDb := db\<rparr>)
              }
          }
        }
      })"

definition bindValues :: "TValId \<Rightarrow> TValId \<Rightarrow> TValId \<Rightarrow> sheap \<Rightarrow> sheap option" where
  "bindValues v1 v2 valSum h = do {
     d1 \<leftarrow> getVal v1 h;
     d2 \<leftarrow> getVal v2 h;
     cl_break_if (val_offRoot d1 \<noteq> 0 \<or> val_offRoot d2 \<noteq> 0);
     db \<leftarrow> spm_add (val_anchor d1) (val_anchor d2) valSum (coinDb h);
     Some (h\<lparr>coinDb := db\<rparr>)
   }"

definition diffPointers :: "TValId \<Rightarrow> TValId \<Rightarrow> sheap \<Rightarrow> (TValId \<times> sheap) option" where
  "diffPointers v1 v2 h = do {
     root1 \<leftarrow> valRoot v1 h;
     root2 \<leftarrow> valRoot v2 h;
     if root1 \<noteq> root2 then valCreate VT_UNKNOWN VO_UNKNOWN h
     else do {
       off1 \<leftarrow> valOffsetRange v1 h;
       off2 \<leftarrow> valOffsetRange v2 h;
       rng \<leftarrow> range_sub off1 off2;
       (valDiff, h) \<leftarrow> valWrapCustom (CV_INT_RANGE rng) h;
       s \<leftarrow> isSingular rng;
       if s then Some (valDiff, h)
       else do { h \<leftarrow> bindValues v2 valDiff v1 h; Some (valDiff, h) }
     }
   }"

definition valGetComposite :: "TValId \<Rightarrow> sheap \<Rightarrow> TFldId option" where
  "valGetComposite val h = do {
     v \<leftarrow> getVal val h;
     cl_break_if (VT_COMPOSITE \<noteq> val_code v);
     case val_part v of CompValue fld \<Rightarrow> Some fld | _ \<Rightarrow> None
   }"

end
