(* ===== verification/HeapFields.thy ===== *)
theory HeapFields
  imports HeapVals
begin

text \<open>
  Fields and blocks of objects: the has-value edges of a symbolic heap with their back references, data
  reinterpretation of overlapping fields, uniform blocks, and the operations of \<open>src/sl/symheap.cc\<close> that
  read and write them.  A \<open>TValSet *killedPtrs\<close> argument is an \<open>option\<close>, \<open>None\<close> for a null pointer.
\<close>

type_synonym killed = "TValId set option"

definition kill_ptr :: "bool \<Rightarrow> TValId \<Rightarrow> killed \<Rightarrow> killed" where
  "kill_ptr wasPtr val kp = (if wasPtr then map_option (insert val) kp else kp)"

section \<open>Arena helpers\<close>

definition createArenaItem :: "TOffset \<Rightarrow> TSizeOf \<Rightarrow> TFldId \<Rightarrow> chunk \<times> TFldId" where
  "createArenaItem off sz fld = ((off, off + sz), fld)"

definition arena_plus :: "chunk \<times> TFldId \<Rightarrow> TFldId arena \<Rightarrow> TFldId arena option" where
  "arena_plus item = arena_add (fst item) (snd item)"

definition arena_minus :: "chunk \<times> TFldId \<Rightarrow> TFldId arena \<Rightarrow> TFldId arena option" where
  "arena_minus item = arena_sub (fst item) (snd item)"

text \<open>\<open>arenaLookup\<close> into an empty destination; the result of the code tells whether the set is non-empty.\<close>

definition arenaLookup :: "TFldId arena \<Rightarrow> chunk \<Rightarrow> TFldId \<Rightarrow> TFldId set option" where
  "arenaLookup arena ch fld = do {
     dst \<leftarrow> arena_intersects {} ch arena;
     Some (if FLD_INVALID \<noteq> fld then dst - {fld} else dst)
   }"

definition arenaLookForExactMatch :: "TFldId arena \<Rightarrow> chunk \<Rightarrow> TFldId set" where
  "arenaLookForExactMatch arena ch = arena_exactMatch {} ch arena"

definition createChunk :: "stor \<Rightarrow> TOffset \<Rightarrow> TObjType \<Rightarrow> chunk option" where
  "createChunk st off t = do {
     ty \<leftarrow> clt_at st t;
     cl_break_if (clt_code ty = CL_TYPE_VOID);
     Some (off, off + clt_size ty)
   }"

definition modArena :: "TObjId \<Rightarrow> (TFldId arena \<Rightarrow> TFldId arena option) \<Rightarrow> sheap \<Rightarrow> sheap option" where
  "modArena obj f h = do {
     r \<leftarrow> getRegion obj h;
     a \<leftarrow> f (reg_arena r);
     modRegion obj (\<lambda>r. r\<lparr>reg_arena := a\<rparr>) h
   }"

definition modLive :: "TObjId \<Rightarrow> ((TFldId, EBlockKind) omap \<Rightarrow> (TFldId, EBlockKind) omap) \<Rightarrow> sheap \<Rightarrow> sheap option" where
  "modLive obj f = modRegion obj (\<lambda>r. r\<lparr>reg_liveFields := f (reg_liveFields r)\<rparr>)"

text \<open>\<open>chkArenaConsistency\<close>, a check of the debug build.\<close>

definition chkArenaConsistency :: "TObjId \<Rightarrow> bool \<Rightarrow> sheap \<Rightarrow> bool option" where
  "chkArenaConsistency obj allowOverlap h = do {
     r \<leftarrow> getRegion obj h;
     if bypassSelfChecks h then Some True
     else if \<not> reg_isValid r then Some (reg_liveFields r = [])
     else do {
       _ \<leftarrow> ofold (\<lambda>(fld, code) offs. do {
           b \<leftarrow> getBlock fld h;
           cl_break_if (blk_size b = 0);
           if allowOverlap then Some offs
           else if BK_UNIFORM \<noteq> code then Some offs
           else do { cl_break_if (blk_off b \<in> offs); Some (insert (blk_off b) offs) }
         }) (reg_liveFields r) {};
       overlaps \<leftarrow> arenaLookup (reg_arena r) (0, hi (reg_size r)) FLD_INVALID;
       Some (fst ` set (reg_liveFields r) \<subseteq> overlaps)
     }
   }"

definition assertArena :: "TObjId \<Rightarrow> bool \<Rightarrow> sheap \<Rightarrow> unit option" where
  "assertArena obj allowOverlap h = do {
     ok \<leftarrow> chkArenaConsistency obj allowOverlap h;
     cl_break_if (\<not> ok)
   }"

section \<open>Back references\<close>

text \<open>Killing the \<open>Neq\<close> predicates of a value that is not used any more.\<close>

definition killNeqs :: "TValId \<Rightarrow> sheap \<Rightarrow> sheap option" where
  "killNeqs val h = do {
     db \<leftarrow> ofold (\<lambda>valNeq db. map_option snd (sps_del True valNeq val db))
             (neq_gatherRelatedValues [] val (neqDb h)) (neqDb h);
     Some (h\<lparr>neqDb := db\<rparr>)
   }"

definition releaseValueOf :: "TFldId \<Rightarrow> TValId \<Rightarrow> sheap \<Rightarrow> (bool \<times> sheap) option" where
  "releaseValueOf fld val h =
     (if val \<le> 0 then Some (False, h)
      else do {
        v \<leftarrow> getVal val h;
        cl_break_if (fld \<notin> val_usedBy v);
        h \<leftarrow> modVal val (\<lambda>v. v\<lparr>val_usedBy := val_usedBy v - {fld}\<rparr>) h;
        h \<leftarrow> (if val_usedBy v - {fld} = {} then killNeqs val h else Some h);
        if \<not> isAnyDataArea (val_code v) then Some (False, h)
        else do {
          (obj, _) \<leftarrow> rootAddr v h;
          r \<leftarrow> getRegion obj h;
          cl_break_if (fld \<notin> reg_usedByGl r);
          h \<leftarrow> modRegion obj (\<lambda>r. r\<lparr>reg_usedByGl := reg_usedByGl r - {fld}\<rparr>) h;
          Some (True, h)
        }
      })"

definition registerValueOf :: "TFldId \<Rightarrow> TValId \<Rightarrow> sheap \<Rightarrow> sheap option" where
  "registerValueOf fld val h =
     (if val \<le> 0 then Some h
      else do {
        v \<leftarrow> getVal val h;
        h \<leftarrow> modVal val (\<lambda>v. v\<lparr>val_usedBy := insert fld (val_usedBy v)\<rparr>) h;
        if \<not> isAnyDataArea (val_code v) then Some h
        else do {
          (obj, _) \<leftarrow> rootAddr v h;
          modRegion obj (\<lambda>r. r\<lparr>reg_usedByGl := insert fld (reg_usedByGl r)\<rparr>) h
        }
      })"

section \<open>Destruction of fields and splitting of blocks\<close>

definition fldDestroy :: "TFldId \<Rightarrow> bool \<Rightarrow> bool \<Rightarrow> sheap \<Rightarrow> sheap option" where
  "fldDestroy fld removeVal detach h = do {
     b \<leftarrow> getBlock fld h;
     let code = blk_code b;
     h \<leftarrow> (if removeVal \<and> BK_UNIFORM \<noteq> code then do {
              (_, h) \<leftarrow> releaseValueOf fld (blk_value b) h;
              modBlock fld (\<lambda>b. b\<lparr>blk_value := VAL_INVALID\<rparr>) h
            } else Some h);
     h \<leftarrow> (if detach then do {
              assertArena (blk_obj b) True h;
              h \<leftarrow> modArena (blk_obj b) (arena_minus (createArenaItem (blk_off b) (blk_size b) fld)) h;
              r \<leftarrow> getRegion (blk_obj b) h;
              cl_break_if (omap_find (reg_liveFields r) fld \<noteq> None);
              assertArena (blk_obj b) True h;
              Some h
            } else Some h);
     keep \<leftarrow> (if BK_UNIFORM \<noteq> code then do { f \<leftarrow> blk_fld b; Some (0 < extRefCnt f) } else Some False);
     if keep then Some h else Some (releaseEnt fld h)
   }"

definition splitBlockByObject :: "TFldId \<Rightarrow> TFldId \<Rightarrow> sheap \<Rightarrow> sheap option" where
  "splitBlockByObject block fld h = do {
     bl \<leftarrow> getBlock block h;
     hb \<leftarrow> getBlock fld h;
     same \<leftarrow> (if blk_code hb = BK_FIELD then valsEqual (blk_value bl) (blk_value hb) h else Some False);
     if same then Some h
     else do {
       let obj = blk_obj bl;
       cl_break_if (obj \<noteq> blk_obj hb);
       assertArena obj True h;
       let blOff = blk_off bl;
       let objOff = blk_off hb;
       let blSize = blk_size bl;
       let fldSize = blk_size hb;
       let blBegToObjBeg = objOff - blOff;
       let objEndToBlEnd = blSize - fldSize - blBegToObjBeg;
       if blBegToObjBeg \<le> 0 \<and> objEndToBlEnd \<le> 0 then do {
         r \<leftarrow> getRegion obj h;
         cl_break_if (omap_find (reg_liveFields r) block = None);
         h \<leftarrow> modLive obj (omap_erase block) h;
         h \<leftarrow> modArena obj (arena_minus (createArenaItem blOff blSize block)) h;
         Some (releaseEnt block h)
       }
       else if 0 < blBegToObjBeg \<and> 0 < objEndToBlEnd then do {
         let (blOther, h) = assignBlock (bl\<lparr>blk_size := objEndToBlEnd, blk_off := objOff + fldSize\<rparr>) h;
         h \<leftarrow> modBlock block (\<lambda>b. b\<lparr>blk_size := blBegToObjBeg\<rparr>) h;
         h \<leftarrow> modArena obj (arena_minus (createArenaItem (blOff + blBegToObjBeg) (fldSize + objEndToBlEnd) block)) h;
         h \<leftarrow> modArena obj (arena_plus (createArenaItem (objOff + fldSize) objEndToBlEnd blOther)) h;
         modLive obj (omap_put blOther BK_UNIFORM) h
       }
       else do {
         let diff = blOff - objOff;
         let shiftBeg = (0 \<le> diff);
         let beg = (if shiftBeg then blOff else objOff);
         let trim = (if shiftBeg then fldSize - diff else blSize + diff);
         h \<leftarrow> modBlock block (\<lambda>b. b\<lparr>blk_size := blk_size b - trim,
                blk_off := (if shiftBeg then blk_off b + trim else blk_off b)\<rparr>) h;
         cl_break_if (trim \<le> 0 \<or> blSize - trim = 0);
         modArena obj (arena_minus (createArenaItem beg trim block)) h
       }
     }
   }"

section \<open>Data reinterpretation\<close>

definition isCoveredByBlock :: "stor \<Rightarrow> block_ent \<times> field_part \<Rightarrow> block_ent \<Rightarrow> bool option" where
  "isCoveredByBlock st fd bl =
     (if blk_off (fst fd) < blk_off bl then Some False
      else do {
        ty \<leftarrow> clt_at st (clt (snd fd));
        Some (blk_off (fst fd) + clt_size ty \<le> blk_off bl + blk_size bl)
      })"

definition isChar :: "stor \<Rightarrow> TObjType \<Rightarrow> bool option" where
  "isChar st t = do { ty \<leftarrow> clt_at st t; Some (CL_TYPE_INT = clt_code ty \<and> 1 = clt_size ty) }"

definition isString :: "stor \<Rightarrow> TObjType \<Rightarrow> bool option" where
  "isString st t = do {
     ty \<leftarrow> clt_at st t;
     if CL_TYPE_ARRAY \<noteq> clt_code ty then Some False
     else do { tgt \<leftarrow> targetTypeOfArray st t; isChar st tgt }
   }"

definition canReinterpretPtr :: "stor \<Rightarrow> TObjType \<Rightarrow> TObjType \<Rightarrow> bool option" where
  "canReinterpretPtr st cltDst cltSrc = do {
     d \<leftarrow> clt_at st cltDst;
     s \<leftarrow> clt_at st cltSrc;
     Some (clt_size d = clt_size s \<and>
       ((CL_TYPE_PTR = clt_code s \<and> CL_TYPE_INT = clt_code d) \<or>
        (CL_TYPE_INT = clt_code s \<and> CL_TYPE_PTR = clt_code d)))
   }"

text \<open>
  A \<open>char\<close> of the analysed program is a signed byte.  \<open>c_str\<close> cuts a string at its first zero byte.  Writing
  a non-zero character at the position of the terminating zero is undefined in C++, hence a trap.
\<close>

definition int_of_char :: "char \<Rightarrow> int" where
  "int_of_char c = signed_take_bit 7 (of_char c)"

definition char_of_int :: "int \<Rightarrow> char" where
  "char_of_int n = char_of (n mod 256)"

definition c_str :: "string \<Rightarrow> string" where
  "c_str s = takeWhile (\<lambda>c. c \<noteq> CHR 0x00) s"

text \<open>The destination value after a successful write, \<open>None\<close> when the code returns \<open>false\<close>.\<close>

definition writeCharToString :: "TValId \<Rightarrow> TValId \<Rightarrow> TOffset \<Rightarrow> sheap \<Rightarrow> (TValId option \<times> sheap) option" where
  "writeCharToString valDst valToWrite pos h =
     (if VAL_INVALID = valDst then Some (None, h)
      else do {
        d \<leftarrow> getVal valDst h;
        if VT_CUSTOM \<noteq> val_code d then Some (None, h)
        else do {
          c \<leftarrow> custom_of d;
          str \<leftarrow> cv_str c;
          cl_break_if (int (length str) < pos \<or> pos < 0);
          new \<leftarrow> (if VAL_NULL = valToWrite then Some (Some (take (nat pos) str))
                  else do {
                    v \<leftarrow> getVal valToWrite h;
                    if VT_CUSTOM \<noteq> val_code v then Some None
                    else do {
                      n \<leftarrow> custom_of v;
                      rng \<leftarrow> cv_rng n;
                      s \<leftarrow> isSingular rng;
                      if \<not> s then Some None
                      else do {
                        cl_break_if (int (length str) = pos);
                        Some (Some (str[nat pos := char_of_int (lo rng)]))
                      }
                    }
                  });
          case new of
            None \<Rightarrow> Some (None, h)
          | Some str \<Rightarrow> do {
              (valStr, h) \<leftarrow> wrapShared (CV_STRING (c_str str)) h;
              Some (Some valStr, h)
            }
        }
      })"

text \<open>\<open>reinterpretSingleObj\<close>: the field \<open>dst\<close> gets a value derived from the block \<open>src\<close>, if possible.\<close>

definition reinterpretSingleObj :: "TFldId \<Rightarrow> TFldId \<Rightarrow> sheap \<Rightarrow> (bool \<times> sheap) option" where
  "reinterpretSingleObj dst src h = do {
     (db, df) \<leftarrow> getField dst h;
     sb \<leftarrow> getBlock src h;
     cl_break_if (blk_obj sb \<noteq> blk_obj db);
     if BK_FIELD \<noteq> blk_code sb then Some (False, h)
     else do {
       sf \<leftarrow> blk_fld sb;
       let valSrc = blk_value sb;
       if VAL_INVALID = valSrc then Some (False, h)
       else do {
         v \<leftarrow> getVal valSrc h;
         let st = storOf h;
         let cltSrc = clt sf;
         let cltDst = clt df;
         strSrc \<leftarrow> isString st cltSrc;
         chrDst \<leftarrow> (if strSrc then isChar st cltDst else Some False);
         if strSrc \<and> chrDst then do {
           c \<leftarrow> custom_of v;
           let off = blk_off db - blk_off sb;
           ty \<leftarrow> clt_at st cltSrc;
           cl_break_if (clt_size ty \<le> off \<or> off < 0);
           str \<leftarrow> cv_str c;
           let num = (if off < int (length str) then int_of_char (str ! nat off) else 0);
           (val, h) \<leftarrow> wrapIntVal num h;
           h \<leftarrow> modBlock dst (\<lambda>b. b\<lparr>blk_value := val\<rparr>) h;
           Some (True, h)
         }
         else do {
           chrSrc \<leftarrow> isChar st cltSrc;
           strDst \<leftarrow> (if chrSrc then isString st cltDst else Some False);
           if chrSrc \<and> strDst then do {
             (res, h) \<leftarrow> writeCharToString (blk_value db) valSrc (blk_off sb - blk_off db) h;
             case res of
               None \<Rightarrow> Some (False, h)
             | Some val \<Rightarrow> do { h \<leftarrow> modBlock dst (\<lambda>b. b\<lparr>blk_value := val\<rparr>) h; Some (True, h) }
           }
           else do {
             can \<leftarrow> (if VT_OBJECT = val_code v then canReinterpretPtr st cltDst cltSrc else Some False);
             if can then do { h \<leftarrow> modBlock dst (\<lambda>b. b\<lparr>blk_value := valSrc\<rparr>) h; Some (True, h) }
             else Some (False, h)
           }
         }
       }
     }
   }"

text \<open>The new value of a field \<open>old\<close> that is overwritten by the block or field \<open>fld\<close>.\<close>

definition reinterpretValue :: "TFldId \<Rightarrow> TFldId \<Rightarrow> sheap \<Rightarrow> sheap option" where
  "reinterpretValue old fld h = do {
     od \<leftarrow> getField old h;
     bl \<leftarrow> getBlock fld h;
     covered \<leftarrow> (case blk_code bl of
         BK_UNIFORM \<Rightarrow> isCoveredByBlock (storOf h) od bl
       | BK_FIELD \<Rightarrow> Some False
       | _ \<Rightarrow> None);
     if covered then do {
       (val, h) \<leftarrow> valDup (blk_value bl) h;
       modBlock old (\<lambda>b. b\<lparr>blk_value := val\<rparr>) h
     }
     else do {
       (ok, h) \<leftarrow> reinterpretSingleObj old fld h;
       if ok then Some h
       else do {
         (val, h) \<leftarrow> valCreate VT_UNKNOWN VO_REINTERPRET h;
         modBlock old (\<lambda>b. b\<lparr>blk_value := val\<rparr>) h
       }
     }
   }"

definition reinterpretObjData :: "TFldId \<Rightarrow> TFldId \<Rightarrow> killed \<Rightarrow> sheap \<Rightarrow> (killed \<times> sheap) option" where
  "reinterpretObjData old fld kp h = do {
     bl \<leftarrow> getBlock old h;
     case blk_code bl of
       BK_COMPOSITE \<Rightarrow> Some (kp, h)
     | BK_UNIFORM \<Rightarrow> do { h \<leftarrow> splitBlockByObject old fld h; Some (kp, h) }
     | BK_INVALID \<Rightarrow> None
     | BK_FIELD \<Rightarrow> do {
         f \<leftarrow> blk_fld bl;
         let valOld = blk_value bl;
         (wasPtr, h) \<leftarrow> releaseValueOf old valOld h;
         let kp = kill_ptr wasPtr valOld kp;
         assertArena (blk_obj bl) True h;
         h \<leftarrow> reinterpretValue old fld h;
         h \<leftarrow> modLive (blk_obj bl) (omap_erase old) h;
         if extRefCnt f = 0 then do { h \<leftarrow> fldDestroy old False True h; Some (kp, h) }
         else do {
           bl \<leftarrow> getBlock old h;
           h \<leftarrow> registerValueOf old (blk_value bl) h;
           Some (kp, h)
         }
       }
   }"

section \<open>Assignment and creation\<close>

definition reinterpretAll :: "TFldId set \<Rightarrow> TFldId \<Rightarrow> killed \<Rightarrow> sheap \<Rightarrow> (killed \<times> sheap) option" where
  "reinterpretAll overlaps fld kp h =
     ofold (\<lambda>old (kp, h). reinterpretObjData old fld kp h) (sorted_list_of_set overlaps) (kp, h)"

definition setValueOf :: "TFldId \<Rightarrow> TValId \<Rightarrow> killed \<Rightarrow> sheap \<Rightarrow> (killed \<times> sheap) option" where
  "setValueOf fld val kp h = do {
     (b, f) \<leftarrow> getField fld h;
     let valOld = blk_value b;
     if valOld = val then Some (kp, h)
     else do {
       (wasPtr, h) \<leftarrow> releaseValueOf fld valOld h;
       let kp = kill_ptr wasPtr valOld kp;
       h \<leftarrow> modBlock fld (\<lambda>b. b\<lparr>blk_value := val\<rparr>) h;
       h \<leftarrow> registerValueOf fld val h;
       ty \<leftarrow> clt_at (storOf h) (clt f);
       h \<leftarrow> modArena (blk_obj b) (arena_plus (createArenaItem (blk_off b) (clt_size ty) fld)) h;
       r \<leftarrow> getRegion (blk_obj b) h;
       ch \<leftarrow> createChunk (storOf h) (blk_off b) (clt f);
       overlaps \<leftarrow> arenaLookup (reg_arena r) ch fld;
       (kp, h) \<leftarrow> reinterpretAll overlaps fld kp h;
       assertArena (blk_obj b) False h;
       Some (kp, h)
     }
   }"

definition fldCreate :: "TObjId \<Rightarrow> TOffset \<Rightarrow> TObjType \<Rightarrow> sheap \<Rightarrow> (TFldId \<times> sheap) option" where
  "fldCreate obj off t h = do {
     b \<leftarrow> new_field (storOf h) obj off t;
     let (fld, h) = assignBlock b h;
     h \<leftarrow> modArena obj (arena_plus (createArenaItem off (blk_size b) fld)) h;
     assertArena obj False h;
     Some (fld, h)
   }"

text \<open>The overlapping blocks that \<open>fldInit\<close> may take its value from: the first one is used.\<close>

definition initSource :: "TFldId set \<Rightarrow> region \<Rightarrow> sheap \<Rightarrow> TFldId option option" where
  "initSource overlaps r h = ofold (\<lambda>other found.
       case found of
         Some x \<Rightarrow> Some (Some x)
       | None \<Rightarrow> do {
           b \<leftarrow> getBlock other h;
           if BK_UNIFORM \<noteq> blk_code b \<and> omap_find (reg_liveFields r) other = None then Some None
           else Some (Some other)
         }) (sorted_list_of_set overlaps) None"

definition fldInit :: "TFldId \<Rightarrow> sheap \<Rightarrow> (TValId \<times> sheap) option" where
  "fldInit fld h = do {
     (b, f) \<leftarrow> getField fld h;
     cl_break_if (extRefCnt f = 0);
     let obj = blk_obj b;
     r \<leftarrow> getRegion obj h;
     assertArena obj False h;
     ch \<leftarrow> createChunk (storOf h) (blk_off b) (clt f);
     overlaps \<leftarrow> arenaLookup (reg_arena r) ch fld;
     src \<leftarrow> initSource overlaps r h;
     case src of
       Some other \<Rightarrow> do {
         (_, h) \<leftarrow> reinterpretObjData fld other None h;
         assertArena obj False h;
         b \<leftarrow> getBlock fld h;
         Some (blk_value b, h)
       }
     | None \<Rightarrow> do {
         (val, h) \<leftarrow> valCreate VT_UNKNOWN VO_UNKNOWN h;
         h \<leftarrow> modBlock fld (\<lambda>b. b\<lparr>blk_value := val\<rparr>) h;
         h \<leftarrow> modLive obj (omap_put fld BK_FIELD) h;
         assertArena obj False h;
         h \<leftarrow> modVal val (\<lambda>v. v\<lparr>val_usedBy := insert fld (val_usedBy v)\<rparr>) h;
         Some (val, h)
       }
   }"

definition valueOf :: "TFldId \<Rightarrow> sheap \<Rightarrow> (TValId \<times> sheap) option" where
  "valueOf fld h =
     (if fld = FLD_UNKNOWN \<or> fld = FLD_INVALID then Some (VAL_INVALID, h)
      else if fld = FLD_DEREF_FAILED then valCreate VT_UNKNOWN VO_DEREF_FAILED h
      else do {
        (b, f) \<leftarrow> getField fld h;
        if VAL_INVALID \<noteq> blk_value b then Some (blk_value b, h)
        else do {
          comp \<leftarrow> isComposite (storOf h) (clt f) True;
          if comp then do {
            (val, h) \<leftarrow> valCreate VT_COMPOSITE VO_INVALID h;
            h \<leftarrow> modVal val (\<lambda>v. v\<lparr>val_part := CompValue fld\<rparr>) h;
            h \<leftarrow> modBlock fld (\<lambda>b. b\<lparr>blk_value := val\<rparr>) h;
            h \<leftarrow> modVal val (\<lambda>v. v\<lparr>val_usedBy := insert fld (val_usedBy v)\<rparr>) h;
            Some (val, h)
          }
          else fldInit fld h
        }
      })"

definition setValOfField :: "TFldId \<Rightarrow> TValId \<Rightarrow> killed \<Rightarrow> sheap \<Rightarrow> (killed \<times> sheap) option" where
  "setValOfField fld val kp h = do {
     (b, f) \<leftarrow> getField fld h;
     code \<leftarrow> valTarget val h;
     cl_break_if (VT_COMPOSITE = code);
     k \<leftarrow> bkFromClt (storOf h) (clt f);
     h \<leftarrow> modLive (blk_obj b) (omap_put fld k) h;
     setValueOf fld val kp h
   }"

end
