(* ===== verification/HeapObjs.thy ===== *)
theory HeapObjs
  imports HeapFields
begin

text \<open>
  Objects of a symbolic heap: allocation, cloning, resizing and invalidation, program variables, field lookup,
  uniform blocks, raw memory, \<open>Neq\<close> predicates and coincidences (\<open>src/sl/symheap.cc\<close>), and the helpers of
  \<open>src/sl/symutil.cc\<close> that redirect and translate values.
\<close>

section \<open>External references to fields\<close>

definition fldEnter :: "TFldId \<Rightarrow> sheap \<Rightarrow> sheap option" where
  "fldEnter fld h = do {
     (b, f) \<leftarrow> getField fld h;
     cl_break_if (extRefCnt f < 0);
     modBlock fld (\<lambda>b. b\<lparr>blk_fld := Some (f\<lparr>extRefCnt := extRefCnt f + 1\<rparr>)\<rparr>) h
   }"

text \<open>With \<open>SH_DELAYED_FIELDS_DESTRUCTION\<close> the field stays where it is.\<close>

definition fldLeave :: "TFldId \<Rightarrow> sheap \<Rightarrow> sheap option" where
  "fldLeave fld h = do {
     (b, f) \<leftarrow> getField fld h;
     cl_break_if (extRefCnt f < 1);
     modBlock fld (\<lambda>b. b\<lparr>blk_fld := Some (f\<lparr>extRefCnt := extRefCnt f - 1\<rparr>)\<rparr>) h
   }"

text \<open>A handle on a field holds a reference to it, unless the id is a special one.\<close>

definition handleEnter :: "TFldId \<Rightarrow> sheap \<Rightarrow> sheap option" where
  "handleEnter fld h = (if 0 < fld then fldEnter fld h else Some h)"

definition handleLeave :: "TFldId \<Rightarrow> sheap \<Rightarrow> sheap option" where
  "handleLeave fld h = (if 0 < fld then fldLeave fld h else Some h)"

definition pushHandles :: "TFldId list \<Rightarrow> sheap \<Rightarrow> (TFldId list \<times> sheap) option" where
  "pushHandles flds h = do { h \<leftarrow> ofold handleEnter flds h; Some (flds, h) }"

definition dropHandles :: "TFldId list \<Rightarrow> sheap \<Rightarrow> sheap option" where
  "dropHandles flds h = ofold handleLeave flds h"

section \<open>Queries on fields and values\<close>

text \<open>The lists of handles, together with the heap that holds the references to them.\<close>

definition usedBy :: "TValId \<Rightarrow> bool \<Rightarrow> sheap \<Rightarrow> (TFldId list \<times> sheap) option" where
  "usedBy val liveOnly h =
     (if VAL_NULL = val then Some ([], h)
      else do {
        v \<leftarrow> getVal val h;
        flds \<leftarrow> (if \<not> liveOnly then Some (sorted_list_of_set (val_usedBy v))
                else ofold (\<lambda>fld acc. do {
                       (b, _) \<leftarrow> getField fld h;
                       r \<leftarrow> getRegion (blk_obj b) h;
                       Some (if omap_find (reg_liveFields r) fld \<noteq> None then acc @ [fld] else acc)
                     }) (sorted_list_of_set (val_usedBy v)) []);
        pushHandles flds h
      })"

definition usedByCount :: "TValId \<Rightarrow> sheap \<Rightarrow> nat option" where
  "usedByCount val h = (if VAL_NULL = val then Some 0 else map_option (card \<circ> val_usedBy) (getVal val h))"

definition pointedBy :: "TObjId \<Rightarrow> sheap \<Rightarrow> (TFldId list \<times> sheap) option" where
  "pointedBy obj h = do {
     r \<leftarrow> getRegion obj h;
     pushHandles (sorted_list_of_set (reg_usedByGl r)) h
   }"

definition pointedByCount :: "TObjId \<Rightarrow> sheap \<Rightarrow> nat option" where
  "pointedByCount obj h = map_option (card \<circ> reg_usedByGl) (getRegion obj h)"

definition fieldType :: "TFldId \<Rightarrow> sheap \<Rightarrow> TObjType option" where
  "fieldType fld h = (if fld < 0 then Some 0 else map_option (clt \<circ> snd) (getField fld h))"

definition objByField :: "TFldId \<Rightarrow> sheap \<Rightarrow> TObjId option" where
  "objByField fld h = (if fld < 0 then Some OBJ_INVALID else map_option (blk_obj \<circ> fst) (getField fld h))"

definition fieldOffset :: "TFldId \<Rightarrow> sheap \<Rightarrow> TOffset option" where
  "fieldOffset fld h = (if fld < 0 then Some 0 else map_option (blk_off \<circ> fst) (getField fld h))"

definition placedAt :: "TFldId \<Rightarrow> sheap \<Rightarrow> (TValId \<times> sheap) option" where
  "placedAt fld h =
     (if fld < 0 then Some (VAL_INVALID, h)
      else do { (b, _) \<leftarrow> getField fld h; addrOfTarget (blk_obj b) TS_REGION (blk_off b) h })"

section \<open>Predicates\<close>

definition chkNeq :: "TValId \<Rightarrow> TValId \<Rightarrow> sheap \<Rightarrow> bool" where
  "chkNeq v1 v2 h = sps_chk v1 v2 (neqDb h)"

definition addNeq :: "TValId \<Rightarrow> TValId \<Rightarrow> sheap \<Rightarrow> sheap option" where
  "addNeq v1 v2 h = do {
     code1 \<leftarrow> valTarget v1 h;
     code2 \<leftarrow> valTarget v2 h;
     if VT_UNKNOWN \<noteq> code1 \<and> VT_UNKNOWN \<noteq> code2 then Some h
     else do { (_, db) \<leftarrow> sps_add True v1 v2 (neqDb h); Some (h\<lparr>neqDb := db\<rparr>) }
   }"

definition delNeq :: "TValId \<Rightarrow> TValId \<Rightarrow> sheap \<Rightarrow> sheap option" where
  "delNeq v1 v2 h = do {
     cl_break_if (\<not> chkNeq v1 v2 h);
     (_, db) \<leftarrow> sps_del True v1 v2 (neqDb h);
     Some (h\<lparr>neqDb := db\<rparr>)
   }"

definition gatherRelatedValues :: "TValId list \<Rightarrow> TValId \<Rightarrow> sheap \<Rightarrow> TValId list" where
  "gatherRelatedValues dst val h =
     coin_gatherRelatedValues (neq_gatherRelatedValues dst val (neqDb h)) val (coinDb h)"

definition valReplace :: "TValId \<Rightarrow> TValId \<Rightarrow> sheap \<Rightarrow> sheap option" where
  "valReplace val replaceBy h = do {
     _ \<leftarrow> getVal val h;
     h \<leftarrow> ofold (\<lambda>valNeq h. do { cl_break_if (valNeq = replaceBy); delNeq valNeq val h })
            (neq_gatherRelatedValues [] val (neqDb h)) h;
     v \<leftarrow> getVal val h;
     ofold (\<lambda>fld h. map_option snd (setValOfField fld replaceBy None h)) (sorted_list_of_set (val_usedBy v)) h
   }"

section \<open>Restriction of ranges\<close>

definition replaceRngByInt :: "TValId \<Rightarrow> sheap \<Rightarrow> sheap option" where
  "replaceRngByInt val h = do {
     v \<leftarrow> getVal val h;
     c \<leftarrow> custom_of v;
     rng \<leftarrow> rngFromCustom c;
     s \<leftarrow> isSingular rng;
     cl_break_if (\<not> s);
     (replaceBy, h) \<leftarrow> wrapIntVal (lo rng) h;
     v \<leftarrow> getVal val h;
     h \<leftarrow> ofold (\<lambda>fld h. map_option snd (setValueOf fld replaceBy None h)) (sorted_list_of_set (val_usedBy v)) h;
     if val_anchor v = val_root v then Some h
     else do {
       a \<leftarrow> getVal (val_anchor v) h;
       deps \<leftarrow> deps_of a;
       modVal (val_anchor v) (\<lambda>a. a\<lparr>val_part := set_deps (filter (\<lambda>x. x \<noteq> val_root v) deps) (val_part a)\<rparr>) h
     }
   }"

definition setCustomRng :: "TValId \<Rightarrow> range \<Rightarrow> sheap \<Rightarrow> sheap option" where
  "setCustomRng val rng h = do {
     v \<leftarrow> getVal val h;
     c \<leftarrow> custom_of v;
     _ \<leftarrow> cv_rng c;
     h \<leftarrow> modVal val (\<lambda>v. v\<lparr>val_part := set_custom (CV_INT_RANGE rng) (val_part v)\<rparr>) h;
     s \<leftarrow> isSingular rng;
     if s then replaceRngByInt val h else Some h
   }"

definition trimCustomValue :: "TValId \<Rightarrow> range \<Rightarrow> sheap \<Rightarrow> sheap option" where
  "trimCustomValue val win h = do {
     ok \<leftarrow> chkValueDeps val h;
     cl_break_if (\<not> ok);
     v \<leftarrow> getVal val h;
     c \<leftarrow> custom_of v;
     refRange \<leftarrow> cv_rng c;
     s \<leftarrow> isSingular refRange;
     cl_break_if s;
     cl_break_if (lo win < lo refRange \<or> hi refRange < hi win);
     let anchor = val_anchor v;
     let off = val_offRoot v;
     rngAnchor \<leftarrow> range_sub win (rngFromNum off);
     h \<leftarrow> setCustomRng anchor rngAnchor h;
     a \<leftarrow> getVal anchor h;
     deps \<leftarrow> deps_of a;
     h \<leftarrow> ofold (\<lambda>depVal h. do {
         a \<leftarrow> getVal anchor h;
         ac \<leftarrow> custom_of a;
         rngAnchor \<leftarrow> cv_rng ac;
         rngDep \<leftarrow> range_add rngAnchor (rngFromNum off);
         setCustomRng depVal rngDep h
       }) deps h;
     ok \<leftarrow> chkValueDeps val h;
     cl_break_if (\<not> ok);
     Some h
   }"

text \<open>A range value that has become a plain offset is replaced, with every value relative to it.\<close>

definition replaceRngByOff :: "TValId \<Rightarrow> TValId \<Rightarrow> TOffset \<Rightarrow> sheap \<Rightarrow> sheap option" where
  "replaceRngByOff anchor root offRoot h = do {
     (valSubst, h) \<leftarrow> valByOffset root offRoot h;
     h \<leftarrow> valReplace anchor valSubst h;
     a \<leftarrow> getVal anchor h;
     offMap \<leftarrow> offMap_of a;
     ofold (\<lambda>(offRel, valOld) h. do {
       (valNew, h) \<leftarrow> valByOffset root (offRoot + offRel) h;
       valReplace valOld valNew h
     }) offMap h
   }"

definition valRestrictRange :: "TValId \<Rightarrow> range \<Rightarrow> sheap \<Rightarrow> sheap option" where
  "valRestrictRange val win h = do {
     v \<leftarrow> getVal val h;
     case val_code v of
       VT_CUSTOM \<Rightarrow> trimCustomValue val win h
     | VT_UNKNOWN \<Rightarrow> do {
         s \<leftarrow> isSingular win;
         cl_break_if s;
         (new, h) \<leftarrow> valWrapCustom (CV_INT_RANGE win) h;
         valReplace val new h
       }
     | VT_RANGE \<Rightarrow> do {
         let anchor = val_anchor v;
         let shift = val_offRoot v;
         cl_break_if ((shift \<noteq> 0) = (anchor = val));
         a \<leftarrow> getVal anchor h;
         range \<leftarrow> range_of a;
         win \<leftarrow> range_sub win (rngFromNum shift);
         cl_break_if (win = range);
         cl_break_if (lo win < lo range);
         cl_break_if (hi range < hi win);
         h \<leftarrow> modVal anchor (\<lambda>a. a\<lparr>val_part := RangeValue (rangeDeps (val_part a)) (rangeOffMap (val_part a)) win\<rparr>) h;
         s \<leftarrow> isSingular win;
         if \<not> s then Some h
         else replaceRngByOff anchor (val_root a) (lo win) h
       }
     | _ \<Rightarrow> None
   }"

section \<open>Uniform blocks and raw memory\<close>

record uniform_block =
  ub_off :: TOffset
  ub_size :: TSizeOf
  ub_tplValue :: TValId

definition writeUniformBlock :: "TObjId \<Rightarrow> uniform_block \<Rightarrow> killed \<Rightarrow> sheap \<Rightarrow> (TFldId \<times> killed \<times> sheap) option" where
  "writeUniformBlock obj ub kp h =
     (if ub_size ub = 0 then Some (FLD_INVALID, kp, h)
      else do {
        let (fld, h) = assignBlock \<lparr>blk_code = BK_UNIFORM, blk_obj = obj, blk_off = ub_off ub,
               blk_size = ub_size ub, blk_value = ub_tplValue ub, blk_fld = None\<rparr> h;
        assertArena obj False h;
        h \<leftarrow> modLive obj (omap_put fld BK_UNIFORM) h;
        h \<leftarrow> modArena obj (arena_plus (createArenaItem (ub_off ub) (ub_size ub) fld)) h;
        r \<leftarrow> getRegion obj h;
        overlaps \<leftarrow> arenaLookup (reg_arena r) (ub_off ub, ub_off ub + ub_size ub) fld;
        (kp, h) \<leftarrow> reinterpretAll overlaps fld kp h;
        assertArena obj False h;
        Some (fld, kp, h)
      })"

definition copySingleLiveBlock :: "TObjId \<Rightarrow> TFldId \<Rightarrow> EBlockKind \<Rightarrow> TOffset \<Rightarrow> TSizeOf \<Rightarrow> sheap \<Rightarrow> (TFldId \<times> sheap) option" where
  "copySingleLiveBlock objDst fldSrc code shift sizeLimit h = do {
     (dst, h) \<leftarrow> (if BK_UNIFORM = code then do {
         bl \<leftarrow> getBlock fldSrc h;
         let bl = bl\<lparr>blk_obj := objDst, blk_off := blk_off bl + shift,
                    blk_size := (if sizeLimit \<noteq> 0 then sizeLimit else blk_size bl)\<rparr>;
         let (dst, h) = assignBlock bl h;
         h \<leftarrow> modArena objDst (arena_plus (createArenaItem (blk_off bl) (blk_size bl) dst)) h;
         Some (dst, h)
       } else do {
         cl_break_if (BK_FIELD \<noteq> code);
         cl_break_if (sizeLimit \<noteq> 0);
         (b, f) \<leftarrow> getField fldSrc h;
         (dst, h) \<leftarrow> fldCreate objDst (blk_off b + shift) (clt f) h;
         (_, h) \<leftarrow> setValueOf dst (blk_value b) None h;
         Some (dst, h)
       });
     h \<leftarrow> modLive objDst (omap_put dst code) h;
     Some (dst, h)
   }"

definition objClone_core :: "TObjId \<Rightarrow> sheap \<Rightarrow> (TObjId \<times> sheap) option" where
  "objClone_core obj h = do {
     src \<leftarrow> getRegion obj h;
     assertArena obj False h;
     let (dup, h) = assignRegion ((new_region (reg_code src))\<lparr>reg_cVar := reg_cVar src, reg_size := reg_size src,
            reg_lastKnownClt := reg_lastKnownClt src, reg_isValid := reg_isValid src,
            reg_protoLevel := reg_protoLevel src\<rparr>) h;
     let h = (if reg_isValid src then h\<lparr>liveObjs := insert dup (liveObjs h)\<rparr> else h);
     h \<leftarrow> ofold (\<lambda>(fld, code) h. map_option snd (copySingleLiveBlock dup fld code 0 0 h)) (reg_liveFields src) h;
     assertArena dup False h;
     Some (dup, h)
   }"

definition gatherUniformBlocks :: "TObjId \<Rightarrow> sheap \<Rightarrow> (TOffset, uniform_block) omap option" where
  "gatherUniformBlocks obj h = do {
     r \<leftarrow> getRegion obj h;
     ofold (\<lambda>(fld, code) dst.
       if BK_UNIFORM \<noteq> code then Some dst
       else do {
         b \<leftarrow> getBlock fld h;
         cl_break_if (omap_find dst (blk_off b) \<noteq> None \<and> \<not> bypassSelfChecks h);
         Some (omap_put (blk_off b) \<lparr>ub_off = blk_off b, ub_size = blk_size b, ub_tplValue = blk_value b\<rparr> dst)
       }) (reg_liveFields r) []
   }"

definition gatherLiveFields :: "TObjId \<Rightarrow> sheap \<Rightarrow> (TFldId list \<times> sheap) option" where
  "gatherLiveFields obj h = do {
     r \<leftarrow> getRegion obj h;
     flds \<leftarrow> ofold (\<lambda>(fld, code) acc.
         case code of BK_UNIFORM \<Rightarrow> Some acc | BK_FIELD \<Rightarrow> Some (acc @ [fld]) | _ \<Rightarrow> None) (reg_liveFields r) [];
     pushHandles flds h
   }"

definition findCoveringUniBlocks :: "TObjId \<Rightarrow> uniform_block \<Rightarrow> sheap \<Rightarrow> (bool \<times> (TOffset, uniform_block) omap) option" where
  "findCoveringUniBlocks obj block h = do {
     r \<leftarrow> getRegion obj h;
     let beg = ub_off block;
     let ch = (beg, beg + ub_size block);
     overlaps \<leftarrow> arenaLookup (reg_arena r) ch FLD_INVALID;
     if overlaps = {} then Some (False, [])
     else do {
       coverage \<leftarrow> arena_plus (ch, FLD_UNKNOWN) [];
       coverage \<leftarrow> ofold (\<lambda>fld cov. do {
           bl \<leftarrow> getBlock fld h;
           if BK_UNIFORM \<noteq> blk_code bl \<and> VAL_NULL \<noteq> blk_value bl then Some cov
           else do {
             eq \<leftarrow> areValProtosEqual h h (blk_value bl) (ub_tplValue block);
             if \<not> eq then Some cov
             else arena_minus (createArenaItem (blk_off bl) (blk_size bl) FLD_UNKNOWN) cov
           }
         }) (sorted_list_of_set overlaps) coverage;
       uncovered \<leftarrow> arenaLookup coverage ch FLD_INVALID;
       if uncovered = {} then Some (True, omap_put beg block [])
       else (let gaps = arena_reverseLookup [] FLD_UNKNOWN coverage
             in if gaps = [] then Some (False, [])
                else do {
                  coverage \<leftarrow> arena_plus (ch, FLD_UNKNOWN) [];
                  coverage \<leftarrow> ofold (\<lambda>gap cov. arena_minus (gap, FLD_UNKNOWN) cov) gaps coverage;
                  Some (False, fold (\<lambda>(off, e) dst. omap_put off (block\<lparr>ub_off := off, ub_size := e - off\<rparr>) dst)
                    (arena_reverseLookup [] FLD_UNKNOWN coverage) [])
                })
     }
   }"

definition transferBlock :: "TValId \<Rightarrow> TValId \<Rightarrow> TOffset \<Rightarrow> TOffset \<Rightarrow> TSizeOf \<Rightarrow> sheap \<Rightarrow> sheap option" where
  "transferBlock dstRoot srcRoot dstOff winBeg winSize h = do {
     sv \<leftarrow> getVal srcRoot h;
     (objSrc, _) \<leftarrow> addr_of sv;
     rSrc \<leftarrow> getRegion objSrc h;
     assertArena objSrc False h;
     let winEnd = winBeg + winSize;
     overlaps \<leftarrow> arenaLookup (reg_arena rSrc) (winBeg, winEnd) FLD_INVALID;
     if overlaps = {} then Some h
     else do {
       dv \<leftarrow> getVal dstRoot h;
       (objDst, _) \<leftarrow> addr_of dv;
       _ \<leftarrow> getRegion objDst h;
       let shift = dstOff - winBeg;
       ofold (\<lambda>fldSrc h. do {
         hb \<leftarrow> getBlock fldSrc h;
         let beg = blk_off hb;
         let end = beg + blk_size hb;
         let begExceeds = (beg < winBeg);
         let exceeds = (begExceeds \<or> winEnd < end);
         if exceeds \<and> BK_UNIFORM \<noteq> blk_code hb then Some h
         else do {
           let realShift = (if begExceeds then shift - (beg - winBeg) else shift);
           let sizeLimit = (if exceeds then blk_size hb + beg + winEnd - winBeg - end else 0);
           cl_break_if (exceeds \<and> (blk_size hb \<le> sizeLimit \<or> sizeLimit \<le> 0));
           rSrc \<leftarrow> getRegion objSrc h;
           if omap_find (reg_liveFields rSrc) fldSrc = None then Some h
           else map_option snd (copySingleLiveBlock objDst fldSrc (blk_code hb) realShift sizeLimit h)
         }
       }) (sorted_list_of_set overlaps) h
     }
   }"

definition copyBlockOfRawMemory :: "TValId \<Rightarrow> TValId \<Rightarrow> TSizeOf \<Rightarrow> killed \<Rightarrow> sheap \<Rightarrow> (killed \<times> sheap) option" where
  "copyBlockOfRawMemory dst src sz kp h = do {
     s1 \<leftarrow> valSizeOfTarget dst h;
     cl_break_if (lo s1 < sz);
     s2 \<leftarrow> valSizeOfTarget src h;
     cl_break_if (lo s2 < sz);
     dv \<leftarrow> getVal dst h;
     sv \<leftarrow> getVal src h;
     p1 \<leftarrow> isPossibleToDeref dst h;
     cl_break_if (\<not> p1);
     p2 \<leftarrow> isPossibleToDeref src h;
     cl_break_if (\<not> p2);
     cl_break_if (sz = 0);
     if val_root dv = val_root sv then do {
       cl_break_if (val_offRoot dv - val_offRoot sv \<noteq> 0);
       Some (kp, h)
     }
     else do {
       (objDst, _) \<leftarrow> rootAddr dv h;
       (blKiller, kp, h) \<leftarrow> writeUniformBlock objDst
          \<lparr>ub_off = val_offRoot dv, ub_size = sz, ub_tplValue = VAL_NULL\<rparr> kp h;
       assertArena objDst False h;
       h \<leftarrow> modLive objDst (omap_erase blKiller) h;
       h \<leftarrow> modArena objDst (arena_minus (createArenaItem (val_offRoot dv) sz blKiller)) h;
       let h = releaseEnt blKiller h;
       assertArena objDst False h;
       h \<leftarrow> transferBlock (val_root dv) (val_root sv) (val_offRoot dv) (val_offRoot sv) sz h;
       assertArena objDst False h;
       Some (kp, h)
     }
   }"

section \<open>Strings\<close>

text \<open>\<open>findZeroInBlock\<close>: the offset of a zero (\<open>None\<close> for \<open>false\<close>) and the flag \<open>provenPrefix\<close>.\<close>

definition findZeroInBlock :: "bool \<Rightarrow> TOffset \<Rightarrow> TFldId \<Rightarrow> sheap \<Rightarrow> (TOffset option \<times> bool) option" where
  "findZeroInBlock provenPrefix offSrc fld h = do {
     b \<leftarrow> getBlock fld h;
     if VAL_NULL = blk_value b then Some (Some (blk_off b), provenPrefix)
     else if BK_FIELD \<noteq> blk_code b then do {
       cl_break_if (BK_UNIFORM \<noteq> blk_code b);
       Some (None, provenPrefix)
     }
     else do {
       f \<leftarrow> blk_fld b;
       ty \<leftarrow> clt_at (storOf h) (clt f);
       cl_break_if (CL_TYPE_ARRAY \<noteq> clt_code ty);
       v \<leftarrow> getVal (blk_value b) h;
       c \<leftarrow> custom_of v;
       str \<leftarrow> cv_str c;
       Some (Some (blk_off b + int (length str)), blk_off b \<le> offSrc)
     }
   }"

text \<open>\<open>findZeroAtOff\<close>: the bounds of the offset of the first zero, \<open>None\<close> for \<open>false\<close>.\<close>

definition findZeroAtOff :: "TOffset \<Rightarrow> TValId \<Rightarrow> sheap \<Rightarrow> (TOffset \<times> TOffset) option option" where
  "findZeroAtOff offSrc root h = do {
     rv \<leftarrow> getVal root h;
     (obj, _) \<leftarrow> addr_of rv;
     r \<leftarrow> getRegion obj h;
     cl_break_if (\<not> reg_isValid r);
     let limit = hi (reg_size r);
     overlaps \<leftarrow> arenaLookup (reg_arena r) (offSrc, limit) FLD_INVALID;
     if overlaps = {} then Some None
     else do {
       (first, proven, _) \<leftarrow> ofold (\<lambda>fld (first, proven, stop).
           if stop then Some (first, proven, stop)
           else do {
             (z, proven) \<leftarrow> findZeroInBlock proven offSrc fld h;
             case z of
               None \<Rightarrow> Some (first, proven, False)
             | Some beg \<Rightarrow>
                 if first < beg then Some (first, proven, False)
                 else if beg \<le> offSrc then Some (offSrc, proven, True)
                 else Some (beg, proven, proven)
           }) (sorted_list_of_set overlaps) (limit, False, False);
       Some (if limit = first then None else Some (if proven then first else offSrc, first))
     }
   }"

definition valString :: "TValId \<Rightarrow> sheap \<Rightarrow> string option option" where
  "valString addr h = do {
     v \<leftarrow> getVal addr h;
     if VT_CUSTOM \<noteq> val_code v then Some None
     else do { c \<leftarrow> custom_of v; Some (cv_str c) }
   }"

definition valSizeOfString :: "TValId \<Rightarrow> sheap \<Rightarrow> range option" where
  "valSizeOfString addr h = do {
     v \<leftarrow> getVal addr h;
     if VT_CUSTOM = val_code v then do {
       c \<leftarrow> custom_of v;
       Some (case c of CV_STRING str \<Rightarrow> rngFromNum (int (length str) + 1) | _ \<Rightarrow> rngFromNum 0)
     }
     else do {
       p \<leftarrow> isPossibleToDeref addr h;
       if \<not> p then Some (rngFromNum 0)
       else do {
         z \<leftarrow> findZeroAtOff (val_offRoot v) (val_root v) h;
         case z of
           None \<Rightarrow> Some (rngFromNum 0)
         | Some (l, u) \<Rightarrow> do {
             cl_break_if (l < val_offRoot v);
             range_add \<lparr>lo = l, hi = u, alignment = 1\<rparr> (rngFromNum (1 - val_offRoot v))
           }
       }
     }
   }"

end
