(* ===== verification/HeapAlloc.thy ===== *)
theory HeapAlloc
  imports HeapObjs
begin

text \<open>
  The rest of \<open>SymHeapCore\<close>: construction, field lookup with its matching policies, program variables,
  allocation, resizing and invalidation of objects, addresses, predicates across two heaps, and the helpers of
  \<open>src/sl/symutil.cc\<close> that translate values between heaps and redirect references.
\<close>

section \<open>Construction\<close>

definition sheap_empty :: "stor \<Rightarrow> bool \<Rightarrow> sheap" where
  "sheap_empty st bypass = \<lparr>storOf = st, bypassSelfChecks = bypass, ents = (\<lambda>_. None), entCnt = 0, liveObjs = {},
     cVarMap = (\<lambda>_. None), cValueMap = cvm_empty, coinDb = [], neqDb = {}\<rparr>"

definition sheap_new :: "stor \<Rightarrow> bool \<Rightarrow> sheap option" where
  "sheap_new st bypass = do {
     let h = sheap_empty st bypass;
     let (valNull, h) = assignVal (new_base_address OBJ_NULL TS_REGION) h;
     cl_break_if (VAL_NULL \<noteq> valNull);
     (valTrue, h) \<leftarrow> wrapIntVal 1 h;
     cl_break_if (VAL_TRUE \<noteq> valTrue);
     let (objNull, h) = assignRegion ((new_region SC_INVALID)\<lparr>reg_addrByTS := [TS_REGION \<mapsto> valNull],
            reg_isValid := False\<rparr>) h;
     cl_break_if (OBJ_NULL \<noteq> objNull);
     let (objRet, h) = assignRegion (new_region SC_ON_STACK) h;
     cl_break_if (OBJ_RETURN \<noteq> objRet);
     Some h
   }"

section \<open>Field lookup\<close>

text \<open>
  A matching policy is a state with \<open>matchBlock\<close>, which returns whether the search goes on and the new state,
  and \<open>bestMatch\<close>.
\<close>

type_synonym 'p matchBlock = "TFldId \<Rightarrow> block_ent \<times> field_part \<Rightarrow> bool \<Rightarrow> 'p \<Rightarrow> (bool \<times> 'p) option"

definition fldCandidates :: "'p matchBlock \<Rightarrow> region \<Rightarrow> TFldId set \<Rightarrow> sheap \<Rightarrow> 'p \<Rightarrow> 'p option" where
  "fldCandidates mb r candidates h p = map_option snd (ofold (\<lambda>fld (go, p).
       if \<not> go then Some (go, p)
       else do {
         b \<leftarrow> getBlock fld h;
         case blk_code b of
           BK_INVALID \<Rightarrow> Some (go, p)
         | BK_UNIFORM \<Rightarrow> Some (go, p)
         | _ \<Rightarrow> do {
             f \<leftarrow> blk_fld b;
             mb fld (b, f) (omap_find (reg_liveFields r) fld \<noteq> None) p
           }
       }) (sorted_list_of_set candidates) (True, p))"

definition fldLookup_by :: "'p matchBlock \<Rightarrow> ('p \<Rightarrow> TFldId) \<Rightarrow> TObjId \<Rightarrow> TOffset \<Rightarrow> TObjType \<Rightarrow> 'p \<Rightarrow> sheap \<Rightarrow> (TFldId \<times> sheap) option" where
  "fldLookup_by mb bestMatch obj off t p h =
     (if OBJ_INVALID = obj \<or> off < 0 then Some (FLD_INVALID, h)
      else do {
        ty \<leftarrow> clt_at (storOf h) t;
        cl_break_if (clt_size ty \<le> 0);
        r \<leftarrow> getRegion obj h;
        cl_break_if (\<not> reg_isValid r);
        cl_break_if (lo (reg_size r) < off + clt_size ty);
        p \<leftarrow> fldCandidates mb r (arenaLookForExactMatch (reg_arena r) (off, off + clt_size ty)) h p;
        if FLD_INVALID \<noteq> bestMatch p then Some (bestMatch p, h)
        else fldCreate obj off t h
      })"

definition ptr_matchBlock :: "stor \<Rightarrow> TFldId matchBlock" where
  "ptr_matchBlock st fld d isLive best = do {
     p \<leftarrow> isDataPtr st (clt (snd d));
     Some (if \<not> p then (True, best) else (False, fld))
   }"

definition ptrLookup :: "TObjId \<Rightarrow> TOffset \<Rightarrow> sheap \<Rightarrow> (TFldId \<times> sheap) option" where
  "ptrLookup obj off h = do {
     let t = genericDataPtr (storOf h);
     ty \<leftarrow> clt_at (storOf h) t;
     cl_break_if (clt_code ty \<noteq> CL_TYPE_PTR);
     fldLookup_by (ptr_matchBlock (storOf h)) id obj off t FLD_INVALID h
   }"

record field_policy =
  fp_bestMatch :: TFldId
  fp_cltToMatch :: TObjType
  fp_exactMatch :: bool
  fp_classMatch :: bool

definition field_matchBlock :: "stor \<Rightarrow> field_policy matchBlock" where
  "field_matchBlock st fld d isLive p =
     (let cltNow = clt (snd d)
      in if cltNow = fp_cltToMatch p then Some (\<not> isLive, p\<lparr>fp_exactMatch := True, fp_bestMatch := fld\<rparr>)
         else if fp_exactMatch p then Some (True, p)
         else do {
           same \<leftarrow> cl_type_eq st cltNow (fp_cltToMatch p);
           if same then Some (True, p\<lparr>fp_classMatch := True, fp_bestMatch := fld\<rparr>)
           else if fp_classMatch p then Some (True, p)
           else do {
             p1 \<leftarrow> isDataPtr st cltNow;
             p2 \<leftarrow> (if \<not> p1 then Some False else isDataPtr st (fp_cltToMatch p));
             Some (True, if \<not> p1 \<or> \<not> p2 then p else p\<lparr>fp_bestMatch := fld\<rparr>)
           }
         })"

definition fldLookup :: "TObjId \<Rightarrow> TOffset \<Rightarrow> TObjType \<Rightarrow> sheap \<Rightarrow> (TFldId \<times> sheap) option" where
  "fldLookup obj off t h = do {
     ty \<leftarrow> clt_at (storOf h) t;
     cl_break_if (clt_size ty = 0);
     fldLookup_by (field_matchBlock (storOf h)) fp_bestMatch obj off t
       \<lparr>fp_bestMatch = FLD_INVALID, fp_cltToMatch = t, fp_exactMatch = False, fp_classMatch = False\<rparr> h
   }"

text \<open>
  The constructors of \<open>FldHandle\<close> and \<open>PtrHandle\<close>.  The latter takes two references, one of its own and one of its
  base class, while the destructor drops one.
\<close>

definition fldHandle_new :: "TObjId \<Rightarrow> TObjType \<Rightarrow> TOffset \<Rightarrow> sheap \<Rightarrow> (TFldId \<times> sheap) option" where
  "fldHandle_new obj t off h = do { (fld, h) \<leftarrow> fldLookup obj off t h; h \<leftarrow> handleEnter fld h; Some (fld, h) }"

definition ptrHandle_new :: "TObjId \<Rightarrow> TOffset \<Rightarrow> sheap \<Rightarrow> (TFldId \<times> sheap) option" where
  "ptrHandle_new obj off h = do {
     (fld, h) \<leftarrow> ptrLookup obj off h;
     h \<leftarrow> handleEnter fld h;
     h \<leftarrow> handleEnter fld h;
     Some (fld, h)
   }"

definition valOfPtr :: "TObjId \<Rightarrow> TOffset \<Rightarrow> sheap \<Rightarrow> (TValId \<times> sheap) option" where
  "valOfPtr obj off h = do {
     (ptr, h) \<leftarrow> ptrHandle_new obj off h;
     (val, h) \<leftarrow> valueOf ptr h;
     h \<leftarrow> handleLeave ptr h;
     Some (val, h)
   }"

definition nextObj :: "TObjId \<Rightarrow> TOffset \<Rightarrow> sheap \<Rightarrow> (TObjId \<times> sheap) option" where
  "nextObj obj offNext h = do {
     valid \<leftarrow> isValid obj h;
     if \<not> valid then Some (OBJ_INVALID, h)
     else do {
       (valNext, h) \<leftarrow> valOfPtr obj offNext h;
       next \<leftarrow> objByAddr valNext h;
       Some (next, h)
     }
   }"

section \<open>Objects\<close>

definition cVarByObject :: "TObjId \<Rightarrow> sheap \<Rightarrow> cvar option" where
  "cVarByObject obj h = map_option reg_cVar (getRegion obj h)"

definition regionByVar :: "cvar \<Rightarrow> bool \<Rightarrow> sheap \<Rightarrow> (TObjId \<times> sheap) option" where
  "regionByVar cv createIfNeeded h = do {
     obj \<leftarrow> cvm_find cv (cVarMap h);
     if OBJ_INVALID \<noteq> obj then Some (obj, h)
     else if \<not> createIfNeeded then Some (OBJ_INVALID, h)
     else do {
       var \<leftarrow> map_of (stor_vars (storOf h)) (cv_uid cv);
       let cv = (if isOnStack_var var then cv else cv\<lparr>cv_inst := 0\<rparr>);
       ty \<leftarrow> clt_at (storOf h) (var_type var);
       cl_break_if (clt_code ty = CL_TYPE_VOID);
       let (obj, h) = assignRegion ((new_region (if isOnStack_var var then SC_ON_STACK else SC_STATIC))
              \<lparr>reg_cVar := cv, reg_lastKnownClt := var_type var, reg_size := rngFromNum (clt_size ty)\<rparr>) h;
       let h = h\<lparr>liveObjs := insert obj (liveObjs h)\<rparr>;
       m \<leftarrow> cvm_insert cv obj (cVarMap h);
       Some (obj, h\<lparr>cVarMap := m\<rparr>)
     }
   }"

definition gatherObjects :: "(EStorageClass \<Rightarrow> bool) \<Rightarrow> sheap \<Rightarrow> TObjId list option" where
  "gatherObjects flt h = ofold (\<lambda>obj dst. do {
       valid \<leftarrow> isValid obj h;
       cl_break_if (\<not> valid);
       code \<leftarrow> objStorClass obj h;
       Some (if flt code then dst @ [obj] else dst)
     }) (sorted_list_of_set (liveObjs h)) []"

definition stackAlloc :: "range \<Rightarrow> call_inst \<Rightarrow> sheap \<Rightarrow> (TObjId \<times> sheap) option" where
  "stackAlloc sz from h = do {
     cl_break_if (lo sz \<le> 0);
     cl_break_if (ci_uid from < 0);
     let (reg, h) = assignRegion (new_region SC_ON_STACK) h;
     h \<leftarrow> modRegion reg (\<lambda>r. r\<lparr>reg_anonStackOf := from, reg_size := sz\<rparr>) h;
     Some (reg, h\<lparr>liveObjs := insert reg (liveObjs h)\<rparr>)
   }"

text \<open>\<open>isAnonStackObj\<close>: the call instance the object belongs to, the inner \<open>None\<close> for \<open>false\<close>.\<close>

definition isAnonStackObj :: "TObjId \<Rightarrow> sheap \<Rightarrow> call_inst option option" where
  "isAnonStackObj obj h =
     (if OBJ_RETURN = obj then Some None
      else do {
        r \<leftarrow> getRegion obj h;
        if SC_ON_STACK \<noteq> reg_code r then Some None
        else if - 1 \<noteq> cv_uid (reg_cVar r) then Some None
        else do { cl_break_if (ci_uid (reg_anonStackOf r) < 0); Some (Some (reg_anonStackOf r)) }
      })"

definition heapAlloc :: "range \<Rightarrow> sheap \<Rightarrow> (TObjId \<times> sheap) option" where
  "heapAlloc sz h = do {
     cl_break_if (lo sz < 0);
     let (reg, h) = assignRegion (new_region SC_ON_HEAP) h;
     let h = h\<lparr>liveObjs := insert reg (liveObjs h)\<rparr>;
     h \<leftarrow> modRegion reg (\<lambda>r. r\<lparr>reg_size := sz\<rparr>) h;
     Some (reg, h)
   }"

definition objSetSize :: "TObjId \<Rightarrow> range \<Rightarrow> sheap \<Rightarrow> sheap option" where
  "objSetSize obj newSize h = do {
     cl_break_if (lo newSize < 0);
     r \<leftarrow> getRegion obj h;
     h \<leftarrow> (if hi newSize < hi (reg_size r) then do {
              allObjs \<leftarrow> arenaLookup (reg_arena r) (hi newSize, hi (reg_size r)) FLD_INVALID;
              ofold (\<lambda>fld h. do {
                h \<leftarrow> modLive obj (omap_erase fld) h;
                fldDestroy fld True True h
              }) (sorted_list_of_set allObjs) h
            } else Some h);
     assertArena obj True h;
     modRegion obj (\<lambda>r. r\<lparr>reg_size := newSize\<rparr>) h
   }"

definition objInvalidate_core :: "TObjId \<Rightarrow> sheap \<Rightarrow> sheap option" where
  "objInvalidate_core obj h = do {
     valid \<leftarrow> isValid obj h;
     cl_break_if (OBJ_RETURN \<noteq> obj \<and> \<not> valid);
     h \<leftarrow> modRegion obj (\<lambda>r. r\<lparr>reg_isValid := False,
            reg_lastKnownClt := (if OBJ_RETURN = obj then 0 else reg_lastKnownClt r)\<rparr>) h;
     r \<leftarrow> getRegion obj h;
     h \<leftarrow> (if cv_uid (reg_cVar r) \<noteq> - 1 then do {
              m \<leftarrow> cvm_remove (reg_cVar r) (cVarMap h);
              Some (h\<lparr>cVarMap := m\<rparr>)
            } else Some h);
     let h = h\<lparr>liveObjs := liveObjs h - {obj}\<rparr>;
     h \<leftarrow> (if 0 < hi (reg_size r) then do {
              allObjs \<leftarrow> arenaLookup (reg_arena r) (0, hi (reg_size r)) FLD_INVALID;
              ofold (\<lambda>fld h. fldDestroy fld True False h) (sorted_list_of_set allObjs) h
            } else Some h);
     modRegion obj (\<lambda>r. r\<lparr>reg_liveFields := [], reg_arena := arena_clear (reg_arena r)\<rparr>) h
   }"

definition objSetEstimatedType :: "TObjId \<Rightarrow> TObjType \<Rightarrow> sheap \<Rightarrow> sheap option" where
  "objSetEstimatedType obj t h = do {
     _ \<leftarrow> getRegion obj h;
     h \<leftarrow> (if OBJ_RETURN = obj then do {
              h \<leftarrow> objInvalidate_core OBJ_RETURN h;
              ty \<leftarrow> clt_at (storOf h) t;
              modRegion obj (\<lambda>r. r\<lparr>reg_isValid := True, reg_size := rngFromNum (clt_size ty)\<rparr>) h
            } else Some h);
     modRegion obj (\<lambda>r. r\<lparr>reg_lastKnownClt := t\<rparr>) h
   }"

definition objEstimatedType :: "TObjId \<Rightarrow> sheap \<Rightarrow> TObjType option" where
  "objEstimatedType obj h = map_option reg_lastKnownClt (getRegion obj h)"

definition objProtoLevel :: "TObjId \<Rightarrow> sheap \<Rightarrow> int option" where
  "objProtoLevel obj h = (if obj \<le> 0 then Some 0 else map_option reg_protoLevel (getRegion obj h))"

definition objSetProtoLevel :: "TObjId \<Rightarrow> int \<Rightarrow> sheap \<Rightarrow> sheap option" where
  "objSetProtoLevel obj level h = do {
     cl_break_if (OBJ_INVALID = obj);
     modRegion obj (\<lambda>r. r\<lparr>reg_protoLevel := level\<rparr>) h
   }"

definition rewriteTargetOfBase :: "TValId \<Rightarrow> TObjId \<Rightarrow> sheap \<Rightarrow> sheap option" where
  "rewriteTargetOfBase root objNew h = do {
     rv \<leftarrow> getVal root h;
     (objOld, ts) \<leftarrow> addr_of rv;
     cl_break_if (objOld = objNew);
     h \<leftarrow> modVal root (\<lambda>v. v\<lparr>val_part := BaseAddress (addrDeps (val_part v)) (addrOffMap (val_part v)) objNew ts\<rparr>) h;
     rOld \<leftarrow> getRegion objOld h;
     rNew \<leftarrow> getRegion objNew h;
     cl_break_if (reg_addrByTS rNew ts \<noteq> None);
     cl_break_if (reg_addrByTS rOld ts = None);
     (moved, unrelated) \<leftarrow> ofold (\<lambda>fld (moved, unrelated). do {
         (b, _) \<leftarrow> getField fld h;
         v \<leftarrow> getVal (blk_value b) h;
         Some (if val_root v = root then (insert fld moved, unrelated) else (moved, insert fld unrelated))
       }) (sorted_list_of_set (reg_usedByGl rOld)) ({}, {});
     h \<leftarrow> modRegion objOld (\<lambda>r. r\<lparr>reg_addrByTS := (reg_addrByTS r)(ts := None), reg_usedByGl := unrelated\<rparr>) h;
     modRegion objNew (\<lambda>r. r\<lparr>reg_addrByTS := (reg_addrByTS r)(ts \<mapsto> root), reg_usedByGl := reg_usedByGl r \<union> moved\<rparr>) h
   }"

section \<open>Two heaps\<close>

definition roMapLookup :: "(int \<Rightarrow> int option) \<Rightarrow> int \<Rightarrow> int" where
  "roMapLookup m i = (if i \<le> 0 then i else case m i of None \<Rightarrow> - 1 | Some x \<Rightarrow> x)"

text \<open>\<open>translateValId\<close>: the translated value, the inner \<open>None\<close> for \<open>false\<close>, with the new destination heap.\<close>

definition translateValId :: "TValId \<Rightarrow> sheap \<Rightarrow> sheap \<Rightarrow> (TValId \<Rightarrow> TValId option) \<Rightarrow> (TValId option \<times> sheap) option" where
  "translateValId valSrc dst src valMap =
     (if valSrc \<le> VAL_NULL then Some (Some valSrc, dst)
      else do {
        rootSrc \<leftarrow> valRoot valSrc src;
        let rootDst = roMapLookup valMap rootSrc;
        if VAL_INVALID = rootDst then Some (None, dst)
        else if rootSrc = valSrc then Some (Some rootDst, dst)
        else do {
          off \<leftarrow> valOffsetRange valSrc src;
          (val, dst) \<leftarrow> valByRange rootDst off dst;
          Some (Some val, dst)
        }
      })"

definition translateValProto :: "TValId \<Rightarrow> sheap \<Rightarrow> sheap \<Rightarrow> (TValId \<times> sheap) option" where
  "translateValProto valProto dst src =
     (if valProto \<le> 0 then Some (valProto, dst)
      else do {
        code \<leftarrow> valTarget valProto src;
        origin \<leftarrow> valOrigin valProto src;
        cl_break_if (VT_UNKNOWN \<noteq> code);
        valCreate_pub code origin dst
      })"

text \<open>Translation of both values of a pair, the second one only when the first one succeeds.\<close>

definition translatePair :: "TValId \<times> TValId \<Rightarrow> sheap \<Rightarrow> sheap \<Rightarrow> (TValId \<Rightarrow> TValId option) \<Rightarrow> ((TValId \<times> TValId) option \<times> sheap) option" where
  "translatePair p dst src valMap = do {
     (lt, dst) \<leftarrow> translateValId (fst p) dst src valMap;
     case lt of
       None \<Rightarrow> Some (None, dst)
     | Some valLt \<Rightarrow> do {
         (gt, dst) \<leftarrow> translateValId (snd p) dst src valMap;
         Some (map_option (Pair valLt) gt, dst)
       }
   }"

definition copyRelevantPreds :: "sheap \<Rightarrow> (TValId \<Rightarrow> TValId option) \<Rightarrow> sheap \<Rightarrow> sheap option" where
  "copyRelevantPreds dst valMap src = do {
     dst \<leftarrow> ofold (\<lambda>item dst. do {
         (t, dst) \<leftarrow> translatePair item dst src valMap;
         case t of None \<Rightarrow> Some dst | Some (valLt, valGt) \<Rightarrow> addNeq valLt valGt dst
       }) (sorted_list_of_set (neqDb src)) dst;
     ofold (\<lambda>(key, sum') dst. do {
         (t, dst) \<leftarrow> translatePair key dst src valMap;
         case t of
           None \<Rightarrow> Some dst
         | Some (valLt, valGt) \<Rightarrow> do {
             db \<leftarrow> spm_add valLt valGt sum' (coinDb dst);
             Some (dst\<lparr>coinDb := db\<rparr>)
           }
       }) (coinDb src) dst
   }"

text \<open>\<open>matchPreds\<close> of \<open>src\<close> (\<open>this\<close>) against \<open>ref\<close>: the verdict with both heaps, in which offset values may be new.\<close>

definition matchPreds :: "sheap \<Rightarrow> (TValId \<Rightarrow> TValId option) \<Rightarrow> bool \<Rightarrow> sheap \<Rightarrow> (bool \<times> sheap \<times> sheap) option" where
  "matchPreds ref valMap nonZeroOnly src = do {
     (ok, src, ref) \<leftarrow> ofold (\<lambda>item (ok, src, ref).
         if \<not> ok \<or> (nonZeroOnly \<and> VAL_NULL = fst item) then Some (ok, src, ref)
         else do {
           (t, ref) \<leftarrow> translatePair item ref src valMap;
           case t of
             None \<Rightarrow> Some (False, src, ref)
           | Some (valLt, valGt) \<Rightarrow> Some (sps_chk valLt valGt (neqDb ref), src, ref)
         }) (sorted_list_of_set (neqDb src)) (True, src, ref);
     if \<not> ok then Some (False, src, ref)
     else ofold (\<lambda>(key, sum') (ok, src, ref).
         if \<not> ok then Some (ok, src, ref)
         else do {
           (t, ref) \<leftarrow> translatePair key ref src valMap;
           case t of
             None \<Rightarrow> Some (False, src, ref)
           | Some (valLt, valGt) \<Rightarrow>
               (case spm_chk valLt valGt (coinDb ref) of
                  None \<Rightarrow> Some (False, src, ref)
                | Some s \<Rightarrow> do {
                    (s', src) \<leftarrow> translateValId s src ref valMap;
                    Some (s' = Some sum', src, ref)
                  })
         }) (coinDb src) (True, src, ref)
   }"

section \<open>Redirection of references\<close>

definition redirectRefs :: "TObjId \<Rightarrow> TObjId \<Rightarrow> ETargetSpecifier \<Rightarrow> TObjId \<Rightarrow> ETargetSpecifier \<Rightarrow> TOffset \<Rightarrow> sheap \<Rightarrow> (bool \<times> sheap) option" where
  "redirectRefs pointingFrom pointingTo pointingWith redirectTo redirectWith shiftBy h = do {
     (refs, h) \<leftarrow> pointedBy pointingTo h;
     (anyChange, h) \<leftarrow> ofold (\<lambda>fld (anyChange, h). do {
         refObj \<leftarrow> objByField fld h;
         if OBJ_INVALID \<noteq> pointingFrom \<and> pointingFrom \<noteq> refObj then Some (anyChange, h)
         else do {
           (nowAt, h) \<leftarrow> valueOf fld h;
           ts \<leftarrow> targetSpec nowAt h;
           if TS_INVALID \<noteq> pointingWith \<and> pointingWith \<noteq> ts then Some (anyChange, h)
           else do {
             let ts = (if TS_INVALID \<noteq> redirectWith then redirectWith else ts);
             (baseAddr, h) \<leftarrow> addrOfTarget redirectTo ts 0 h;
             code \<leftarrow> valTarget nowAt h;
             (result, h) \<leftarrow> (if VT_RANGE = code then do {
                 offRange \<leftarrow> valOffsetRange nowAt h;
                 valByRange baseAddr (offRange\<lparr>lo := wrap64 (lo offRange + shiftBy), hi := wrap64 (hi offRange + shiftBy)\<rparr>) h
               } else do {
                 offToRoot \<leftarrow> valOffset nowAt h;
                 valByOffset baseAddr (offToRoot + shiftBy) h
               });
             (_, h) \<leftarrow> setValOfField fld result None h;
             Some (True, h)
           }
         }
       }) refs (False, h);
     h \<leftarrow> dropHandles refs h;
     Some (anyChange, h)
   }"

definition redirectRefsNotFrom :: "TObjId set \<Rightarrow> TObjId \<Rightarrow> TObjId \<Rightarrow> ETargetSpecifier \<Rightarrow> (ETargetSpecifier \<Rightarrow> bool) option \<Rightarrow> sheap \<Rightarrow> sheap option" where
  "redirectRefsNotFrom pointingNotFrom pointingTo redirectTo redirectWith tsFilter h = do {
     (refs, h) \<leftarrow> pointedBy pointingTo h;
     h \<leftarrow> ofold (\<lambda>fld h. do {
         refObj \<leftarrow> objByField fld h;
         if refObj \<in> pointingNotFrom then Some h
         else do {
           (nowAt, h) \<leftarrow> valueOf fld h;
           skip \<leftarrow> (case tsFilter of None \<Rightarrow> Some False | Some f \<Rightarrow> do { ts \<leftarrow> targetSpec nowAt h; Some (\<not> f ts) });
           if skip then Some h
           else do {
             (baseAddr, h) \<leftarrow> addrOfTarget redirectTo redirectWith 0 h;
             off \<leftarrow> valOffsetRange nowAt h;
             (result, h) \<leftarrow> valByRange baseAddr off h;
             map_option snd (setValOfField fld result None h)
           }
         }
       }) refs h;
     dropHandles refs h
   }"

definition transferOutgoingEdges :: "TObjId \<Rightarrow> TObjId \<Rightarrow> sheap \<Rightarrow> sheap option" where
  "transferOutgoingEdges ofObj toObj h = do {
     s1 \<leftarrow> objSize ofObj h;
     s2 \<leftarrow> objSize toObj h;
     cl_break_if (s1 \<noteq> s2);
     (fields, h) \<leftarrow> gatherLiveFields ofObj h;
     h \<leftarrow> ofold (\<lambda>fldOld h. do {
         (val, h) \<leftarrow> valueOf fldOld h;
         t \<leftarrow> (if 0 < fldOld then fieldType fldOld h else Some 0);
         off \<leftarrow> fieldOffset fldOld h;
         (fldNew, h) \<leftarrow> fldHandle_new toObj t off h;
         (_, h) \<leftarrow> setValOfField fldNew val None h;
         handleLeave fldNew h
       }) fields h;
     dropHandles fields h
   }"

end
