(* ===== verification/SymHeap.thy ===== *)
theory SymHeap
  imports HeapAlloc
begin

text \<open>
  \<open>SymHeap\<close>, the symbolic heap with abstract objects (list segments and objects that may not exist), and the
  helpers of \<open>src/sl/symutil.cc\<close>, \<open>src/sl/symutil.hh\<close> and \<open>src/sl/symseg.hh\<close> that work on it.
\<close>

section \<open>Abstract objects\<close>

datatype EObjKind = OK_REGION | OK_SLS | OK_DLS | OK_OBJ_OR_NULL | OK_SEE_THROUGH | OK_SEE_THROUGH_2N

fun isMayExistObj :: "EObjKind \<Rightarrow> bool" where
  "isMayExistObj OK_OBJ_OR_NULL = True"
| "isMayExistObj OK_SEE_THROUGH = True"
| "isMayExistObj OK_SEE_THROUGH_2N = True"
| "isMayExistObj _ = False"

record binding_off =
  bo_head :: TOffset
  bo_next :: TOffset
  bo_prev :: TOffset

record abstract_object =
  ao_kind :: EObjKind
  ao_bOff :: binding_off
  ao_minLength :: int

record symheap =
  core :: sheap
  absRoots :: "TObjId \<Rightarrow> abstract_object option"

definition symheap_new :: "stor \<Rightarrow> bool \<Rightarrow> symheap option" where
  "symheap_new st bypass = do { c \<leftarrow> sheap_new st bypass; Some \<lparr>core = c, absRoots = (\<lambda>_. None)\<rparr> }"

text \<open>\<open>EntStore::assignId\<close> with a given id refuses to overwrite an entity.\<close>

definition assignAbs :: "TObjId \<Rightarrow> abstract_object \<Rightarrow> symheap \<Rightarrow> symheap option" where
  "assignAbs obj a sh = do {
     cl_break_if (absRoots sh obj \<noteq> None);
     Some (sh\<lparr>absRoots := (absRoots sh)(obj \<mapsto> a)\<rparr>)
   }"

definition objClone :: "TObjId \<Rightarrow> symheap \<Rightarrow> (TObjId \<times> symheap) option" where
  "objClone obj sh = do {
     (dup, c) \<leftarrow> objClone_core obj (core sh);
     let sh = sh\<lparr>core := c\<rparr>;
     case absRoots sh obj of
       None \<Rightarrow> Some (dup, sh)
     | Some a \<Rightarrow> do { sh \<leftarrow> assignAbs dup a sh; Some (dup, sh) }
   }"

definition objKind :: "TObjId \<Rightarrow> symheap \<Rightarrow> EObjKind" where
  "objKind obj sh = (case absRoots sh obj of None \<Rightarrow> OK_REGION | Some a \<Rightarrow> ao_kind a)"

definition segBinding :: "TObjId \<Rightarrow> symheap \<Rightarrow> binding_off option" where
  "segBinding seg sh = do {
     a \<leftarrow> absRoots sh seg;
     cl_break_if (OK_OBJ_OR_NULL = ao_kind a);
     Some (ao_bOff a)
   }"

definition objSetAbstract :: "TObjId \<Rightarrow> EObjKind \<Rightarrow> binding_off \<Rightarrow> symheap \<Rightarrow> symheap option" where
  "objSetAbstract obj kind off sh = do {
     cl_break_if (OK_REGION = kind);
     cl_break_if (OK_SEE_THROUGH = kind \<and> bo_prev off \<noteq> bo_next off);
     case absRoots sh obj of
       Some a \<Rightarrow> Some (sh\<lparr>absRoots := (absRoots sh)(obj \<mapsto> a\<lparr>ao_kind := kind, ao_bOff := off\<rparr>)\<rparr>)
     | None \<Rightarrow> assignAbs obj
         \<lparr>ao_kind = kind,
          ao_bOff = (if OK_OBJ_OR_NULL = kind then \<lparr>bo_head = - 1, bo_next = - 1, bo_prev = - 1\<rparr> else off),
          ao_minLength = 0\<rparr> sh
   }"

definition objSetConcrete :: "TObjId \<Rightarrow> symheap \<Rightarrow> symheap option" where
  "objSetConcrete obj sh = do {
     _ \<leftarrow> absRoots sh obj;
     Some (sh\<lparr>absRoots := (absRoots sh)(obj := None)\<rparr>)
   }"

definition objInvalidate :: "TObjId \<Rightarrow> symheap \<Rightarrow> symheap option" where
  "objInvalidate obj sh = do {
     c \<leftarrow> objInvalidate_core obj (core sh);
     Some (sh\<lparr>core := c, absRoots := (absRoots sh)(obj := None)\<rparr>)
   }"

definition segMinLength :: "TObjId \<Rightarrow> symheap \<Rightarrow> int option" where
  "segMinLength seg sh = do {
     a \<leftarrow> absRoots sh seg;
     if isMayExistObj (ao_kind a) then Some 0
     else case ao_kind a of OK_SLS \<Rightarrow> Some (ao_minLength a) | OK_DLS \<Rightarrow> Some (ao_minLength a) | _ \<Rightarrow> None
   }"

text \<open>\<open>SE_RESTRICT_SLS_MINLEN\<close> and \<open>SE_RESTRICT_DLS_MINLEN\<close> of \<open>src/sl/config.h\<close>.\<close>

definition SE_RESTRICT_SLS_MINLEN :: int where "SE_RESTRICT_SLS_MINLEN = 2"
definition SE_RESTRICT_DLS_MINLEN :: int where "SE_RESTRICT_DLS_MINLEN = 2"

definition segSetMinLength :: "TObjId \<Rightarrow> int \<Rightarrow> symheap \<Rightarrow> symheap option" where
  "segSetMinLength seg len sh = do {
     a \<leftarrow> absRoots sh seg;
     if isMayExistObj (ao_kind a) then do { cl_break_if (len \<noteq> 0); Some sh }
     else do {
       len \<leftarrow> (case ao_kind a of
           OK_SLS \<Rightarrow> Some (if SE_RESTRICT_SLS_MINLEN < len then SE_RESTRICT_SLS_MINLEN else len)
         | OK_DLS \<Rightarrow> Some (if SE_RESTRICT_DLS_MINLEN < len then SE_RESTRICT_DLS_MINLEN else len)
         | _ \<Rightarrow> None);
       Some (sh\<lparr>absRoots := (absRoots sh)(seg \<mapsto> a\<lparr>ao_minLength := len\<rparr>)\<rparr>)
     }
   }"

section \<open>Helpers on segments\<close>

definition isAbstractObject :: "TObjId \<Rightarrow> symheap \<Rightarrow> bool" where
  "isAbstractObject obj sh \<longleftrightarrow> OK_REGION \<noteq> objKind obj sh"

definition objMinLength :: "TObjId \<Rightarrow> symheap \<Rightarrow> int option" where
  "objMinLength obj sh = do {
     valid \<leftarrow> isValid obj (core sh);
     if \<not> valid then Some 0
     else if OK_REGION = objKind obj sh then Some 1
     else segMinLength obj sh
   }"

definition segIncreaseMinLength :: "TObjId \<Rightarrow> int \<Rightarrow> symheap \<Rightarrow> symheap option" where
  "segIncreaseMinLength seg len sh = do {
     cl_break_if (len = 0);
     now \<leftarrow> segMinLength seg sh;
     if now < len then segSetMinLength seg len sh else Some sh
   }"

fun isObjWithBinding :: "EObjKind \<Rightarrow> bool" where
  "isObjWithBinding OK_REGION = False"
| "isObjWithBinding OK_OBJ_OR_NULL = False"
| "isObjWithBinding _ = True"

definition headOffset :: "TObjId \<Rightarrow> symheap \<Rightarrow> TOffset option" where
  "headOffset seg sh = do {
     cl_break_if (OK_REGION = objKind seg sh);
     if OK_OBJ_OR_NULL = objKind seg sh then Some 0
     else map_option bo_head (segBinding seg sh)
   }"

definition lift_core :: "(sheap \<Rightarrow> ('a \<times> sheap) option) \<Rightarrow> symheap \<Rightarrow> ('a \<times> symheap) option" where
  "lift_core f sh = map_option (\<lambda>(x, c). (x, sh\<lparr>core := c\<rparr>)) (f (core sh))"

definition nextPtrFromSeg :: "TObjId \<Rightarrow> symheap \<Rightarrow> (TFldId \<times> symheap) option" where
  "nextPtrFromSeg seg sh = do {
     cl_break_if (OK_REGION = objKind seg sh);
     off \<leftarrow> segBinding seg sh;
     lift_core (ptrHandle_new seg (bo_next off)) sh
   }"

definition prevPtrFromSeg :: "TObjId \<Rightarrow> symheap \<Rightarrow> (TFldId \<times> symheap) option" where
  "prevPtrFromSeg seg sh = do {
     cl_break_if (OK_REGION = objKind seg sh);
     off \<leftarrow> segBinding seg sh;
     lift_core (ptrHandle_new seg (bo_prev off)) sh
   }"

definition nextValFromSeg :: "TObjId \<Rightarrow> symheap \<Rightarrow> (TValId \<times> symheap) option" where
  "nextValFromSeg seg sh =
     (if OK_OBJ_OR_NULL = objKind seg sh then Some (VAL_NULL, sh)
      else do {
        (ptr, sh) \<leftarrow> nextPtrFromSeg seg sh;
        (val, sh) \<leftarrow> lift_core (valueOf ptr) sh;
        c \<leftarrow> handleLeave ptr (core sh);
        Some (val, sh\<lparr>core := c\<rparr>)
      })"

definition segHeadAt :: "TObjId \<Rightarrow> ETargetSpecifier \<Rightarrow> symheap \<Rightarrow> (TValId \<times> symheap) option" where
  "segHeadAt seg ts sh = do {
     cl_break_if (OK_REGION = objKind seg sh);
     off \<leftarrow> segBinding seg sh;
     lift_core (addrOfTarget seg ts (bo_head off)) sh
   }"

section \<open>Known objects and safe addresses\<close>

definition isKnownObjectAt :: "TValId \<Rightarrow> bool \<Rightarrow> symheap \<Rightarrow> bool option" where
  "isKnownObjectAt val allowInvalid sh = do {
     code \<leftarrow> valTarget val (core sh);
     if VT_RANGE = code then Some False
     else do {
       obj \<leftarrow> objByAddr val (core sh);
       ok \<leftarrow> (if allowInvalid then Some (OBJ_INVALID \<noteq> obj) else isPossibleToDeref val (core sh));
       if \<not> ok then Some False
       else Some (\<not> isAbstractObject obj sh)
     }
   }"

definition moveKnownValueToLeft :: "TValId \<Rightarrow> TValId \<Rightarrow> symheap \<Rightarrow> (TValId \<times> TValId) option" where
  "moveKnownValueToLeft valA valB sh =
     (let (a, b) = sortValues valA valB
      in if a \<le> 0 then Some (a, b)
         else do {
           known \<leftarrow> isKnownObjectAt a False sh;
           Some (if known then (a, b) else (b, a))
         })"

definition valInsideSafeRange :: "TValId \<Rightarrow> symheap \<Rightarrow> bool option" where
  "valInsideSafeRange val sh = do {
     known \<leftarrow> isKnownObjectAt val False sh;
     if \<not> known then Some False
     else do { sz \<leftarrow> valSizeOfTarget val (core sh); Some (0 < lo sz) }
   }"

definition canWriteDataPtrAt :: "TValId \<Rightarrow> sheap \<Rightarrow> bool option" where
  "canWriteDataPtrAt val h = do {
     p \<leftarrow> isPossibleToDeref val h;
     if \<not> p then Some False
     else do { sz \<leftarrow> valSizeOfTarget val h; Some (dataPtrSizeof (storOf h) \<le> lo sz) }
   }"

section \<open>Comparison of integral ranges\<close>

datatype cl_binop_e = CL_BINOP_EQ | CL_BINOP_NE | CL_BINOP_LT | CL_BINOP_GT | CL_BINOP_LE | CL_BINOP_GE
  | CL_BINOP_TRUTH_AND | CL_BINOP_TRUTH_OR | CL_BINOP_TRUTH_XOR | CL_BINOP_PLUS | CL_BINOP_MINUS | CL_BINOP_MULT
  | CL_BINOP_EXACT_DIV | CL_BINOP_TRUNC_DIV | CL_BINOP_TRUNC_MOD | CL_BINOP_RDIV | CL_BINOP_MIN | CL_BINOP_MAX
  | CL_BINOP_POINTER_PLUS | CL_BINOP_BIT_AND | CL_BINOP_BIT_IOR | CL_BINOP_BIT_XOR | CL_BINOP_LSHIFT
  | CL_BINOP_RSHIFT | CL_BINOP_LROTATE | CL_BINOP_RROTATE | CL_BINOP_UNKNOWN

record cmp_op_traits =
  ct_negative :: bool
  ct_preserveEq :: bool
  ct_preserveNeq :: bool
  ct_leftToRight :: bool
  ct_rightToLeft :: bool

text \<open>\<open>describeCmpOp\<close> of \<open>src/sl/symproc.cc\<close>: \<open>None\<close> for \<open>false\<close>, the answer for the
  operators that compare nothing.\<close>

definition describeCmpOp :: "cl_binop_e \<Rightarrow> cmp_op_traits option" where
  "describeCmpOp code =
     (let ltr = code \<in> {CL_BINOP_LE, CL_BINOP_LT}; rtl = code \<in> {CL_BINOP_GE, CL_BINOP_GT}
      in case code of
        CL_BINOP_EQ \<Rightarrow> Some \<lparr>ct_negative = False, ct_preserveEq = True, ct_preserveNeq = True, ct_leftToRight = ltr, ct_rightToLeft = rtl\<rparr>
      | CL_BINOP_LE \<Rightarrow> Some \<lparr>ct_negative = False, ct_preserveEq = False, ct_preserveNeq = True, ct_leftToRight = ltr, ct_rightToLeft = rtl\<rparr>
      | CL_BINOP_GE \<Rightarrow> Some \<lparr>ct_negative = False, ct_preserveEq = False, ct_preserveNeq = True, ct_leftToRight = ltr, ct_rightToLeft = rtl\<rparr>
      | CL_BINOP_NE \<Rightarrow> Some \<lparr>ct_negative = True, ct_preserveEq = True, ct_preserveNeq = True, ct_leftToRight = ltr, ct_rightToLeft = rtl\<rparr>
      | CL_BINOP_LT \<Rightarrow> Some \<lparr>ct_negative = True, ct_preserveEq = False, ct_preserveNeq = True, ct_leftToRight = ltr, ct_rightToLeft = rtl\<rparr>
      | CL_BINOP_GT \<Rightarrow> Some \<lparr>ct_negative = True, ct_preserveEq = False, ct_preserveNeq = True, ct_leftToRight = ltr, ct_rightToLeft = rtl\<rparr>
      | _ \<Rightarrow> None)"

text \<open>The decision for ordering operators, \<open>None\<close> when it is ambiguous.\<close>

definition compareOrdered :: "cmp_op_traits \<Rightarrow> range \<Rightarrow> range \<Rightarrow> bool option" where
  "compareOrdered ct r1 r2 =
     (let ltr = (hi r1 < lo r2); rtl = (hi r2 < lo r1);
          ltrWeak = (hi r1 \<le> lo r2); rtlWeak = (hi r2 \<le> lo r1)
      in if ct_negative ct then
           (if (ltr \<and> ct_leftToRight ct) \<or> (rtl \<and> ct_rightToLeft ct) then Some True
            else if (rtlWeak \<and> ct_leftToRight ct) \<or> (ltrWeak \<and> ct_rightToLeft ct) then Some False
            else None)
         else
           (if (rtl \<and> ct_leftToRight ct) \<or> (ltr \<and> ct_rightToLeft ct) then Some False
            else if (ltrWeak \<and> ct_leftToRight ct) \<or> (rtlWeak \<and> ct_rightToLeft ct) then Some True
            else None))"

text \<open>\<open>compareIntRanges\<close>: the inner \<open>None\<close> for \<open>false\<close> (nothing known).\<close>

definition compareIntRanges :: "cl_binop_e \<Rightarrow> range \<Rightarrow> range \<Rightarrow> bool option option" where
  "compareIntRanges code r1 r2 =
     (case describeCmpOp code of
        None \<Rightarrow> Some None
      | Some ct \<Rightarrow> do {
          a1 \<leftarrow> isAligned r1;
          a2 \<leftarrow> (if a1 then Some True else isAligned r2);
          if a1 \<or> a2 then Some None
          else if ct_preserveEq ct \<and> ct_preserveNeq ct then
            (if hi r1 < lo r2 \<or> hi r2 < lo r1 then Some (Some (ct_negative ct))
             else do {
               s1 \<leftarrow> isSingular r1;
               s2 \<leftarrow> (if s1 then isSingular r2 else Some False);
               if s1 \<and> s2 then do {
                 cl_break_if (lo r1 \<noteq> hi r2);
                 Some (Some (\<not> ct_negative ct))
               }
               else Some None
             })
          else Some (compareOrdered ct r1 r2)
        })"

definition proveNeq :: "TValId \<Rightarrow> TValId \<Rightarrow> symheap \<Rightarrow> bool option" where
  "proveNeq ref val sh =
     (if VAL_INVALID = ref \<or> VAL_INVALID = val then Some False
      else if ref = val then Some False
      else do {
        (ref, val) \<leftarrow> moveKnownValueToLeft ref val sh;
        if VAL_TRUE = ref then Some (VAL_FALSE = val)
        else do {
          known \<leftarrow> (if VAL_NULL = ref then isKnownObjectAt val True sh else Some False);
          if known then Some True
          else do {
            s1 \<leftarrow> valInsideSafeRange ref sh;
            s2 \<leftarrow> (if s1 then valInsideSafeRange val sh else Some False);
            if s1 \<and> s2 then Some True
            else do {
              r1 \<leftarrow> rngFromVal ref (core sh);
              r2 \<leftarrow> (case r1 of None \<Rightarrow> Some None | Some _ \<Rightarrow> rngFromVal val (core sh));
              case (r1, r2) of
                (Some rng1, Some rng2) \<Rightarrow> do {
                  res \<leftarrow> compareIntRanges CL_BINOP_NE rng1 rng2;
                  Some (res = Some True)
                }
              | _ \<Rightarrow> Some (chkNeq ref val (core sh))
            }
          }
        }
      })"

end
