(* ===== verification/HeapRel.thy ===== *)
theory HeapRel
  imports SymHeap
begin

text \<open>
  What the operations of a heap keep.  Each layer of \<open>src/sl/symheap.cc\<close> is an interface, a locale over a
  predicate on heaps: \<open>value_ops\<close> for the operations that create and change values, \<open>block_ops\<close> for the access
  to blocks and fields, where \<open>okB\<close> tells the blocks that may be written, and \<open>heap_ops\<close> for the operations composed
  of reading and writing fields.  A predicate that the primitive updates of a layer keep is kept by all of its
  operations.  The following theories interpret the locales on the invariants of the heap.
\<close>

section \<open>What the primitive updates keep\<close>

fun part_class :: "val_part \<Rightarrow> nat" where
  "part_class PlainValue = 0"
| "part_class (CompValue _) = 1"
| "part_class (InternalCustomValue _ _) = 2"
| "part_class (RangeValue _ _ _) = 3"
| "part_class (BaseAddress _ _ _ _) = 4"

definition val_same :: "base_value \<Rightarrow> base_value \<Rightarrow> bool" where
  "val_same v v' \<longleftrightarrow> val_code v' = val_code v \<and> val_origin v' = val_origin v \<and> val_root v' = val_root v \<and>
     val_anchor v' = val_anchor v \<and> val_offRoot v' = val_offRoot v \<and> part_class (val_part v') = part_class (val_part v)"

text \<open>The containers of a region are in order.\<close>

definition reg_wf :: "region \<Rightarrow> bool" where
  "reg_wf r \<longleftrightarrow> arena_wf (reg_arena r) \<and> omap_wf (reg_liveFields r)"

lemma reg_wf_updates [simp]:
  "reg_wf (new_region code)" "reg_wf (r\<lparr>reg_size := s\<rparr>) = reg_wf r" "reg_wf (r\<lparr>reg_cVar := cv\<rparr>) = reg_wf r"
  "reg_wf (r\<lparr>reg_anonStackOf := ci\<rparr>) = reg_wf r" "reg_wf (r\<lparr>reg_lastKnownClt := t\<rparr>) = reg_wf r"
  "reg_wf (r\<lparr>reg_isValid := b\<rparr>) = reg_wf r" "reg_wf (r\<lparr>reg_protoLevel := n\<rparr>) = reg_wf r"
  "reg_wf (r\<lparr>reg_addrByTS := ts\<rparr>) = reg_wf r" "reg_wf (r\<lparr>reg_usedByGl := U\<rparr>) = reg_wf r"
  "reg_wf (r\<lparr>reg_liveFields := [], reg_arena := arena_clear a\<rparr>)"
  by (simp_all add: reg_wf_def new_region_def arena_clear_def)

definition reg_same :: "region \<Rightarrow> region \<Rightarrow> bool" where
  "reg_same r r' \<longleftrightarrow> reg_code r' = reg_code r \<and> reg_cVar r' = reg_cVar r \<and> reg_anonStackOf r' = reg_anonStackOf r \<and>
     reg_size r' = reg_size r \<and> reg_lastKnownClt r' = reg_lastKnownClt r \<and> reg_isValid r' = reg_isValid r \<and>
     reg_protoLevel r' = reg_protoLevel r \<and> (reg_wf r \<longrightarrow> reg_wf r')"

lemma part_class_set [simp]:
  "part_class (set_offMap m p) = part_class p"
  "part_class (set_deps ds p) = part_class p"
  "part_class (set_custom c p) = part_class p"
  by (cases p; simp)+

lemma val_same_refl [simp]: "val_same v v"
  by (simp add: val_same_def)

lemma val_same_trans: "val_same u v \<Longrightarrow> val_same v w \<Longrightarrow> val_same u w"
  by (simp add: val_same_def)

lemma reg_same_refl [simp]: "reg_same r r"
  by (simp add: reg_same_def)

lemma reg_same_trans: "reg_same u v \<Longrightarrow> reg_same v w \<Longrightarrow> reg_same u w"
  by (simp add: reg_same_def)

lemma val_same_updates [simp]:
  "val_same v (v\<lparr>val_usedBy := U\<rparr>)"
  "val_same v (v\<lparr>val_part := p\<rparr>) \<longleftrightarrow> part_class p = part_class (val_part v)"
  by (auto simp: val_same_def)

lemma reg_same_updates [simp]:
  "reg_same r (r\<lparr>reg_usedByGl := U\<rparr>)"
  "reg_same r (r\<lparr>reg_addrByTS := t\<rparr>)"
  by (simp_all add: reg_same_def reg_wf_def)

lemma arena_plus_wf: "arena_plus it a = Some a' \<Longrightarrow> arena_wf a \<Longrightarrow> arena_wf a'"
  by (cases it; cases "fst it") (auto simp: arena_plus_def arena_add_def Let_def intro: arena_wf_insert)

lemma arena_minus_wf: "arena_minus it a = Some a' \<Longrightarrow> arena_wf a \<Longrightarrow> arena_wf a'"
  using arena_sub_key(1) [of a "fst (fst it)" "snd (fst it)" "snd it" a']
  by (cases it; cases "fst it") (auto simp: arena_minus_def arena_sub_def Let_def split: if_splits)

lemma reg_same_containers:
  "arena_plus it (reg_arena r) = Some a \<Longrightarrow> reg_same r (r\<lparr>reg_arena := a\<rparr>)"
  "arena_minus it (reg_arena r) = Some a \<Longrightarrow> reg_same r (r\<lparr>reg_arena := a\<rparr>)"
  "reg_same r (r\<lparr>reg_liveFields := omap_put k c (reg_liveFields r)\<rparr>)"
  "reg_same r (r\<lparr>reg_liveFields := omap_erase k (reg_liveFields r)\<rparr>)"
  by (auto simp: reg_same_def reg_wf_def arena_plus_wf arena_minus_wf omap_intros)

section \<open>Elimination rules\<close>

lemma heap_SomeE: "Some h = Some h' \<Longrightarrow> (h' = h \<Longrightarrow> P) \<Longrightarrow> P"
  by auto

lemma map_snd_SomeE: "map_option snd m = Some y \<Longrightarrow> (\<And>x. m = Some (x, y) \<Longrightarrow> P) \<Longrightarrow> P"
  by auto

lemma prod_app_SomeE:
  "(case p of (a, b) \<Rightarrow> f a b) u = Some y \<Longrightarrow> (\<And>a b. p = (a, b) \<Longrightarrow> f a b u = Some y \<Longrightarrow> P) \<Longrightarrow> P"
  by (auto split: prod.splits)

lemmas heap_elims = map_snd_SomeE some_elims heap_SomeE prod_app_SomeE

section \<open>Operations on values\<close>

text \<open>
  What an operation on values changes of an existing value, and what it creates: never the set of fields that
  hold the value, the object an address belongs to, or the root of an existing value.
\<close>

definition val_frame :: "base_value \<Rightarrow> base_value \<Rightarrow> bool" where
  "val_frame v v' \<longleftrightarrow> val_same v v' \<and> val_usedBy v' = val_usedBy v \<and> addr_of v' = addr_of v"

definition new_val_ok :: "sheap \<Rightarrow> base_value \<Rightarrow> bool" where
  "new_val_ok h v \<longleftrightarrow> val_usedBy v = {} \<and>
     (val_root v = entCnt h \<or> (\<exists>i u. getVal i h = Some u \<and> val_root v = val_root u))"

lemma addr_of_set [simp]:
  "addr_of (v\<lparr>val_part := set_offMap m (val_part v)\<rparr>) = addr_of v"
  "addr_of (v\<lparr>val_part := set_deps ds (val_part v)\<rparr>) = addr_of v"
  "addr_of (v\<lparr>val_part := set_custom c (val_part v)\<rparr>) = addr_of v"
  "addr_of (v\<lparr>val_usedBy := u\<rparr>) = addr_of v"
  by (cases "val_part v"; simp add: addr_of.simps)+

lemma val_frame_set [simp]:
  "val_frame v (v\<lparr>val_part := set_offMap m (val_part v)\<rparr>)"
  "val_frame v (v\<lparr>val_part := set_deps ds (val_part v)\<rparr>)"
  "val_frame v (v\<lparr>val_part := set_custom c (val_part v)\<rparr>)"
  by (simp_all add: val_frame_def)

lemma val_part_other: "val_usedBy (v\<lparr>val_part := p\<rparr>) = val_usedBy v \<and> val_root (v\<lparr>val_part := p\<rparr>) = val_root v"
  by simp

lemma new_val_simps [simp]:
  "val_usedBy (new_value code origin p) = {}"
  "val_usedBy (new_base_address obj ts) = {}"
  by (simp_all add: new_value_def new_base_address_def)

text \<open>A value that is completed right after it has got its id.\<close>

lemma modVal_allocEnt [simp]: "modVal (entCnt h) f (allocEnt (EntVal v) h) = Some (allocEnt (EntVal (f v)) h)"
  by (simp add: modVal_def)

locale value_ops =
  fixes P :: "sheap \<Rightarrow> bool"
  assumes P_putVal: "P h \<Longrightarrow> getVal i h = Some v \<Longrightarrow> val_frame v v' \<Longrightarrow> P (putEnt i (EntVal v') h)"
    and P_putAddr: "P h \<Longrightarrow> getRegion i h = Some r \<Longrightarrow> P (putEnt i (EntRegion (r\<lparr>reg_addrByTS := t\<rparr>)) h)"
    and P_assignVal: "P h \<Longrightarrow> new_val_ok h v \<Longrightarrow> P (allocEnt (EntVal v) h)"
    and P_tables: "P h \<Longrightarrow> P (h\<lparr>cValueMap := m, coinDb := c, neqDb := n\<rparr>)"
begin

text \<open>The loop rules.\<close>

lemma P_ofold:
  assumes "ofold f xs s = Some s'" "P (g s)"
    and "\<And>x u v. f x u = Some v \<Longrightarrow> P (g u) \<Longrightarrow> P (g v)"
  shows "P (g s')"
  using ofold_invariant [where P = "\<lambda>s. P (g s)", OF assms(1,2)] assms(3) by blast

lemma P_ofold_heap:
  "ofold f xs h = Some h' \<Longrightarrow> P h \<Longrightarrow> (\<And>x u v. f x u = Some v \<Longrightarrow> P u \<Longrightarrow> P v) \<Longrightarrow> P h'"
  using P_ofold [where g = "\<lambda>h. h"] by blast

lemma P_ofold_snd:
  assumes "ofold (\<lambda>x h. map_option snd (f x h)) xs h = Some h'" "P h"
    and "\<And>x u y v. f x u = Some (y, v) \<Longrightarrow> P u \<Longrightarrow> P v"
  shows "P h'"
  by (rule P_ofold_heap [OF assms(1,2)]) (use assms(3) in auto)

lemma P_cValueMap [intro]: "P h \<Longrightarrow> P (h\<lparr>cValueMap := m\<rparr>)"
  using P_tables [where h = h and m = m and c = "coinDb h" and n = "neqDb h"] by simp

lemma P_coinDb [intro]: "P h \<Longrightarrow> P (h\<lparr>coinDb := c\<rparr>)"
  using P_tables [where h = h and m = "cValueMap h" and c = c and n = "neqDb h"] by simp

lemma P_neqDb [intro]: "P h \<Longrightarrow> P (h\<lparr>neqDb := n\<rparr>)"
  using P_tables [where h = h and m = "cValueMap h" and c = "coinDb h" and n = n] by simp

lemma P_modVal: "modVal i f h = Some h' \<Longrightarrow> (\<And>v. getVal i h = Some v \<Longrightarrow> val_frame v (f v)) \<Longrightarrow> P h \<Longrightarrow> P h'"
  using P_putVal by (auto simp: modVal_eq_Some)

lemma P_modAddr: "modRegion i (\<lambda>r. r\<lparr>reg_addrByTS := f r\<rparr>) h = Some h' \<Longrightarrow> P h \<Longrightarrow> P h'"
  using P_putAddr by (auto simp: modRegion_eq_Some)

lemma P_alloc [intro]: "P h \<Longrightarrow> val_usedBy v = {} \<Longrightarrow> val_root v = entCnt h \<Longrightarrow> P (allocEnt (EntVal v) h)"
  by (rule P_assignVal) (auto simp: new_val_ok_def)

lemma P_alloc_rooted:
  "P h \<Longrightarrow> getVal i h = Some u \<Longrightarrow> val_usedBy v = {} \<Longrightarrow> val_root v = val_root u \<Longrightarrow> P (allocEnt (EntVal v) h)"
  by (rule P_assignVal) (auto simp: new_val_ok_def)

lemma P_valCreate: "valCreate code origin h = Some (val, h') \<Longrightarrow> P h \<Longrightarrow> P h'"
  by (auto simp: valCreate_def split: EValueTarget.splits)

lemma P_create_modVal:
  "valCreate code origin h = Some (i, h1) \<Longrightarrow> modVal i f h1 = Some h2 \<Longrightarrow>
   (\<And>v. val_usedBy (f v) = val_usedBy v \<and> val_root (f v) = val_root v) \<Longrightarrow> P h \<Longrightarrow> P h2"
  by (auto simp: valCreate_def split: EValueTarget.splits intro!: P_alloc)

lemma P_valCreate_pub: "valCreate_pub code origin h = Some (val, h') \<Longrightarrow> P h \<Longrightarrow> P h'"
  by (auto simp: valCreate_pub_def split: EValueTarget.splits elim: P_valCreate)

lemma P_valDup: "valDup val h = Some (val', h') \<Longrightarrow> P h \<Longrightarrow> P h'"
  by (auto simp: valDup_def bind_eq_Some_conv split: if_splits)

lemma P_wrapFresh: "wrapFresh cv h = Some (val, h') \<Longrightarrow> P h \<Longrightarrow> P h'"
  by (auto simp: wrapFresh_def bind_eq_Some_conv intro: P_valCreate elim: P_modVal)

lemma P_wrapShared:
  assumes "wrapShared cv h = Some (val, h')" "P h"
  shows "P h'"
proof -
  obtain v m where lk: "cvm_lookup cv (cValueMap h) = Some (v, m)"
    using assms(1) by (auto simp: wrapShared_def bind_eq_Some_conv)
  have R1: "P (h\<lparr>cValueMap := m\<rparr>)" using assms(2) by auto
  show ?thesis
  proof (cases "v = VAL_INVALID")
    case True
    then obtain h2 where "wrapFresh cv (h\<lparr>cValueMap := m\<rparr>) = Some (val, h2)"
      "h' = h2\<lparr>cValueMap := cvm_assign cv val (cValueMap h2)\<rparr>"
      using assms(1) lk by (auto simp: wrapShared_def bind_eq_Some_conv Let_def)
    with P_wrapFresh [OF _ R1] show ?thesis by auto
  qed (use assms(1) lk R1 in \<open>auto simp: wrapShared_def Let_def\<close>)
qed

lemma P_wrapIntVal: "wrapIntVal num h = Some (val, h') \<Longrightarrow> P h \<Longrightarrow> P h'"
  by (auto simp: wrapIntVal_def split: if_splits elim: P_wrapShared)

lemma P_valWrapCustom: "valWrapCustom cv h = Some (val, h') \<Longrightarrow> P h \<Longrightarrow> P h'"
  by (auto simp: valWrapCustom_def bind_eq_Some_conv split: custom_value.splits if_splits
      elim: P_wrapShared P_wrapFresh P_wrapIntVal)

lemma P_valByOffset: "valByOffset ad off h = Some (val, h') \<Longrightarrow> P h \<Longrightarrow> P h'"
  by (auto simp: valByOffset_def bind_eq_Some_conv Let_def split: if_splits option.splits
      elim: P_valDup elim!: P_modVal intro!: P_alloc_rooted)

lemma P_valByRange: "valByRange ad rng h = Some (val, h') \<Longrightarrow> P h \<Longrightarrow> P h'"
  unfolding valByRange_def Let_def assign_eq prod.case modVal_allocEnt Option.bind_lunit
  by (elim some_elims; hypsubst?; (assumption | elim P_valByOffset P_valCreate P_modVal)?)
    (auto intro!: P_alloc_rooted)

lemma P_addrOfTarget: "addrOfTarget obj ts off h = Some (val, h') \<Longrightarrow> P h \<Longrightarrow> P h'"
  by (auto simp: addrOfTarget_def bind_eq_Some_conv Let_def split: if_splits option.splits
      elim!: P_valByOffset P_modAddr)

lemma P_shiftCustomValue: "shiftCustomValue ref shift h = Some (val, h') \<Longrightarrow> P h \<Longrightarrow> P h'"
  by (auto simp: shiftCustomValue_def bind_eq_Some_conv Let_def)
    (rule P_modVal, assumption, simp, erule (1) P_create_modVal, simp_all)

lemma P_valShift: "valShift v s h = Some (val, h') \<Longrightarrow> P h \<Longrightarrow> P h'"
  by (auto simp: valShift_def bind_eq_Some_conv Let_def split: if_splits option.splits
      elim: P_valByOffset P_valByRange P_shiftCustomValue)
    (rule P_coinDb, erule P_valByOffset, erule P_valByRange, assumption)

lemma P_bindValues: "bindValues v1 v2 s h = Some h' \<Longrightarrow> P h \<Longrightarrow> P h'"
  by (auto simp: bindValues_def bind_eq_Some_conv)

lemma P_diffPointers: "diffPointers v1 v2 h = Some (val, h') \<Longrightarrow> P h \<Longrightarrow> P h'"
  by (auto simp: diffPointers_def bind_eq_Some_conv split: if_splits elim!: P_bindValues P_valWrapCustom P_valCreate)


end

text \<open>Updates of values and regions leave the blocks alone.\<close>

lemma getBlock_modRegion: "modRegion i f h = Some h' \<Longrightarrow> getBlock j h' = getBlock j h"
  by (auto simp: modRegion_eq_Some dest: get_exclusive)

lemma getBlock_modVal: "modVal i f h = Some h' \<Longrightarrow> getBlock j h' = getBlock j h"
  by (auto simp: modVal_eq_Some dest: get_exclusive)

lemma getBlock_modArena: "modArena i f h = Some h' \<Longrightarrow> getBlock j h' = getBlock j h"
  by (auto simp: modArena_def bind_eq_Some_conv getBlock_modRegion)

lemma getBlock_modLive: "modLive i f h = Some h' \<Longrightarrow> getBlock j h' = getBlock j h"
  by (auto simp: modLive_def getBlock_modRegion)

lemma getBlock_killNeqs: "killNeqs val h = Some h' \<Longrightarrow> getBlock j h' = getBlock j h"
  by (auto simp: killNeqs_def bind_eq_Some_conv)

lemma getBlock_releaseValueOf: "releaseValueOf fld val h = Some (b, h') \<Longrightarrow> getBlock j h' = getBlock j h"
  by (auto simp: releaseValueOf_def bind_eq_Some_conv getBlock_modVal getBlock_modRegion getBlock_killNeqs split: if_splits)

section \<open>Operations on fields and blocks\<close>

locale block_ops = value_ops +
  fixes okB :: "int \<Rightarrow> bool"
  assumes P_putVal_same: "P h \<Longrightarrow> getVal i h = Some v \<Longrightarrow> val_same v v' \<Longrightarrow> addr_of v' = addr_of v \<Longrightarrow> P (putEnt i (EntVal v') h)"
    and P_putRegion: "P h \<Longrightarrow> getRegion i h = Some r \<Longrightarrow> reg_same r r' \<Longrightarrow> P (putEnt i (EntRegion r') h)"
    and P_putBlock: "P h \<Longrightarrow> okB i \<Longrightarrow> getBlock i h = Some b \<Longrightarrow> P (putEnt i (EntBlock b') h)"
    and P_releaseBlock: "P h \<Longrightarrow> okB i \<Longrightarrow> getBlock i h = Some b \<Longrightarrow> P (releaseEnt i h)"
    and P_assignBlock: "P h \<Longrightarrow> P (allocEnt (EntBlock b) h)"
begin

lemma P_modUsed: "modVal i (\<lambda>v. v\<lparr>val_usedBy := U v\<rparr>) h = Some h' \<Longrightarrow> P h \<Longrightarrow> P h'"
  using P_putVal_same by (auto simp: modVal_eq_Some)

lemma P_modRegion: "modRegion i f h = Some h' \<Longrightarrow> (\<And>r. reg_same r (f r)) \<Longrightarrow> P h \<Longrightarrow> P h'"
  using P_putRegion by (auto simp: modRegion_eq_Some)

lemma P_modBlock: "modBlock i f h = Some h' \<Longrightarrow> okB i \<Longrightarrow> P h \<Longrightarrow> P h'"
  using P_putBlock by (auto simp: modBlock_eq_Some)

lemma P_modArena:
  "modArena obj (arena_plus it) h = Some h' \<Longrightarrow> P h \<Longrightarrow> P h'"
  "modArena obj (arena_minus it) h = Some h' \<Longrightarrow> P h \<Longrightarrow> P h'"
  by (auto simp: modArena_def modRegion_def bind_eq_Some_conv)
    (rule P_putRegion, assumption, assumption, rule reg_same_containers, assumption)+

lemma P_modLive:
  "modLive obj (omap_put k c) h = Some h' \<Longrightarrow> P h \<Longrightarrow> P h'"
  "modLive obj (omap_erase k) h = Some h' \<Longrightarrow> P h \<Longrightarrow> P h'"
  by (auto simp: modLive_def elim!: P_modRegion intro: reg_same_containers)

lemma P_killNeqs: "killNeqs val h = Some h' \<Longrightarrow> P h \<Longrightarrow> P h'"
  by (auto simp: killNeqs_def bind_eq_Some_conv)

lemma P_releaseValueOf: "releaseValueOf fld val h = Some (b, h') \<Longrightarrow> P h \<Longrightarrow> P h'"
  by (auto simp: releaseValueOf_def bind_eq_Some_conv Let_def split: if_splits
      elim!: P_modRegion P_killNeqs P_modUsed)

lemma P_registerValueOf: "registerValueOf fld val h = Some h' \<Longrightarrow> P h \<Longrightarrow> P h'"
  by (auto simp: registerValueOf_def bind_eq_Some_conv Let_def split: if_splits
      elim!: P_modRegion P_modUsed)

lemma P_release: "getBlock i h = Some b \<Longrightarrow> okB i \<Longrightarrow> P h \<Longrightarrow> P (releaseEnt i h)"
  using P_releaseBlock by blast

lemma P_fldDestroy: 
  assumes "fldDestroy fld rv dt h = Some h'" "okB fld" "P h"
  shows "P h'"
proof -
  from assms(1) obtain b h1 h2 keep where b: "getBlock fld h = Some b"
    and h1: "(if rv \<and> BK_UNIFORM \<noteq> blk_code b then do {
              (_, h) \<leftarrow> releaseValueOf fld (blk_value b) h;
              modBlock fld (\<lambda>b. b\<lparr>blk_value := - 1\<rparr>) h
            } else Some h) = Some h1"
    and h2: "(if dt then do {
              assertArena (blk_obj b) True h1;
              h \<leftarrow> modArena (blk_obj b) (arena_minus (createArenaItem (blk_off b) (blk_size b) fld)) h1;
              r \<leftarrow> getRegion (blk_obj b) h;
              cl_break_if (omap_find (reg_liveFields r) fld \<noteq> None);
              assertArena (blk_obj b) True h;
              Some h
            } else Some h1) = Some h2"
    and h': "(if keep then Some h2 else Some (releaseEnt fld h2)) = Some h'"
    unfolding fldDestroy_def Let_def bind_eq_Some_conv by blast
  have "getBlock fld h1 \<noteq> None"
    using h1 b by (auto simp: bind_eq_Some_conv getBlock_releaseValueOf mod_eq_Some split: if_splits)
  moreover have "P h1"
    using h1 assms(2,3) by (auto simp: bind_eq_Some_conv split: if_splits elim!: P_modBlock P_releaseValueOf)
  ultimately have "P h2 \<and> getBlock fld h2 \<noteq> None"
    using h2 by (auto simp: bind_eq_Some_conv getBlock_modArena split: if_splits elim!: P_modArena)
  then show ?thesis using h' assms(2) by (auto split: if_splits elim!: P_release)
qed

lemma P_splitBlockByObject: 
  assumes "splitBlockByObject block fld h = Some h'" "okB block" "P h"
  shows "P h'"
  using assms
  by (auto simp: splitBlockByObject_def bind_eq_Some_conv Let_def getBlock_modArena getBlock_modLive split: if_splits
     elim!: P_modArena P_modLive P_modBlock intro!: P_release P_assignBlock)

lemma P_writeCharToString: "writeCharToString vd vw pos h = Some (r, h') \<Longrightarrow> P h \<Longrightarrow> P h'"
  by (auto simp: writeCharToString_def bind_eq_Some_conv split: if_splits option.splits elim: P_wrapShared)

lemma P_reinterpretSingleObj: "reinterpretSingleObj d s h = Some (r, h') \<Longrightarrow> okB d \<Longrightarrow> P h \<Longrightarrow> P h'"
  unfolding reinterpretSingleObj_def Let_def
  by (elim some_elims; hypsubst; (assumption | elim P_modBlock P_wrapIntVal P_writeCharToString)+)

lemma P_reinterpretValue: "reinterpretValue old fld h = Some h' \<Longrightarrow> okB old \<Longrightarrow> P h \<Longrightarrow> P h'"
  by (auto simp: reinterpretValue_def bind_eq_Some_conv Let_def split: if_splits option.splits
     elim!: P_modBlock elim: P_valDup P_valCreate P_reinterpretSingleObj)

lemma P_reinterpretObjData: 
  assumes "reinterpretObjData old fld kp h = Some (kp', h')" "okB old" "P h" shows "P h'"
proof -
  from assms(1) obtain b where b: "getBlock old h = Some b" by (auto simp: reinterpretObjData_def bind_eq_Some_conv)
  show ?thesis using assms b
  by (cases "blk_code b") (auto simp: reinterpretObjData_def bind_eq_Some_conv Let_def split: if_splits
     elim!: P_splitBlockByObject P_registerValueOf P_fldDestroy P_modLive P_reinterpretValue P_releaseValueOf)
qed

end

section \<open>Operations that choose the blocks they write\<close>

text \<open>Here no block id may be excluded.\<close>

locale block_ops_all = block_ops P "\<lambda>_. True" for P
begin

lemma P_modBlock': "modBlock i f h = Some h' \<Longrightarrow> P h \<Longrightarrow> P h'"
  by (rule P_modBlock) auto

lemma P_reinterpretAll: "reinterpretAll ov fld kp h = Some (kp', h') \<Longrightarrow> P h \<Longrightarrow> P h'"
  unfolding reinterpretAll_def
  by (drule P_ofold [where g = snd]) (auto elim: P_reinterpretObjData)

lemmas P_field_prims = P_modUsed P_modRegion P_modBlock' P_modArena P_modLive P_valCreate
  P_releaseValueOf P_registerValueOf P_reinterpretAll

lemma P_setValueOf: "setValueOf fld val kp h = Some (kp', h') \<Longrightarrow> P h \<Longrightarrow> P h'"
  unfolding setValueOf_def Let_def
  by (elim some_elims; hypsubst?; (assumption | elim P_field_prims)+)

lemma P_fldCreate: "fldCreate obj off t h = Some (fld, h') \<Longrightarrow> P h \<Longrightarrow> P h'"
  by (auto simp: fldCreate_def bind_eq_Some_conv elim!: P_modArena intro!: P_assignBlock)

lemma P_fldInit: "fldInit fld h = Some (val, h') \<Longrightarrow> P h \<Longrightarrow> P h'"
  unfolding fldInit_def Let_def
  by (elim some_elims; hypsubst?; (assumption | rule TrueI | elim P_reinterpretObjData | simp only: val_same_updates | elim P_field_prims)+)

lemma P_valueOf: "valueOf fld h = Some (val, h') \<Longrightarrow> P h \<Longrightarrow> P h'"
  unfolding valueOf_def
  by (elim some_elims; hypsubst?; (assumption | elim P_valCreate P_fldInit P_modBlock' P_modUsed | erule (1) P_create_modVal | rule val_part_other)+)

lemma P_setValOfField: "setValOfField fld val kp h = Some (kp', h') \<Longrightarrow> P h \<Longrightarrow> P h'"
  unfolding setValOfField_def
  by (elim some_elims; (assumption | elim P_setValueOf P_modLive)+)

lemma P_writeUniformBlock: "writeUniformBlock obj ub kp h = Some (fld, kp', h') \<Longrightarrow> P h \<Longrightarrow> P h'"
  unfolding writeUniformBlock_def Let_def assign_eq prod.case
  by (elim heap_elims; simp?; (assumption | rule P_assignBlock | elim P_reinterpretAll P_modArena P_modLive)+)

lemma P_copySingleLiveBlock:
  assumes "copySingleLiveBlock objDst fldSrc code shift lim h = Some (dst, h')" "P h"
  shows "P h'"
proof (cases "BK_UNIFORM = code")
  case True
  with assms show ?thesis
    by (auto simp: copySingleLiveBlock_def Let_def bind_eq_Some_conv elim!: P_modArena P_modLive intro!: P_assignBlock)
next
  case False
  with assms show ?thesis
    by (auto simp: copySingleLiveBlock_def Let_def bind_eq_Some_conv elim!: P_modLive P_setValueOf P_fldCreate)
qed

end

section \<open>Operations built on the access to fields\<close>

text \<open>
  The interface of the field access to its clients: a predicate that the operations below keep is kept by every
  operation composed of them.
\<close>

locale heap_ops = value_ops +
  assumes P_extRef: "P h \<Longrightarrow> getBlock i h = Some b \<Longrightarrow> blk_fld b = Some f \<Longrightarrow>
      P (putEnt i (EntBlock (b\<lparr>blk_fld := Some (f\<lparr>extRefCnt := n\<rparr>)\<rparr>)) h)"
    and P_setValueOf: "setValueOf fld val kp h = Some (kp', h') \<Longrightarrow> P h \<Longrightarrow> P h'"
    and P_setValOfField: "setValOfField fld val kp h = Some (kp', h') \<Longrightarrow> P h \<Longrightarrow> P h'"
    and P_fldCreate: "fldCreate obj off t h = Some (fld, h') \<Longrightarrow> P h \<Longrightarrow> P h'"
    and P_valueOf: "valueOf fld h = Some (val, h') \<Longrightarrow> P h \<Longrightarrow> P h'"
    and P_copySingleLiveBlock: "copySingleLiveBlock objDst fldSrc code shift lim h = Some (dst, h') \<Longrightarrow>
      getBlock fldSrc h = Some b \<Longrightarrow> blk_code b = code \<Longrightarrow> P h \<Longrightarrow> P h'"
begin

lemma P_fldEnter: "fldEnter fld h = Some h' \<Longrightarrow> P h \<Longrightarrow> P h'"
  by (auto simp: fldEnter_def bind_eq_Some_conv getField_eq_Some modBlock_eq_Some intro: P_extRef)

lemma P_fldLeave: "fldLeave fld h = Some h' \<Longrightarrow> P h \<Longrightarrow> P h'"
  by (auto simp: fldLeave_def bind_eq_Some_conv getField_eq_Some modBlock_eq_Some intro: P_extRef)

lemma P_handleEnter: "handleEnter fld h = Some h' \<Longrightarrow> P h \<Longrightarrow> P h'"
  by (auto simp: handleEnter_def split: if_splits elim: P_fldEnter)

lemma P_handleLeave: "handleLeave fld h = Some h' \<Longrightarrow> P h \<Longrightarrow> P h'"
  by (auto simp: handleLeave_def split: if_splits elim: P_fldLeave)

lemma P_pushHandles: "pushHandles flds h = Some (l, h') \<Longrightarrow> P h \<Longrightarrow> P h'"
  by (auto simp: pushHandles_def bind_eq_Some_conv elim!: P_ofold_heap P_handleEnter)

lemma P_dropHandles: "dropHandles flds h = Some h' \<Longrightarrow> P h \<Longrightarrow> P h'"
  by (auto simp: dropHandles_def elim!: P_ofold_heap P_handleLeave)

lemma P_usedBy: "usedBy val live h = Some (l, h') \<Longrightarrow> P h \<Longrightarrow> P h'"
  unfolding usedBy_def by (elim some_elims; hypsubst?; (assumption | elim P_pushHandles)+)

lemma P_pointedBy: "pointedBy obj h = Some (l, h') \<Longrightarrow> P h \<Longrightarrow> P h'"
  by (auto simp: pointedBy_def bind_eq_Some_conv elim: P_pushHandles)

lemma P_gatherLiveFields: "gatherLiveFields obj h = Some (l, h') \<Longrightarrow> P h \<Longrightarrow> P h'"
  by (auto simp: gatherLiveFields_def bind_eq_Some_conv elim: P_pushHandles)

lemma P_placedAt: "placedAt fld h = Some (v, h') \<Longrightarrow> P h \<Longrightarrow> P h'"
  by (auto simp: placedAt_def bind_eq_Some_conv split: if_splits elim: P_addrOfTarget)

lemma P_addNeq: "addNeq a b h = Some h' \<Longrightarrow> P h \<Longrightarrow> P h'"
  by (auto simp: addNeq_def bind_eq_Some_conv split: if_splits)

lemma P_delNeq: "delNeq a b h = Some h' \<Longrightarrow> P h \<Longrightarrow> P h'"
  by (auto simp: delNeq_def bind_eq_Some_conv split: if_splits)

lemma P_valReplace: "valReplace val repl h = Some h' \<Longrightarrow> P h \<Longrightarrow> P h'"
  unfolding valReplace_def
  by (elim some_elims, erule P_ofold_snd, erule P_ofold_heap)
    (assumption | erule (1) P_delNeq P_setValOfField | erule some_elims)+

lemma P_replaceRngByInt: "replaceRngByInt val h = Some h' \<Longrightarrow> P h \<Longrightarrow> P h'"
  unfolding replaceRngByInt_def
  by (elim heap_elims; hypsubst?; (elim P_modVal)?; (assumption | rule val_frame_set | elim P_ofold_snd P_wrapIntVal P_setValueOf)+)

lemma P_setCustomRng: "setCustomRng val rng h = Some h' \<Longrightarrow> P h \<Longrightarrow> P h'"
  unfolding setCustomRng_def
  by (elim heap_elims; hypsubst?; (assumption | rule val_frame_set | elim P_replaceRngByInt P_modVal)+)

lemma P_trimCustomValue: "trimCustomValue val win h = Some h' \<Longrightarrow> P h \<Longrightarrow> P h'"
  unfolding trimCustomValue_def Let_def
  by (elim heap_elims; hypsubst?; erule P_ofold_heap; (assumption | erule (1) P_setCustomRng | erule some_elims)+)

lemma P_replaceRngByOff: "replaceRngByOff anchor root off h = Some h' \<Longrightarrow> P h \<Longrightarrow> P h'"
  unfolding replaceRngByOff_def
  by (elim heap_elims; hypsubst?; erule P_ofold_heap; (assumption | erule heap_elims | hypsubst | elim P_valReplace P_valByOffset)+)

lemma P_valRestrictRange:
  assumes "valRestrictRange val win h = Some h'" "P h"
  shows "P h'"
proof -
  from assms(1) obtain v where v: "getVal val h = Some v" by (auto simp: valRestrictRange_def bind_eq_Some_conv)
  show ?thesis
  proof (cases "val_code v = VT_RANGE")
    case False
    with assms v show ?thesis
      by (auto simp: valRestrictRange_def bind_eq_Some_conv split: EValueTarget.splits
          elim: P_trimCustomValue elim!: P_valReplace P_valWrapCustom)
  next
    case True
    then obtain a rng w h1 s where a: "getVal (val_anchor v) h = Some a" "range_of a = Some rng"
      and h1: "modVal (val_anchor v) (\<lambda>a. a\<lparr>val_part := RangeValue (rangeDeps (val_part a)) (rangeOffMap (val_part a)) w\<rparr>) h = Some h1"
      and rest: "(if \<not> s then Some h1 else replaceRngByOff (val_anchor v) (val_root a) (lo w) h1) = Some h'"
      using assms(1) v by (auto simp: valRestrictRange_def bind_eq_Some_conv Let_def)
    have "P h1"
      by (rule P_modVal [OF h1 _ assms(2)]) (use a in \<open>auto simp: range_of.simps addr_of.simps val_frame_def split: val_part.splits\<close>)
    with rest show ?thesis by (auto split: if_splits elim: P_replaceRngByOff)
  qed
qed

lemma P_transferBlock: "transferBlock dr sr d b sz h = Some h' \<Longrightarrow> P h \<Longrightarrow> P h'"
  unfolding transferBlock_def Let_def
  by (elim heap_elims; hypsubst?; (erule P_ofold_heap)?; (assumption | rule refl | erule (1) P_copySingleLiveBlock | erule heap_elims | hypsubst)+)

lemma P_fldLookup_by: "fldLookup_by mb best obj off t p h = Some (fld, h') \<Longrightarrow> P h \<Longrightarrow> P h'"
  unfolding fldLookup_by_def
  by (elim heap_elims; hypsubst?; (assumption | erule (1) P_fldCreate))

lemma P_ptrLookup: "ptrLookup obj off h = Some (fld, h') \<Longrightarrow> P h \<Longrightarrow> P h'"
  by (auto simp: ptrLookup_def Let_def bind_eq_Some_conv elim: P_fldLookup_by)

lemma P_fldLookup: "fldLookup obj off t h = Some (fld, h') \<Longrightarrow> P h \<Longrightarrow> P h'"
  by (auto simp: fldLookup_def bind_eq_Some_conv elim: P_fldLookup_by)

lemma P_fldHandle_new: "fldHandle_new obj t off h = Some (fld, h') \<Longrightarrow> P h \<Longrightarrow> P h'"
  by (auto simp: fldHandle_new_def bind_eq_Some_conv elim!: P_handleEnter P_fldLookup)

lemma P_ptrHandle_new: "ptrHandle_new obj off h = Some (fld, h') \<Longrightarrow> P h \<Longrightarrow> P h'"
  by (auto simp: ptrHandle_new_def bind_eq_Some_conv elim!: P_handleEnter P_ptrLookup)

lemma P_valOfPtr: "valOfPtr obj off h = Some (val, h') \<Longrightarrow> P h \<Longrightarrow> P h'"
  by (auto simp: valOfPtr_def bind_eq_Some_conv elim!: P_handleLeave P_valueOf P_ptrHandle_new)

lemma P_nextObj: "nextObj obj off h = Some (o', h') \<Longrightarrow> P h \<Longrightarrow> P h'"
  by (auto simp: nextObj_def bind_eq_Some_conv split: if_splits elim!: P_valOfPtr)

lemma P_translateValId: "translateValId val dst src m = Some (v, h') \<Longrightarrow> P dst \<Longrightarrow> P h'"
  by (auto simp: translateValId_def bind_eq_Some_conv Let_def split: if_splits elim!: P_valByRange)

lemma P_translateValProto: "translateValProto val dst src = Some (v, h') \<Longrightarrow> P dst \<Longrightarrow> P h'"
  by (auto simp: translateValProto_def bind_eq_Some_conv split: if_splits elim: P_valCreate_pub)

lemma P_translatePair: "translatePair p dst src m = Some (v, h') \<Longrightarrow> P dst \<Longrightarrow> P h'"
  by (auto simp: translatePair_def bind_eq_Some_conv split: option.splits elim!: P_translateValId)

lemma P_copyRelevantPreds: "copyRelevantPreds dst m src = Some h' \<Longrightarrow> P dst \<Longrightarrow> P h'"
  unfolding copyRelevantPreds_def
  by (elim heap_elims, erule P_ofold_heap, erule P_ofold_heap)
    (assumption | erule heap_elims | hypsubst | elim P_translatePair P_addNeq | rule P_coinDb)+

lemma P_redirectRefs: "redirectRefs pf pt pw rt rw s h = Some (b, h') \<Longrightarrow> P h \<Longrightarrow> P h'"
  unfolding redirectRefs_def Let_def
  apply (elim heap_elims; hypsubst?; erule P_dropHandles; drule P_ofold [where g = snd])
    apply (simp, erule (1) P_pointedBy)
   apply (elim heap_elims; hypsubst?; simp only: snd_conv;
      (assumption | elim P_valueOf P_addrOfTarget P_valByRange P_valByOffset P_setValOfField)+)
  apply simp
  done

lemma P_redirectRefsNotFrom: "redirectRefsNotFrom pf pt rt rw f h = Some h' \<Longrightarrow> P h \<Longrightarrow> P h'"
  unfolding redirectRefsNotFrom_def
  by (elim heap_elims; hypsubst?; erule P_dropHandles; erule P_ofold_heap, erule (1) P_pointedBy)
    (elim heap_elims; hypsubst?; (assumption | elim P_valueOf P_addrOfTarget P_valByRange P_setValOfField)+)

lemma P_transferOutgoingEdges: "transferOutgoingEdges a b h = Some h' \<Longrightarrow> P h \<Longrightarrow> P h'"
  unfolding transferOutgoingEdges_def
  by (elim heap_elims; hypsubst?; erule P_dropHandles; erule P_ofold_heap, erule (1) P_gatherLiveFields)
    (elim heap_elims; hypsubst?; (assumption | elim P_valueOf P_fldHandle_new P_setValOfField P_handleLeave)+)

end

sublocale block_ops_all \<subseteq> ops: heap_ops P
  by unfold_locales (auto intro: P_putBlock P_setValueOf P_setValOfField P_fldCreate P_valueOf P_copySingleLiveBlock)

end
