(* ===== verification/HeapEvol.thy ===== *)
theory HeapEvol
  imports HeapRel
begin

text \<open>
  How a heap evolves under its public operations: ids are handed out once, a value keeps its identity for ever,
  and an operation on fields and values leaves the objects alone.  The relation \<open>heap_step\<close> is one call of a
  public operation of \<open>SymHeapCore\<close>; the invariants of the following theories are proved for every run of it from
  a new heap.
\<close>

section \<open>The ids of a heap\<close>

text \<open>Every id in use has been handed out: it lies below the counter of the store.\<close>

definition fresh_ids :: "sheap \<Rightarrow> bool" where
  "fresh_ids h \<longleftrightarrow> 0 \<le> entCnt h \<and> (\<forall>i. ents h i \<noteq> None \<longrightarrow> 0 \<le> i \<and> i < entCnt h)"

lemma fresh_ids_bounds:
  "fresh_ids h \<Longrightarrow> getVal i h = Some v \<Longrightarrow> 0 \<le> i \<and> i < entCnt h"
  "fresh_ids h \<Longrightarrow> getBlock i h = Some b \<Longrightarrow> 0 \<le> i \<and> i < entCnt h"
  "fresh_ids h \<Longrightarrow> getRegion i h = Some r \<Longrightarrow> 0 \<le> i \<and> i < entCnt h"
  by (auto simp: fresh_ids_def getVal_def getBlock_def getRegion_def split: option.splits)

lemma fresh_ids_next [simp]:
  "fresh_ids h \<Longrightarrow> getVal (entCnt h) h = None"
  "fresh_ids h \<Longrightarrow> getBlock (entCnt h) h = None"
  "fresh_ids h \<Longrightarrow> getRegion (entCnt h) h = None"
  using fresh_ids_bounds [of h "entCnt h"] by (metis less_irrefl not_Some_eq)+

lemma fresh_ids_prims:
  "fresh_ids h \<Longrightarrow> getVal i h = Some v \<Longrightarrow> fresh_ids (putEnt i e h)"
  "fresh_ids h \<Longrightarrow> getRegion i h = Some r \<Longrightarrow> fresh_ids (putEnt i e h)"
  "fresh_ids h \<Longrightarrow> getBlock i h = Some b \<Longrightarrow> fresh_ids (putEnt i e h)"
  "fresh_ids h \<Longrightarrow> fresh_ids (releaseEnt i h)"
  "fresh_ids h \<Longrightarrow> fresh_ids (allocEnt e h)"
  "fresh_ids h \<Longrightarrow> fresh_ids (h\<lparr>liveObjs := l, cVarMap := cm, cValueMap := m, coinDb := c, neqDb := n\<rparr>)"
  using fresh_ids_bounds [of h i] by (auto simp: fresh_ids_def putEnt_def releaseEnt_def allocEnt_def)

text \<open>
  What stays of an id that has been handed out: a value keeps its identity, a region stays a region, a block stays
  a block or is released, and no id gets a new meaning.
\<close>

definition keeps_ids :: "sheap \<Rightarrow> sheap \<Rightarrow> bool" where
  "keeps_ids h h' \<longleftrightarrow> entCnt h \<le> entCnt h' \<and>
     (\<forall>i v. getVal i h = Some v \<longrightarrow> (\<exists>v'. getVal i h' = Some v' \<and> val_same v v')) \<and>
     (\<forall>i. getRegion i h \<noteq> None \<longrightarrow> getRegion i h' \<noteq> None) \<and>
     (\<forall>i < entCnt h. (getVal i h = None \<longrightarrow> getVal i h' = None) \<and> (getRegion i h = None \<longrightarrow> getRegion i h' = None) \<and>
        (getBlock i h = None \<longrightarrow> getBlock i h' = None))"

definition evolves :: "sheap \<Rightarrow> sheap \<Rightarrow> bool" where
  "evolves h h' \<longleftrightarrow> (fresh_ids h \<longrightarrow> fresh_ids h' \<and> keeps_ids h h') \<and> storOf h' = storOf h \<and>
     bypassSelfChecks h' = bypassSelfChecks h"

lemma keeps_ids_trans:
  assumes "keeps_ids h1 h2" "keeps_ids h2 h3" shows "keeps_ids h1 h3"
  using assms val_same_trans unfolding keeps_ids_def by (meson less_le_trans order_trans)

lemma evolves_refl [simp]: "evolves h h"
  by (simp add: evolves_def keeps_ids_def)

lemma evolves_trans: "evolves h1 h2 \<Longrightarrow> evolves h2 h3 \<Longrightarrow> evolves h1 h3"
  unfolding evolves_def using keeps_ids_trans [of h1 h2 h3] by simp

lemma evolves_prims:
  "getVal i h = Some v \<Longrightarrow> val_same v v' \<Longrightarrow> evolves h (putEnt i (EntVal v') h)"
  "getRegion i h = Some r \<Longrightarrow> evolves h (putEnt i (EntRegion r') h)"
  "getBlock i h = Some b \<Longrightarrow> evolves h (putEnt i (EntBlock b') h)"
  "getVal i h = None \<Longrightarrow> getRegion i h = None \<Longrightarrow> evolves h (releaseEnt i h)"
  "evolves h (allocEnt e h)"
  "evolves h (h\<lparr>liveObjs := l, cVarMap := cm, cValueMap := m, coinDb := c, neqDb := n\<rparr>)"
  by (auto simp: evolves_def keeps_ids_def fresh_ids_prims dest: get_exclusive fresh_ids_bounds)

text \<open>Every value has a root, which is its own root.\<close>

definition roots_ok :: "sheap \<Rightarrow> bool" where
  "roots_ok h \<longleftrightarrow> fresh_ids h \<and>
     (\<forall>i v. getVal i h = Some v \<longrightarrow> (\<exists>r. getVal (val_root v) h = Some r \<and> val_root r = val_root v))"

lemma roots_okD: "roots_ok h \<Longrightarrow> getVal i h = Some v \<Longrightarrow> \<exists>r. getVal (val_root v) h = Some r \<and> val_root r = val_root v"
  unfolding roots_ok_def by blast

lemma roots_ok_putVal:
  assumes "roots_ok h" "getVal i h = Some v" "val_same v v'"
  shows "roots_ok (putEnt i (EntVal v') h)"
  unfolding roots_ok_def
proof (intro conjI allI impI)
  show "fresh_ids (putEnt i (EntVal v') h)" using assms by (auto simp: roots_ok_def fresh_ids_prims)
  fix j w
  assume "getVal j (putEnt i (EntVal v') h) = Some w"
  then obtain u where u: "getVal j h = Some u" "val_root u = val_root w"
    using assms(2,3) by (cases "j = i") (auto simp: val_same_def)
  from roots_okD [OF assms(1) u(1)] u(2) assms(2,3)
  show "\<exists>r. getVal (val_root w) (putEnt i (EntVal v') h) = Some r \<and> val_root r = val_root w"
    by (cases "val_root w = i") (auto simp: val_same_def)
qed

lemma roots_ok_alloc:
  assumes "roots_ok h" "new_val_ok h v"
  shows "roots_ok (allocEnt (EntVal v) h)"
  unfolding roots_ok_def
proof (intro conjI allI impI)
  have f: "fresh_ids h" using assms(1) by (simp add: roots_ok_def)
  then show "fresh_ids (allocEnt (EntVal v) h)" by (simp add: fresh_ids_prims)
  have old: "\<exists>r. getVal (val_root u) (allocEnt (EntVal v) h) = Some r \<and> val_root r = val_root u" if "getVal j h = Some u" for j u
    using roots_okD [OF assms(1) that] fresh_ids_bounds(1) [OF f] by fastforce
  fix j w
  assume j: "getVal j (allocEnt (EntVal v) h) = Some w"
  show "\<exists>r. getVal (val_root w) (allocEnt (EntVal v) h) = Some r \<and> val_root r = val_root w"
  proof (cases "j = entCnt h")
    case True
    with j have "w = v" by simp
    with assms(2) old show ?thesis by (simp add: new_val_ok_def) (metis (no_types))
  qed (use j old in auto)
qed

lemma roots_ok_same_vals: "roots_ok h \<Longrightarrow> fresh_ids h' \<Longrightarrow> (\<And>i. getVal i h' = getVal i h) \<Longrightarrow> roots_ok h'"
  by (simp add: roots_ok_def)

lemma getVal_others:
  assumes "fresh_ids h"
  shows "getRegion i h = Some r \<Longrightarrow> getVal j (putEnt i (EntRegion r') h) = getVal j h"
    "getBlock i h = Some b \<Longrightarrow> getVal j (putEnt i (EntBlock b') h) = getVal j h"
    "getBlock i h = Some b \<Longrightarrow> getVal j (releaseEnt i h) = getVal j h"
    "getVal j (allocEnt (EntBlock b') h) = getVal j h"
  using fresh_ids_next(1) [OF assms] by (auto dest: get_exclusive)

lemma roots_ok_release: "roots_ok h \<Longrightarrow> getVal i h = None \<Longrightarrow> roots_ok (releaseEnt i h)"
  by (rule roots_ok_same_vals) (auto simp: fresh_ids_prims roots_ok_def)

lemma roots_ok_others:
  assumes "roots_ok h"
  shows "getRegion i h = Some r \<Longrightarrow> roots_ok (putEnt i (EntRegion r') h)"
    "getBlock i h = Some b \<Longrightarrow> roots_ok (putEnt i (EntBlock b') h)"
    "getBlock i h = Some b \<Longrightarrow> roots_ok (releaseEnt i h)"
    "roots_ok (allocEnt (EntBlock b') h)"
    "roots_ok (h\<lparr>cValueMap := m, coinDb := c, neqDb := n\<rparr>)"
proof -
  have f: "fresh_ids h" using assms by (simp add: roots_ok_def)
  show "getRegion i h = Some r \<Longrightarrow> roots_ok (putEnt i (EntRegion r') h)"
    "getBlock i h = Some b \<Longrightarrow> roots_ok (putEnt i (EntBlock b') h)"
    "getBlock i h = Some b \<Longrightarrow> roots_ok (releaseEnt i h)"
    "roots_ok (allocEnt (EntBlock b') h)"
    by (rule roots_ok_same_vals [OF assms]; (simp add: fresh_ids_prims [OF f]; fail | simp only: getVal_others [OF f]))+
  show "roots_ok (h\<lparr>cValueMap := m, coinDb := c, neqDb := n\<rparr>)"
    using assms fresh_ids_prims(6) [OF f, where l = "liveObjs h" and cm = "cVarMap h"] by (intro roots_ok_same_vals [OF assms]) simp_all
qed

text \<open>An operation on fields and values leaves the objects as such alone.\<close>

definition frame_objs :: "sheap \<Rightarrow> sheap \<Rightarrow> bool" where
  "frame_objs h h' \<longleftrightarrow> liveObjs h' = liveObjs h \<and> cVarMap h' = cVarMap h \<and>
     (fresh_ids h \<longrightarrow> (\<forall>i r. getRegion i h = Some r \<longrightarrow> (\<exists>r'. getRegion i h' = Some r' \<and> reg_same r r')) \<and>
        (\<forall>i. getRegion i h = None \<longrightarrow> getRegion i h' = None))"

definition field_step :: "sheap \<Rightarrow> sheap \<Rightarrow> bool" where
  "field_step h h' \<longleftrightarrow> evolves h h' \<and> frame_objs h h' \<and> (roots_ok h \<longrightarrow> roots_ok h')"

lemma field_step_refl [simp]: "field_step h h"
  by (simp add: field_step_def frame_objs_def)

lemma field_step_trans:
  assumes "field_step h1 h2" "field_step h2 h3" shows "field_step h1 h3"
proof -
  have "\<exists>r'. getRegion i h3 = Some r' \<and> reg_same r r'" if f: "fresh_ids h1" and r: "getRegion i h1 = Some r" for i r
  proof -
    have "fresh_ids h2" using assms(1) f by (simp add: field_step_def evolves_def)
    moreover obtain r2 where "getRegion i h2 = Some r2" "reg_same r r2"
      using assms(1) f r unfolding field_step_def frame_objs_def by blast
    ultimately show ?thesis
      using assms(2) reg_same_trans [of r r2] by (fastforce simp: field_step_def frame_objs_def)
  qed
  then show ?thesis using assms evolves_trans [of h1 h2 h3] by (auto simp: field_step_def frame_objs_def evolves_def)
qed

lemma field_step_prims:
  "getVal i h = Some v \<Longrightarrow> val_same v v' \<Longrightarrow> field_step h (putEnt i (EntVal v') h)"
  "getRegion i h = Some r \<Longrightarrow> reg_same r r' \<Longrightarrow> field_step h (putEnt i (EntRegion r') h)"
  "getBlock i h = Some b \<Longrightarrow> field_step h (putEnt i (EntBlock b') h)"
  "getBlock i h = Some b \<Longrightarrow> field_step h (releaseEnt i h)"
  "new_val_ok h w \<Longrightarrow> field_step h (allocEnt (EntVal w) h)"
  "field_step h (allocEnt (EntBlock b') h)"
  "field_step h (h\<lparr>cValueMap := m, coinDb := c, neqDb := n\<rparr>)"
  using evolves_prims(6) [where h = h and l = "liveObjs h" and cm = "cVarMap h"]
  by (auto simp: field_step_def evolves_prims frame_objs_def roots_ok_putVal roots_ok_alloc roots_ok_others
      dest: get_exclusive fresh_ids_bounds)

interpretation fs: block_ops_all "field_step h0" for h0
  by unfold_locales (auto simp: val_frame_def elim!: field_step_trans intro!: field_step_prims)


section \<open>Operations on objects\<close>

lemma fs_fldDestroy: "fldDestroy fld rv dt h = Some h' \<Longrightarrow> field_step h0 h \<Longrightarrow> field_step h0 h'"
  by (rule fs.P_fldDestroy) auto

text \<open>The steps of an invalidation, of a clone and of a copy of raw memory.\<close>

lemma objInvalidateE:
  assumes "objInvalidate_core obj h = Some h'"
  obtains h1 r h2 h3 where
    "isValid obj h = Some True \<or> obj = OBJ_RETURN"
    "modRegion obj (\<lambda>r. r\<lparr>reg_isValid := False,
        reg_lastKnownClt := (if OBJ_RETURN = obj then 0 else reg_lastKnownClt r)\<rparr>) h = Some h1"
    "getRegion obj h1 = Some r"
    "(if cv_uid (reg_cVar r) \<noteq> - 1 then do {
        m \<leftarrow> cvm_remove (reg_cVar r) (cVarMap h1);
        Some (h1\<lparr>cVarMap := m\<rparr>)
      } else Some h1) = Some h2"
    "(if 0 < hi (reg_size r) then do {
        allObjs \<leftarrow> arenaLookup (reg_arena r) (0, hi (reg_size r)) FLD_INVALID;
        ofold (\<lambda>fld h. fldDestroy fld True False h) (sorted_list_of_set allObjs) (h2\<lparr>liveObjs := liveObjs h2 - {obj}\<rparr>)
      } else Some (h2\<lparr>liveObjs := liveObjs h2 - {obj}\<rparr>)) = Some h3"
    "modRegion obj (\<lambda>r. r\<lparr>reg_liveFields := [], reg_arena := arena_clear (reg_arena r)\<rparr>) h3 = Some h'"
  using assms unfolding objInvalidate_core_def Let_def
  by (elim bind_SomeE; elim break_SomeE) (rule that; (assumption | auto)?)

lemma rewriteTargetE:
  assumes "rewriteTargetOfBase root objNew h = Some h'"
  obtains rv objOld ts h1 rOld rNew moved unrelated h2 where
    "getVal root h = Some rv" "addr_of rv = Some (objOld, ts)" "objOld \<noteq> objNew"
    "modVal root (\<lambda>v. v\<lparr>val_part := BaseAddress (addrDeps (val_part v)) (addrOffMap (val_part v)) objNew ts\<rparr>) h = Some h1"
    "getRegion objOld h1 = Some rOld" "getRegion objNew h1 = Some rNew"
    "ofold (\<lambda>fld (moved, unrelated). do {
         (b, _) \<leftarrow> getField fld h1;
         v \<leftarrow> getVal (blk_value b) h1;
         Some (if val_root v = root then (insert fld moved, unrelated) else (moved, insert fld unrelated))
       }) (sorted_list_of_set (reg_usedByGl rOld)) ({}, {}) = Some (moved, unrelated)"
    "modRegion objOld (\<lambda>r. r\<lparr>reg_addrByTS := (reg_addrByTS r)(ts := None), reg_usedByGl := unrelated\<rparr>) h1 = Some h2"
    "modRegion objNew (\<lambda>r. r\<lparr>reg_addrByTS := (reg_addrByTS r)(ts \<mapsto> root), reg_usedByGl := reg_usedByGl r \<union> moved\<rparr>) h2 = Some h'"
  using assms unfolding rewriteTargetOfBase_def
  by (elim bind_SomeE prod_SomeE break_SomeE; hypsubst?) (rule that; assumption)

lemma fs_rewriteTargetOfBase:
  assumes "rewriteTargetOfBase root objNew h = Some h'"
  shows "field_step h h'"
  using assms
proof (rule rewriteTargetE)
  fix rv objOld ts h1 h2 moved unrelated
  assume "getVal root h = Some rv" "addr_of rv = Some (objOld, ts)"
    "modVal root (\<lambda>v. v\<lparr>val_part := BaseAddress (addrDeps (val_part v)) (addrOffMap (val_part v)) objNew ts\<rparr>) h = Some h1"
  then have "field_step h h1"
    by (auto simp: modVal_eq_Some addr_of.simps split: val_part.splits intro!: field_step_prims)
  moreover assume "modRegion objOld (\<lambda>r. r\<lparr>reg_addrByTS := (reg_addrByTS r)(ts := None), reg_usedByGl := unrelated\<rparr>) h1 = Some h2"
    "modRegion objNew (\<lambda>r. r\<lparr>reg_addrByTS := (reg_addrByTS r)(ts \<mapsto> root), reg_usedByGl := reg_usedByGl r \<union> moved\<rparr>) h2 = Some h'"
  ultimately show ?thesis by (auto elim!: fs.P_modRegion simp: reg_same_def reg_wf_def)
qed

lemma objCloneE:
  assumes "objClone_core obj h = Some (dup, h')"
  obtains src h1 where "getRegion obj h = Some src" "dup = entCnt h"
    "h1 = (let h1 = allocEnt (EntRegion ((new_region (reg_code src))\<lparr>reg_cVar := reg_cVar src, reg_size := reg_size src,
        reg_lastKnownClt := reg_lastKnownClt src, reg_isValid := reg_isValid src, reg_protoLevel := reg_protoLevel src\<rparr>)) h
      in if reg_isValid src then h1\<lparr>liveObjs := insert dup (liveObjs h1)\<rparr> else h1)"
    "ofold (\<lambda>(fld, code) h. map_option snd (copySingleLiveBlock dup fld code 0 0 h)) (reg_liveFields src) h1 = Some h'"
  using assms unfolding objClone_core_def Let_def assign_eq prod.case
  by (elim heap_elims) (rule that; (assumption | simp)?)

lemma copyBlockE:
  assumes "copyBlockOfRawMemory dst src sz kp h = Some (kp', h')"
  obtains "kp' = kp" "h' = h"
  | objDst off bl h1 h2 h3 t s o1 o2 where
    "writeUniformBlock objDst \<lparr>ub_off = off, ub_size = sz, ub_tplValue = VAL_NULL\<rparr> kp h = Some (bl, kp', h1)" "sz \<noteq> 0"
    "modLive objDst (omap_erase bl) h1 = Some h2"
    "modArena objDst (arena_minus (createArenaItem off sz bl)) h2 = Some h3"
    "transferBlock t s o1 o2 sz (releaseEnt bl h3) = Some h'"
  using assms unfolding copyBlockOfRawMemory_def Let_def
  by (elim heap_elims; hypsubst?) (rule that; (assumption | simp)?)+


lemma writeUniformE:
  assumes "writeUniformBlock obj ub kp h = Some (bl, kp', h')" "ub_size ub \<noteq> 0"
  obtains b h1 h2 ov where "bl = entCnt h"
    "b = \<lparr>blk_code = BK_UNIFORM, blk_obj = obj, blk_off = ub_off ub, blk_size = ub_size ub, blk_value = ub_tplValue ub, blk_fld = None\<rparr>"
    "modLive obj (omap_put bl BK_UNIFORM) (allocEnt (EntBlock b) h) = Some h1"
    "modArena obj (arena_plus (createArenaItem (ub_off ub) (ub_size ub) bl)) h1 = Some h2"
    "reinterpretAll ov bl kp h2 = Some (kp', h')"
proof -
  show thesis
    using assms by (simp add: writeUniformBlock_def Let_def, elim bind_SomeE prod_SomeE)
      (rule that; (assumption | simp)?)
qed

text \<open>A block that is allocated and released again.\<close>

lemma field_step_release:
  assumes "field_step (allocEnt (EntBlock b) h) h'"
  shows "field_step h (releaseEnt (entCnt h) h')"
proof -
  have s: "field_step h h'" by (rule field_step_trans [OF field_step_prims(6) assms])
  have n: "getVal (entCnt h) h' = None \<and> getRegion (entCnt h) h' = None" if "fresh_ids h"
    using assms fresh_ids_prims(5) [OF that] by (auto simp: field_step_def evolves_def keeps_ids_def)
  have "evolves h (releaseEnt (entCnt h) h')"
  proof (cases "fresh_ids h")
    case True
    with s n evolves_trans [OF _ evolves_prims(4)] show ?thesis by (auto simp: field_step_def)
  qed (use s in \<open>auto simp: field_step_def evolves_def\<close>)
  moreover have "roots_ok h \<longrightarrow> roots_ok (releaseEnt (entCnt h) h')"
    using s n by (auto simp: field_step_def roots_ok_def [of h] intro!: roots_ok_release)
  ultimately show ?thesis using s n by (auto simp: field_step_def frame_objs_def dest: fresh_ids_bounds)
qed

lemma fs_copyBlockOfRawMemory:
  assumes "copyBlockOfRawMemory dst src sz kp h = Some (kp', h')"
  shows "field_step h h'"
  using assms
proof (rule copyBlockE)
  fix objDst off bl h1 h2 h3 t s o1 o2
  let ?ub = "\<lparr>ub_off = off, ub_size = sz, ub_tplValue = VAL_NULL\<rparr>"
  assume w: "writeUniformBlock objDst ?ub kp h = Some (bl, kp', h1)" and sz: "sz \<noteq> 0"
    and h2: "modLive objDst (omap_erase bl) h1 = Some h2"
    and h3: "modArena objDst (arena_minus (createArenaItem off sz bl)) h2 = Some h3"
    and tr: "transferBlock t s o1 o2 sz (releaseEnt bl h3) = Some h'"
  from w sz obtain b g1 g2 ov where bl: "bl = entCnt h"
    and g: "modLive objDst (omap_put bl BK_UNIFORM) (allocEnt (EntBlock b) h) = Some g1"
      "modArena objDst (arena_plus (createArenaItem off sz bl)) g1 = Some g2"
      "reinterpretAll ov bl kp g2 = Some (kp', h1)"
    by (auto elim!: writeUniformE)
  have s3: "field_step (allocEnt (EntBlock b) h) h3"
    using h3 h2 g by (elim fs.P_modArena fs.P_modLive fs.P_reinterpretAll) auto
  have "field_step h (releaseEnt bl h3)"
    unfolding bl by (rule field_step_release [OF s3])
  then show ?thesis using tr by (auto elim: fs.ops.P_transferBlock)
qed auto


section \<open>Runs of a heap\<close>

text \<open>
  One call of a public operation that changes a heap.  \<open>heap_op\<close> has the operations that \<open>SymHeap\<close> inherits,
  \<open>heap_step\<close> those of \<open>SymHeapCore\<close>, where cloning and invalidation are not yet overridden, and the
  step \<open>other\<close> of another heap that hands out ids of the counter which all copies of a heap share.  The operations of
  \<open>src/sl/symutil.cc\<close> are sequences of them.
\<close>

inductive heap_op :: "sheap \<Rightarrow> sheap \<Rightarrow> bool" where
  "valCreate_pub code origin h = Some (val, h') \<Longrightarrow> heap_op h h'"
| "valWrapCustom cv h = Some (val, h') \<Longrightarrow> heap_op h h'"
| "valByOffset ad off h = Some (val, h') \<Longrightarrow> heap_op h h'"
| "valByRange ad rng h = Some (val, h') \<Longrightarrow> heap_op h h'"
| "valShift v s h = Some (val, h') \<Longrightarrow> heap_op h h'"
| "diffPointers v1 v2 h = Some (val, h') \<Longrightarrow> heap_op h h'"
| "addrOfTarget obj ts off h = Some (val, h') \<Longrightarrow> heap_op h h'"
| "placedAt fld h = Some (val, h') \<Longrightarrow> heap_op h h'"
| "valRestrictRange val win h = Some h' \<Longrightarrow> heap_op h h'"
| "valReplace val repl h = Some h' \<Longrightarrow> heap_op h h'"
| "addNeq v1 v2 h = Some h' \<Longrightarrow> heap_op h h'"
| "delNeq v1 v2 h = Some h' \<Longrightarrow> heap_op h h'"
| "copyRelevantPreds h m src = Some h' \<Longrightarrow> heap_op h h'"
| "fldLookup obj off t h = Some (fld, h') \<Longrightarrow> heap_op h h'"
| "ptrLookup obj off h = Some (fld, h') \<Longrightarrow> heap_op h h'"
| "fldEnter fld h = Some h' \<Longrightarrow> heap_op h h'"
| "fldLeave fld h = Some h' \<Longrightarrow> heap_op h h'"
| "usedBy val live h = Some (flds, h') \<Longrightarrow> heap_op h h'"
| "pointedBy obj h = Some (flds, h') \<Longrightarrow> heap_op h h'"
| "gatherLiveFields obj h = Some (flds, h') \<Longrightarrow> heap_op h h'"
| "valueOf fld h = Some (val, h') \<Longrightarrow> heap_op h h'"
| "setValOfField fld val kp h = Some (kp', h') \<Longrightarrow> heap_op h h'"
| "writeUniformBlock obj ub kp h = Some (bl, kp', h') \<Longrightarrow> heap_op h h'"
| "copyBlockOfRawMemory dst src sz kp h = Some (kp', h') \<Longrightarrow> heap_op h h'"
| "regionByVar cv create h = Some (obj, h') \<Longrightarrow> heap_op h h'"
| "stackAlloc sz from h = Some (obj, h') \<Longrightarrow> heap_op h h'"
| "heapAlloc sz h = Some (obj, h') \<Longrightarrow> heap_op h h'"
| "objSetSize obj sz h = Some h' \<Longrightarrow> heap_op h h'"
| "objSetEstimatedType obj t h = Some h' \<Longrightarrow> heap_op h h'"
| "objSetProtoLevel obj level h = Some h' \<Longrightarrow> heap_op h h'"
| "rewriteTargetOfBase root obj h = Some h' \<Longrightarrow> heap_op h h'"

inductive heap_step :: "sheap \<Rightarrow> sheap \<Rightarrow> bool" where
  op: "heap_op h h' \<Longrightarrow> heap_step h h'"
| clone: "objClone_core obj h = Some (dup, h') \<Longrightarrow> heap_step h h'"
| invalidate: "objInvalidate_core obj h = Some h' \<Longrightarrow> heap_step h h'"
| other: "entCnt h \<le> n \<Longrightarrow> heap_step h (h\<lparr>entCnt := n\<rparr>)"

lemmas fs_ops = fs.P_valCreate_pub fs.P_valWrapCustom fs.P_valByOffset fs.P_valByRange fs.P_valShift fs.P_diffPointers
  fs.P_addrOfTarget fs.ops.P_placedAt fs.ops.P_valRestrictRange fs.ops.P_valReplace fs.ops.P_addNeq fs.ops.P_delNeq
  fs.ops.P_copyRelevantPreds fs.ops.P_fldLookup fs.ops.P_ptrLookup fs.ops.P_fldEnter fs.ops.P_fldLeave fs.ops.P_usedBy
  fs.ops.P_pointedBy fs.ops.P_gatherLiveFields fs.P_valueOf fs.P_setValOfField fs.P_writeUniformBlock

text \<open>
  An operation on objects is made of operations on fields, updates of regions that keep their containers in order,
  new regions, and updates of the tables of objects.  What all of these keep is kept along every run.
\<close>

locale object_ops =
  fixes P :: "sheap \<Rightarrow> bool"
  assumes P_field_step: "field_step h h' \<Longrightarrow> P h \<Longrightarrow> P h'"
    and P_modRegion: "modRegion i f h = Some h' \<Longrightarrow> (\<And>r. reg_wf r \<Longrightarrow> reg_wf (f r)) \<Longrightarrow> P h \<Longrightarrow> P h'"
    and P_allocRegion: "reg_wf r \<Longrightarrow> P h \<Longrightarrow> P (allocEnt (EntRegion r) h)"
    and P_liveObjs: "P h \<Longrightarrow> P (h\<lparr>liveObjs := l\<rparr>)"
    and P_cVarMap: "P h \<Longrightarrow> P (h\<lparr>cVarMap := c\<rparr>)"
    and P_entCnt: "P h \<Longrightarrow> entCnt h \<le> n \<Longrightarrow> P (h\<lparr>entCnt := n\<rparr>)"
begin

lemmas P_prims = P_allocRegion P_liveObjs P_cVarMap

lemma P_regionByVar: "regionByVar cv c h = Some (obj, h') \<Longrightarrow> P h \<Longrightarrow> P h'"
  by (auto simp: regionByVar_def bind_eq_Some_conv Let_def split: if_splits intro!: P_prims)

lemma P_stackAlloc: "stackAlloc sz from h = Some (obj, h') \<Longrightarrow> P h \<Longrightarrow> P h'"
  by (auto simp: stackAlloc_def bind_eq_Some_conv elim!: P_modRegion intro!: P_prims)

lemma P_heapAlloc: "heapAlloc sz h = Some (obj, h') \<Longrightarrow> P h \<Longrightarrow> P h'"
  by (auto simp: heapAlloc_def bind_eq_Some_conv Let_def elim!: P_modRegion intro!: P_prims)

lemma P_objSetSize: "objSetSize obj sz h = Some h' \<Longrightarrow> P h \<Longrightarrow> P h'"
  unfolding objSetSize_def
  by (elim heap_elims; hypsubst?; erule P_modRegion; (simp; fail)?; (assumption | rule P_field_step, erule fs.P_ofold_heap)?)
    (assumption | rule field_step_refl | erule heap_elims | elim fs_fldDestroy fs.P_modLive)+

lemma P_objInvalidate:
  assumes "objInvalidate_core obj h = Some h'" "P h"
  shows "P h'"
  using assms(1)
proof (rule objInvalidateE)
  fix h1 r h2 h3
  assume h1: "modRegion obj (\<lambda>r. r\<lparr>reg_isValid := False,
        reg_lastKnownClt := (if OBJ_RETURN = obj then 0 else reg_lastKnownClt r)\<rparr>) h = Some h1"
    and h2: "(if cv_uid (reg_cVar r) \<noteq> - 1 then do {
        m \<leftarrow> cvm_remove (reg_cVar r) (cVarMap h1);
        Some (h1\<lparr>cVarMap := m\<rparr>)
      } else Some h1) = Some h2"
    and h3: "(if 0 < hi (reg_size r) then do {
        allObjs \<leftarrow> arenaLookup (reg_arena r) (0, hi (reg_size r)) FLD_INVALID;
        ofold (\<lambda>fld h. fldDestroy fld True False h) (sorted_list_of_set allObjs) (h2\<lparr>liveObjs := liveObjs h2 - {obj}\<rparr>)
      } else Some (h2\<lparr>liveObjs := liveObjs h2 - {obj}\<rparr>)) = Some h3"
    and h': "modRegion obj (\<lambda>r. r\<lparr>reg_liveFields := [], reg_arena := arena_clear (reg_arena r)\<rparr>) h3 = Some h'"
  have "P h1" by (rule P_modRegion [OF h1 _ assms(2)]) simp
  then have "P (h2\<lparr>liveObjs := liveObjs h2 - {obj}\<rparr>)"
    using h2 by (auto simp: bind_eq_Some_conv split: if_splits intro!: P_prims)
  moreover have "field_step (h2\<lparr>liveObjs := liveObjs h2 - {obj}\<rparr>) h3"
    using h3 by (auto simp: bind_eq_Some_conv split: if_splits elim!: fs.P_ofold_heap fs_fldDestroy)
  ultimately have "P h3" by (rule P_field_step [rotated])
  then show ?thesis by (rule P_modRegion [OF h', rotated]) simp
qed

lemma P_objClone:
  assumes "objClone_core obj h = Some (dup, h')" "P h"
  shows "P h'"
  using assms(1)
proof (rule objCloneE)
  fix src h1
  assume h1: "h1 = (let h1 = allocEnt (EntRegion ((new_region (reg_code src))\<lparr>reg_cVar := reg_cVar src, reg_size := reg_size src,
        reg_lastKnownClt := reg_lastKnownClt src, reg_isValid := reg_isValid src, reg_protoLevel := reg_protoLevel src\<rparr>)) h
      in if reg_isValid src then h1\<lparr>liveObjs := insert dup (liveObjs h1)\<rparr> else h1)"
    and cp: "ofold (\<lambda>(fld, code) h. map_option snd (copySingleLiveBlock dup fld code 0 0 h)) (reg_liveFields src) h1 = Some h'"
  have "field_step h1 h'"
    by (rule fs.P_ofold_heap [OF cp field_step_refl]) (auto elim: fs.P_copySingleLiveBlock)
  moreover have "P h1" using assms(2) by (auto simp: h1 Let_def intro!: P_prims)
  ultimately show ?thesis by (rule P_field_step)
qed

lemma P_objSetEstimatedType: "objSetEstimatedType obj t h = Some h' \<Longrightarrow> P h \<Longrightarrow> P h'"
  unfolding objSetEstimatedType_def
  by (elim heap_elims; hypsubst?; (assumption | simp only: reg_wf_updates | elim P_modRegion P_objInvalidate)+)

lemma P_objSetProtoLevel: "objSetProtoLevel obj l h = Some h' \<Longrightarrow> P h \<Longrightarrow> P h'"
  by (auto simp: objSetProtoLevel_def elim: P_modRegion)

lemmas P_object_ops = P_regionByVar P_stackAlloc P_heapAlloc P_objSetSize P_objSetEstimatedType P_objSetProtoLevel

lemma P_heap_op: "heap_op h h' \<Longrightarrow> P h \<Longrightarrow> P h'"
proof (induction rule: heap_op.induct)
qed (rule P_field_step, ((erule fs_ops, rule field_step_refl) | erule fs_copyBlockOfRawMemory fs_rewriteTargetOfBase), assumption
  | erule P_object_ops, assumption)+

lemma P_heap_step: "heap_step h h' \<Longrightarrow> P h \<Longrightarrow> P h'"
  by (induction rule: heap_step.induct) (auto intro: P_heap_op P_objClone P_objInvalidate P_entCnt)

lemma P_heap_run: "heap_step\<^sup>*\<^sup>* h h' \<Longrightarrow> P h \<Longrightarrow> P h'"
  by (induction rule: rtranclp_induct) (auto intro: P_heap_step)

end

lemma evolves_tables:
  "evolves h (h\<lparr>liveObjs := l\<rparr>)" "evolves h (h\<lparr>cVarMap := cm\<rparr>)"
  using evolves_prims(6) [where h = h and cm = "cVarMap h" and m = "cValueMap h" and c = "coinDb h" and n = "neqDb h"]
    evolves_prims(6) [where h = h and l = "liveObjs h" and m = "cValueMap h" and c = "coinDb h" and n = "neqDb h"]
  by auto

lemma evolves_entCnt: "entCnt h \<le> n \<Longrightarrow> evolves h (h\<lparr>entCnt := n\<rparr>)"
  by (auto simp: evolves_def keeps_ids_def fresh_ids_def)

interpretation ev: object_ops "evolves h0" for h0
  by unfold_locales
    (auto simp: field_step_def modRegion_eq_Some intro: evolves_prims evolves_tables evolves_entCnt elim!: evolves_trans)

lemma heap_run_evolves: "heap_step\<^sup>*\<^sup>* h h' \<Longrightarrow> evolves h h'"
  by (rule ev.P_heap_run) auto

section \<open>New heaps\<close>

lemma isSingular_rngFromNum: "RZ_MIN \<le> n \<Longrightarrow> n \<le> RZ_MAX \<Longrightarrow> isSingular (rngFromNum n) = Some True"
  by (simp add: isSingular_eq range_ok_num) (simp add: rngFromNum_def)

text \<open>A new heap, with the four predefined ids.\<close>

definition initial_heap :: "stor \<Rightarrow> bool \<Rightarrow> sheap" where
  "initial_heap st b = \<lparr>storOf = st, bypassSelfChecks = b,
     ents = [0 \<mapsto> EntVal ((new_base_address OBJ_NULL TS_REGION)\<lparr>val_root := 0, val_anchor := 0\<rparr>),
       1 \<mapsto> EntVal ((new_value VT_CUSTOM VO_ASSIGNED (InternalCustomValue [] (CV_INT_RANGE (rngFromNum 1))))\<lparr>val_root := 1, val_anchor := 1\<rparr>),
       2 \<mapsto> EntRegion ((new_region SC_INVALID)\<lparr>reg_addrByTS := [TS_REGION \<mapsto> 0], reg_isValid := False\<rparr>),
       3 \<mapsto> EntRegion (new_region SC_ON_STACK)],
     entCnt = 4, liveObjs = {}, cVarMap = (\<lambda>_. None), cValueMap = cvm_empty\<lparr>numMap := [1 \<mapsto> 1]\<rparr>, coinDb = [], neqDb = {}\<rparr>"

lemma sheap_new_eq: "sheap_new st b = Some (initial_heap st b)"
proof -
  have s: "isSingular (rngFromNum 1) = Some True" by (rule isSingular_rngFromNum) (simp_all add: limits)
  have "lo (rngFromNum 1) = 1" by (simp add: rngFromNum_def)
  with s show ?thesis
    by (simp add: sheap_new_def sheap_empty_def wrapIntVal_def wrapShared_def cvm_lookup_def assignInvalidIfNotFound_def
        cvm_empty_def Let_def wrapFresh_def valCreate_def modVal_def getVal_def putEnt_def allocEnt_def new_value_def initial_heap_def)
qed

lemma fresh_initial [simp]: "fresh_ids (initial_heap st b)"
  by (auto simp: fresh_ids_def initial_heap_def)

text \<open>Allocation on the heap in one step.\<close>

lemma heapAlloc_eq:
  "heapAlloc sz h = (if lo sz < 0 then None else Some (entCnt h,
     (allocEnt (EntRegion ((new_region SC_ON_HEAP)\<lparr>reg_size := sz\<rparr>)) h)\<lparr>liveObjs := insert (entCnt h) (liveObjs h)\<rparr>))"
  by (simp add: heapAlloc_def Let_def modRegion_def) (simp add: allocEnt_def putEnt_def)

section \<open>Ids are handed out once\<close>

text \<open>
  C17: along every run of public operations from a new heap, a value keeps its kind, origin, root, anchor and
  offset, a region stays a region, an id that has been released or that stood for an entity of another class
  never gets a new meaning, and the next id to be handed out has not been in use before.
\<close>

theorem heap_run_keeps_ids:
  assumes "sheap_new st b = Some h0" "heap_step\<^sup>*\<^sup>* h0 h" "heap_step\<^sup>*\<^sup>* h h'"
  shows "keeps_ids h h' \<and> fresh_ids h' \<and> ents h (entCnt h') = None"
proof -
  have h0: "h0 = initial_heap st b" using assms(1) by (simp add: sheap_new_eq)
  have f: "fresh_ids h" using heap_run_evolves [OF assms(2)] by (simp add: h0 evolves_def)
  then have k: "keeps_ids h h' \<and> fresh_ids h'" using heap_run_evolves [OF assms(3)] by (simp add: evolves_def)
  then have "entCnt h \<le> entCnt h'" by (simp add: keeps_ids_def)
  then have "ents h (entCnt h') = None" using f unfolding fresh_ids_def by (meson leD option.exhaust)
  with k show ?thesis by simp
qed

lemma roots_ok_fresh: "roots_ok h \<Longrightarrow> fresh_ids h"
  by (simp add: roots_ok_def)

lemma roots_ok_objects:
  assumes "roots_ok h"
  shows "roots_ok (allocEnt (EntRegion r) h)" "roots_ok (h\<lparr>liveObjs := l\<rparr>)" "roots_ok (h\<lparr>cVarMap := c\<rparr>)"
    "entCnt h \<le> n \<Longrightarrow> roots_ok (h\<lparr>entCnt := n\<rparr>)"
proof -
  note f = roots_ok_fresh [OF assms]
  show "roots_ok (allocEnt (EntRegion r) h)"
    using fresh_ids_next(1) [OF f] by (intro roots_ok_same_vals [OF assms fresh_ids_prims(5) [OF f]]) simp
  show "roots_ok (h\<lparr>liveObjs := l\<rparr>)" "roots_ok (h\<lparr>cVarMap := c\<rparr>)"
    using f by (intro roots_ok_same_vals [OF assms]; simp add: fresh_ids_def)+
  show "roots_ok (h\<lparr>entCnt := n\<rparr>)" if "entCnt h \<le> n"
    using evolves_entCnt [OF that] f by (intro roots_ok_same_vals [OF assms]) (auto simp: evolves_def)
qed

interpretation ro: object_ops roots_ok
proof
  show "field_step h h' \<Longrightarrow> roots_ok h \<Longrightarrow> roots_ok h'" for h h' by (simp add: field_step_def)
  show "modRegion i f h = Some h' \<Longrightarrow> (\<And>r. reg_wf r \<Longrightarrow> reg_wf (f r)) \<Longrightarrow> roots_ok h \<Longrightarrow> roots_ok h'" for i f h h'
    unfolding modRegion_eq_Some by (elim exE conjE, simp only: roots_ok_others)
qed (rule roots_ok_objects; assumption)+

lemma roots_ok_initial: "roots_ok (initial_heap st b)"
  unfolding roots_ok_def by (simp, simp add: initial_heap_def getVal_def new_value_def split: if_splits)

definition wit_alloc :: "sheap \<Rightarrow> sheap" where
  "wit_alloc h = (case heapAlloc (rngFromNum 8) h of Some (_, h') \<Rightarrow> h' | None \<Rightarrow> h)"

lemma wit_alloc_step: "heap_step\<^sup>*\<^sup>* h (wit_alloc h)"
  unfolding wit_alloc_def using heap_step.op [OF heap_op.intros(27)]
  by (intro r_into_rtranclp) (simp add: heapAlloc_eq rngFromNum_def)

theorem heap_run_keeps_ids_witness:
  "keeps_ids (wit_alloc (initial_heap wit_stor True)) (wit_alloc (wit_alloc (initial_heap wit_stor True)))
   \<and> entCnt (wit_alloc (wit_alloc (initial_heap wit_stor True))) = 6"
  using heap_run_keeps_ids [OF sheap_new_eq wit_alloc_step wit_alloc_step, of wit_stor True]
  by (simp add: wit_alloc_def heapAlloc_eq rngFromNum_def) (simp add: initial_heap_def)

end
