(* ===== verification/HeapLive.thy ===== *)
theory HeapLive
  imports HeapEvol
begin

text \<open>
  The valid objects of a heap and its table of program variables: an invariant of every run from a new heap, and what
  it gives for the listing of objects, the lookup of program variables and the invalidation of objects.
\<close>

section \<open>Valid objects and program variables\<close>

text \<open>
  The set of live objects is the set of valid regions (but for the object of the return value), and every entry of
  the table of program variables leads to a valid region of that variable.
\<close>

definition live_inv :: "sheap \<Rightarrow> bool" where
  "live_inv h \<longleftrightarrow> fresh_ids h \<and> OBJ_RETURN < entCnt h \<and> map_of (stor_vars (storOf h)) (- 1) = None \<and>
     (\<forall>obj. obj \<in> liveObjs h \<longleftrightarrow> obj \<noteq> OBJ_RETURN \<and> (\<exists>r. getRegion obj h = Some r \<and> reg_isValid r)) \<and>
     (\<forall>cv obj. cVarMap h cv = Some obj \<longrightarrow>
        cv_uid cv \<noteq> - 1 \<and> obj \<noteq> OBJ_RETURN \<and> (\<exists>r. getRegion obj h = Some r \<and> reg_isValid r \<and> reg_cVar r = cv))"

lemma live_inv_initial: "map_of (stor_vars st) (- 1) = None \<Longrightarrow> live_inv (initial_heap st b)"
  by (simp add: live_inv_def) (auto simp: initial_heap_def getRegion_def new_region_def)

lemma field_step_regions:
  assumes "field_step h h'" "fresh_ids h"
  shows "getRegion obj h' = Some r' \<Longrightarrow> \<exists>r. getRegion obj h = Some r \<and> reg_same r r'"
    and "getRegion obj h = Some r \<Longrightarrow> \<exists>r'. getRegion obj h' = Some r' \<and> reg_same r r'"
  using assms unfolding field_step_def frame_objs_def by (metis option.distinct(1) option.inject not_None_eq)+

lemma field_step_tables: "field_step h h' \<Longrightarrow> liveObjs h' = liveObjs h" "field_step h h' \<Longrightarrow> cVarMap h' = cVarMap h"
  by (simp_all add: field_step_def frame_objs_def)

lemma live_inv_field_step:
  assumes "field_step h h'" "live_inv h"
  shows "live_inv h'"
proof -
  have f: "fresh_ids h" using assms(2) by (simp add: live_inv_def)
  have e: "fresh_ids h'" "OBJ_RETURN < entCnt h'" "storOf h' = storOf h" "liveObjs h' = liveObjs h" "cVarMap h' = cVarMap h"
    using assms f by (auto simp: live_inv_def field_step_def evolves_def keeps_ids_def frame_objs_def)
  have v: "(\<exists>r. getRegion obj h' = Some r \<and> reg_isValid r) = (\<exists>r. getRegion obj h = Some r \<and> reg_isValid r)" for obj
    using field_step_regions [OF assms(1) f, of obj] unfolding reg_same_def by metis
  have c: "(\<exists>r. getRegion obj h' = Some r \<and> reg_isValid r \<and> reg_cVar r = cv)" if "\<exists>r. getRegion obj h = Some r \<and> reg_isValid r \<and> reg_cVar r = cv" for obj cv
    using field_step_regions [OF assms(1) f, of obj] that unfolding reg_same_def by metis
  show ?thesis using assms(2) e c unfolding live_inv_def v by (auto simp: e)
qed


lemma live_inv_putRegion:
  "getRegion i h = Some r \<Longrightarrow> reg_isValid r' = reg_isValid r \<Longrightarrow> reg_cVar r' = reg_cVar r \<Longrightarrow> live_inv h \<Longrightarrow>
   live_inv (putEnt i (EntRegion r') h)"
  using fresh_ids_prims(2) [of h i r "EntRegion r'"] by (fastforce simp: live_inv_def)

lemma live_inv_modRegion:
  "modRegion i f h = Some h' \<Longrightarrow> (\<And>r. reg_isValid (f r) = reg_isValid r \<and> reg_cVar (f r) = reg_cVar r) \<Longrightarrow> live_inv h \<Longrightarrow>
   live_inv h'"
  by (auto simp: modRegion_eq_Some intro: live_inv_putRegion)

text \<open>A new valid region that enters the set of live objects.\<close>

lemma live_inv_alloc:
  assumes "live_inv h" "reg_isValid r"
  shows "live_inv ((allocEnt (EntRegion r) h)\<lparr>liveObjs := insert (entCnt h) (liveObjs h)\<rparr>)"
proof -
  have f: "fresh_ids h" using assms by (simp add: live_inv_def)
  have "fresh_ids ((allocEnt (EntRegion r) h)\<lparr>liveObjs := l\<rparr>)" for l
    using fresh_ids_prims(5) [OF f, of "EntRegion r"] by (simp add: fresh_ids_def)
  then show ?thesis using assms f fresh_ids_next(3) [OF f] by (fastforce simp: live_inv_def)
qed

lemma live_inv_alloc_invalid:
  assumes "live_inv h" "\<not> reg_isValid r"
  shows "live_inv (allocEnt (EntRegion r) h)"
proof -
  have f: "fresh_ids h" using assms by (simp add: live_inv_def)
  then show ?thesis using assms fresh_ids_prims(5) [OF f] fresh_ids_next(3) [OF f] by (fastforce simp: live_inv_def)
qed

lemma live_inv_heapAlloc: "heapAlloc sz h = Some (obj, h') \<Longrightarrow> live_inv h \<Longrightarrow> live_inv h'"
  by (auto simp: heapAlloc_eq new_region_def split: if_splits intro!: live_inv_alloc)

lemma live_inv_stackAlloc: "stackAlloc sz from h = Some (obj, h') \<Longrightarrow> live_inv h \<Longrightarrow> live_inv h'"
  by (auto simp: stackAlloc_def modRegion_def new_region_def intro!: live_inv_alloc)

lemma live_inv_objClone:
  assumes "objClone_core obj h = Some (dup, h')" "live_inv h"
  shows "live_inv h'"
  using assms(1)
proof (rule objCloneE)
  fix src h1
  assume h1: "h1 = (let h1 = allocEnt (EntRegion ((new_region (reg_code src))\<lparr>reg_cVar := reg_cVar src, reg_size := reg_size src,
        reg_lastKnownClt := reg_lastKnownClt src, reg_isValid := reg_isValid src, reg_protoLevel := reg_protoLevel src\<rparr>)) h
      in if reg_isValid src then h1\<lparr>liveObjs := insert dup (liveObjs h1)\<rparr> else h1)" and dup: "dup = entCnt h"
    and loop: "ofold (\<lambda>(fld, code) h. map_option snd (copySingleLiveBlock dup fld code 0 0 h)) (reg_liveFields src) h1 = Some h'"
  have "field_step h1 h'"
    by (rule fs.P_ofold_heap [OF loop]) (auto elim: fs.P_copySingleLiveBlock)
  moreover have "live_inv h1"
    using assms(2) by (auto simp: h1 dup Let_def intro!: live_inv_alloc live_inv_alloc_invalid)
  ultimately show ?thesis by (rule live_inv_field_step)
qed


text \<open>The object that is created for a program variable.\<close>

definition var_key :: "cl_var \<Rightarrow> cvar \<Rightarrow> cvar" where
  "var_key var cv = (if isOnStack_var var then cv else cv\<lparr>cv_inst := 0\<rparr>)"

definition var_region :: "cl_var \<Rightarrow> cvar \<Rightarrow> cl_type \<Rightarrow> region" where
  "var_region var cv ty = (new_region (if isOnStack_var var then SC_ON_STACK else SC_STATIC))
     \<lparr>reg_cVar := var_key var cv, reg_lastKnownClt := var_type var, reg_size := rngFromNum (clt_size ty)\<rparr>"

lemma var_region_simps [simp]:
  "reg_isValid (var_region var cv ty)" "reg_cVar (var_region var cv ty) = var_key var cv"
  by (simp_all add: var_region_def new_region_def)

lemma regionByVar_eq:
  "regionByVar cv create h = do {
     obj \<leftarrow> cvm_find cv (cVarMap h);
     if OBJ_INVALID \<noteq> obj \<or> \<not> create then Some (obj, h)
     else do {
       var \<leftarrow> map_of (stor_vars (storOf h)) (cv_uid cv);
       ty \<leftarrow> clt_at (storOf h) (var_type var);
       cl_break_if (clt_code ty = CL_TYPE_VOID \<or> cVarMap h (var_key var cv) \<noteq> None);
       Some (entCnt h, (allocEnt (EntRegion (var_region var cv ty)) h)
         \<lparr>liveObjs := insert (entCnt h) (liveObjs h), cVarMap := (cVarMap h)(var_key var cv \<mapsto> entCnt h)\<rparr>)
     }
   }"
  unfolding regionByVar_def Let_def assign_eq prod.case cvm_insert_def
  by (intro Option.bind_cong refl) (auto simp: var_key_def var_region_def intro!: Option.bind_cong)

lemma regionByVarE:
  assumes "regionByVar cv create h = Some (obj, h')"
  obtains (found) "h' = h" "cvm_find cv (cVarMap h) = Some obj"
  | (created) var ty where "cvm_find cv (cVarMap h) = Some OBJ_INVALID" "obj = entCnt h"
    "map_of (stor_vars (storOf h)) (cv_uid cv) = Some var" "clt_at (storOf h) (var_type var) = Some ty"
    "cVarMap h (var_key var cv) = None"
    "h' = (allocEnt (EntRegion (var_region var cv ty)) h)
       \<lparr>liveObjs := insert obj (liveObjs h), cVarMap := (cVarMap h)(var_key var cv \<mapsto> obj)\<rparr>"
  using assms unfolding regionByVar_eq
  by (elim bind_SomeE if_SomeE break_SomeE pair_SomeE; hypsubst?)
    ((rule found; simp), (rule created; (assumption | simp)?))

lemma live_inv_regionByVar:
  assumes "regionByVar cv create h = Some (obj, h')" "live_inv h"
  shows "live_inv h'"
  using assms(1)
proof (cases rule: regionByVarE)
  case (created var ty)
  let ?h = "(allocEnt (EntRegion (var_region var cv ty)) h)\<lparr>liveObjs := insert (entCnt h) (liveObjs h)\<rparr>"
  have i: "live_inv ?h" by (rule live_inv_alloc [OF assms(2)]) simp
  have "cv_uid (var_key var cv) \<noteq> - 1" using created assms(2) by (auto simp: live_inv_def var_key_def)
  moreover have "fresh_ids h'" "3 \<noteq> entCnt h"
    using i assms(2) created by (auto simp: live_inv_def fresh_ids_def)
  ultimately show ?thesis using i created by (auto simp: live_inv_def)
qed (use assms in simp)

lemma live_inv_objSetSize: "objSetSize obj sz h = Some h' \<Longrightarrow> live_inv h \<Longrightarrow> live_inv h'"
  unfolding objSetSize_def
  by (elim heap_elims; hypsubst?; erule live_inv_modRegion; (simp; fail)?; (assumption | rule live_inv_field_step, erule fs.P_ofold_heap)?)
    (assumption | rule field_step_refl | erule heap_elims | elim fs_fldDestroy fs.P_modLive)+

lemma live_inv_objSetProtoLevel: "objSetProtoLevel obj l h = Some h' \<Longrightarrow> live_inv h \<Longrightarrow> live_inv h'"
  by (auto simp: objSetProtoLevel_def elim: live_inv_modRegion)

lemma live_inv_objInvalidate:
  assumes "objInvalidate_core obj h = Some h'" "live_inv h"
  shows "live_inv h'"
  using assms(1)
proof (rule objInvalidateE)
  fix h1 r h2 h3
  assume h1: "modRegion obj (\<lambda>r. r\<lparr>reg_isValid := False,
        reg_lastKnownClt := (if OBJ_RETURN = obj then 0 else reg_lastKnownClt r)\<rparr>) h = Some h1" and r: "getRegion obj h1 = Some r"
    and h2: "(if cv_uid (reg_cVar r) \<noteq> - 1 then do {
        m \<leftarrow> cvm_remove (reg_cVar r) (cVarMap h1);
        Some (h1\<lparr>cVarMap := m\<rparr>)
      } else Some h1) = Some h2"
    and h3: "(if 0 < hi (reg_size r) then do {
        allObjs \<leftarrow> arenaLookup (reg_arena r) (0, hi (reg_size r)) FLD_INVALID;
        ofold (\<lambda>fld h. fldDestroy fld True False h) (sorted_list_of_set allObjs) (h2\<lparr>liveObjs := liveObjs h2 - {obj}\<rparr>)
      } else Some (h2\<lparr>liveObjs := liveObjs h2 - {obj}\<rparr>)) = Some h3"
    and h': "modRegion obj (\<lambda>r. r\<lparr>reg_liveFields := [], reg_arena := arena_clear (reg_arena r)\<rparr>) h3 = Some h'"
  obtain r0 where r0: "getRegion obj h = Some r0" and h1e: "h1 = putEnt obj (EntRegion (r0\<lparr>reg_isValid := False,
        reg_lastKnownClt := (if OBJ_RETURN = obj then 0 else reg_lastKnownClt r0)\<rparr>)) h"
    using h1 by (auto simp: modRegion_eq_Some)
  have cv: "reg_cVar r = reg_cVar r0" using r by (auto simp: h1e)
  define cm where "cm = (if cv_uid (reg_cVar r0) \<noteq> - 1 then (cVarMap h)(reg_cVar r0 := None) else cVarMap h)"
  have h2e: "h2 = h1\<lparr>cVarMap := cm\<rparr>"
    using h2 by (auto simp: cv cvm_remove_def cm_def h1e split: if_splits)
  have "fresh_ids h1" using assms(2) r0 by (auto simp: h1e live_inv_def intro: fresh_ids_prims)
  then have "live_inv (h2\<lparr>liveObjs := liveObjs h2 - {obj}\<rparr>)"
    using assms(2) r0 unfolding h2e
    by (fastforce simp: live_inv_def fresh_ids_def h1e cm_def split: if_splits)
  moreover have "field_step (h2\<lparr>liveObjs := liveObjs h2 - {obj}\<rparr>) h3"
    using h3 by (auto simp: bind_eq_Some_conv split: if_splits elim!: fs.P_ofold_heap fs_fldDestroy)
  ultimately have "live_inv h3" by (auto intro: live_inv_field_step)
  then show ?thesis using h' by (auto elim: live_inv_modRegion)
qed

lemma live_inv_modReturn: "modRegion OBJ_RETURN f h = Some h' \<Longrightarrow> live_inv h \<Longrightarrow> live_inv h'"
  using fresh_ids_prims(2) by (fastforce simp: live_inv_def modRegion_eq_Some)

lemma live_inv_objSetEstimatedType: "objSetEstimatedType obj t h = Some h' \<Longrightarrow> live_inv h \<Longrightarrow> live_inv h'"
  by (auto simp: objSetEstimatedType_def bind_eq_Some_conv split: if_splits
      elim: live_inv_modRegion elim!: live_inv_modReturn live_inv_objInvalidate)


lemmas live_inv_ops = live_inv_regionByVar live_inv_stackAlloc live_inv_heapAlloc live_inv_objSetSize
  live_inv_objSetEstimatedType live_inv_objSetProtoLevel

lemma live_inv_op: "heap_op h h' \<Longrightarrow> live_inv h \<Longrightarrow> live_inv h'"
proof (induction rule: heap_op.induct)
qed (rule live_inv_field_step, ((erule fs_ops, rule field_step_refl) | erule fs_copyBlockOfRawMemory fs_rewriteTargetOfBase), assumption
  | erule live_inv_ops, assumption)+

lemma live_inv_entCnt: "live_inv h \<Longrightarrow> entCnt h \<le> n \<Longrightarrow> live_inv (h\<lparr>entCnt := n\<rparr>)"
proof -
  assume h: "live_inv h" "entCnt h \<le> n"
  then have "fresh_ids (h\<lparr>entCnt := n\<rparr>)" using evolves_entCnt [OF h(2)] by (simp add: evolves_def live_inv_def)
  with h show ?thesis by (simp add: live_inv_def)
qed

lemma live_inv_step: "heap_step h h' \<Longrightarrow> live_inv h \<Longrightarrow> live_inv h'"
  by (induction rule: heap_step.induct) (auto intro: live_inv_op live_inv_objClone live_inv_objInvalidate live_inv_entCnt)

lemma live_inv_run: "heap_step\<^sup>*\<^sup>* h h' \<Longrightarrow> live_inv h \<Longrightarrow> live_inv h'"
  by (induction rule: rtranclp_induct) (auto intro: live_inv_step)

text \<open>
  C16: in every heap that public operations make of a new heap, the set of live objects is the set of the valid
  regions other than the one of the return value, and the table of program variables only leads to valid regions of
  the variable looked up.
\<close>

theorem live_objects_exact:
  assumes "sheap_new st b = Some h0" "map_of (stor_vars st) (- 1) = None" "heap_step\<^sup>*\<^sup>* h0 h"
  shows "live_inv h"
  using live_inv_run [OF assms(3)] live_inv_initial [OF assms(2), of b] assms(1) by (auto simp: sheap_new_eq)

theorem live_objects_exact_witness: "live_inv (wit_alloc (initial_heap wit_stor True))"
  by (rule live_objects_exact [OF sheap_new_eq _ wit_alloc_step]) (simp add: wit_stor_def)

section \<open>Lists of objects\<close>

lemma isValid_region: "getRegion obj h = Some r \<Longrightarrow> isValid obj h = Some (reg_isValid r)"
  by (auto simp: isValid_def isValidEnt_def getRegion_def)

lemma ofold_filter: "ofold (\<lambda>x acc. Some (if Q x then acc @ [x] else acc)) xs acc = Some (acc @ filter Q xs)"
  by (induction xs arbitrary: acc) auto

lemma sorted_list_of_set_filter: "finite A \<Longrightarrow> filter Q (sorted_list_of_set A) = sorted_list_of_set {x \<in> A. Q x}"
  by (rule sorted_distinct_set_unique) (auto intro: sorted_filter [where f = id, simplified])

lemma live_inv_finite: "live_inv h \<Longrightarrow> finite (liveObjs h)"
  by (rule finite_subset [of _ "{0..<entCnt h}"]) (auto simp: live_inv_def dest: fresh_ids_bounds)

text \<open>
  C20: listing the objects of a heap cannot fail, and gives in increasing order exactly the valid objects, but for the
  object of the return value, whose storage class passes the filter.
\<close>

theorem gatherObjects_exact:
  assumes "live_inv h"
  shows "gatherObjects flt h = Some (sorted_list_of_set
    {obj. obj \<noteq> OBJ_RETURN \<and> (\<exists>r. getRegion obj h = Some r \<and> reg_isValid r \<and> flt (reg_code r))})"
proof -
  define Q where "Q obj = (case getRegion obj h of Some r \<Rightarrow> flt (reg_code r) | None \<Rightarrow> False)" for obj
  have body: "(do { valid \<leftarrow> isValid obj h; cl_break_if (\<not> valid); code \<leftarrow> objStorClass obj h;
       Some (if flt code then dst @ [obj] else dst) }) = Some (if Q obj then dst @ [obj] else dst)"
    if "obj \<in> set (sorted_list_of_set (liveObjs h))" for obj dst
  proof -
    have live: "obj \<in> liveObjs h" using that live_inv_finite [OF assms] by simp
    then obtain r where r: "getRegion obj h = Some r" "reg_isValid r" using assms by (auto simp: live_inv_def)
    then have "0 \<le> obj" using assms fresh_ids_bounds(3) by (auto simp: live_inv_def)
    with r show ?thesis by (auto simp: isValid_region objStorClass_def Q_def)
  qed
  have "gatherObjects flt h = Some (filter Q (sorted_list_of_set (liveObjs h)))"
    unfolding gatherObjects_def ofold_filter [where Q = Q and acc = "[]", simplified, symmetric]
    by (rule ofold_cong [OF refl refl]) (rule body)
  also have "\<dots> = Some (sorted_list_of_set {obj \<in> liveObjs h. Q obj})"
    by (simp add: sorted_list_of_set_filter live_inv_finite [OF assms])
  also have "{obj \<in> liveObjs h. Q obj} = {obj. obj \<noteq> OBJ_RETURN \<and> (\<exists>r. getRegion obj h = Some r \<and> reg_isValid r \<and> flt (reg_code r))}"
    using assms by (auto simp: live_inv_def Q_def split: option.splits)
  finally show ?thesis .
qed

theorem gatherObjects_exact_witness:
  "gatherObjects isOnHeap (initial_heap wit_stor True) = Some []"
proof -
  have "live_inv (initial_heap wit_stor True)" by (rule live_inv_initial) (simp add: wit_stor_def)
  note gatherObjects_exact [OF this, of isOnHeap]
  moreover have "{obj. obj \<noteq> 3 \<and> (\<exists>r. getRegion obj (initial_heap wit_stor True) = Some r \<and> reg_isValid r \<and> isOnHeap (reg_code r))} = {}"
    by (auto simp: initial_heap_def getRegion_def split: if_splits)
  ultimately show ?thesis by simp
qed

lemma cvar_inst_eq [simp]: "cv = cv\<lparr>cv_inst := n\<rparr> \<longleftrightarrow> cv_inst cv = n"
  by (cases cv) auto

lemma live_inv_no_invalid: "live_inv h \<Longrightarrow> cVarMap h k \<noteq> Some OBJ_INVALID"
  using fresh_ids_bounds(3) [of h "- 1"] by (fastforce simp: live_inv_def)

text \<open>
  C19: looking up a program variable with creation gives a valid object of this variable, and looking it up once more,
  with or without creation, gives the same object and leaves the heap alone.
\<close>

theorem regionByVar_stable:
  assumes "live_inv h" "regionByVar cv True h = Some (obj, h')"
  shows "regionByVar cv c h' = Some (obj, h') \<and> isValid obj h' = Some True \<and>
    (\<exists>cv'. cVarByObject obj h' = Some cv' \<and> cv_uid cv' = cv_uid cv)"
proof -
  have i: "live_inv h'" by (rule live_inv_regionByVar [OF assms(2,1)])
  have find: "cvm_find cv (cVarMap h') = Some obj" "obj \<noteq> OBJ_INVALID"
  proof -
    have "cvm_find cv (cVarMap h') = Some obj \<and> obj \<noteq> OBJ_INVALID"
      using assms(2)
    proof (cases rule: regionByVarE)
      case found
      with assms show ?thesis
        by (auto simp: regionByVar_eq bind_eq_Some_conv live_inv_def split: if_splits)
    next
      case (created var ty)
      have "obj \<noteq> - 1" using assms(1) created(2) by (auto simp: live_inv_def)
      then show ?thesis
        using created live_inv_no_invalid [OF assms(1)]
        by (auto simp: cvm_find_def var_key_def Let_def split: option.splits if_splits)
    qed
    then show "cvm_find cv (cVarMap h') = Some obj" "obj \<noteq> OBJ_INVALID" by auto
  qed
  have "\<exists>k. cVarMap h' k = Some obj \<and> cv_uid k = cv_uid cv"
    using find by (cases "cVarMap h' cv") (auto simp: cvm_find_def Let_def split: option.splits if_splits)
  then obtain r where "getRegion obj h' = Some r" "reg_isValid r" "cv_uid (reg_cVar r) = cv_uid cv"
    using i unfolding live_inv_def by metis
  then show ?thesis
    using find by (simp add: regionByVar_eq isValid_region cVarByObject_def)
qed


definition wit_var_stor :: stor where
  "wit_var_stor = wit_stor\<lparr>stor_types := [(5, \<lparr>clt_uid = 5, clt_code = CL_TYPE_INT, clt_size = 4, clt_items = [], clt_is_unsigned = False\<rparr>)],
     stor_vars := [(7, \<lparr>var_code = VAR_LC, var_type = 5\<rparr>)]\<rparr>"

theorem regionByVar_stable_witness:
  "case regionByVar \<lparr>cv_uid = 7, cv_inst = 1\<rparr> True (initial_heap wit_var_stor True) of
     Some (obj, h) \<Rightarrow> obj = 4 \<and> isValid obj h = Some True | None \<Rightarrow> False"
proof -
  let ?h = "initial_heap wit_var_stor True" and ?cv = "\<lparr>cv_uid = 7, cv_inst = 1\<rparr>"
  have i: "live_inv ?h" by (rule live_inv_initial) (simp add: wit_var_stor_def)
  obtain h' where r: "regionByVar ?cv True ?h = Some (4, h')"
    by (simp add: regionByVar_eq) (simp add: initial_heap_def cvm_find_def wit_var_stor_def clt_at_def)
  from regionByVar_stable [OF i r] r show ?thesis by simp
qed

lemma objInvalidate_spec:
  assumes "live_inv h" "objInvalidate_core obj h = Some h'"
  shows "isValid obj h' = Some False \<and> liveObjs h' = liveObjs h - {obj} \<and> (\<forall>cv. cVarMap h' cv \<noteq> Some obj) \<and>
    (\<exists>r. getRegion obj h' = Some r \<and> reg_liveFields r = [] \<and> reg_arena r = [])"
  using assms(2)
proof (rule objInvalidateE)
  fix h1 r h2 h3
  assume h1: "modRegion obj (\<lambda>r. r\<lparr>reg_isValid := False,
        reg_lastKnownClt := (if OBJ_RETURN = obj then 0 else reg_lastKnownClt r)\<rparr>) h = Some h1"
    and h2: "(if cv_uid (reg_cVar r) \<noteq> - 1 then do {
        m \<leftarrow> cvm_remove (reg_cVar r) (cVarMap h1);
        Some (h1\<lparr>cVarMap := m\<rparr>)
      } else Some h1) = Some h2"
    and h3: "(if 0 < hi (reg_size r) then do {
        allObjs \<leftarrow> arenaLookup (reg_arena r) (0, hi (reg_size r)) FLD_INVALID;
        ofold (\<lambda>fld h. fldDestroy fld True False h) (sorted_list_of_set allObjs) (h2\<lparr>liveObjs := liveObjs h2 - {obj}\<rparr>)
      } else Some (h2\<lparr>liveObjs := liveObjs h2 - {obj}\<rparr>)) = Some h3"
    and h': "modRegion obj (\<lambda>r. r\<lparr>reg_liveFields := [], reg_arena := arena_clear (reg_arena r)\<rparr>) h3 = Some h'"
  let ?g = "h2\<lparr>liveObjs := liveObjs h2 - {obj}\<rparr>"
  have f: "fresh_ids h" using assms(1) by (simp add: live_inv_def)
  obtain r0 where r0: "getRegion obj h = Some r0" and h1e: "h1 = putEnt obj (EntRegion (r0\<lparr>reg_isValid := False,
        reg_lastKnownClt := (if OBJ_RETURN = obj then 0 else reg_lastKnownClt r0)\<rparr>)) h"
    using h1 by (auto simp: modRegion_eq_Some)
  have "fresh_ids h1" unfolding h1e by (rule fresh_ids_prims(2) [OF f r0])
  then obtain r1 where r1: "getRegion obj ?g = Some r1" "\<not> reg_isValid r1" "liveObjs h2 = liveObjs h" "fresh_ids ?g"
    using h2 by (auto simp: h1e cvm_remove_def fresh_ids_def split: if_splits)
  have fs: "field_step ?g h3"
    using h3 by (auto simp: bind_eq_Some_conv split: if_splits elim!: fs.P_ofold_heap fs_fldDestroy)
  obtain r3 where r3: "getRegion obj h3 = Some r3" "\<not> reg_isValid r3"
    using field_step_regions(2) [OF fs r1(4,1)] r1(2) by (auto simp: reg_same_def)
  have r': "\<exists>r. getRegion obj h' = Some r \<and> \<not> reg_isValid r \<and> reg_liveFields r = [] \<and> reg_arena r = []"
    using h' r3 by (auto simp: modRegion_eq_Some arena_clear_def)
  have "liveObjs h' = liveObjs h3" using h' by (auto simp: modRegion_eq_Some)
  then have "liveObjs h' = liveObjs h - {obj}" using field_step_tables(1) [OF fs] r1(3) by simp
  moreover have "\<forall>cv. cVarMap h' cv \<noteq> Some obj"
  proof (intro allI notI)
    fix cv
    assume "cVarMap h' cv = Some obj"
    then obtain r where "getRegion obj h' = Some r" "reg_isValid r"
      using live_inv_objInvalidate [OF assms(2,1)] unfolding live_inv_def by blast
    with r' show False by simp
  qed
  ultimately show ?thesis
    using r' by (auto simp: isValid_region)
qed

text \<open>
  C18: invalidation of an object takes it, and nothing else, from the live objects, unbinds the program variable, and
  leaves an invalid region without fields.
\<close>

theorem objInvalidate_effect:
  assumes "live_inv h" "objInvalidate_core obj h = Some h'"
  shows "isValid obj h' = Some False \<and> liveObjs h' = liveObjs h - {obj} \<and> (\<forall>cv. cVarMap h' cv \<noteq> Some obj) \<and>
    (\<exists>r. getRegion obj h' = Some r \<and> reg_liveFields r = [] \<and> reg_arena r = [])"
  using objInvalidate_spec [OF assms] .

theorem objInvalidate_effect_witness:
  "case objInvalidate_core 4 (wit_alloc (initial_heap wit_stor True)) of
     Some h \<Rightarrow> isValid 4 h = Some False \<and> liveObjs h = {} | None \<Rightarrow> False"
proof -
  let ?h = "wit_alloc (initial_heap wit_stor True)"
  have i: "live_inv ?h"
    unfolding wit_alloc_def
    by (simp add: heapAlloc_eq rngFromNum_def, intro conjI impI live_inv_alloc live_inv_initial) (simp_all add: wit_stor_def new_region_def)
  have e: "?h = (allocEnt (EntRegion ((new_region SC_ON_HEAP)\<lparr>reg_size := rngFromNum 8\<rparr>)) (initial_heap wit_stor True))\<lparr>liveObjs := {4}\<rparr>"
    by (simp add: wit_alloc_def heapAlloc_eq) (simp add: initial_heap_def rngFromNum_def)
  obtain h' where r: "objInvalidate_core 4 ?h = Some h'"
    unfolding e
    by (simp add: objInvalidate_core_def isValid_def isValidEnt_def modRegion_def getRegion_def putEnt_def allocEnt_def initial_heap_def
      new_region_def rngFromNum_def arenaLookup_def arena_intersects_def omap_from_def)
  have "liveObjs ?h = {4}" by (simp add: e)
  with objInvalidate_effect [OF i r] r show ?thesis by simp
qed

end
