(* ===== verification/HeapWrite.thy ===== *)
theory HeapWrite
  imports HeapLive
begin

text \<open>
  Reading and writing fields: the containers of every region are in order along every run, a field reads back what
  has been written to it, and a write does not touch the fields that share no byte with the written one.
\<close>

section \<open>The containers of the regions\<close>

definition regions_wf :: "sheap \<Rightarrow> bool" where
  "regions_wf h \<longleftrightarrow> fresh_ids h \<and> (\<forall>i r. getRegion i h = Some r \<longrightarrow> reg_wf r)"

lemma regions_wf_field_step:
  assumes "field_step h h'" "regions_wf h"
  shows "regions_wf h'"
proof -
  have f: "fresh_ids h" "fresh_ids h'" using assms by (simp_all add: regions_wf_def field_step_def evolves_def)
  have "reg_wf r'" if r': "getRegion i h' = Some r'" for i r'
  proof -
    obtain r where "getRegion i h = Some r" "reg_same r r'" using field_step_regions(1) [OF assms(1) f(1) r'] by blast
    then show ?thesis using assms(2) unfolding regions_wf_def reg_same_def by blast
  qed
  with f(2) show ?thesis by (simp add: regions_wf_def)
qed

lemma regions_wf_modRegion:
  "modRegion i f h = Some h' \<Longrightarrow> (\<And>r. reg_wf r \<Longrightarrow> reg_wf (f r)) \<Longrightarrow> regions_wf h \<Longrightarrow> regions_wf h'"
  by (auto simp: regions_wf_def modRegion_eq_Some fresh_ids_prims split: if_splits)

interpretation rw: object_ops regions_wf
proof
  show "regions_wf (h\<lparr>liveObjs := l\<rparr>)" "regions_wf (h\<lparr>cVarMap := c\<rparr>)" if "regions_wf h" for h l c
    using that by (auto simp: regions_wf_def fresh_ids_def)
  show "regions_wf (h\<lparr>entCnt := n\<rparr>)" if "regions_wf h" "entCnt h \<le> n" for h n
    using that by (fastforce simp: regions_wf_def fresh_ids_def)
  show "regions_wf (allocEnt (EntRegion r) h)" if "reg_wf r" "regions_wf h" for r h
    using that by (auto simp: regions_wf_def fresh_ids_prims)
qed (rule regions_wf_field_step regions_wf_modRegion; assumption)+

lemma regions_wf_initial: "regions_wf (initial_heap st b)"
  by (simp add: regions_wf_def) (auto simp: initial_heap_def getRegion_def split: if_splits)



section \<open>Blocks that an operation does not write\<close>

definition keeps_block :: "TFldId \<Rightarrow> block_ent \<Rightarrow> sheap \<Rightarrow> bool" where
  "keeps_block fld b h \<longleftrightarrow> fld < entCnt h \<and> getBlock fld h = Some b"

interpretation kb: block_ops "keeps_block fld b" "\<lambda>i. i \<noteq> fld" for fld b
  by unfold_locales (auto simp: keeps_block_def dest: get_exclusive)

lemma keeps_block_reinterpretAll:
  assumes "reinterpretAll overlaps by kp h = Some (kp', h')" "fld \<notin> overlaps" "keeps_block fld b h"
  shows "keeps_block fld b h'"
proof -
  have "keeps_block fld b (snd (kp', h'))"
    using assms(1) unfolding reinterpretAll_def
  proof (rule ofold_invariant)
    fix old u v
    assume "old \<in> set (sorted_list_of_set overlaps)"
      "(\<lambda>(kp, h). reinterpretObjData old by kp h) u = Some v" "keeps_block fld b (snd u)"
    moreover from this(1) assms(2) have "old \<noteq> fld" by (cases "finite overlaps") auto
    ultimately show "keeps_block fld b (snd v)"
      by (cases u; cases v) (auto intro: kb.P_reinterpretObjData)
  qed (use assms(3) in simp)
  then show ?thesis by simp
qed

lemma modBlock_keeps: "modBlock fld f h = Some h' \<Longrightarrow> keeps_block fld b h \<Longrightarrow> keeps_block fld (f b) h'"
  by (auto simp: modBlock_eq_Some keeps_block_def)

text \<open>The steps of an assignment.\<close>

lemma setValueOfE:
  assumes "setValueOf fld val kp h = Some (kp', h')"
  obtains b f where "getBlock fld h = Some b" "blk_fld b = Some f" "blk_value b = val" "h' = h"
  | b f was h1 h2 h3 ty h4 r ch ov kp1 where
    "getBlock fld h = Some b" "blk_fld b = Some f" "blk_value b \<noteq> val"
    "releaseValueOf fld (blk_value b) h = Some (was, h1)"
    "modBlock fld (\<lambda>b. b\<lparr>blk_value := val\<rparr>) h1 = Some h2"
    "registerValueOf fld val h2 = Some h3"
    "clt_at (storOf h3) (clt f) = Some ty"
    "modArena (blk_obj b) (arena_plus (createArenaItem (blk_off b) (clt_size ty) fld)) h3 = Some h4"
    "getRegion (blk_obj b) h4 = Some r" "createChunk (storOf h4) (blk_off b) (clt f) = Some ch"
    "arenaLookup (reg_arena r) ch fld = Some ov"
    "reinterpretAll ov fld kp1 h4 = Some (kp', h')"
  using assms unfolding setValueOf_def Let_def
  by (elim heap_elims; hypsubst?) (rule that; (assumption | auto simp: getField_eq_Some; fail)?)+

lemma keeps_block_setValueOf:
  assumes "setValueOf fld val kp h = Some (kp', h')" "keeps_block fld b h" "0 \<le> fld"
  shows "keeps_block fld (b\<lparr>blk_value := val\<rparr>) h'"
  using assms(1)
proof (cases rule: setValueOfE)
  case 1
  with assms(2) show ?thesis by (auto simp: keeps_block_def)
next
  case (2 b' f was h1 h2 h3 ty h4 r ch ov kp1)
  have "keeps_block fld b h1" by (rule kb.P_releaseValueOf [OF 2(4) assms(2)])
  from modBlock_keeps [OF 2(5) this] have "keeps_block fld (b\<lparr>blk_value := val\<rparr>) h2" .
  then have "keeps_block fld (b\<lparr>blk_value := val\<rparr>) h4"
    by (rule kb.P_modArena(1) [OF 2(8) kb.P_registerValueOf [OF 2(6)]])
  moreover have "fld \<notin> ov" using 2(11) assms(3) by (auto simp: arenaLookup_def bind_eq_Some_conv)
  ultimately show ?thesis by (rule keeps_block_reinterpretAll [OF 2(12), rotated])
qed

lemma setValOfFieldE:
  assumes "setValOfField fld val kp h = Some (kp', h')"
  obtains b f k h1 where "getBlock fld h = Some b" "blk_fld b = Some f"
    "modLive (blk_obj b) (omap_put fld k) h = Some h1" "setValueOf fld val kp h1 = Some (kp', h')"
  using assms unfolding setValOfField_def
  by (elim heap_elims) (rule that; (assumption | auto simp: getField_eq_Some; fail)?)

text \<open>
  C2: a field that has been assigned a value reads back this value, and reading it does not change the heap.
\<close>

theorem read_after_write:
  assumes "fresh_ids h" "setValOfField fld val kp h = Some (kp', h')" "val \<noteq> VAL_INVALID"
  shows "valueOf fld h' = Some (val, h')"
  using assms(2)
proof (rule setValOfFieldE)
  fix b f k h1
  assume b: "getBlock fld h = Some b" "blk_fld b = Some f"
    and h1: "modLive (blk_obj b) (omap_put fld k) h = Some h1" and w: "setValueOf fld val kp h1 = Some (kp', h')"
  have bd: "0 \<le> fld" "keeps_block fld b h" using fresh_ids_bounds(2) [OF assms(1) b(1)] b(1) by (auto simp: keeps_block_def)
  then have "keeps_block fld (b\<lparr>blk_value := val\<rparr>) h'"
    by (intro keeps_block_setValueOf [OF w] kb.P_modLive(1) [OF h1])
  with b bd(1) assms(3) show ?thesis by (simp add: valueOf_def keeps_block_def getField_def)
qed

text \<open>A heap with one object of eight bytes and handles of its two integers, the second of which is set to one.\<close>

definition wit_prog :: stor where
  "wit_prog = wit_stor\<lparr>stor_types := [(5, \<lparr>clt_uid = 5, clt_code = CL_TYPE_INT, clt_size = 4, clt_items = [], clt_is_unsigned = False\<rparr>)]\<rparr>"

definition wit_fields :: sheap where
  "wit_fields = the (do {
     (obj, h) \<leftarrow> heapAlloc (rngFromNum 8) (initial_heap wit_prog False);
     (f, h) \<leftarrow> fldHandle_new obj 5 0 h;
     (g, h) \<leftarrow> fldHandle_new obj 5 4 h;
     (_, h) \<leftarrow> setValOfField g 1 None h;
     Some h
   })"


lemma wit_fields_ok: "fresh_ids wit_fields" "regions_wf wit_fields"
proof -
  let ?h0 = "initial_heap wit_prog False"
  obtain obj h1 f h2 g h3 kp h4 where e: "heapAlloc (rngFromNum 8) ?h0 = Some (obj, h1)"
    "fldHandle_new obj 5 0 h1 = Some (f, h2)" "fldHandle_new obj 5 4 h2 = Some (g, h3)"
    "setValOfField g 1 None h3 = Some (kp, h4)"
  proof -
    have "(do {
     (obj, h) \<leftarrow> heapAlloc (rngFromNum 8) ?h0;
     (f, h) \<leftarrow> fldHandle_new obj 5 0 h;
     (g, h) \<leftarrow> fldHandle_new obj 5 4 h;
     (_, h) \<leftarrow> setValOfField g 1 None h;
     Some () }) = Some ()" by code_simp
    then show ?thesis by (elim some_elims; hypsubst) (rule that; assumption)
  qed
  have w: "wit_fields = h4" by (simp add: wit_fields_def e)
  have "regions_wf h1"
    by (rule rw.P_heapAlloc [OF e(1) regions_wf_initial])
  moreover have "field_step h1 h4"
    using e(2-) by (elim fs.P_setValOfField fs.ops.P_fldHandle_new) simp
  ultimately show "regions_wf wit_fields" by (auto simp: w intro: regions_wf_field_step)
  then show "fresh_ids wit_fields" by (simp add: regions_wf_def)
qed

theorem read_after_write_witness:
  "case setValOfField 5 1 None wit_fields of
     Some (_, h) \<Rightarrow> valueOf 5 h = Some (1, h) | None \<Rightarrow> False"
proof -
  have "case setValOfField 5 1 None wit_fields of Some (_, h) \<Rightarrow> True | None \<Rightarrow> False" by code_simp
  then obtain kp h where w: "setValOfField 5 1 None wit_fields = Some (kp, h)" by (auto split: option.splits)
  from read_after_write [OF wit_fields_ok(1) w] w show ?thesis by simp
qed

section \<open>Fields that share no byte with the written one\<close>

lemma getRegion_modBlock: "modBlock i f h = Some h' \<Longrightarrow> getRegion j h' = getRegion j h"
  by (auto simp: modBlock_eq_Some dest: get_exclusive)

lemma arena_plus_at:
  assumes "arena_plus (createArenaItem off sz fld) a = Some a'" "arena_wf a" "g \<noteq> fld"
  shows "arena_at a' g = arena_at a g"
  using assms by (auto simp: arena_plus_def createArenaItem_def arena_add_def arena_at_insert split: if_splits)

text \<open>The arenas of a heap, which only change by a write to the arena.\<close>

definition arenas_as :: "(TObjId \<Rightarrow> TFldId arena option) \<Rightarrow> sheap \<Rightarrow> bool" where
  "arenas_as A h \<longleftrightarrow> (\<forall>i. map_option reg_arena (getRegion i h) = A i)"

lemma arenas_as_modRegion:
  "modRegion i f h = Some h' \<Longrightarrow> (\<And>r. reg_arena (f r) = reg_arena r) \<Longrightarrow> arenas_as A h \<Longrightarrow> arenas_as A h'"
  by (auto simp: arenas_as_def modRegion_eq_Some) (metis option.simps(9))

lemma arenas_as_modVal: "modVal i f h = Some h' \<Longrightarrow> arenas_as A h \<Longrightarrow> arenas_as A h'"
  by (auto simp: arenas_as_def modVal_eq_Some) (metis get_exclusive(1) option.simps(8))

lemma arenas_as_modBlock: "modBlock i f h = Some h' \<Longrightarrow> arenas_as A h \<Longrightarrow> arenas_as A h'"
  by (auto simp: arenas_as_def getRegion_modBlock)

lemma arenas_as_neqDb: "arenas_as A h \<Longrightarrow> arenas_as A (h\<lparr>neqDb := n\<rparr>)"
  by (simp add: arenas_as_def)

lemma arenas_as_killNeqs: "killNeqs val h = Some h' \<Longrightarrow> arenas_as A h \<Longrightarrow> arenas_as A h'"
  by (auto simp: killNeqs_def bind_eq_Some_conv arenas_as_neqDb)

lemma arenas_as_releaseValueOf: "releaseValueOf fld val h = Some (b, h') \<Longrightarrow> arenas_as A h \<Longrightarrow> arenas_as A h'"
  unfolding releaseValueOf_def
  by (elim heap_elims; hypsubst?; (assumption | simp | elim arenas_as_modRegion arenas_as_modVal arenas_as_killNeqs)+)

lemma arenas_as_registerValueOf: "registerValueOf fld val h = Some h' \<Longrightarrow> arenas_as A h \<Longrightarrow> arenas_as A h'"
  unfolding registerValueOf_def
  by (elim heap_elims; hypsubst?; (assumption | simp | elim arenas_as_modRegion arenas_as_modVal)+)

lemma arenas_as_modLive: "modLive obj f h = Some h' \<Longrightarrow> arenas_as A h \<Longrightarrow> arenas_as A h'"
  by (auto simp: modLive_def elim!: arenas_as_modRegion)

text \<open>
  C3: an assignment to a field leaves every other field alone that shares no byte with it in the arena of the
  object: the entity of such a field, its value included, stays the same.
\<close>

theorem write_keeps_disjoint_field:
  assumes "regions_wf h" "setValOfField fld val kp h = Some (kp', h')"
    and "getField fld h = Some (b, f)" "getRegion (blk_obj b) h = Some r" "clt_at (storOf h) (clt f) = Some ty"
    and "getBlock g h = Some c" "g \<noteq> fld"
    and "arena_at (reg_arena r) g \<inter> {blk_off b ..< blk_off b + clt_size ty} = {}"
  shows "getBlock g h' = Some c"
  using assms(2)
proof (rule setValOfFieldE)
  fix b' f' k h1
  assume "getBlock fld h = Some b'" "blk_fld b' = Some f'"
    and l: "modLive (blk_obj b') (omap_put fld k) h = Some h1" and w: "setValueOf fld val kp h1 = Some (kp', h')"
  then have bb: "b' = b" "f' = f" "getBlock fld h1 = Some b" "blk_fld b = Some f"
    using assms(3) by (auto simp: getField_eq_Some getBlock_modLive)
  let ?A = "\<lambda>i. map_option reg_arena (getRegion i h)"
  have A: "arenas_as ?A h1" by (rule arenas_as_modLive [OF l]) (simp add: arenas_as_def)
  have fresh: "fresh_ids h" using assms(1) by (simp add: regions_wf_def)
  have G: "keeps_block g c h1"
    by (rule kb.P_modLive(1) [OF l]) (use fresh_ids_bounds(2) [OF fresh assms(6)] assms(6) in \<open>simp add: keeps_block_def\<close>)
  show ?thesis using w
  proof (cases rule: setValueOfE)
    case 1
    with G show ?thesis by (simp add: keeps_block_def)
  next
    case (2 b2 f2 was h2 h3 h4 ty' h5 r' ch ov kp1)
    have e: "b2 = b" "f2 = f" using 2(1,2) bb by auto
    have "field_step h h4"
      using 2(6,5,4) l by (elim fs.P_registerValueOf fs.P_modBlock' fs.P_releaseValueOf fs.P_modLive) simp
    then have st: "storOf h4 = storOf h" "storOf h5 = storOf h"
      using fs.P_modArena(1) [OF 2(8)] by (auto simp: field_step_def evolves_def)
    have "keeps_block g c h5"
      using 2(8,6,5,4) not_sym [OF assms(7)] G by (elim kb.P_modArena kb.P_registerValueOf kb.P_modBlock kb.P_releaseValueOf)
    moreover have "g \<notin> ov"
    proof -
      have "arenas_as ?A h4"
        using 2(6,5,4) A by (elim arenas_as_registerValueOf arenas_as_modBlock arenas_as_releaseValueOf)
      then have "map_option reg_arena (getRegion (blk_obj b) h4) = Some (reg_arena r)"
        using assms(4) by (simp add: arenas_as_def)
      then obtain r4 where r4: "getRegion (blk_obj b) h4 = Some r4" "reg_arena r4 = reg_arena r" by auto
      have wf: "arena_wf (reg_arena r)" using assms(1,4) by (auto simp: regions_wf_def reg_wf_def)
      have ty: "ty' = ty" using 2(7) assms(5) by (simp add: e st)
      have p: "arena_plus (createArenaItem (blk_off b) (clt_size ty) fld) (reg_arena r) = Some (reg_arena r')"
        using 2(8,9) r4 by (auto simp: modArena_def bind_eq_Some_conv modRegion_eq_Some e ty)
      then have ch: "ch = (blk_off b, blk_off b + clt_size ty)" "0 < clt_size ty"
        using 2(10) assms(5) by (auto simp: createChunk_def bind_eq_Some_conv e st arena_plus_def arena_add_def createArenaItem_def Let_def split: if_splits)
      have "arena_intersects {} ch (reg_arena r') = Some {f. arena_at (reg_arena r') f \<inter> {blk_off b ..< blk_off b + clt_size ty} \<noteq> {}}"
        using arena_intersects_eq [OF arena_plus_wf [OF p wf]] ch by simp
      with 2(11) arena_plus_at [OF p wf assms(7)] assms(8) show ?thesis
        by (auto simp: arenaLookup_def bind_eq_Some_conv split: if_splits)
    qed
    ultimately have "keeps_block g c h'" by (rule keeps_block_reinterpretAll [OF 2(12), rotated])
    then show ?thesis by (simp add: keeps_block_def)
  qed
qed

theorem write_keeps_disjoint_field_witness:
  "case setValOfField 5 1 None wit_fields of
     Some (_, h) \<Rightarrow> map_option blk_value (getBlock 6 h) = Some 1 | None \<Rightarrow> False"
proof -
  have "case setValOfField 5 1 None wit_fields of Some (_, h) \<Rightarrow> True | None \<Rightarrow> False" by code_simp
  then obtain kp h where w: "setValOfField 5 1 None wit_fields = Some (kp, h)" by (auto split: option.splits)
  obtain b f where b: "getField 5 wit_fields = Some (b, f)" "blk_obj b = 4" "blk_off b = 0" "clt f = 5"
  proof -
    have "case getField 5 wit_fields of Some (b, f) \<Rightarrow> blk_obj b = 4 \<and> blk_off b = 0 \<and> clt f = 5 | None \<Rightarrow> False" by code_simp
    with that show ?thesis by (auto split: option.splits)
  qed
  obtain r where r: "getRegion 4 wit_fields = Some r" "reg_arena r = [(4, [(0, {5})]), (8, [(4, {6})])]"
  proof -
    have "map_option reg_arena (getRegion 4 wit_fields) = Some [(4, [(0, {5})]), (8, [(4, {6})])]" by code_simp
    with that show ?thesis by auto
  qed
  obtain ty where ty: "clt_at (storOf wit_fields) 5 = Some ty" "clt_size ty = 4"
  proof -
    have "map_option clt_size (clt_at (storOf wit_fields) 5) = Some 4" by code_simp
    with that show ?thesis by auto
  qed
  obtain c where c: "getBlock 6 wit_fields = Some c" "blk_value c = 1"
  proof -
    have "map_option blk_value (getBlock 6 wit_fields) = Some 1" by code_simp
    with that show ?thesis by auto
  qed
  have "arena_at (reg_arena r) 6 \<inter> {blk_off b ..< blk_off b + clt_size ty} = {}"
    by (auto simp: b r ty arena_at_iff arena_key_def)
  from write_keeps_disjoint_field [OF wit_fields_ok(2) w b(1) _ _ c(1) _ this] w b r ty c show ?thesis by simp
qed

end
