(* ===== verification/SymGc.thy ===== *)
theory SymGc
  imports HeapLive WorkList
begin

text \<open>
  The garbage collector (\<open>src/sl/symgc.cc\<close>): which objects an object refers to, when an object is junk, and the
  removal of junk from a heap.  The loops over work lists have no bound in the code; they are partial functions
  in the option type, \<open>None\<close> for a trap as well as for a run that does not end.
\<close>

section \<open>Referred and referring objects\<close>

definition gatherReferredRoots :: "TObjId \<Rightarrow> sheap \<Rightarrow> (TObjId set \<times> sheap) option" where
  "gatherReferredRoots obj h = do {
     (ptrs, h) \<leftarrow> gatherLiveFields obj h;
     (dst, h) \<leftarrow> ofold (\<lambda>fld (dst, h). do {
         (val, h) \<leftarrow> valueOf fld h;
         if val \<le> 0 then Some (dst, h)
         else do {
           obj \<leftarrow> objByAddr val h;
           valid \<leftarrow> isValid obj h;
           Some (if \<not> valid then dst else insert obj dst, h)
         }
       }) ptrs ({}, h);
     h \<leftarrow> dropHandles ptrs h;
     Some (dst, h)
   }"

text \<open>The objects with a field in the list, in turn scheduled.\<close>

definition scheduleReferrers :: "TFldId list \<Rightarrow> sheap \<Rightarrow> TObjId work_list \<Rightarrow> TObjId work_list option" where
  "scheduleReferrers refs h wl =
     ofold (\<lambda>fld wl. do { obj \<leftarrow> objByField fld h; Some (snd (wl_schedule SchedStack obj wl)) }) refs wl"

partial_function (option) isJunk_loop :: "TObjId work_list \<Rightarrow> sheap \<Rightarrow> (bool \<times> sheap) option" where
  "isJunk_loop wl h =
     (case wl_next wl of
        None \<Rightarrow> Some (True, h)
      | Some (obj, wl) \<Rightarrow> do {
          valid \<leftarrow> isValid obj h;
          cl_break_if (\<not> valid);
          code \<leftarrow> objStorClass obj h;
          anon \<leftarrow> (if isOnHeap code then Some None else isAnonStackObj obj h);
          if \<not> isOnHeap code \<and> anon = None then Some (False, h)
          else do {
            (refs, h) \<leftarrow> pointedBy obj h;
            wl \<leftarrow> scheduleReferrers refs h wl;
            h \<leftarrow> dropHandles refs h;
            isJunk_loop wl h
          }
        })"

definition isJunk :: "TObjId \<Rightarrow> sheap \<Rightarrow> (bool \<times> sheap) option" where
  "isJunk obj h = do {
     valid \<leftarrow> isValid obj h;
     if \<not> valid then Some (False, h) else isJunk_loop (wl_init SchedStack obj) h
   }"

section \<open>Collection of junk\<close>

text \<open>The set of leaking objects is empty where the code passes a null pointer; the callers ignore it then.\<close>

definition gcObject :: "bool \<Rightarrow> TObjId set \<Rightarrow> TObjId \<Rightarrow> bool \<times> TObjId set \<times> symheap \<Rightarrow> (bool \<times> TObjId set \<times> symheap) option" where
  "gcObject sharedOnly whiteList obj = (\<lambda>(detected, leakObjs, sh).
     if sharedOnly \<and> obj \<in> whiteList then Some (detected, leakObjs, sh)
     else do {
       level \<leftarrow> (if sharedOnly then objProtoLevel obj (core sh) else Some 0);
       if sharedOnly \<and> 0 < level then Some (detected, leakObjs, sh)
       else do {
         anon \<leftarrow> isAnonStackObj obj (core sh);
         let leak = (anon = None);
         sh \<leftarrow> objInvalidate obj sh;
         Some (detected \<or> leak, if leak then insert obj leakObjs else leakObjs, sh)
       }
     })"

partial_function (option) gc_loop :: "bool \<Rightarrow> TObjId set \<Rightarrow> TObjId work_list \<Rightarrow> bool \<times> TObjId set \<times> symheap \<Rightarrow>
    (bool \<times> TObjId set \<times> symheap) option" where
  "gc_loop sharedOnly whiteList wl s =
     (case wl_next wl of
        None \<Rightarrow> Some s
      | Some (obj, wl) \<Rightarrow>
          (case s of (detected, leakObjs, sh) \<Rightarrow> do {
             (junk, h) \<leftarrow> isJunk obj (core sh);
             let sh = sh\<lparr>core := h\<rparr>;
             if \<not> junk then gc_loop sharedOnly whiteList wl (detected, leakObjs, sh)
             else do {
               (refs, h) \<leftarrow> gatherReferredRoots obj (core sh);
               s \<leftarrow> gcObject sharedOnly whiteList obj (detected, leakObjs, sh\<lparr>core := h\<rparr>);
               gc_loop sharedOnly whiteList
                 (fold (\<lambda>refObj wl. snd (wl_schedule SchedStack refObj wl)) (sorted_list_of_set refs) wl) s
             }
           }))"

declare isJunk_loop.simps [code] gc_loop.simps [code]

definition gcCore :: "TObjId \<Rightarrow> bool \<Rightarrow> TObjId set \<Rightarrow> symheap \<Rightarrow> (bool \<times> TObjId set \<times> symheap) option" where
  "gcCore obj sharedOnly leakObjs sh =
     (if OBJ_INVALID = obj then Some (False, leakObjs, sh)
      else gc_loop sharedOnly (if sharedOnly then {obj} else {}) (wl_init SchedStack obj) (False, leakObjs, sh))"

definition collectJunk :: "TObjId \<Rightarrow> TObjId set \<Rightarrow> symheap \<Rightarrow> (bool \<times> TObjId set \<times> symheap) option" where
  "collectJunk obj leakObjs sh = gcCore obj False leakObjs sh"

definition collectSharedJunk :: "TObjId \<Rightarrow> TObjId set \<Rightarrow> symheap \<Rightarrow> (bool \<times> TObjId set \<times> symheap) option" where
  "collectSharedJunk obj leakObjs sh = gcCore obj True leakObjs sh"

definition destroyObjectAndCollectJunk :: "TObjId \<Rightarrow> TObjId set \<Rightarrow> symheap \<Rightarrow> (bool \<times> TObjId set \<times> symheap) option" where
  "destroyObjectAndCollectJunk obj leakObjs sh = do {
     valid \<leftarrow> isValid obj (core sh);
     cl_break_if (\<not> valid);
     (refs, h) \<leftarrow> gatherReferredRoots obj (core sh);
     sh \<leftarrow> objInvalidate obj (sh\<lparr>core := h\<rparr>);
     ofold (\<lambda>obj (leaking, leakObjs, sh). do {
       (leak, leakObjs, sh) \<leftarrow> collectJunk obj leakObjs sh;
       Some (leaking \<or> leak, leakObjs, sh)
     }) (sorted_list_of_set refs) (False, leakObjs, sh)
   }"

section \<open>The leak monitor\<close>

record leak_monitor =
  lm_debugging :: bool
  lm_snap :: "symheap option"
  lm_leakObjs :: "TObjId set"

definition lm_enter :: "symheap \<Rightarrow> leak_monitor \<Rightarrow> leak_monitor" where
  "lm_enter sh lm = (if lm_debugging lm then lm\<lparr>lm_snap := Some sh\<rparr> else lm)"

definition lm_collectJunkFrom :: "TValId list \<Rightarrow> leak_monitor \<Rightarrow> symheap \<Rightarrow> (bool \<times> leak_monitor \<times> symheap) option" where
  "lm_collectJunkFrom killedPtrs lm sh =
     ofold (\<lambda>val (leaking, lm, sh). do {
       obj \<leftarrow> objByAddr val (core sh);
       (leak, leaks, sh) \<leftarrow> collectJunk obj (lm_leakObjs lm) sh;
       Some (leaking \<or> leak, lm\<lparr>lm_leakObjs := leaks\<rparr>, sh)
     }) killedPtrs (False, lm, sh)"

definition lm_destroyObject :: "TObjId \<Rightarrow> leak_monitor \<Rightarrow> symheap \<Rightarrow> (bool \<times> leak_monitor \<times> symheap) option" where
  "lm_destroyObject obj lm sh = do {
     (leak, leaks, sh) \<leftarrow> destroyObjectAndCollectJunk obj (lm_leakObjs lm) sh;
     Some (leak, lm\<lparr>lm_leakObjs := leaks\<rparr>, sh)
   }"

definition lm_importLeakObjs :: "TObjId set \<Rightarrow> leak_monitor \<Rightarrow> (bool \<times> leak_monitor) option" where
  "lm_importLeakObjs leakObjs lm = do {
     cl_break_if (lm_leakObjs lm \<noteq> {});
     Some (leakObjs \<noteq> {}, lm\<lparr>lm_leakObjs := leakObjs\<rparr>)
   }"

section \<open>Handles come and go\<close>

text \<open>A heap with \<open>c fld\<close> more references to every field \<open>fld\<close>.\<close>

definition refs_block :: "int \<Rightarrow> block_ent \<Rightarrow> block_ent" where
  "refs_block n b = b\<lparr>blk_fld := map_option (\<lambda>f. f\<lparr>extRefCnt := extRefCnt f + n\<rparr>) (blk_fld b)\<rparr>"

definition addRefs :: "(TFldId \<Rightarrow> int) \<Rightarrow> sheap \<Rightarrow> sheap" where
  "addRefs c h = h\<lparr>ents := \<lambda>i. case ents h i of Some (EntBlock b) \<Rightarrow> Some (EntBlock (refs_block (c i) b)) | e \<Rightarrow> e\<rparr>"

lemma refs_block_0 [simp]: "refs_block 0 b = b"
  by (cases b; cases "blk_fld b") (auto simp: refs_block_def)

lemma refs_block_add: "refs_block m (refs_block n b) = refs_block (n + m) b"
  by (cases "blk_fld b") (auto simp: refs_block_def)

lemma addRefs_0: "(\<And>i. c i = 0) \<Longrightarrow> addRefs c h = h"
  by (auto simp: addRefs_def fun_eq_iff split: option.splits ent.splits intro!: sheap.equality)

lemma getBlock_addRefs: "getBlock i (addRefs c h) = map_option (refs_block (c i)) (getBlock i h)"
  by (auto simp: addRefs_def getBlock_def split: option.splits ent.splits)

lemma modBlock_addRefs:
  assumes "getBlock fld h = Some b"
  shows "modBlock fld (\<lambda>_. refs_block (c' fld) b) (addRefs c h) = Some (addRefs (c(fld := c' fld)) h)"
  using assms
  by (auto simp: modBlock_def getBlock_addRefs putEnt_def addRefs_def getBlock_def fun_eq_iff split: option.splits ent.splits)

definition fieldOk :: "TFldId \<Rightarrow> sheap \<Rightarrow> bool" where
  "fieldOk fld h \<longleftrightarrow> 0 < fld \<and> (\<exists>b f. getField fld h = Some (b, f) \<and> 0 \<le> extRefCnt f)"

lemma fldEnter_addRefs:
  assumes "fieldOk fld h" "0 \<le> c fld"
  shows "handleEnter fld (addRefs c h) = Some (addRefs (c(fld := c fld + 1)) h)"
proof -
  from assms(1) obtain b f where b: "getBlock fld h = Some b" "blk_fld b = Some f" "0 \<le> extRefCnt f" "0 < fld"
    by (auto simp: fieldOk_def getField_eq_Some)
  then have g: "getField fld (addRefs c h) = Some (refs_block (c fld) b, f\<lparr>extRefCnt := extRefCnt f + c fld\<rparr>)"
    by (simp add: getField_def getBlock_addRefs) (simp add: refs_block_def)
  have "modBlock fld (\<lambda>b. b\<lparr>blk_fld := Some (f\<lparr>extRefCnt := extRefCnt f + c fld + 1\<rparr>)\<rparr>) (addRefs c h) =
      modBlock fld (\<lambda>_. refs_block ((c(fld := c fld + 1)) fld) b) (addRefs c h)"
    using b by (simp add: modBlock_def getBlock_addRefs) (simp add: refs_block_def add.assoc add_diff_eq)
  then show ?thesis
    using b assms(2) modBlock_addRefs [OF b(1), of "c(fld := c fld + 1)" c] by (simp add: handleEnter_def fldEnter_def g)
qed

lemma fldLeave_addRefs:
  assumes "fieldOk fld h" "1 \<le> c fld"
  shows "handleLeave fld (addRefs c h) = Some (addRefs (c(fld := c fld - 1)) h)"
proof -
  from assms(1) obtain b f where b: "getBlock fld h = Some b" "blk_fld b = Some f" "0 \<le> extRefCnt f" "0 < fld"
    by (auto simp: fieldOk_def getField_eq_Some)
  then have g: "getField fld (addRefs c h) = Some (refs_block (c fld) b, f\<lparr>extRefCnt := extRefCnt f + c fld\<rparr>)"
    by (simp add: getField_def getBlock_addRefs) (simp add: refs_block_def)
  have "modBlock fld (\<lambda>b. b\<lparr>blk_fld := Some (f\<lparr>extRefCnt := extRefCnt f + c fld - 1\<rparr>)\<rparr>) (addRefs c h) =
      modBlock fld (\<lambda>_. refs_block ((c(fld := c fld - 1)) fld) b) (addRefs c h)"
    using b by (simp add: modBlock_def getBlock_addRefs) (simp add: refs_block_def add.assoc add_diff_eq)
  then show ?thesis
    using b assms(2) modBlock_addRefs [OF b(1), of "c(fld := c fld - 1)" c] by (simp add: handleLeave_def fldLeave_def g)
qed

definition cnt_of :: "TFldId list \<Rightarrow> TFldId \<Rightarrow> int" where
  "cnt_of flds i = int (count_list flds i)"

lemma enter_all:
  assumes "\<And>fld. fld \<in> set flds \<Longrightarrow> fieldOk fld h" "\<And>i. 0 \<le> c i"
  shows "ofold handleEnter flds (addRefs c h) = Some (addRefs (\<lambda>i. c i + cnt_of flds i) h)"
  using assms
proof (induction flds arbitrary: c)
  case (Cons fld flds)
  have "ofold handleEnter flds (addRefs (c(fld := c fld + 1)) h) = Some (addRefs (\<lambda>i. (c(fld := c fld + 1)) i + cnt_of flds i) h)"
    using Cons.prems by (intro Cons.IH) (auto simp: add_nonneg_nonneg)
  moreover have "(\<lambda>i. (c(fld := c fld + 1)) i + cnt_of flds i) = (\<lambda>i. c i + cnt_of (fld # flds) i)"
    by (auto simp: cnt_of_def)
  ultimately show ?case using Cons.prems by (simp add: fldEnter_addRefs)
qed (simp add: cnt_of_def)

lemma leave_all:
  assumes "\<And>fld. fld \<in> set flds \<Longrightarrow> fieldOk fld h" "\<And>i. 0 \<le> c i"
  shows "ofold handleLeave flds (addRefs (\<lambda>i. c i + cnt_of flds i) h) = Some (addRefs c h)"
  using assms
proof (induction flds arbitrary: c)
  case (Cons fld flds)
  let ?d = "\<lambda>i. c i + cnt_of (fld # flds) i"
  have "1 \<le> ?d fld" using Cons.prems(2) [of fld] by (simp add: cnt_of_def)
  then have "handleLeave fld (addRefs ?d h) = Some (addRefs (?d(fld := ?d fld - 1)) h)"
    using Cons.prems(1) by (intro fldLeave_addRefs) auto
  moreover have "?d(fld := ?d fld - 1) = (\<lambda>i. c i + cnt_of flds i)" by (auto simp: cnt_of_def)
  ultimately show ?case using Cons by simp
qed (simp add: cnt_of_def)

text \<open>Handles that are dropped again leave the heap as it was.\<close>

lemma push_drop:
  assumes "\<And>fld. fld \<in> set flds \<Longrightarrow> fieldOk fld h"
  obtains h1 where "pushHandles flds h = Some (flds, h1)" "dropHandles flds h1 = Some h"
    "\<And>fld. map_option (blk_obj \<circ> fst) (getField fld h1) = map_option (blk_obj \<circ> fst) (getField fld h)"
proof -
  let ?h = "addRefs (cnt_of flds) h"
  have "addRefs (\<lambda>_. 0) h = h" by (simp add: addRefs_0)
  then have e: "ofold handleEnter flds h = Some ?h" "ofold handleLeave flds ?h = Some h"
    using enter_all [OF assms, of flds "\<lambda>_. 0"] leave_all [OF assms, of flds "\<lambda>_. 0"] by simp_all
  have "map_option (blk_obj \<circ> fst) (getField fld ?h) = map_option (blk_obj \<circ> fst) (getField fld h)" for fld
    by (cases "getBlock fld h"; simp add: getField_def getBlock_addRefs)
      (auto simp: refs_block_def bind_eq_Some_conv split: option.splits Option.bind_splits)
  with e that show thesis by (simp add: pushHandles_def dropHandles_def)
qed

section \<open>Junk\<close>

text \<open>\<open>refers h\<close> leads from an object to the objects with a field that points to it.\<close>

definition refers :: "sheap \<Rightarrow> (TObjId \<times> TObjId) set" where
  "refers h = {(obj, by). \<exists>r fld b. getRegion obj h = Some r \<and> fld \<in> reg_usedByGl r \<and> getBlock fld h = Some b \<and> by = blk_obj b}"

text \<open>An object that never is junk: it is neither on the heap nor an anonymous object of the stack.\<close>

definition isRootObj :: "TObjId \<Rightarrow> sheap \<Rightarrow> bool" where
  "isRootObj obj h \<longleftrightarrow> (\<exists>r. getRegion obj h = Some r \<and> reg_code r \<noteq> SC_ON_HEAP \<and>
     (obj = OBJ_RETURN \<or> reg_code r \<noteq> SC_ON_STACK \<or> cv_uid (reg_cVar r) \<noteq> - 1))"

lemma isRootObj_region: "getRegion obj h = Some r \<Longrightarrow> isRootObj obj h \<longleftrightarrow>
    reg_code r \<noteq> SC_ON_HEAP \<and> (obj = OBJ_RETURN \<or> reg_code r \<noteq> SC_ON_STACK \<or> cv_uid (reg_cVar r) \<noteq> - 1)"
  by (simp add: isRootObj_def)

text \<open>
  What the collector relies on: the fields that point to a valid object are fields of valid objects, and an
  anonymous object of the stack belongs to a call.
\<close>

definition gc_ok :: "sheap \<Rightarrow> bool" where
  "gc_ok h \<longleftrightarrow> (\<forall>obj r. getRegion obj h = Some r \<longrightarrow> reg_isValid r \<longrightarrow> 0 \<le> obj \<and> finite (reg_usedByGl r) \<and>
     (reg_code r = SC_ON_STACK \<longrightarrow> obj \<noteq> OBJ_RETURN \<longrightarrow> cv_uid (reg_cVar r) = - 1 \<longrightarrow> 0 \<le> ci_uid (reg_anonStackOf r)) \<and>
     (\<forall>fld \<in> reg_usedByGl r. fieldOk fld h \<and> (\<exists>b s. getBlock fld h = Some b \<and> getRegion (blk_obj b) h = Some s \<and> reg_isValid s)))"

lemma gc_okD:
  assumes "gc_ok h" "getRegion obj h = Some r" "reg_isValid r"
  shows "0 \<le> obj" "finite (reg_usedByGl r)"
    "reg_code r = SC_ON_STACK \<Longrightarrow> obj \<noteq> OBJ_RETURN \<Longrightarrow> cv_uid (reg_cVar r) = - 1 \<Longrightarrow> 0 \<le> ci_uid (reg_anonStackOf r)"
    "fld \<in> reg_usedByGl r \<Longrightarrow> fieldOk fld h"
    "fld \<in> reg_usedByGl r \<Longrightarrow> \<exists>b s. getBlock fld h = Some b \<and> getRegion (blk_obj b) h = Some s \<and> reg_isValid s"
  using assms unfolding gc_ok_def by blast+

lemma anonStack_root:
  assumes "gc_ok h" "getRegion obj h = Some r" "reg_isValid r"
  shows "(if isOnHeap (reg_code r) then Some None else isAnonStackObj obj h) =
    Some (if isOnHeap (reg_code r) \<or> isRootObj obj h then None else Some (reg_anonStackOf r))"
  using gc_okD(3) [OF assms] isRootObj_region [OF assms(2)] assms(2)
  by (simp add: isAnonStackObj_def isOnHeap_def) (metis not_less)

lemma heap_not_root: "getRegion obj h = Some r \<Longrightarrow> isRootObj obj h \<Longrightarrow> \<not> isOnHeap (reg_code r)"
  by (auto simp: isRootObj_region isOnHeap_def)

lemma scheduleReferrers_eq:
  assumes "\<And>fld. fld \<in> set refs \<Longrightarrow> 0 < fld \<and> map_option (blk_obj \<circ> fst) (getField fld h) = Some (g fld)"
  shows "scheduleReferrers refs h wl = Some (wl_dfs.schedule_all (map g refs) wl)"
  using assms
proof (induction refs arbitrary: wl)
  case (Cons fld refs)
  from Cons.prems [of fld] have "objByField fld h = Some (g fld)" by (auto simp: objByField_def)
  with Cons show ?case by (simp add: scheduleReferrers_def wl_dfs.schedule_all_def)
qed (simp add: scheduleReferrers_def wl_dfs.schedule_all_def)

text \<open>The state of the search: every object that was taken from the work list has its referrers on it.\<close>

definition junk_inv :: "sheap \<Rightarrow> TObjId \<Rightarrow> TObjId work_list \<Rightarrow> bool" where
  "junk_inv h obj wl \<longleftrightarrow> wl_wf wl \<and> obj \<in> seen wl \<and> seen wl \<subseteq> (refers h)\<^sup>* `` {obj} \<and>
     (\<forall>x \<in> seen wl. \<exists>r. getRegion x h = Some r \<and> reg_isValid r) \<and>
     (\<forall>x \<in> seen wl - set (todo wl). \<not> isRootObj x h \<and> refers h `` {x} \<subseteq> seen wl)"

lemma junk_round:
  assumes "gc_ok h" "junk_inv h obj wl" "wl_next wl = Some (x, wl1)" "\<not> isRootObj x h"
  obtains wl2 h1 where "pointedBy x h = Some (sorted_list_of_set (reg_usedByGl (the (getRegion x h))), h1)"
    "scheduleReferrers (sorted_list_of_set (reg_usedByGl (the (getRegion x h)))) h1 wl1 = Some wl2"
    "dropHandles (sorted_list_of_set (reg_usedByGl (the (getRegion x h)))) h1 = Some h"
    "junk_inv h obj wl2" "seen wl2 - set (todo wl2) = insert x (seen wl - set (todo wl))" "x \<in> set (todo wl)"
proof -
  have wf: "wl_wf wl" using assms(2) by (simp add: junk_inv_def)
  from wl_dfs.next_Some [OF wf assms(3)] have nx: "wl_wf wl1" "x \<in> set (todo wl)" "set (todo wl1) = set (todo wl) - {x}" "seen wl1 = seen wl"
    by (auto simp: wl_pending_def)
  then have "x \<in> seen wl" using wf by (auto simp: wl_wf_def)
  then obtain r where r: "getRegion x h = Some r" "reg_isValid r" using assms(2) by (auto simp: junk_inv_def)
  note ok = gc_okD [OF assms(1) r]
  let ?l = "sorted_list_of_set (reg_usedByGl r)"
  have l: "set ?l = reg_usedByGl r" using ok(2) by simp
  obtain h1 where h1: "pushHandles ?l h = Some (?l, h1)" "dropHandles ?l h1 = Some h"
    "\<And>fld. map_option (blk_obj \<circ> fst) (getField fld h1) = map_option (blk_obj \<circ> fst) (getField fld h)"
    using push_drop [of ?l h] ok(4) l by metis
  define g where "g fld = blk_obj (the (getBlock fld h))" for fld
  have g: "0 < fld \<and> map_option (blk_obj \<circ> fst) (getField fld h1) = Some (g fld)" if "fld \<in> set ?l" for fld
  proof -
    from ok(4) [of fld] that l have "fieldOk fld h" by simp
    then obtain b f where "0 < fld" "getField fld h = Some (b, f)" by (auto simp: fieldOk_def)
    then show ?thesis unfolding h1(3) by (simp add: g_def getField_eq_Some)
  qed
  have succ: "g ` reg_usedByGl r = refers h `` {x}"
  proof -
    have "getBlock fld h = Some (the (getBlock fld h))" if "fld \<in> reg_usedByGl r" for fld
      using ok(5) [OF that] by auto
    then show ?thesis using r(1) by (force simp: refers_def g_def)
  qed
  define wl2 where "wl2 = wl_dfs.schedule_all (map g ?l) wl1"
  have s: "scheduleReferrers ?l h1 wl1 = Some wl2" unfolding wl2_def by (rule scheduleReferrers_eq) (rule g)
  have w2: "wl_wf wl2" "seen wl2 = seen wl \<union> refers h `` {x}" "set (todo wl2) = (set (todo wl) - {x}) \<union> (refers h `` {x} - seen wl)"
    using wl_dfs.schedule_all_ok [OF nx(1), of "map g ?l"] nx succ l by (simp_all add: wl2_def wl_pending_def)
  have fin: "seen wl2 - set (todo wl2) = insert x (seen wl - set (todo wl))"
    using w2 nx(2) \<open>x \<in> seen wl\<close> by auto
  have valid: "\<exists>r. getRegion y h = Some r \<and> reg_isValid r" if "y \<in> refers h `` {x}" for y
    using that ok(5) r(1) by (fastforce simp: refers_def)
  have "seen wl2 \<subseteq> (refers h)\<^sup>* `` {obj}"
    using assms(2) \<open>x \<in> seen wl\<close> unfolding w2 junk_inv_def by (blast intro: rtrancl_into_rtrancl)
  then have "junk_inv h obj wl2"
    using assms(2,4) w2 valid unfolding junk_inv_def fin by blast
  with that h1 s fin nx(2) r(1) show thesis by (simp add: pointedBy_def)
qed

lemma isJunk_loop_eq:
  assumes "gc_ok h" "junk_inv h obj wl" "finite {x. getRegion x h \<noteq> None}"
  shows "isJunk_loop wl h = Some (\<not> (\<exists>x \<in> (refers h)\<^sup>* `` {obj}. isRootObj x h), h)"
  using assms(2)
proof (induction "card ({x. getRegion x h \<noteq> None} - (seen wl - set (todo wl)))" arbitrary: wl rule: less_induct)
  case less
  show ?case
  proof (cases "wl_next wl")
    case None
    then have "todo wl = []" by (auto simp: wl_next_def split: list.splits)
    with less.prems have closed: "\<forall>x \<in> seen wl. \<not> isRootObj x h \<and> refers h `` {x} \<subseteq> seen wl" and "obj \<in> seen wl"
      by (auto simp: junk_inv_def)
    have "(refers h)\<^sup>* `` {obj} \<subseteq> seen wl"
    proof clarify
      fix y
      assume "(obj, y) \<in> (refers h)\<^sup>*"
      then show "y \<in> seen wl" by (induction rule: rtrancl_induct) (use closed \<open>obj \<in> seen wl\<close> in auto)
    qed
    with closed None show ?thesis by (subst isJunk_loop.simps) auto
  next
    case (Some p)
    obtain x wl1 where p: "p = (x, wl1)" by (cases p)
    from Some p have x: "x \<in> set (todo wl)" by (auto simp: wl_next_def split: list.splits)
    with less.prems have xs: "x \<in> seen wl" "(obj, x) \<in> (refers h)\<^sup>*" by (auto simp: junk_inv_def wl_wf_def)
    then obtain r where r: "getRegion x h = Some r" "reg_isValid r" using less.prems by (auto simp: junk_inv_def)
    have code: "objStorClass x h = Some (reg_code r)" using r gc_okD(1) [OF assms(1) r] by (auto simp: objStorClass_def)
    note anon = anonStack_root [OF assms(1) r]
    show ?thesis
    proof (cases "isRootObj x h")
      case True
      then have "isJunk_loop wl h = Some (False, h)"
        using Some p r code anon heap_not_root [OF r(1) True] by (subst isJunk_loop.simps) (simp add: isValid_region)
      then show ?thesis using True xs by auto
    next
      case False
      let ?l = "sorted_list_of_set (reg_usedByGl r)"
      obtain wl2 h1 where s: "pointedBy x h = Some (?l, h1)" "scheduleReferrers ?l h1 wl1 = Some wl2" "dropHandles ?l h1 = Some h"
        "junk_inv h obj wl2" "seen wl2 - set (todo wl2) = insert x (seen wl - set (todo wl))"
        using junk_round [OF assms(1) less.prems _ False] Some p r(1) by (metis option.sel)
      have "card ({x. getRegion x h \<noteq> None} - (seen wl2 - set (todo wl2))) < card ({x. getRegion x h \<noteq> None} - (seen wl - set (todo wl)))"
        unfolding s(5) using x xs r(1) assms(3) by (intro psubset_card_mono) auto
      from less.hyps [OF this s(4)] have "isJunk_loop wl2 h = Some (\<not> (\<exists>x \<in> (refers h)\<^sup>* `` {obj}. isRootObj x h), h)" .
      then show ?thesis
        using Some p r code anon False s(1-3) by (subst isJunk_loop.simps) (cases "isOnHeap (reg_code r)"; simp add: isValid_region)
    qed
  qed
qed

lemma finite_regions: "fresh_ids h \<Longrightarrow> finite {x. getRegion x h \<noteq> None}"
  by (rule finite_subset [of _ "{0..<entCnt h}"]) (auto dest: fresh_ids_bounds)

section \<open>Properties of the search\<close>

text \<open>A heap with an object that nothing points to.\<close>

definition wit_leak :: symheap where
  "wit_leak = \<lparr>core = wit_alloc (initial_heap wit_stor False), absRoots = (\<lambda>_. None)\<rparr>"

text \<open>The object of the return value is on the stack.\<close>

definition return_ok :: "sheap \<Rightarrow> bool" where
  "return_ok h \<longleftrightarrow> (\<exists>r. getRegion OBJ_RETURN h = Some r \<and> reg_code r = SC_ON_STACK)"

lemma return_root: "return_ok h \<Longrightarrow> isRootObj OBJ_RETURN h"
  by (auto simp: return_ok_def isRootObj_region)

lemma wit_leak_core:
  "core wit_leak = (allocEnt (EntRegion ((new_region SC_ON_HEAP)\<lparr>reg_size := rngFromNum 8\<rparr>)) (initial_heap wit_stor False))\<lparr>liveObjs := {4}\<rparr>"
  by (simp add: wit_leak_def wit_alloc_def heapAlloc_eq) (simp add: initial_heap_def rngFromNum_def)

lemma getRegion_wit_leak:
  "getRegion i (core wit_leak) = (if i = 2 then Some ((new_region SC_INVALID)\<lparr>reg_addrByTS := [TS_REGION \<mapsto> 0], reg_isValid := False\<rparr>)
     else if i = 3 then Some (new_region SC_ON_STACK)
     else if i = 4 then Some ((new_region SC_ON_HEAP)\<lparr>reg_size := rngFromNum 8\<rparr>) else None)"
  unfolding wit_leak_core by (simp add: initial_heap_def getRegion_def allocEnt_def)

lemma wit_leak_ok: "live_inv (core wit_leak)" "return_ok (core wit_leak)" "gc_ok (core wit_leak)"
proof -
  have "live_inv (initial_heap wit_stor False)" by (rule live_inv_initial) (simp add: wit_stor_def)
  from live_inv_alloc [OF this, of "(new_region SC_ON_HEAP)\<lparr>reg_size := rngFromNum 8\<rparr>"] show "live_inv (core wit_leak)"
    unfolding wit_leak_core by (simp add: new_region_def) (simp add: initial_heap_def)
  show "return_ok (core wit_leak)" by (simp add: return_ok_def getRegion_wit_leak new_region_def)
  show "gc_ok (core wit_leak)" by (auto simp: gc_ok_def getRegion_wit_leak new_region_def split: if_splits)
qed

text \<open>
  C7: the search for junk ends and leaves the heap as it is; it finds a valid object to be junk exactly when no object
  other than those on the heap and the anonymous ones of the stack leads to it over any number of pointers.
\<close>

theorem isJunk_exact:
  assumes "gc_ok h" "fresh_ids h" "getRegion obj h = Some r"
  shows "isJunk obj h = Some (reg_isValid r \<and> \<not> (\<exists>x. (obj, x) \<in> (refers h)\<^sup>* \<and> isRootObj x h), h)"
proof (cases "reg_isValid r")
  case True
  have "junk_inv h obj (wl_init SchedStack obj)"
    using True assms(3) by (simp add: junk_inv_def wl_init_def wl_wf_def)
  from isJunk_loop_eq [OF assms(1) this finite_regions [OF assms(2)]] True assms(3) show ?thesis
    by (auto simp: isJunk_def isValid_region)
qed (use assms(3) in \<open>simp add: isJunk_def isValid_region\<close>)

theorem isJunk_exact_witness: "isJunk 4 (core wit_leak) = Some (True, core wit_leak)"
proof -
  have r: "getRegion 4 (core wit_leak) = Some ((new_region SC_ON_HEAP)\<lparr>reg_size := rngFromNum 8\<rparr>)" by (simp add: getRegion_wit_leak)
  have "refers (core wit_leak) = {}" by (auto simp: refers_def getRegion_wit_leak new_region_def split: if_splits)
  moreover have "\<not> isRootObj 4 (core wit_leak)" by (simp add: isRootObj_region [OF r] new_region_def)
  moreover have "fresh_ids (core wit_leak)" using wit_leak_ok(1) by (simp add: live_inv_def)
  ultimately show ?thesis using isJunk_exact [OF wit_leak_ok(3) _ r] by (simp add: new_region_def)
qed

section \<open>What the collector removes\<close>

text \<open>The collector makes objects invalid and keeps everything else that tells the kind of an object.\<close>

definition gc_rel :: "sheap \<Rightarrow> sheap \<Rightarrow> bool" where
  "gc_rel h h' \<longleftrightarrow> live_inv h' \<and> liveObjs h' \<subseteq> liveObjs h \<and>
     (\<forall>obj r. getRegion obj h = Some r \<longrightarrow> (\<exists>r'. getRegion obj h' = Some r' \<and> reg_code r' = reg_code r \<and> reg_cVar r' = reg_cVar r))"

lemma gc_rel_refl: "live_inv h \<Longrightarrow> gc_rel h h"
  by (simp add: gc_rel_def)

lemma gc_rel_regions:
  "gc_rel h0 h \<Longrightarrow> getRegion obj h0 = Some r \<Longrightarrow> \<exists>r'. getRegion obj h = Some r' \<and> reg_code r' = reg_code r \<and> reg_cVar r' = reg_cVar r"
  unfolding gc_rel_def by blast

lemma gc_rel_trans:
  assumes "gc_rel h1 h2" "gc_rel h2 h3"
  shows "gc_rel h1 h3"
proof -
  have "\<exists>r3. getRegion obj h3 = Some r3 \<and> reg_code r3 = reg_code r1 \<and> reg_cVar r3 = reg_cVar r1" if r1: "getRegion obj h1 = Some r1" for obj r1
  proof -
    from gc_rel_regions [OF assms(1) r1] obtain r2 where r2: "getRegion obj h2 = Some r2" "reg_code r2 = reg_code r1" "reg_cVar r2 = reg_cVar r1"
      by blast
    from gc_rel_regions [OF assms(2) r2(1)] r2 show ?thesis by auto
  qed
  with assms show ?thesis by (auto simp: gc_rel_def)
qed

lemma gc_rel_field_step:
  assumes "field_step h h'" "live_inv h"
  shows "gc_rel h h'"
proof -
  have f: "fresh_ids h" using assms(2) by (simp add: live_inv_def)
  have "\<exists>r'. getRegion obj h' = Some r' \<and> reg_code r' = reg_code r \<and> reg_cVar r' = reg_cVar r" if r: "getRegion obj h = Some r" for obj r
    using field_step_regions(2) [OF assms(1) f r] by (auto simp: reg_same_def)
  then show ?thesis
    using live_inv_field_step [OF assms] field_step_tables(1) [OF assms(1)] by (simp add: gc_rel_def)
qed

lemma fs_isJunk_loop:
  assumes "isJunk_loop wl h = Some y"
  shows "field_step h0 h \<longrightarrow> field_step h0 (snd y)"
proof (rule isJunk_loop.raw_induct [OF _ assms])
  fix loop wl h y
  assume IH: "\<And>wl h y. loop wl h = Some y \<Longrightarrow> field_step h0 h \<longrightarrow> field_step h0 (snd y)"
    and step: "(case wl_next wl of
        None \<Rightarrow> Some (True, h)
      | Some (obj, wl) \<Rightarrow> do {
          valid \<leftarrow> isValid obj h;
          cl_break_if (\<not> valid);
          code \<leftarrow> objStorClass obj h;
          anon \<leftarrow> (if isOnHeap code then Some None else isAnonStackObj obj h);
          if \<not> isOnHeap code \<and> anon = None then Some (False, h)
          else do {
            (refs, h) \<leftarrow> pointedBy obj h;
            wl \<leftarrow> scheduleReferrers refs h wl;
            h \<leftarrow> dropHandles refs h;
            loop wl h
          }
        }) = Some y"
  from step consider "snd y = h"
    | obj refs h1 wl2 h2 where "pointedBy obj h = Some (refs, h1)" "dropHandles refs h1 = Some h2" "loop wl2 h2 = Some y"
    by (elim heap_elims; hypsubst?) auto
  then show "field_step h0 h \<longrightarrow> field_step h0 (snd y)"
  proof cases
    case 2
    from IH [OF 2(3)] show ?thesis using fs.ops.P_dropHandles [OF 2(2)] fs.ops.P_pointedBy [OF 2(1)] by blast
  qed simp
qed

lemma fs_isJunk: "isJunk obj h = Some (junk, h') \<Longrightarrow> field_step h h'"
  using fs_isJunk_loop [of "wl_init SchedStack obj" h "(junk, h')" h]
  by (auto simp: isJunk_def bind_eq_Some_conv split: if_splits)

text \<open>Only valid objects that are no roots are found to be junk.\<close>

lemma isJunk_True:
  assumes "isJunk obj h = Some (True, h')" "fresh_ids h"
  obtains r where "getRegion obj h = Some r" "reg_isValid r" "\<not> isRootObj obj h"
proof -
  from assms(1) have v: "isValid obj h = Some True" and l: "isJunk_loop (wl_init SchedStack obj) h = Some (True, h')"
    by (auto simp: isJunk_def bind_eq_Some_conv split: if_splits)
  then obtain r where r: "getRegion obj h = Some r" "reg_isValid r" by (auto simp: isValid_def split: if_splits)
  have nx: "wl_next (wl_init SchedStack obj) = Some (obj, \<lparr>todo = [], seen = {obj}\<rparr>)" by (simp add: wl_next_def wl_init_def)
  have "\<not> isRootObj obj h"
  proof
    assume "isRootObj obj h"
    then have "\<not> isOnHeap (reg_code r)" "isAnonStackObj obj h = Some None"
      using r(1) by (auto simp: isRootObj_region isOnHeap_def isAnonStackObj_def)
    moreover have "obj \<noteq> OBJ_INVALID" using fresh_ids_bounds(3) [OF assms(2) r(1)] by auto
    ultimately show False using l r v nx by (subst (asm) isJunk_loop.simps) (simp add: objStorClass_def)
  qed
  with r that show thesis by blast
qed

lemma fs_gatherReferredRoots:
  assumes "gatherReferredRoots obj h = Some (refs, h')"
  shows "field_step h h'"
proof -
  from assms obtain ptrs h1 h2 where g: "gatherLiveFields obj h = Some (ptrs, h1)"
    and l: "ofold (\<lambda>fld (dst, h). do {
         (val, h) \<leftarrow> valueOf fld h;
         if val \<le> 0 then Some (dst, h)
         else do {
           obj \<leftarrow> objByAddr val h;
           valid \<leftarrow> isValid obj h;
           Some (if \<not> valid then dst else insert obj dst, h)
         }
       }) ptrs ({}, h1) = Some (refs, h2)" and d: "dropHandles ptrs h2 = Some h'"
    unfolding gatherReferredRoots_def by (elim heap_elims; hypsubst) blast
  have "field_step h h1" by (rule fs.ops.P_gatherLiveFields [OF g]) simp
  then have "field_step h (snd (refs, h2))"
    by (intro fs.P_ofold [OF l, where g = snd])
      (auto simp: bind_eq_Some_conv split: if_splits elim: fs.P_valueOf)
  then show ?thesis by (simp add: fs.ops.P_dropHandles [OF d])
qed

lemma gc_rel_objInvalidate:
  assumes "objInvalidate_core obj h = Some h'" "live_inv h"
  shows "gc_rel h h'" "liveObjs h' = liveObjs h - {obj}"
proof -
  show l: "liveObjs h' = liveObjs h - {obj}" using objInvalidate_spec [OF assms(2,1)] by blast
  from assms(1) show "gc_rel h h'"
  proof (rule objInvalidateE)
    fix h1 r h2 h3
    assume h1: "modRegion obj (\<lambda>r. r\<lparr>reg_isValid := False,
        reg_lastKnownClt := (if OBJ_RETURN = obj then 0 else reg_lastKnownClt r)\<rparr>) h = Some h1"
      and h2: "(if cv_uid (reg_cVar r) \<noteq> - 1 then do {
        m \<leftarrow> cvm_remove (reg_cVar r) (cVarMap h1);
        Some (h1\<lparr>cVarMap := m\<rparr>)
      } else Some h1) = Some h2"
      and h3: "(if 0 < hi (reg_size r) then do {
        allObjs \<leftarrow> arenaLookup (reg_arena r) (0, hi (reg_size r)) FLD_INVALID;
        ofold (\<lambda>fld h. fldDestroy fld True False h) (sorted_list_of_set allObjs) (h2\<lparr>liveObjs := liveObjs h2 - {obj}\<rparr>)
      } else Some (h2\<lparr>liveObjs := liveObjs h2 - {obj}\<rparr>)) = Some h3"
      and h': "modRegion obj (\<lambda>r. r\<lparr>reg_liveFields := [], reg_arena := arena_clear (reg_arena r)\<rparr>) h3 = Some h'"
    let ?h2 = "h2\<lparr>liveObjs := liveObjs h2 - {obj}\<rparr>"
    have f: "fresh_ids h" using assms(2) by (simp add: live_inv_def)
    then have "fresh_ids h1" using h1 by (auto simp: modRegion_eq_Some intro: fresh_ids_prims)
    then have f2: "fresh_ids ?h2" using h2 by (auto simp: bind_eq_Some_conv fresh_ids_def split: if_splits)
    have fs: "field_step ?h2 h3"
      using h3 by (auto simp: bind_eq_Some_conv split: if_splits elim!: fs.P_ofold_heap fs_fldDestroy)
    have "\<exists>r'. getRegion x h' = Some r' \<and> reg_code r' = reg_code r0 \<and> reg_cVar r' = reg_cVar r0" if r0: "getRegion x h = Some r0" for x r0
    proof -
      from h1 obtain ra rb where "getRegion obj h = Some ra" "h1 = putEnt obj (EntRegion rb) h" "reg_code rb = reg_code ra" "reg_cVar rb = reg_cVar ra"
        by (auto simp: modRegion_eq_Some)
      with r0 h2 obtain r2 where r2: "getRegion x ?h2 = Some r2" "reg_code r2 = reg_code r0" "reg_cVar r2 = reg_cVar r0"
        by (cases "x = obj") (auto simp: bind_eq_Some_conv split: if_splits)
      from field_step_regions(2) [OF fs f2 r2(1)] obtain r3 where "getRegion x h3 = Some r3" "reg_same r2 r3" by blast
      with r2 h' show ?thesis by (cases "x = obj") (auto simp: modRegion_eq_Some reg_same_def)
    qed
    with l live_inv_objInvalidate [OF assms] show ?thesis by (auto simp: gc_rel_def)
  qed
qed

text \<open>The state of a collection that started in the heap \<open>h0\<close> with the leaks \<open>L\<close>.\<close>

definition gc_inv :: "sheap \<Rightarrow> TObjId set \<Rightarrow> bool \<times> TObjId set \<times> symheap \<Rightarrow> bool" where
  "gc_inv h0 L = (\<lambda>(detected, leaks, sh). live_inv h0 \<and> return_ok h0 \<and> gc_rel h0 (core sh) \<and>
     (\<forall>obj \<in> liveObjs h0 - liveObjs (core sh). \<not> isRootObj obj h0) \<and>
     leaks = L \<union> {obj \<in> liveObjs h0 - liveObjs (core sh). objStorClass obj h0 = Some SC_ON_HEAP} \<and>
     (detected \<longleftrightarrow> {obj \<in> liveObjs h0 - liveObjs (core sh). objStorClass obj h0 = Some SC_ON_HEAP} \<noteq> {}))"

lemma gc_inv_field_step:
  assumes "gc_inv h0 L (d, l, sh)" "field_step (core sh) h"
  shows "gc_inv h0 L (d, l, sh\<lparr>core := h\<rparr>)"
proof -
  have "gc_rel (core sh) h" by (rule gc_rel_field_step [OF assms(2)]) (use assms(1) in \<open>simp add: gc_inv_def gc_rel_def\<close>)
  moreover have "liveObjs h = liveObjs (core sh)" by (rule field_step_tables [OF assms(2)])
  ultimately show ?thesis using assms(1) gc_rel_trans [of h0 "core sh" h] by (simp add: gc_inv_def)
qed

lemma gc_inv_object:
  assumes "gc_inv h0 L (d, l, sh)" "gcObject so wh obj (d, l, sh) = Some s" "obj \<in> liveObjs (core sh)" "\<not> isRootObj obj (core sh)"
  shows "gc_inv h0 L s"
proof -
  from assms(2) consider "s = (d, l, sh)"
    | anon sh' where "isAnonStackObj obj (core sh) = Some anon" "objInvalidate obj sh = Some sh'"
      "s = (d \<or> anon = None, if anon = None then insert obj l else l, sh')"
    by (auto simp: gcObject_def bind_eq_Some_conv Let_def split: if_splits)
  then show ?thesis
  proof cases
    case 2
    have rel: "gc_rel h0 (core sh)" using assms(1) by (simp add: gc_inv_def)
    then have li: "live_inv (core sh)" by (simp add: gc_rel_def)
    from 2(2) have inv: "objInvalidate_core obj (core sh) = Some (core sh')" by (auto simp: objInvalidate_def bind_eq_Some_conv)
    note g = gc_rel_objInvalidate [OF inv li]
    have "obj \<in> liveObjs h0" using rel assms(3) by (auto simp: gc_rel_def)
    then obtain r0 where r0: "getRegion obj h0 = Some r0" using assms(1) by (auto simp: gc_inv_def live_inv_def)
    obtain r where r: "getRegion obj (core sh) = Some r" "reg_code r = reg_code r0" "reg_cVar r = reg_cVar r0"
      using gc_rel_regions [OF rel r0] by blast
    have "0 \<le> obj" using li r(1) fresh_ids_bounds(3) by (auto simp: live_inv_def)
    then have code: "objStorClass obj h0 = Some (reg_code r0)" using r0 by (simp add: objStorClass_def)
    have nr: "\<not> isRootObj obj h0" using assms(4) r r0 by (simp add: isRootObj_region)
    have anon: "anon = None \<longleftrightarrow> reg_code r0 = SC_ON_HEAP"
      using 2(1) assms(4) r by (auto simp: isRootObj_region isAnonStackObj_def bind_eq_Some_conv split: if_splits)
    have diff: "liveObjs h0 - liveObjs (core sh') = insert obj (liveObjs h0 - liveObjs (core sh))"
      using g(2) \<open>obj \<in> liveObjs h0\<close> by auto
    show ?thesis
      using assms(1) gc_rel_trans [OF rel g(1)] nr code anon unfolding 2(3) gc_inv_def prod.case diff by auto
  qed (use assms(1) in simp)
qed

lemma isRootObj_rel:
  assumes "gc_rel h0 h" "getRegion obj h0 = Some r"
  shows "isRootObj obj h \<longleftrightarrow> isRootObj obj h0"
  using gc_rel_regions [OF assms] assms(2) by (auto simp: isRootObj_region)

text \<open>One object of the work list that is junk.\<close>

lemma gc_inv_junk:
  assumes "gc_inv h0 L (d, l, sh)" "isJunk obj (core sh) = Some (True, h1)" "gatherReferredRoots obj h1 = Some (refs, h2)"
    "gcObject so wh obj (d, l, sh\<lparr>core := h2\<rparr>) = Some s"
  shows "gc_inv h0 L s"
proof -
  have rel: "gc_rel h0 (core sh)" "return_ok h0" using assms(1) by (simp_all add: gc_inv_def)
  then have li: "live_inv (core sh)" by (simp add: gc_rel_def)
  have fs: "field_step (core sh) h2" by (rule field_step_trans [OF fs_isJunk [OF assms(2)] fs_gatherReferredRoots [OF assms(3)]])
  from isJunk_True [OF assms(2)] li obtain r where r: "getRegion obj (core sh) = Some r" "reg_isValid r" "\<not> isRootObj obj (core sh)"
    by (auto simp: live_inv_def)
  have "obj \<noteq> OBJ_RETURN"
  proof
    assume o: "obj = OBJ_RETURN"
    from rel(2) obtain r0 where "getRegion OBJ_RETURN h0 = Some r0" by (auto simp: return_ok_def)
    from isRootObj_rel [OF rel(1) this] return_root [OF rel(2)] r(3) o show False by simp
  qed
  with r li have "obj \<in> liveObjs (core sh)" by (auto simp: live_inv_def)
  then have live: "obj \<in> liveObjs h2" using field_step_tables(1) [OF fs] by simp
  have "\<not> isRootObj obj h2" using isRootObj_rel [OF gc_rel_field_step [OF fs li] r(1)] r(3) by simp
  from gc_inv_object [OF gc_inv_field_step [OF assms(1) fs] assms(4)] live this show ?thesis by simp
qed

lemma gc_inv_loop:
  assumes "gc_loop so wh wl s = Some s'"
  shows "gc_inv h0 L s \<longrightarrow> gc_inv h0 L s'"
proof (rule gc_loop.raw_induct [OF _ assms])
  fix loop so wh wl s s'
  assume IH: "\<And>so wh wl s s'. loop so wh wl s = Some s' \<Longrightarrow> gc_inv h0 L s \<longrightarrow> gc_inv h0 L s'"
    and step: "(case wl_next wl of
        None \<Rightarrow> Some s
      | Some (obj, wl) \<Rightarrow>
          (case s of (detected, leakObjs, sh) \<Rightarrow> do {
             (junk, h) \<leftarrow> isJunk obj (core sh);
             let sh = sh\<lparr>core := h\<rparr>;
             if \<not> junk then loop so wh wl (detected, leakObjs, sh)
             else do {
               (refs, h) \<leftarrow> gatherReferredRoots obj (core sh);
               s \<leftarrow> gcObject so wh obj (detected, leakObjs, sh\<lparr>core := h\<rparr>);
               loop so wh
                 (fold (\<lambda>refObj wl. snd (wl_schedule SchedStack refObj wl)) (sorted_list_of_set refs) wl) s
             }
           })) = Some s'"
  obtain d l sh where s: "s = (d, l, sh)" by (cases s)
  from step consider "s' = s"
    | obj h1 wl1 where "isJunk obj (core sh) = Some (False, h1)" "loop so wh wl1 (d, l, sh\<lparr>core := h1\<rparr>) = Some s'"
    | obj h1 refs h2 s1 wl1 where "isJunk obj (core sh) = Some (True, h1)" "gatherReferredRoots obj h1 = Some (refs, h2)"
      "gcObject so wh obj (d, l, sh\<lparr>core := h2\<rparr>) = Some s1" "loop so wh wl1 s1 = Some s'"
    unfolding s Let_def by (elim heap_elims; hypsubst?) auto
  then show "gc_inv h0 L s \<longrightarrow> gc_inv h0 L s'"
  proof cases
    case 2
    from IH [OF 2(2)] gc_inv_field_step [OF _ fs_isJunk [OF 2(1)]] show ?thesis unfolding s by blast
  next
    case 3
    from IH [OF 3(4)] gc_inv_junk [OF _ 3(1-3)] show ?thesis unfolding s by blast
  qed simp
qed

text \<open>
  C6: the collection of junk keeps the invariant of the live objects; it only takes objects from them, none of which
  is a program variable or the return value, and it reports as a leak exactly the objects on the heap that it
  takes away.
\<close>

theorem collectJunk_effect:
  assumes "live_inv (core sh)" "return_ok (core sh)" "gcCore obj sharedOnly {} sh = Some (detected, leaks, sh')"
  shows "live_inv (core sh') \<and> liveObjs (core sh') \<subseteq> liveObjs (core sh) \<and>
    (\<forall>x \<in> liveObjs (core sh) - liveObjs (core sh'). \<not> isRootObj x (core sh)) \<and>
    leaks = {x \<in> liveObjs (core sh) - liveObjs (core sh'). objStorClass x (core sh) = Some SC_ON_HEAP} \<and>
    (detected \<longleftrightarrow> leaks \<noteq> {})"
proof -
  have "gc_inv (core sh) {} (False, {}, sh)" using assms(1,2) by (simp add: gc_inv_def gc_rel_refl)
  then have "gc_inv (core sh) {} (detected, leaks, sh')"
    using assms(3) gc_inv_loop by (auto simp: gcCore_def split: if_splits)
  then show ?thesis unfolding gc_inv_def gc_rel_def prod.case by auto
qed

theorem collectJunk_effect_witness:
  "case gcCore 4 False {} wit_leak of Some (detected, leaks, sh) \<Rightarrow> leaks = {4} \<and> liveObjs (core sh) = {} | None \<Rightarrow> False"
proof -
  have "case gcCore 4 False {} wit_leak of Some (detected, leaks, sh) \<Rightarrow> detected | None \<Rightarrow> False" by code_simp
  then obtain leaks sh where e: "gcCore 4 False {} wit_leak = Some (True, leaks, sh)" by (auto split: option.splits)
  have "liveObjs (core wit_leak) = {4}" by (simp add: wit_leak_core)
  with collectJunk_effect [OF wit_leak_ok(1,2) e] e show ?thesis by auto
qed

end
