(* ===== verification/SymSeg.thy ===== *)
theory SymSeg
  imports SymHeap WorkList
begin

text \<open>
  List segments and other abstract objects (\<open>src/sl/symseg.cc\<close>, the rest of \<open>src/sl/symseg.hh\<close>) and the prototypes
  they own (\<open>src/sl/prototype.cc\<close>).  Reading the pointer fields of a segment may create them, so that the queries
  thread the heap although the code declares it constant.  Loops without a bound are partial functions.
\<close>

section \<open>Values of the pointer fields\<close>

definition dropHandle :: "TFldId \<Rightarrow> symheap \<Rightarrow> symheap option" where
  "dropHandle fld sh = map_option (\<lambda>c. sh\<lparr>core := c\<rparr>) (handleLeave fld (core sh))"

definition valFromSegAddr :: "TValId \<Rightarrow> bool \<Rightarrow> symheap \<Rightarrow> (TValId \<times> symheap) option" where
  "valFromSegAddr addr backward sh = do {
     seg \<leftarrow> objByAddr addr (core sh);
     if OK_OBJ_OR_NULL = objKind seg sh then do { cl_break_if backward; Some (VAL_NULL, sh) }
     else do {
       ts \<leftarrow> targetSpec addr (core sh);
       let isLast = (TS_LAST = ts);
       (ptr, sh) \<leftarrow> (if backward = isLast then nextPtrFromSeg seg sh else prevPtrFromSeg seg sh);
       (val, sh) \<leftarrow> lift_core (valueOf ptr) sh;
       sh \<leftarrow> dropHandle ptr sh;
       Some (val, sh)
     }
   }"

definition nextValFromSegAddr :: "TValId \<Rightarrow> symheap \<Rightarrow> (TValId \<times> symheap) option" where
  "nextValFromSegAddr addr = valFromSegAddr addr False"

definition prevValFromSegAddr :: "TValId \<Rightarrow> symheap \<Rightarrow> (TValId \<times> symheap) option" where
  "prevValFromSegAddr addr = valFromSegAddr addr True"

section \<open>Looking through possibly empty objects\<close>

text \<open>The set of the values seen is \<open>None\<close> where the code passes a null pointer.\<close>

partial_function (option) lookThrough_loop :: "TOffset \<Rightarrow> TValId \<Rightarrow> TValId set option \<Rightarrow> symheap \<Rightarrow>
    (TValId \<times> TValId set option \<times> symheap) option" where
  "lookThrough_loop off val pSeen sh =
     (if \<not> 0 < val then Some (val, pSeen, sh)
      else if pSeen \<noteq> None \<and> val \<in> the pSeen then Some (val, pSeen, sh)
      else do {
        let pSeen = map_option (insert val) pSeen;
        seg \<leftarrow> objByAddr val (core sh);
        if \<not> isAbstractObject seg sh then Some (val, pSeen, sh)
        else do {
          len \<leftarrow> segMinLength seg sh;
          if len \<noteq> 0 then Some (val, pSeen, sh)
          else if OK_OBJ_OR_NULL = objKind seg sh then lookThrough_loop off VAL_NULL pSeen sh
          else do {
            bOff \<leftarrow> segBinding seg sh;
            let shiftBy = off - bo_head bOff;
            (valNext, sh) \<leftarrow> nextValFromSegAddr val sh;
            (val, sh) \<leftarrow> lift_core (valByOffset valNext shiftBy) sh;
            lookThrough_loop off val pSeen sh
          }
        }
      })"

declare lookThrough_loop.simps [code]

definition lookThrough :: "TValId \<Rightarrow> TValId set option \<Rightarrow> symheap \<Rightarrow> (TValId \<times> TValId set option \<times> symheap) option" where
  "lookThrough val pSeen sh = do {
     code \<leftarrow> valTarget val (core sh);
     if VT_RANGE = code then Some (VAL_INVALID, pSeen, sh)
     else do { off \<leftarrow> valOffset val (core sh); lookThrough_loop off val pSeen sh }
   }"

section \<open>Inequality of values\<close>

text \<open>The last part of \<open>segProveNeq\<close>: both values point to objects that are not empty.\<close>

definition segProveNeq_objs :: "TValId \<Rightarrow> TValId \<Rightarrow> symheap \<Rightarrow> bool option" where
  "segProveNeq_objs ref val sh = do {
     size2 \<leftarrow> valSizeOfTarget val (core sh);
     if lo size2 \<le> 0 then Some False
     else do {
       obj2 \<leftarrow> objByAddr val (core sh);
       len2 \<leftarrow> objMinLength obj2 sh;
       if len2 = 0 then Some False
       else if VAL_NULL = ref then Some True
       else do {
         size1 \<leftarrow> valSizeOfTarget ref (core sh);
         if lo size1 \<le> 0 then Some False
         else do {
           obj1 \<leftarrow> objByAddr ref (core sh);
           len1 \<leftarrow> objMinLength obj1 sh;
           if len1 = 0 then Some False
           else if OK_REGION = objKind obj1 sh then Some True
           else if obj2 \<noteq> obj1 then Some True
           else do { cl_break_if (len1 \<noteq> len2); Some (1 < len1) }
         }
       }
     }
   }"

definition segProveNeq :: "TValId \<Rightarrow> TValId \<Rightarrow> symheap \<Rightarrow> (bool \<times> symheap) option" where
  "segProveNeq ref val sh = do {
     neq \<leftarrow> proveNeq ref val sh;
     if neq then Some (True, sh)
     else do {
       (v1, seen1, sh) \<leftarrow> lookThrough ref (Some {}) sh;
       if VAL_INVALID = v1 then Some (False, sh)
       else do {
         (v2, seen2, sh) \<leftarrow> lookThrough val (Some {}) sh;
         if VAL_INVALID = v2 then Some (False, sh)
         else do {
           (ref, _, sh) \<leftarrow> lookThrough ref seen2 sh;
           (val, _, sh) \<leftarrow> lookThrough val seen1 sh;
           if ref = val then Some (False, sh)
           else do {
             neq \<leftarrow> proveNeq ref val sh;
             if neq then Some (True, sh)
             else do {
               (ref, val) \<leftarrow> moveKnownValueToLeft ref val sh;
               res \<leftarrow> segProveNeq_objs ref val sh;
               Some (res, sh)
             }
           }
         }
       }
     }
   }"

section \<open>Segments between two values\<close>

definition haveSeg :: "TValId \<Rightarrow> TValId \<Rightarrow> EObjKind \<Rightarrow> symheap \<Rightarrow> (bool \<times> symheap) option" where
  "haveSeg atAddr pointingTo kind sh = do {
     seg \<leftarrow> objByAddr atAddr (core sh);
     if kind \<noteq> objKind seg sh then Some (False, sh)
     else do {
       (valNext, sh) \<leftarrow> nextValFromSegAddr atAddr sh;
       Some (valNext = pointingTo, sh)
     }
   }"

definition haveDlSegAt :: "TValId \<Rightarrow> TValId \<Rightarrow> symheap \<Rightarrow> bool option" where
  "haveDlSegAt atAddr peerAddr sh = do {
     code1 \<leftarrow> valTarget atAddr (core sh);
     rng \<leftarrow> (if VT_RANGE = code1 then Some True else do { code2 \<leftarrow> valTarget peerAddr (core sh); Some (VT_RANGE = code2) });
     if rng then Some False
     else do {
       seg \<leftarrow> objByAddr atAddr (core sh);
       if OK_DLS \<noteq> objKind seg sh then Some False
       else do {
         peer \<leftarrow> objByAddr peerAddr (core sh);
         if OK_DLS \<noteq> objKind peer sh then Some False
         else do {
           off1 \<leftarrow> valOffset atAddr (core sh);
           off2 \<leftarrow> valOffset peerAddr (core sh);
           if off1 \<noteq> off2 then Some False
           else if peer \<noteq> seg then Some False
           else do {
             ts1 \<leftarrow> targetSpec atAddr (core sh);
             ts2 \<leftarrow> targetSpec peerAddr (core sh);
             cl_break_if (TS_ALL = ts1 \<or> TS_ALL = ts2);
             cl_break_if (ts1 = ts2);
             Some ((TS_FIRST = ts1 \<and> TS_LAST = ts2) \<or> (TS_LAST = ts1 \<and> TS_FIRST = ts2))
           }
         }
       }
     }
   }"

text \<open>The object found, \<open>None\<close> for \<open>false\<close>.\<close>

definition haveSegBidir :: "EObjKind \<Rightarrow> TValId \<Rightarrow> TValId \<Rightarrow> symheap \<Rightarrow> (TObjId option \<times> symheap) option" where
  "haveSegBidir kind v1 v2 sh = do {
     (found, sh) \<leftarrow> haveSeg v1 v2 kind sh;
     if found then do { seg \<leftarrow> objByAddr v1 (core sh); Some (Some seg, sh) }
     else do {
       (found, sh) \<leftarrow> haveSeg v2 v1 kind sh;
       if found then do { seg \<leftarrow> objByAddr v2 (core sh); Some (Some seg, sh) }
       else Some (None, sh)
     }
   }"

text \<open>The first of several kinds that matches.\<close>

fun haveSegOfKinds :: "EObjKind list \<Rightarrow> TValId \<Rightarrow> TValId \<Rightarrow> symheap \<Rightarrow> (TObjId option \<times> symheap) option" where
  "haveSegOfKinds [] v1 v2 sh = Some (None, sh)"
| "haveSegOfKinds (kind # kinds) v1 v2 sh = do {
     (seg, sh) \<leftarrow> haveSegBidir kind v1 v2 sh;
     if seg \<noteq> None then Some (seg, sh) else haveSegOfKinds kinds v1 v2 sh
   }"

section \<open>Fields to be ignored\<close>

text \<open>
  The set holds one handle of each of its fields; a handle of a field that is already there is dropped.  The fields
  are in the order of insertion.
\<close>

definition ignoreField :: "TObjId \<Rightarrow> TOffset \<Rightarrow> TFldId list \<times> symheap \<Rightarrow> (TFldId list \<times> symheap) option" where
  "ignoreField obj off = (\<lambda>(l, sh). do {
     (fld, sh) \<leftarrow> lift_core (ptrHandle_new obj off) sh;
     if fld \<in> set l then do { sh \<leftarrow> dropHandle fld sh; Some (l, sh) }
     else Some (l @ [fld], sh)
   })"

definition buildIgnoreList :: "TObjId \<Rightarrow> symheap \<Rightarrow> (TFldId list \<times> symheap) option" where
  "buildIgnoreList obj sh =
     (let kind = objKind obj sh
      in if kind \<in> {OK_REGION, OK_OBJ_OR_NULL} then Some ([], sh)
         else do {
           (l, sh) \<leftarrow> (if kind \<in> {OK_DLS, OK_SEE_THROUGH_2N}
                       then do { b \<leftarrow> segBinding obj sh; ignoreField obj (bo_prev b) ([], sh) }
                       else Some ([], sh));
           b \<leftarrow> segBinding obj sh;
           ignoreField obj (bo_next b) (l, sh)
         })"

text \<open>The variant with a given binding leaves out invalid handles.\<close>

definition buildIgnoreListBy :: "TObjId \<Rightarrow> binding_off \<Rightarrow> symheap \<Rightarrow> (TFldId list \<times> symheap) option" where
  "buildIgnoreListBy obj bf sh =
     ofold (\<lambda>off (l, sh). do {
       (fld, sh) \<leftarrow> lift_core (ptrHandle_new obj off) sh;
       if \<not> 0 < fld then Some (l, sh)
       else if fld \<in> set l then do { sh \<leftarrow> dropHandle fld sh; Some (l, sh) }
       else Some (l @ [fld], sh)
     }) [bo_next bf, bo_prev bf] ([], sh)"

definition dropAll :: "TFldId list \<Rightarrow> symheap \<Rightarrow> symheap option" where
  "dropAll flds sh = map_option (\<lambda>c. sh\<lparr>core := c\<rparr>) (dropHandles flds (core sh))"

section \<open>Traversal of live fields\<close>

text \<open>The visitor returns whether to continue, its state and the heap.\<close>

definition traverseLiveFields :: "(TFldId \<Rightarrow> 's \<Rightarrow> symheap \<Rightarrow> (bool \<times> 's \<times> symheap) option) \<Rightarrow> TObjId \<Rightarrow> 's \<Rightarrow> symheap \<Rightarrow>
    (bool \<times> 's \<times> symheap) option" where
  "traverseLiveFields visitor obj s sh = do {
     cl_break_if (OBJ_INVALID = obj);
     (fields, sh) \<leftarrow> lift_core (gatherLiveFields obj) sh;
     (complete, s, sh) \<leftarrow> ofold (\<lambda>fld (continue, s, sh). if \<not> continue then Some (False, s, sh) else visitor fld s sh)
        fields (True, s, sh);
     sh \<leftarrow> dropAll fields sh;
     Some (complete, s, sh)
   }"

section \<open>Prototypes\<close>

definition protoFinder :: "TFldId \<Rightarrow> TObjId set \<Rightarrow> symheap \<Rightarrow> (bool \<times> TObjId set \<times> symheap) option" where
  "protoFinder sub protos sh = do {
     (val, sh) \<leftarrow> lift_core (valueOf sub) sh;
     if val \<le> 0 then Some (True, protos, sh)
     else do {
       obj \<leftarrow> objByAddr val (core sh);
       level \<leftarrow> objProtoLevel obj (core sh);
       Some (True, if level \<noteq> 0 then insert obj protos else protos, sh)
     }
   }"

partial_function (option) protoCollector_loop :: "TObjId work_list \<Rightarrow> TObjId set \<Rightarrow> symheap \<Rightarrow>
    (TObjId work_list \<times> TObjId set \<times> symheap) option" where
  "protoCollector_loop wl protoList sh =
     (case wl_next wl of
        None \<Rightarrow> Some (wl, protoList, sh)
      | Some (proto, wl) \<Rightarrow> do {
          (_, protos, sh) \<leftarrow> traverseLiveFields protoFinder proto {} sh;
          protoCollector_loop (fold (\<lambda>p wl. snd (wl_schedule SchedStack p wl)) (sorted_list_of_set protos) wl)
            (insert proto protoList) sh
        })"

declare protoCollector_loop.simps [code]

definition protoCollector :: "TFldId list \<Rightarrow> TFldId \<Rightarrow> TObjId work_list \<times> TObjId set \<Rightarrow> symheap \<Rightarrow>
    (bool \<times> (TObjId work_list \<times> TObjId set) \<times> symheap) option" where
  "protoCollector ignoreList fld = (\<lambda>(wl, protoList) sh.
     if fld \<in> set ignoreList then Some (True, (wl, protoList), sh)
     else do {
       (val, sh) \<leftarrow> lift_core (valueOf fld) sh;
       if val \<le> 0 then Some (True, (wl, protoList), sh)
       else do {
         code \<leftarrow> valTarget val (core sh);
         if \<not> isAnyDataArea code then Some (True, (wl, protoList), sh)
         else do {
           proto \<leftarrow> objByAddr val (core sh);
           level \<leftarrow> objProtoLevel proto (core sh);
           if level = 0 then Some (True, (wl, protoList), sh)
           else do {
             (wl, protoList, sh) \<leftarrow> protoCollector_loop (snd (wl_schedule SchedStack proto wl)) protoList sh;
             Some (True, (wl, protoList), sh)
           }
         }
       }
     })"

definition collectPrototypesOf :: "TObjId set \<Rightarrow> TObjId \<Rightarrow> symheap \<Rightarrow> (bool \<times> TObjId set \<times> symheap) option" where
  "collectPrototypesOf dst obj sh =
     (if OK_REGION = objKind obj sh then Some (False, dst, sh)
      else do {
        (ignoreList, sh) \<leftarrow> buildIgnoreList obj sh;
        (complete, (_, dst), sh) \<leftarrow> traverseLiveFields (protoCollector ignoreList) obj (wl_new, dst) sh;
        sh \<leftarrow> dropAll ignoreList sh;
        Some (complete, dst, sh)
      })"

definition objIncrementProtoLevel :: "TObjId \<Rightarrow> symheap \<Rightarrow> symheap option" where
  "objIncrementProtoLevel obj sh = do {
     level \<leftarrow> objProtoLevel obj (core sh);
     c \<leftarrow> objSetProtoLevel obj (level + 1) (core sh);
     Some (sh\<lparr>core := c\<rparr>)
   }"

definition objDecrementProtoLevel :: "TObjId \<Rightarrow> symheap \<Rightarrow> symheap option" where
  "objDecrementProtoLevel obj sh = do {
     level \<leftarrow> objProtoLevel obj (core sh);
     c \<leftarrow> objSetProtoLevel obj (level - 1) (core sh);
     Some (sh\<lparr>core := c\<rparr>)
   }"

definition decrementProtoLevel :: "TObjId \<Rightarrow> symheap \<Rightarrow> symheap option" where
  "decrementProtoLevel obj sh = do {
     (_, protoList, sh) \<leftarrow> collectPrototypesOf {} obj sh;
     ofold objDecrementProtoLevel (sorted_list_of_set protoList) sh
   }"

text \<open>A check of the debug build: no concrete object points to an object of a higher level.\<close>

definition protoCheckObject :: "TObjId \<Rightarrow> symheap \<Rightarrow> (bool \<times> symheap) option" where
  "protoCheckObject obj sh =
     (if OK_REGION \<noteq> objKind obj sh then Some (True, sh)
      else do {
        rootLevel \<leftarrow> objProtoLevel obj (core sh);
        (ptrs, sh) \<leftarrow> lift_core (gatherLiveFields obj) sh;
        (ok, sh) \<leftarrow> ofold (\<lambda>fld (ok, sh).
            if \<not> ok then Some (ok, sh)
            else do {
              (val, sh) \<leftarrow> lift_core (valueOf fld) sh;
              sub \<leftarrow> objByAddr val (core sh);
              if OBJ_INVALID = sub then Some (True, sh)
              else do { level \<leftarrow> objProtoLevel sub (core sh); Some (level \<le> rootLevel, sh) }
            }) ptrs (True, sh);
        sh \<leftarrow> dropAll ptrs sh;
        Some (ok, sh)
      })"

definition protoCheckConsistency :: "symheap \<Rightarrow> (bool \<times> symheap) option" where
  "protoCheckConsistency sh = do {
     allObjs \<leftarrow> gatherObjects (\<lambda>_. True) (core sh);
     ofold (\<lambda>obj (ok, sh). if \<not> ok then Some (ok, sh) else protoCheckObject obj sh) allObjs (True, sh)
   }"

section \<open>Applying inequality\<close>

definition segApplyNeq :: "TValId \<Rightarrow> TValId \<Rightarrow> symheap \<Rightarrow> (bool \<times> symheap) option" where
  "segApplyNeq v1 v2 sh = do {
     obj1 \<leftarrow> objByAddr v1 (core sh);
     obj2 \<leftarrow> objByAddr v2 (core sh);
     if \<not> isAbstractObject obj1 sh \<and> \<not> isAbstractObject obj2 sh then Some (False, sh)
     else do {
       atHead2 \<leftarrow> (if VAL_NULL = v1 then do { off \<leftarrow> valOffset v2 (core sh); head \<leftarrow> headOffset obj2 sh; Some (off = head) } else Some False);
       (v1, sh) \<leftarrow> (if atHead2 then nextValFromSegAddr v2 sh else Some (v1, sh));
       atHead1 \<leftarrow> (if VAL_NULL = v2 then do { off \<leftarrow> valOffset v1 (core sh); head \<leftarrow> headOffset obj1 sh; Some (off = head) } else Some False);
       (v2, sh) \<leftarrow> (if atHead1 then nextValFromSegAddr v1 sh else Some (v2, sh));
       (seg, sh) \<leftarrow> haveSegOfKinds [OK_OBJ_OR_NULL, OK_SEE_THROUGH, OK_SEE_THROUGH_2N] v1 v2 sh;
       case seg of
         Some seg \<Rightarrow> do {
           sh \<leftarrow> decrementProtoLevel seg sh;
           sh \<leftarrow> objSetConcrete seg sh;
           Some (True, sh)
         }
       | None \<Rightarrow> do {
           (seg, sh) \<leftarrow> haveSegOfKinds [OK_SLS, OK_DLS] v1 v2 sh;
           case seg of
             Some seg \<Rightarrow> do { sh \<leftarrow> segIncreaseMinLength seg 1 sh; Some (True, sh) }
           | None \<Rightarrow> do {
               dls \<leftarrow> haveDlSegAt v1 v2 sh;
               if dls then do {
                 seg \<leftarrow> objByAddr v1 (core sh);
                 sh \<leftarrow> segIncreaseMinLength seg 2 sh;
                 Some (True, sh)
               }
               else Some (False, sh)
             }
         }
     }
   }"

section \<open>Consistency of segments\<close>

definition segHasTarget :: "(symheap \<Rightarrow> (TValId \<times> symheap) option) \<Rightarrow> symheap \<Rightarrow> (bool \<times> symheap) option" where
  "segHasTarget f sh = do { (val, sh) \<leftarrow> f sh; code \<leftarrow> valTarget val (core sh); Some (VT_OBJECT = code, sh) }"

definition segCheckObject :: "TObjId \<Rightarrow> symheap \<Rightarrow> (bool \<times> symheap) option" where
  "segCheckObject seg sh =
     (let kind = objKind seg sh;
          hasPrev = kind \<in> {OK_DLS, OK_SEE_THROUGH_2N};
          hasNext = kind \<in> {OK_DLS, OK_SEE_THROUGH_2N, OK_SLS, OK_SEE_THROUGH}
      in do {
        (ok, sh) \<leftarrow> (if hasNext then segHasTarget (nextValFromSeg seg) sh else Some (True, sh));
        if \<not> ok then Some (False, sh)
        else if hasPrev then segHasTarget (\<lambda>sh. do {
            (ptr, sh) \<leftarrow> prevPtrFromSeg seg sh;
            (val, sh) \<leftarrow> lift_core (valueOf ptr) sh;
            sh \<leftarrow> dropHandle ptr sh;
            Some (val, sh)
          }) sh
        else Some (True, sh)
      })"

definition segCheckConsistency :: "symheap \<Rightarrow> (bool \<times> symheap) option" where
  "segCheckConsistency sh = do {
     objs \<leftarrow> gatherObjects isOnHeap (core sh);
     ofold (\<lambda>seg (ok, sh). if \<not> ok then Some (ok, sh) else segCheckObject seg sh) objs (True, sh)
   }"

end
