(* ===== verification/SymRuns.thy ===== *)
theory SymRuns
  imports SymSeg SymGc HeapWrite
begin

text \<open>
  Runs of a symbolic heap with abstract objects.  The relation \<open>symheap_step\<close> is one call of a public operation of
  \<open>SymHeap\<close>; the operations of the garbage collector, of the segments and of the prototypes are proved to be runs of
  it, so that an invariant of the steps holds for all of them.
\<close>

section \<open>Operations of the core\<close>

lemma heap_op_enter: "handleEnter fld h = Some h' \<Longrightarrow> heap_op\<^sup>*\<^sup>* h h'"
  by (auto simp: handleEnter_def split: if_splits intro: heap_op.intros)

lemma heap_op_leave: "handleLeave fld h = Some h' \<Longrightarrow> heap_op\<^sup>*\<^sup>* h h'"
  by (auto simp: handleLeave_def split: if_splits intro: heap_op.intros)

lemma heap_op_ofold:
  "ofold f xs h = Some h' \<Longrightarrow> (\<And>x u v. f x u = Some v \<Longrightarrow> heap_op\<^sup>*\<^sup>* u v) \<Longrightarrow> heap_op\<^sup>*\<^sup>* h h'"
proof (induction xs arbitrary: h)
  case (Cons x xs)
  then obtain h1 where "f x h = Some h1" "ofold f xs h1 = Some h'" by (auto simp: bind_eq_Some_conv)
  with Cons.IH [of h1] Cons.prems(2) show ?case by (meson rtranclp_trans)
qed simp

lemma heap_op_dropHandles: "dropHandles flds h = Some h' \<Longrightarrow> heap_op\<^sup>*\<^sup>* h h'"
  unfolding dropHandles_def by (erule heap_op_ofold) (rule heap_op_leave)

lemma heap_op_ptrHandle_new: "ptrHandle_new obj off h = Some (fld, h') \<Longrightarrow> heap_op\<^sup>*\<^sup>* h h'"
  unfolding ptrHandle_new_def
  by (elim heap_elims; hypsubst?)
    (meson converse_rtranclp_into_rtranclp heap_op.intros(15) heap_op_enter rtranclp_trans)

lemma heap_op_valueOf: "valueOf fld h = Some (val, h') \<Longrightarrow> heap_op\<^sup>*\<^sup>* h h'"
  by (auto intro: heap_op.intros)

lemma heap_op_valByOffset: "valByOffset v off h = Some (val, h') \<Longrightarrow> heap_op\<^sup>*\<^sup>* h h'"
  by (auto intro: heap_op.intros)

lemma heap_op_gatherLiveFields: "gatherLiveFields obj h = Some (flds, h') \<Longrightarrow> heap_op\<^sup>*\<^sup>* h h'"
  by (auto intro: heap_op.intros)

lemma heap_op_pointedBy: "pointedBy obj h = Some (flds, h') \<Longrightarrow> heap_op\<^sup>*\<^sup>* h h'"
  by (auto intro: heap_op.intros)

lemma heap_op_objSetProtoLevel: "objSetProtoLevel obj n h = Some h' \<Longrightarrow> heap_op\<^sup>*\<^sup>* h h'"
  by (auto intro: heap_op.intros)

section \<open>Runs\<close>

inductive symheap_step :: "symheap \<Rightarrow> symheap \<Rightarrow> bool" where
  inherited: "heap_op (core sh) c \<Longrightarrow> symheap_step sh (sh\<lparr>core := c\<rparr>)"
| other: "entCnt (core sh) \<le> n \<Longrightarrow> symheap_step sh (sh\<lparr>core := (core sh)\<lparr>entCnt := n\<rparr>\<rparr>)"
| clone: "objClone obj sh = Some (dup, sh') \<Longrightarrow> symheap_step sh sh'"
| invalidate: "objInvalidate obj sh = Some sh' \<Longrightarrow> symheap_step sh sh'"
| abstract: "objSetAbstract obj kind off sh = Some sh' \<Longrightarrow> symheap_step sh sh'"
| concrete: "objSetConcrete obj sh = Some sh' \<Longrightarrow> symheap_step sh sh'"
| minLength: "0 \<le> len \<Longrightarrow> segSetMinLength seg len sh = Some sh' \<Longrightarrow> symheap_step sh sh'"

lemma core_step: "symheap_step sh sh' \<Longrightarrow> heap_step\<^sup>*\<^sup>* (core sh) (core sh')"
  by (induction rule: symheap_step.induct, auto simp: objClone_def objInvalidate_def objSetAbstract_def objSetConcrete_def segSetMinLength_def assignAbs_def
      bind_eq_Some_conv Let_def split: option.splits if_splits EObjKind.splits
      intro: heap_step.intros)
    (meson heap_step.clone heap_step.invalidate r_into_rtranclp)+

lemma core_run: "symheap_step\<^sup>*\<^sup>* sh sh' \<Longrightarrow> heap_step\<^sup>*\<^sup>* (core sh) (core sh')"
  by (induction rule: rtranclp_induct) (auto intro: rtranclp_trans core_step)

text \<open>
  The interface of the clients: what the operations of the core keep, the queries and the updates composed of them
  keep; what all steps keep, every operation keeps.
\<close>

locale core_ops =
  fixes P :: "symheap \<Rightarrow> bool"
  assumes P_op: "heap_op (core sh) c \<Longrightarrow> P sh \<Longrightarrow> P (sh\<lparr>core := c\<rparr>)"
begin

lemma P_core: "heap_op\<^sup>*\<^sup>* (core sh) c \<Longrightarrow> P sh \<Longrightarrow> P (sh\<lparr>core := c\<rparr>)"
proof (induction rule: rtranclp_induct)
  case (step c1 c2)
  then show ?case using P_op [of "sh\<lparr>core := c1\<rparr>" c2] by simp
qed simp

lemma P_lift:
  "lift_core f sh = Some (x, sh') \<Longrightarrow> (\<And>y h'. f (core sh) = Some (y, h') \<Longrightarrow> heap_op\<^sup>*\<^sup>* (core sh) h') \<Longrightarrow> P sh \<Longrightarrow> P sh'"
  by (auto simp: lift_core_def intro: P_core)

lemma P_lifts:
  "lift_core (valueOf fld) sh = Some (x, sh') \<Longrightarrow> P sh \<Longrightarrow> P sh'"
  "lift_core (ptrHandle_new obj off) sh = Some (x, sh') \<Longrightarrow> P sh \<Longrightarrow> P sh'"
  "lift_core (valByOffset val off) sh = Some (x, sh') \<Longrightarrow> P sh \<Longrightarrow> P sh'"
  "lift_core (gatherLiveFields obj) sh = Some (flds, sh') \<Longrightarrow> P sh \<Longrightarrow> P sh'"
  by (erule P_lift; blast intro: heap_op_valueOf heap_op_ptrHandle_new heap_op_valByOffset heap_op_gatherLiveFields)+

lemma P_drops: "dropHandle fld sh = Some sh' \<Longrightarrow> P sh \<Longrightarrow> P sh'" "dropAll flds sh = Some sh' \<Longrightarrow> P sh \<Longrightarrow> P sh'"
  by (auto simp: dropHandle_def dropAll_def intro: P_core heap_op_leave heap_op_dropHandles)

lemma P_ofold:
  assumes "ofold f xs s = Some s'" "P (g s)" "\<And>x u v. f x u = Some v \<Longrightarrow> P (g u) \<Longrightarrow> P (g v)"
  shows "P (g s')"
  using ofold_invariant [where P = "\<lambda>s. P (g s)", OF assms(1,2)] assms(3) by blast

lemmas P_prims = P_lifts P_drops

lemma P_segPtrs: "nextPtrFromSeg seg sh = Some (x, sh') \<Longrightarrow> P sh \<Longrightarrow> P sh'" "prevPtrFromSeg seg sh = Some (x, sh') \<Longrightarrow> P sh \<Longrightarrow> P sh'"
  by (auto simp: nextPtrFromSeg_def prevPtrFromSeg_def bind_eq_Some_conv elim: P_prims)

lemma P_nextValFromSeg: "nextValFromSeg seg sh = Some (x, sh') \<Longrightarrow> P sh \<Longrightarrow> P sh'"
  unfolding nextValFromSeg_def
  by (elim heap_elims; hypsubst?; (assumption | rule P_core, erule heap_op_leave | elim P_prims P_segPtrs)+)

lemma P_valFromSegAddr: "valFromSegAddr addr b sh = Some (x, sh') \<Longrightarrow> P sh \<Longrightarrow> P sh'"
  unfolding valFromSegAddr_def Let_def
  by (elim heap_elims; hypsubst?; (assumption | elim P_prims P_segPtrs)+)

lemma P_nextValFromSegAddr: "nextValFromSegAddr addr sh = Some (x, sh') \<Longrightarrow> P sh \<Longrightarrow> P sh'"
  unfolding nextValFromSegAddr_def by (rule P_valFromSegAddr)

lemma P_lookThrough_loop:
  assumes "lookThrough_loop off val pSeen sh = Some y"
  shows "P sh \<longrightarrow> P (snd (snd y))"
proof (rule lookThrough_loop.raw_induct [OF _ assms])
  fix loop off val pSeen sh y
  assume IH: "\<And>off val pSeen sh y. loop off val pSeen sh = Some y \<Longrightarrow> P sh \<longrightarrow> P (snd (snd y))"
    and step: "(if \<not> 0 < val then Some (val, pSeen, sh)
      else if pSeen \<noteq> None \<and> val \<in> the pSeen then Some (val, pSeen, sh)
      else do {
        let pSeen = map_option (insert val) pSeen;
        seg \<leftarrow> objByAddr val (core sh);
        if \<not> isAbstractObject seg sh then Some (val, pSeen, sh)
        else do {
          len \<leftarrow> segMinLength seg sh;
          if len \<noteq> 0 then Some (val, pSeen, sh)
          else if OK_OBJ_OR_NULL = objKind seg sh then loop off VAL_NULL pSeen sh
          else do {
            bOff \<leftarrow> segBinding seg sh;
            let shiftBy = off - bo_head bOff;
            (valNext, sh) \<leftarrow> nextValFromSegAddr val sh;
            (val, sh) \<leftarrow> lift_core (valByOffset valNext shiftBy) sh;
            loop off val pSeen sh
          }
        }
      }) = Some y"
  from step consider "snd (snd y) = sh" | v p where "loop off v p sh = Some y"
    | v p sh1 sh2 x1 x2 o2 where "nextValFromSegAddr val sh = Some (x1, sh1)" "lift_core (valByOffset x1 o2) sh1 = Some (x2, sh2)"
      "loop off v p sh2 = Some y"
    unfolding Let_def by (elim heap_elims; hypsubst?) auto
  then show "P sh \<longrightarrow> P (snd (snd y))"
  proof cases
    case 2
    from IH [OF 2] show ?thesis .
  next
    case 3
    from IH [OF 3(3)] P_nextValFromSegAddr [OF 3(1)] P_lifts(3) [OF 3(2)] show ?thesis by blast
  qed simp
qed

lemma P_lookThrough: "lookThrough val pSeen sh = Some (v, pSeen', sh') \<Longrightarrow> P sh \<Longrightarrow> P sh'"
  using P_lookThrough_loop [of _ val pSeen sh "(v, pSeen', sh')"]
  by (auto simp: lookThrough_def bind_eq_Some_conv split: if_splits)

lemma P_segProveNeq: "segProveNeq ref val sh = Some (b, sh') \<Longrightarrow> P sh \<Longrightarrow> P sh'"
  unfolding segProveNeq_def
  by (elim heap_elims; hypsubst?; (assumption | elim P_lookThrough)+)

lemma P_haveSeg: "haveSeg a p k sh = Some (b, sh') \<Longrightarrow> P sh \<Longrightarrow> P sh'"
  unfolding haveSeg_def by (elim heap_elims; hypsubst?; (assumption | elim P_nextValFromSegAddr)+)

lemma P_haveSegBidir: "haveSegBidir k v1 v2 sh = Some (b, sh') \<Longrightarrow> P sh \<Longrightarrow> P sh'"
  unfolding haveSegBidir_def by (elim heap_elims; hypsubst?; (assumption | elim P_haveSeg)+)

lemma P_haveSegOfKinds: "haveSegOfKinds ks v1 v2 sh = Some (b, sh') \<Longrightarrow> P sh \<Longrightarrow> P sh'"
proof (induction ks v1 v2 sh rule: haveSegOfKinds.induct)
  case (2 k ks v1 v2 sh)
  then obtain seg sh1 where h: "haveSegBidir k v1 v2 sh = Some (seg, sh1)"
    "(if seg \<noteq> None then Some (seg, sh1) else haveSegOfKinds ks v1 v2 sh1) = Some (b, sh')"
    by (auto simp: bind_eq_Some_conv)
  with 2 P_haveSegBidir [OF h(1)] show ?case by (cases seg) auto
qed simp

lemma P_ignoreField: "ignoreField obj off (l, sh) = Some (l', sh') \<Longrightarrow> P sh \<Longrightarrow> P sh'"
  unfolding ignoreField_def prod.case
  by (elim heap_elims; hypsubst?; (assumption | elim P_prims)+)

lemma P_buildIgnoreList: "buildIgnoreList obj sh = Some (l, sh') \<Longrightarrow> P sh \<Longrightarrow> P sh'"
  by (auto simp: buildIgnoreList_def Let_def bind_eq_Some_conv split: if_splits elim: P_ignoreField)

lemma P_traverse:
  assumes "traverseLiveFields visitor obj s sh = Some (b, s', sh')" "P sh"
    and v: "\<And>fld s sh b s' sh'. visitor fld s sh = Some (b, s', sh') \<Longrightarrow> P sh \<Longrightarrow> P sh'"
  shows "P sh'"
proof -
  from assms(1) obtain flds sh1 sh2 where g: "lift_core (gatherLiveFields obj) sh = Some (flds, sh1)"
    and l: "ofold (\<lambda>fld (continue, s, sh). if \<not> continue then Some (False, s, sh) else visitor fld s sh) flds (True, s, sh1) = Some (b, s', sh2)"
    and d: "dropAll flds sh2 = Some sh'"
    unfolding traverseLiveFields_def by (elim heap_elims; hypsubst?) blast
  have "P (snd (snd (b, s', sh2)))"
    by (rule P_ofold [OF l, where g = "\<lambda>x. snd (snd x)"])
      (use P_lifts(4) [OF g assms(2)] v in \<open>auto split: if_splits\<close>)
  then show ?thesis using P_drops(2) [OF d] by simp
qed

lemma P_protoFinder: "protoFinder fld s sh = Some (b, s', sh') \<Longrightarrow> P sh \<Longrightarrow> P sh'"
  unfolding protoFinder_def by (elim heap_elims Pair_inject; hypsubst?; (assumption | elim P_prims)+)

lemma P_protoCollector_loop:
  assumes "protoCollector_loop wl ps sh = Some y"
  shows "P sh \<longrightarrow> P (snd (snd y))"
proof (rule protoCollector_loop.raw_induct [OF _ assms])
  fix loop wl ps sh y
  assume IH: "\<And>wl ps sh y. loop wl ps sh = Some y \<Longrightarrow> P sh \<longrightarrow> P (snd (snd y))"
    and step: "(case wl_next wl of
        None \<Rightarrow> Some (wl, ps, sh)
      | Some (proto, wl) \<Rightarrow> do {
          (_, protos, sh) \<leftarrow> traverseLiveFields protoFinder proto {} sh;
          loop (fold (\<lambda>p wl. snd (wl_schedule SchedStack p wl)) (sorted_list_of_set protos) wl) (insert proto ps) sh
        }) = Some y"
  from step consider "snd (snd y) = sh"
    | p b q sh1 wl1 ps1 where "traverseLiveFields protoFinder p {} sh = Some (b, q, sh1)" "loop wl1 ps1 sh1 = Some y"
    by (elim heap_elims; hypsubst?) auto
  then show "P sh \<longrightarrow> P (snd (snd y))"
  proof cases
    case 2
    from IH [OF 2(2)] P_traverse [OF 2(1)] P_protoFinder show ?thesis by blast
  qed simp
qed

lemma P_protoCollector:
  assumes "protoCollector ig fld s sh = Some (b, s', sh')" "P sh"
  shows "P sh'"
proof -
  obtain wl ps where s: "s = (wl, ps)" by (cases s)
  have loop: "P sh2" if "protoCollector_loop w p sh1 = Some (w', p', sh2)" "P sh1" for w p sh1 w' p' sh2
    using P_protoCollector_loop [OF that(1)] that(2) by simp
  show ?thesis
    using assms unfolding s protoCollector_def prod.case
    by (auto simp: bind_eq_Some_conv split: if_splits intro: P_lifts(1) loop)
qed

lemma P_collectPrototypesOf:
  assumes "collectPrototypesOf dst obj sh = Some (b, dst', sh')" "P sh"
  shows "P sh'"
proof (cases "OK_REGION = objKind obj sh")
  case False
  with assms(1) obtain ig sh1 w sh2 where "buildIgnoreList obj sh = Some (ig, sh1)"
    and t: "traverseLiveFields (protoCollector ig) obj (wl_new, dst) sh1 = Some (b, (w, dst'), sh2)" and d: "dropAll ig sh2 = Some sh'"
    unfolding collectPrototypesOf_def by (auto simp: bind_eq_Some_conv)
  then have "P sh1" using assms(2) P_buildIgnoreList by blast
  then have "P sh2" by (rule P_traverse [OF t]) (rule P_protoCollector)
  then show ?thesis by (rule P_drops(2) [OF d])
qed (use assms in \<open>auto simp: collectPrototypesOf_def\<close>)

lemma P_objDecrementProtoLevel: "objDecrementProtoLevel obj sh = Some sh' \<Longrightarrow> P sh \<Longrightarrow> P sh'"
  unfolding objDecrementProtoLevel_def
  by (elim heap_elims; hypsubst?) (rule P_core, erule heap_op_objSetProtoLevel)

lemma P_decrementProtoLevel: "decrementProtoLevel obj sh = Some sh' \<Longrightarrow> P sh \<Longrightarrow> P sh'"
  unfolding decrementProtoLevel_def
  by (elim heap_elims; hypsubst?; erule P_ofold [where g = "\<lambda>x. x"]) (erule (1) P_collectPrototypesOf P_objDecrementProtoLevel)+

lemma P_ifNext: "(if c then nextValFromSegAddr v sh else Some (v', sh)) = Some (x, sh') \<Longrightarrow> P sh \<Longrightarrow> P sh'"
  by (auto split: if_splits elim: P_nextValFromSegAddr)

end

locale symheap_ops =
  fixes P :: "symheap \<Rightarrow> bool"
  assumes P_step: "symheap_step sh sh' \<Longrightarrow> P sh \<Longrightarrow> P sh'"

sublocale symheap_ops \<subseteq> core_ops P
  by unfold_locales (rule P_step [OF symheap_step.inherited])

context symheap_ops begin

lemma P_segIncreaseMinLength: "segIncreaseMinLength seg len sh = Some sh' \<Longrightarrow> 0 \<le> len \<Longrightarrow> P sh \<Longrightarrow> P sh'"
  by (auto simp: segIncreaseMinLength_def bind_eq_Some_conv split: if_splits intro: P_step [OF symheap_step.minLength])

lemma P_objSetConcrete: "objSetConcrete seg sh = Some sh' \<Longrightarrow> P sh \<Longrightarrow> P sh'"
  by (rule P_step [OF symheap_step.concrete])

lemma P_segApplyNeq:
  assumes "segApplyNeq v1 v2 sh = Some (b, sh')" "P sh"
  shows "P sh'"
proof -
  consider "sh' = sh"
    | c1 c2 u1 u2 sh1 sh2 sh3 seg where
      "(if c1 then nextValFromSegAddr v2 sh else Some (v1, sh)) = Some (u1, sh1)"
      "(if c2 then nextValFromSegAddr u1 sh1 else Some (v2, sh1)) = Some (u2, sh2)"
      "haveSegOfKinds [OK_OBJ_OR_NULL, OK_SEE_THROUGH, OK_SEE_THROUGH_2N] u1 u2 sh2 = Some (seg, sh3)"
      "(case seg of
         Some seg \<Rightarrow> do {
           sh \<leftarrow> decrementProtoLevel seg sh3;
           sh \<leftarrow> objSetConcrete seg sh;
           Some (True, sh)
         }
       | None \<Rightarrow> do {
           (seg, sh) \<leftarrow> haveSegOfKinds [OK_SLS, OK_DLS] u1 u2 sh3;
           case seg of
             Some seg \<Rightarrow> do { sh \<leftarrow> segIncreaseMinLength seg 1 sh; Some (True, sh) }
           | None \<Rightarrow> do {
               dls \<leftarrow> haveDlSegAt u1 u2 sh;
               if dls then do {
                 seg \<leftarrow> objByAddr u1 (core sh);
                 sh \<leftarrow> segIncreaseMinLength seg 2 sh;
                 Some (True, sh)
               }
               else Some (False, sh)
             }
         }) = Some (b, sh')"
    using assms(1) unfolding segApplyNeq_def
    by (elim bind_SomeE, split if_split_asm) (blast, elim bind_SomeE prod_SomeE, hypsubst, blast)
  then show ?thesis
  proof cases
    case 2
    have p: "P sh3" using 2(1-3) assms(2) by (meson P_ifNext P_haveSegOfKinds)
    have inc: "P s2" if "segIncreaseMinLength g 1 s1 = Some s2 \<or> segIncreaseMinLength g 2 s1 = Some s2" "P s1" for g s1 s2
      using that P_segIncreaseMinLength [of g 1 s1 s2] P_segIncreaseMinLength [of g 2 s1 s2] by auto
    show ?thesis
      using 2(4) p
      by (auto simp: bind_eq_Some_conv simp del: haveSegOfKinds.simps split: option.splits if_splits
          intro: P_objSetConcrete P_decrementProtoLevel P_haveSegOfKinds inc)
  qed (use assms(2) in simp)
qed

text \<open>The garbage collector.\<close>

lemma P_isJunk_loop:
  assumes "isJunk_loop wl h = Some y"
  shows "heap_op\<^sup>*\<^sup>* h (snd y)"
proof (rule isJunk_loop.raw_induct [OF _ assms])
  fix loop wl h y
  assume IH: "\<And>wl h y. loop wl h = Some y \<Longrightarrow> heap_op\<^sup>*\<^sup>* h (snd y)"
    and step: "(case wl_next wl of
        None \<Rightarrow> Some (True, h)
      | Some (obj, wl) \<Rightarrow> do {
          valid \<leftarrow> isValid obj h;
          cl_break_if (\<not> valid);
          code \<leftarrow> objStorClass obj h;
          anon \<leftarrow> (if isOnHeap code then Some None else isAnonStackObj obj h);
          if \<not> isOnHeap code \<and> anon = None then Some (False, h)
          else do {
            (refs, h) \<leftarrow> pointedBy obj h;
            wl \<leftarrow> scheduleReferrers refs h wl;
            h \<leftarrow> dropHandles refs h;
            loop wl h
          }
        }) = Some y"
  from step consider "snd y = h"
    | obj refs h1 wl2 h2 where "pointedBy obj h = Some (refs, h1)" "dropHandles refs h1 = Some h2" "loop wl2 h2 = Some y"
    by (elim heap_elims; hypsubst?) auto
  then show "heap_op\<^sup>*\<^sup>* h (snd y)"
  proof cases
    case 2
    from IH [OF 2(3)] heap_op_dropHandles [OF 2(2)] heap_op_pointedBy [OF 2(1)] show ?thesis by (meson rtranclp_trans)
  qed simp
qed

lemma P_isJunk: "isJunk obj (core sh) = Some (junk, h') \<Longrightarrow> P sh \<Longrightarrow> P (sh\<lparr>core := h'\<rparr>)"
  using P_isJunk_loop [of "wl_init SchedStack obj" "core sh" "(junk, h')"]
  by (auto simp: isJunk_def bind_eq_Some_conv split: if_splits intro: P_core)

lemma P_gatherReferredRoots:
  assumes "gatherReferredRoots obj (core sh) = Some (refs, h')" "P sh"
  shows "P (sh\<lparr>core := h'\<rparr>)"
proof -
  from assms obtain ptrs h1 h2 where g: "gatherLiveFields obj (core sh) = Some (ptrs, h1)"
    and l: "ofold (\<lambda>fld (dst, h). do {
         (val, h) \<leftarrow> valueOf fld h;
         if val \<le> 0 then Some (dst, h)
         else do {
           obj \<leftarrow> objByAddr val h;
           valid \<leftarrow> isValid obj h;
           Some (if \<not> valid then dst else insert obj dst, h)
         }
       }) ptrs ({}, h1) = Some (refs, h2)" and d: "dropHandles ptrs h2 = Some h'"
    unfolding gatherReferredRoots_def by (elim heap_elims; hypsubst) blast
  have "heap_op\<^sup>*\<^sup>* h1 (snd (refs, h2))"
    by (rule ofold_invariant [OF l, where P = "\<lambda>s. heap_op\<^sup>*\<^sup>* h1 (snd s)"])
      (auto simp: bind_eq_Some_conv split: if_splits dest!: heap_op_valueOf)
  then have "heap_op\<^sup>*\<^sup>* (core sh) h'"
    using heap_op_gatherLiveFields [OF g] heap_op_dropHandles [OF d] by (metis rtranclp_trans snd_conv)
  then show ?thesis using assms(2) by (rule P_core)
qed

lemma P_gcObject: "gcObject so wh obj (d, l, sh) = Some (d', l', sh') \<Longrightarrow> P sh \<Longrightarrow> P sh'"
  by (auto simp: gcObject_def bind_eq_Some_conv Let_def split: if_splits intro: P_step [OF symheap_step.invalidate])

lemma P_gc_loop:
  assumes "gc_loop so wh wl s = Some s'"
  shows "P (snd (snd s)) \<longrightarrow> P (snd (snd s'))"
proof (rule gc_loop.raw_induct [OF _ assms])
  fix loop so wh wl s s'
  assume IH: "\<And>so wh wl s s'. loop so wh wl s = Some s' \<Longrightarrow> P (snd (snd s)) \<longrightarrow> P (snd (snd s'))"
    and step: "(case wl_next wl of
        None \<Rightarrow> Some s
      | Some (obj, wl) \<Rightarrow>
          (case s of (detected, leakObjs, sh) \<Rightarrow> do {
             (junk, h) \<leftarrow> isJunk obj (core sh);
             let sh = sh\<lparr>core := h\<rparr>;
             if \<not> junk then loop so wh wl (detected, leakObjs, sh)
             else do {
               (refs, h) \<leftarrow> gatherReferredRoots obj (core sh);
               s \<leftarrow> gcObject so wh obj (detected, leakObjs, sh\<lparr>core := h\<rparr>);
               loop so wh
                 (fold (\<lambda>refObj wl. snd (wl_schedule SchedStack refObj wl)) (sorted_list_of_set refs) wl) s
             }
           })) = Some s'"
  obtain d l sh where s: "s = (d, l, sh)" by (cases s)
  from step consider "s' = s"
    | obj h1 wl1 where "isJunk obj (core sh) = Some (False, h1)" "loop so wh wl1 (d, l, sh\<lparr>core := h1\<rparr>) = Some s'"
    | obj h1 refs h2 d1 l1 sh1 wl1 where "isJunk obj (core sh) = Some (True, h1)" "gatherReferredRoots obj h1 = Some (refs, h2)"
      "gcObject so wh obj (d, l, sh\<lparr>core := h2\<rparr>) = Some (d1, l1, sh1)" "loop so wh wl1 (d1, l1, sh1) = Some s'"
    unfolding s Let_def by (elim heap_elims; hypsubst?) auto
  then show "P (snd (snd s)) \<longrightarrow> P (snd (snd s'))"
  proof cases
    case 2
    from IH [OF 2(2)] P_isJunk [OF 2(1)] show ?thesis by (simp add: s)
  next
    case 3
    from IH [OF 3(4)] P_isJunk [OF 3(1)] P_gatherReferredRoots [of obj "sh\<lparr>core := h1\<rparr>" refs h2] 3(2) P_gcObject [OF 3(3)]
    show ?thesis by (simp add: s)
  qed simp
qed

lemma P_gcCore: "gcCore obj so l sh = Some (d, l', sh') \<Longrightarrow> P sh \<Longrightarrow> P sh'"
  using P_gc_loop [of so "if so then {obj} else {}" "wl_init SchedStack obj" "(False, l, sh)" "(d, l', sh')"]
  by (auto simp: gcCore_def split: if_splits)

lemma P_collectJunk: "collectJunk obj l sh = Some (d, l', sh') \<Longrightarrow> P sh \<Longrightarrow> P sh'"
  unfolding collectJunk_def by (rule P_gcCore)

lemma P_destroyObjectAndCollectJunk:
  assumes "destroyObjectAndCollectJunk obj l sh = Some (d, l', sh')" "P sh"
  shows "P sh'"
proof -
  from assms(1) obtain refs h sh1 where g: "gatherReferredRoots obj (core sh) = Some (refs, h)"
    and i: "objInvalidate obj (sh\<lparr>core := h\<rparr>) = Some sh1"
    and l: "ofold (\<lambda>obj (leaking, leakObjs, sh). do {
       (leak, leakObjs, sh) \<leftarrow> collectJunk obj leakObjs sh;
       Some (leaking \<or> leak, leakObjs, sh)
     }) (sorted_list_of_set refs) (False, l, sh1) = Some (d, l', sh')"
    unfolding destroyObjectAndCollectJunk_def by (elim heap_elims; hypsubst?) blast
  have "P sh1" by (rule P_step [OF symheap_step.invalidate [OF i] P_gatherReferredRoots [OF g assms(2)]])
  then have "P (snd (snd (d, l', sh')))"
    by (intro P_ofold [OF l, where g = "\<lambda>x. snd (snd x)"]) (auto simp: bind_eq_Some_conv elim: P_collectJunk)
  then show ?thesis by simp
qed

end

text \<open>Every operation above is a run of steps.\<close>

interpretation run: symheap_ops "symheap_step\<^sup>*\<^sup>* sh0" for sh0
  by unfold_locales (rule rtranclp.rtrancl_into_rtrancl)

section \<open>Abstract objects\<close>

definition abs_ok :: "symheap \<Rightarrow> bool" where
  "abs_ok sh \<longleftrightarrow> (\<forall>obj a. absRoots sh obj = Some a \<longrightarrow> ao_kind a \<noteq> OK_REGION \<and>
     0 \<le> ao_minLength a \<and> ao_minLength a \<le> max SE_RESTRICT_SLS_MINLEN SE_RESTRICT_DLS_MINLEN)"

lemma abs_okD: "abs_ok sh \<Longrightarrow> absRoots sh obj = Some a \<Longrightarrow> ao_kind a \<noteq> OK_REGION \<and>
    0 \<le> ao_minLength a \<and> ao_minLength a \<le> max SE_RESTRICT_SLS_MINLEN SE_RESTRICT_DLS_MINLEN"
  unfolding abs_ok_def by blast

lemma abs_ok_core [simp]: "abs_ok (sh\<lparr>core := c\<rparr>) = abs_ok sh"
  by (simp add: abs_ok_def)

lemma abs_ok_put:
  "abs_ok sh \<Longrightarrow> ao_kind a \<noteq> OK_REGION \<Longrightarrow> 0 \<le> ao_minLength a \<Longrightarrow>
   ao_minLength a \<le> max SE_RESTRICT_SLS_MINLEN SE_RESTRICT_DLS_MINLEN \<Longrightarrow>
   abs_ok (sh\<lparr>absRoots := (absRoots sh)(obj \<mapsto> a)\<rparr>)"
  by (auto simp: abs_ok_def)

lemma abs_ok_remove: "abs_ok sh \<Longrightarrow> abs_ok (sh\<lparr>absRoots := (absRoots sh)(obj := None)\<rparr>)"
  by (auto simp: abs_ok_def)

lemma abs_ok_objClone:
  assumes "objClone obj sh = Some (dup, sh')" "abs_ok sh"
  shows "abs_ok sh'"
proof -
  from assms(1) obtain c where "sh' = sh\<lparr>core := c\<rparr> \<or> (\<exists>a. absRoots sh obj = Some a \<and>
      sh' = (sh\<lparr>core := c\<rparr>)\<lparr>absRoots := (absRoots (sh\<lparr>core := c\<rparr>))(dup \<mapsto> a)\<rparr>)"
    by (auto simp: objClone_def assignAbs_def bind_eq_Some_conv Let_def split: option.splits)
  then show ?thesis
  proof (elim disjE exE conjE)
    fix a
    assume a: "absRoots sh obj = Some a"
      and sh': "sh' = (sh\<lparr>core := c\<rparr>)\<lparr>absRoots := (absRoots (sh\<lparr>core := c\<rparr>))(dup \<mapsto> a)\<rparr>"
    show ?thesis unfolding sh' by (rule abs_ok_put) (use abs_okD [OF assms(2) a] assms(2) in simp_all)
  qed (use assms(2) in simp)
qed

lemma abs_ok_step: "symheap_step sh sh' \<Longrightarrow> abs_ok sh \<Longrightarrow> abs_ok sh'"
proof (induction rule: symheap_step.induct)
  case (clone obj sh dup sh')
  then show ?case by (rule abs_ok_objClone)
next
  case (invalidate obj sh sh')
  then show ?case using abs_ok_remove [of "sh\<lparr>core := _\<rparr>"] by (auto simp: objInvalidate_def bind_eq_Some_conv)
next
  case (abstract obj kind off sh sh')
  then show ?case
    by (auto simp: objSetAbstract_def assignAbs_def bind_eq_Some_conv SE_RESTRICT_SLS_MINLEN_def split: option.splits
        dest: abs_okD intro!: abs_ok_put)
next
  case (concrete obj sh sh')
  then show ?case by (auto simp: objSetConcrete_def bind_eq_Some_conv intro: abs_ok_remove)
next
  case (minLength len seg sh sh')
  then show ?case
    by (auto simp: segSetMinLength_def bind_eq_Some_conv SE_RESTRICT_SLS_MINLEN_def SE_RESTRICT_DLS_MINLEN_def
        split: if_splits EObjKind.splits intro!: abs_ok_put)
qed simp_all

interpretation ab: symheap_ops abs_ok
  by unfold_locales (rule abs_ok_step)

lemma abs_ok_run: "symheap_step\<^sup>*\<^sup>* sh sh' \<Longrightarrow> abs_ok sh \<Longrightarrow> abs_ok sh'"
  by (induction rule: rtranclp_induct) (auto intro: abs_ok_step)

lemma symheap_new_eq: "symheap_new st b = Some \<lparr>core = initial_heap st b, absRoots = (\<lambda>_. None)\<rparr>"
  by (simp add: symheap_new_def sheap_new_eq)

lemma abs_ok_reachable: "symheap_new st b = Some sh0 \<Longrightarrow> symheap_step\<^sup>*\<^sup>* sh0 sh \<Longrightarrow> abs_ok sh"
  by (erule abs_ok_run) (auto simp: symheap_new_eq abs_ok_def)


definition wit_seg0 :: symheap where
  "wit_seg0 = \<lparr>core = wit_alloc (initial_heap wit_stor True), absRoots = (\<lambda>_. None)\<rparr>"

definition wit_seg :: symheap where
  "wit_seg = wit_seg0\<lparr>absRoots := [4 \<mapsto> \<lparr>ao_kind = OK_SLS, ao_bOff = \<lparr>bo_head = 0, bo_next = 0, bo_prev = 0\<rparr>, ao_minLength = 0\<rparr>]\<rparr>"

lemma wit_seg_run:
  "symheap_step\<^sup>*\<^sup>* \<lparr>core = initial_heap wit_stor True, absRoots = (\<lambda>_. None)\<rparr> wit_seg"
proof -
  let ?sh = "\<lparr>core = initial_heap wit_stor True, absRoots = (\<lambda>_. None)\<rparr>"
  have "heapAlloc (rngFromNum 8) (initial_heap wit_stor True) = Some (4, wit_alloc (initial_heap wit_stor True))"
    by (simp add: wit_alloc_def heapAlloc_eq rngFromNum_def) (simp add: initial_heap_def)
  then have "symheap_step ?sh (?sh\<lparr>core := wit_alloc (initial_heap wit_stor True)\<rparr>)"
    by (intro symheap_step.inherited) (auto intro: heap_op.intros)
  moreover have "objSetAbstract 4 OK_SLS \<lparr>bo_head = 0, bo_next = 0, bo_prev = 0\<rparr> wit_seg0 = Some wit_seg"
    by (simp add: objSetAbstract_def assignAbs_def wit_seg_def) (simp add: wit_seg0_def assignAbs_def fun_upd_def)
  ultimately show ?thesis by (metis symheap_step.abstract converse_rtranclp_into_rtranclp r_into_rtranclp symheap.update_convs(1) wit_seg0_def)
qed


text \<open>
  C22: in every symbolic heap that public operations make of a new one, the minimal length of an abstract object lies
  between 0 and 2, and \<open>segIncreaseMinLength\<close> never lowers it: it becomes the larger one of the old length and of the
  wanted one cut down to 2.
\<close>

theorem segIncreaseMinLength_bounds:
  assumes "symheap_new st b = Some sh0" "symheap_step\<^sup>*\<^sup>* sh0 sh"
    and "segMinLength seg sh = Some now" "0 < len" "segIncreaseMinLength seg len sh = Some sh'"
  shows "0 \<le> now \<and> now \<le> 2 \<and> segMinLength seg sh' = Some (max now (min len 2))"
proof -
  from assms(3) obtain a where a: "absRoots sh seg = Some a" "now = (if isMayExistObj (ao_kind a) then 0 else ao_minLength a)"
    by (auto simp: segMinLength_def bind_eq_Some_conv split: if_splits EObjKind.splits)
  with abs_okD [OF abs_ok_reachable [OF assms(1,2)] a(1)] have b: "0 \<le> now" "now \<le> 2"
    by (auto simp: SE_RESTRICT_SLS_MINLEN_def SE_RESTRICT_DLS_MINLEN_def)
  moreover have "segMinLength seg sh' = Some (max now (min len 2))"
    using assms(3-5) a b
    by (cases "ao_kind a") (auto simp: segIncreaseMinLength_def segSetMinLength_def segMinLength_def
        SE_RESTRICT_SLS_MINLEN_def SE_RESTRICT_DLS_MINLEN_def split: if_splits)
  ultimately show ?thesis by blast
qed

theorem segIncreaseMinLength_bounds_witness:
  "case segIncreaseMinLength 4 5 wit_seg of Some sh \<Rightarrow> segMinLength 4 sh = Some 2 | None \<Rightarrow> False"
proof -
  have now: "segMinLength 4 wit_seg = Some 0" by (simp add: segMinLength_def wit_seg_def)
  then obtain sh where inc: "segIncreaseMinLength 4 5 wit_seg = Some sh"
    by (simp add: segIncreaseMinLength_def segSetMinLength_def) (simp add: wit_seg_def)
  from segIncreaseMinLength_bounds [OF symheap_new_eq wit_seg_run now _ inc] inc show ?thesis by simp
qed

end
