(* ===== verification/SymBt.thy ===== *)
theory SymBt
  imports Prelude
begin

text \<open>
  The back trace of \<open>src/sl/symbt.cc\<close>: the stack of called functions, the innermost call first, together with the
  number of open calls of each function, from which \<open>CallInst\<close> makes the instance number of a local variable.
  Functions are named by their uid; \<open>bt_fncs\<close> are the functions of the code storage the trace refers to.
\<close>

section \<open>State and operations\<close>

record bt_stack_item =
  bti_fnc :: int
  bti_loc :: int

record back_trace =
  bt_fncs :: "int list"
  btStack :: "bt_stack_item list"
  nestMap :: "(int, int) omap"

definition bt_new :: "int list \<Rightarrow> back_trace" where
  "bt_new stor = \<lparr>bt_fncs = stor, btStack = [], nestMap = []\<rparr>"

text \<open>A null pointer to a function is \<open>None\<close>.\<close>

definition fncOnTop :: "back_trace \<Rightarrow> int option" where
  "fncOnTop bt = (case btStack bt of [] \<Rightarrow> None | item # _ \<Rightarrow> Some (bti_fnc item))"

definition fncById :: "int \<Rightarrow> back_trace \<Rightarrow> int option" where
  "fncById i bt = do { cl_break_if (i \<notin> set (bt_fncs bt)); Some i }"

definition pushFnc :: "int \<Rightarrow> int \<Rightarrow> back_trace \<Rightarrow> back_trace option" where
  "pushFnc fnc loc bt = do {
     let stack = \<lparr>bti_fnc = fnc, bti_loc = loc\<rparr> # btStack bt;
     let ref = omap_at 0 (nestMap bt) fnc;
     cl_break_if (ref < 0 \<or> int (length stack) < ref);
     Some (bt\<lparr>btStack := stack, nestMap := omap_put fnc (ref + 1) (nestMap bt)\<rparr>)
   }"

definition popFnc :: "back_trace \<Rightarrow> back_trace option" where
  "popFnc bt = do {
     fnc \<leftarrow> fncOnTop bt;
     let stack = tl (btStack bt);
     let ref = omap_at 0 (nestMap bt) fnc - 1;
     if ref = 0 then Some (bt\<lparr>btStack := stack, nestMap := omap_erase fnc (nestMap bt)\<rparr>)
     else do {
       cl_break_if (ref < 0 \<or> int (length stack) < ref);
       Some (bt\<lparr>btStack := stack, nestMap := omap_put fnc ref (nestMap bt)\<rparr>)
     }
   }"

definition pushCall :: "int \<Rightarrow> int \<Rightarrow> back_trace \<Rightarrow> back_trace option" where
  "pushCall fncId loc bt = do { fnc \<leftarrow> fncById fncId bt; pushFnc fnc loc bt }"

definition popCall :: "back_trace \<Rightarrow> (int \<times> back_trace) option" where
  "popCall bt = do { fnc \<leftarrow> fncOnTop bt; bt \<leftarrow> popFnc bt; Some (fnc, bt) }"

definition bt_size :: "back_trace \<Rightarrow> nat" where
  "bt_size bt = length (btStack bt)"

text \<open>\<open>nestMap[fnc]\<close> inserts a zero for a function that has no open call.\<close>

definition nestMap_at :: "int \<Rightarrow> back_trace \<Rightarrow> int \<times> back_trace" where
  "nestMap_at fnc bt =
     (case omap_find (nestMap bt) fnc of
        Some n \<Rightarrow> (n, bt)
      | None \<Rightarrow> (0, bt\<lparr>nestMap := omap_put fnc 0 (nestMap bt)\<rparr>))"

definition countOccurrencesOfFnc :: "int \<Rightarrow> back_trace \<Rightarrow> (int \<times> back_trace) option" where
  "countOccurrencesOfFnc fncId bt = do { fnc \<leftarrow> fncById fncId bt; Some (nestMap_at fnc bt) }"

definition countOccurrencesOfTopFnc :: "back_trace \<Rightarrow> int \<times> back_trace" where
  "countOccurrencesOfTopFnc bt = (case fncOnTop bt of None \<Rightarrow> (0, bt) | Some fnc \<Rightarrow> nestMap_at fnc bt)"

definition topCallLoc :: "back_trace \<Rightarrow> int option" where
  "topCallLoc bt = (case btStack bt of [] \<Rightarrow> None | item # _ \<Rightarrow> Some (bti_loc item))"

definition bt_areEqual :: "back_trace option \<Rightarrow> back_trace option \<Rightarrow> bool" where
  "bt_areEqual btA btB =
     (case (btA, btB) of
        (None, None) \<Rightarrow> True
      | (Some a, Some b) \<Rightarrow> btStack a = btStack b \<and> nestMap a = nestMap b
      | _ \<Rightarrow> False)"

text \<open>\<open>CallInst(bt)\<close>: the pair of the called function and the number of its open calls.\<close>

definition callInst_of :: "back_trace \<Rightarrow> ((int \<times> int) \<times> back_trace) option" where
  "callInst_of bt = do {
     uid \<leftarrow> fncOnTop bt;
     let (inst, bt) = countOccurrencesOfTopFnc bt;
     Some ((uid, inst), bt)
   }"

section \<open>Runs\<close>

inductive bt_step :: "back_trace \<Rightarrow> back_trace \<Rightarrow> bool" where
  push: "pushCall f loc bt = Some bt' \<Longrightarrow> bt_step bt bt'"
| pop: "popCall bt = Some (f, bt') \<Longrightarrow> bt_step bt bt'"
| count: "countOccurrencesOfFnc f bt = Some (n, bt') \<Longrightarrow> bt_step bt bt'"
| countTop: "countOccurrencesOfTopFnc bt = (n, bt') \<Longrightarrow> bt_step bt bt'"

inductive_cases bt_stepE: "bt_step bt bt'"

abbreviation open_calls :: "int \<Rightarrow> back_trace \<Rightarrow> nat" where
  "open_calls f bt \<equiv> count_list (map bti_fnc (btStack bt)) f"

definition bt_ok :: "back_trace \<Rightarrow> bool" where
  "bt_ok bt \<longleftrightarrow> omap_wf (nestMap bt) \<and> (\<forall>f. omap_at 0 (nestMap bt) f = int (open_calls f bt))"

lemma bt_okD: "bt_ok bt \<Longrightarrow> omap_at 0 (nestMap bt) f = int (open_calls f bt)"
  by (simp add: bt_ok_def)

lemma omap_at_put [omap_simps]: "omap_at d (omap_put k v m) x = (if x = k then v else omap_at d m x)"
  by (simp add: omap_at_def omap_find_put)

lemma omap_at_erase [omap_simps]: "omap_at d (omap_erase k m) x = (if x = k then d else omap_at d m x)"
  by (simp add: omap_at_def omap_find_erase)

lemma open_calls_le: "open_calls f bt \<le> length (btStack bt)"
  by (metis count_le_length length_map)

lemma pushCall_ok:
  assumes "bt_ok bt"
  shows "pushCall f loc bt = (if f \<in> set (bt_fncs bt)
    then Some (bt\<lparr>btStack := \<lparr>bti_fnc = f, bti_loc = loc\<rparr> # btStack bt,
      nestMap := omap_put f (int (open_calls f bt) + 1) (nestMap bt)\<rparr>)
    else None)"
  using open_calls_le [of bt f] by (simp add: pushCall_def fncById_def pushFnc_def bt_okD [OF assms])

lemma popCall_ok:
  assumes "bt_ok bt" "btStack bt = i # s"
  shows "\<exists>m. popCall bt = Some (bti_fnc i, bt\<lparr>btStack := s, nestMap := m\<rparr>) \<and> bt_ok (bt\<lparr>btStack := s, nestMap := m\<rparr>)"
proof -
  let ?n = "count_list (map bti_fnc s) (bti_fnc i)"
  have "omap_at 0 (nestMap bt) (bti_fnc i) = int ?n + 1" by (simp add: bt_okD [OF assms(1)] assms(2))
  moreover have "?n \<le> length s" by (metis count_le_length length_map)
  ultimately show ?thesis
    using assms
    by (cases "?n = 0") (auto simp: popCall_def popFnc_def fncOnTop_def bt_ok_def omap_simps intro!: omap_intros)
qed

lemma nestMap_at_ok:
  assumes "bt_ok bt"
  shows "fst (nestMap_at f bt) = int (open_calls f bt) \<and> bt_ok (snd (nestMap_at f bt)) \<and>
    btStack (snd (nestMap_at f bt)) = btStack bt"
proof (cases "omap_find (nestMap bt) f")
  case None
  then have "open_calls f bt = 0" using bt_okD [OF assms, of f] by (simp add: omap_at_def)
  with None assms show ?thesis by (auto simp: nestMap_at_def bt_ok_def omap_simps intro!: omap_intros)
next
  case (Some n)
  then show ?thesis using assms bt_okD [OF assms, of f] by (simp add: nestMap_at_def omap_at_def)
qed

lemma bt_ok_step: "bt_step bt bt' \<Longrightarrow> bt_ok bt \<Longrightarrow> bt_ok bt'"
proof (erule bt_stepE)
  fix f loc
  assume "bt_ok bt" "pushCall f loc bt = Some bt'"
  then show "bt_ok bt'"
    by (auto simp: pushCall_ok bt_ok_def omap_simps split: if_splits intro!: omap_intros)
next
  fix f
  assume p: "bt_ok bt" "popCall bt = Some (f, bt')"
  then obtain i s where "btStack bt = i # s" by (cases "btStack bt") (auto simp: popCall_def fncOnTop_def)
  with popCall_ok [OF p(1) this] p(2) show "bt_ok bt'" by auto
next
  fix f n
  assume "bt_ok bt" "countOccurrencesOfFnc f bt = Some (n, bt')"
  then show "bt_ok bt'"
    using nestMap_at_ok [of bt f] by (auto simp: countOccurrencesOfFnc_def fncById_def split: if_splits)
next
  fix n
  assume "bt_ok bt" "countOccurrencesOfTopFnc bt = (n, bt')"
  then show "bt_ok bt'"
    using nestMap_at_ok [of bt "the (fncOnTop bt)"] by (auto simp: countOccurrencesOfTopFnc_def split: option.splits)
qed

lemma bt_ok_run: "bt_step\<^sup>*\<^sup>* (bt_new stor) bt \<Longrightarrow> bt_ok bt"
proof (induction rule: rtranclp_induct)
  case base
  show ?case by (simp add: bt_new_def bt_ok_def omap_at_def)
qed (rule bt_ok_step)

section \<open>Properties\<close>

text \<open>
  C37: on every back trace that calls, returns and queries make of an empty one, the integrity checks never fire: a
  call traps exactly for a function that is not in the storage and a return exactly on an empty trace, and the
  counters that number the instances of local variables are the numbers of open calls.
\<close>

theorem bt_errors_exact:
  assumes "bt_step\<^sup>*\<^sup>* (bt_new stor) bt"
  shows "(pushCall f loc bt = None \<longleftrightarrow> f \<notin> set (bt_fncs bt)) \<and> (popCall bt = None \<longleftrightarrow> btStack bt = []) \<and>
    fst (countOccurrencesOfTopFnc bt) = (case btStack bt of [] \<Rightarrow> 0 | item # _ \<Rightarrow> int (open_calls (bti_fnc item) bt))"
proof (intro conjI)
  have ok: "bt_ok bt" by (rule bt_ok_run [OF assms])
  show "pushCall f loc bt = None \<longleftrightarrow> f \<notin> set (bt_fncs bt)" by (simp add: pushCall_ok [OF ok])
  show "popCall bt = None \<longleftrightarrow> btStack bt = []"
    using popCall_ok [OF ok] by (cases "btStack bt") (auto simp: popCall_def fncOnTop_def)
  show "fst (countOccurrencesOfTopFnc bt) = (case btStack bt of [] \<Rightarrow> 0 | item # _ \<Rightarrow> int (open_calls (bti_fnc item) bt))"
    using nestMap_at_ok [OF ok] by (auto simp: countOccurrencesOfTopFnc_def fncOnTop_def split: list.splits)
qed

lemma wit_bt_run:
  "bt_step\<^sup>*\<^sup>* (bt_new [3]) (the (do { bt \<leftarrow> pushCall 3 10 (bt_new [3]); pushCall 3 20 bt }))"
proof -
  have "bt_step (bt_new [3]) (the (pushCall 3 10 (bt_new [3])))"
    by (rule bt_step.push [of 3 10]) (simp add: pushCall_def fncById_def pushFnc_def bt_new_def omap_at_def)
  moreover have "bt_step (the (pushCall 3 10 (bt_new [3]))) (the (do { bt \<leftarrow> pushCall 3 10 (bt_new [3]); pushCall 3 20 bt }))"
    by (rule bt_step.push [of 3 20]) (simp add: pushCall_def fncById_def pushFnc_def bt_new_def omap_at_def)
  ultimately show ?thesis by simp
qed

theorem bt_errors_exact_witness:
  "let bt = the (do { bt \<leftarrow> pushCall 3 10 (bt_new [3]); pushCall 3 20 bt })
   in pushCall 4 30 bt = None \<and> popCall bt \<noteq> None \<and> fst (countOccurrencesOfTopFnc bt) = 2"
  using bt_errors_exact [OF wit_bt_run, of 4 30] unfolding Let_def
  by (simp add: pushCall_def fncById_def pushFnc_def bt_new_def omap_at_def)

text \<open>
  A query for a function without an open call leaves a zero behind, and the comparison of traces sees it: two traces
  with the same calls need not be equal.
\<close>

lemma bt_areEqual_sees_queries:
  assumes "bt_step\<^sup>*\<^sup>* (bt_new stor) bt" "f \<in> set (bt_fncs bt)" "omap_find (nestMap bt) f = None"
  shows "\<exists>bt'. countOccurrencesOfFnc f bt = Some (0, bt') \<and> btStack bt' = btStack bt \<and> \<not> bt_areEqual (Some bt) (Some bt')"
proof -
  have "nestMap bt \<noteq> omap_put f 0 (nestMap bt)" using assms(3) omap_find_put [of f 0 "nestMap bt" f] by auto
  then show ?thesis using assms by (auto simp: countOccurrencesOfFnc_def fncById_def nestMap_at_def bt_areEqual_def)
qed

end
