(* ===== verification/SymCmp.thy ===== *)
theory SymCmp
  imports SymSeg SymBt HeapEvol
begin

text \<open>
  Comparison of symbolic heaps up to isomorphism (\<open>src/sl/symcmp.cc\<close>, \<open>src/sl/symcmp.hh\<close>) with the traversals of
  \<open>src/sl/symutil.hh\<close> it is built of.  A pair of heaps is walked through in parallel from the program variables;
  values that are met at the same place are mapped to each other.  Reading a field may create a value, so that the
  two heaps are threaded although the code declares them constant.
\<close>

type_synonym val_map_bidir = "(TValId \<Rightarrow> TValId option) \<times> (TValId \<Rightarrow> TValId option)"

type_synonym cmp_wl = "(TObjId \<times> TObjId) work_list"

section \<open>Values\<close>

definition checkNonPosValues :: "int \<Rightarrow> int \<Rightarrow> bool" where
  "checkNonPosValues a b = (if 0 < a \<and> 0 < b then True else a = b)"

definition mapBidir :: "val_map_bidir \<Rightarrow> TValId \<Rightarrow> TValId \<Rightarrow> bool \<times> val_map_bidir" where
  "mapBidir bMap v1 v2 =
     (let (ltr, rtl) = bMap
      in case ltr v1 of
           Some v \<Rightarrow> (v = v2, bMap)
         | None \<Rightarrow>
             (case rtl v2 of
                Some v \<Rightarrow> (v = v1, bMap)
              | None \<Rightarrow> (True, (ltr(v1 \<mapsto> v2), rtl(v2 \<mapsto> v1)))))"

definition matchOffsets :: "sheap \<Rightarrow> sheap \<Rightarrow> TValId \<Rightarrow> TValId \<Rightarrow> bool option" where
  "matchOffsets h1 h2 v1 v2 = do {
     code1 \<leftarrow> valTarget v1 h1;
     code2 \<leftarrow> valTarget v2 h2;
     let isRange = (VT_RANGE = code1);
     if isRange \<noteq> (VT_RANGE = code2) then Some False
     else if isRange then do {
       offRange1 \<leftarrow> valOffsetRange v1 h1;
       offRange2 \<leftarrow> valOffsetRange v2 h2;
       Some (offRange1 = offRange2)
     }
     else do {
       off1 \<leftarrow> valOffset v1 h1;
       off2 \<leftarrow> valOffset v2 h2;
       Some (off1 = off2)
     }
   }"

definition matchPlainValues :: "val_map_bidir \<Rightarrow> symheap \<Rightarrow> symheap \<Rightarrow> TValId \<Rightarrow> TValId \<Rightarrow> (bool \<times> val_map_bidir) option" where
  "matchPlainValues valMapping sh1 sh2 v1 v2 =
     (if \<not> checkNonPosValues v1 v2 then Some (False, valMapping)
      else if v1 \<le> VAL_NULL then Some (True, valMapping)
      else do {
        ok \<leftarrow> matchOffsets (core sh1) (core sh2) v1 v2;
        if \<not> ok then Some (False, valMapping)
        else do {
          root1 \<leftarrow> valRoot v1 (core sh1);
          root2 \<leftarrow> valRoot v2 (core sh2);
          Some (mapBidir valMapping root1 root2)
        }
      })"

section \<open>Objects\<close>

text \<open>One direction of \<open>matchUniBlocks\<close>: every uniform block of \<open>src\<close> is covered in \<open>dst\<close>.\<close>

definition coverUniBlocks :: "(TOffset, uniform_block) omap \<Rightarrow> TObjId \<Rightarrow> sheap \<Rightarrow> sheap \<Rightarrow> (bool \<times> sheap) option" where
  "coverUniBlocks bMap root dst src =
     ofold (\<lambda>(_, bl) (ok, dst).
       if \<not> ok then Some (ok, dst)
       else do {
         (tpl, dst) \<leftarrow> translateValProto (ub_tplValue bl) dst src;
         (covered, _) \<leftarrow> findCoveringUniBlocks root (bl\<lparr>ub_tplValue := tpl\<rparr>) dst;
         Some (covered, dst)
       }) bMap (True, dst)"

definition matchUniBlocks :: "symheap \<Rightarrow> symheap \<Rightarrow> TObjId \<Rightarrow> TObjId \<Rightarrow> (bool \<times> symheap \<times> symheap) option" where
  "matchUniBlocks sh1 sh2 root1 root2 = do {
     bMap1 \<leftarrow> gatherUniformBlocks root1 (core sh1);
     bMap2 \<leftarrow> gatherUniformBlocks root2 (core sh2);
     (ok, h2) \<leftarrow> coverUniBlocks bMap1 root2 (core sh2) (core sh1);
     let sh2 = sh2\<lparr>core := h2\<rparr>;
     if \<not> ok then Some (False, sh1, sh2)
     else do {
       (ok, h1) \<leftarrow> coverUniBlocks bMap2 root1 (core sh1) (core sh2);
       Some (ok, sh1\<lparr>core := h1\<rparr>, sh2)
     }
   }"

text \<open>The checks of \<open>matchRoots\<close> ahead of the uniform blocks: size, estimated type, owner and nesting level.\<close>

definition matchTypes :: "stor \<Rightarrow> TObjType \<Rightarrow> TObjType \<Rightarrow> bool option" where
  "matchTypes st clt1 clt2 =
     (if clt1 = 0 \<and> clt2 = 0 then Some True
      else if clt1 = 0 \<or> clt2 = 0 then Some False
      else cl_type_eq st clt1 clt2)"

definition matchRegions :: "symheap \<Rightarrow> symheap \<Rightarrow> TObjId \<Rightarrow> TObjId \<Rightarrow> bool option" where
  "matchRegions sh1 sh2 obj1 obj2 = do {
     size1 \<leftarrow> objSize obj1 (core sh1);
     size2 \<leftarrow> objSize obj2 (core sh2);
     if size1 \<noteq> size2 then Some False
     else do {
       clt1 \<leftarrow> objEstimatedType obj1 (core sh1);
       clt2 \<leftarrow> objEstimatedType obj2 (core sh2);
       sameType \<leftarrow> matchTypes (storOf (core sh1)) clt1 clt2;
       if \<not> sameType then Some False
       else do {
         from1 \<leftarrow> isAnonStackObj obj1 (core sh1);
         from2 \<leftarrow> isAnonStackObj obj2 (core sh2);
         if from1 \<noteq> from2 then Some False
         else do {
           level1 \<leftarrow> objProtoLevel obj1 (core sh1);
           level2 \<leftarrow> objProtoLevel obj2 (core sh2);
           Some (level1 = level2)
         }
       }
     }
   }"

definition matchKinds :: "symheap \<Rightarrow> symheap \<Rightarrow> TObjId \<Rightarrow> TObjId \<Rightarrow> bool option" where
  "matchKinds sh1 sh2 obj1 obj2 =
     (let kind1 = objKind obj1 sh1; kind2 = objKind obj2 sh2
      in if kind1 \<noteq> kind2 then Some False
         else if OK_REGION = kind1 then Some True
         else do {
           len1 \<leftarrow> segMinLength obj1 sh1;
           len2 \<leftarrow> segMinLength obj2 sh2;
           if len1 \<noteq> len2 then Some False
           else if OK_OBJ_OR_NULL = kind1 then Some True
           else do {
             bf1 \<leftarrow> segBinding obj1 sh1;
             bf2 \<leftarrow> segBinding obj2 sh2;
             Some (bf1 = bf2)
           }
         })"

definition matchRoots :: "symheap \<Rightarrow> symheap \<Rightarrow> TValId \<Rightarrow> TValId \<Rightarrow> (bool \<times> symheap \<times> symheap) option" where
  "matchRoots sh1 sh2 root1 root2 = do {
     obj1 \<leftarrow> objByAddr root1 (core sh1);
     obj2 \<leftarrow> objByAddr root2 (core sh2);
     ok \<leftarrow> matchRegions sh1 sh2 obj1 obj2;
     if \<not> ok then Some (False, sh1, sh2)
     else do {
       (ok, sh1, sh2) \<leftarrow> matchUniBlocks sh1 sh2 obj1 obj2;
       if \<not> ok then Some (False, sh1, sh2)
       else do { ok \<leftarrow> matchKinds sh1 sh2 obj1 obj2; Some (ok, sh1, sh2) }
     }
   }"

text \<open>The verdict, whether to follow the values, the mapping and the heaps.\<close>

definition cmpValues :: "val_map_bidir \<Rightarrow> symheap \<Rightarrow> symheap \<Rightarrow> TValId \<Rightarrow> TValId \<Rightarrow>
    (bool \<times> bool \<times> val_map_bidir \<times> symheap \<times> symheap) option" where
  "cmpValues vMap sh1 sh2 v1 v2 = do {
     (ok, vMap) \<leftarrow> matchPlainValues vMap sh1 sh2 v1 v2;
     if \<not> ok then Some (False, False, vMap, sh1, sh2)
     else do {
       let isSpecial = (v1 \<le> 0);
       cl_break_if (isSpecial \<and> 0 < v2);
       if isSpecial then Some (True, False, vMap, sh1, sh2)
       else do {
         obj1 \<leftarrow> objByAddr v1 (core sh1);
         obj2 \<leftarrow> objByAddr v2 (core sh2);
         isValid1 \<leftarrow> isValid obj1 (core sh1);
         isValid2 \<leftarrow> isValid obj2 (core sh2);
         if isValid1 \<noteq> isValid2 then Some (False, False, vMap, sh1, sh2)
         else do {
           code \<leftarrow> valTarget v1 (core sh1);
           code2 \<leftarrow> valTarget v2 (core sh2);
           if code \<noteq> code2 then Some (False, False, vMap, sh1, sh2)
           else if VT_CUSTOM = code then do {
             cVal1 \<leftarrow> valUnwrapCustom v1 (core sh1);
             cVal2 \<leftarrow> valUnwrapCustom v2 (core sh2);
             Some (custom_value_eq cVal1 cVal2, False, vMap, sh1, sh2)
           }
           else if \<not> isAnyDataArea code then Some (True, False, vMap, sh1, sh2)
           else do {
             ts1 \<leftarrow> targetSpec v1 (core sh1);
             ts2 \<leftarrow> targetSpec v2 (core sh2);
             if ts1 \<noteq> ts2 then Some (False, True, vMap, sh1, sh2)
             else do {
               root1 \<leftarrow> valRoot v1 (core sh1);
               root2 \<leftarrow> valRoot v2 (core sh2);
               (ok, sh1, sh2) \<leftarrow> matchRoots sh1 sh2 root1 root2;
               Some (ok, True, vMap, sh1, sh2)
             }
           }
         }
       }
     }
   }"

section \<open>Traversal\<close>

text \<open>\<open>ValueComparator\<close>: compares what two fields hold and schedules the objects behind.\<close>

definition valueComparator :: "TFldId \<Rightarrow> TFldId \<Rightarrow> cmp_wl \<times> val_map_bidir \<Rightarrow> symheap \<Rightarrow> symheap \<Rightarrow>
    (bool \<times> (cmp_wl \<times> val_map_bidir) \<times> symheap \<times> symheap) option" where
  "valueComparator fld1 fld2 s sh1 sh2 = do {
     let (wl, vMap) = s;
     (v1, sh1) \<leftarrow> lift_core (valueOf fld1) sh1;
     (v2, sh2) \<leftarrow> lift_core (valueOf fld2) sh2;
     (ok, follow, vMap, sh1, sh2) \<leftarrow> cmpValues vMap sh1 sh2 v1 v2;
     if \<not> ok then Some (False, (wl, vMap), sh1, sh2)
     else if \<not> follow then Some (True, (wl, vMap), sh1, sh2)
     else do {
       obj1 \<leftarrow> objByAddr v1 (core sh1);
       obj2 \<leftarrow> objByAddr v2 (core sh2);
       Some (True, (snd (wl_schedule SchedQueue (obj1, obj2) wl), vMap), sh1, sh2)
     }
   }"

definition gatherItems :: "TObjId \<Rightarrow> (TOffset \<times> TObjType) set \<Rightarrow> symheap \<Rightarrow> ((TOffset \<times> TObjType) set \<times> symheap) option" where
  "gatherItems obj items sh =
     (if OBJ_INVALID = obj then Some (items, sh)
      else do {
        (fields, sh) \<leftarrow> lift_core (gatherLiveFields obj) sh;
        items \<leftarrow> ofold (\<lambda>fld items. do {
            off \<leftarrow> fieldOffset fld (core sh);
            t \<leftarrow> (if 0 < fld then fieldType fld (core sh) else Some 0);
            Some (insert (off, t) items)
          }) fields items;
        sh \<leftarrow> dropAll fields sh;
        Some (items, sh)
      })"

text \<open>The body of the loop of \<open>traverseLiveFieldsGeneric<2>\<close>.\<close>

definition visitItem :: "(TFldId \<Rightarrow> TFldId \<Rightarrow> 's \<Rightarrow> symheap \<Rightarrow> symheap \<Rightarrow> (bool \<times> 's \<times> symheap \<times> symheap) option) \<Rightarrow>
    TObjId \<Rightarrow> TObjId \<Rightarrow> TOffset \<times> TObjType \<Rightarrow> bool \<times> 's \<times> symheap \<times> symheap \<Rightarrow> (bool \<times> 's \<times> symheap \<times> symheap) option" where
  "visitItem visitor obj1 obj2 item = (\<lambda>(continue, s, sh1, sh2).
     if \<not> continue then Some (continue, s, sh1, sh2)
     else do {
       let (off, t) = item;
       (fld1, sh1) \<leftarrow> lift_core (fldHandle_new obj1 t off) sh1;
       (fld2, sh2) \<leftarrow> lift_core (fldHandle_new obj2 t off) sh2;
       (continue, s, sh1, sh2) \<leftarrow> visitor fld1 fld2 s sh1 sh2;
       sh1 \<leftarrow> dropHandle fld1 sh1;
       sh2 \<leftarrow> dropHandle fld2 sh2;
       Some (continue, s, sh1, sh2)
     })"

definition traverseLiveFields2 :: "(TFldId \<Rightarrow> TFldId \<Rightarrow> 's \<Rightarrow> symheap \<Rightarrow> symheap \<Rightarrow> (bool \<times> 's \<times> symheap \<times> symheap) option) \<Rightarrow>
    TObjId \<Rightarrow> TObjId \<Rightarrow> 's \<Rightarrow> symheap \<Rightarrow> symheap \<Rightarrow> (bool \<times> 's \<times> symheap \<times> symheap) option" where
  "traverseLiveFields2 visitor obj1 obj2 s sh1 sh2 = do {
     (items, sh1) \<leftarrow> gatherItems obj1 {} sh1;
     (items, sh2) \<leftarrow> gatherItems obj2 items sh2;
     ofold (visitItem visitor obj1 obj2) (sorted_list_of_set items) (True, s, sh1, sh2)
   }"

partial_function (option) dfsCmp :: "cmp_wl \<Rightarrow> val_map_bidir \<Rightarrow> symheap \<Rightarrow> symheap \<Rightarrow>
    (bool \<times> cmp_wl \<times> val_map_bidir \<times> symheap \<times> symheap) option" where
  "dfsCmp wl vMap sh1 sh2 =
     (case wl_next wl of
        None \<Rightarrow> Some (True, wl, vMap, sh1, sh2)
      | Some ((obj1, obj2), wl) \<Rightarrow> do {
          (ok, (wl, vMap), sh1, sh2) \<leftarrow> traverseLiveFields2 valueComparator obj1 obj2 (wl, vMap) sh1 sh2;
          if \<not> ok then Some (False, wl, vMap, sh1, sh2)
          else dfsCmp wl vMap sh1 sh2
        })"

declare dfsCmp.simps [code]

section \<open>Program variables\<close>

definition isVarAlive :: "cvar \<Rightarrow> symheap \<Rightarrow> (bool \<times> symheap) option" where
  "isVarAlive cv sh = do { (obj, sh) \<leftarrow> lift_core (regionByVar cv False) sh; Some (OBJ_INVALID \<noteq> obj, sh) }"

definition gatherProgramVars :: "symheap \<Rightarrow> (int \<times> int) set option" where
  "gatherProgramVars sh = do {
     vars \<leftarrow> gatherObjects isProgramVar (core sh);
     ofold (\<lambda>obj dst.
       if OBJ_RETURN = obj then Some dst
       else do {
         anon \<leftarrow> isAnonStackObj obj (core sh);
         if anon \<noteq> None then Some dst
         else do { cv \<leftarrow> cVarByObject obj (core sh); Some (insert (cv_uid cv, cv_inst cv) dst) }
       }) vars {}
   }"

text \<open>
  \<open>traverseProgramVarsGeneric<0, 2>\<close> without recovery: first the variables of the second heap have to be those of
  the first one, then the pairs of their regions are visited.
\<close>

definition matchVars :: "(int \<times> int) set \<Rightarrow> symheap \<Rightarrow> bool option" where
  "matchVars vars sh = do {
     live \<leftarrow> gatherObjects isProgramVar (core sh);
     (ok, cntLive) \<leftarrow> ofold (\<lambda>obj (ok, cntLive).
       if \<not> ok \<or> OBJ_RETURN = obj then Some (ok, cntLive)
       else do {
         cv \<leftarrow> cVarByObject obj (core sh);
         if - 1 = cv_uid cv then do {
           anon \<leftarrow> isAnonStackObj obj (core sh);
           cl_break_if (anon = None);
           Some (ok, cntLive - 1)
         }
         else Some ((cv_uid cv, cv_inst cv) \<in> vars, cntLive)
       }) live (True, int (length live));
     Some (ok \<and> int (card vars) = cntLive)
   }"

definition regionOfVar :: "int \<times> int \<Rightarrow> symheap \<Rightarrow> (TObjId option \<times> symheap) option" where
  "regionOfVar var sh = do {
     let cv = \<lparr>cv_uid = fst var, cv_inst = snd var\<rparr>;
     (alive, sh) \<leftarrow> isVarAlive cv sh;
     if \<not> alive \<and> cv_inst cv = 0 then Some (None, sh)
     else do {
       (reg, sh) \<leftarrow> lift_core (regionByVar cv False) sh;
       cl_break_if (\<not> alive);
       Some (Some reg, sh)
     }
   }"

definition traverseProgramVars2 :: "(TObjId \<Rightarrow> TObjId \<Rightarrow> 's \<Rightarrow> 's) \<Rightarrow> 's \<Rightarrow> symheap \<Rightarrow> symheap \<Rightarrow> (bool \<times> 's \<times> symheap \<times> symheap) option" where
  "traverseProgramVars2 visitor s sh1 sh2 = do {
     vars \<leftarrow> gatherProgramVars sh1;
     same \<leftarrow> matchVars vars sh2;
     if \<not> same then Some (False, s, sh1, sh2)
     else ofold (\<lambda>var (ok, s, sh1, sh2).
         if \<not> ok then Some (ok, s, sh1, sh2)
         else do {
           (reg1, sh1) \<leftarrow> regionOfVar var sh1;
           case reg1 of
             None \<Rightarrow> Some (False, s, sh1, sh2)
           | Some reg1 \<Rightarrow> do {
               (reg2, sh2) \<leftarrow> regionOfVar var sh2;
               case reg2 of
                 None \<Rightarrow> Some (False, s, sh1, sh2)
               | Some reg2 \<Rightarrow> Some (True, visitor reg1 reg2 s, sh1, sh2)
             }
         }) (sorted_list_of_set vars) (True, s, sh1, sh2)
   }"

section \<open>Comparison of heaps\<close>

text \<open>The exit points of the heaps are passed along with them.\<close>

definition symheap_areEqual :: "back_trace option \<Rightarrow> back_trace option \<Rightarrow> symheap \<Rightarrow> symheap \<Rightarrow> (bool \<times> symheap \<times> symheap) option" where
  "symheap_areEqual exit1 exit2 sh1 sh2 =
     (if \<not> bt_areEqual exit1 exit2 then Some (False, sh1, sh2)
      else do {
        clt1 \<leftarrow> objEstimatedType OBJ_RETURN (core sh1);
        clt2 \<leftarrow> objEstimatedType OBJ_RETURN (core sh2);
        let wl = (if clt1 \<noteq> 0 \<or> clt2 \<noteq> 0 then snd (wl_schedule SchedQueue (OBJ_RETURN, OBJ_RETURN) wl_new) else wl_new);
        (ok, wl, sh1, sh2) \<leftarrow> traverseProgramVars2 (\<lambda>obj1 obj2 wl. snd (wl_schedule SchedQueue (obj1, obj2) wl)) wl sh1 sh2;
        if \<not> ok then Some (False, sh1, sh2)
        else do {
          (ok, wl, vMap, sh1, sh2) \<leftarrow> dfsCmp wl (\<lambda>_. None, \<lambda>_. None) sh1 sh2;
          if \<not> ok then Some (False, sh1, sh2)
          else do {
            (ok, h1, h2) \<leftarrow> matchPreds (core sh2) (fst vMap) False (core sh1);
            if \<not> ok then Some (False, sh1\<lparr>core := h1\<rparr>, sh2\<lparr>core := h2\<rparr>)
            else do {
              (ok, h2, h1) \<leftarrow> matchPreds h1 (snd vMap) False h2;
              Some (ok, sh1\<lparr>core := h1\<rparr>, sh2\<lparr>core := h2\<rparr>)
            }
          }
        }
      })"

section \<open>Heaps that are only read\<close>

text \<open>
  A comparison reads fields and translates value prototypes: it may create values, but objects and the values that
  are there stay what they are.
\<close>

definition reads :: "sheap \<Rightarrow> sheap \<Rightarrow> bool" where
  "reads h h' \<longleftrightarrow> roots_ok h' \<and> field_step h h' \<and>
     (\<forall>i v. getVal i h = Some v \<longrightarrow> (\<exists>v'. getVal i h' = Some v' \<and> val_same v v' \<and> addr_of v' = addr_of v))"

lemma readsD: "reads h h' \<Longrightarrow> getVal i h = Some v \<Longrightarrow> \<exists>v'. getVal i h' = Some v' \<and> val_same v v' \<and> addr_of v' = addr_of v"
  unfolding reads_def by blast

lemma reads_refl: "roots_ok h \<Longrightarrow> reads h h"
  by (auto simp: reads_def)

lemma reads_roots: "reads h h' \<Longrightarrow> roots_ok h'"
  by (simp add: reads_def)

lemma reads_trans:
  assumes "reads h1 h2" "reads h2 h3"
  shows "reads h1 h3"
  unfolding reads_def
proof (intro conjI allI impI)
  fix i v
  assume "getVal i h1 = Some v"
  from readsD [OF assms(1) this] readsD [OF assms(2)]
  show "\<exists>v'. getVal i h3 = Some v' \<and> val_same v v' \<and> addr_of v' = addr_of v" by (metis val_same_trans)
qed (use assms field_step_trans [of h1 h2 h3] in \<open>simp_all add: reads_def\<close>)

text \<open>Steps that leave the values alone.\<close>

lemma reads_same_vals:
  assumes "roots_ok h" "field_step h h'" "\<And>i. getVal i h' = getVal i h"
  shows "reads h h'"
  using assms by (auto simp: reads_def roots_ok_def field_step_def evolves_def)

lemma reads_one:
  assumes "roots_ok h"
  shows "getVal i h = Some v \<Longrightarrow> val_same v v' \<Longrightarrow> addr_of v' = addr_of v \<Longrightarrow> reads h (putEnt i (EntVal v') h)"
    "new_val_ok h v \<Longrightarrow> reads h (allocEnt (EntVal v) h)"
    "getRegion i h = Some r \<Longrightarrow> reg_same r r' \<Longrightarrow> reads h (putEnt i (EntRegion r') h)"
    "getBlock i h = Some b \<Longrightarrow> reads h (putEnt i (EntBlock b') h)"
    "getBlock i h = Some b \<Longrightarrow> reads h (releaseEnt i h)"
    "reads h (allocEnt (EntBlock b') h)"
    "reads h (h\<lparr>cValueMap := m, coinDb := c, neqDb := n\<rparr>)"
proof -
  have f: "fresh_ids h" using assms by (simp add: roots_ok_def)
  show "getVal i h = Some v \<Longrightarrow> val_same v v' \<Longrightarrow> addr_of v' = addr_of v \<Longrightarrow> reads h (putEnt i (EntVal v') h)"
    using roots_ok_putVal [OF assms, of i v v'] field_step_prims(1) [of i h v v'] by (auto simp: reads_def)
  show "new_val_ok h v \<Longrightarrow> reads h (allocEnt (EntVal v) h)"
    using roots_ok_alloc [OF assms, of v] field_step_prims(5) [of h v] fresh_ids_bounds(1) [OF f, of "entCnt h"]
    by (auto simp: reads_def)
  show "getRegion i h = Some r \<Longrightarrow> reg_same r r' \<Longrightarrow> reads h (putEnt i (EntRegion r') h)"
    by (rule reads_same_vals [OF assms]) (simp add: field_step_prims, simp only: getVal_others [OF f])
  show "getBlock i h = Some b \<Longrightarrow> reads h (putEnt i (EntBlock b') h)" "getBlock i h = Some b \<Longrightarrow> reads h (releaseEnt i h)"
    "reads h (allocEnt (EntBlock b') h)" "reads h (h\<lparr>cValueMap := m, coinDb := c, neqDb := n\<rparr>)"
    by (rule reads_same_vals [OF assms]; (simp add: field_step_prims; fail | simp only: getVal_others [OF f] | simp))+
qed

lemma reads_step: "reads h0 h \<Longrightarrow> (roots_ok h \<Longrightarrow> reads h h') \<Longrightarrow> reads h0 h'"
  using reads_trans reads_roots by blast

interpretation rd: block_ops_all "reads h0" for h0
  by unfold_locales
    (erule reads_step, rule reads_one, (assumption | (simp add: val_frame_def; fail))+)+

text \<open>The queries that give the same answer on a heap that has been read.\<close>

lemma reads_region:
  assumes "reads h h'" "roots_ok h" "getRegion i h = Some r"
  shows "\<exists>r'. getRegion i h' = Some r' \<and> reg_same r r'"
  using assms by (auto simp: reads_def field_step_def frame_objs_def roots_ok_def)

lemma reads_storOf: "reads h h' \<Longrightarrow> storOf h' = storOf h"
  by (simp add: reads_def field_step_def evolves_def)

lemma reads_obj:
  assumes "reads h h'" "roots_ok h" "getRegion i h = Some r"
  shows "objSize i h' = objSize i h" "objEstimatedType i h' = objEstimatedType i h" "isAnonStackObj i h' = isAnonStackObj i h"
    "objProtoLevel i h' = objProtoLevel i h" "isValid i h' = isValid i h"
  using reads_region [OF assms] assms(3)
  by (auto simp: objSize_def objEstimatedType_def isAnonStackObj_def objProtoLevel_def isValid_def isValidEnt_def reg_same_def
      getRegion_def split: if_splits option.splits)

lemma reads_objByAddr:
  assumes "reads h h'" "roots_ok h" "objByAddr v h = Some i"
  shows "objByAddr v h' = Some i"
proof (cases "v < VAL_NULL")
  case False
  with assms(3) obtain u where u: "getVal v h = Some u"
    and i: "if isAnyDataArea (val_code u) then \<exists>w ts. getVal (val_root u) h = Some w \<and> addr_of w = Some (i, ts) else i = OBJ_INVALID"
    by (auto simp: objByAddr_def rootAddr_def bind_eq_Some_conv split: if_splits)
  from readsD [OF assms(1) u] obtain u' where "getVal v h' = Some u'" "val_same u u'" by blast
  with u i readsD [OF assms(1), of "val_root u"] False show ?thesis
    by (fastforce simp: objByAddr_def rootAddr_def val_same_def split: if_splits)
qed (use assms in \<open>auto simp: objByAddr_def\<close>)

text \<open>The object behind a value is the one behind its root.\<close>

lemma objByAddr_of_root:
  assumes "roots_ok h" "valTarget v h = Some code" "isAnyDataArea code" "valRoot v h = Some root"
    and "objByAddr v h = Some i" "objByAddr root h = Some j"
  shows "j = i \<or> j = OBJ_INVALID"
proof -
  from assms(2,3) obtain u where u: "getVal v h = Some u" "val_code u = code" "0 \<le> v"
    by (auto simp: valTarget_def split: if_splits)
  from roots_okD [OF assms(1) u(1)] obtain r where "getVal (val_root u) h = Some r" "val_root r = val_root u" by blast
  with assms u show ?thesis
    by (auto simp: objByAddr_def rootAddr_def valRoot_def split: if_splits)
qed

section \<open>Invariant of the comparison\<close>

definition sreads :: "symheap \<Rightarrow> symheap \<Rightarrow> bool" where
  "sreads sh sh' \<longleftrightarrow> roots_ok (core sh) \<and> reads (core sh) (core sh') \<and> absRoots sh' = absRoots sh"

lemma sreads_refl: "roots_ok (core sh) \<Longrightarrow> sreads sh sh"
  by (simp add: sreads_def reads_refl)

lemma sreads_trans: "sreads a b \<Longrightarrow> sreads b c \<Longrightarrow> sreads a c"
  using reads_trans by (auto simp: sreads_def)

lemma sreads_core: "sreads a b \<Longrightarrow> reads (core b) c \<Longrightarrow> sreads a (b\<lparr>core := c\<rparr>)"
  using reads_trans by (auto simp: sreads_def)

lemma sreads_ok: "sreads a b \<Longrightarrow> roots_ok (core b)"
  using reads_roots by (auto simp: sreads_def)

lemma sreads_lift:
  "lift_core f sh = Some (x, sh') \<Longrightarrow> sreads a sh \<Longrightarrow>
   (\<And>y h'. f (core sh) = Some (y, h') \<Longrightarrow> reads (core sh) (core sh) \<Longrightarrow> reads (core sh) h') \<Longrightarrow> sreads a sh'"
  using sreads_ok reads_refl by (auto simp: lift_core_def intro!: sreads_core)

lemma sreads_lifts:
  "lift_core (valueOf fld) sh = Some (x, sh') \<Longrightarrow> sreads a sh \<Longrightarrow> sreads a sh'"
  "lift_core (fldHandle_new obj t off) sh = Some (x, sh') \<Longrightarrow> sreads a sh \<Longrightarrow> sreads a sh'"
  "lift_core (gatherLiveFields obj) sh = Some (flds, sh') \<Longrightarrow> sreads a sh \<Longrightarrow> sreads a sh'"
  by (erule (1) sreads_lift; erule (1) rd.P_valueOf rd.ops.P_fldHandle_new rd.ops.P_gatherLiveFields)+

lemma sreads_drops:
  "dropHandle fld sh = Some sh' \<Longrightarrow> sreads a sh \<Longrightarrow> sreads a sh'"
  "dropAll flds sh = Some sh' \<Longrightarrow> sreads a sh \<Longrightarrow> sreads a sh'"
  using sreads_ok reads_refl
  by (auto simp: dropHandle_def dropAll_def intro!: sreads_core intro: rd.ops.P_handleLeave rd.ops.P_dropHandles)

lemmas sreads_prims = sreads_lifts sreads_drops

lemma sreads_gatherItems: "gatherItems obj items sh = Some (items', sh') \<Longrightarrow> sreads a sh \<Longrightarrow> sreads a sh'"
  unfolding gatherItems_def by (elim heap_elims; hypsubst?; (assumption | elim sreads_prims)+)

lemma reads_coverUniBlocks:
  assumes "coverUniBlocks bMap root dst src = Some (ok, dst')" "reads h0 dst"
  shows "reads h0 dst'"
proof -
  have "reads h0 (snd (ok, dst'))"
    using assms(1) unfolding coverUniBlocks_def
    by (rule rd.P_ofold [where g = snd])
      (use assms(2) in \<open>auto simp: bind_eq_Some_conv split: if_splits intro: rd.ops.P_translateValProto\<close>)
  then show ?thesis by simp
qed

lemma sreads_matchUniBlocks:
  assumes "matchUniBlocks sh1 sh2 o1 o2 = Some (ok, sh1', sh2')" "sreads a sh1" "sreads b sh2"
  shows "sreads a sh1' \<and> sreads b sh2'"
  using assms(1) reads_coverUniBlocks [OF _ reads_refl [OF sreads_ok [OF assms(2)]]]
    reads_coverUniBlocks [OF _ reads_refl [OF sreads_ok [OF assms(3)]]]
  unfolding matchUniBlocks_def Let_def
  by (elim heap_elims Pair_inject; hypsubst?) (auto intro!: sreads_core assms(2,3))

text \<open>What the comparison establishes for a pair of objects.\<close>

definition objs_match :: "TObjId \<Rightarrow> TObjId \<Rightarrow> symheap \<Rightarrow> symheap \<Rightarrow> bool" where
  "objs_match o1 o2 sh1 sh2 \<longleftrightarrow> getRegion o1 (core sh1) \<noteq> None \<and> getRegion o2 (core sh2) \<noteq> None \<and>
     isValid o1 (core sh1) = isValid o2 (core sh2) \<and> matchRegions sh1 sh2 o1 o2 = Some True \<and>
     matchKinds sh1 sh2 o1 o2 = Some True"

lemma matchKinds_sreads: "sreads sh1 sh1' \<Longrightarrow> sreads sh2 sh2' \<Longrightarrow> matchKinds sh1' sh2' o1 o2 = matchKinds sh1 sh2 o1 o2"
  by (simp add: sreads_def matchKinds_def objKind_def segMinLength_def segBinding_def cong: if_cong)

lemma objs_match_sreads:
  assumes "sreads sh1 sh1'" "sreads sh2 sh2'" "objs_match o1 o2 sh1 sh2"
  shows "objs_match o1 o2 sh1' sh2'"
proof -
  from assms(3) obtain r1 r2 where r: "getRegion o1 (core sh1) = Some r1" "getRegion o2 (core sh2) = Some r2"
    by (auto simp: objs_match_def)
  have q1: "reads (core sh1) (core sh1')" "roots_ok (core sh1)" and q2: "reads (core sh2) (core sh2')" "roots_ok (core sh2)"
    using assms(1,2) by (auto simp: sreads_def)
  have "matchRegions sh1' sh2' o1 o2 = matchRegions sh1 sh2 o1 o2"
    by (simp add: matchRegions_def reads_obj [OF q1 r(1)] reads_obj [OF q2 r(2)] reads_storOf [OF q1(1)] cong: if_cong)
  with assms(3) reads_region [OF q1 r(1)] reads_region [OF q2 r(2)] matchKinds_sreads [OF assms(1,2)] show ?thesis
    by (auto simp: objs_match_def reads_obj [OF q1 r(1)] reads_obj [OF q2 r(2)])
qed

lemma matchRoots_spec:
  assumes "matchRoots sh1 sh2 root1 root2 = Some (ok, sh1', sh2')" "roots_ok (core sh1)" "roots_ok (core sh2)"
  shows "sreads sh1 sh1' \<and> sreads sh2 sh2' \<and> (ok \<longrightarrow> (\<exists>o1 o2. objByAddr root1 (core sh1) = Some o1 \<and> objByAddr root2 (core sh2) = Some o2 \<and>
      0 \<le> o1 \<and> 0 \<le> o2 \<and> (isValid o1 (core sh1) = isValid o2 (core sh2) \<longrightarrow> objs_match o1 o2 sh1 sh2)))"
proof -
  note refl = sreads_refl [OF assms(2)] sreads_refl [OF assms(3)]
  from assms(1) consider (differ) "\<not> ok" "sh1' = sh1" "sh2' = sh2"
    | (regions) o1 o2 okU where "objByAddr root1 (core sh1) = Some o1" "objByAddr root2 (core sh2) = Some o2"
      "matchRegions sh1 sh2 o1 o2 = Some True" "matchUniBlocks sh1 sh2 o1 o2 = Some (okU, sh1', sh2')"
      "ok \<longrightarrow> matchKinds sh1' sh2' o1 o2 = Some True"
    unfolding matchRoots_def by (elim heap_elims Pair_inject; hypsubst?) auto
  then show ?thesis
  proof cases
    case regions
    from sreads_matchUniBlocks [OF regions(4) refl] have s: "sreads sh1 sh1'" "sreads sh2 sh2'" by auto
    from regions(3) have "getRegion o1 (core sh1) \<noteq> None" "getRegion o2 (core sh2) \<noteq> None"
      by (auto simp: matchRegions_def objSize_def bind_eq_Some_conv split: if_splits)
    moreover from this have "0 \<le> o1" "0 \<le> o2"
      using assms(2,3) fresh_ids_bounds(3) by (auto simp: roots_ok_def)
    ultimately show ?thesis using s regions matchKinds_sreads [OF s] by (auto simp: objs_match_def)
  qed (use refl in auto)
qed

definition vmap_conv :: "val_map_bidir \<Rightarrow> bool" where
  "vmap_conv m \<longleftrightarrow> (\<forall>v1 v2. fst m v1 = Some v2 \<longleftrightarrow> snd m v2 = Some v1)"

lemma mapBidir_conv:
  assumes "mapBidir m v1 v2 = (ok, m')" "vmap_conv m"
  shows "vmap_conv m' \<and> (ok \<longrightarrow> fst m' v1 = Some v2) \<and> (\<forall>v. fst m v \<noteq> None \<longrightarrow> fst m' v = fst m v)"
proof -
  obtain l r where m: "m = (l, r)" by (cases m)
  have c: "l a = Some b \<longleftrightarrow> r b = Some a" for a b using assms(2) by (auto simp: vmap_conv_def m)
  show ?thesis
  proof (cases "l v1")
    case None
    show ?thesis
    proof (cases "r v2")
      case n: None
      have "l a \<noteq> Some v2" for a using n c by simp
      moreover have "r b \<noteq> Some v1" for b using None c [of v1 b] by simp
      ultimately show ?thesis using assms(1) None n c by (auto simp: mapBidir_def m vmap_conv_def split: if_splits)
    qed (use assms None c [of v1 v2] c [of _ v2] in \<open>auto simp: mapBidir_def m\<close>)
  qed (use assms in \<open>auto simp: mapBidir_def m\<close>)
qed

lemma matchPlainValues_conv:
  "matchPlainValues m sh1 sh2 v1 v2 = Some (ok, m') \<Longrightarrow> vmap_conv m \<Longrightarrow> vmap_conv m'"
  by (auto simp: matchPlainValues_def bind_eq_Some_conv split: if_splits dest: mapBidir_conv)

lemma cmpValues_spec:
  assumes c: "cmpValues m sh1 sh2 v1 v2 = Some (ok, follow, m', sh1', sh2')" and i: "vmap_conv m" "roots_ok (core sh1)" "roots_ok (core sh2)"
  shows "vmap_conv m' \<and> sreads sh1 sh1' \<and> sreads sh2 sh2' \<and>
    (ok \<and> follow \<longrightarrow> (\<exists>o1 o2. objByAddr v1 (core sh1') = Some o1 \<and> objByAddr v2 (core sh2') = Some o2 \<and> objs_match o1 o2 sh1' sh2'))"
proof -
  note refl = sreads_refl [OF i(2)] sreads_refl [OF i(3)]
  from c obtain okP where p: "matchPlainValues m sh1 sh2 v1 v2 = Some (okP, m')"
    unfolding cmpValues_def Let_def by (elim heap_elims Pair_inject; hypsubst?) auto
  from matchPlainValues_conv [OF p i(1)] have "vmap_conv m'" .
  moreover consider "sh1' = sh1" "sh2' = sh2" "\<not> (ok \<and> follow)"
    | code o1 o2 valid root1 root2 where "\<not> v1 \<le> 0" "objByAddr v1 (core sh1) = Some o1" "objByAddr v2 (core sh2) = Some o2"
      "isValid o1 (core sh1) = Some valid" "isValid o2 (core sh2) = Some valid"
      "valTarget v1 (core sh1) = Some code" "valTarget v2 (core sh2) = Some code" "isAnyDataArea code"
      "valRoot v1 (core sh1) = Some root1" "valRoot v2 (core sh2) = Some root2"
      "matchRoots sh1 sh2 root1 root2 = Some (ok, sh1', sh2')"
    using c unfolding cmpValues_def Let_def
    by (elim heap_elims Pair_inject; hypsubst?) auto
  then have "sreads sh1 sh1' \<and> sreads sh2 sh2' \<and>
    (ok \<and> follow \<longrightarrow> (\<exists>o1 o2. objByAddr v1 (core sh1') = Some o1 \<and> objByAddr v2 (core sh2') = Some o2 \<and> objs_match o1 o2 sh1' sh2'))"
  proof cases
    case (2 code o1 o2 valid root1 root2)
    from matchRoots_spec [OF 2(11) i(2,3)] have s: "sreads sh1 sh1'" "sreads sh2 sh2'"
      and m: "ok \<Longrightarrow> \<exists>o1 o2. objByAddr root1 (core sh1) = Some o1 \<and> objByAddr root2 (core sh2) = Some o2 \<and>
        0 \<le> o1 \<and> 0 \<le> o2 \<and> (isValid o1 (core sh1) = isValid o2 (core sh2) \<longrightarrow> objs_match o1 o2 sh1 sh2)" by auto
    have "objs_match o1 o2 sh1' sh2'" if ok
    proof -
      from m [OF that] obtain p1 p2 where q: "objByAddr root1 (core sh1) = Some p1" "objByAddr root2 (core sh2) = Some p2"
        "isValid p1 (core sh1) = isValid p2 (core sh2) \<longrightarrow> objs_match p1 p2 sh1 sh2" "0 \<le> p1" "0 \<le> p2" by blast
      have "p1 = o1" "p2 = o2"
        using objByAddr_of_root [OF i(2) 2(6,8,9,2) q(1)] objByAddr_of_root [OF i(3) 2(7,8,10,3) q(2)] q(4,5) by auto
      with q(3) 2(4,5) objs_match_sreads [OF s] show ?thesis by simp
    qed
    then show ?thesis
      using s reads_objByAddr [OF _ i(2) 2(2), of "core sh1'"] reads_objByAddr [OF _ i(3) 2(3), of "core sh2'"]
      by (auto simp: sreads_def)
  qed (use refl in auto)
  ultimately show ?thesis by blast
qed

definition cmp_inv :: "(TObjId \<times> TObjId) set \<Rightarrow> cmp_wl \<times> val_map_bidir \<Rightarrow> symheap \<Rightarrow> symheap \<Rightarrow> bool" where
  "cmp_inv S s sh1 sh2 \<longleftrightarrow> roots_ok (core sh1) \<and> roots_ok (core sh2) \<and> vmap_conv (snd s) \<and>
     (\<forall>(o1, o2) \<in> seen (fst s) - S. objs_match o1 o2 sh1 sh2)"

lemma cmp_inv_reads:
  assumes "cmp_inv S s sh1 sh2" "sreads sh1 sh1'" "sreads sh2 sh2'"
  shows "cmp_inv S s sh1' sh2'"
proof -
  have "roots_ok (core sh1')" "roots_ok (core sh2')" using sreads_ok assms(2,3) by blast+
  with assms(1) objs_match_sreads [OF assms(2,3)] show ?thesis unfolding cmp_inv_def by blast
qed

lemma seen_schedule: "seen (snd (wl_schedule k x wl)) = insert x (seen wl)"
  by (auto simp: wl_schedule_def)

lemma cmp_inv_valueComparator:
  assumes "valueComparator f1 f2 s sh1 sh2 = Some (ok, s', sh1', sh2')" "cmp_inv S s sh1 sh2"
  shows "cmp_inv S s' sh1' sh2' \<and> sreads sh1 sh1' \<and> sreads sh2 sh2'"
proof -
  obtain wl m where s: "s = (wl, m)" by (cases s)
  from assms(1) obtain v1 a v2 b okC follow m' where
    v: "lift_core (valueOf f1) sh1 = Some (v1, a)" "lift_core (valueOf f2) sh2 = Some (v2, b)"
    and c: "cmpValues m a b v1 v2 = Some (okC, follow, m', sh1', sh2')"
    and w: "s' = (wl, m') \<or> (okC \<and> follow \<and> (\<exists>o1 o2. objByAddr v1 (core sh1') = Some o1 \<and> objByAddr v2 (core sh2') = Some o2 \<and>
      s' = (snd (wl_schedule SchedQueue (o1, o2) wl), m')))"
    unfolding valueComparator_def s Let_def prod.case by (elim heap_elims Pair_inject; hypsubst?) auto
  have r: "sreads sh1 a" "sreads sh2 b"
    using sreads_lifts(1) [OF v(1)] sreads_lifts(1) [OF v(2)] assms(2) by (auto simp: cmp_inv_def intro: sreads_refl)
  from cmpValues_spec [OF c] sreads_ok [OF r(1)] sreads_ok [OF r(2)] assms(2)
  have q: "vmap_conv m'" "sreads a sh1'" "sreads b sh2'"
    "okC \<and> follow \<Longrightarrow> \<exists>o1 o2. objByAddr v1 (core sh1') = Some o1 \<and> objByAddr v2 (core sh2') = Some o2 \<and> objs_match o1 o2 sh1' sh2'"
    by (auto simp: cmp_inv_def s)
  have t: "sreads sh1 sh1'" "sreads sh2 sh2'" using sreads_trans r q(2,3) by blast+
  have "cmp_inv S (wl, m') sh1' sh2'"
    using cmp_inv_reads [OF assms(2) t] q(1) by (auto simp: cmp_inv_def s)
  with w q(4) have "cmp_inv S s' sh1' sh2'" by (fastforce simp: cmp_inv_def seen_schedule)
  with t show ?thesis by blast
qed

lemma cmp_inv_visitItem:
  assumes "visitItem valueComparator obj1 obj2 item (c, s, sh1, sh2) = Some (c', s', sh1', sh2')" "cmp_inv S s sh1 sh2"
  shows "cmp_inv S s' sh1' sh2'"
proof -
  have refl: "sreads sh1 sh1" "sreads sh2 sh2" using assms(2) by (auto simp: cmp_inv_def intro: sreads_refl)
  from assms(1) consider "s' = s" "sh1' = sh1" "sh2' = sh2"
    | off t f1 a f2 b a' b' where "lift_core (fldHandle_new obj1 t off) sh1 = Some (f1, a)" "lift_core (fldHandle_new obj2 t off) sh2 = Some (f2, b)"
      "valueComparator f1 f2 s a b = Some (c', s', a', b')" "dropHandle f1 a' = Some sh1'" "dropHandle f2 b' = Some sh2'"
    unfolding visitItem_def prod.case Let_def by (elim heap_elims Pair_inject; hypsubst?) auto
  then show ?thesis
  proof cases
    case 2
    have "cmp_inv S s a b"
      by (rule cmp_inv_reads [OF assms(2) sreads_lifts(2) [OF 2(1) refl(1)] sreads_lifts(2) [OF 2(2) refl(2)]])
    from cmp_inv_valueComparator [OF 2(3) this] have i: "cmp_inv S s' a' b'" by simp
    then have "sreads a' a'" "sreads b' b'" by (auto simp: cmp_inv_def intro: sreads_refl)
    from cmp_inv_reads [OF i sreads_drops(1) [OF 2(4) this(1)] sreads_drops(1) [OF 2(5) this(2)]] show ?thesis .
  qed (use assms(2) in simp)
qed

lemma cmp_inv_traverse:
  assumes "traverseLiveFields2 valueComparator obj1 obj2 s sh1 sh2 = Some (ok, s', sh1', sh2')" "cmp_inv S s sh1 sh2"
  shows "cmp_inv S s' sh1' sh2'"
proof -
  have refl: "sreads sh1 sh1" "sreads sh2 sh2" using assms(2) by (auto simp: cmp_inv_def intro: sreads_refl)
  from assms(1) obtain i1 a i2 b where g: "gatherItems obj1 {} sh1 = Some (i1, a)" "gatherItems obj2 i1 sh2 = Some (i2, b)"
    and l: "ofold (visitItem valueComparator obj1 obj2) (sorted_list_of_set i2) (True, s, a, b) = Some (ok, s', sh1', sh2')"
    unfolding traverseLiveFields2_def by (elim heap_elims Pair_inject; hypsubst?) blast
  have "cmp_inv S s a b"
    by (rule cmp_inv_reads [OF assms(2) sreads_gatherItems [OF g(1) refl(1)] sreads_gatherItems [OF g(2) refl(2)]])
  moreover have "case (ok, s', sh1', sh2') of (_, s, a, b) \<Rightarrow> cmp_inv S s a b"
    using l by (rule ofold_invariant) (use calculation in \<open>auto intro: cmp_inv_visitItem\<close>)
  ultimately show ?thesis by simp
qed

lemma cmp_inv_dfsCmp:
  assumes "dfsCmp wl m sh1 sh2 = Some y"
  shows "cmp_inv S (wl, m) sh1 sh2 \<longrightarrow> (case y of (ok, wl', m', sh1', sh2') \<Rightarrow> cmp_inv S (wl', m') sh1' sh2' \<and> (ok \<longrightarrow> wl_pending wl' = {}))"
proof (rule dfsCmp.raw_induct [OF _ assms])
  fix loop wl m sh1 sh2 y
  assume IH: "\<And>wl m sh1 sh2 y. loop wl m sh1 sh2 = Some y \<Longrightarrow> cmp_inv S (wl, m) sh1 sh2 \<longrightarrow>
      (case y of (ok, wl', m', sh1', sh2') \<Rightarrow> cmp_inv S (wl', m') sh1' sh2' \<and> (ok \<longrightarrow> wl_pending wl' = {}))"
    and step: "(case wl_next wl of
        None \<Rightarrow> Some (True, wl, m, sh1, sh2)
      | Some ((obj1, obj2), wl) \<Rightarrow> do {
          (ok, (wl, vMap), sh1, sh2) \<leftarrow> traverseLiveFields2 valueComparator obj1 obj2 (wl, m) sh1 sh2;
          if \<not> ok then Some (False, wl, vMap, sh1, sh2)
          else loop wl vMap sh1 sh2
        }) = Some y"
  show "cmp_inv S (wl, m) sh1 sh2 \<longrightarrow> (case y of (ok, wl', m', sh1', sh2') \<Rightarrow> cmp_inv S (wl', m') sh1' sh2' \<and> (ok \<longrightarrow> wl_pending wl' = {}))"
  proof (rule impI, cases "wl_next wl")
    case None
    assume "cmp_inv S (wl, m) sh1 sh2"
    with None step show "case y of (ok, wl', m', sh1', sh2') \<Rightarrow> cmp_inv S (wl', m') sh1' sh2' \<and> (ok \<longrightarrow> wl_pending wl' = {})"
      by (auto simp: wl_next_def wl_pending_def split: list.splits)
  next
    case (Some item)
    assume i: "cmp_inv S (wl, m) sh1 sh2"
    from Some step obtain obj1 obj2 wl1 ok wl2 m2 a b where n: "wl_next wl = Some ((obj1, obj2), wl1)"
      and t: "traverseLiveFields2 valueComparator obj1 obj2 (wl1, m) sh1 sh2 = Some (ok, (wl2, m2), a, b)"
      and r: "(if \<not> ok then Some (False, wl2, m2, a, b) else loop wl2 m2 a b) = Some y"
      by (cases item) (auto simp: bind_eq_Some_conv)
    from n have "seen wl1 = seen wl" by (auto simp: wl_next_def split: list.splits)
    with i have "cmp_inv S (wl1, m) sh1 sh2" by (simp add: cmp_inv_def)
    from cmp_inv_traverse [OF t this] r IH [of wl2 m2 a b y]
    show "case y of (ok, wl', m', sh1', sh2') \<Rightarrow> cmp_inv S (wl', m') sh1' sh2' \<and> (ok \<longrightarrow> wl_pending wl' = {})"
      by (cases ok) auto
  qed
qed

section \<open>Property\<close>

text \<open>
  C5: when the parallel traversal of two heaps succeeds, nothing is left to be compared, the values met are mapped to
  each other one to one, and every pair of objects it has reached through pointers agrees in size, nesting level,
  validity, kind and, for abstract objects, in minimal length.
\<close>

theorem dfsCmp_isomorphic:
  assumes "roots_ok (core sh1)" "roots_ok (core sh2)"
    and "dfsCmp wl (\<lambda>_. None, \<lambda>_. None) sh1 sh2 = Some (True, wl', vMap, sh1', sh2')"
  shows "wl_pending wl' = {} \<and> (\<forall>v1 v2. fst vMap v1 = Some v2 \<longleftrightarrow> snd vMap v2 = Some v1) \<and>
    (\<forall>(o1, o2) \<in> seen wl' - seen wl. objSize o1 (core sh1') = objSize o2 (core sh2') \<and>
       objProtoLevel o1 (core sh1') = objProtoLevel o2 (core sh2') \<and> isValid o1 (core sh1') = isValid o2 (core sh2') \<and>
       objKind o1 sh1' = objKind o2 sh2' \<and> (isAbstractObject o1 sh1' \<longrightarrow> segMinLength o1 sh1' = segMinLength o2 sh2'))"
proof -
  have "cmp_inv (seen wl) (wl, (\<lambda>_. None, \<lambda>_. None)) sh1 sh2" using assms(1,2) by (simp add: cmp_inv_def vmap_conv_def)
  with cmp_inv_dfsCmp [OF assms(3), of "seen wl"]
  have i: "wl_pending wl' = {}" "vmap_conv vMap" "\<forall>(o1, o2) \<in> seen wl' - seen wl. objs_match o1 o2 sh1' sh2'"
    by (auto simp: cmp_inv_def)
  have "objSize o1 (core sh1') = objSize o2 (core sh2') \<and>
       objProtoLevel o1 (core sh1') = objProtoLevel o2 (core sh2') \<and> isValid o1 (core sh1') = isValid o2 (core sh2') \<and>
       objKind o1 sh1' = objKind o2 sh2' \<and> (isAbstractObject o1 sh1' \<longrightarrow> segMinLength o1 sh1' = segMinLength o2 sh2')"
    if "objs_match o1 o2 sh1' sh2'" for o1 o2
    using that by (auto simp: objs_match_def matchRegions_def matchKinds_def Let_def isAbstractObject_def bind_eq_Some_conv split: if_splits)
  with i show ?thesis unfolding vmap_conv_def by blast
qed

text \<open>Two heap objects, the first one with a pointer to the second one.\<close>

definition wit_ptr_prog :: stor where
  "wit_ptr_prog = wit_stor\<lparr>stor_types := [(5, \<lparr>clt_uid = 5, clt_code = CL_TYPE_INT, clt_size = 4, clt_items = [], clt_is_unsigned = False\<rparr>),
     (6, \<lparr>clt_uid = 6, clt_code = CL_TYPE_PTR, clt_size = 8, clt_items = [\<lparr>item_type = 5, item_name = None, item_offset = 0\<rparr>], clt_is_unsigned = False\<rparr>)]\<rparr>"

definition wit_ptr_run :: "(TFldId \<times> sheap) option" where
  "wit_ptr_run = do {
     (a, h) \<leftarrow> heapAlloc (rngFromNum 8) (initial_heap wit_ptr_prog True);
     (b, h) \<leftarrow> heapAlloc (rngFromNum 8) h;
     (fld, h) \<leftarrow> fldHandle_new a 6 0 h;
     (val, h) \<leftarrow> addrOfTarget b TS_REGION 0 h;
     (_, h) \<leftarrow> setValOfField fld val None h;
     Some (fld, h)
   }"

definition wit_cmp :: symheap where
  "wit_cmp = \<lparr>core = snd (the wit_ptr_run), absRoots = (\<lambda>_. None)\<rparr>"

lemma wit_cmp_roots: "roots_ok (core wit_cmp)"
proof -
  have "case wit_ptr_run of Some _ \<Rightarrow> True | None \<Rightarrow> False" by code_simp
  then obtain fld h where r: "wit_ptr_run = Some (fld, h)" by (auto split: option.splits)
  then obtain a h1 b h2 h3 val h4 kp where e: "heapAlloc (rngFromNum 8) (initial_heap wit_ptr_prog True) = Some (a, h1)"
    "heapAlloc (rngFromNum 8) h1 = Some (b, h2)" "fldHandle_new a 6 0 h2 = Some (fld, h3)"
    "addrOfTarget b TS_REGION 0 h3 = Some (val, h4)" "setValOfField fld val None h4 = Some (kp, h)"
    unfolding wit_ptr_run_def by (elim heap_elims; hypsubst?) blast
  have "roots_ok h2" by (rule ro.P_heapAlloc [OF e(2) ro.P_heapAlloc [OF e(1) roots_ok_initial]])
  moreover have "field_step h2 h" using e(3-) by (elim fs.P_setValOfField fs.P_addrOfTarget fs.ops.P_fldHandle_new) simp
  ultimately show ?thesis by (simp add: wit_cmp_def r field_step_def)
qed

theorem dfsCmp_isomorphic_witness:
  "case dfsCmp (snd (wl_schedule SchedQueue (4, 4) wl_new)) (\<lambda>_. None, \<lambda>_. None) wit_cmp wit_cmp of
     Some (ok, wl, _, sh1, sh2) \<Rightarrow> ok \<and> (5, 5) \<in> seen wl \<and> objSize 5 (core sh1) = objSize 5 (core sh2)
   | None \<Rightarrow> False"
proof -
  let ?wl = "snd (wl_schedule SchedQueue (4, 4) wl_new)"
  have "case dfsCmp ?wl (\<lambda>_. None, \<lambda>_. None) wit_cmp wit_cmp of Some (ok, wl, _) \<Rightarrow> ok \<and> (5, 5) \<in> seen wl | None \<Rightarrow> False"
    by code_simp
  then obtain wl m a b where d: "dfsCmp ?wl (\<lambda>_. None, \<lambda>_. None) wit_cmp wit_cmp = Some (True, wl, m, a, b)" and s: "(5, 5) \<in> seen wl"
    by (auto split: option.splits)
  have "(5, 5) \<in> seen wl - seen ?wl" using s by (simp add: wl_schedule_def wl_new_def)
  with dfsCmp_isomorphic [OF wit_cmp_roots wit_cmp_roots d] have "objSize 5 (core a) = objSize 5 (core b)" by blast
  with d s show ?thesis by simp
qed

end
