(* ===== verification/SymAbstract.thy ===== *)
theory SymAbstract
  imports SymRuns IdMapper
begin

text \<open>
  Concretisation of abstract objects (\<open>src/sl/symabstract.cc\<close>): a list segment is unfolded into a region and the
  remaining segment, a possibly empty one is spliced out in a copy of the heap.  The operations record in the id
  mapper of their trace node which object stands for which; the mapper is an argument and a result of the model.
  The checks that the code runs in its assertions are part of the model, since they read fields of the heap.
\<close>

section \<open>Checks\<close>

definition assertSegs :: "symheap \<Rightarrow> symheap option" where
  "assertSegs sh = do { (ok, sh) \<leftarrow> segCheckConsistency sh; cl_break_if (\<not> ok); Some sh }"

definition assertProtos :: "symheap \<Rightarrow> symheap option" where
  "assertProtos sh = do { (ok, sh) \<leftarrow> protoCheckConsistency sh; cl_break_if (\<not> ok); Some sh }"

definition mapId :: "int \<Rightarrow> int \<Rightarrow> id_mapper \<Rightarrow> id_mapper option" where
  "mapId a b m = map_option snd (idm_insert a b m)"

section \<open>Cloning of segments and prototypes\<close>

definition unknownValuesDuplicator :: "TFldId list \<Rightarrow> TFldId \<Rightarrow> unit \<Rightarrow> symheap \<Rightarrow> (bool \<times> unit \<times> symheap) option" where
  "unknownValuesDuplicator ignoreList fld u sh =
     (if fld \<in> set ignoreList then Some (True, u, sh)
      else do {
        (valOld, sh) \<leftarrow> lift_core (valueOf fld) sh;
        if valOld \<le> 0 then Some (True, u, sh)
        else do {
          code \<leftarrow> valTarget valOld (core sh);
          cl_break_if (code \<in> {VT_INVALID, VT_COMPOSITE});
          if code \<noteq> VT_UNKNOWN then Some (True, u, sh)
          else do {
            (valNew, sh) \<leftarrow> lift_core (\<lambda>h. translateValProto valOld h h) sh;
            (_, sh) \<leftarrow> lift_core (setValOfField fld valNew None) sh;
            Some (True, u, sh)
          }
        }
      })"

definition duplicateUnknownValues :: "TObjId \<Rightarrow> symheap \<Rightarrow> symheap option" where
  "duplicateUnknownValues obj sh = do {
     (ignoreList, sh) \<leftarrow> buildIgnoreList obj sh;
     (_, _, sh) \<leftarrow> traverseLiveFields (unknownValuesDuplicator ignoreList) obj () sh;
     dropAll ignoreList sh
   }"

definition redirect :: "TObjId \<Rightarrow> TObjId \<Rightarrow> ETargetSpecifier \<Rightarrow> TObjId \<Rightarrow> ETargetSpecifier \<Rightarrow> TOffset \<Rightarrow> symheap \<Rightarrow> symheap option" where
  "redirect from to with redirectTo redirectWith off sh =
     map_option snd (lift_core (redirectRefs from to with redirectTo redirectWith off) sh)"

definition protoClone :: "TObjId \<Rightarrow> symheap \<Rightarrow> (TObjId \<times> symheap) option" where
  "protoClone proto sh = do {
     (clone, sh) \<leftarrow> objClone proto sh;
     sh \<leftarrow> objDecrementProtoLevel clone sh;
     sh \<leftarrow> redirect clone proto TS_INVALID clone TS_INVALID 0 sh;
     sh \<leftarrow> (if OK_REGION = objKind proto sh then duplicateUnknownValues clone sh else Some sh);
     Some (clone, sh)
   }"

definition reconnectProto :: "TObjId \<Rightarrow> TObjId \<Rightarrow> TObjId \<Rightarrow> TObjId \<Rightarrow> ETargetSpecifier \<Rightarrow> symheap \<Rightarrow> symheap option" where
  "reconnectProto proto clone ownerSrc ownerDst tsTarget sh = do {
     sh \<leftarrow> redirect ownerDst proto TS_INVALID clone TS_INVALID 0 sh;
     redirect clone ownerSrc TS_INVALID ownerDst tsTarget 0 sh
   }"

text \<open>The prototypes cloned so far are kept with their clones, in the order of the lists of the code.\<close>

definition clonePrototypes :: "TObjId \<Rightarrow> TObjId \<Rightarrow> TObjId set \<Rightarrow> id_mapper \<times> symheap \<Rightarrow> (id_mapper \<times> symheap) option" where
  "clonePrototypes objDst objSrc protos s = do {
     (_, idMapper, sh) \<leftarrow> ofold (\<lambda>protoI (cloned, idMapper, sh). do {
         (cloneI, sh) \<leftarrow> protoClone protoI sh;
         idMapper \<leftarrow> mapId protoI protoI idMapper;
         idMapper \<leftarrow> mapId protoI cloneI idMapper;
         sh \<leftarrow> reconnectProto protoI cloneI objSrc objDst TS_REGION sh;
         sh \<leftarrow> ofold (\<lambda>(protoJ, cloneJ). reconnectProto protoI cloneI protoJ cloneJ TS_INVALID) cloned sh;
         Some (cloned @ [(protoI, cloneI)], idMapper, sh)
       }) (sorted_list_of_set protos) ([], s);
     Some (idMapper, sh)
   }"

definition regFromSegDeep :: "TObjId \<Rightarrow> id_mapper \<times> symheap \<Rightarrow> (TObjId \<times> id_mapper \<times> symheap) option" where
  "regFromSegDeep seg = (\<lambda>(idMapper, sh). do {
     (_, protoList, sh) \<leftarrow> collectPrototypesOf {} seg sh;
     (reg, sh) \<leftarrow> objClone seg sh;
     sh \<leftarrow> objSetConcrete reg sh;
     idMapper \<leftarrow> mapId seg seg idMapper;
     idMapper \<leftarrow> mapId seg reg idMapper;
     sh \<leftarrow> redirect reg seg TS_ALL reg TS_REGION 0 sh;
     sh \<leftarrow> duplicateUnknownValues reg sh;
     (idMapper, sh) \<leftarrow> clonePrototypes reg seg protoList (idMapper, sh);
     Some (reg, idMapper, sh)
   })"

section \<open>Splicing out\<close>

definition dlSegReplaceByConcrete :: "TObjId \<Rightarrow> symheap \<Rightarrow> symheap option" where
  "dlSegReplaceByConcrete obj sh = do {
     cl_break_if (OK_DLS \<noteq> objKind obj sh);
     sh \<leftarrow> assertSegs sh;
     sh \<leftarrow> assertProtos sh;
     sh \<leftarrow> redirect OBJ_INVALID obj TS_INVALID obj TS_REGION 0 sh;
     sh \<leftarrow> objSetConcrete obj sh;
     sh \<leftarrow> assertSegs sh;
     assertProtos sh
   }"

fun spliceOutTarget :: "EObjKind \<Rightarrow> ETargetSpecifier option" where
  "spliceOutTarget OK_REGION = None"
| "spliceOutTarget OK_SLS = Some TS_FIRST"
| "spliceOutTarget OK_DLS = Some TS_FIRST"
| "spliceOutTarget _ = Some TS_REGION"

definition mapIfValid :: "TObjId \<Rightarrow> TObjId \<Rightarrow> symheap \<Rightarrow> id_mapper \<Rightarrow> id_mapper option" where
  "mapIfValid seg obj sh idMap = do {
     valid \<leftarrow> isValid obj (core sh);
     if valid then do { idMap \<leftarrow> mapId seg obj idMap; mapId obj obj idMap } else Some idMap
   }"

text \<open>The redirection of the references to the end of a doubly linked segment.\<close>

definition spliceOutPrev :: "TObjId \<Rightarrow> TOffset \<Rightarrow> id_mapper \<times> symheap \<Rightarrow> (id_mapper \<times> symheap) option" where
  "spliceOutPrev seg offHead = (\<lambda>(idMap, sh). do {
     (prevPtr, sh) \<leftarrow> prevPtrFromSeg seg sh;
     (valPrev, sh) \<leftarrow> lift_core (valueOf prevPtr) sh;
     objPrev \<leftarrow> objByAddr valPrev (core sh);
     ts \<leftarrow> targetSpec valPrev (core sh);
     off \<leftarrow> valOffset valPrev (core sh);
     sh \<leftarrow> redirect OBJ_INVALID seg TS_LAST objPrev ts (off - offHead) sh;
     idMap \<leftarrow> mapIfValid seg objPrev sh idMap;
     sh \<leftarrow> dropHandle prevPtr sh;
     Some (idMap, sh)
   })"

definition spliceOutListSegment :: "TObjId \<Rightarrow> TObjId set \<Rightarrow> id_mapper \<Rightarrow> symheap \<Rightarrow> (TObjId set \<times> id_mapper \<times> symheap) option" where
  "spliceOutListSegment seg leakObjs idMap sh = do {
     len \<leftarrow> objMinLength seg sh;
     cl_break_if (len \<noteq> 0);
     (valNext, sh) \<leftarrow> nextValFromSeg seg sh;
     objNext \<leftarrow> objByAddr valNext (core sh);
     offHead \<leftarrow> headOffset seg sh;
     idMap \<leftarrow> mapIfValid seg objNext sh idMap;
     let kind = objKind seg sh;
     (idMap, sh) \<leftarrow> (if OK_DLS = kind then spliceOutPrev seg offHead (idMap, sh) else Some (idMap, sh));
     ts \<leftarrow> spliceOutTarget kind;
     tsNext \<leftarrow> targetSpec valNext (core sh);
     offNext \<leftarrow> valOffset valNext (core sh);
     sh \<leftarrow> redirect OBJ_INVALID seg ts objNext tsNext (offNext - offHead) sh;
     (_, leakObjs, sh) \<leftarrow> collectSharedJunk seg leakObjs sh;
     (_, _, sh) \<leftarrow> collectJunk seg {} sh;
     Some (leakObjs, idMap, sh)
   }"

text \<open>The remaining minimal length, the scheduled heaps and the leaking objects; the heap itself is not changed.\<close>

definition spliceOutSegmentIfNeeded :: "TObjId \<Rightarrow> symheap list \<Rightarrow> TObjId set \<Rightarrow> symheap \<Rightarrow> (int \<times> symheap list \<times> TObjId set) option" where
  "spliceOutSegmentIfNeeded seg sched leakObjs sh = do {
     len \<leftarrow> segMinLength seg sh;
     if 0 < len then Some (len - 1, sched, leakObjs)
     else do {
       (leakObjs, _, sh0) \<leftarrow> spliceOutListSegment seg leakObjs (idm_new NFA_RETURN_IDENTITY) sh;
       Some (0, sched @ [sh0], leakObjs)
     }
   }"

section \<open>Concretisation\<close>

definition assignPtr :: "TFldId \<Rightarrow> TValId \<Rightarrow> symheap \<Rightarrow> symheap option" where
  "assignPtr fld val sh = map_option snd (lift_core (setValOfField fld val None) sh)"

text \<open>The pointer back from the rest of a doubly linked segment to the new region.\<close>

definition concretizePrev :: "TObjId \<Rightarrow> TObjId \<Rightarrow> ETargetSpecifier \<Rightarrow> TOffset \<Rightarrow> symheap \<Rightarrow> symheap option" where
  "concretizePrev seg reg ts offHead sh = do {
     (prev, sh) \<leftarrow> (if TS_FIRST = ts then prevPtrFromSeg seg sh else nextPtrFromSeg seg sh);
     (headAddr, sh) \<leftarrow> lift_core (addrOfTarget reg TS_REGION offHead) sh;
     sh \<leftarrow> assignPtr prev headAddr sh;
     sh \<leftarrow> assertSegs sh;
     dropHandle prev sh
   }"

text \<open>A segment whose next pointer led to itself.\<close>

definition recoverSelfLoop :: "TObjId \<Rightarrow> TObjId \<Rightarrow> TFldId \<Rightarrow> symheap \<Rightarrow> symheap option" where
  "recoverSelfLoop seg reg nextNextPtr sh = do {
     (nextNextVal, sh) \<leftarrow> lift_core (valueOf nextNextPtr) sh;
     nextNextObj \<leftarrow> objByAddr nextNextVal (core sh);
     if nextNextObj = seg then do {
       off \<leftarrow> valOffset nextNextVal (core sh);
       (addr, sh) \<leftarrow> lift_core (addrOfTarget reg TS_REGION off) sh;
       assignPtr nextNextPtr addr sh
     }
     else Some sh
   }"

text \<open>The part of \<open>concretizeObj\<close> that deals with list segments.\<close>

definition concretizeSeg :: "TObjId \<Rightarrow> ETargetSpecifier \<Rightarrow> int \<Rightarrow> id_mapper \<times> symheap \<Rightarrow> (TObjId \<times> id_mapper \<times> symheap) option" where
  "concretizeSeg seg ts len s = do {
     let kind = objKind seg (snd s);
     (reg, idMapper, sh) \<leftarrow> regFromSegDeep seg s;
     sh \<leftarrow> redirect OBJ_INVALID seg ts reg TS_REGION 0 sh;
     off \<leftarrow> segBinding seg sh;
     let offNext = (if TS_FIRST = ts then bo_next off else bo_prev off);
     (segHead, sh) \<leftarrow> segHeadAt seg ts sh;
     (nextPtr, sh) \<leftarrow> lift_core (ptrHandle_new reg offNext) sh;
     sh \<leftarrow> assignPtr nextPtr segHead sh;
     sh \<leftarrow> (if OK_DLS = kind then concretizePrev seg reg ts (bo_head off) sh else Some sh);
     (nextNextPtr, sh) \<leftarrow> nextPtrFromSeg seg sh;
     sh \<leftarrow> recoverSelfLoop seg reg nextNextPtr sh;
     sh \<leftarrow> segSetMinLength seg len sh;
     sh \<leftarrow> assertProtos sh;
     sh \<leftarrow> dropHandle nextNextPtr sh;
     sh \<leftarrow> dropHandle nextPtr sh;
     Some (reg, idMapper, sh)
   }"

text \<open>
  The result: the region a segment has been unfolded to, if any, the scheduled heaps, the leaking objects, the id
  mapper and the heap.
\<close>

definition concretizeObj :: "TObjId \<Rightarrow> ETargetSpecifier \<Rightarrow> symheap list \<Rightarrow> TObjId set \<Rightarrow> symheap \<Rightarrow>
    (TObjId option \<times> symheap list \<times> TObjId set \<times> id_mapper \<times> symheap) option" where
  "concretizeObj seg ts sched leakObjs sh = do {
     sh \<leftarrow> assertProtos sh;
     cl_break_if (TS_ALL = ts);
     (len, sched, leakObjs) \<leftarrow> spliceOutSegmentIfNeeded seg sched leakObjs sh;
     let idMapper = idm_new NFA_RETURN_IDENTITY;
     if isMayExistObj (objKind seg sh) then do {
       sh \<leftarrow> objSetConcrete seg sh;
       sh \<leftarrow> decrementProtoLevel seg sh;
       sh \<leftarrow> assertProtos sh;
       Some (None, sched, leakObjs, idMapper, sh)
     }
     else do {
       (reg, idMapper, sh) \<leftarrow> concretizeSeg seg ts len (idMapper, sh);
       Some (Some reg, sched, leakObjs, idMapper, sh)
     }
   }"

section \<open>The operations as runs\<close>

lemma hops:
  "valueOf fld h = Some (x, h') \<Longrightarrow> heap_op\<^sup>*\<^sup>* h0 h \<Longrightarrow> heap_op\<^sup>*\<^sup>* h0 h'"
  "addrOfTarget obj ts off h = Some (x, h') \<Longrightarrow> heap_op\<^sup>*\<^sup>* h0 h \<Longrightarrow> heap_op\<^sup>*\<^sup>* h0 h'"
  "valByRange val rng h = Some (x, h') \<Longrightarrow> heap_op\<^sup>*\<^sup>* h0 h \<Longrightarrow> heap_op\<^sup>*\<^sup>* h0 h'"
  "valByOffset val off h = Some (x, h') \<Longrightarrow> heap_op\<^sup>*\<^sup>* h0 h \<Longrightarrow> heap_op\<^sup>*\<^sup>* h0 h'"
  "setValOfField fld val kp h = Some (kp', h') \<Longrightarrow> heap_op\<^sup>*\<^sup>* h0 h \<Longrightarrow> heap_op\<^sup>*\<^sup>* h0 h'"
  "pointedBy obj h = Some (refs, h') \<Longrightarrow> heap_op\<^sup>*\<^sup>* h0 h \<Longrightarrow> heap_op\<^sup>*\<^sup>* h0 h'"
  "dropHandles refs h = Some h' \<Longrightarrow> heap_op\<^sup>*\<^sup>* h0 h \<Longrightarrow> heap_op\<^sup>*\<^sup>* h0 h'"
  "translateValProto val h src = Some (x, h') \<Longrightarrow> heap_op\<^sup>*\<^sup>* h0 h \<Longrightarrow> heap_op\<^sup>*\<^sup>* h0 h'"
  by (auto simp: translateValProto_def bind_eq_Some_conv split: if_splits dest!: heap_op_dropHandles
      intro: rtranclp.rtrancl_into_rtrancl heap_op.intros)

lemma heap_op_redirectRefs:
  assumes "redirectRefs from to w rt rw off h = Some (b, h')" "heap_op\<^sup>*\<^sup>* h0 h"
  shows "heap_op\<^sup>*\<^sup>* h0 h'"
  using assms unfolding redirectRefs_def Let_def
  apply (elim bind_SomeE prod_SomeE pair_SomeE; hypsubst)
  apply (erule hops(7))
  apply (drule ofold_invariant [where P = "\<lambda>s. heap_op\<^sup>*\<^sup>* h0 (snd s)"])
    apply (simp, erule (1) hops)
   apply (elim heap_elims; hypsubst?; simp?; elim hops)
     apply (auto elim!: hops split: if_splits)
  done

lemma spliceOutSegmentIfNeeded_len:
  assumes "spliceOutSegmentIfNeeded seg dst l sh = Some (len, dst', l')"
  shows "0 \<le> len \<and> (\<exists>n. segMinLength seg sh = Some n \<and> len = (if 0 < n then n - 1 else 0) \<and>
    length dst' = length dst + (if 0 < n then 0 else 1))"
proof -
  from assms obtain n where n: "segMinLength seg sh = Some n"
    and r: "(if 0 < n then Some (n - 1, dst, l) else do {
       (leakObjs, _, sh0) \<leftarrow> spliceOutListSegment seg l (idm_new NFA_RETURN_IDENTITY) sh;
       Some (0, dst @ [sh0], leakObjs)
     }) = Some (len, dst', l')"
    unfolding spliceOutSegmentIfNeeded_def by (elim bind_SomeE) blast
  show ?thesis
  proof (cases "0 < n")
    case False
    with r show ?thesis using n by (auto simp: bind_eq_Some_conv)
  qed (use r n in auto)
qed

context core_ops begin

lemma P_redirect: "redirect from to w rt rw off sh = Some sh' \<Longrightarrow> P sh \<Longrightarrow> P sh'"
  by (auto simp: redirect_def lift_core_def intro!: P_core elim: heap_op_redirectRefs)

lemma P_assignPtr: "assignPtr fld val sh = Some sh' \<Longrightarrow> P sh \<Longrightarrow> P sh'"
  by (auto simp: assignPtr_def lift_core_def intro!: P_core elim: hops)

lemma P_lifts_more:
  "lift_core (addrOfTarget obj ts off) sh = Some (x, sh') \<Longrightarrow> P sh \<Longrightarrow> P sh'"
  "lift_core (\<lambda>h. translateValProto val h h) sh = Some (x, sh') \<Longrightarrow> P sh \<Longrightarrow> P sh'"
  "lift_core (setValOfField fld val kp) sh = Some (kp', sh') \<Longrightarrow> P sh \<Longrightarrow> P sh'"
  by (erule P_lift, erule hops, simp, assumption)+

lemma P_segHeadAt: "segHeadAt seg ts sh = Some (x, sh') \<Longrightarrow> P sh \<Longrightarrow> P sh'"
  by (auto simp: segHeadAt_def bind_eq_Some_conv elim: P_lifts_more)

text \<open>The checks.\<close>

lemma P_segCheckObject: "segCheckObject seg sh = Some (b, sh') \<Longrightarrow> P sh \<Longrightarrow> P sh'"
proof -
  assume a: "segCheckObject seg sh = Some (b, sh')" "P sh"
  have nx: "P t" if "segHasTarget (nextValFromSeg seg) s = Some (c, t)" "P s" for c s t
    using that by (auto simp: segHasTarget_def bind_eq_Some_conv elim: P_nextValFromSeg)
  have pv: "P t" if "segHasTarget (\<lambda>sh. do {
            (ptr, sh) \<leftarrow> prevPtrFromSeg seg sh;
            (val, sh) \<leftarrow> lift_core (valueOf ptr) sh;
            sh \<leftarrow> dropHandle ptr sh;
            Some (val, sh)
          }) s = Some (c, t)" "P s" for c s t
    using that by (auto simp: segHasTarget_def bind_eq_Some_conv dest: P_segPtrs P_prims)
  from a show "P sh'"
    unfolding segCheckObject_def Let_def
    by (elim bind_SomeE prod_SomeE) (auto split: if_splits dest: nx pv)
qed

lemma P_protoCheckObject:
  assumes "protoCheckObject obj sh = Some (b, sh')" "P sh"
  shows "P sh'"
proof (cases "OK_REGION = objKind obj sh")
  case True
  with assms(1) obtain lv ptrs sh1 sh2 f where g: "lift_core (gatherLiveFields obj) sh = Some (ptrs, sh1)"
    and l: "ofold (\<lambda>fld (ok, sh).
            if \<not> ok then Some (ok, sh)
            else do {
              (val, sh) \<leftarrow> lift_core (valueOf fld) sh;
              sub \<leftarrow> objByAddr val (core sh);
              if OBJ_INVALID = sub then Some (True, sh)
              else do { level \<leftarrow> objProtoLevel sub (core sh); Some (level \<le> lv, sh) }
            }) ptrs (True, sh1) = Some (b, sh2)" and d: "dropAll ptrs sh2 = Some sh'"
    unfolding protoCheckObject_def by (elim heap_elims; hypsubst?) auto
  have "P (snd (b, sh2))"
    by (rule P_ofold [OF l, where g = snd])
      (use P_lifts(4) [OF g assms(2)] in \<open>auto simp: bind_eq_Some_conv split: if_splits intro: P_lifts\<close>)
  then show ?thesis using P_drops(2) [OF d] by simp
qed (use assms in \<open>auto simp: protoCheckObject_def\<close>)

lemma P_checks: "assertSegs sh = Some sh' \<Longrightarrow> P sh \<Longrightarrow> P sh'" "assertProtos sh = Some sh' \<Longrightarrow> P sh \<Longrightarrow> P sh'"
proof -
  have loop: "P v" if "ofold (\<lambda>x (ok, sh). if \<not> ok then Some (ok, sh) else f x sh) xs (True, u) = Some (b, v)" "P u"
    "\<And>x s b t. f x s = Some (b, t) \<Longrightarrow> P s \<Longrightarrow> P t" for f xs u b v
  proof -
    have "P (snd (b, v))"
      by (rule P_ofold [OF that(1), where g = snd]) (use that(2,3) in \<open>auto split: if_splits\<close>)
    then show ?thesis by simp
  qed
  show "P sh'" if "assertSegs sh = Some sh'" "P sh"
    using that unfolding assertSegs_def segCheckConsistency_def
    by (elim heap_elims; hypsubst?) (erule (1) loop, erule (1) P_segCheckObject)
  show "P sh'" if "assertProtos sh = Some sh'" "P sh"
    using that unfolding assertProtos_def protoCheckConsistency_def
    by (elim heap_elims; hypsubst?) (erule (1) loop, erule (1) P_protoCheckObject)
qed

lemma P_unknownValuesDuplicator: "unknownValuesDuplicator ig fld s sh = Some (b, s', sh') \<Longrightarrow> P sh \<Longrightarrow> P sh'"
  unfolding unknownValuesDuplicator_def
  by (elim heap_elims Pair_inject; hypsubst?; (assumption | elim P_prims P_lifts_more)+)

lemma P_duplicateUnknownValues:
  assumes "duplicateUnknownValues obj sh = Some sh'" "P sh"
  shows "P sh'"
proof -
  from assms(1) obtain ig sh1 b sh2 where "buildIgnoreList obj sh = Some (ig, sh1)"
    and t: "traverseLiveFields (unknownValuesDuplicator ig) obj () sh1 = Some (b, (), sh2)" and d: "dropAll ig sh2 = Some sh'"
    unfolding duplicateUnknownValues_def by (auto simp: bind_eq_Some_conv)
  then have "P sh1" using assms(2) P_buildIgnoreList by blast
  then have "P sh2" by (rule P_traverse [OF t]) (rule P_unknownValuesDuplicator)
  then show ?thesis by (rule P_drops(2) [OF d])
qed

lemma P_reconnectProto: "reconnectProto a b c d ts sh = Some sh' \<Longrightarrow> P sh \<Longrightarrow> P sh'"
  by (auto simp: reconnectProto_def bind_eq_Some_conv elim: P_redirect)

lemma P_spliceOutPrev: "spliceOutPrev seg off (m, sh) = Some (m', sh') \<Longrightarrow> P sh \<Longrightarrow> P sh'"
  unfolding spliceOutPrev_def prod.case
  by (elim heap_elims Pair_inject; hypsubst?; (assumption | elim P_prims P_segPtrs P_redirect)+)

lemma P_concretizePrev: "concretizePrev seg reg ts off sh = Some sh' \<Longrightarrow> P sh \<Longrightarrow> P sh'"
  unfolding concretizePrev_def
  by (elim heap_elims Pair_inject; hypsubst?; (assumption | elim P_prims P_segPtrs P_lifts_more P_assignPtr P_checks)+)

lemma P_recoverSelfLoop: "recoverSelfLoop seg reg fld sh = Some sh' \<Longrightarrow> P sh \<Longrightarrow> P sh'"
  unfolding recoverSelfLoop_def
  by (elim heap_elims Pair_inject; hypsubst?; (assumption | elim P_prims P_lifts_more P_assignPtr)+)

end

locale clone_ops = core_ops +
  assumes P_objClone: "objClone obj sh = Some (dup, sh') \<Longrightarrow> P sh \<Longrightarrow> P sh'"
begin

lemma P_protoClone: "protoClone proto sh = Some (c, sh') \<Longrightarrow> P sh \<Longrightarrow> P sh'"
  unfolding protoClone_def
  by (elim heap_elims Pair_inject; hypsubst?; (assumption | elim P_objClone P_objDecrementProtoLevel P_redirect P_duplicateUnknownValues)+)

lemma P_clonePrototypes:
  assumes "clonePrototypes dst src protos (m, sh) = Some (m', sh')" "P sh"
  shows "P sh'"
proof -
  from assms(1) obtain c f where l: "ofold f (sorted_list_of_set protos) ([], m, sh) = Some (c, m', sh')"
    and f: "f = (\<lambda>protoI (cloned, idMapper, sh). do {
         (cloneI, sh) \<leftarrow> protoClone protoI sh;
         idMapper \<leftarrow> mapId protoI protoI idMapper;
         idMapper \<leftarrow> mapId protoI cloneI idMapper;
         sh \<leftarrow> reconnectProto protoI cloneI src dst TS_REGION sh;
         sh \<leftarrow> ofold (\<lambda>(protoJ, cloneJ). reconnectProto protoI cloneI protoJ cloneJ TS_INVALID) cloned sh;
         Some (cloned @ [(protoI, cloneI)], idMapper, sh)
       })"
    unfolding clonePrototypes_def by (auto simp: bind_eq_Some_conv)
  have inner: "P v" if "ofold (\<lambda>(protoJ, cloneJ). reconnectProto p c protoJ cloneJ TS_INVALID) cl u = Some v" "P u" for p c cl u v
    by (rule P_ofold [OF that(1), where g = "\<lambda>s. s"]) (use that(2) P_reconnectProto in \<open>auto\<close>)
  have step: "P (snd (snd t))" if e: "f p s = Some t" and "P (snd (snd s))" for p s t
  proof -
    obtain cl mm u where s: "s = (cl, mm, u)" by (cases s)
    from e obtain c1 u1 u2 u3 where "protoClone p u = Some (c1, u1)" "reconnectProto p c1 src dst TS_REGION u1 = Some u2"
      "ofold (\<lambda>(protoJ, cloneJ). reconnectProto p c1 protoJ cloneJ TS_INVALID) cl u2 = Some u3" "snd (snd t) = u3"
      unfolding f s prod.case by (elim bind_SomeE prod_SomeE; hypsubst?) auto
    with inner P_reconnectProto P_protoClone that(2) show ?thesis unfolding s snd_conv by metis
  qed
  have "P (snd (snd (c, m', sh')))"
    by (rule P_ofold [OF l, where g = "\<lambda>s. snd (snd s)"]) (use assms(2) step in auto)
  then show ?thesis by simp
qed

end

sublocale symheap_ops \<subseteq> clone_ops P
  by unfold_locales (rule P_step [OF symheap_step.clone])

context symheap_ops begin

lemma P_regFromSegDeep: "regFromSegDeep seg (m, sh) = Some (reg, m', sh') \<Longrightarrow> P sh \<Longrightarrow> P sh'"
  unfolding regFromSegDeep_def prod.case
  by (elim heap_elims Pair_inject; hypsubst?;
      (assumption | elim P_clonePrototypes P_duplicateUnknownValues P_redirect P_objSetConcrete P_objClone P_collectPrototypesOf)+)

lemma P_dlSegReplaceByConcrete: "dlSegReplaceByConcrete obj sh = Some sh' \<Longrightarrow> P sh \<Longrightarrow> P sh'"
  unfolding dlSegReplaceByConcrete_def
  by (elim heap_elims Pair_inject; hypsubst?; (assumption | elim P_checks P_redirect P_objSetConcrete)+)

lemma P_spliceOutListSegment:
  assumes "spliceOutListSegment seg l m sh = Some (l', m', sh')" "P sh"
  shows "P sh'"
proof -
  from assms(1) obtain v s1 m1 off s2 ts oN tN xN s3 d s4 d' l'' where n: "nextValFromSeg seg sh = Some (v, s1)"
    and p: "(if OK_DLS = objKind seg s1 then spliceOutPrev seg off (m1, s1) else Some (m1, s1)) = Some (m', s2)"
    and r: "redirect OBJ_INVALID seg ts oN tN xN s2 = Some s3"
    and g: "gcCore seg True l s3 = Some (d, l', s4)" "collectJunk seg {} s4 = Some (d', l'', sh')"
    unfolding spliceOutListSegment_def collectSharedJunk_def Let_def
    by (elim bind_SomeE prod_SomeE pair_SomeE Pair_inject; hypsubst) blast
  have "P s1" by (rule P_nextValFromSeg [OF n assms(2)])
  then have "P s2" using p by (auto split: if_splits elim: P_spliceOutPrev)
  then show ?thesis using P_collectJunk [OF g(2)] P_gcCore [OF g(1)] P_redirect [OF r] by blast
qed

lemma P_segSetMinLength: "segSetMinLength seg len sh = Some sh' \<Longrightarrow> 0 \<le> len \<Longrightarrow> P sh \<Longrightarrow> P sh'"
  by (rule P_step [OF symheap_step.minLength])

lemma P_concretizeSeg: "concretizeSeg seg ts len (m, sh) = Some (reg, m', sh') \<Longrightarrow> 0 \<le> len \<Longrightarrow> P sh \<Longrightarrow> P sh'"
  unfolding concretizeSeg_def Let_def snd_conv
  by (elim heap_elims Pair_inject; hypsubst?;
      (assumption | elim P_regFromSegDeep P_redirect P_segHeadAt P_prims P_assignPtr P_concretizePrev P_segPtrs P_recoverSelfLoop P_checks
          P_segSetMinLength)+)

lemma P_spliceOutSegmentIfNeeded:
  "spliceOutSegmentIfNeeded seg dst l sh = Some (len, dst', l') \<Longrightarrow> P sh \<Longrightarrow> \<forall>s \<in> set dst. P s \<Longrightarrow> \<forall>s \<in> set dst'. P s"
  using P_spliceOutListSegment by (auto simp: spliceOutSegmentIfNeeded_def bind_eq_Some_conv split: if_splits)

lemma P_concretizeObj:
  assumes "concretizeObj seg ts dst l sh = Some (reg, dst', l', m, sh')" "P sh" "\<forall>s \<in> set dst. P s"
  shows "P sh' \<and> (\<forall>s \<in> set dst'. P s)"
proof -
  from assms(1) obtain sh1 len where a: "assertProtos sh = Some sh1" and s: "spliceOutSegmentIfNeeded seg dst l sh1 = Some (len, dst', l')"
    and r: "if isMayExistObj (objKind seg sh1)
      then \<exists>sh2 sh3. objSetConcrete seg sh1 = Some sh2 \<and> decrementProtoLevel seg sh2 = Some sh3 \<and> assertProtos sh3 = Some sh'
      else \<exists>rg. concretizeSeg seg ts len (idm_new NFA_RETURN_IDENTITY, sh1) = Some (rg, m, sh')"
    unfolding concretizeObj_def Let_def by (elim heap_elims Pair_inject; hypsubst?) auto
  have p: "P sh1" by (rule P_checks(2) [OF a assms(2)])
  have "0 \<le> len" "\<forall>s \<in> set dst'. P s"
    using spliceOutSegmentIfNeeded_len [OF s] P_spliceOutSegmentIfNeeded [OF s p assms(3)] by auto
  moreover have "P sh'"
    using r p P_concretizeSeg [OF _ \<open>0 \<le> len\<close> p]
    by (auto split: if_splits dest: P_checks(2) P_decrementProtoLevel P_objSetConcrete)
  ultimately show ?thesis by blast
qed

end

section \<open>What a concretisation leaves alone\<close>

text \<open>The abstract object of an existing id is only changed by the operations that name it.\<close>

definition keeps_abs :: "TObjId \<Rightarrow> abstract_object option \<Rightarrow> symheap \<Rightarrow> bool" where
  "keeps_abs obj a sh \<longleftrightarrow> fresh_ids (core sh) \<and> obj < entCnt (core sh) \<and> absRoots sh obj = a"

lemma keeps_abs_evolves:
  "evolves (core sh) c \<Longrightarrow> keeps_abs obj a sh \<Longrightarrow> keeps_abs obj a (sh\<lparr>core := c\<rparr>)"
  by (auto simp: keeps_abs_def evolves_def keeps_ids_def)

lemma objClone_core_fresh:
  assumes "objClone_core obj h = Some (dup, h')" "fresh_ids h"
  shows "dup = entCnt h \<and> evolves h h' \<and> dup < entCnt h'"
  using assms(1)
proof (rule objCloneE)
  fix src h1
  assume d: "dup = entCnt h"
    and h1: "h1 = (let h1 = allocEnt (EntRegion ((new_region (reg_code src))\<lparr>reg_cVar := reg_cVar src, reg_size := reg_size src,
        reg_lastKnownClt := reg_lastKnownClt src, reg_isValid := reg_isValid src, reg_protoLevel := reg_protoLevel src\<rparr>)) h
      in if reg_isValid src then h1\<lparr>liveObjs := insert dup (liveObjs h1)\<rparr> else h1)"
    and cp: "ofold (\<lambda>(fld, code) h. map_option snd (copySingleLiveBlock dup fld code 0 0 h)) (reg_liveFields src) h1 = Some h'"
  have "field_step h1 h'"
    by (rule fs.P_ofold_heap [OF cp field_step_refl]) (auto elim: fs.P_copySingleLiveBlock)
  then have e2: "evolves h1 h'" by (simp add: field_step_def)
  have e1: "evolves h h1" by (auto simp: h1 Let_def intro!: ev.P_prims)
  then have f: "fresh_ids h1" using assms(2) by (simp add: evolves_def)
  have n: "entCnt h1 = entCnt h + 1" by (simp add: h1 Let_def)
  have "entCnt h1 \<le> entCnt h'" using e2 f by (simp add: evolves_def keeps_ids_def)
  with d n evolves_trans [OF e1 e2] show ?thesis by simp
qed

lemma objClone_steps:
  assumes "objClone obj sh = Some (dup, sh')" "fresh_ids (core sh)"
  shows "dup = entCnt (core sh) \<and> evolves (core sh) (core sh') \<and> dup < entCnt (core sh') \<and>
    absRoots sh' = (absRoots sh)(dup := (case absRoots sh obj of None \<Rightarrow> absRoots sh dup | a \<Rightarrow> a))"
proof -
  from assms(1) have c: "objClone_core obj (core sh) = Some (dup, core sh')"
    by (auto simp: objClone_def assignAbs_def bind_eq_Some_conv Let_def split: option.splits)
  moreover have "absRoots sh' = (absRoots sh)(dup := (case absRoots sh obj of None \<Rightarrow> absRoots sh dup | a \<Rightarrow> a))"
    using assms(1) by (cases "absRoots sh obj") (auto simp: objClone_def assignAbs_def bind_eq_Some_conv Let_def)
  ultimately show ?thesis using objClone_core_fresh [OF c assms(2)] by blast
qed

interpretation ka: clone_ops "keeps_abs obj a" for obj a
proof
  fix sh c
  assume "heap_op (core sh) c" "keeps_abs obj a sh"
  then show "keeps_abs obj a (sh\<lparr>core := c\<rparr>)"
    by (intro keeps_abs_evolves) (rule ev.P_heap_op, auto)
next
  fix x sh dup sh'
  assume c: "objClone x sh = Some (dup, sh')" and k: "keeps_abs obj a sh"
  from objClone_steps [OF c] k show "keeps_abs obj a sh'"
    by (auto simp: keeps_abs_def evolves_def keeps_ids_def)
qed

lemma regFromSegDeep_keeps:
  assumes "regFromSegDeep seg (m, sh) = Some (reg, m', sh')" "keeps_abs seg (Some a) sh"
  shows "keeps_abs seg (Some a) sh' \<and> keeps_abs reg None sh' \<and> entCnt (core sh) \<le> reg"
proof -
  from assms(1) obtain b ps s1 s2 s3 s4 s5 m1 where
    c: "collectPrototypesOf {} seg sh = Some (b, ps, s1)" and d: "objClone seg s1 = Some (reg, s2)"
    and cc: "objSetConcrete reg s2 = Some s3" and r: "redirect reg seg TS_ALL reg TS_REGION 0 s3 = Some s4"
    and u: "duplicateUnknownValues reg s4 = Some s5" and p: "clonePrototypes reg seg ps (m1, s5) = Some (m', sh')"
    unfolding regFromSegDeep_def prod.case by (elim heap_elims Pair_inject; hypsubst?) blast
  have k1: "keeps_abs seg (Some a) s1" by (rule ka.P_collectPrototypesOf [OF c assms(2)])
  have n: "entCnt (core sh) \<le> entCnt (core s1)"
  proof -
    have "keeps_abs (entCnt (core sh) - 1) (absRoots sh (entCnt (core sh) - 1)) s1"
      by (rule ka.P_collectPrototypesOf [OF c]) (use assms(2) in \<open>simp add: keeps_abs_def\<close>)
    then show ?thesis by (simp add: keeps_abs_def)
  qed
  from k1 have f: "fresh_ids (core s1)" by (simp add: keeps_abs_def)
  note st = objClone_steps [OF d f]
  have "keeps_abs seg (Some a) s2" by (rule ka.P_objClone [OF d k1])
  with cc st k1 have k3: "keeps_abs seg (Some a) s3" "keeps_abs reg None s3"
    by (auto simp: keeps_abs_def objSetConcrete_def bind_eq_Some_conv)
  have "keeps_abs o' x sh'" if "keeps_abs o' x s3" for o' x
    by (rule ka.P_clonePrototypes [OF p ka.P_duplicateUnknownValues [OF u ka.P_redirect [OF r that]]])
  with k3 st n show ?thesis by auto
qed

lemma concretizeSeg_effect:
  assumes "concretizeSeg seg ts len (m, sh) = Some (reg, m', sh')" "keeps_abs seg (Some a) sh" "ao_kind a = OK_SLS \<or> ao_kind a = OK_DLS"
    and "len < 2"
  shows "keeps_abs seg (Some (a\<lparr>ao_minLength := len\<rparr>)) sh' \<and> keeps_abs reg None sh' \<and> entCnt (core sh) \<le> reg"
proof -
  from assms(1) obtain m1 s1 s2 off hd s3 nx s4 s5 oh s6 nn s7 s8 s9 s10 s11 where
    g: "regFromSegDeep seg (m, sh) = Some (reg, m1, s1)" and r: "redirect OBJ_INVALID seg ts reg TS_REGION 0 s1 = Some s2"
    and h: "segHeadAt seg ts s2 = Some (hd, s3)" "lift_core (ptrHandle_new reg off) s3 = Some (nx, s4)" "assignPtr nx hd s4 = Some s5"
    and d: "(if OK_DLS = objKind seg sh then concretizePrev seg reg ts oh s5 else Some s5) = Some s6"
    and n: "nextPtrFromSeg seg s6 = Some (nn, s7)" "recoverSelfLoop seg reg nn s7 = Some s8"
    and l: "segSetMinLength seg len s8 = Some s9" and e: "assertProtos s9 = Some s10" "dropHandle nn s10 = Some s11" "dropHandle nx s11 = Some sh'"
    unfolding concretizeSeg_def Let_def snd_conv
    by (elim bind_SomeE prod_SomeE pair_SomeE Pair_inject; hypsubst?) blast
  have k1: "keeps_abs seg (Some a) s1" "keeps_abs reg None s1" "entCnt (core sh) \<le> reg"
    using regFromSegDeep_keeps [OF g assms(2)] by auto
  have k8: "keeps_abs o' x s8" if "keeps_abs o' x s1" for o' x
  proof -
    have "keeps_abs o' x s5"
      by (rule ka.P_assignPtr [OF h(3) ka.P_lifts(2) [OF h(2) ka.P_segHeadAt [OF h(1) ka.P_redirect [OF r that]]]])
    then have "keeps_abs o' x s6" using d by (auto split: if_splits elim: ka.P_concretizePrev)
    then show ?thesis by (rule ka.P_recoverSelfLoop [OF n(2) ka.P_segPtrs(1) [OF n(1)]])
  qed
  have rest: "keeps_abs o' x sh'" if "keeps_abs o' x s9" for o' x
    by (rule ka.P_drops(1) [OF e(3) ka.P_drops(1) [OF e(2) ka.P_checks(2) [OF e(1) that]]])
  have "seg \<noteq> reg" using assms(2) k1(3) by (auto simp: keeps_abs_def)
  with l k8 [OF k1(1)] k8 [OF k1(2)] assms(3,4)
  have "keeps_abs seg (Some (a\<lparr>ao_minLength := len\<rparr>)) s9" "keeps_abs reg None s9"
    by (auto simp: keeps_abs_def segSetMinLength_def SE_RESTRICT_SLS_MINLEN_def SE_RESTRICT_DLS_MINLEN_def split: if_splits)
  with rest k1(3) show ?thesis by blast
qed

section \<open>Properties\<close>

text \<open>
  C8: the concretisation of a list segment in a heap that public operations have made of a new one unfolds it: a new
  object that is no longer abstract has come into being, the rest of the segment keeps its kind and is one shorter
  (or still possibly empty), and exactly for a possibly empty segment a further heap is scheduled.
\<close>

theorem concretizeObj_unfolds:
  assumes "symheap_new st b = Some sh0" "symheap_step\<^sup>*\<^sup>* sh0 sh" "isValid seg (core sh) = Some True"
    and "objKind seg sh = OK_SLS \<or> objKind seg sh = OK_DLS" "segMinLength seg sh = Some n"
    and "concretizeObj seg ts dst l sh = Some (reg, dst', l', m, sh')"
  shows "\<exists>r. reg = Some r \<and> entCnt (core sh) \<le> r \<and> \<not> isAbstractObject r sh' \<and> objKind seg sh' = objKind seg sh \<and>
    segMinLength seg sh' = Some (if 0 < n then n - 1 else 0) \<and> length dst' = length dst + (if 0 < n then 0 else 1)"
proof -
  obtain a where a: "absRoots sh seg = Some a" "ao_kind a = OK_SLS \<or> ao_kind a = OK_DLS" "objKind seg sh = ao_kind a" "n = ao_minLength a"
    using assms(4,5) by (cases "absRoots sh seg") (auto simp: objKind_def segMinLength_def)
  have n: "n \<le> 2" using abs_okD [OF abs_ok_reachable [OF assms(1,2)] a(1)] a(4)
    by (simp add: SE_RESTRICT_SLS_MINLEN_def SE_RESTRICT_DLS_MINLEN_def)
  have f: "fresh_ids (core sh)"
    using rw.P_heap_run [OF core_run [OF assms(2)]] assms(1) regions_wf_initial [of st b]
    by (auto simp: symheap_new_eq regions_wf_def)
  have "seg < entCnt (core sh)"
    using assms(3) f fresh_ids_bounds(3) by (auto simp: isValid_def split: if_splits)
  with f a have k: "keeps_abs seg (Some a) sh" by (simp add: keeps_abs_def)
  from assms(6) obtain sh1 len where p: "assertProtos sh = Some sh1" and s: "spliceOutSegmentIfNeeded seg dst l sh1 = Some (len, dst', l')"
    and r: "if isMayExistObj (objKind seg sh1) then True
      else \<exists>rg. reg = Some rg \<and> concretizeSeg seg ts len (idm_new NFA_RETURN_IDENTITY, sh1) = Some (rg, m, sh')"
    unfolding concretizeObj_def Let_def by (elim heap_elims Pair_inject; hypsubst?) auto
  have k1: "keeps_abs seg (Some a) sh1" by (rule ka.P_checks(2) [OF p k])
  have e1: "entCnt (core sh) \<le> entCnt (core sh1)"
    using ka.P_checks(2) [OF p, of "entCnt (core sh) - 1" "absRoots sh (entCnt (core sh) - 1)"] f by (simp add: keeps_abs_def)
  from k1 a have o1: "objKind seg sh1 = ao_kind a" "segMinLength seg sh1 = Some n"
    by (auto simp: keeps_abs_def objKind_def segMinLength_def)
  from spliceOutSegmentIfNeeded_len [OF s] o1(2) have len: "len = (if 0 < n then n - 1 else 0)" "length dst' = length dst + (if 0 < n then 0 else 1)"
    by auto
  from r o1 a(2) obtain rg where rg: "reg = Some rg" "concretizeSeg seg ts len (idm_new NFA_RETURN_IDENTITY, sh1) = Some (rg, m, sh')"
    by auto
  from concretizeSeg_effect [OF rg(2) k1 a(2)] len n
  have "keeps_abs seg (Some (a\<lparr>ao_minLength := len\<rparr>)) sh'" "keeps_abs rg None sh'" "entCnt (core sh1) \<le> rg" by auto
  with rg(1) len a e1 show ?thesis
    by (auto simp: keeps_abs_def isAbstractObject_def objKind_def segMinLength_def)
qed


text \<open>A singly linked segment of one or more nodes.\<close>

definition wit_sls_run :: "symheap option" where
  "wit_sls_run = do {
     (a, h) \<leftarrow> heapAlloc (rngFromNum 8) (initial_heap wit_stor True);
     (fld, h) \<leftarrow> ptrHandle_new a 0 h;
     (_, h) \<leftarrow> setValOfField fld VAL_NULL None h;
     sh \<leftarrow> objSetAbstract a OK_SLS \<lparr>bo_head = 0, bo_next = 0, bo_prev = 0\<rparr> \<lparr>core = h, absRoots = (\<lambda>_. None)\<rparr>;
     segIncreaseMinLength a 1 sh
   }"

lemma wit_sls_run_steps:
  assumes "wit_sls_run = Some sh"
  shows "symheap_step\<^sup>*\<^sup>* \<lparr>core = initial_heap wit_stor True, absRoots = (\<lambda>_. None)\<rparr> sh"
proof -
  let ?sh0 = "\<lparr>core = initial_heap wit_stor True, absRoots = (\<lambda>_. None)\<rparr>"
  from assms obtain a h1 fld h2 kp h3 s1 where e: "heapAlloc (rngFromNum 8) (initial_heap wit_stor True) = Some (a, h1)"
    "ptrHandle_new a 0 h1 = Some (fld, h2)" "setValOfField fld VAL_NULL None h2 = Some (kp, h3)"
    and s: "objSetAbstract a OK_SLS \<lparr>bo_head = 0, bo_next = 0, bo_prev = 0\<rparr> \<lparr>core = h3, absRoots = (\<lambda>_. None)\<rparr> = Some s1"
    and l: "segIncreaseMinLength a 1 s1 = Some sh"
    unfolding wit_sls_run_def by (elim heap_elims; hypsubst?) blast
  have "heap_op\<^sup>*\<^sup>* (initial_heap wit_stor True) h1" using e(1) by (auto intro: heap_op.intros)
  then have "heap_op\<^sup>*\<^sup>* (core ?sh0) h3"
    using hops(5) [OF e(3)] heap_op_ptrHandle_new [OF e(2)] by (metis rtranclp_trans symheap.select_convs(1))
  from run.P_core [OF this, of ?sh0] have "symheap_step\<^sup>*\<^sup>* ?sh0 \<lparr>core = h3, absRoots = (\<lambda>_. None)\<rparr>" by simp
  then have "symheap_step\<^sup>*\<^sup>* ?sh0 s1" by (rule run.P_step [OF symheap_step.abstract [OF s]])
  then show ?thesis using run.P_segIncreaseMinLength [OF l] by simp
qed

theorem concretizeObj_unfolds_witness:
  "case wit_sls_run of None \<Rightarrow> False | Some sh \<Rightarrow>
     (case concretizeObj 4 TS_FIRST [] {} sh of
        Some (_, dst, _, _, sh') \<Rightarrow> segMinLength 4 sh = Some 1 \<and> segMinLength 4 sh' = Some 0 \<and> dst = []
      | None \<Rightarrow> False)"
proof -
  have "case wit_sls_run of None \<Rightarrow> False | Some sh \<Rightarrow> isValid 4 (core sh) = Some True \<and> objKind 4 sh = OK_SLS \<and> segMinLength 4 sh = Some 1 \<and>
      (case concretizeObj 4 TS_FIRST [] {} sh of Some _ \<Rightarrow> True | None \<Rightarrow> False)"
    by code_simp
  then obtain sh reg dst l m sh' where w: "wit_sls_run = Some sh" "isValid 4 (core sh) = Some True" "objKind 4 sh = OK_SLS"
    "segMinLength 4 sh = Some 1" "concretizeObj 4 TS_FIRST [] {} sh = Some (reg, dst, l, m, sh')"
    by (auto split: option.splits)
  from concretizeObj_unfolds [OF symheap_new_eq wit_sls_run_steps [OF w(1)] w(2) _ w(4,5)] w(3,4) show ?thesis by (auto simp: w(1,5))
qed

text \<open>
  The order of the two calls in the branch of \<open>concretizeObj\<close> for objects that may not exist matters: an object that
  has been set concrete has no prototypes any more, so that the nesting levels stay as they are.
\<close>

lemma decrementProtoLevel_after_concrete:
  assumes "objSetConcrete seg sh = Some sh'"
  shows "decrementProtoLevel seg sh' = Some sh'"
proof -
  have "objKind seg sh' = OK_REGION"
    using assms by (auto simp: objSetConcrete_def bind_eq_Some_conv objKind_def)
  then show ?thesis by (simp add: decrementProtoLevel_def collectPrototypesOf_def)
qed

end
