(* ===== verification/ClCode.thy ===== *)
theory ClCode
  imports ClTypes
begin

text \<open>
  The code model of the Code Listener: operands, accessors and instructions of
  \<open>src/include/cl/code_listener.h\<close>, the \<open>CodeStorage\<close> containers of \<open>src/include/cl/storage.hh\<close> and
  \<open>src/cl/storage.cc\<close>, and the helpers on operands of \<open>src/cl/clutil.cc\<close> and \<open>src/cl/builtins.cc\<close>.

  A \<open>Block *\<close> is a number: 0 for NULL, \<open>i + 1\<close> for the block at index \<open>i\<close> of the control flow graph.  The
  types and the initialisers of variables stay where the front end put them and may be cyclic; they are
  read from a memory \<open>cl_mem\<close>.  A deep copy (\<open>storeOperand\<close>) is the identity on values.
\<close>

section \<open>Operands and instructions\<close>

datatype cl_scope_e = CL_SCOPE_GLOBAL | CL_SCOPE_STATIC | CL_SCOPE_FUNCTION

record cl_loc =
  loc_file :: "string option"
  loc_line :: int
  loc_column :: int
  loc_sysp :: bool

definition cl_loc_unknown :: cl_loc where
  "cl_loc_unknown = \<lparr>loc_file = None, loc_line = 0, loc_column = 0, loc_sysp = False\<rparr>"

text \<open>\<open>struct cl_var\<close>, without the chain of initialisers, which is \<open>mem_initials\<close> below.\<close>

record cl_var_s =
  cv_uid :: int
  cv_name :: "string option"
  cv_artificial :: bool
  cv_loc :: cl_loc
  cv_initialized :: bool
  cv_is_extern :: bool

text \<open>\<open>struct cl_cst\<close>: the code and the member of the union that belongs to it.\<close>

datatype cl_cst =
    CstFnc int "string option" bool cl_loc
  | CstInt int
  | CstString "string option"
  | CstOther cl_type_e

datatype cl_accessor =
    CL_ACCESSOR_REF TObjType
  | CL_ACCESSOR_DEREF TObjType
  | CL_ACCESSOR_DEREF_ARRAY TObjType cl_operand
  | CL_ACCESSOR_ITEM TObjType int
  | CL_ACCESSOR_OFFSET TObjType int
and cl_operand =
    CL_OPERAND_VOID
  | CL_OPERAND_CST cl_scope_e TObjType "cl_accessor list" cl_cst
  | CL_OPERAND_VAR cl_scope_e TObjType "cl_accessor list" cl_var_s

primrec ac_type :: "cl_accessor \<Rightarrow> TObjType" where
  "ac_type (CL_ACCESSOR_REF t) = t"
| "ac_type (CL_ACCESSOR_DEREF t) = t"
| "ac_type (CL_ACCESSOR_DEREF_ARRAY t i) = t"
| "ac_type (CL_ACCESSOR_ITEM t n) = t"
| "ac_type (CL_ACCESSOR_OFFSET t n) = t"

primrec op_type :: "cl_operand \<Rightarrow> TObjType" where
  "op_type CL_OPERAND_VOID = 0"
| "op_type (CL_OPERAND_CST sc t acs c) = t"
| "op_type (CL_OPERAND_VAR sc t acs v) = t"

primrec op_accessor :: "cl_operand \<Rightarrow> cl_accessor list" where
  "op_accessor CL_OPERAND_VOID = []"
| "op_accessor (CL_OPERAND_CST sc t acs c) = acs"
| "op_accessor (CL_OPERAND_VAR sc t acs v) = acs"

datatype cl_insn_e = CL_INSN_NOP | CL_INSN_JMP | CL_INSN_COND | CL_INSN_RET | CL_INSN_CLOBBER
  | CL_INSN_ABORT | CL_INSN_UNOP | CL_INSN_BINOP | CL_INSN_CALL | CL_INSN_SWITCH | CL_INSN_LABEL

text \<open>\<open>struct cl_insn\<close>: the union of the data of an instruction; operation codes are C enumerators.\<close>

datatype insn_data =
    NoData
  | InsnJmp string
  | InsnCond cl_operand string string
  | InsnRet cl_operand
  | InsnClobber cl_operand
  | InsnUnop int cl_operand cl_operand
  | InsnBinop int cl_operand cl_operand cl_operand
  | InsnLabel "string option"

record cl_insn =
  cli_code :: cl_insn_e
  cli_loc :: cl_loc
  cli_data :: insn_data

abbreviation CL_BINOP_EQ :: int where
  "CL_BINOP_EQ \<equiv> 0"

fun cl_is_term_insn :: "cl_insn_e \<Rightarrow> bool" where
  "cl_is_term_insn CL_INSN_JMP = True"
| "cl_is_term_insn CL_INSN_COND = True"
| "cl_is_term_insn CL_INSN_RET = True"
| "cl_is_term_insn CL_INSN_ABORT = True"
| "cl_is_term_insn CL_INSN_SWITCH = True"
| "cl_is_term_insn CL_INSN_CLOBBER = False"
| "cl_is_term_insn CL_INSN_NOP = False"
| "cl_is_term_insn CL_INSN_UNOP = False"
| "cl_is_term_insn CL_INSN_BINOP = False"
| "cl_is_term_insn CL_INSN_CALL = False"
| "cl_is_term_insn CL_INSN_LABEL = False"

text \<open>What the front end keeps in memory.\<close>

record cl_mem =
  mem_types :: "TObjType \<Rightarrow> cl_type option"
  mem_initials :: "int \<Rightarrow> cl_insn list"

section \<open>Helpers on operands\<close>

fun seekRefAccessor :: "cl_accessor list \<Rightarrow> bool option" where
  "seekRefAccessor [] = Some False"
| "seekRefAccessor (CL_ACCESSOR_REF t # acs) = do { cl_break_if (acs \<noteq> []); Some True }"
| "seekRefAccessor (ac # acs) = seekRefAccessor acs"

fun varIdFromOperand :: "cl_operand \<Rightarrow> int option" where
  "varIdFromOperand (CL_OPERAND_VAR sc t acs v) = Some (cv_uid v)"
| "varIdFromOperand op = None"

text \<open>\<open>fncNameFromCst\<close> and \<open>fncUidFromOperand\<close>: \<open>None\<close> when the code returns \<open>false\<close>.\<close>

fun fncNameFromCst :: "cl_operand \<Rightarrow> string option" where
  "fncNameFromCst (CL_OPERAND_CST sc t acs (CstFnc uid nm is_extern loc)) =
     (if sc \<noteq> CL_SCOPE_GLOBAL \<or> \<not> is_extern then None else nm)"
| "fncNameFromCst op = None"

fun fncUidFromOperand :: "cl_operand \<Rightarrow> int option" where
  "fncUidFromOperand (CL_OPERAND_CST sc t acs (CstFnc uid nm is_extern loc)) = Some uid"
| "fncUidFromOperand op = None"

fun isLcVar_op :: "cl_operand \<Rightarrow> bool" where
  "isLcVar_op (CL_OPERAND_VAR sc t acs v) =
     (case sc of CL_SCOPE_GLOBAL \<Rightarrow> False | CL_SCOPE_STATIC \<Rightarrow> False | CL_SCOPE_FUNCTION \<Rightarrow> True)"
| "isLcVar_op op = False"

definition isBuiltInFnc :: "cl_operand \<Rightarrow> bool" where
  "isBuiltInFnc op = (case fncNameFromCst op of
     None \<Rightarrow> False | Some nm \<Rightarrow> nm = ''PT_ASSERT'' \<or> nm = ''VK_ASSERT'')"

section \<open>Instructions, blocks and functions of the storage\<close>

text \<open>
  A kill list is a \<open>std::set\<close> of pairs (uid, only if not pointed) compared by uid: a map whose
  insertion leaves an entry of the same uid alone.
\<close>

type_synonym TKillVarList = "(int, bool) omap"

definition kill_insert :: "int \<Rightarrow> bool \<Rightarrow> TKillVarList \<Rightarrow> TKillVarList" where
  "kill_insert uid onlyIfNotPointed kl =
     (if omap_find kl uid \<noteq> None then kl else omap_put uid onlyIfNotPointed kl)"

type_synonym TBlock = nat

record insn =
  in_code :: cl_insn_e
  in_subCode :: int
  in_loc :: cl_loc
  operands :: "cl_operand list"
  varsToKill :: TKillVarList
  killPerTarget :: "TKillVarList list"
  targets :: "TBlock list"
  loopClosingTargets :: "nat list"

record block =
  bb_name :: string
  bb_insns :: "insn list"
  inbound :: "TBlock list"

definition new_insn :: "cl_insn_e \<Rightarrow> cl_loc \<Rightarrow> insn" where
  "new_insn c loc = \<lparr>in_code = c, in_subCode = 0, in_loc = loc, operands = [], varsToKill = [],
     killPerTarget = [], targets = [], loopClosingTargets = []\<rparr>"

definition Block_ctor :: "string \<Rightarrow> block" where
  "Block_ctor nm = \<lparr>bb_name = nm, bb_insns = [], inbound = []\<rparr>"

definition Block_append :: "insn \<Rightarrow> block \<Rightarrow> block option" where
  "Block_append i b = do {
     cl_break_if (bb_insns b \<noteq> [] \<and> cl_is_term_insn (in_code (last (bb_insns b))));
     Some (b\<lparr>bb_insns := bb_insns b @ [i]\<rparr>)
   }"

definition appendPredecessor :: "TBlock \<Rightarrow> block \<Rightarrow> block" where
  "appendPredecessor pred b = b\<lparr>inbound := inbound b @ [pred]\<rparr>"

definition Block_front :: "block \<Rightarrow> insn option" where
  "Block_front b = do { cl_break_if (bb_insns b = []); Some (hd (bb_insns b)) }"

definition Block_back :: "block \<Rightarrow> insn option" where
  "Block_back b = do { cl_break_if (bb_insns b = []); Some (last (bb_insns b)) }"

definition Block_targets :: "block \<Rightarrow> TBlock list option" where
  "Block_targets b = do {
     term \<leftarrow> Block_back b;
     cl_break_if (\<not> cl_is_term_insn (in_code term));
     Some (targets term)
   }"

text \<open>
  \<open>dbLookup\<close> and \<open>dbConstLookup\<close>: a table with an index of its keys.  The first creates the item from
  the template when the key is not there.
\<close>

record ('k, 'v) db =
  db_map :: "'k \<Rightarrow> nat option"
  db_tab :: "'v list"

definition db_empty :: "('k, 'v) db" where
  "db_empty = \<lparr>db_map = (\<lambda>_. None), db_tab = []\<rparr>"

definition dbLookup :: "'v \<Rightarrow> 'k \<Rightarrow> ('k, 'v) db \<Rightarrow> nat \<times> ('k, 'v) db" where
  "dbLookup tpl key d = (case db_map d key of
     Some idx \<Rightarrow> (idx, d)
   | None \<Rightarrow> (length (db_tab d),
       d\<lparr>db_map := (db_map d)(key := Some (length (db_tab d))), db_tab := db_tab d @ [tpl]\<rparr>))"

definition dbConstLookup :: "'k \<Rightarrow> ('k, 'v) db \<Rightarrow> 'v option" where
  "dbConstLookup key d = (case db_map d key of
     None \<Rightarrow> None
   | Some idx \<Rightarrow> if idx < length (db_tab d) then Some (db_tab d ! idx) else None)"

definition db_upd :: "nat \<Rightarrow> ('v \<Rightarrow> 'v) \<Rightarrow> ('k, 'v) db \<Rightarrow> ('k, 'v) db" where
  "db_upd idx f d = d\<lparr>db_tab := (db_tab d)[idx := f (db_tab d ! idx)]\<rparr>"

text \<open>The index of a table names exactly its items, each under one key.\<close>

definition db_wf :: "('k, 'v) db \<Rightarrow> bool" where
  "db_wf d \<longleftrightarrow> ran (db_map d) = {..<length (db_tab d)} \<and> inj_on (db_map d) (dom (db_map d))"

type_synonym cfg = "(string, block) db"

definition cfg_entry :: "cfg \<Rightarrow> TBlock option" where
  "cfg_entry g = do { cl_break_if (db_tab g = []); Some 1 }"

definition bb_at :: "cfg \<Rightarrow> TBlock \<Rightarrow> block option" where
  "bb_at g bb = (if bb = 0 \<or> length (db_tab g) < bb then None else Some (db_tab g ! (bb - 1)))"

definition bb_upd :: "TBlock \<Rightarrow> (block \<Rightarrow> block) \<Rightarrow> cfg \<Rightarrow> cfg" where
  "bb_upd bb f g = db_upd (bb - 1) f g"

text \<open>\<open>ControlFlow::operator[]\<close>: the block of the given name, created on demand.\<close>

definition cfg_block :: "string \<Rightarrow> cfg \<Rightarrow> TBlock \<times> cfg" where
  "cfg_block nm g = (let (idx, g') = dbLookup (Block_ctor nm) nm g in (idx + 1, g'))"

definition bb_targets :: "cfg \<Rightarrow> TBlock \<Rightarrow> TBlock list option" where
  "bb_targets g bb = do { b \<leftarrow> bb_at g bb; Block_targets b }"

definition bb_back :: "cfg \<Rightarrow> TBlock \<Rightarrow> insn option" where
  "bb_back g bb = do { b \<leftarrow> bb_at g bb; Block_back b }"

definition isLoopEntry :: "cfg \<Rightarrow> TBlock \<Rightarrow> bool option" where
  "isLoopEntry g bb = do {
     b \<leftarrow> bb_at g bb;
     ofold (\<lambda>ref found.
       if found then Some True
       else do {
         term \<leftarrow> bb_back g ref;
         tList \<leftarrow> bb_targets g ref;
         ofold (\<lambda>idx found.
           if found then Some True
           else do { cl_break_if (length tList \<le> idx); Some (tList ! idx = bb) })
           (loopClosingTargets term) False
       }) (inbound b) False
   }"

record fnc =
  fnc_def :: cl_operand
  fnc_vars :: "int set"
  fnc_args :: "int list"
  fnc_cfg :: cfg

definition new_fnc :: fnc where
  "new_fnc = \<lparr>fnc_def = CL_OPERAND_VOID, fnc_vars = {}, fnc_args = [], fnc_cfg = db_empty\<rparr>"

text \<open>\<open>isDefined\<close>: the operand is a constant, of function type, and not external.\<close>

definition isDefined :: "cl_mem \<Rightarrow> fnc \<Rightarrow> bool option" where
  "isDefined M f = (case fnc_def f of
     CL_OPERAND_CST sc ty acs c \<Rightarrow> do {
       t \<leftarrow> mem_types M ty;
       if clt_code t \<noteq> CL_TYPE_FNC then Some False
       else (case c of CstFnc uid nm is_extern loc \<Rightarrow> Some (\<not> is_extern) | _ \<Rightarrow> None)
     }
   | _ \<Rightarrow> Some False)"

section \<open>Variables, types and names\<close>

record svar =
  sv_code :: EVar
  sv_loc :: cl_loc
  sv_type :: TObjType
  sv_uid :: int
  sv_name :: string
  sv_initials :: "insn list"
  sv_initialized :: bool
  sv_isExtern :: bool
  sv_mayBePointed :: bool

text \<open>The dummy constructor sets the code only; the other members have no meaning until then.\<close>

definition Var_dummy :: svar where
  "Var_dummy = \<lparr>sv_code = VAR_VOID, sv_loc = cl_loc_unknown, sv_type = 0, sv_uid = 0, sv_name = [],
     sv_initials = [], sv_initialized = False, sv_isExtern = False, sv_mayBePointed = False\<rparr>"

definition digVarType :: "cl_operand \<Rightarrow> TObjType" where
  "digVarType op = (case op_accessor op of ac # _ \<Rightarrow> ac_type ac | [] \<Rightarrow> op_type op)"

fun Var_ctor :: "EVar \<Rightarrow> cl_operand \<Rightarrow> svar option" where
  "Var_ctor c (CL_OPERAND_VAR sc t acs v) = do {
     let ty = digVarType (CL_OPERAND_VAR sc t acs v);
     cl_break_if (ty = 0);
     cl_break_if (\<not> (case c of
         VAR_GL \<Rightarrow> sc = CL_SCOPE_GLOBAL \<or> sc = CL_SCOPE_STATIC
       | VAR_LC \<Rightarrow> sc = CL_SCOPE_FUNCTION
       | VAR_FNC_ARG \<Rightarrow> sc = CL_SCOPE_FUNCTION
       | VAR_VOID \<Rightarrow> False));
     Some \<lparr>sv_code = c, sv_loc = cv_loc v, sv_type = ty, sv_uid = cv_uid v,
       sv_name = (case cv_name v of None \<Rightarrow> [] | Some s \<Rightarrow> s), sv_initials = [],
       sv_initialized = cv_initialized v, sv_isExtern = cv_is_extern v, sv_mayBePointed = False\<rparr>
   }"
| "Var_ctor c op = None"

record type_db =
  tdb_map :: "int \<Rightarrow> TObjType option"
  tdb_types :: "TObjType list"
  tdb_codePtrSizeof :: int
  tdb_dataPtrSizeof :: int
  tdb_genericDataPtr :: TObjType

definition TypeDb_ctor :: type_db where
  "TypeDb_ctor = \<lparr>tdb_map = (\<lambda>_. None), tdb_types = [], tdb_codePtrSizeof = - 1,
     tdb_dataPtrSizeof = - 1, tdb_genericDataPtr = 0\<rparr>"

definition updatePtrSizeof :: "int \<Rightarrow> int \<Rightarrow> int option" where
  "updatePtrSizeof sz field = do {
     cl_break_if (sz \<le> 0);
     cl_break_if (field \<noteq> - 1 \<and> field \<noteq> sz);
     Some sz
   }"

definition digPtrSizeof :: "cl_mem \<Rightarrow> TObjType \<Rightarrow> cl_type \<Rightarrow> type_db \<Rightarrow> type_db option" where
  "digPtrSizeof M clt t db =
     (if clt_code t \<noteq> CL_TYPE_PTR then Some db
      else do {
        cl_break_if (length (clt_items t) \<noteq> 1);
        tgt \<leftarrow> mem_types M (item_type (hd (clt_items t)));
        if clt_code tgt = CL_TYPE_FNC then do {
          sz \<leftarrow> updatePtrSizeof (clt_size t) (tdb_codePtrSizeof db);
          Some (db\<lparr>tdb_codePtrSizeof := sz\<rparr>)
        } else do {
          sz \<leftarrow> updatePtrSizeof (clt_size t) (tdb_dataPtrSizeof db);
          let db = db\<lparr>tdb_dataPtrSizeof := sz\<rparr>;
          Some (if tdb_genericDataPtr db = 0 \<or> clt_code tgt = CL_TYPE_VOID
                then db\<lparr>tdb_genericDataPtr := clt\<rparr> else db)
        }
      })"

definition TypeDb_insert :: "cl_mem \<Rightarrow> TObjType \<Rightarrow> type_db \<Rightarrow> (bool \<times> type_db) option" where
  "TypeDb_insert M clt db =
     (if clt = 0 then Some (False, db)
      else do {
        t \<leftarrow> mem_types M clt;
        if tdb_map db (clt_uid t) \<noteq> None then Some (False, db)
        else do {
          db' \<leftarrow> digPtrSizeof M clt t (db\<lparr>tdb_map := (tdb_map db)(clt_uid t := Some clt),
            tdb_types := tdb_types db @ [clt]\<rparr>);
          Some (True, db')
        }
      })"

text \<open>The depth-first walk through the type graph, with its stack; the top is the head of the list.\<close>

partial_function (option) readTypeTree_loop :: "cl_mem \<Rightarrow> TObjType list \<Rightarrow> type_db \<Rightarrow> type_db option" where
  "readTypeTree_loop M stack db = (case stack of
     [] \<Rightarrow> Some db
   | clt # rest \<Rightarrow> do {
       (fresh, db') \<leftarrow> TypeDb_insert M clt db;
       if \<not> fresh then readTypeTree_loop M rest db'
       else do {
         t \<leftarrow> mem_types M clt;
         readTypeTree_loop M (rev (map item_type (clt_items t)) @ rest) db'
       }
     })"

declare readTypeTree_loop.simps [code]

definition readTypeTree :: "cl_mem \<Rightarrow> TObjType \<Rightarrow> type_db \<Rightarrow> type_db option" where
  "readTypeTree M clt db = (if clt = 0 then Some db else readTypeTree_loop M [clt] db)"

definition TypeDb_at :: "type_db \<Rightarrow> int \<Rightarrow> TObjType option" where
  "TypeDb_at db uid = tdb_map db uid"

record name_db =
  glNames :: "string \<Rightarrow> int option"
  lcNames :: "string \<Rightarrow> string \<Rightarrow> int option"

definition name_db_empty :: name_db where
  "name_db_empty = \<lparr>glNames = (\<lambda>_. None), lcNames = (\<lambda>_ _. None)\<rparr>"

record storage =
  types :: type_db
  vars :: "(int, svar) db"
  fncs :: "(int, fnc) db"
  varNames :: name_db
  fncNames :: name_db

definition storage_empty :: storage where
  "storage_empty = \<lparr>types = TypeDb_ctor, vars = db_empty, fncs = db_empty, varNames = name_db_empty,
     fncNames = name_db_empty\<rparr>"

end
