(* ===== verification/ClBuild.thy ===== *)
theory ClBuild
  imports ClCode
begin

text \<open>
  \<open>ClStorageBuilder\<close> of \<open>src/cl/cl_storage.cc\<close>: the code listener that serialises the callbacks of a
  compiler front end into a \<open>CodeStorage::Storage\<close>.
\<close>

section \<open>Callbacks\<close>

text \<open>The calls of the interface \<open>ICodeListener\<close>, with their arguments.\<close>

datatype callback =
    file_open string
  | file_close
  | fnc_open cl_operand
  | fnc_arg_decl int cl_operand
  | fnc_close
  | bb_open string
  | insn_cb cl_insn
  | insn_call_open cl_loc cl_operand cl_operand
  | insn_call_arg int cl_operand
  | insn_call_close
  | insn_switch_open cl_loc cl_operand
  | insn_switch_case cl_loc cl_operand cl_operand string
  | insn_switch_close
  | acknowledge

section \<open>Instructions\<close>

definition storeLabel :: "string option \<Rightarrow> cl_operand" where
  "storeLabel nm = (case nm of
     None \<Rightarrow> CL_OPERAND_VOID
   | Some s \<Rightarrow> CL_OPERAND_CST CL_SCOPE_FUNCTION 0 [] (CstString (Some s)))"

text \<open>
  \<open>createInsn\<close>; initialisers are created with \<open>cfg\<close> NULL, so that a jump among them is a crash.
\<close>

fun createInsn :: "cl_insn \<Rightarrow> cfg option \<Rightarrow> (insn \<times> cfg option) option" where
  "createInsn cli g = (let i = new_insn (cli_code cli) (cli_loc cli) in
     case (cli_code cli, cli_data cli) of
       (CL_INSN_JMP, InsnJmp label) \<Rightarrow> do {
         g \<leftarrow> g;
         let (bb, g) = cfg_block label g;
         Some (i\<lparr>targets := [bb]\<rparr>, Some g)
       }
     | (CL_INSN_COND, InsnCond src then_label else_label) \<Rightarrow> do {
         g \<leftarrow> g;
         let (bb0, g) = cfg_block then_label g;
         let (bb1, g) = cfg_block else_label g;
         Some (i\<lparr>operands := [src], targets := [bb0, bb1]\<rparr>, Some g)
       }
     | (CL_INSN_CLOBBER, InsnClobber var) \<Rightarrow> Some (i\<lparr>operands := [var]\<rparr>, g)
     | (CL_INSN_RET, InsnRet src) \<Rightarrow> Some (i\<lparr>operands := [src]\<rparr>, g)
     | (CL_INSN_ABORT, _) \<Rightarrow> Some (i, g)
     | (CL_INSN_UNOP, InsnUnop c dst src) \<Rightarrow> Some (i\<lparr>in_subCode := c, operands := [dst, src]\<rparr>, g)
     | (CL_INSN_BINOP, InsnBinop c dst src1 src2) \<Rightarrow>
         Some (i\<lparr>in_subCode := c, operands := [dst, src1, src2]\<rparr>, g)
     | (CL_INSN_LABEL, InsnLabel nm) \<Rightarrow> Some (i\<lparr>operands := [storeLabel nm]\<rparr>, g)
     | _ \<Rightarrow> None)"

declare createInsn.simps [simp del]

section \<open>The state of the builder\<close>

text \<open>
  \<open>b_fnc\<close> is the current function as an index of the table of functions, \<open>b_bb\<close> the current block
  (0 for NULL), \<open>b_insn\<close> the open instruction as its block and its position there.
\<close>

record builder =
  b_stor :: storage
  b_file :: "string option"
  b_fnc :: "nat option"
  b_bb :: TBlock
  b_insn :: "(TBlock \<times> nat) option"
  b_preventRefOps :: bool

definition builder_ctor :: builder where
  "builder_ctor = \<lparr>b_stor = storage_empty, b_file = None, b_fnc = None, b_bb = 0, b_insn = None,
     b_preventRefOps = False\<rparr>"

definition cur_fnc :: "builder \<Rightarrow> fnc option" where
  "cur_fnc b = do {
     i \<leftarrow> b_fnc b;
     cl_break_if (length (db_tab (fncs (b_stor b))) \<le> i);
     Some (db_tab (fncs (b_stor b)) ! i)
   }"

definition upd_fnc :: "nat \<Rightarrow> (fnc \<Rightarrow> fnc) \<Rightarrow> builder \<Rightarrow> builder" where
  "upd_fnc i f b = b\<lparr>b_stor := (b_stor b)\<lparr>fncs := db_upd i f (fncs (b_stor b))\<rparr>\<rparr>"

text \<open>A write through the pointer to the current function; without one it is a crash.\<close>

definition upd_cur :: "(fnc \<Rightarrow> fnc option) \<Rightarrow> builder \<Rightarrow> builder option" where
  "upd_cur f b = do {
     i \<leftarrow> b_fnc b;
     fn \<leftarrow> cur_fnc b;
     fn' \<leftarrow> f fn;
     Some (upd_fnc i (\<lambda>_. fn') b)
   }"

section \<open>Reading operands\<close>

fun varCodeByScope :: "cl_scope_e \<Rightarrow> bool \<Rightarrow> EVar" where
  "varCodeByScope CL_SCOPE_GLOBAL isArgDecl = VAR_GL"
| "varCodeByScope CL_SCOPE_STATIC isArgDecl = VAR_GL"
| "varCodeByScope CL_SCOPE_FUNCTION isArgDecl = (if isArgDecl then VAR_FNC_ARG else VAR_LC)"

text \<open>The entry of a variable in the tables of names.\<close>

definition reg_var_name :: "cl_scope_e \<Rightarrow> svar \<Rightarrow> int \<Rightarrow> name_db \<Rightarrow> name_db" where
  "reg_var_name sc v vid nm = (case sc of
     CL_SCOPE_GLOBAL \<Rightarrow>
       (if sv_name v \<noteq> [] then nm\<lparr>glNames := (glNames nm)(sv_name v := Some vid)\<rparr> else nm)
   | CL_SCOPE_STATIC \<Rightarrow> (case loc_file (sv_loc v) of
       None \<Rightarrow> nm
     | Some file \<Rightarrow> if sv_name v = [] then nm
         else nm\<lparr>lcNames := (lcNames nm)(file := (lcNames nm file)(sv_name v := Some vid))\<rparr>)
   | CL_SCOPE_FUNCTION \<Rightarrow> nm)"

fun digOperandVar :: "cl_operand \<Rightarrow> bool \<Rightarrow> builder \<Rightarrow> (bool \<times> builder) option" where
  "digOperandVar (CL_OPERAND_VAR sc t acs cv) isArgDecl b = do {
     let vid = cv_uid cv;
     b \<leftarrow> upd_cur (\<lambda>f. Some (f\<lparr>fnc_vars := insert vid (fnc_vars f)\<rparr>)) b;
     let (idx, vs) = dbLookup Var_dummy vid (vars (b_stor b));
     let b = b\<lparr>b_stor := (b_stor b)\<lparr>vars := vs\<rparr>\<rparr>;
     if sv_code (db_tab vs ! idx) \<noteq> VAR_VOID then Some (False, b)
     else do {
       v \<leftarrow> Var_ctor (varCodeByScope sc isArgDecl) (CL_OPERAND_VAR sc t acs cv);
       let st = (b_stor b)\<lparr>vars := db_upd idx (\<lambda>_. v) vs,
                           varNames := reg_var_name sc v vid (varNames (b_stor b))\<rparr>;
       Some (True, b\<lparr>b_stor := st\<rparr>)
     }
   }"
| "digOperandVar op isArgDecl b = None"

definition reg_fnc_name :: "cl_scope_e \<Rightarrow> string option \<Rightarrow> string \<Rightarrow> int \<Rightarrow> name_db \<Rightarrow> name_db option" where
  "reg_fnc_name sc file nm uid db =
     (if sc = CL_SCOPE_GLOBAL then Some (db\<lparr>glNames := (glNames db)(nm := Some uid)\<rparr>)
      else do {
        file \<leftarrow> file;
        Some (db\<lparr>lcNames := (lcNames db)(file := (lcNames db file)(nm := Some uid))\<rparr>)
      })"

fun digOperandCst :: "cl_operand \<Rightarrow> builder \<Rightarrow> builder option" where
  "digOperandCst (CL_OPERAND_CST sc t acs (CstFnc uid nm is_extern loc)) b = do {
     cl_break_if (sc = CL_SCOPE_FUNCTION);
     let (idx, fs) = dbLookup new_fnc uid (fncs (b_stor b));
     let fs = (if fnc_def (db_tab fs ! idx) = CL_OPERAND_VOID
               then db_upd idx (\<lambda>f. f\<lparr>fnc_def := CL_OPERAND_CST sc t acs (CstFnc uid nm is_extern loc)\<rparr>) fs
               else fs);
     nm \<leftarrow> nm;
     names \<leftarrow> reg_fnc_name sc (b_file b) nm uid (fncNames (b_stor b));
     Some (b\<lparr>b_stor := (b_stor b)\<lparr>fncs := fs, fncNames := names\<rparr>\<rparr>)
   }"
| "digOperandCst op b = Some b"

definition dig_types :: "cl_mem \<Rightarrow> cl_operand \<Rightarrow> type_db \<Rightarrow> type_db option" where
  "dig_types M op db = do {
     db \<leftarrow> readTypeTree M (op_type op) db;
     ofold (\<lambda>ac db. do {
       db \<leftarrow> readTypeTree M (ac_type ac) db;
       case ac of CL_ACCESSOR_DEREF_ARRAY t idx \<Rightarrow> readTypeTree M (op_type idx) db | _ \<Rightarrow> Some db
     }) (op_accessor op) db
   }"

fun is_deref :: "cl_accessor \<Rightarrow> bool" where
  "is_deref (CL_ACCESSOR_DEREF t) = True"
| "is_deref ac = False"

text \<open>The operand takes a reference to its variable.\<close>

definition takes_ref :: "bool \<Rightarrow> cl_accessor list \<Rightarrow> bool option" where
  "takes_ref preventRefOps acs =
     (if preventRefOps \<or> acs = [] \<or> is_deref (hd acs) then Some False else seekRefAccessor acs)"

definition mark_pointed :: "int \<Rightarrow> builder \<Rightarrow> builder" where
  "mark_pointed vid b = (let (idx, vs) = dbLookup Var_dummy vid (vars (b_stor b)) in
     b\<lparr>b_stor := (b_stor b)\<lparr>vars := db_upd idx (\<lambda>v. v\<lparr>sv_mayBePointed := True\<rparr>) vs\<rparr>\<rparr>)"

definition push_initial :: "int \<Rightarrow> insn \<Rightarrow> builder \<Rightarrow> builder" where
  "push_initial vid i b = (let (idx, vs) = dbLookup Var_dummy vid (vars (b_stor b)) in
     b\<lparr>b_stor := (b_stor b)\<lparr>vars := db_upd idx (\<lambda>v. v\<lparr>sv_initials := sv_initials v @ [i]\<rparr>) vs\<rparr>\<rparr>)"

text \<open>
  \<open>digInitials\<close> with the function that reads the operands of an initialiser, and \<open>digOperand\<close>, which
  calls it for a variable that is seen for the first time.  Initialisers may refer to each other and to
  the variable itself; no variable is new twice.
\<close>

definition digInitials :: "(cl_operand \<Rightarrow> builder \<Rightarrow> builder option) \<Rightarrow> cl_mem \<Rightarrow> cl_operand \<Rightarrow> builder \<Rightarrow>
    builder option" where
  "digInitials dig M op b = do {
     vid \<leftarrow> varIdFromOperand op;
     ofold (\<lambda>cli b. do {
       (i, _) \<leftarrow> createInsn cli None;
       ofold dig (operands i) (push_initial vid i b)
     }) (mem_initials M vid) b
   }"

lemma ofold_mono [partial_function_mono]:
  assumes "\<And>x s. mono_option (\<lambda>f. B f x s)"
  shows "mono_option (\<lambda>f. ofold (B f) xs s)"
proof (induction xs arbitrary: s)
  case Nil
  show ?case by (simp add: option.const_mono)
next
  case (Cons x xs)
  show ?case unfolding ofold.simps by (rule bind_mono [OF assms Cons.IH])
qed

lemma digInitials_mono [partial_function_mono]:
  assumes "\<And>x s. mono_option (\<lambda>f. B f x s)"
  shows "mono_option (\<lambda>f. digInitials (B f) M op b)"
  unfolding digInitials_def case_prod_beta by (intro partial_function_mono assms)

partial_function (option) digOperand :: "cl_mem \<Rightarrow> cl_operand \<Rightarrow> builder \<Rightarrow> builder option" where
  "digOperand M op b = (case op of
     CL_OPERAND_VOID \<Rightarrow> Some b
   | CL_OPERAND_CST sc t acs c \<Rightarrow> do {
       db \<leftarrow> dig_types M op (types (b_stor b));
       digOperandCst op (b\<lparr>b_stor := (b_stor b)\<lparr>types := db\<rparr>\<rparr>)
     }
   | CL_OPERAND_VAR sc t acs cv \<Rightarrow> do {
       db \<leftarrow> dig_types M op (types (b_stor b));
       (fresh, b) \<leftarrow> digOperandVar op False (b\<lparr>b_stor := (b_stor b)\<lparr>types := db\<rparr>\<rparr>);
       ref \<leftarrow> takes_ref (b_preventRefOps b) acs;
       let b = (if ref then mark_pointed (cv_uid cv) b else b);
       if \<not> fresh then Some b else digInitials (digOperand M) M op b
     })"

declare digOperand.simps [code]

section \<open>Opening and closing instructions\<close>

definition openInsn :: "insn \<Rightarrow> builder \<Rightarrow> builder option" where
  "openInsn i b = do {
     cl_break_if (b_insn b \<noteq> None);
     cl_break_if (b_bb b = 0);
     f \<leftarrow> cur_fnc b;
     bb \<leftarrow> bb_at (fnc_cfg f) (b_bb b);
     bb' \<leftarrow> Block_append i bb;
     b' \<leftarrow> upd_cur (\<lambda>f. Some (f\<lparr>fnc_cfg := bb_upd (b_bb b) (\<lambda>_. bb') (fnc_cfg f)\<rparr>)) b;
     Some (b'\<lparr>b_insn := Some (b_bb b, length (bb_insns bb))\<rparr>)
   }"

text \<open>Read and write the open instruction.\<close>

definition open_insn :: "builder \<Rightarrow> insn option" where
  "open_insn b = do {
     (bb, n) \<leftarrow> b_insn b;
     f \<leftarrow> cur_fnc b;
     blk \<leftarrow> bb_at (fnc_cfg f) bb;
     cl_break_if (length (bb_insns blk) \<le> n);
     Some (bb_insns blk ! n)
   }"

definition upd_open :: "(insn \<Rightarrow> insn) \<Rightarrow> builder \<Rightarrow> builder option" where
  "upd_open f b = do {
     (bb, n) \<leftarrow> b_insn b;
     i \<leftarrow> open_insn b;
     upd_cur (\<lambda>fn. Some (fn\<lparr>fnc_cfg := bb_upd bb (\<lambda>blk. blk\<lparr>bb_insns := (bb_insns blk)[n := f i]\<rparr>)
       (fnc_cfg fn)\<rparr>)) b
   }"

definition add_preds :: "TBlock \<Rightarrow> TBlock list \<Rightarrow> cfg \<Rightarrow> cfg option" where
  "add_preds bb ts g = ofold (\<lambda>t g. do {
     _ \<leftarrow> bb_at g t;
     Some (bb_upd t (appendPredecessor bb) g)
   }) ts g"

definition closeInsn :: "cl_mem \<Rightarrow> builder \<Rightarrow> builder option" where
  "closeInsn M b = do {
     i \<leftarrow> open_insn b;
     b \<leftarrow> ofold (digOperand M) (operands i) b;
     b \<leftarrow> upd_cur (\<lambda>f. do { g \<leftarrow> add_preds (b_bb b) (targets i) (fnc_cfg f); Some (f\<lparr>fnc_cfg := g\<rparr>) }) b;
     b \<leftarrow> upd_open (\<lambda>i. i\<lparr>killPerTarget := replicate (length (targets i)) []\<rparr>) b;
     Some (b\<lparr>b_insn := None\<rparr>)
   }"

section \<open>The callbacks\<close>

definition b_fnc_open :: "cl_mem \<Rightarrow> cl_operand \<Rightarrow> builder \<Rightarrow> builder option" where
  "b_fnc_open M op b = (case op of
     CL_OPERAND_CST sc t acs (CstFnc uid nm is_extern loc) \<Rightarrow> do {
       cl_break_if (loc_file loc = None);
       let (idx, fs) = dbLookup new_fnc uid (fncs (b_stor b));
       let fs = db_upd idx (\<lambda>f. f\<lparr>fnc_def := op\<rparr>) fs;
       b \<leftarrow> digOperand M op (b\<lparr>b_file := loc_file loc, b_fnc := Some idx,
              b_stor := (b_stor b)\<lparr>fncs := fs\<rparr>\<rparr>);
       Some (b\<lparr>b_bb := 0\<rparr>)
     }
   | _ \<Rightarrow> None)"

definition b_fnc_arg_decl :: "int \<Rightarrow> cl_operand \<Rightarrow> builder \<Rightarrow> builder option" where
  "b_fnc_arg_decl pos op b = do {
     (_, b) \<leftarrow> digOperandVar op True b;
     uid \<leftarrow> varIdFromOperand op;
     b \<leftarrow> upd_cur (\<lambda>f. Some (f\<lparr>fnc_args := fnc_args f @ [uid]\<rparr>)) b;
     f \<leftarrow> cur_fnc b;
     cl_break_if (int (length (fnc_args f)) \<noteq> pos);
     Some b
   }"

definition b_bb_open :: "string \<Rightarrow> builder \<Rightarrow> builder option" where
  "b_bb_open nm b = do {
     f \<leftarrow> cur_fnc b;
     let (bb, g) = cfg_block nm (fnc_cfg f);
     b \<leftarrow> upd_cur (\<lambda>f. Some (f\<lparr>fnc_cfg := g\<rparr>)) b;
     Some (b\<lparr>b_bb := bb\<rparr>)
   }"

definition b_insn_cb :: "cl_mem \<Rightarrow> cl_insn \<Rightarrow> builder \<Rightarrow> builder option" where
  "b_insn_cb M cli b =
     (if b_bb b = 0 then Some b
      else do {
        f \<leftarrow> cur_fnc b;
        (i, g) \<leftarrow> createInsn cli (Some (fnc_cfg f));
        g \<leftarrow> g;
        b \<leftarrow> upd_cur (\<lambda>f. Some (f\<lparr>fnc_cfg := g\<rparr>)) b;
        b \<leftarrow> openInsn i b;
        closeInsn M b
      })"

definition b_insn_call_open :: "cl_loc \<Rightarrow> cl_operand \<Rightarrow> cl_operand \<Rightarrow> builder \<Rightarrow> builder option" where
  "b_insn_call_open loc dst fn b =
     openInsn ((new_insn CL_INSN_CALL loc)\<lparr>operands := [dst, fn]\<rparr>)
       (b\<lparr>b_preventRefOps := isBuiltInFnc fn\<rparr>)"

definition b_insn_call_arg :: "cl_operand \<Rightarrow> builder \<Rightarrow> builder option" where
  "b_insn_call_arg arg_src b = upd_open (\<lambda>i. i\<lparr>operands := operands i @ [arg_src]\<rparr>) b"

definition b_insn_call_close :: "cl_mem \<Rightarrow> builder \<Rightarrow> builder option" where
  "b_insn_call_close M b = do {
     b \<leftarrow> closeInsn M b;
     Some (b\<lparr>b_preventRefOps := False\<rparr>)
   }"

definition b_insn_switch_open :: "cl_loc \<Rightarrow> cl_operand \<Rightarrow> builder \<Rightarrow> builder option" where
  "b_insn_switch_open loc src b =
     openInsn ((new_insn CL_INSN_SWITCH loc)\<lparr>operands := [src], targets := [0]\<rparr>) b"

text \<open>The loop over the values of one case of a switch.\<close>

definition switch_add_case :: "(cl_cst \<Rightarrow> cl_operand) \<Rightarrow> TBlock \<Rightarrow> int \<Rightarrow> insn \<Rightarrow> insn option" where
  "switch_add_case mk bb v i = do {
     cl_break_if (length (operands i) \<noteq> length (targets i));
     Some (i\<lparr>operands := operands i @ [mk (CstInt v)], targets := targets i @ [bb]\<rparr>)
   }"

text \<open>
  A value of type \<open>long\<close> stored into an \<open>int\<close>.  The loop counter of the code runs to \<open>hi + 1\<close>, which
  overflows when \<open>hi\<close> is the largest \<open>int\<close>.
\<close>

definition to_c_int :: "int \<Rightarrow> int" where
  "to_c_int v = (v + 2 ^ 31) mod 2 ^ 32 - 2 ^ 31"

definition b_insn_switch_case :: "cl_operand \<Rightarrow> cl_operand \<Rightarrow> string \<Rightarrow> builder \<Rightarrow> builder option" where
  "b_insn_switch_case val_lo val_hi label b = do {
     f \<leftarrow> cur_fnc b;
     i \<leftarrow> open_insn b;
     case (val_lo, val_hi) of
       (CL_OPERAND_VOID, CL_OPERAND_VOID) \<Rightarrow> do {
         cl_break_if (targets i = []);
         cl_break_if (hd (targets i) \<noteq> 0);
         let (bb, g) = cfg_block label (fnc_cfg f);
         b \<leftarrow> upd_cur (\<lambda>f. Some (f\<lparr>fnc_cfg := g\<rparr>)) b;
         upd_open (\<lambda>i. i\<lparr>targets := (targets i)[0 := bb]\<rparr>) b
       }
     | (CL_OPERAND_CST sc t acs (CstInt vlo), CL_OPERAND_CST sc' t' acs' (CstInt vhi)) \<Rightarrow> do {
         let lo = to_c_int vlo;
         let hi = to_c_int vhi;
         cl_break_if (hi < lo);
         cl_break_if (hi = 2 ^ 31 - 1);
         let (bb, g) = cfg_block label (fnc_cfg f);
         b \<leftarrow> upd_cur (\<lambda>f. Some (f\<lparr>fnc_cfg := g\<rparr>)) b;
         i' \<leftarrow> ofold (switch_add_case (CL_OPERAND_CST sc t acs) bb) [lo..hi] i;
         upd_open (\<lambda>_. i') b
       }
     | _ \<Rightarrow> None
   }"

definition builder_step :: "cl_mem \<Rightarrow> callback \<Rightarrow> builder \<Rightarrow> builder option" where
  "builder_step M cb b = (case cb of
     file_open nm \<Rightarrow> Some (b\<lparr>b_file := Some nm\<rparr>)
   | file_close \<Rightarrow> Some (b\<lparr>b_file := None\<rparr>)
   | fnc_open op \<Rightarrow> b_fnc_open M op b
   | fnc_arg_decl pos op \<Rightarrow> b_fnc_arg_decl pos op b
   | fnc_close \<Rightarrow> Some (b\<lparr>b_fnc := None\<rparr>)
   | bb_open nm \<Rightarrow> b_bb_open nm b
   | insn_cb cli \<Rightarrow> b_insn_cb M cli b
   | insn_call_open loc dst fn \<Rightarrow> b_insn_call_open loc dst fn b
   | insn_call_arg arg op \<Rightarrow> b_insn_call_arg op b
   | insn_call_close \<Rightarrow> b_insn_call_close M b
   | insn_switch_open loc src \<Rightarrow> b_insn_switch_open loc src b
   | insn_switch_case loc lo hi label \<Rightarrow> b_insn_switch_case lo hi label b
   | insn_switch_close \<Rightarrow> closeInsn M b
   | acknowledge \<Rightarrow> Some b)"

definition builder_run :: "cl_mem \<Rightarrow> callback list \<Rightarrow> builder \<Rightarrow> builder option" where
  "builder_run M = ofold (builder_step M)"

end
