(* ===== verification/ClFilters.thy ===== *)
theory ClFilters
  imports ClBuild "HOL-Library.List_Lexorder" "HOL-Library.Char_ord"
begin

text \<open>
  The filters between a compiler front end and a code listener: the integrity checks of
  \<open>src/cl/clf_intchk.cc\<close> (the order of callbacks, and labels), the renaming of labels of
  \<open>src/cl/clf_unilabel.cc\<close> and the unfolding of switch statements of \<open>src/cl/clf_unswitch.cc\<close>.  A filter
  maps a callback and its state to the callbacks it passes on and the new state.
\<close>

section \<open>The order of callbacks\<close>

datatype EState = S_INIT | S_FILE_LEVEL | S_FNC_DECL | S_FNC_BODY | S_BLOCK_LEVEL | S_INSN_CALL
  | S_INSN_SWITCH | S_ACKNOWLEDGE | S_DESTROYED

text \<open>What an error message calls unexpected: a transition, or a callback by its name.\<close>

datatype unexpected = ToState EState | What string

record seq_chk =
  sc_state :: EState
  sc_loc :: cl_loc
  sc_errors :: "(cl_loc \<times> EState \<times> unexpected) list"

definition seq_chk_ctor :: seq_chk where
  "seq_chk_ctor = \<lparr>sc_state = S_INIT, sc_loc = cl_loc_unknown, sc_errors = []\<rparr>"

definition emitUnexpected :: "unexpected \<Rightarrow> seq_chk \<Rightarrow> seq_chk" where
  "emitUnexpected u c = c\<lparr>sc_errors := sc_errors c @ [(sc_loc c, sc_state c, u)]\<rparr>"

fun state_change_ok :: "EState \<Rightarrow> EState \<Rightarrow> bool" where
  "state_change_ok S_INIT s = (s = S_FILE_LEVEL \<or> s = S_ACKNOWLEDGE \<or> s = S_DESTROYED)"
| "state_change_ok S_FILE_LEVEL s = (s = S_INIT \<or> s = S_FNC_DECL \<or> s = S_DESTROYED)"
| "state_change_ok S_FNC_DECL s = False"
| "state_change_ok S_FNC_BODY s = (s = S_BLOCK_LEVEL \<or> s = S_FILE_LEVEL)"
| "state_change_ok S_BLOCK_LEVEL s = (s = S_INSN_CALL \<or> s = S_INSN_SWITCH)"
| "state_change_ok S_INSN_CALL s = False"
| "state_change_ok S_INSN_SWITCH s = False"
| "state_change_ok S_ACKNOWLEDGE s = (s = S_DESTROYED)"
| "state_change_ok S_DESTROYED s = False"

definition setState :: "EState \<Rightarrow> seq_chk \<Rightarrow> seq_chk option" where
  "setState s c = do {
     let c' = (if state_change_ok (sc_state c) s then c else emitUnexpected (ToState s) c);
     cl_break_if (sc_state c = S_DESTROYED);
     Some (c'\<lparr>sc_state := s\<rparr>)
   }"

text \<open>The \<open>chk...\<close> and \<open>set...Close\<close> methods: the states in which the callback is expected.\<close>

definition chk_in :: "EState set \<Rightarrow> string \<Rightarrow> seq_chk \<Rightarrow> seq_chk" where
  "chk_in S what c = (if sc_state c \<in> S then c else emitUnexpected (What what) c)"

definition chk_insn :: "cl_insn_e \<Rightarrow> seq_chk \<Rightarrow> seq_chk option" where
  "chk_insn code c = (case code of
     CL_INSN_NOP \<Rightarrow> Some (chk_in {S_BLOCK_LEVEL} ''CL_INSN_NOP'' c)
   | CL_INSN_JMP \<Rightarrow> Some ((chk_in {S_FNC_DECL, S_BLOCK_LEVEL} ''CL_INSN_JMP'' c)\<lparr>sc_state := S_FNC_BODY\<rparr>)
   | CL_INSN_COND \<Rightarrow> Some ((chk_in {S_BLOCK_LEVEL} ''CL_INSN_COND'' c)\<lparr>sc_state := S_FNC_BODY\<rparr>)
   | CL_INSN_RET \<Rightarrow> Some ((chk_in {S_BLOCK_LEVEL} ''CL_INSN_RET'' c)\<lparr>sc_state := S_FNC_BODY\<rparr>)
   | CL_INSN_CLOBBER \<Rightarrow> Some (chk_in {S_BLOCK_LEVEL} ''CL_INSN_CLOBBER'' c)
   | CL_INSN_ABORT \<Rightarrow> Some ((chk_in {S_BLOCK_LEVEL} ''CL_INSN_ABORT'' c)\<lparr>sc_state := S_FNC_BODY\<rparr>)
   | CL_INSN_UNOP \<Rightarrow> Some (chk_in {S_BLOCK_LEVEL} ''CL_INSN_UNOP'' c)
   | CL_INSN_BINOP \<Rightarrow> Some (chk_in {S_BLOCK_LEVEL} ''CL_INSN_BINOP'' c)
   | CL_INSN_CALL \<Rightarrow> None
   | CL_INSN_SWITCH \<Rightarrow> None
   | CL_INSN_LABEL \<Rightarrow> Some (chk_in {S_BLOCK_LEVEL} ''CL_INSN_LABEL'' c))"

text \<open>\<open>CL_LOC_SETIF\<close>, \<open>CL_LOC_SET_FILE\<close>.\<close>

definition loc_setif :: "cl_loc \<Rightarrow> cl_loc \<Rightarrow> cl_loc" where
  "loc_setif dst src = (if loc_file src \<noteq> None then src else dst)"

definition loc_of_file :: "string \<Rightarrow> cl_loc" where
  "loc_of_file nm = cl_loc_unknown\<lparr>loc_file := Some nm\<rparr>"

fun fnc_op_loc :: "cl_operand \<Rightarrow> cl_loc option" where
  "fnc_op_loc (CL_OPERAND_CST sc t acs (CstFnc uid nm ext loc)) = Some loc"
| "fnc_op_loc op = None"

definition seq_step :: "callback \<Rightarrow> seq_chk \<Rightarrow> seq_chk option" where
  "seq_step cb c = (case cb of
     file_open nm \<Rightarrow> setState S_FILE_LEVEL (c\<lparr>sc_loc := loc_of_file nm\<rparr>)
   | file_close \<Rightarrow> setState S_INIT (c\<lparr>sc_loc := cl_loc_unknown\<rparr>)
   | fnc_open op \<Rightarrow> do { loc \<leftarrow> fnc_op_loc op; setState S_FNC_DECL (c\<lparr>sc_loc := loc\<rparr>) }
   | fnc_arg_decl pos op \<Rightarrow> Some (chk_in {S_FNC_DECL} ''fnc_arg_decl'' c)
   | fnc_close \<Rightarrow> setState S_FILE_LEVEL c
   | bb_open nm \<Rightarrow> setState S_BLOCK_LEVEL c
   | insn_cb cli \<Rightarrow> chk_insn (cli_code cli) (c\<lparr>sc_loc := cli_loc cli\<rparr>)
   | insn_call_open loc dst fn \<Rightarrow> setState S_INSN_CALL (c\<lparr>sc_loc := loc_setif (sc_loc c) loc\<rparr>)
   | insn_call_arg arg op \<Rightarrow> Some (chk_in {S_INSN_CALL} ''insn_call_arg'' c)
   | insn_call_close \<Rightarrow> Some ((chk_in {S_INSN_CALL} ''insn_call_close'' c)\<lparr>sc_state := S_BLOCK_LEVEL\<rparr>)
   | insn_switch_open loc src \<Rightarrow> setState S_INSN_SWITCH (c\<lparr>sc_loc := loc_setif (sc_loc c) loc\<rparr>)
   | insn_switch_case loc lo hi label \<Rightarrow>
       Some (chk_in {S_INSN_SWITCH} ''insn_switch_case'' (c\<lparr>sc_loc := loc_setif (sc_loc c) loc\<rparr>))
   | insn_switch_close \<Rightarrow>
       Some ((chk_in {S_INSN_SWITCH} ''insn_switch_close'' c)\<lparr>sc_state := S_FNC_BODY\<rparr>)
   | acknowledge \<Rightarrow> setState S_ACKNOWLEDGE c)"

definition seq_run :: "callback list \<Rightarrow> seq_chk \<Rightarrow> seq_chk option" where
  "seq_run = ofold seq_step"

section \<open>Labels\<close>

record label_state =
  ls_defined :: bool
  ls_reachable :: bool
  ls_loc :: cl_loc

definition label_state_ctor :: label_state where
  "label_state_ctor = \<lparr>ls_defined = False, ls_reachable = False, ls_loc = cl_loc_unknown\<rparr>"

datatype label_msg = LabelRedefined string | LabelUndefined string | LabelUnreachable string

record label_chk =
  lc_map :: "(string, label_state) omap"
  lc_loc :: cl_loc
  lc_msgs :: "label_msg list"

definition label_chk_ctor :: label_chk where
  "label_chk_ctor = \<lparr>lc_map = [], lc_loc = cl_loc_unknown, lc_msgs = []\<rparr>"


text \<open>The state of a label through \<open>operator[]\<close>; a location is kept once it is known.\<close>

definition label_at :: "label_chk \<Rightarrow> string \<Rightarrow> label_state" where
  "label_at c label = omap_at label_state_ctor (lc_map c) label"

definition set_loc_once :: "cl_loc \<Rightarrow> label_state \<Rightarrow> label_state" where
  "set_loc_once loc ls = (if loc_file (ls_loc ls) = None then ls\<lparr>ls_loc := loc\<rparr> else ls)"

definition defineLabel :: "string \<Rightarrow> label_chk \<Rightarrow> label_chk" where
  "defineLabel label c = (let ls = label_at c label in
     c\<lparr>lc_msgs := (if ls_defined ls then lc_msgs c @ [LabelRedefined label] else lc_msgs c),
       lc_map := omap_put label (set_loc_once (lc_loc c) (ls\<lparr>ls_defined := True\<rparr>)) (lc_map c)\<rparr>)"

definition reqLabel :: "string \<Rightarrow> label_chk \<Rightarrow> label_chk" where
  "reqLabel label c =
     c\<lparr>lc_map := omap_put label
        (set_loc_once (lc_loc c) ((label_at c label)\<lparr>ls_reachable := True\<rparr>)) (lc_map c)\<rparr>"

definition label_warnings :: "string \<times> label_state \<Rightarrow> label_msg list" where
  "label_warnings = (\<lambda>(label, ls).
     (if ls_defined ls then [] else [LabelUndefined label]) @
     (if ls_reachable ls then [] else [LabelUnreachable label]))"

definition emitWarnings :: "label_chk \<Rightarrow> label_chk" where
  "emitWarnings c = c\<lparr>lc_msgs := lc_msgs c @ concat (map label_warnings (lc_map c))\<rparr>"

definition req_insn_labels :: "cl_insn \<Rightarrow> label_chk \<Rightarrow> label_chk option" where
  "req_insn_labels cli c = (case (cli_code cli, cli_data cli) of
     (CL_INSN_JMP, InsnJmp label) \<Rightarrow> Some (reqLabel label c)
   | (CL_INSN_JMP, _) \<Rightarrow> None
   | (CL_INSN_COND, InsnCond src then_label else_label) \<Rightarrow> Some (reqLabel else_label (reqLabel then_label c))
   | (CL_INSN_COND, _) \<Rightarrow> None
   | _ \<Rightarrow> Some c)"

definition label_step :: "callback \<Rightarrow> label_chk \<Rightarrow> label_chk option" where
  "label_step cb c = (case cb of
     file_open nm \<Rightarrow> Some (c\<lparr>lc_loc := loc_of_file nm\<rparr>)
   | fnc_open op \<Rightarrow> do { loc \<leftarrow> fnc_op_loc op; Some (c\<lparr>lc_loc := loc, lc_map := []\<rparr>) }
   | fnc_close \<Rightarrow> Some (emitWarnings c)
   | bb_open nm \<Rightarrow> Some (defineLabel nm c)
   | insn_cb cli \<Rightarrow> req_insn_labels cli (c\<lparr>lc_loc := cli_loc cli\<rparr>)
   | insn_switch_case loc lo hi label \<Rightarrow>
       Some (reqLabel label (c\<lparr>lc_loc := loc_setif (lc_loc c) loc\<rparr>))
   | _ \<Rightarrow> Some c)"

text \<open>An error of the label check is a redefinition or a jump to nowhere; the rest are warnings.\<close>

fun is_label_error :: "label_msg \<Rightarrow> bool" where
  "is_label_error (LabelRedefined l) = True"
| "is_label_error (LabelUndefined l) = True"
| "is_label_error (LabelUnreachable l) = False"

section \<open>Unique labels\<close>

fun dec_digits :: "nat \<Rightarrow> string" where
  "dec_digits n = (if n < 10 then [char_of (48 + n)] else dec_digits (n div 10) @ [char_of (48 + n mod 10)])"

declare dec_digits.simps [simp del]

record uni_label =
  ul_scope :: cl_scope_e
  ul_map :: "string \<Rightarrow> nat option"
  ul_last :: nat

definition uni_label_ctor :: "cl_scope_e \<Rightarrow> uni_label" where
  "uni_label_ctor sc = \<lparr>ul_scope = sc, ul_map = (\<lambda>_. None), ul_last = 0\<rparr>"

definition labelLookup :: "string \<Rightarrow> uni_label \<Rightarrow> nat \<times> uni_label" where
  "labelLookup label u = (case ul_map u label of
     Some n \<Rightarrow> (n, u)
   | None \<Rightarrow> (ul_last u + 1,
       u\<lparr>ul_map := (ul_map u)(label := Some (ul_last u + 1)), ul_last := ul_last u + 1\<rparr>))"

definition resolveLabel :: "string \<Rightarrow> uni_label \<Rightarrow> string \<times> uni_label" where
  "resolveLabel label u = (let (n, u) = labelLookup label u in (''L'' @ dec_digits n, u))"

definition ul_reset :: "uni_label \<Rightarrow> uni_label" where
  "ul_reset u = u\<lparr>ul_map := (\<lambda>_. None), ul_last := 0\<rparr>"

definition ul_insn :: "cl_insn \<Rightarrow> uni_label \<Rightarrow> (cl_insn \<times> uni_label) option" where
  "ul_insn cli u = (case (cli_code cli, cli_data cli) of
     (CL_INSN_JMP, InsnJmp label) \<Rightarrow>
       (let (l, u) = resolveLabel label u in Some (cli\<lparr>cli_data := InsnJmp l\<rparr>, u))
   | (CL_INSN_JMP, _) \<Rightarrow> None
   | (CL_INSN_COND, InsnCond src then_label else_label) \<Rightarrow>
       (let (l1, u) = resolveLabel then_label u; (l2, u) = resolveLabel else_label u in
        Some (cli\<lparr>cli_data := InsnCond src l1 l2\<rparr>, u))
   | (CL_INSN_COND, _) \<Rightarrow> None
   | _ \<Rightarrow> Some (cli, u))"

definition ul_step :: "callback \<Rightarrow> uni_label \<Rightarrow> (callback list \<times> uni_label) option" where
  "ul_step cb u = (case cb of
     file_open nm \<Rightarrow> Some ([cb], if ul_scope u = CL_SCOPE_STATIC then ul_reset u else u)
   | fnc_open op \<Rightarrow> Some ([cb], if ul_scope u = CL_SCOPE_FUNCTION then ul_reset u else u)
   | bb_open nm \<Rightarrow> (let (l, u) = resolveLabel nm u in Some ([bb_open l], u))
   | insn_cb cli \<Rightarrow> do { (cli, u) \<leftarrow> ul_insn cli u; Some ([insn_cb cli], u) }
   | insn_switch_case loc lo hi label \<Rightarrow>
       (let (l, u) = resolveLabel label u in Some ([insn_switch_case loc lo hi l], u))
   | _ \<Rightarrow> Some ([cb], u))"

section \<open>Unfolding of switch statements\<close>

record unfold_switch =
  us_caseCnt :: nat
  us_switchCnt :: nat
  us_src :: cl_operand
  us_loc :: cl_loc
  us_defLabel :: string
  us_defLoc :: cl_loc

definition unfold_switch_ctor :: unfold_switch where
  "unfold_switch_ctor = \<lparr>us_caseCnt = 0, us_switchCnt = 0, us_src = CL_OPERAND_VOID,
     us_loc = cl_loc_unknown, us_defLabel = [], us_defLoc = cl_loc_unknown\<rparr>"

fun getCaseVal :: "cl_mem \<Rightarrow> cl_operand \<Rightarrow> int option" where
  "getCaseVal M (CL_OPERAND_CST sc ty acs (CstInt v)) = do {
     cl_break_if (ty = 0);
     t \<leftarrow> mem_types M ty;
     cl_break_if (clt_code t \<noteq> CL_TYPE_ENUM \<and> clt_code t \<noteq> CL_TYPE_INT);
     Some (to_c_int v)
   }"
| "getCaseVal M op = None"

definition acquireClVar :: "unfold_switch \<Rightarrow> cl_var_s" where
  "acquireClVar u = \<lparr>cv_uid = 0x400000 + int (us_switchCnt u), cv_name = None, cv_artificial = False,
     cv_loc = \<lparr>loc_file = None, loc_line = - 1, loc_column = 0, loc_sysp = False\<rparr>,
     cv_initialized = False, cv_is_extern = False\<rparr>"

definition aux_label :: "unfold_switch \<Rightarrow> string" where
  "aux_label u = ''switch_'' @ dec_digits (us_switchCnt u) @ ''__case_'' @ dec_digits (us_caseCnt u + 1)"

text \<open>One value of one case: a comparison, a branch, and the block for the rest; \<open>btype\<close> is the address
  of the static type of the comparison.\<close>

definition emitCase :: "TObjType \<Rightarrow> int \<Rightarrow> TObjType \<Rightarrow> string \<Rightarrow> unfold_switch \<Rightarrow> callback list \<times> unfold_switch" where
  "emitCase btype cst ty label u = (let
       reg = CL_OPERAND_VAR CL_SCOPE_FUNCTION btype [] (acquireClVar u);
       val = CL_OPERAND_CST CL_SCOPE_FUNCTION ty [] (CstInt cst);
       aux = aux_label u
     in ([insn_cb \<lparr>cli_code = CL_INSN_BINOP, cli_loc = us_loc u,
            cli_data = InsnBinop CL_BINOP_EQ reg (us_src u) val\<rparr>,
          insn_cb \<lparr>cli_code = CL_INSN_COND, cli_loc = us_loc u, cli_data = InsnCond reg label aux\<rparr>,
          bb_open aux],
         u\<lparr>us_caseCnt := us_caseCnt u + 1\<rparr>))"

fun emitCases :: "TObjType \<Rightarrow> int list \<Rightarrow> TObjType \<Rightarrow> string \<Rightarrow> unfold_switch \<Rightarrow> callback list \<times> unfold_switch" where
  "emitCases btype [] ty label u = ([], u)"
| "emitCases btype (v # vs) ty label u = (let (out, u) = emitCase btype v ty label u;
     (out', u) = emitCases btype vs ty label u in (out @ out', u))"

definition emitDefault :: "unfold_switch \<Rightarrow> (callback list \<times> unfold_switch) option" where
  "emitDefault u = do {
     cl_break_if (us_defLabel u = []);
     Some ([insn_cb \<lparr>cli_code = CL_INSN_JMP, cli_loc = us_defLoc u, cli_data = InsnJmp (us_defLabel u)\<rparr>],
       u\<lparr>us_defLabel := []\<rparr>)
   }"

definition us_switch_case :: "cl_mem \<Rightarrow> TObjType \<Rightarrow> cl_loc \<Rightarrow> cl_operand \<Rightarrow> cl_operand \<Rightarrow> string \<Rightarrow>
    unfold_switch \<Rightarrow> (callback list \<times> unfold_switch) option" where
  "us_switch_case M btype loc val_lo val_hi label u =
     (if val_lo = CL_OPERAND_VOID \<and> val_hi = CL_OPERAND_VOID
      then Some ([], u\<lparr>us_defLabel := label, us_defLoc := loc\<rparr>)
      else do {
        lo \<leftarrow> getCaseVal M val_lo;
        hi \<leftarrow> getCaseVal M val_hi;
        cl_break_if (hi = 2 ^ 31 - 1);
        Some (emitCases btype [lo..hi] (op_type val_lo) label (u\<lparr>us_loc := loc\<rparr>))
      })"

definition us_step :: "cl_mem \<Rightarrow> TObjType \<Rightarrow> callback \<Rightarrow> unfold_switch \<Rightarrow>
    (callback list \<times> unfold_switch) option" where
  "us_step M btype cb u = (case cb of
     insn_switch_open loc src \<Rightarrow> Some ([], u\<lparr>us_src := src\<rparr>)
   | insn_switch_case loc lo hi label \<Rightarrow> us_switch_case M btype loc lo hi label u
   | insn_switch_close \<Rightarrow> do {
       (out, u) \<leftarrow> emitDefault u;
       Some (out, u\<lparr>us_caseCnt := 0, us_switchCnt := us_switchCnt u + 1\<rparr>)
     }
   | _ \<Rightarrow> Some ([cb], u))"

text \<open>A filter in front of a listener: every callback of the input is turned into callbacks of the output.\<close>

fun filter_run :: "(callback \<Rightarrow> 's \<Rightarrow> (callback list \<times> 's) option) \<Rightarrow> callback list \<Rightarrow> 's \<Rightarrow>
    (callback list \<times> 's) option" where
  "filter_run step [] s = Some ([], s)"
| "filter_run step (cb # cbs) s = do {
     (out, s) \<leftarrow> step cb s;
     (out', s) \<leftarrow> filter_run step cbs s;
     Some (out @ out', s)
   }"

end
