(* ===== verification/ClFront.thy ===== *)
theory ClFront
  imports ClFilters
begin

text \<open>
  The builder behind the integrity checks.  As long as neither of the checks reports an error, the
  control flow graphs that the builder makes are well formed: every block of a closed function ends with
  its only terminal instruction, and the list of predecessors of a block holds every edge that leads
  to it exactly once per target of a terminal instruction.  The analyses of the code model rely on it.
\<close>

section \<open>Well-formed control flow graphs\<close>

definition cfg_blocks :: "cfg \<Rightarrow> TBlock set" where
  "cfg_blocks g = {1..length (db_tab g)}"

lemma cfg_blocks_iff: "u \<in> cfg_blocks g \<longleftrightarrow> 1 \<le> u \<and> u \<le> length (db_tab g)"
  by (auto simp: cfg_blocks_def)

definition blk :: "cfg \<Rightarrow> TBlock \<Rightarrow> block" where
  "blk g bb = db_tab g ! (bb - 1)"

definition is_term :: "insn \<Rightarrow> bool" where
  "is_term i = cl_is_term_insn (in_code i)"

definition term_ended :: "block \<Rightarrow> bool" where
  "term_ended b \<longleftrightarrow> bb_insns b \<noteq> [] \<and> is_term (last (bb_insns b))"

text \<open>An instruction the analyses have not touched; \<open>closed\<close> when the builder is done with it.\<close>

definition insn_ok :: "nat \<Rightarrow> bool \<Rightarrow> insn \<Rightarrow> bool" where
  "insn_ok n closed i \<longleftrightarrow> (\<not> is_term i \<longrightarrow> targets i = []) \<and> varsToKill i = [] \<and> loopClosingTargets i = [] \<and>
     (if closed then set (targets i) \<subseteq> {1..n} \<and> killPerTarget i = replicate (length (targets i)) []
      else set (targets i) \<subseteq> {0..n})"

text \<open>The targets of the closed instructions of a block.\<close>

definition outs :: "(TBlock \<times> nat) option \<Rightarrow> cfg \<Rightarrow> TBlock \<Rightarrow> TBlock list" where
  "outs opn g u = concat (map (\<lambda>n. if opn = Some (u, n) then [] else targets (bb_insns (blk g u) ! n))
     [0..<length (bb_insns (blk g u))])"

definition cfg_base :: "(TBlock \<times> nat) option \<Rightarrow> cfg \<Rightarrow> bool" where
  "cfg_base opn g \<longleftrightarrow> db_wf g \<and>
     (\<forall>u \<in> cfg_blocks g. (\<forall>i \<in> set (butlast (bb_insns (blk g u))). \<not> is_term i) \<and>
        (\<forall>n < length (bb_insns (blk g u)). insn_ok (length (db_tab g)) (opn \<noteq> Some (u, n)) (bb_insns (blk g u) ! n)) \<and>
        set (inbound (blk g u)) \<subseteq> cfg_blocks g) \<and>
     (\<forall>u \<in> cfg_blocks g. \<forall>v \<in> cfg_blocks g. count_list (inbound (blk g v)) u = count_list (outs opn g u) v)"

definition cfg_done :: "cfg \<Rightarrow> bool" where
  "cfg_done g \<longleftrightarrow> cfg_base None g \<and> (\<forall>u \<in> cfg_blocks g. term_ended (blk g u))"

lemma db_wf_empty [simp]: "db_wf db_empty"
  by (simp add: db_wf_def db_empty_def)

lemma cfg_blocks_empty [simp]: "cfg_blocks db_empty = {}"
  by (simp add: cfg_blocks_def db_empty_def)

lemma cfg_done_empty [simp]: "cfg_done db_empty"
  by (simp add: cfg_done_def cfg_base_def)

lemma bb_at_blk [simp]: "bb_at g bb = Some b \<longleftrightarrow> bb \<in> cfg_blocks g \<and> b = blk g bb"
  by (auto simp: bb_at_def blk_def cfg_blocks_iff)

lemma cfg_baseD:
  assumes "cfg_base opn g"
  shows "db_wf g"
    and "u \<in> cfg_blocks g \<Longrightarrow> i \<in> set (butlast (bb_insns (blk g u))) \<Longrightarrow> \<not> is_term i"
    and "u \<in> cfg_blocks g \<Longrightarrow> n < length (bb_insns (blk g u)) \<Longrightarrow>
      insn_ok (length (db_tab g)) (opn \<noteq> Some (u, n)) (bb_insns (blk g u) ! n)"
    and "u \<in> cfg_blocks g \<Longrightarrow> set (inbound (blk g u)) \<subseteq> cfg_blocks g"
    and "u \<in> cfg_blocks g \<Longrightarrow> v \<in> cfg_blocks g \<Longrightarrow> count_list (inbound (blk g v)) u = count_list (outs opn g u) v"
  using assms unfolding cfg_base_def by blast+

lemma cfg_baseI:
  assumes "db_wf g"
    and "\<And>u i. u \<in> cfg_blocks g \<Longrightarrow> i \<in> set (butlast (bb_insns (blk g u))) \<Longrightarrow> \<not> is_term i"
    and "\<And>u n. u \<in> cfg_blocks g \<Longrightarrow> n < length (bb_insns (blk g u)) \<Longrightarrow>
      insn_ok (length (db_tab g)) (opn \<noteq> Some (u, n)) (bb_insns (blk g u) ! n)"
    and "\<And>u. u \<in> cfg_blocks g \<Longrightarrow> set (inbound (blk g u)) \<subseteq> cfg_blocks g"
    and "\<And>u v. u \<in> cfg_blocks g \<Longrightarrow> v \<in> cfg_blocks g \<Longrightarrow>
      count_list (inbound (blk g v)) u = count_list (outs opn g u) v"
  shows "cfg_base opn g"
  using assms unfolding cfg_base_def by blast

section \<open>Operations on the graph\<close>

subsection \<open>New blocks\<close>

lemma db_wf_less: "db_wf d \<Longrightarrow> db_map d key = Some idx \<Longrightarrow> idx < length (db_tab d)"
  by (auto simp: db_wf_def ran_def)

lemma db_wf_add:
  assumes "db_wf d" "db_map d key = None"
  shows "db_wf (d\<lparr>db_map := (db_map d)(key := Some (length (db_tab d))), db_tab := db_tab d @ [v]\<rparr>)"
proof -
  have r: "ran (db_map d) = {..<length (db_tab d)}" and i: "inj_on (db_map d) (dom (db_map d))"
    using assms(1) by (auto simp: db_wf_def)
  have "Some (length (db_tab d)) \<notin> db_map d ` dom (db_map d)"
    using r by (force simp: ran_def)
  moreover have "key \<notin> dom (db_map d)" using assms(2) by auto
  ultimately have "inj_on ((db_map d)(key := Some (length (db_tab d)))) (insert key (dom (db_map d)))"
    using i unfolding inj_on_def by (metis fun_upd_apply imageI insert_iff)
  then show ?thesis using r assms(2) by (simp add: db_wf_def lessThan_Suc)
qed

lemma db_wf_tab: "db_wf d \<Longrightarrow> length ts = length (db_tab d) \<Longrightarrow> db_wf (d\<lparr>db_tab := ts\<rparr>)"
  by (simp add: db_wf_def)

lemma insn_ok_mono: "insn_ok n c i \<Longrightarrow> n \<le> m \<Longrightarrow> insn_ok m c i"
  unfolding insn_ok_def by (auto split: if_splits)

lemma outs_range:
  assumes "cfg_base opn g" "u \<in> cfg_blocks g"
  shows "set (outs opn g u) \<subseteq> cfg_blocks g"
proof
  fix t
  assume "t \<in> set (outs opn g u)"
  then obtain n where "n < length (bb_insns (blk g u))" "opn \<noteq> Some (u, n)" "t \<in> set (targets (bb_insns (blk g u) ! n))"
    unfolding outs_def by (auto split: if_splits)
  with cfg_baseD(3) [OF assms, of n] show "t \<in> cfg_blocks g" by (auto simp: insn_ok_def cfg_blocks_iff)
qed

text \<open>\<open>cfg_block\<close> finds a block or adds an empty one.\<close>

definition cfg_added :: "string \<Rightarrow> cfg \<Rightarrow> cfg" where
  "cfg_added nm g = g\<lparr>db_map := (db_map g)(nm := Some (length (db_tab g))), db_tab := db_tab g @ [Block_ctor nm]\<rparr>"

lemma cfg_block_cases:
  assumes "cfg_block nm g = (bb, g')"
  obtains k where "db_map g nm = Some k" "bb = k + 1" "g' = g"
  | "db_map g nm = None" "bb = length (db_tab g) + 1" "g' = cfg_added nm g"
  using assms by (auto simp: cfg_block_def dbLookup_def cfg_added_def split: option.splits prod.splits)

lemma blk_added:
  "u \<in> cfg_blocks g \<Longrightarrow> blk (cfg_added nm g) u = blk g u"
  "blk (cfg_added nm g) (Suc (length (db_tab g))) = Block_ctor nm"
  "length (db_tab (cfg_added nm g)) = Suc (length (db_tab g))"
  by (auto simp: blk_def cfg_added_def nth_append cfg_blocks_iff)

lemma cfg_blocks_added: "cfg_blocks (cfg_added nm g) = insert (Suc (length (db_tab g))) (cfg_blocks g)"
  by (auto simp: cfg_blocks_iff blk_added(3))

lemma cfg_base_added:
  assumes b: "cfg_base opn g" and n: "db_map g nm = None"
    and o: "\<forall>u k. opn = Some (u, k) \<longrightarrow> u \<in> cfg_blocks g"
  shows "cfg_base opn (cfg_added nm g)"
proof (rule cfg_baseI)
  let ?g = "cfg_added nm g" and ?l = "length (db_tab g)"
  have new: "u \<in> cfg_blocks g \<or> u = Suc ?l" if "u \<in> cfg_blocks ?g" for u
    using that by (auto simp: cfg_blocks_added)
  have outs_old: "outs opn ?g u = outs opn g u" if "u \<in> cfg_blocks g" for u
    unfolding outs_def blk_added(1) [OF that] ..
  have outs_new: "outs opn ?g (Suc ?l) = []"
    by (simp add: outs_def blk_added Block_ctor_def)
  show "db_wf ?g" using db_wf_add [OF cfg_baseD(1) [OF b] n] by (simp add: cfg_added_def)
  fix u assume u: "u \<in> cfg_blocks ?g"
  { fix i assume "i \<in> set (butlast (bb_insns (blk ?g u)))"
    then show "\<not> is_term i" using new [OF u] cfg_baseD(2) [OF b] by (auto simp: blk_added Block_ctor_def) }
  { fix k assume "k < length (bb_insns (blk ?g u))"
    then show "insn_ok (length (db_tab ?g)) (opn \<noteq> Some (u, k)) (bb_insns (blk ?g u) ! k)"
      using new [OF u] cfg_baseD(3) [OF b, of u k]
      by (auto simp: blk_added Block_ctor_def intro: insn_ok_mono) }
  show "set (inbound (blk ?g u)) \<subseteq> cfg_blocks ?g"
    using new [OF u] cfg_baseD(4) [OF b, of u] by (auto simp: blk_added Block_ctor_def cfg_blocks_added)
  fix v assume v: "v \<in> cfg_blocks ?g"
  show "count_list (inbound (blk ?g v)) u = count_list (outs opn ?g u) v"
  proof (cases "v \<in> cfg_blocks g")
    case True
    then show ?thesis
    proof (cases "u \<in> cfg_blocks g")
      case False
      then have "u = Suc ?l" using new [OF u] by blast
      moreover have "u \<notin> set (inbound (blk g v))" using cfg_baseD(4) [OF b True] False by auto
      ultimately show ?thesis using True outs_new by (simp add: blk_added)
    qed (use cfg_baseD(5) [OF b] outs_old in \<open>simp add: blk_added\<close>)
  next
    case False
    then have "v = Suc ?l" using new [OF v] by blast
    moreover have "v \<notin> set (outs opn ?g u)"
      using new [OF u] outs_old outs_new outs_range [OF b, of u] False by auto
    ultimately show ?thesis by (simp add: blk_added Block_ctor_def)
  qed
qed

lemma cfg_base_block:
  assumes "cfg_base opn g" "cfg_block nm g = (bb, g')" "\<forall>u k. opn = Some (u, k) \<longrightarrow> u \<in> cfg_blocks g"
  shows "cfg_base opn g' \<and> bb \<in> cfg_blocks g' \<and> cfg_blocks g \<subseteq> cfg_blocks g' \<and>
    (\<forall>u \<in> cfg_blocks g. blk g' u = blk g u) \<and>
    db_map g' = (db_map g)(nm \<mapsto> bb - 1) \<and>
    (\<forall>u \<in> cfg_blocks g' - cfg_blocks g. u = bb \<and> bb_insns (blk g' u) = [])"
  using assms(2)
proof (cases rule: cfg_block_cases)
  case (1 k)
  with db_wf_less [OF cfg_baseD(1) [OF assms(1)] 1(1)] assms(1) show ?thesis
    by (auto simp: fun_upd_idem cfg_blocks_iff)
next
  case 2
  have "db_map (cfg_added nm g) = (db_map g)(nm \<mapsto> length (db_tab g))" by (simp add: cfg_added_def)
  with 2 cfg_base_added [OF assms(1) 2(1) assms(3)] show ?thesis
    by (auto simp: blk_added cfg_blocks_added Block_ctor_def)
qed


subsection \<open>Changes of one block\<close>

lemma bb_upd_simps [simp]:
  "cfg_blocks (bb_upd bb f g) = cfg_blocks g"
  "db_map (bb_upd bb f g) = db_map g"
  "length (db_tab (bb_upd bb f g)) = length (db_tab g)"
  by (simp_all add: bb_upd_def db_upd_def cfg_blocks_def)

lemma blk_bb_upd [simp]:
  "bb \<in> cfg_blocks g \<Longrightarrow> u \<in> cfg_blocks g \<Longrightarrow> blk (bb_upd bb f g) u = (if u = bb then f (blk g bb) else blk g u)"
  by (auto simp: bb_upd_def db_upd_def blk_def cfg_blocks_iff nth_list_update)

lemma db_wf_bb_upd [simp]: "db_wf (bb_upd bb f g) = db_wf g"
  by (simp add: bb_upd_def db_upd_def db_wf_def)

definition set_insns :: "TBlock \<Rightarrow> insn list \<Rightarrow> cfg \<Rightarrow> cfg" where
  "set_insns bb is g = bb_upd bb (\<lambda>b. b\<lparr>bb_insns := is\<rparr>) g"

lemma set_insns_simps [simp]:
  "cfg_blocks (set_insns bb is g) = cfg_blocks g"
  "db_map (set_insns bb is g) = db_map g"
  "length (db_tab (set_insns bb is g)) = length (db_tab g)"
  "bb \<in> cfg_blocks g \<Longrightarrow> u \<in> cfg_blocks g \<Longrightarrow>
     bb_insns (blk (set_insns bb is g) u) = (if u = bb then is else bb_insns (blk g u))"
  "bb \<in> cfg_blocks g \<Longrightarrow> u \<in> cfg_blocks g \<Longrightarrow> inbound (blk (set_insns bb is g) u) = inbound (blk g u)"
  by (simp_all add: set_insns_def)

lemma cfg_base_set_insns:
  assumes b: "cfg_base opn g" and bb: "bb \<in> cfg_blocks g"
    and t: "\<And>i. i \<in> set (butlast is) \<Longrightarrow> \<not> is_term i"
    and k: "\<And>n. n < length is \<Longrightarrow> insn_ok (length (db_tab g)) (opn' \<noteq> Some (bb, n)) (is ! n)"
    and o: "\<And>u n. u \<noteq> bb \<Longrightarrow> opn = Some (u, n) \<longleftrightarrow> opn' = Some (u, n)"
    and e: "outs opn' (set_insns bb is g) bb = outs opn g bb"
  shows "cfg_base opn' (set_insns bb is g)"
proof (rule cfg_baseI)
  let ?g = "set_insns bb is g"
  show "db_wf ?g" using cfg_baseD(1) [OF b] by (simp add: set_insns_def)
  fix u assume u': "u \<in> cfg_blocks ?g"
  then have u: "u \<in> cfg_blocks g" by simp
  { fix i assume "i \<in> set (butlast (bb_insns (blk ?g u)))"
    with u t cfg_baseD(2) [OF b u] bb show "\<not> is_term i" by (simp split: if_splits) }
  { fix n assume "n < length (bb_insns (blk ?g u))"
    with u k [of n] cfg_baseD(3) [OF b u, of n] bb o [of u n]
    show "insn_ok (length (db_tab ?g)) (opn' \<noteq> Some (u, n)) (bb_insns (blk ?g u) ! n)"
      by (auto split: if_splits) }
  show "set (inbound (blk ?g u)) \<subseteq> cfg_blocks ?g" using u bb cfg_baseD(4) [OF b u] by simp
  have "outs opn' ?g u = outs opn g u" if "u \<noteq> bb"
    using u bb that o [OF that] by (simp add: outs_def cong: if_cong)
  with e have "outs opn' ?g u = outs opn g u" by blast
  then show "count_list (inbound (blk ?g v)) u = count_list (outs opn' ?g u) v" if "v \<in> cfg_blocks ?g" for v
    using that u bb cfg_baseD(5) [OF b u, of v] by simp
qed

subsection \<open>Opening, filling and closing an instruction\<close>

text \<open>The open instruction is the last one of its block.\<close>

definition opened :: "cfg \<Rightarrow> TBlock \<Rightarrow> (TBlock \<times> nat) option" where
  "opened g bb = Some (bb, length (bb_insns (blk g bb)) - 1)"

lemma butlast_snoc_cases: "i \<in> set is \<Longrightarrow> i \<in> set (butlast is) \<or> i = last is"
  by (cases "is" rule: rev_cases) auto

lemma cfg_base_append:
  assumes b: "cfg_base None g" and bb: "bb \<in> cfg_blocks g" and n: "\<not> term_ended (blk g bb)"
    and i: "insn_ok (length (db_tab g)) False i"
  shows "cfg_base (opened (set_insns bb (bb_insns (blk g bb) @ [i]) g) bb)
     (set_insns bb (bb_insns (blk g bb) @ [i]) g)"
proof (rule cfg_base_set_insns [OF b bb])
  let ?is = "bb_insns (blk g bb)"
  let ?g = "set_insns bb (?is @ [i]) g"
  have opn: "opened ?g bb = Some (bb, length ?is)" using bb by (simp add: opened_def)
  fix j assume "j \<in> set (butlast (?is @ [i]))"
  then show "\<not> is_term j"
    using n cfg_baseD(2) [OF b bb] butlast_snoc_cases [of j ?is] by (auto simp: term_ended_def)
next
  let ?is = "bb_insns (blk g bb)"
  let ?g = "set_insns bb (?is @ [i]) g"
  have opn: "opened ?g bb = Some (bb, length ?is)" using bb by (simp add: opened_def)
  show "insn_ok (length (db_tab g)) (opened ?g bb \<noteq> Some (bb, k)) ((?is @ [i]) ! k)"
    if "k < length (?is @ [i])" for k
    using that opn i cfg_baseD(3) [OF b bb, of k] by (auto simp: nth_append less_Suc_eq)
  show "None = Some (u, k) \<longleftrightarrow> opened ?g bb = Some (u, k)" if "u \<noteq> bb" for u k
    using that opn by simp
  have "concat (map (\<lambda>k. if opened ?g bb = Some (bb, k) then [] else targets ((?is @ [i]) ! k)) [0..<length ?is])
      = concat (map (\<lambda>k. targets (?is ! k)) [0..<length ?is])"
    using opn by (intro arg_cong [where f = concat] map_cong) (auto simp: nth_append)
  then show "outs (opened ?g bb) ?g bb = outs None g bb" using opn bb by (simp add: outs_def cong: if_cong)
qed

lemma cfg_base_upd_open:
  assumes b: "cfg_base (opened g bb) g" and bb: "bb \<in> cfg_blocks g" and ne: "bb_insns (blk g bb) \<noteq> []"
    and i: "insn_ok (length (db_tab g)) False i"
  shows "cfg_base (opened g bb) (set_insns bb (butlast (bb_insns (blk g bb)) @ [i]) g)"
proof (rule cfg_base_set_insns [OF b bb])
  let ?is = "bb_insns (blk g bb)"
  let ?g = "set_insns bb (butlast ?is @ [i]) g"
  have opn: "opened g bb = Some (bb, length ?is - 1)" by (simp add: opened_def)
  show "\<not> is_term j" if "j \<in> set (butlast (butlast ?is @ [i]))" for j
    using that cfg_baseD(2) [OF b bb] by simp
  show "insn_ok (length (db_tab g)) (opened g bb \<noteq> Some (bb, k)) ((butlast ?is @ [i]) ! k)"
    if "k < length (butlast ?is @ [i])" for k
  proof (cases "k < length ?is - 1")
    case True
    then show ?thesis using opn cfg_baseD(3) [OF b bb, of k] by (simp add: nth_append nth_butlast)
  next
    case False
    then have "k = length ?is - 1" using that ne by simp
    then show ?thesis using opn i by (simp add: nth_append)
  qed
  have l: "[0..<length ?is] = [0..<length ?is - 1] @ [length ?is - 1]"
    using ne by (metis Suc_pred' length_greater_0_conv upt_Suc_append zero_le)
  have "length (butlast ?is @ [i]) = length ?is" using ne by simp
  then show "outs (opened g bb) ?g bb = outs (opened g bb) g bb"
    using opn bb l by (auto simp: outs_def nth_append nth_butlast intro!: arg_cong [where f = concat])
qed auto

lemma add_preds_effect:
  assumes "add_preds bb ts g = Some g'"
  shows "set ts \<subseteq> cfg_blocks g \<and> cfg_blocks g' = cfg_blocks g \<and> db_map g' = db_map g \<and>
    length (db_tab g') = length (db_tab g) \<and> db_wf g' = db_wf g \<and>
    (\<forall>u \<in> cfg_blocks g. bb_insns (blk g' u) = bb_insns (blk g u) \<and>
       inbound (blk g' u) = inbound (blk g u) @ replicate (count_list ts u) bb)"
  using assms
proof (induction ts arbitrary: g)
  case Nil
  then show ?case by (simp add: add_preds_def)
next
  case (Cons t ts)
  from Cons.prems obtain b where t: "bb_at g t = Some b"
    and r: "add_preds bb ts (bb_upd t (appendPredecessor bb) g) = Some g'"
    unfolding add_preds_def ofold.simps by (elim bind_SomeE) simp
  from t have t: "t \<in> cfg_blocks g" by simp
  note IH = Cons.IH [OF r]
  have "bb_insns (blk g' u) = bb_insns (blk g u) \<and>
      inbound (blk g' u) = inbound (blk g u) @ replicate (count_list (t # ts) u) bb" if "u \<in> cfg_blocks g" for u
    using IH t that by (auto simp: appendPredecessor_def)
  with IH t show ?case by simp
qed

definition closed_insn :: "insn \<Rightarrow> insn" where
  "closed_insn i = i\<lparr>killPerTarget := replicate (length (targets i)) []\<rparr>"

lemma count_list_replicate_iff: "count_list (replicate n x) y = (if x = y then n else 0)"
  by (induction n) auto

lemma cfg_base_close:
  assumes b: "cfg_base (opened g bb) g" and bb: "bb \<in> cfg_blocks g" and ne: "bb_insns (blk g bb) \<noteq> []"
    and p: "add_preds bb (targets (last (bb_insns (blk g bb)))) g = Some g'"
  shows "cfg_base None (set_insns bb (butlast (bb_insns (blk g bb)) @ [closed_insn (last (bb_insns (blk g bb)))]) g')"
    (is "cfg_base None ?h")
proof (rule cfg_baseI)
  let ?is = "bb_insns (blk g bb)"
  let ?ts = "targets (last ?is)"
  note e = add_preds_effect [OF p]
  have bb': "bb \<in> cfg_blocks g'" using e bb by simp
  have opn: "opened g bb = Some (bb, length ?is - 1)" by (simp add: opened_def)
  have len: "length (butlast ?is @ [closed_insn (last ?is)]) = length ?is" using ne by simp
  have last: "last ?is = ?is ! (length ?is - 1)" using ne by (simp add: last_conv_nth)
  have iok: "insn_ok (length (db_tab g)) False (last ?is)"
    using cfg_baseD(3) [OF b bb, of "length ?is - 1"] ne opn last by simp
  have [simp]: "targets (closed_insn i) = targets i" "is_term (closed_insn i) = is_term i" for i
    by (simp_all add: closed_insn_def is_term_def)
  have cok: "insn_ok (length (db_tab g)) True (closed_insn (last ?is))"
    using iok e by (auto simp: insn_ok_def cfg_blocks_def closed_insn_def is_term_def)
  show "db_wf ?h" using e cfg_baseD(1) [OF b] by (simp add: set_insns_def)
  fix u assume "u \<in> cfg_blocks ?h"
  then have u: "u \<in> cfg_blocks g" "u \<in> cfg_blocks g'" using e by auto
  have insns: "bb_insns (blk ?h u) = (if u = bb then butlast ?is @ [closed_insn (last ?is)] else bb_insns (blk g u))"
    using u bb' e by simp
  { fix i assume "i \<in> set (butlast (bb_insns (blk ?h u)))"
    then show "\<not> is_term i" using insns cfg_baseD(2) [OF b u(1)] by (auto split: if_splits) }
  { fix k assume k: "k < length (bb_insns (blk ?h u))"
    show "insn_ok (length (db_tab ?h)) (None \<noteq> Some (u, k)) (bb_insns (blk ?h u) ! k)"
      using k insns e opn cok cfg_baseD(3) [OF b u(1), of k] len ne
      by (auto simp: nth_append nth_butlast split: if_splits) }
  show "set (inbound (blk ?h u)) \<subseteq> cfg_blocks ?h"
    using u bb bb' e cfg_baseD(4) [OF b u(1)] by auto
  fix v assume "v \<in> cfg_blocks ?h"
  then have v: "v \<in> cfg_blocks g" "v \<in> cfg_blocks g'" using e by auto
  have l: "[0..<length ?is] = [0..<length ?is - 1] @ [length ?is - 1]"
    using ne by (metis Suc_pred' length_greater_0_conv upt_Suc_append zero_le)
  have "outs None ?h u = (if u = bb then outs (opened g bb) g u @ ?ts else outs (opened g bb) g u)"
    using insns opn l len by (auto simp: outs_def nth_append nth_butlast intro!: arg_cong [where f = concat])
  then show "count_list (inbound (blk ?h v)) u = count_list (outs None ?h u) v"
    using v bb' e cfg_baseD(5) [OF b u(1) v(1)] by (simp add: count_list_replicate_iff)
qed


section \<open>What the callbacks do to the graphs\<close>

definition cfgs :: "builder \<Rightarrow> cfg list" where
  "cfgs b = map fnc_cfg (db_tab (fncs (b_stor b)))"

text \<open>Reading operands adds functions without a body at most.\<close>

definition dig_rel :: "builder \<Rightarrow> builder \<Rightarrow> bool" where
  "dig_rel b b' \<longleftrightarrow> b_fnc b' = b_fnc b \<and> b_bb b' = b_bb b \<and> b_insn b' = b_insn b \<and>
     (db_wf (fncs (b_stor b)) \<longrightarrow> db_wf (fncs (b_stor b'))) \<and> (\<exists>k. cfgs b' = cfgs b @ replicate k db_empty)"

lemma dig_rel_refl [intro]: "dig_rel b b"
  by (auto simp: dig_rel_def intro: exI [of _ 0])

lemma dig_rel_trans [trans]: "dig_rel a b \<Longrightarrow> dig_rel b c \<Longrightarrow> dig_rel a c"
  unfolding dig_rel_def by (metis append.assoc replicate_add)

lemma dig_relI:
  assumes "b_fnc b' = b_fnc b" "b_bb b' = b_bb b" "b_insn b' = b_insn b" "fncs (b_stor b') = fncs (b_stor b)"
  shows "dig_rel b b'"
  using assms by (auto simp: dig_rel_def cfgs_def intro: exI [of _ 0])

lemma db_wf_upd [simp]: "db_wf (db_upd i f d) = db_wf d"
  by (simp add: db_upd_def db_wf_def)

lemma map_db_upd:
  assumes "i < length (db_tab d) \<Longrightarrow> h (f (db_tab d ! i)) = h (db_tab d ! i)"
  shows "map h (db_tab (db_upd i f d)) = map h (db_tab d)"
proof (cases "i < length (db_tab d)")
  case True
  have "map h (db_tab (db_upd i f d)) = (map h (db_tab d))[i := h (f (db_tab d ! i))]"
    by (simp add: db_upd_def map_update)
  then show ?thesis using True assms by (metis list_update_id nth_map)
qed (simp add: db_upd_def list_update_beyond)

lemma dig_rel_upd_fnc:
  assumes "\<And>f. fnc_cfg (u f) = fnc_cfg f"
  shows "dig_rel b (upd_fnc i u b)"
  using assms by (auto simp: dig_rel_def upd_fnc_def cfgs_def map_db_upd intro: exI [of _ 0])

lemma upd_cur_SomeD:
  assumes "upd_cur u b = Some b'"
  shows "\<exists>i f'. b_fnc b = Some i \<and> i < length (cfgs b) \<and> u (db_tab (fncs (b_stor b)) ! i) = Some f' \<and>
    b' = upd_fnc i (\<lambda>_. f') b"
  using assms unfolding upd_cur_def cur_fnc_def by (auto simp: bind_eq_Some_conv cfgs_def split: if_splits)

lemma cfgs_upd_fnc: "cfgs (upd_fnc i (\<lambda>_. f) b) = (cfgs b)[i := fnc_cfg f]"
  by (simp add: cfgs_def upd_fnc_def db_upd_def map_update)

lemma upd_fnc_fields [simp]:
  "b_fnc (upd_fnc i u b) = b_fnc b" "b_bb (upd_fnc i u b) = b_bb b" "b_insn (upd_fnc i u b) = b_insn b"
  "db_wf (fncs (b_stor (upd_fnc i u b))) = db_wf (fncs (b_stor b))"
  by (simp_all add: upd_fnc_def)

lemma upd_cur_keep:
  assumes "upd_cur (\<lambda>f. Some (u f)) b = Some b'" "\<And>f. fnc_cfg (u f) = fnc_cfg f"
  shows "dig_rel b b'"
proof -
  from upd_cur_SomeD [OF assms(1)] obtain i where i: "i < length (cfgs b)" 
    and b': "b' = upd_fnc i (\<lambda>_. u (db_tab (fncs (b_stor b)) ! i)) b" by auto
  have "cfgs b' = cfgs b" using i b' assms(2) by (simp add: cfgs_upd_fnc) (metis cfgs_def length_map list_update_id nth_map)
  then show ?thesis using b' by (auto simp: dig_rel_def intro: exI [of _ 0])
qed

lemma dig_rel_dbLookup:
  assumes "dbLookup new_fnc uid (fncs (b_stor b)) = (idx, fs)"
  shows "(db_wf (fncs (b_stor b)) \<longrightarrow> db_wf fs \<and> idx < length (db_tab fs)) \<and>
    (\<exists>k. map fnc_cfg (db_tab fs) = cfgs b @ replicate k db_empty)"
proof (cases "db_map (fncs (b_stor b)) uid")
  case None
  with assms db_wf_add [of "fncs (b_stor b)" uid new_fnc] show ?thesis
    by (auto simp: dbLookup_def cfgs_def new_fnc_def intro!: exI [of _ 1])
next
  case (Some k)
  with assms db_wf_less [OF _ Some] show ?thesis
    by (auto simp: dbLookup_def cfgs_def intro!: exI [of _ 0])
qed

lemma digOperandVar_rel:
  assumes "digOperandVar op isArgDecl b = Some (fresh, b')"
  shows "dig_rel b b'"
proof (cases op)
  case (CL_OPERAND_VAR sc t acs cv)
  from assms obtain b1 where u: "upd_cur (\<lambda>f. Some (f\<lparr>fnc_vars := insert (cv_uid cv) (fnc_vars f)\<rparr>)) b = Some b1"
    and r: "b_fnc b' = b_fnc b1" "b_bb b' = b_bb b1" "b_insn b' = b_insn b1" "fncs (b_stor b') = fncs (b_stor b1)"
    unfolding CL_OPERAND_VAR digOperandVar.simps Let_def
    by (elim bind_SomeE prod_SomeE if_SomeE pair_SomeE) auto
  have "dig_rel b b1" using u by (rule upd_cur_keep) simp
  then show ?thesis using dig_relI [OF r] by (rule dig_rel_trans)
qed (use assms in auto)

lemma digOperandCst_rel:
  assumes "digOperandCst op b = Some b'"
  shows "dig_rel b b'"
proof (cases "\<exists>sc t acs uid nm ext loc. op = CL_OPERAND_CST sc t acs (CstFnc uid nm ext loc)")
  case True
  then obtain sc t acs uid nm ext loc where op: "op = CL_OPERAND_CST sc t acs (CstFnc uid nm ext loc)" by blast
  obtain idx fs where l: "dbLookup new_fnc uid (fncs (b_stor b)) = (idx, fs)" by fastforce
  define fs' where "fs' = (if fnc_def (db_tab fs ! idx) = CL_OPERAND_VOID
     then db_upd idx (\<lambda>f. f\<lparr>fnc_def := op\<rparr>) fs else fs)"
  have "b_fnc b' = b_fnc b" "b_bb b' = b_bb b" "b_insn b' = b_insn b" "fncs (b_stor b') = fs'"
    using assms unfolding op digOperandCst.simps Let_def l prod.case cl_break_if_bind fs'_def
    by (auto simp: bind_eq_Some_conv split: if_splits)
  moreover have "map fnc_cfg (db_tab fs') = map fnc_cfg (db_tab fs)" "db_wf fs' = db_wf fs"
    by (simp_all add: fs'_def map_db_upd)
  ultimately show ?thesis using dig_rel_dbLookup [OF l] by (simp add: dig_rel_def cfgs_def)
next
  case False
  with assms have "b' = b" by (cases "(op, b)" rule: digOperandCst.cases) auto
  then show ?thesis by auto
qed

lemma ofold_dig_rel:
  assumes "ofold f xs b = Some b'" "\<And>x b b'. f x b = Some b' \<Longrightarrow> dig_rel b b'"
  shows "dig_rel b b'"
  using assms by (intro ofold_invariant [OF assms(1), of "dig_rel b"]) (auto intro: dig_rel_trans)

lemma digOperand_rel:
  assumes "digOperand M op b = Some b'"
  shows "dig_rel b b'"
proof (rule digOperand.raw_induct [where P = "\<lambda>M op b b'. dig_rel b b'", OF _ assms])
  fix dig M op b b'
  assume 2: "\<And>M op b b'. dig M op b = Some b' \<Longrightarrow> dig_rel b b'" and 3: "(case op of
     CL_OPERAND_VOID \<Rightarrow> Some b
   | CL_OPERAND_CST sc t acs c \<Rightarrow> do {
       db \<leftarrow> dig_types M op (types (b_stor b));
       digOperandCst op (b\<lparr>b_stor := (b_stor b)\<lparr>types := db\<rparr>\<rparr>)
     }
   | CL_OPERAND_VAR sc t acs cv \<Rightarrow> do {
       db \<leftarrow> dig_types M op (types (b_stor b));
       (fresh, b) \<leftarrow> digOperandVar op False (b\<lparr>b_stor := (b_stor b)\<lparr>types := db\<rparr>\<rparr>);
       ref \<leftarrow> takes_ref (b_preventRefOps b) acs;
       let b = (if ref then mark_pointed (cv_uid cv) b else b);
       if \<not> fresh then Some b else digInitials (dig M) M op b
     }) = Some b'"
  have types: "dig_rel b (b\<lparr>b_stor := (b_stor b)\<lparr>types := db\<rparr>\<rparr>)" for db
    by (rule dig_relI) auto
  from 3 show "dig_rel b b'"
  proof (cases op)
    case CL_OPERAND_VOID
    with 3 show ?thesis by auto
  next
    case (CL_OPERAND_CST sc t acs c)
    with 3 show ?thesis
      by (auto simp: bind_eq_Some_conv intro: dig_rel_trans [OF types digOperandCst_rel])
  next
    case (CL_OPERAND_VAR sc t acs cv)
    from 3 obtain db fresh b1 ref b2 where
      v: "digOperandVar op False (b\<lparr>b_stor := (b_stor b)\<lparr>types := db\<rparr>\<rparr>) = Some (fresh, b1)"
      and b2: "b2 = (if ref then mark_pointed (cv_uid cv) b1 else b1)"
      and r: "(if \<not> fresh then Some b2 else digInitials (dig M) M op b2) = Some b'"
      unfolding CL_OPERAND_VAR cl_operand.case Let_def by (elim bind_SomeE prod_SomeE) auto
    have "dig_rel b b2"
    proof -
      have "dig_rel b1 b2" unfolding b2 mark_pointed_def
        by (rule dig_relI) (auto split: prod.splits)
      then show ?thesis using types digOperandVar_rel [OF v] by (blast intro: dig_rel_trans)
    qed
    moreover have "dig_rel b2 b'"
    proof (cases fresh)
      case True
      have push: "dig_rel x (push_initial vid i x)" for vid i x
        unfolding push_initial_def by (rule dig_relI) (auto split: prod.splits)
      have "dig_rel x y" if "ofold (dig M) os x = Some y" for os x y
        using that 2 by (rule ofold_dig_rel)
      then have "dig_rel x y" if "ofold (dig M) os (push_initial vid i x) = Some y" for os vid i x y
        using that dig_rel_trans [OF push] by blast
      with r True show ?thesis unfolding digInitials_def
        by (auto simp: bind_eq_Some_conv elim!: ofold_dig_rel)
    qed (use r in auto)
    ultimately show ?thesis by (rule dig_rel_trans)
  qed
qed


section \<open>The invariant\<close>

text \<open>
  The graph under construction: \<open>s\<close> is the state of the sequence check, \<open>lm\<close> the table of labels, \<open>bb\<close>
  the current block.  A block that does not end yet is the current one, or its label is still undefined.
\<close>

definition in_block :: "EState \<Rightarrow> bool" where
  "in_block s \<longleftrightarrow> s = S_BLOCK_LEVEL \<or> s = S_INSN_CALL \<or> s = S_INSN_SWITCH"

definition known_label :: "(string, label_state) omap \<Rightarrow> string \<Rightarrow> bool" where
  "known_label lm nm \<longleftrightarrow> omap_find lm nm \<noteq> None"

definition defd_label :: "(string, label_state) omap \<Rightarrow> string \<Rightarrow> bool" where
  "defd_label lm nm \<longleftrightarrow> (\<exists>ls. omap_find lm nm = Some ls \<and> ls_defined ls)"

definition open_code :: "EState \<Rightarrow> cl_insn_e" where
  "open_code s = (if s = S_INSN_CALL then CL_INSN_CALL else CL_INSN_SWITCH)"

definition cur_inv :: "EState \<Rightarrow> (string, label_state) omap \<Rightarrow> TBlock \<Rightarrow> (TBlock \<times> nat) option \<Rightarrow> cfg \<Rightarrow> bool" where
  "cur_inv s lm bb opn g \<longleftrightarrow> cfg_base opn g \<and>
     (\<forall>nm k. db_map g nm = Some k \<longrightarrow> (in_block s \<and> Suc k = bb) \<or> term_ended (blk g (Suc k)) \<or>
        (known_label lm nm \<and> \<not> defd_label lm nm \<and> bb_insns (blk g (Suc k)) = [])) \<and>
     (\<forall>nm. defd_label lm nm \<longrightarrow> db_map g nm \<noteq> None) \<and>
     (s = S_FNC_DECL \<and> bb = 0 \<or> s = S_FNC_BODY \<or> in_block s \<and> bb \<in> cfg_blocks g) \<and>
     (if s = S_INSN_CALL \<or> s = S_INSN_SWITCH
      then opn = opened g bb \<and> bb_insns (blk g bb) \<noteq> [] \<and> in_code (last (bb_insns (blk g bb))) = open_code s
      else opn = None)"

definition front_inv :: "label_chk \<Rightarrow> seq_chk \<Rightarrow> builder \<Rightarrow> bool" where
  "front_inv l c b \<longleftrightarrow> omap_wf (lc_map l) \<and> db_wf (fncs (b_stor b)) \<and>
     (\<forall>j < length (cfgs b). b_fnc b \<noteq> Some j \<longrightarrow> cfg_done (cfgs b ! j)) \<and>
     (case b_fnc b of
        None \<Rightarrow> sc_state c \<in> {S_INIT, S_FILE_LEVEL, S_ACKNOWLEDGE} \<and> b_insn b = None
      | Some i \<Rightarrow> i < length (cfgs b) \<and> cur_inv (sc_state c) (lc_map l) (b_bb b) (b_insn b) (cfgs b ! i))"

text \<open>
  The three listeners in a row.  A file is opened outside of functions: the sequence check does not
  report a file that is opened after the last block of a function (\<open>seq_chk_misses_file_open\<close> below).
\<close>

fun file_nested :: "callback \<Rightarrow> EState \<Rightarrow> bool" where
  "file_nested (file_open nm) s \<longleftrightarrow> s = S_INIT"
| "file_nested cb s \<longleftrightarrow> True"

inductive front :: "cl_mem \<Rightarrow> label_chk \<Rightarrow> seq_chk \<Rightarrow> builder \<Rightarrow> bool" for M where
  init: "front M label_chk_ctor seq_chk_ctor builder_ctor"
| step: "front M l c b \<Longrightarrow> file_nested cb (sc_state c) \<Longrightarrow> label_step cb l = Some l' \<Longrightarrow>
    seq_step cb c = Some c' \<Longrightarrow> builder_step M cb b = Some b' \<Longrightarrow> front M l' c' b'"

definition no_errors :: "label_chk \<Rightarrow> seq_chk \<Rightarrow> bool" where
  "no_errors l c \<longleftrightarrow> sc_errors c = [] \<and> (\<forall>m \<in> set (lc_msgs l). \<not> is_label_error m)"

lemma front_inv_init: "front_inv label_chk_ctor seq_chk_ctor builder_ctor"
  by (simp add: front_inv_def label_chk_ctor_def seq_chk_ctor_def builder_ctor_def cfgs_def storage_empty_def)
    (simp add: db_empty_def)

text \<open>Reading operands keeps the invariant.\<close>

lemma nth_append_empty:
  "j < length (gs @ replicate k db_empty) \<Longrightarrow> \<not> j < length gs \<Longrightarrow> cfg_done ((gs @ replicate k db_empty) ! j)"
  by (simp add: nth_append)

definition others_done :: "builder \<Rightarrow> bool" where
  "others_done b \<longleftrightarrow> db_wf (fncs (b_stor b)) \<and> (\<forall>j < length (cfgs b). b_fnc b \<noteq> Some j \<longrightarrow> cfg_done (cfgs b ! j))"

lemma dig_rel_others: "dig_rel b b' \<Longrightarrow> others_done b \<Longrightarrow> others_done b'"
  by (auto simp: dig_rel_def others_done_def nth_append)

lemma dig_rel_cur: "dig_rel b b' \<Longrightarrow> i < length (cfgs b) \<Longrightarrow> i < length (cfgs b') \<and> cfgs b' ! i = cfgs b ! i"
  by (auto simp: dig_rel_def nth_append)

lemma front_inv_iff:
  "front_inv l c b \<longleftrightarrow> omap_wf (lc_map l) \<and> others_done b \<and>
     (case b_fnc b of
        None \<Rightarrow> sc_state c \<in> {S_INIT, S_FILE_LEVEL, S_ACKNOWLEDGE} \<and> b_insn b = None
      | Some i \<Rightarrow> i < length (cfgs b) \<and> cur_inv (sc_state c) (lc_map l) (b_bb b) (b_insn b) (cfgs b ! i))"
  by (auto simp: front_inv_def others_done_def)


section \<open>Effects of the builder on the current graph\<close>

definition eff :: "builder \<Rightarrow> builder \<Rightarrow> cfg \<Rightarrow> cfg \<Rightarrow> bool" where
  "eff b b' g g' \<longleftrightarrow> (\<exists>i k. b_fnc b = Some i \<and> b_fnc b' = Some i \<and> i < length (cfgs b) \<and> g = cfgs b ! i \<and>
     cfgs b' = (cfgs b)[i := g'] @ replicate k db_empty) \<and>
     (db_wf (fncs (b_stor b)) \<longrightarrow> db_wf (fncs (b_stor b')))"

lemma eff_trans [trans]: "eff a b g h \<Longrightarrow> eff b c h k \<Longrightarrow> eff a c g k"
proof -
  assume 1: "eff a b g h" and 2: "eff b c h k"
  from 1 obtain i m where i: "b_fnc a = Some i" "b_fnc b = Some i" "i < length (cfgs a)" "g = cfgs a ! i"
    "cfgs b = (cfgs a)[i := h] @ replicate m db_empty" unfolding eff_def by blast
  from 2 i obtain n where n: "b_fnc c = Some i" "cfgs c = (cfgs b)[i := k] @ replicate n db_empty"
    unfolding eff_def by auto
  have "cfgs c = (cfgs a)[i := k] @ replicate (m + n) db_empty"
    using i n by (simp add: list_update_append replicate_add)
  with 1 2 i n show ?thesis unfolding eff_def by blast
qed

lemma eff_dig:
  assumes "dig_rel b b'" "b_fnc b = Some i" "i < length (cfgs b)"
  shows "eff b b' (cfgs b ! i) (cfgs b ! i)"
  using assms unfolding eff_def dig_rel_def by auto

lemma eff_start: "eff a b g h \<Longrightarrow> b_fnc b = Some i \<Longrightarrow> i < length (cfgs b) \<and> cfgs b ! i = h"
  unfolding eff_def by (auto simp: nth_append)

lemma eff_fields:
  assumes "eff b b' g h" "b_fnc b = b_fnc c" "cfgs b = cfgs c" "db_wf (fncs (b_stor b)) = db_wf (fncs (b_stor c))"
    "b_fnc b' = b_fnc c'" "cfgs b' = cfgs c'" "db_wf (fncs (b_stor b')) = db_wf (fncs (b_stor c'))"
  shows "eff c c' g h"
  using assms unfolding eff_def by simp

lemma eff_others: "eff b b' g h \<Longrightarrow> others_done b \<Longrightarrow> others_done b'"
  unfolding eff_def others_done_def by (auto simp: nth_append nth_list_update)

lemma eff_upd_cur:
  assumes "upd_cur u b = Some b'" "b_fnc b = Some i"
    and "\<And>f f'. u f = Some f' \<Longrightarrow> fnc_cfg f = cfgs b ! i \<Longrightarrow> fnc_cfg f' = h"
  shows "eff b b' (cfgs b ! i) h \<and> b_bb b' = b_bb b \<and> b_insn b' = b_insn b"
proof -
  from upd_cur_SomeD [OF assms(1)] assms(2) obtain f' where f: "i < length (cfgs b)"
    "u (db_tab (fncs (b_stor b)) ! i) = Some f'" "b' = upd_fnc i (\<lambda>_. f') b" by auto
  have "fnc_cfg f' = h" using assms(3) f by (simp add: cfgs_def)
  then have "cfgs b' = (cfgs b)[i := h] @ replicate 0 db_empty" using f(3) by (simp add: cfgs_upd_fnc)
  then show ?thesis using f assms(2) unfolding eff_def by auto
qed

lemma cur_fnc_Some: "b_fnc b = Some i \<Longrightarrow> cur_fnc b = Some f \<Longrightarrow> i < length (cfgs b) \<and> fnc_cfg f = cfgs b ! i"
  by (auto simp: cur_fnc_def cfgs_def)

lemma openInsn_eff:
  assumes "openInsn ins b = Some b'" "b_fnc b = Some i"
  shows "b_insn b = None \<and> b_bb b \<in> cfg_blocks (cfgs b ! i) \<and> \<not> term_ended (blk (cfgs b ! i) (b_bb b)) \<and>
    b_bb b' = b_bb b \<and>
    (\<exists>h. h = set_insns (b_bb b) (bb_insns (blk (cfgs b ! i) (b_bb b)) @ [ins]) (cfgs b ! i) \<and>
       eff b b' (cfgs b ! i) h \<and> b_insn b' = opened h (b_bb b))"
proof -
  let ?g = "cfgs b ! i" and ?bb = "b_bb b"
  from assms obtain f bl bl' b1 where s: "b_insn b = None" "cur_fnc b = Some f" "bb_at (fnc_cfg f) ?bb = Some bl"
    "Block_append ins bl = Some bl'"
    "upd_cur (\<lambda>f. Some (f\<lparr>fnc_cfg := bb_upd ?bb (\<lambda>_. bl') (fnc_cfg f)\<rparr>)) b = Some b1"
    "b' = b1\<lparr>b_insn := Some (?bb, length (bb_insns bl))\<rparr>"
    unfolding openInsn_def by (auto simp del: not_None_eq elim!: bind_SomeE)
  have bl: "?bb \<in> cfg_blocks ?g" "bl = blk ?g ?bb" using s(2,3) cur_fnc_Some [OF assms(2)] by auto
  have bl': "\<not> term_ended bl" "bl' = bl\<lparr>bb_insns := bb_insns bl @ [ins]\<rparr>"
    using s(4) by (auto simp: Block_append_def term_ended_def is_term_def)
  let ?h = "set_insns ?bb (bb_insns (blk ?g ?bb) @ [ins]) ?g"
  have h: "bb_upd ?bb (\<lambda>_. bl') ?g = ?h"
    unfolding set_insns_def bb_upd_def db_upd_def bl'(2) bl(2) blk_def by simp
  have e: "eff b b1 ?g ?h \<and> b_bb b1 = b_bb b \<and> b_insn b1 = b_insn b"
    by (rule eff_upd_cur [OF s(5) assms(2)]) (use h in auto)
  have "eff b b' ?g ?h" by (rule eff_fields [OF conjunct1 [OF e]]) (auto simp: s(6) cfgs_def)
  then show ?thesis using s(1,6) e bl bl' by (simp add: opened_def)
qed

lemma upd_open_eff:
  assumes u: "upd_open u b = Some b'" "b_fnc b = Some i"
    and o: "b_insn b = opened (cfgs b ! i) bb" "bb_insns (blk (cfgs b ! i) bb) \<noteq> []"
  shows "bb \<in> cfg_blocks (cfgs b ! i) \<and> open_insn b = Some (last (bb_insns (blk (cfgs b ! i) bb))) \<and>
    b_bb b' = b_bb b \<and> b_insn b' = b_insn b \<and>
    eff b b' (cfgs b ! i) (set_insns bb (butlast (bb_insns (blk (cfgs b ! i) bb)) @
      [u (last (bb_insns (blk (cfgs b ! i) bb)))]) (cfgs b ! i))"
proof -
  let ?g = "cfgs b ! i" let ?is = "bb_insns (blk ?g bb)" let ?n = "length ?is - 1"
  from u o(1) obtain ins where s: "open_insn b = Some ins"
    "upd_cur (\<lambda>fn. Some (fn\<lparr>fnc_cfg := bb_upd bb (\<lambda>blk. blk\<lparr>bb_insns := (bb_insns blk)[?n := u ins]\<rparr>)
       (fnc_cfg fn)\<rparr>)) b = Some b'"
    unfolding upd_open_def opened_def by (auto elim!: bind_SomeE)
  have ins: "bb \<in> cfg_blocks ?g" "ins = last ?is"
    using s(1) o u(2) unfolding open_insn_def opened_def
    by (auto simp: last_conv_nth elim!: bind_SomeE dest!: cur_fnc_Some [OF u(2)] split: if_splits)
  have "?is[?n := u ins] = butlast ?is @ [u ins]"
    using o(2) by (metis append_butlast_last_id length_butlast list_update_length)
  then have h: "bb_upd bb (\<lambda>blk. blk\<lparr>bb_insns := (bb_insns blk)[?n := u ins]\<rparr>) ?g
      = set_insns bb (butlast ?is @ [u ins]) ?g"
    unfolding set_insns_def bb_upd_def db_upd_def by (simp add: blk_def)
  have "eff b b' ?g (set_insns bb (butlast ?is @ [u ins]) ?g) \<and> b_bb b' = b_bb b \<and> b_insn b' = b_insn b"
    by (rule eff_upd_cur [OF s(2) u(2)]) (use h in auto)
  then show ?thesis using ins s(1) by simp
qed

lemma closeInsn_eff:
  assumes u: "closeInsn M b = Some b'" "b_fnc b = Some i"
    and o: "b_insn b = opened (cfgs b ! i) (b_bb b)" "bb_insns (blk (cfgs b ! i) (b_bb b)) \<noteq> []"
  shows "b_bb b \<in> cfg_blocks (cfgs b ! i) \<and> b_bb b' = b_bb b \<and> b_insn b' = None \<and>
    (\<exists>g1. add_preds (b_bb b) (targets (last (bb_insns (blk (cfgs b ! i) (b_bb b))))) (cfgs b ! i) = Some g1 \<and>
      eff b b' (cfgs b ! i) (set_insns (b_bb b) (butlast (bb_insns (blk (cfgs b ! i) (b_bb b))) @
        [closed_insn (last (bb_insns (blk (cfgs b ! i) (b_bb b))))]) g1))"
proof -
  let ?g = "cfgs b ! i" and ?bb = "b_bb b" let ?is = "bb_insns (blk ?g ?bb)"
  let ?u = "\<lambda>i. i\<lparr>killPerTarget := replicate (length (targets i)) []\<rparr>"
  from u obtain ins b1 b2 b3 where s: "open_insn b = Some ins" "ofold (digOperand M) (operands ins) b = Some b1"
    "upd_cur (\<lambda>f. do { g \<leftarrow> add_preds (b_bb b1) (targets ins) (fnc_cfg f); Some (f\<lparr>fnc_cfg := g\<rparr>) }) b1 = Some b2"
    "upd_open ?u b2 = Some b3" "b' = b3\<lparr>b_insn := None\<rparr>"
    unfolding closeInsn_def by (auto elim!: bind_SomeE)
  have ins: "?bb \<in> cfg_blocks ?g" "ins = last ?is" "i < length (cfgs b)"
    using s(1) o u(2) unfolding open_insn_def opened_def
    by (auto simp: last_conv_nth elim!: bind_SomeE dest!: cur_fnc_Some [OF u(2)] split: if_splits)
  have d: "dig_rel b b1" using s(2) digOperand_rel by (rule ofold_dig_rel)
  then have b1: "b_fnc b1 = Some i" "b_bb b1 = ?bb" "b_insn b1 = b_insn b" "cfgs b1 ! i = ?g"
    using dig_rel_cur [OF d ins(3)] u(2) by (auto simp: dig_rel_def)
  from upd_cur_SomeD [OF s(3)] b1 obtain g1 where g1: "add_preds ?bb (targets ins) ?g = Some g1"
    by (auto simp: bind_eq_Some_conv cfgs_def)
  have e1: "eff b1 b2 (cfgs b1 ! i) g1 \<and> b_bb b2 = b_bb b1 \<and> b_insn b2 = b_insn b1"
    by (rule eff_upd_cur [OF s(3) b1(1)]) (use g1 b1 in \<open>auto simp: bind_eq_Some_conv\<close>)
  then have b2: "b_fnc b2 = Some i" "cfgs b2 ! i = g1"
    using b1(1) eff_start [of b1 b2] unfolding eff_def by auto
  note a = add_preds_effect [OF g1]
  have is1: "bb_insns (blk g1 ?bb) = ?is" using a ins(1) by blast
  then have o2: "b_insn b2 = opened (cfgs b2 ! i) ?bb" "bb_insns (blk (cfgs b2 ! i) ?bb) \<noteq> []"
    using o b1 b2 e1 by (auto simp: opened_def)
  note e2 = upd_open_eff [OF s(4) b2(1) o2]
  have "eff b b3 ?g (set_insns ?bb (butlast ?is @ [?u (last ?is)]) g1)"
    using eff_dig [OF d u(2) ins(3)] e1 e2 is1 b1(4) b2(2) by (metis eff_trans)
  then have "eff b b' ?g (set_insns ?bb (butlast ?is @ [closed_insn (last ?is)]) g1)"
    unfolding closed_insn_def by (rule eff_fields) (auto simp: s(5) cfgs_def)
  then show ?thesis using ins g1 s(5) e1 e2 b1 by auto
qed


section \<open>Steps of the front end\<close>

lemma cur_invD:
  assumes "cur_inv s lm bb opn g"
  shows "cfg_base opn g"
    and "db_map g nm = Some k \<Longrightarrow> (in_block s \<and> Suc k = bb) \<or> term_ended (blk g (Suc k)) \<or>
      (known_label lm nm \<and> \<not> defd_label lm nm \<and> bb_insns (blk g (Suc k)) = [])"
    and "defd_label lm nm \<Longrightarrow> db_map g nm \<noteq> None"
    and "in_block s \<Longrightarrow> bb \<in> cfg_blocks g"
    and "s = S_FNC_DECL \<Longrightarrow> bb = 0"
    and "s = S_INSN_CALL \<or> s = S_INSN_SWITCH \<Longrightarrow> opn = opened g bb \<and> bb_insns (blk g bb) \<noteq> [] \<and>
      in_code (last (bb_insns (blk g bb))) = open_code s"
    and "\<not> (s = S_INSN_CALL \<or> s = S_INSN_SWITCH) \<Longrightarrow> opn = None"
    and "s \<in> {S_FNC_DECL, S_FNC_BODY, S_BLOCK_LEVEL, S_INSN_CALL, S_INSN_SWITCH}"
  using assms unfolding cur_inv_def by (auto simp: in_block_def split: if_splits)

lemma cur_invI:
  assumes "cfg_base opn g"
    and "\<And>nm k. db_map g nm = Some k \<Longrightarrow> (in_block s \<and> Suc k = bb) \<or> term_ended (blk g (Suc k)) \<or>
      (known_label lm nm \<and> \<not> defd_label lm nm \<and> bb_insns (blk g (Suc k)) = [])"
    and "\<And>nm. defd_label lm nm \<Longrightarrow> db_map g nm \<noteq> None"
    and "s = S_FNC_DECL \<and> bb = 0 \<or> s = S_FNC_BODY \<or> in_block s \<and> bb \<in> cfg_blocks g"
    and "s = S_INSN_CALL \<or> s = S_INSN_SWITCH \<Longrightarrow> opn = opened g bb \<and> bb_insns (blk g bb) \<noteq> [] \<and>
      in_code (last (bb_insns (blk g bb))) = open_code s"
    and "\<not> (s = S_INSN_CALL \<or> s = S_INSN_SWITCH) \<Longrightarrow> opn = None"
  shows "cur_inv s lm bb opn g"
  unfolding cur_inv_def if_bool_eq_conj using assms by blast

text \<open>A required label may get its block.\<close>

lemma Suc_in_blocks: "db_wf g \<Longrightarrow> db_map g nm = Some k \<Longrightarrow> Suc k \<in> cfg_blocks g"
  by (auto simp: cfg_blocks_iff dest: db_wf_less)

lemma db_wf_inj: "db_wf g \<Longrightarrow> db_map g nm = Some k \<Longrightarrow> db_map g nm' = Some k \<Longrightarrow> nm' = nm"
  unfolding db_wf_def inj_on_def by (metis domI)

lemma opened_cong: "blk g' bb = blk g bb \<Longrightarrow> opened g' bb = opened g bb"
  by (simp add: opened_def)

lemma cur_inv_block:
  assumes c: "cur_inv s lm bb opn g" and g': "cfg_block nm g = (t, g')" and k: "known_label lm nm"
    and s: "in_block s"
  shows "cur_inv s lm bb opn g' \<and> t \<in> cfg_blocks g' \<and> blk g' bb = blk g bb"
proof -
  note bb = cur_invD(4) [OF c s]
  have o: "\<forall>u n. opn = Some (u, n) \<longrightarrow> u \<in> cfg_blocks g"
    using cur_invD(6,7) [OF c] bb by (auto simp: opened_def)
  note e = cfg_base_block [OF cur_invD(1) [OF c] g' o]
  have same: "blk g' u = blk g u" if "u \<in> cfg_blocks g" for u using e that by blast
  have "(in_block s \<and> Suc m = bb) \<or> term_ended (blk g' (Suc m)) \<or>
      (known_label lm x \<and> \<not> defd_label lm x \<and> bb_insns (blk g' (Suc m)) = [])"
    if x: "db_map g' x = Some m" for x m
  proof (cases "Suc m \<in> cfg_blocks g")
    case True
    then have "db_map g x = Some m"
      using e x by (cases rule: cfg_block_cases [OF g']) (auto simp: cfg_blocks_iff split: if_splits)
    with cur_invD(2) [OF c this] same [OF True] show ?thesis by simp
  next
    case False
    have "Suc m \<in> cfg_blocks g'" using Suc_in_blocks [OF _ x] e cfg_baseD(1) by blast
    with False e have "Suc m = t" "bb_insns (blk g' (Suc m)) = []" by auto
    moreover have "x = nm"
      using e x \<open>Suc m = t\<close> db_wf_inj [OF cfg_baseD(1) [of opn g'] x, of nm] by auto
    moreover have "db_map g nm = None"
      using g' False \<open>Suc m = t\<close> Suc_in_blocks [OF cfg_baseD(1) [OF cur_invD(1) [OF c]], of nm]
      by (cases rule: cfg_block_cases [OF g']) auto
    ultimately show ?thesis using k cur_invD(3) [OF c, of nm] by auto
  qed
  moreover have "db_map g' x \<noteq> None" if "defd_label lm x" for x
    using e cur_invD(3) [OF c that] by auto
  moreover have "opened g' bb = opened g bb" using same [OF bb] by (rule opened_cong)
  ultimately have "cur_inv s lm bb opn g'"
    using e same [OF bb] s bb cur_invD(6,7) [OF c] by (intro cur_invI) auto
  then show ?thesis using e same [OF bb] by blast
qed

text \<open>Requiring and defining labels.\<close>

lemma label_after_put:
  "known_label (omap_put l v m) nm \<longleftrightarrow> nm = l \<or> known_label m nm"
  "defd_label (omap_put l v m) nm \<longleftrightarrow> (if nm = l then ls_defined v else defd_label m nm)"
  by (auto simp: known_label_def defd_label_def omap_find_put)

lemma ls_defined_set_loc [simp]: "ls_defined (set_loc_once loc ls) = ls_defined ls"
  by (simp add: set_loc_once_def)

lemma label_at_defined: "ls_defined (label_at c l) = defd_label (lc_map c) l"
  by (auto simp: label_at_def omap_at_def defd_label_def label_state_ctor_def split: option.splits)

lemma reqLabel_effect:
  "known_label (lc_map (reqLabel l c)) nm \<longleftrightarrow> nm = l \<or> known_label (lc_map c) nm"
  "defd_label (lc_map (reqLabel l c)) nm \<longleftrightarrow> defd_label (lc_map c) nm"
  "lc_msgs (reqLabel l c) = lc_msgs c"
  "omap_wf (lc_map c) \<Longrightarrow> omap_wf (lc_map (reqLabel l c))"
  by (auto simp: reqLabel_def label_after_put label_at_defined omap_wf_put)

lemma defineLabel_effect:
  "known_label (lc_map (defineLabel l c)) nm \<longleftrightarrow> nm = l \<or> known_label (lc_map c) nm"
  "defd_label (lc_map (defineLabel l c)) nm \<longleftrightarrow> nm = l \<or> defd_label (lc_map c) nm"
  "omap_wf (lc_map c) \<Longrightarrow> omap_wf (lc_map (defineLabel l c))"
  "set (lc_msgs c) \<subseteq> set (lc_msgs (defineLabel l c))"
  "defd_label (lc_map c) l \<Longrightarrow> LabelRedefined l \<in> set (lc_msgs (defineLabel l c))"
  by (auto simp: defineLabel_def Let_def label_after_put label_at_defined omap_wf_put)

lemma cur_inv_req:
  assumes "cur_inv s (lc_map l) bb opn g"
  shows "cur_inv s (lc_map (reqLabel nm l)) bb opn g"
  using assms unfolding cur_inv_def reqLabel_effect by blast

text \<open>Opening a block, an instruction, and closing it.\<close>

lemma cur_inv_bb_open:
  assumes c: "cur_inv S_FNC_BODY (lc_map l) bb opn g" and g': "cfg_block nm g = (t, g')"
    and n: "\<not> defd_label (lc_map l) nm"
  shows "cur_inv S_BLOCK_LEVEL (lc_map (defineLabel nm l)) t opn g'"
proof -
  have opn: "opn = None" using cur_invD(7) [OF c] by simp
  note e = cfg_base_block [OF cur_invD(1) [OF c] g', unfolded opn, simplified]
  have "Suc m = t \<or> term_ended (blk g' (Suc m)) \<or>
      (known_label (lc_map l) x \<and> \<not> defd_label (lc_map l) x \<and> x \<noteq> nm \<and> bb_insns (blk g' (Suc m)) = [])"
    if x: "db_map g' x = Some m" for x m
  proof (cases "x = nm")
    case True
    have "0 < t" using e by (auto simp: cfg_blocks_iff)
    then show ?thesis using True x e by auto
  next
    case False
    then have gx: "db_map g x = Some m" using x e by auto
    have "Suc m \<in> cfg_blocks g" using Suc_in_blocks [OF cfg_baseD(1) [OF cur_invD(1) [OF c]] gx] .
    then show ?thesis using cur_invD(2) [OF c gx] False e by (auto simp: in_block_def)
  qed
  moreover have "db_map g' x \<noteq> None" if "x = nm \<or> defd_label (lc_map l) x" for x
    using e cur_invD(3) [OF c, of x] that by auto
  moreover have "cfg_base opn g'" "t \<in> cfg_blocks g'" using e opn by auto
  ultimately show ?thesis using opn
    by (intro cur_invI) (simp_all only: defineLabel_effect in_block_def EState.distinct simp_thms, blast+)
qed


text \<open>The graph while an instruction is open, whatever it is.\<close>

definition mid_inv :: "(string, label_state) omap \<Rightarrow> TBlock \<Rightarrow> cfg \<Rightarrow> bool" where
  "mid_inv lm bb g \<longleftrightarrow> cfg_base (opened g bb) g \<and> bb \<in> cfg_blocks g \<and> bb_insns (blk g bb) \<noteq> [] \<and>
     (\<forall>nm k. db_map g nm = Some k \<longrightarrow> Suc k = bb \<or> term_ended (blk g (Suc k)) \<or>
        (known_label lm nm \<and> \<not> defd_label lm nm \<and> bb_insns (blk g (Suc k)) = [])) \<and>
     (\<forall>nm. defd_label lm nm \<longrightarrow> db_map g nm \<noteq> None)"

lemma mid_invD:
  assumes "mid_inv lm bb g"
  shows "cfg_base (opened g bb) g" "bb \<in> cfg_blocks g" "bb_insns (blk g bb) \<noteq> []"
    and "db_map g nm = Some k \<Longrightarrow> Suc k = bb \<or> term_ended (blk g (Suc k)) \<or>
      (known_label lm nm \<and> \<not> defd_label lm nm \<and> bb_insns (blk g (Suc k)) = [])"
    and "defd_label lm nm \<Longrightarrow> db_map g nm \<noteq> None"
  using assms unfolding mid_inv_def by blast+

lemma cur_inv_mid:
  assumes "cur_inv s lm bb opn g" "s = S_INSN_CALL \<or> s = S_INSN_SWITCH"
  shows "mid_inv lm bb g \<and> opn = opened g bb \<and> in_code (last (bb_insns (blk g bb))) = open_code s"
  using cur_invD [OF assms(1)] assms(2) unfolding mid_inv_def in_block_def by metis

lemma mid_inv_cur:
  assumes "mid_inv lm bb g" "s = S_INSN_CALL \<or> s = S_INSN_SWITCH" "in_code (last (bb_insns (blk g bb))) = open_code s"
  shows "cur_inv s lm bb (opened g bb) g"
  using mid_invD [OF assms(1)] assms(2,3) by (intro cur_invI) (auto simp: in_block_def)

lemma blk_set_insns_other:
  "bb \<in> cfg_blocks g \<Longrightarrow> u \<in> cfg_blocks g \<Longrightarrow> u \<noteq> bb \<Longrightarrow> blk (set_insns bb is g) u = blk g u"
  by (simp add: set_insns_def)

lemma opened_set_insns:
  "bb \<in> cfg_blocks g \<Longrightarrow> opened (set_insns bb is g) bb = Some (bb, length is - 1)"
  by (simp add: opened_def)

lemma mid_inv_open:
  assumes c: "cur_inv S_BLOCK_LEVEL lm bb opn g" and n: "\<not> term_ended (blk g bb)"
    and i: "insn_ok (length (db_tab g)) False ins"
  shows "mid_inv lm bb (set_insns bb (bb_insns (blk g bb) @ [ins]) g)"
proof -
  have opn: "opn = None" and bb: "bb \<in> cfg_blocks g"
    using cur_invD(4,7) [OF c] by (auto simp: in_block_def)
  let ?h = "set_insns bb (bb_insns (blk g bb) @ [ins]) g"
  have "Suc k = bb \<or> term_ended (blk ?h (Suc k)) \<or>
      (known_label lm nm \<and> \<not> defd_label lm nm \<and> bb_insns (blk ?h (Suc k)) = [])"
    if "db_map ?h nm = Some k" for nm k
  proof (cases "Suc k = bb")
    case False
    have k: "db_map g nm = Some k" using that by simp
    have "Suc k \<in> cfg_blocks g" using Suc_in_blocks [OF cfg_baseD(1) [OF cur_invD(1) [OF c]] k] .
    then show ?thesis using cur_invD(2) [OF c k] False blk_set_insns_other [OF bb _ False] by simp
  qed simp
  moreover have "cfg_base (opened ?h bb) ?h"
    using cfg_base_append [OF _ bb n i] cur_invD(1) [OF c] opn by simp
  ultimately show ?thesis using bb cur_invD(3) [OF c] unfolding mid_inv_def by simp
qed

lemma mid_inv_upd:
  assumes m: "mid_inv lm bb g" and i: "insn_ok (length (db_tab g)) False ins"
  shows "mid_inv lm bb (set_insns bb (butlast (bb_insns (blk g bb)) @ [ins]) g) \<and>
    opened (set_insns bb (butlast (bb_insns (blk g bb)) @ [ins]) g) bb = opened g bb"
proof -
  note bb = mid_invD(2) [OF m]
  let ?h = "set_insns bb (butlast (bb_insns (blk g bb)) @ [ins]) g"
  have o: "opened ?h bb = opened g bb" using bb by (simp add: opened_def)
  have "Suc k = bb \<or> term_ended (blk ?h (Suc k)) \<or>
      (known_label lm nm \<and> \<not> defd_label lm nm \<and> bb_insns (blk ?h (Suc k)) = [])"
    if "db_map ?h nm = Some k" for nm k
  proof (cases "Suc k = bb")
    case False
    have k: "db_map g nm = Some k" using that by simp
    have "Suc k \<in> cfg_blocks g" using Suc_in_blocks [OF cfg_baseD(1) [OF mid_invD(1) [OF m]] k] .
    then show ?thesis using mid_invD(4) [OF m k] False blk_set_insns_other [OF bb _ False] by simp
  qed simp
  moreover have "cfg_base (opened ?h bb) ?h"
    using cfg_base_upd_open [OF mid_invD(1,2,3) [OF m] i] o by simp
  ultimately show ?thesis using bb o mid_invD(5) [OF m] unfolding mid_inv_def by simp
qed

lemma mid_inv_close:
  assumes m: "mid_inv lm bb g" and p: "add_preds bb (targets (last (bb_insns (blk g bb)))) g = Some g1"
    and h: "h = set_insns bb (butlast (bb_insns (blk g bb)) @ [closed_insn (last (bb_insns (blk g bb)))]) g1"
  shows "cur_inv (if is_term (last (bb_insns (blk g bb))) then S_FNC_BODY else S_BLOCK_LEVEL) lm bb None h"
proof -
  note a = add_preds_effect [OF p] and bb = mid_invD(2) [OF m]
  have bb1: "bb \<in> cfg_blocks g1" using a bb by simp
  have base: "cfg_base None h" using cfg_base_close [OF mid_invD(1,2,3) [OF m] p] h by simp
  have b: "bb_insns (blk h bb) = butlast (bb_insns (blk g bb)) @ [closed_insn (last (bb_insns (blk g bb)))]"
    unfolding h using bb1 by simp
  have t: "term_ended (blk h bb)" if "is_term (last (bb_insns (blk g bb)))"
    using that b by (simp add: term_ended_def closed_insn_def is_term_def)
  have "Suc k = bb \<or> term_ended (blk h (Suc k)) \<or>
      (known_label lm nm \<and> \<not> defd_label lm nm \<and> bb_insns (blk h (Suc k)) = [])"
    if "db_map h nm = Some k" for nm k
  proof (cases "Suc k = bb")
    case False
    have k: "db_map g nm = Some k" using that a h by simp
    have u: "Suc k \<in> cfg_blocks g" using Suc_in_blocks [OF cfg_baseD(1) [OF mid_invD(1) [OF m]] k] .
    then have "bb_insns (blk h (Suc k)) = bb_insns (blk g (Suc k))"
      using a bb1 False h by simp
    then show ?thesis using mid_invD(4) [OF m k] False by (simp add: term_ended_def)
  qed simp
  moreover have "db_map h nm \<noteq> None" if "defd_label lm nm" for nm
    using mid_invD(5) [OF m that] a h by simp
  moreover have "bb \<in> cfg_blocks h" using bb1 h by simp
  ultimately show ?thesis using base t
    by (intro cur_invI) (auto simp: in_block_def)
qed


subsection \<open>Steps of the checks\<close>

lemma setState_ok:
  "setState s c = Some c' \<Longrightarrow> sc_errors c' = [] \<Longrightarrow>
    sc_errors c = [] \<and> state_change_ok (sc_state c) s \<and> sc_state c' = s"
  by (auto simp: setState_def emitUnexpected_def split: if_splits)

lemma chk_in_ok:
  "sc_errors (chk_in S what c) = [] \<longleftrightarrow> sc_errors c = [] \<and> sc_state c \<in> S"
  "sc_state (chk_in S what c) = sc_state c"
  by (auto simp: chk_in_def emitUnexpected_def)

text \<open>The transitions that are not reported.\<close>

fun seq_trans :: "callback \<Rightarrow> EState \<Rightarrow> EState \<Rightarrow> bool" where
  "seq_trans (file_open nm) s s' \<longleftrightarrow> (s = S_INIT \<or> s = S_FNC_BODY) \<and> s' = S_FILE_LEVEL"
| "seq_trans file_close s s' \<longleftrightarrow> s = S_FILE_LEVEL \<and> s' = S_INIT"
| "seq_trans (fnc_open op) s s' \<longleftrightarrow> s = S_FILE_LEVEL \<and> s' = S_FNC_DECL"
| "seq_trans (fnc_arg_decl pos op) s s' \<longleftrightarrow> s = S_FNC_DECL \<and> s' = S_FNC_DECL"
| "seq_trans fnc_close s s' \<longleftrightarrow> (s = S_INIT \<or> s = S_FNC_BODY) \<and> s' = S_FILE_LEVEL"
| "seq_trans (bb_open nm) s s' \<longleftrightarrow> s = S_FNC_BODY \<and> s' = S_BLOCK_LEVEL"
| "seq_trans (insn_cb cli) s s' \<longleftrightarrow>
     s = S_FNC_DECL \<and> cli_code cli = CL_INSN_JMP \<and> s' = S_FNC_BODY \<or>
     s = S_BLOCK_LEVEL \<and> s' = (if cl_is_term_insn (cli_code cli) then S_FNC_BODY else S_BLOCK_LEVEL)"
| "seq_trans (insn_call_open loc dst fn) s s' \<longleftrightarrow> s = S_BLOCK_LEVEL \<and> s' = S_INSN_CALL"
| "seq_trans (insn_call_arg arg op) s s' \<longleftrightarrow> s = S_INSN_CALL \<and> s' = S_INSN_CALL"
| "seq_trans insn_call_close s s' \<longleftrightarrow> s = S_INSN_CALL \<and> s' = S_BLOCK_LEVEL"
| "seq_trans (insn_switch_open loc src) s s' \<longleftrightarrow> s = S_BLOCK_LEVEL \<and> s' = S_INSN_SWITCH"
| "seq_trans (insn_switch_case loc lo hi label) s s' \<longleftrightarrow> s = S_INSN_SWITCH \<and> s' = S_INSN_SWITCH"
| "seq_trans insn_switch_close s s' \<longleftrightarrow> s = S_INSN_SWITCH \<and> s' = S_FNC_BODY"
| "seq_trans acknowledge s s' \<longleftrightarrow> s = S_INIT \<and> s' = S_ACKNOWLEDGE"

lemma state_change_cases:
  "state_change_ok s S_FILE_LEVEL \<longleftrightarrow> s = S_INIT \<or> s = S_FNC_BODY"
  "state_change_ok s S_INIT \<longleftrightarrow> s = S_FILE_LEVEL"
  "state_change_ok s S_FNC_DECL \<longleftrightarrow> s = S_FILE_LEVEL"
  "state_change_ok s S_BLOCK_LEVEL \<longleftrightarrow> s = S_FNC_BODY"
  "state_change_ok s S_INSN_CALL \<longleftrightarrow> s = S_BLOCK_LEVEL"
  "state_change_ok s S_INSN_SWITCH \<longleftrightarrow> s = S_BLOCK_LEVEL"
  "state_change_ok s S_ACKNOWLEDGE \<longleftrightarrow> s = S_INIT"
  by (cases s; simp)+

lemma chk_insn_ok:
  assumes "chk_insn code c = Some c'" "sc_errors c' = []"
  shows "sc_errors c = [] \<and> (sc_state c = S_FNC_DECL \<and> code = CL_INSN_JMP \<and> sc_state c' = S_FNC_BODY \<or>
     sc_state c = S_BLOCK_LEVEL \<and> sc_state c' = (if cl_is_term_insn code then S_FNC_BODY else S_BLOCK_LEVEL))"
  using assms by (cases code) (auto simp: chk_insn_def chk_in_ok)

lemma seq_step_ok:
  assumes "seq_step cb c = Some c'" "sc_errors c' = []"
  shows "sc_errors c = [] \<and> seq_trans cb (sc_state c) (sc_state c')"
  using assms by (cases cb)
    (auto simp: seq_step_def state_change_cases chk_in_ok bind_eq_Some_conv dest!: setState_ok chk_insn_ok)

lemma req_insn_labels_msgs: "req_insn_labels cli l = Some l' \<Longrightarrow> lc_msgs l' = lc_msgs l"
  by (auto simp: req_insn_labels_def reqLabel_effect split: cl_insn_e.splits insn_data.splits)

lemma label_step_msgs: "label_step cb l = Some l' \<Longrightarrow> set (lc_msgs l) \<subseteq> set (lc_msgs l')"
  by (cases cb) (auto simp: label_step_def bind_eq_Some_conv reqLabel_effect emitWarnings_def
      dest: req_insn_labels_msgs defineLabel_effect(4) [THEN subsetD])

lemma no_errors_back:
  "label_step cb l = Some l' \<Longrightarrow> seq_step cb c = Some c' \<Longrightarrow> no_errors l' c' \<Longrightarrow> no_errors l c"
  unfolding no_errors_def using label_step_msgs seq_step_ok by blast

subsection \<open>Steps of the builder\<close>

lemma createInsn_front:
  assumes i: "createInsn cli (Some g) = Some (ins, Some g')" and l: "req_insn_labels cli l = Some l'"
    and c: "cur_inv S_BLOCK_LEVEL (lc_map l) bb opn g" and w: "omap_wf (lc_map l)"
  shows "cur_inv S_BLOCK_LEVEL (lc_map l') bb opn g' \<and> insn_ok (length (db_tab g')) False ins \<and>
    in_code ins = cli_code cli \<and> omap_wf (lc_map l')"
proof -
  have blk: "in_block S_BLOCK_LEVEL" by (simp add: in_block_def)
  note d = createInsn.simps Let_def new_insn_def req_insn_labels_def insn_ok_def is_term_def
  show ?thesis
  proof (cases "cli_code cli")
    case CL_INSN_JMP
    with i l obtain label t where s: "cli_data cli = InsnJmp label" "cfg_block label g = (t, g')"
      "ins = (new_insn CL_INSN_JMP (cli_loc cli))\<lparr>targets := [t]\<rparr>" "l' = reqLabel label l"
      by (auto simp: d split: insn_data.splits prod.splits)
    have "known_label (lc_map l') label" by (simp add: s(4) reqLabel_effect)
    from cur_inv_block [OF cur_inv_req [OF c, of label] s(2) _ blk] this
    show ?thesis using s CL_INSN_JMP w by (auto simp: insn_ok_def is_term_def new_insn_def cfg_blocks_iff reqLabel_effect)
  next
    case CL_INSN_COND
    with i l obtain src l0 l1 t0 t1 g0 where s: "cli_data cli = InsnCond src l0 l1" "cfg_block l0 g = (t0, g0)"
      "cfg_block l1 g0 = (t1, g')" "l' = reqLabel l1 (reqLabel l0 l)"
      "ins = (new_insn CL_INSN_COND (cli_loc cli))\<lparr>operands := [src], targets := [t0, t1]\<rparr>"
      by (auto simp: d split: insn_data.splits prod.splits)
    have k: "known_label (lc_map l') l0" "known_label (lc_map l') l1" by (simp_all add: s(4) reqLabel_effect)
    have "cur_inv S_BLOCK_LEVEL (lc_map l') bb opn g" unfolding s(4) by (intro cur_inv_req c)
    from cur_inv_block [OF this s(2) k(1) blk] have g0: "cur_inv S_BLOCK_LEVEL (lc_map l') bb opn g0" "t0 \<in> cfg_blocks g0"
      by auto
    from cur_inv_block [OF g0(1) s(3) k(2) blk] have g': "cur_inv S_BLOCK_LEVEL (lc_map l') bb opn g'" "t1 \<in> cfg_blocks g'"
      by auto
    have "opn = None" using cur_invD(7) [OF c] by simp
    then have "cfg_blocks g0 \<subseteq> cfg_blocks g'" using cfg_base_block [OF cur_invD(1) [OF g0(1)] s(3)] by simp
    then show ?thesis using s g' g0(2) CL_INSN_COND w
      by (auto simp: insn_ok_def is_term_def new_insn_def cfg_blocks_iff reqLabel_effect)
  qed (use i l c w in \<open>auto simp: d split: insn_data.splits\<close>)
qed


lemma front_inv_curD:
  assumes "front_inv l c b" "sc_state c \<in> {S_FNC_DECL, S_FNC_BODY, S_BLOCK_LEVEL, S_INSN_CALL, S_INSN_SWITCH}"
  obtains i where "b_fnc b = Some i" "i < length (cfgs b)" "others_done b" "omap_wf (lc_map l)"
    "cur_inv (sc_state c) (lc_map l) (b_bb b) (b_insn b) (cfgs b ! i)"
  using assms by (cases "b_fnc b") (auto simp: front_inv_iff)

lemma front_inv_noneD:
  assumes "front_inv l c b" "sc_state c \<in> {S_INIT, S_FILE_LEVEL}"
  shows "b_fnc b = None \<and> b_insn b = None \<and> others_done b \<and> omap_wf (lc_map l)"
  using assms cur_invD(8) by (fastforce simp: front_inv_iff split: option.splits)

lemma front_inv_labels: "lc_map l' = lc_map l \<Longrightarrow> front_inv l' c b = front_inv l c b"
  by (simp add: front_inv_def split: option.split)

lemma front_inv_fields:
  assumes "b_fnc b' = b_fnc b" "b_bb b' = b_bb b" "b_insn b' = b_insn b" "b_stor b' = b_stor b"
  shows "front_inv l c b' = front_inv l c b"
  using assms by (simp add: front_inv_def cfgs_def split: option.split)

lemma front_inv_noneI:
  "b_fnc b = None \<Longrightarrow> b_insn b = None \<Longrightarrow> others_done b \<Longrightarrow> omap_wf (lc_map l) \<Longrightarrow>
    sc_state c \<in> {S_INIT, S_FILE_LEVEL, S_ACKNOWLEDGE} \<Longrightarrow> front_inv l c b"
  by (auto simp: front_inv_iff)

lemma front_inv_eff:
  assumes "eff b b' g g'" "others_done b" "omap_wf (lc_map l)"
    "cur_inv (sc_state c) (lc_map l) (b_bb b') (b_insn b') g'"
  shows "front_inv l c b'"
proof -
  from assms(1) obtain i where i: "b_fnc b' = Some i" unfolding eff_def by blast
  from eff_start [OF assms(1) i] eff_others [OF assms(1,2)] assms(3,4) i show ?thesis
    by (simp add: front_inv_iff)
qed

lemma others_done_fields:
  "b_fnc b' = b_fnc b \<Longrightarrow> fncs (b_stor b') = fncs (b_stor b) \<Longrightarrow> others_done b' = others_done b"
  by (simp add: others_done_def cfgs_def)

lemma cfg_done_cur: "cfg_done g \<Longrightarrow> cur_inv S_FNC_DECL [] 0 None g"
  by (rule cur_invI)
    (auto simp: cfg_done_def defd_label_def dest: Suc_in_blocks [OF cfg_baseD(1)])

lemma step_fnc_open:
  assumes f: "front_inv l c b" and s: "sc_state c = S_FILE_LEVEL" "sc_state c' = S_FNC_DECL"
    and b': "b_fnc_open M op b = Some b'" and l': "lc_map l' = []"
  shows "front_inv l' c' b'"
proof -
  note n = front_inv_noneD [OF f, unfolded s(1), simplified]
  from b' obtain sc t acs uid nm ext loc where op: "op = CL_OPERAND_CST sc t acs (CstFnc uid nm ext loc)"
    by (auto simp: b_fnc_open_def split: cl_operand.splits cl_cst.splits)
  obtain idx fs where lk: "dbLookup new_fnc uid (fncs (b_stor b)) = (idx, fs)" by fastforce
  define b1 where "b1 = b\<lparr>b_file := loc_file loc, b_fnc := Some idx,
    b_stor := (b_stor b)\<lparr>fncs := db_upd idx (\<lambda>f. f\<lparr>fnc_def := op\<rparr>) fs\<rparr>\<rparr>"
  from b' obtain b2 where b2: "digOperand M op b1 = Some b2" "b' = b2\<lparr>b_bb := 0\<rparr>"
    unfolding b_fnc_open_def op cl_operand.case cl_cst.case Let_def lk prod.case cl_break_if_bind b1_def
    by (auto elim!: bind_SomeE split: if_splits)
  from dig_rel_dbLookup [OF lk] n obtain k where fs: "db_wf fs" "idx < length (db_tab fs)"
    "map fnc_cfg (db_tab fs) = cfgs b @ replicate k db_empty" by (auto simp: others_done_def)
  have cfgs1: "cfgs b1 = cfgs b @ replicate k db_empty"
    using fs(3) by (simp add: cfgs_def b1_def map_db_upd)
  have all: "cfg_done (cfgs b1 ! j)" if "j < length (cfgs b1)" for j
    using that n unfolding cfgs1 others_done_def by (auto simp: nth_append)
  have idx: "idx < length (cfgs b1)" using fs cfgs1 by (metis length_map)
  have o1: "others_done b1" using all fs(1) by (simp add: others_done_def b1_def)
  have f1: "b_fnc b1 = Some idx" "b_insn b1 = None" using n by (simp_all add: b1_def)
  note d = digOperand_rel [OF b2(1)]
  have "eff b1 b2 (cfgs b1 ! idx) (cfgs b1 ! idx)" by (rule eff_dig [OF d f1(1) idx])
  then have "eff b1 b' (cfgs b1 ! idx) (cfgs b1 ! idx)"
    by (rule eff_fields) (auto simp: b2(2) cfgs_def)
  moreover have "b_bb b' = 0" "b_insn b' = None" using b2(2) d f1(2) by (auto simp: dig_rel_def)
  ultimately show ?thesis
    using o1 cfg_done_cur [OF all [OF idx]] l' s(2) by (intro front_inv_eff [of b1 b']) auto
qed

lemma step_fnc_close:
  assumes f: "front_inv l c b" and s: "sc_state c = S_INIT \<or> sc_state c = S_FNC_BODY" "sc_state c' = S_FILE_LEVEL"
    and e: "\<forall>m \<in> set (lc_msgs (emitWarnings l)). \<not> is_label_error m"
  shows "front_inv (emitWarnings l) c' (b\<lparr>b_fnc := None\<rparr>)"
proof (cases "sc_state c = S_INIT")
  case True
  note n = front_inv_noneD [OF f, unfolded True, simplified]
  have "others_done (b\<lparr>b_fnc := None\<rparr>)" using n by (simp add: others_done_def cfgs_def)
  then show ?thesis using s(2) n
    by (intro front_inv_noneI) (simp_all add: emitWarnings_def)
next
  case False
  with s have st: "sc_state c = S_FNC_BODY" by simp
  have "sc_state c \<in> {S_FNC_DECL, S_FNC_BODY, S_BLOCK_LEVEL, S_INSN_CALL, S_INSN_SWITCH}" using st by simp
  from front_inv_curD [OF f this, unfolded st] obtain i where i: "b_fnc b = Some i" "i < length (cfgs b)" "others_done b"
    "omap_wf (lc_map l)" "cur_inv S_FNC_BODY (lc_map l) (b_bb b) (b_insn b) (cfgs b ! i)"
    by blast
  have def: "defd_label (lc_map l) nm" if "known_label (lc_map l) nm" for nm
  proof -
    from that obtain ls where ls: "(nm, ls) \<in> set (lc_map l)" "omap_find (lc_map l) nm = Some ls"
      by (auto simp: known_label_def dest: map_of_SomeD)
    have "ls_defined ls"
    proof (rule ccontr)
      assume "\<not> ls_defined ls"
      with ls(1) have "LabelUndefined nm \<in> set (lc_msgs (emitWarnings l))"
        unfolding emitWarnings_def by (auto simp: label_warnings_def intro!: bexI [of _ "(nm, ls)"])
      with e show False using is_label_error.simps(2) by blast
    qed
    then show ?thesis using ls by (simp add: defd_label_def)
  qed
  note base = cur_invD(1) [OF i(5)]
  have "b_insn b = None" using cur_invD(7) [OF i(5)] by simp
  moreover have "term_ended (blk (cfgs b ! i) u)" if u: "u \<in> cfg_blocks (cfgs b ! i)" for u
  proof -
    let ?g = "cfgs b ! i"
    have "ran (db_map ?g) = {..<length (db_tab ?g)}" using cfg_baseD(1) [OF base] unfolding db_wf_def by blast
    then have "u - 1 \<in> ran (db_map ?g)" using u by (simp add: cfg_blocks_iff less_diff_conv2)
    then obtain nm where nm: "db_map ?g nm = Some (u - 1)" by (auto simp: ran_def)
    have "Suc (u - 1) = u" using u by (simp add: cfg_blocks_iff)
    with cur_invD(2) [OF i(5) nm] def [of nm] show ?thesis by (auto simp: in_block_def)
  qed
  ultimately have "cfg_done (cfgs b ! i)" "b_insn b = None" using base by (auto simp: cfg_done_def)
  moreover have "cfgs (b\<lparr>b_fnc := None\<rparr>) = cfgs b" by (simp add: cfgs_def)
  ultimately have "others_done (b\<lparr>b_fnc := None\<rparr>)" using i(1,3)
    by (simp add: others_done_def) (metis option.inject)
  then show ?thesis using i(4) s(2) \<open>b_insn b = None\<close>
    by (intro front_inv_noneI) (simp_all add: emitWarnings_def)
qed

lemma step_bb_open:
  assumes f: "front_inv l c b" and s: "sc_state c = S_FNC_BODY" "sc_state c' = S_BLOCK_LEVEL"
    and b': "b_bb_open nm b = Some b'"
    and e: "\<forall>m \<in> set (lc_msgs (defineLabel nm l)). \<not> is_label_error m"
  shows "front_inv (defineLabel nm l) c' b'"
proof -
  from f s obtain i where i: "b_fnc b = Some i" "i < length (cfgs b)" "others_done b" "omap_wf (lc_map l)"
    "cur_inv S_FNC_BODY (lc_map l) (b_bb b) (b_insn b) (cfgs b ! i)"
    by (elim front_inv_curD) auto
  from b' i(1) obtain bb g b1 where u: "cfg_block nm (cfgs b ! i) = (bb, g)"
    "upd_cur (\<lambda>f. Some (f\<lparr>fnc_cfg := g\<rparr>)) b = Some b1" "b' = b1\<lparr>b_bb := bb\<rparr>"
    unfolding b_bb_open_def by (auto elim!: bind_SomeE prod_SomeE dest!: cur_fnc_Some)
  have "\<not> defd_label (lc_map l) nm" using e defineLabel_effect(5) [of l nm] by force
  note c = cur_inv_bb_open [OF i(5) u(1) this]
  have e1: "eff b b1 (cfgs b ! i) g \<and> b_bb b1 = b_bb b \<and> b_insn b1 = b_insn b"
    by (rule eff_upd_cur [OF u(2) i(1)]) auto
  then have "eff b b' (cfgs b ! i) g" using eff_fields [of b b1 _ _ b b'] u(3) by (simp add: cfgs_def)
  then show ?thesis using i c e1 u(3) s by (intro front_inv_eff) (auto intro: defineLabel_effect(3))
qed

lemma step_insn_cb:
  assumes f: "front_inv l c b" and s: "sc_state c = S_BLOCK_LEVEL"
    "sc_state c' = (if cl_is_term_insn (cli_code cli) then S_FNC_BODY else S_BLOCK_LEVEL)"
    and b': "b_insn_cb M cli b = Some b'" and l': "req_insn_labels cli l = Some l'"
  shows "front_inv l' c' b'"
proof -
  from f s obtain i where i: "b_fnc b = Some i" "i < length (cfgs b)" "others_done b" "omap_wf (lc_map l)"
    "cur_inv S_BLOCK_LEVEL (lc_map l) (b_bb b) (b_insn b) (cfgs b ! i)"
    by (elim front_inv_curD) auto
  let ?g = "cfgs b ! i"
  have bb0: "b_bb b \<noteq> 0" using cur_invD(4) [OF i(5)] by (auto simp: in_block_def cfg_blocks_iff)
  with b' i(1) obtain ins g1 b1 b2 where u: "createInsn cli (Some ?g) = Some (ins, Some g1)"
    "upd_cur (\<lambda>f. Some (f\<lparr>fnc_cfg := g1\<rparr>)) b = Some b1" "openInsn ins b1 = Some b2" "closeInsn M b2 = Some b'"
    unfolding b_insn_cb_def by (auto elim!: bind_SomeE prod_SomeE dest!: cur_fnc_Some)
  note c1 = createInsn_front [OF u(1) l' i(5,4)]
  have e1: "eff b b1 ?g g1 \<and> b_bb b1 = b_bb b \<and> b_insn b1 = b_insn b"
    by (rule eff_upd_cur [OF u(2) i(1)]) auto
  then have f1: "b_fnc b1 = Some i" using i(1) by (auto simp: eff_def)
  have g1: "cfgs b1 ! i = g1" using e1 eff_start f1 by blast
  note o = openInsn_eff [OF u(3) f1, unfolded g1]
  define h where "h = set_insns (b_bb b1) (bb_insns (blk g1 (b_bb b1)) @ [ins]) g1"
  have e2: "eff b1 b2 g1 h" "b_insn b2 = opened h (b_bb b1)" "b_bb b2 = b_bb b1" using o h_def by auto
  have m: "mid_inv (lc_map l') (b_bb b1) h" unfolding h_def
    using mid_inv_open [of "lc_map l'" "b_bb b1" "b_insn b" g1 ins] c1 o e1 by simp
  have f2: "b_fnc b2 = Some i" using e2(1) f1 by (auto simp: eff_def)
  have g2: "cfgs b2 ! i = h" using eff_start [OF e2(1) f2] by blast
  have last: "last (bb_insns (blk h (b_bb b1))) = ins" using o by (simp add: h_def)
  note k = closeInsn_eff [OF u(4) f2, unfolded g2 e2(3), OF e2(2) mid_invD(3) [OF m]]
  then obtain g3 h' where g3: "add_preds (b_bb b1) (targets (last (bb_insns (blk h (b_bb b1))))) h = Some g3"
    "h' = set_insns (b_bb b1) (butlast (bb_insns (blk h (b_bb b1))) @ [closed_insn (last (bb_insns (blk h (b_bb b1))))]) g3"
    "eff b2 b' h h'" by blast
  have "cur_inv (sc_state c') (lc_map l') (b_bb b1) None h'"
    using mid_inv_close [OF m g3(1,2)] c1 s(2) last by (simp add: is_term_def)
  moreover have "eff b b' ?g h'" using e1 e2(1) g3(3) by (blast intro: eff_trans)
  ultimately show ?thesis using i(3) c1 k by (intro front_inv_eff [of b b']) auto
qed


lemma step_open:
  assumes f: "front_inv l c b" and s: "sc_state c = S_BLOCK_LEVEL" "sc_state c' \<in> {S_INSN_CALL, S_INSN_SWITCH}"
    and b': "openInsn ins b = Some b'"
    and ok: "in_code ins = open_code (sc_state c')" "\<And>n. insn_ok n False ins"
  shows "front_inv l c' b'"
proof -
  from f s obtain i where i: "b_fnc b = Some i" "i < length (cfgs b)" "others_done b" "omap_wf (lc_map l)"
    "cur_inv S_BLOCK_LEVEL (lc_map l) (b_bb b) (b_insn b) (cfgs b ! i)"
    by (elim front_inv_curD) auto
  let ?g = "cfgs b ! i"
  note o = openInsn_eff [OF b' i(1)]
  define h where "h = set_insns (b_bb b) (bb_insns (blk ?g (b_bb b)) @ [ins]) ?g"
  have e: "eff b b' ?g h" "b_insn b' = opened h (b_bb b)" "b_bb b' = b_bb b" using o h_def by auto
  have m: "mid_inv (lc_map l) (b_bb b) h" unfolding h_def using mid_inv_open [OF i(5)] o ok(2) by simp
  have "last (bb_insns (blk h (b_bb b))) = ins" using o by (simp add: h_def)
  then have "cur_inv (sc_state c') (lc_map l) (b_bb b) (opened h (b_bb b)) h"
    using mid_inv_cur [OF m, of "sc_state c'"] s(2) ok(1) by auto
  then show ?thesis using e i(3,4) by (intro front_inv_eff [of b b']) auto
qed

lemma step_upd_open:
  assumes b': "upd_open u b = Some b'" "b_fnc b = Some i" "others_done b" "omap_wf (lc_map l)"
    and c: "cur_inv (sc_state c') (lc_map l) (b_bb b) (b_insn b) (cfgs b ! i)"
    and s: "sc_state c' \<in> {S_INSN_CALL, S_INSN_SWITCH}"
    and ok: "let x = last (bb_insns (blk (cfgs b ! i) (b_bb b))) in
      insn_ok (length (db_tab (cfgs b ! i))) False x \<longrightarrow>
      in_code (u x) = in_code x \<and> insn_ok (length (db_tab (cfgs b ! i))) False (u x)"
  shows "front_inv l c' b'"
proof -
  let ?g = "cfgs b ! i"
  let ?is = "bb_insns (blk ?g (b_bb b))"
  have s': "sc_state c' = S_INSN_CALL \<or> sc_state c' = S_INSN_SWITCH" using s by simp
  note m = cur_inv_mid [OF c s']
  note mid = conjunct1 [OF m]
  note e = upd_open_eff [OF b'(1,2) conjunct1 [OF conjunct2 [OF m]] mid_invD(3) [OF mid]]
  have "insn_ok (length (db_tab ?g)) False (last ?is)"
    using cfg_baseD(3) [OF mid_invD(1,2) [OF mid], of "length ?is - 1"] mid_invD(3) [OF mid]
    by (simp add: opened_def last_conv_nth)
  with ok have k: "in_code (u (last ?is)) = in_code (last ?is)" "insn_ok (length (db_tab ?g)) False (u (last ?is))"
    by (auto simp: Let_def)
  let ?h = "set_insns (b_bb b) (butlast ?is @ [u (last ?is)]) ?g"
  note mu = mid_inv_upd [OF mid k(2)]
  have "bb_insns (blk ?h (b_bb b)) = butlast ?is @ [u (last ?is)]" using mid_invD(2) [OF mid] by simp
  then have "cur_inv (sc_state c') (lc_map l) (b_bb b) (opened ?h (b_bb b)) ?h"
    using mid_inv_cur [OF conjunct1 [OF mu] s'] m k(1) by simp
  then show ?thesis using e b'(3,4) mu m by (intro front_inv_eff [of b b']) auto
qed

lemma step_close:
  assumes f: "front_inv l c b" and s: "sc_state c = S_INSN_CALL \<and> sc_state c' = S_BLOCK_LEVEL \<or>
      sc_state c = S_INSN_SWITCH \<and> sc_state c' = S_FNC_BODY"
    and b': "closeInsn M b = Some b'"
  shows "front_inv l c' b'"
proof -
  have "sc_state c \<in> {S_FNC_DECL, S_FNC_BODY, S_BLOCK_LEVEL, S_INSN_CALL, S_INSN_SWITCH}" using s by auto
  with f obtain i where i: "b_fnc b = Some i" "i < length (cfgs b)" "others_done b" "omap_wf (lc_map l)"
    "cur_inv (sc_state c) (lc_map l) (b_bb b) (b_insn b) (cfgs b ! i)"
    by (rule front_inv_curD)
  let ?g = "cfgs b ! i"
  have s': "sc_state c = S_INSN_CALL \<or> sc_state c = S_INSN_SWITCH" using s by blast
  note m = cur_inv_mid [OF i(5) s']
  note mid = conjunct1 [OF m]
  note k = closeInsn_eff [OF b' i(1) conjunct1 [OF conjunct2 [OF m]] mid_invD(3) [OF mid]]
  then obtain g1 h where g1: "add_preds (b_bb b) (targets (last (bb_insns (blk ?g (b_bb b))))) ?g = Some g1"
    "h = set_insns (b_bb b) (butlast (bb_insns (blk ?g (b_bb b))) @ [closed_insn (last (bb_insns (blk ?g (b_bb b))))]) g1"
    "eff b b' ?g h" by blast
  have "is_term (last (bb_insns (blk ?g (b_bb b)))) \<longleftrightarrow> sc_state c = S_INSN_SWITCH"
    using m s' by (auto simp: is_term_def open_code_def)
  then have "cur_inv (sc_state c') (lc_map l) (b_bb b) None h"
    using mid_inv_close [OF mid g1(1,2)] s by auto
  then show ?thesis using k i(3,4) g1(3) by (intro front_inv_eff [of b b']) auto
qed

lemma switch_add_case_ok:
  assumes "ofold (switch_add_case mk bb) vs x = Some y" "insn_ok n False x" "bb \<le> n" "is_term x"
  shows "in_code y = in_code x \<and> insn_ok n False y"
proof -
  have "in_code y = in_code x \<and> insn_ok n False y \<and> is_term y"
    by (rule ofold_invariant [OF assms(1), of "\<lambda>y. in_code y = in_code x \<and> insn_ok n False y \<and> is_term y"])
      (use assms in \<open>auto simp: switch_add_case_def insn_ok_def is_term_def\<close>)
  then show ?thesis by blast
qed

lemma switch_case_operands:
  assumes "b_insn_switch_case lo hi label b = Some b'"
  shows "lo = CL_OPERAND_VOID \<and> hi = CL_OPERAND_VOID \<or>
    (\<exists>sc t acs v sc' t' acs' v'. lo = CL_OPERAND_CST sc t acs (CstInt v) \<and> hi = CL_OPERAND_CST sc' t' acs' (CstInt v'))"
  using assms unfolding b_insn_switch_case_def
  by (cases lo; cases hi; (cases "case lo of CL_OPERAND_CST _ _ _ c \<Rightarrow> c | _ \<Rightarrow> CstInt 0");
      (cases "case hi of CL_OPERAND_CST _ _ _ c \<Rightarrow> c | _ \<Rightarrow> CstInt 0")) (auto simp: bind_eq_Some_conv)

lemma step_switch_case:
  assumes f: "front_inv l c b" and s: "sc_state c = S_INSN_SWITCH" "sc_state c' = S_INSN_SWITCH"
    and b': "b_insn_switch_case lo hi label b = Some b'"
  shows "front_inv (reqLabel label l) c' b'"
proof -
  let ?l = "reqLabel label l"
  from f s obtain i where i: "b_fnc b = Some i" "i < length (cfgs b)" "others_done b" "omap_wf (lc_map l)"
    "cur_inv S_INSN_SWITCH (lc_map l) (b_bb b) (b_insn b) (cfgs b ! i)"
    by (elim front_inv_curD) auto
  let ?g = "cfgs b ! i"
  have sw: "in_block S_INSN_SWITCH" by (simp add: in_block_def)
  note m = cur_inv_mid [OF i(5)]
  obtain bb g1 where g1: "cfg_block label ?g = (bb, g1)" by fastforce
  have "known_label (lc_map ?l) label" by (simp add: reqLabel_effect)
  note c1 = cur_inv_block [OF cur_inv_req [OF i(5), of label] g1 this sw]
  have last1: "bb_insns (blk g1 (b_bb b)) = bb_insns (blk ?g (b_bb b))" using c1 by simp
  have code: "in_code (last (bb_insns (blk ?g (b_bb b)))) = CL_INSN_SWITCH"
    using m by (simp add: open_code_def)
  have bb: "bb \<le> length (db_tab g1)" using c1 by (simp add: cfg_blocks_iff)
  have old: "open_insn b = Some x \<Longrightarrow> x = last (bb_insns (blk ?g (b_bb b)))" for x
    using m i(1) mid_invD(3) [of "lc_map l" "b_bb b" ?g] unfolding open_insn_def opened_def
    by (auto simp: last_conv_nth elim!: bind_SomeE dest!: cur_fnc_Some [OF i(1)] split: if_splits)
  from b' i(1) obtain x u b1 where x: "open_insn b = Some x" 
    and b1: "upd_cur (\<lambda>f. Some (f\<lparr>fnc_cfg := g1\<rparr>)) b = Some b1" and u: "upd_open u b1 = Some b'"
    and ux: "u = (\<lambda>i. i\<lparr>targets := (targets i)[0 := bb]\<rparr>) \<or>
      (\<exists>mk vs x'. ofold (switch_add_case mk bb) vs x = Some x' \<and> u = (\<lambda>_. x'))"
    using switch_case_operands [OF b'] unfolding b_insn_switch_case_def
    by (elim disjE conjE exE) (auto simp: g1 bind_eq_Some_conv Let_def dest!: cur_fnc_Some [OF i(1)], blast+)
  have e1: "eff b b1 ?g g1 \<and> b_bb b1 = b_bb b \<and> b_insn b1 = b_insn b"
    by (rule eff_upd_cur [OF b1 i(1)]) auto
  then have f1: "b_fnc b1 = Some i" using i(1) by (auto simp: eff_def)
  have g1': "cfgs b1 ! i = g1" using e1 eff_start f1 by blast
  let ?x = "last (bb_insns (blk g1 (b_bb b)))"
  have xl: "x = ?x" using old [OF x] last1 by simp
  have tm: "is_term ?x" using code last1 by (simp add: is_term_def)
  have ok: "insn_ok (length (db_tab g1)) False ?x \<longrightarrow> in_code (u ?x) = in_code ?x \<and> insn_ok (length (db_tab g1)) False (u ?x)"
    using ux
  proof
    assume "u = (\<lambda>i. i\<lparr>targets := (targets i)[0 := bb]\<rparr>)"
    moreover have "set ((targets ?x)[0 := bb]) \<subseteq> insert bb (set (targets ?x))" by (rule set_update_subset_insert)
    ultimately show ?thesis using tm bb by (auto simp: insn_ok_def is_term_def)
  qed (use switch_add_case_ok bb tm xl in blast)
  show ?thesis
    by (rule step_upd_open [OF u f1 eff_others [OF conjunct1 [OF e1] i(3)]])
      (use i(4) e1 g1' c1 s ok in \<open>auto simp: reqLabel_effect Let_def\<close>)
qed

section \<open>The theorem\<close>

lemma front_inv_step:
  assumes f: "front_inv l c b" and n: "file_nested cb (sc_state c)" and l': "label_step cb l = Some l'"
    and c': "seq_step cb c = Some c'" and b': "builder_step M cb b = Some b'" and e: "no_errors l' c'"
  shows "front_inv l' c' b'"
proof -
  from e have ee: "sc_errors c' = []" "\<forall>m \<in> set (lc_msgs l'). \<not> is_label_error m" by (auto simp: no_errors_def)
  have t: "seq_trans cb (sc_state c) (sc_state c')" using seq_step_ok [OF c' ee(1)] by blast
  note d = label_step_def builder_step_def
  show ?thesis
  proof (cases cb)
    case (file_open nm)
    with f n t l' b' show ?thesis using front_inv_noneD [OF f]
      by (intro front_inv_noneI) (auto simp: d others_done_def cfgs_def)
  next
    case file_close
    with f n t l' b' show ?thesis using front_inv_noneD [OF f]
      by (intro front_inv_noneI) (auto simp: d others_done_def cfgs_def)
  next
    case (fnc_open op)
    then show ?thesis using step_fnc_open [OF f _ _ _, of c' M op b' l'] t l' b'
      by (auto simp: d bind_eq_Some_conv)
  next
    case (fnc_arg_decl pos op)
    with t have st: "sc_state c = S_FNC_DECL" "sc_state c' = S_FNC_DECL" by auto
    with f obtain i where i: "b_fnc b = Some i" "i < length (cfgs b)" "others_done b" "omap_wf (lc_map l)"
      "cur_inv S_FNC_DECL (lc_map l) (b_bb b) (b_insn b) (cfgs b ! i)"
      by (elim front_inv_curD) auto
    from fnc_arg_decl b' obtain fresh b1 uid where b1: "digOperandVar op True b = Some (fresh, b1)"
      "upd_cur (\<lambda>f. Some (f\<lparr>fnc_args := fnc_args f @ [uid]\<rparr>)) b1 = Some b'"
      by (auto simp: d b_fnc_arg_decl_def elim!: bind_SomeE prod_SomeE)
    have "dig_rel b b'" using digOperandVar_rel [OF b1(1)] upd_cur_keep [OF b1(2)] by (auto intro: dig_rel_trans)
    then have "eff b b' (cfgs b ! i) (cfgs b ! i)" "b_bb b' = b_bb b" "b_insn b' = b_insn b"
      using eff_dig [OF _ i(1,2)] by (auto simp: dig_rel_def)
    then show ?thesis using i st l' fnc_arg_decl by (intro front_inv_eff [of b b']) (auto simp: d)
  next
    case fnc_close
    then show ?thesis using step_fnc_close [OF f] t l' b' ee by (auto simp: d)
  next
    case (bb_open nm)
    then show ?thesis using step_bb_open [OF f] t l' b' ee by (auto simp: d)
  next
    case (insn_cb cli)
    define l0 where "l0 = l\<lparr>lc_loc := cli_loc cli\<rparr>"
    have f0: "front_inv l0 c b" using f front_inv_labels [of l0 l] by (simp add: l0_def)
    have l1: "req_insn_labels cli l0 = Some l'" using l' insn_cb by (simp add: d l0_def)
    have b1: "b_insn_cb M cli b = Some b'" using b' insn_cb by (simp add: d)
    from t insn_cb consider "sc_state c = S_FNC_DECL" "cli_code cli = CL_INSN_JMP" "sc_state c' = S_FNC_BODY"
      | "sc_state c = S_BLOCK_LEVEL" "sc_state c' = (if cl_is_term_insn (cli_code cli) then S_FNC_BODY else S_BLOCK_LEVEL)"
      by auto
    then show ?thesis
    proof cases
      case 1
      with f0 obtain i where i: "b_fnc b = Some i" "i < length (cfgs b)" "others_done b" "omap_wf (lc_map l0)"
        "cur_inv S_FNC_DECL (lc_map l0) (b_bb b) (b_insn b) (cfgs b ! i)"
        by (elim front_inv_curD) auto
      have "b' = b" using b1 cur_invD(5) [OF i(5)] by (simp add: b_insn_cb_def)
      moreover obtain label where "l' = reqLabel label l0"
        using l1 1(2) by (auto simp: req_insn_labels_def split: insn_data.splits)
      moreover have "cur_inv S_FNC_BODY (lc_map l0) (b_bb b) (b_insn b) (cfgs b ! i)"
        using cur_invD [OF i(5)] by (intro cur_invI) (auto simp: in_block_def)
      ultimately show ?thesis using i 1(3) cur_inv_req by (simp add: front_inv_iff reqLabel_effect)
    next
      case 2
      then show ?thesis using step_insn_cb [OF f0 _ _ b1 l1] by blast
    qed
  next
    case (insn_call_open loc dst fn)
    have f1: "front_inv l c (b\<lparr>b_preventRefOps := isBuiltInFnc fn\<rparr>)"
      using f front_inv_fields [of "b\<lparr>b_preventRefOps := isBuiltInFnc fn\<rparr>" b] by simp
    show ?thesis
      by (rule step_open [OF _ _ _ b' [unfolded insn_call_open d callback.case b_insn_call_open_def]])
        (use f1 t l' insn_call_open in \<open>auto simp: d open_code_def new_insn_def insn_ok_def is_term_def\<close>)
  next
    case (insn_call_arg arg op)
    with t have st: "sc_state c = S_INSN_CALL" "sc_state c' = S_INSN_CALL" by auto
    with f obtain i where i: "b_fnc b = Some i" "i < length (cfgs b)" "others_done b" "omap_wf (lc_map l)"
      "cur_inv S_INSN_CALL (lc_map l) (b_bb b) (b_insn b) (cfgs b ! i)"
      by (elim front_inv_curD) auto
    show ?thesis
      by (rule step_upd_open [OF b' [unfolded insn_call_arg d callback.case b_insn_call_arg_def] i(1)])
        (use i st l' insn_call_arg in \<open>auto simp: d Let_def insn_ok_def is_term_def\<close>)
  next
    case insn_call_close
    then obtain b1 where b1: "closeInsn M b = Some b1" "b' = b1\<lparr>b_preventRefOps := False\<rparr>"
      using b' by (auto simp: d b_insn_call_close_def elim!: bind_SomeE)
    have "front_inv l c' b1" using step_close [OF f _ b1(1)] t insn_call_close by simp
    then show ?thesis using b1(2) l' insn_call_close front_inv_fields [of b' b1] by (simp add: d)
  next
    case (insn_switch_open loc src)
    show ?thesis
      by (rule step_open [OF _ _ _ b' [unfolded insn_switch_open d callback.case b_insn_switch_open_def]])
        (use f t l' insn_switch_open in \<open>auto simp: d open_code_def new_insn_def insn_ok_def is_term_def\<close>)
  next
    case (insn_switch_case loc lo hi label)
    have "front_inv (l\<lparr>lc_loc := loc_setif (lc_loc l) loc\<rparr>) c b"
      using f front_inv_labels [of "l\<lparr>lc_loc := loc_setif (lc_loc l) loc\<rparr>" l] by simp
    from step_switch_case [OF this] show ?thesis using t l' b' insn_switch_case by (auto simp: d)
  next
    case insn_switch_close
    then show ?thesis using step_close [OF f, of c' M b'] t l' b' by (simp add: d)
  next
    case acknowledge
    with f t l' b' show ?thesis using front_inv_noneD [OF f]
      by (intro front_inv_noneI) (auto simp: d others_done_def cfgs_def)
  qed
qed

lemma front_invariant: "front M l c b \<Longrightarrow> no_errors l c \<Longrightarrow> front_inv l c b"
proof (induction rule: front.induct)
  case init
  show ?case by (rule front_inv_init)
next
  case (step l c b cb l' c' b')
  show ?case
    by (rule front_inv_step [OF step.IH step.hyps(2,3,4,5) step.prems])
      (rule no_errors_back [OF step.hyps(3,4) step.prems])
qed


lemma cfg_done_block:
  assumes "cfg_done g" "u \<in> cfg_blocks g"
  shows "\<exists>is i. bb_insns (blk g u) = is @ [i] \<and> is_term i \<and> set (targets i) \<subseteq> cfg_blocks g \<and>
      (\<forall>x \<in> set is. \<not> is_term x \<and> targets x = []) \<and>
      (\<forall>x \<in> set (is @ [i]). varsToKill x = [] \<and> loopClosingTargets x = [] \<and>
         killPerTarget x = replicate (length (targets x)) []) \<and>
      set (inbound (blk g u)) \<subseteq> cfg_blocks g \<and>
      (\<forall>v \<in> cfg_blocks g. count_list (inbound (blk g v)) u = count_list (targets i) v)"
proof -
  have b: "cfg_base None g" and t: "term_ended (blk g u)" using assms by (auto simp: cfg_done_def)
  from t obtain "is" i where i: "bb_insns (blk g u) = is @ [i]" "is_term i"
    by (cases "bb_insns (blk g u)" rule: rev_cases) (auto simp: term_ended_def)
  have ok: "insn_ok (length (db_tab g)) True x" if "x \<in> set (is @ [i])" for x
  proof -
    from that obtain n where n: "n < length (is @ [i])" "x = (is @ [i]) ! n" by (metis in_set_conv_nth)
    then show ?thesis using cfg_baseD(3) [OF b assms(2), of n] i(1) by simp
  qed
  have n: "\<not> is_term x \<and> targets x = []" if "x \<in> set is" for x
    using that cfg_baseD(2) [OF b assms(2), of x] ok [of x] i(1) by (auto simp: insn_ok_def)
  have "map (\<lambda>n. targets ((is @ [i]) ! n)) [0..<length (is @ [i])] = map targets (is @ [i])"
    by (rule nth_equalityI) (auto simp: nth_append)
  then have "outs None g u = concat (map targets is) @ targets i"
    unfolding outs_def i(1) by (simp del: upt_Suc)
  moreover have "concat (map targets is) = []" using n by simp
  ultimately have "outs None g u = targets i" by simp
  then have "\<forall>v \<in> cfg_blocks g. count_list (inbound (blk g v)) u = count_list (targets i) v"
    using cfg_baseD(5) [OF b assms(2)] by simp
  moreover have "set (targets i) \<subseteq> cfg_blocks g" using ok [of i] by (auto simp: insn_ok_def cfg_blocks_def)
  moreover have "varsToKill x = [] \<and> loopClosingTargets x = [] \<and> killPerTarget x = replicate (length (targets x)) []"
    if "x \<in> set (is @ [i])" for x using ok [OF that] by (auto simp: insn_ok_def)
  ultimately show ?thesis using i n cfg_baseD(4) [OF b assms(2)] by blast
qed

text \<open>A run of the three listeners on a list of callbacks.\<close>

fun front_run :: "cl_mem \<Rightarrow> callback list \<Rightarrow> label_chk \<times> seq_chk \<times> builder \<Rightarrow>
    (label_chk \<times> seq_chk \<times> builder) option" where
  "front_run M [] s = Some s"
| "front_run M (cb # cbs) (l, c, b) = do {
     cl_break_if (\<not> file_nested cb (sc_state c));
     l \<leftarrow> label_step cb l;
     c \<leftarrow> seq_step cb c;
     b \<leftarrow> builder_step M cb b;
     front_run M cbs (l, c, b)
   }"

lemma front_run_front:
  "front_run M cbs (l, c, b) = Some (l', c', b') \<Longrightarrow> front M l c b \<Longrightarrow> front M l' c' b'"
proof (induction cbs arbitrary: l c b)
  case (Cons cb cbs)
  from Cons.prems(1) obtain l1 c1 b1 where "file_nested cb (sc_state c)" "label_step cb l = Some l1"
    "seq_step cb c = Some c1" "builder_step M cb b = Some b1" "front_run M cbs (l1, c1, b1) = Some (l', c', b')"
    by (auto elim!: bind_SomeE)
  with Cons show ?case by (blast intro: front.step)
qed simp

text \<open>A loop: the first block jumps to itself or to the second one, which returns.\<close>

definition wit_cst :: cl_operand where
  "wit_cst = CL_OPERAND_CST CL_SCOPE_GLOBAL 0 [] (CstInt 1)"

definition wit_insn :: "cl_insn_e \<Rightarrow> insn_data \<Rightarrow> callback" where
  "wit_insn c d = insn_cb \<lparr>cli_code = c, cli_loc = cl_loc_unknown, cli_data = d\<rparr>"

definition wit_mem :: cl_mem where
  "wit_mem = \<lparr>mem_types = (\<lambda>_. None), mem_initials = (\<lambda>_. [])\<rparr>"

definition wit_cbs :: "callback list" where
  "wit_cbs = [file_open ''f'',
     fnc_open (CL_OPERAND_CST CL_SCOPE_GLOBAL 0 []
       (CstFnc 7 (Some ''m'') False \<lparr>loc_file = Some ''f'', loc_line = 1, loc_column = 1, loc_sysp = False\<rparr>)),
     wit_insn CL_INSN_JMP (InsnJmp ''A''),
     bb_open ''A'', wit_insn CL_INSN_COND (InsnCond wit_cst ''A'' ''B''),
     bb_open ''B'', wit_insn CL_INSN_RET (InsnRet wit_cst),
     fnc_close]"


definition wit_front :: "(label_chk \<times> seq_chk \<times> builder) option" where
  "wit_front = front_run wit_mem wit_cbs (label_chk_ctor, seq_chk_ctor, builder_ctor)"

lemma wit_front_runs:
  "case wit_front of None \<Rightarrow> False | Some (l, c, b) \<Rightarrow> no_errors l c \<and> length (db_tab (fncs (b_stor b))) = 1 \<and>
     b_fnc b = None \<and> length (db_tab (fnc_cfg (db_tab (fncs (b_stor b)) ! 0))) = 2"
  by code_simp

text \<open>
  C12: as long as neither the label check nor the sequence check reports an error, every function that
  is not being built has a well-formed control flow graph: each block ends with its only terminal
  instruction, all targets are blocks of the graph, no analysis result is there yet, and a block occurs
  in the list of predecessors of another one exactly as often as its terminal instruction leads there.
\<close>

theorem front_builds_cfgs:
  assumes "front M l c b" "no_errors l c" "j < length (db_tab (fncs (b_stor b)))" "b_fnc b \<noteq> Some j"
    and "g = fnc_cfg (db_tab (fncs (b_stor b)) ! j)" "u \<in> cfg_blocks g"
  shows "\<exists>is i. bb_insns (blk g u) = is @ [i] \<and> is_term i \<and> set (targets i) \<subseteq> cfg_blocks g \<and>
      (\<forall>x \<in> set is. \<not> is_term x \<and> targets x = []) \<and>
      (\<forall>x \<in> set (is @ [i]). varsToKill x = [] \<and> loopClosingTargets x = [] \<and>
         killPerTarget x = replicate (length (targets x)) []) \<and>
      set (inbound (blk g u)) \<subseteq> cfg_blocks g \<and>
      (\<forall>v \<in> cfg_blocks g. count_list (inbound (blk g v)) u = count_list (targets i) v)"
proof -
  have "cfg_done g"
    using front_invariant [OF assms(1,2)] assms(3-5) by (auto simp: front_inv_def cfgs_def)
  then show ?thesis using assms(6) by (rule cfg_done_block)
qed



theorem front_builds_cfgs_witness:
  "\<exists>l c b. wit_front = Some (l, c, b) \<and>
     (let g = fnc_cfg (db_tab (fncs (b_stor b)) ! 0) in
      \<exists>is i. bb_insns (blk g 1) = is @ [i] \<and> is_term i \<and> set (targets i) \<subseteq> cfg_blocks g \<and>
        count_list (inbound (blk g 2)) 1 = count_list (targets i) 2)"
proof -
  obtain l c b where w: "wit_front = Some (l, c, b)" and n: "no_errors l c" "length (db_tab (fncs (b_stor b))) = 1"
    "b_fnc b = None" "length (db_tab (fnc_cfg (db_tab (fncs (b_stor b)) ! 0))) = 2"
    using wit_front_runs by (auto split: option.splits)
  have f: "front wit_mem l c b"
    by (rule front_run_front [OF w [unfolded wit_front_def] front.init])
  define g where "g = fnc_cfg (db_tab (fncs (b_stor b)) ! 0)"
  have b12: "1 \<in> cfg_blocks g" "2 \<in> cfg_blocks g" using n(4) by (simp_all add: cfg_blocks_iff g_def)
  from front_builds_cfgs [OF f n(1), of 0 g 1] n(2,3) b12
  have "\<exists>is i. bb_insns (blk g 1) = is @ [i] \<and> is_term i \<and> set (targets i) \<subseteq> cfg_blocks g \<and>
      count_list (inbound (blk g 2)) 1 = count_list (targets i) 2"
    by (auto simp: g_def)
  then show ?thesis using w unfolding g_def Let_def by blast
qed

text \<open>
  What the sequence check misses: a file may be opened in the body of a function, because the check
  takes the transition for that of \<open>fnc_close\<close>.  The function is never closed and its labels are never checked.
\<close>

lemma seq_chk_misses_file_open:
  "sc_errors c = [] \<Longrightarrow> sc_state c = S_FNC_BODY \<Longrightarrow>
    \<exists>c'. seq_step (file_open nm) c = Some c' \<and> sc_errors c' = [] \<and> sc_state c' = S_FILE_LEVEL"
  by (simp add: seq_step_def setState_def)

end
