(* ===== verification/ClSwitch.thy ===== *)
theory ClSwitch
  imports ClFront
begin

text \<open>
  The unfolding of switch statements (\<open>src/cl/clf_unswitch.cc\<close>): the chain of comparisons it emits leads
  to the same label as the switch statement, its auxiliary labels are all different, and a stream of
  callbacks that the sequence check accepts is turned into one that it accepts.
\<close>

section \<open>Labels\<close>

lemma dec_digits_val: "foldl (\<lambda>a c. 10 * a + (of_char c - 48)) 0 (dec_digits n) = n"
proof (induction n rule: dec_digits.induct)
  case (1 n)
  show ?case
  proof (cases "n < 10")
    case True
    then show ?thesis by (subst dec_digits.simps) simp
  next
    case False
    then show ?thesis using 1 [OF False] by (subst dec_digits.simps) simp
  qed
qed

lemma dec_digits_inj: "dec_digits m = dec_digits n \<longleftrightarrow> m = n"
  by (metis dec_digits_val)

lemma dec_digits_chars: "c \<in> set (dec_digits n) \<Longrightarrow> c \<noteq> CHR ''_''"
proof (induction n rule: dec_digits.induct)
  case (1 n)
  have d: "char_of (48 + k) \<noteq> CHR ''_''" if "k < 10" for k :: nat
  proof
    assume "char_of (48 + k) = CHR ''_''"
    then have "of_char (char_of (48 + k)) = (of_char CHR ''_'' :: nat)" by simp
    then show False using that by simp
  qed
  show ?case
  proof (cases "n < 10")
    case True
    then show ?thesis using 1(2) d by (subst (asm) dec_digits.simps) auto
  next
    case False
    from 1(2) have "c \<in> set (dec_digits (n div 10)) \<or> c = char_of (48 + n mod 10)"
      using False by (subst (asm) dec_digits.simps) auto
    then show ?thesis using 1(1) [OF False] d [of "n mod 10"] by auto
  qed
qed

lemma takeWhile_digits: "takeWhile (\<lambda>c. c \<noteq> CHR ''_'') (dec_digits n @ CHR ''_'' # xs) = dec_digits n"
  using dec_digits_chars by (subst takeWhile_append2) auto

lemma aux_label_inj:
  "aux_label u = aux_label u' \<longleftrightarrow> us_switchCnt u = us_switchCnt u' \<and> us_caseCnt u = us_caseCnt u'"
proof
  assume e: "aux_label u = aux_label u'"
  let ?t = "\<lambda>u. dec_digits (us_switchCnt u) @ CHR ''_'' # ''_case_'' @ dec_digits (us_caseCnt u + 1)"
  have t: "?t u = ?t u'" using e by (simp add: aux_label_def)
  then have d: "dec_digits (us_switchCnt u) = dec_digits (us_switchCnt u')" by (metis takeWhile_digits)
  with t have "dec_digits (us_caseCnt u + 1) = dec_digits (us_caseCnt u' + 1)" by simp
  with d show "us_switchCnt u = us_switchCnt u' \<and> us_caseCnt u = us_caseCnt u'" by (simp add: dec_digits_inj)
qed (simp add: aux_label_def)

section \<open>What a switch statement means\<close>

text \<open>
  The reference: the values of the cases in order, each with its label; the label of the first one that
  equals the value, and the default label otherwise.  The value of an operand of a case is that of its constant,
  which is wider than the \<open>int\<close> of \<open>getCaseVal\<close>.
\<close>

fun label_value :: "cl_operand \<Rightarrow> int option" where
  "label_value (CL_OPERAND_CST sc ty acs (CstInt v)) = Some v"
| "label_value op = None"

fun case_values :: "callback \<Rightarrow> (int \<times> string) list" where
  "case_values (insn_switch_case loc lo hi label) = (case (label_value lo, label_value hi) of
     (Some l, Some h) \<Rightarrow> map (\<lambda>v. (v, label)) [l..h] | _ \<Rightarrow> [])"
| "case_values cb = []"

text \<open>The values of the case fit into \<open>int\<close>.\<close>

fun int_labels :: "callback \<Rightarrow> bool" where
  "int_labels (insn_switch_case loc lo hi label) \<longleftrightarrow>
     (\<forall>v \<in> set_option (label_value lo) \<union> set_option (label_value hi). - (2 ^ 31) \<le> v \<and> v < 2 ^ 31)"
| "int_labels cb \<longleftrightarrow> True"

fun default_label :: "string \<Rightarrow> callback list \<Rightarrow> string" where
  "default_label d [] = d"
| "default_label d (insn_switch_case loc CL_OPERAND_VOID CL_OPERAND_VOID label # cs) = default_label label cs"
| "default_label d (cb # cs) = default_label d cs"

definition switch_goto :: "callback list \<Rightarrow> int \<Rightarrow> string" where
  "switch_goto cs v = (case map_of (concat (map (case_values) cs)) v of
     Some label \<Rightarrow> label | None \<Rightarrow> default_label [] cs)"

text \<open>
  The emitted code for a value \<open>v\<close> of the operand \<open>src\<close>: a comparison of \<open>src\<close> with a constant, a branch
  by its result, whose else branch is the block opened next, and so on up to the final jump.
\<close>

fun chain_goto :: "cl_operand \<Rightarrow> int \<Rightarrow> callback list \<Rightarrow> string option" where
  "chain_goto src v [insn_cb j] = (case (cli_code j, cli_data j) of
     (CL_INSN_JMP, InsnJmp l) \<Rightarrow> Some l | _ \<Rightarrow> None)"
| "chain_goto src v (insn_cb i # insn_cb j # bb_open aux # cbs) =
     (case (cli_code i, cli_data i, cli_code j, cli_data j) of
        (CL_INSN_BINOP, InsnBinop c dst src1 (CL_OPERAND_CST sc t acs (CstInt k)), CL_INSN_COND, InsnCond r l1 l2) \<Rightarrow>
          if c = CL_BINOP_EQ \<and> src1 = src \<and> r = dst \<and> l2 = aux
          then (if v = k then Some l1 else chain_goto src v cbs) else None
      | _ \<Rightarrow> None)"
| "chain_goto src v _ = None"

fun is_switch_case :: "callback \<Rightarrow> bool" where
  "is_switch_case (insn_switch_case loc lo hi label) = True"
| "is_switch_case cb = False"

fun opened_labels :: "callback list \<Rightarrow> string list" where
  "opened_labels [] = []"
| "opened_labels (bb_open l # cbs) = l # opened_labels cbs"
| "opened_labels (cb # cbs) = opened_labels cbs"

section \<open>The emitted chain\<close>

lemma emitCases_fields:
  assumes "emitCases btype vs ty label u = (out, u')"
  shows "us_src u' = us_src u \<and> us_switchCnt u' = us_switchCnt u \<and> us_caseCnt u' = us_caseCnt u + length vs \<and>
    us_defLabel u' = us_defLabel u \<and> us_loc u' = us_loc u"
  using assms
proof (induction vs arbitrary: u out)
  case (Cons v vs)
  then show ?case by (fastforce simp: emitCase_def Let_def split: prod.splits)
qed simp

lemma emitCases_goto:
  assumes "emitCases btype vs ty label u = (out, u')" "us_src u = src"
  shows "chain_goto src v (out @ rest) = (if v \<in> set vs then Some label else chain_goto src v rest)"
  using assms
proof (induction vs arbitrary: u out)
  case (Cons w vs)
  then show ?case by (fastforce simp: emitCase_def Let_def split: prod.splits)
qed simp

lemma opened_append: "opened_labels (xs @ ys) = opened_labels xs @ opened_labels ys"
  by (induction xs rule: opened_labels.induct) auto

lemma emitCases_labels:
  assumes "emitCases btype vs ty label u = (out, u')"
  shows "opened_labels out = map (\<lambda>k. aux_label (u\<lparr>us_caseCnt := us_caseCnt u + k\<rparr>)) [0..<length vs]"
  using assms
proof (induction vs arbitrary: u out)
  case (Cons w vs)
  let ?u = "u\<lparr>us_caseCnt := us_caseCnt u + 1\<rparr>"
  obtain out' where o: "emitCases btype vs ty label ?u = (out', u')" "opened_labels out = aux_label u # opened_labels out'"
    using Cons.prems by (auto simp: emitCase_def Let_def split: prod.splits)
  have "opened_labels out' = map (\<lambda>k. aux_label (u\<lparr>us_caseCnt := us_caseCnt u + Suc k\<rparr>)) [0..<length vs]"
    using Cons.IH [OF o(1)] by simp
  then show ?case using o(2) by (simp add: map_upt_Suc del: upt_Suc)
qed simp


lemma us_step_case: "us_step M btype (insn_switch_case loc lo hi label) u = us_switch_case M btype loc lo hi label u"
  by (simp add: us_step_def)

lemma map_of_case: "map_of (map (\<lambda>w. (w, l)) vs) v = (if v \<in> set vs then Some l else None)"
  by (induction vs) auto

lemma getCaseVal_value: "getCaseVal M op = Some w \<Longrightarrow> \<exists>v. label_value op = Some v \<and> w = to_c_int v"
  by (cases "(M, op)" rule: getCaseVal.cases) (auto simp: bind_eq_Some_conv)

lemma to_c_int_fits: "- (2 ^ 31) \<le> v \<Longrightarrow> v < 2 ^ 31 \<Longrightarrow> to_c_int v = v"
  by (simp add: to_c_int_def)

text \<open>One case callback.\<close>

lemma us_case_effect:
  assumes "us_switch_case M btype loc lo hi label u = Some (out, u')" "us_src u = src"
    and fit: "int_labels (insn_switch_case loc lo hi label)"
  shows "chain_goto src v (out @ rest) =
      (case map_of (case_values (insn_switch_case loc lo hi label)) v of
         Some l \<Rightarrow> Some l | None \<Rightarrow> chain_goto src v rest)"
    "us_src u' = src" "us_switchCnt u' = us_switchCnt u" "us_caseCnt u \<le> us_caseCnt u'"
    "us_defLabel u' = default_label (us_defLabel u) [insn_switch_case loc lo hi label]"
    "opened_labels out = map (\<lambda>k. aux_label (u\<lparr>us_caseCnt := k\<rparr>)) [us_caseCnt u..<us_caseCnt u']"
proof -
  have "chain_goto src v (out @ rest) =
      (case map_of (case_values (insn_switch_case loc lo hi label)) v of
         Some l \<Rightarrow> Some l | None \<Rightarrow> chain_goto src v rest) \<and>
    us_src u' = src \<and> us_switchCnt u' = us_switchCnt u \<and> us_caseCnt u \<le> us_caseCnt u' \<and>
    us_defLabel u' = default_label (us_defLabel u) [insn_switch_case loc lo hi label] \<and>
    opened_labels out = map (\<lambda>k. aux_label (u\<lparr>us_caseCnt := k\<rparr>)) [us_caseCnt u..<us_caseCnt u']"
  proof (cases "lo = CL_OPERAND_VOID \<and> hi = CL_OPERAND_VOID")
    case True
    then show ?thesis using assms by (auto simp: us_switch_case_def)
  next
    case False
    then obtain l h where v: "getCaseVal M lo = Some l" "getCaseVal M hi = Some h"
      and e: "emitCases btype [l..h] (op_type lo) label (u\<lparr>us_loc := loc\<rparr>) = (out, u')"
      using assms(1) by (auto simp: us_switch_case_def bind_eq_Some_conv split: if_splits)
    have w: "label_value lo = Some l" "label_value hi = Some h"
      using getCaseVal_value [OF v(1)] getCaseVal_value [OF v(2)] fit by (auto simp: to_c_int_fits)
    have d: "default_label dd [insn_switch_case loc lo hi label] = dd" for dd
      using False v by (cases lo; cases hi) auto
    have a: "aux_label (u\<lparr>us_loc := loc, us_caseCnt := k\<rparr>) = aux_label (u\<lparr>us_caseCnt := k\<rparr>)" for k
      by (simp add: aux_label_def)
    have "map (\<lambda>k. aux_label (u\<lparr>us_caseCnt := us_caseCnt u + k\<rparr>)) [0..<n]
        = map (\<lambda>k. aux_label (u\<lparr>us_caseCnt := k\<rparr>)) [us_caseCnt u..<us_caseCnt u + n]" for n
      by (rule nth_equalityI) auto
    then show ?thesis
      using emitCases_goto [OF e, of src v rest] emitCases_fields [OF e] emitCases_labels [OF e] assms(2) w d
      by (simp add: map_of_case a)
  qed
  then show "chain_goto src v (out @ rest) =
      (case map_of (case_values (insn_switch_case loc lo hi label)) v of
         Some l \<Rightarrow> Some l | None \<Rightarrow> chain_goto src v rest)"
    "us_src u' = src" "us_switchCnt u' = us_switchCnt u" "us_caseCnt u \<le> us_caseCnt u'"
    "us_defLabel u' = default_label (us_defLabel u) [insn_switch_case loc lo hi label]"
    "opened_labels out = map (\<lambda>k. aux_label (u\<lparr>us_caseCnt := k\<rparr>)) [us_caseCnt u..<us_caseCnt u']"
    by blast+
qed

lemma default_label_append: "default_label d (xs @ ys) = default_label (default_label d xs) ys"
  by (induction d xs rule: default_label.induct) auto

lemma us_cases_effect:
  assumes "filter_run (us_step M btype) cs u = Some (out, u')" "list_all is_switch_case cs" "list_all int_labels cs" "us_src u = src"
  shows "chain_goto src v (out @ rest) =
      (case map_of (concat (map (case_values) cs)) v of Some l \<Rightarrow> Some l | None \<Rightarrow> chain_goto src v rest) \<and>
    us_src u' = src \<and> us_switchCnt u' = us_switchCnt u \<and> us_caseCnt u \<le> us_caseCnt u' \<and>
    us_defLabel u' = default_label (us_defLabel u) cs \<and>
    opened_labels out = map (\<lambda>k. aux_label (u\<lparr>us_caseCnt := k\<rparr>)) [us_caseCnt u..<us_caseCnt u']"
  using assms
proof (induction cs arbitrary: u out)
  case (Cons c cs)
  from Cons.prems(2) obtain loc lo hi label where c: "c = insn_switch_case loc lo hi label" by (cases c) auto
  from Cons.prems(1) obtain out1 u1 out2 where r: "us_switch_case M btype loc lo hi label u = Some (out1, u1)"
    "filter_run (us_step M btype) cs u1 = Some (out2, u')" "out = out1 @ out2"
    by (auto simp: c us_step_case bind_eq_Some_conv split: prod.splits)
  note e1 = us_case_effect [OF r(1) Cons.prems(4)]
  have fit: "int_labels (insn_switch_case loc lo hi label)" using Cons.prems(3) c by simp
  note e1 = e1 [OF fit]
  have IH: "chain_goto src v (out2 @ rest) =
      (case map_of (concat (map (case_values) cs)) v of Some l \<Rightarrow> Some l | None \<Rightarrow> chain_goto src v rest)"
    "us_src u' = src" "us_switchCnt u' = us_switchCnt u1" "us_caseCnt u1 \<le> us_caseCnt u'"
    "us_defLabel u' = default_label (us_defLabel u1) cs"
    "opened_labels out2 = map (\<lambda>k. aux_label (u1\<lparr>us_caseCnt := k\<rparr>)) [us_caseCnt u1..<us_caseCnt u']"
    using Cons.IH [OF r(2) _ _ e1(2)] Cons.prems(2,3) by simp_all
  have a: "aux_label (u1\<lparr>us_caseCnt := k\<rparr>) = aux_label (u\<lparr>us_caseCnt := k\<rparr>)" for k
    using e1(3) by (simp add: aux_label_def)
  have "opened_labels out = map (\<lambda>k. aux_label (u\<lparr>us_caseCnt := k\<rparr>)) [us_caseCnt u..<us_caseCnt u']"
    using e1(4,6) IH(4,6) a upt_add_eq_append [of "us_caseCnt u" "us_caseCnt u1" "us_caseCnt u' - us_caseCnt u1"]
    by (simp add: r(3) opened_append)
  moreover have "us_defLabel u' = default_label (us_defLabel u) (c # cs)"
    using IH(5) e1(5) default_label_append [of "us_defLabel u" "[c]" cs] c by simp
  moreover have "chain_goto src v (out @ rest) =
      (case map_of (concat (map (case_values) (c # cs))) v of Some l \<Rightarrow> Some l | None \<Rightarrow> chain_goto src v rest)"
    using e1(1) [of v "out2 @ rest"] IH(1) by (simp add: r(3) c map_add_def split: option.splits)
  ultimately show ?case using IH e1 by simp
qed simp

lemma filter_run_append:
  "filter_run step (xs @ ys) s = do {
     (o1, s1) \<leftarrow> filter_run step xs s;
     (o2, s2) \<leftarrow> filter_run step ys s1;
     Some (o1 @ o2, s2)
   }"
proof (induction xs arbitrary: s)
  case Nil
  show ?case by (cases "filter_run step ys s") auto
next
  case (Cons x xs)
  then show ?case
    by (cases "step x s"; cases "filter_run step xs (snd (the (step x s)))")
      (auto simp: split_beta bind_assoc)
qed

text \<open>
  C23: a switch statement with any number of cases, ranges included, whose values all fit into \<open>int\<close>, is unfolded to
  code that goes, for every value, where the switch statement goes: to the label of the first case that holds the value,
  or to the default label.  The labels of the blocks in between are all different.
\<close>

theorem unfold_switch_same_target:
  assumes "filter_run (us_step M btype) (insn_switch_open loc src # cs @ [insn_switch_close]) u = Some (out, u')"
    and "list_all is_switch_case cs" "list_all int_labels cs" "us_defLabel u = []"
  shows "(\<forall>v. chain_goto src v out = Some (switch_goto cs v)) \<and> distinct (opened_labels out)"
proof -
  let ?u = "u\<lparr>us_src := src\<rparr>"
  from assms(1) obtain o1 u1 where r: "filter_run (us_step M btype) cs ?u = Some (o1, u1)" "us_defLabel u1 \<noteq> []"
    "out = o1 @ [insn_cb \<lparr>cli_code = CL_INSN_JMP, cli_loc = us_defLoc u1, cli_data = InsnJmp (us_defLabel u1)\<rparr>]"
    by (auto simp: us_step_def filter_run_append bind_eq_Some_conv emitDefault_def split: prod.splits if_splits)
  note e = us_cases_effect [OF r(1) assms(2,3), of src]
  have "chain_goto src v out = Some (switch_goto cs v)" for v
    using e [of v "[insn_cb \<lparr>cli_code = CL_INSN_JMP, cli_loc = us_defLoc u1, cli_data = InsnJmp (us_defLabel u1)\<rparr>]"] assms(4)
    by (auto simp: r(3) switch_goto_def split: option.splits)
  moreover have "inj_on (\<lambda>k. aux_label (?u\<lparr>us_caseCnt := k\<rparr>)) S" for S
    by (auto simp: inj_on_def aux_label_inj)
  then have "distinct (opened_labels out)" using e by (simp add: r(3) opened_append distinct_map)
  ultimately show ?thesis by blast
qed


definition wit_case :: "int \<Rightarrow> int \<Rightarrow> string \<Rightarrow> callback" where
  "wit_case lo hi label = insn_switch_case cl_loc_unknown (CL_OPERAND_CST CL_SCOPE_GLOBAL 1 [] (CstInt lo))
     (CL_OPERAND_CST CL_SCOPE_GLOBAL 1 [] (CstInt hi)) label"

definition wit_switch :: "callback list" where
  "wit_switch = [wit_case 1 2 ''A'', insn_switch_case cl_loc_unknown CL_OPERAND_VOID CL_OPERAND_VOID ''D'', wit_case 5 5 ''B'']"

definition wit_switch_mem :: cl_mem where
  "wit_switch_mem = \<lparr>mem_types = (\<lambda>_. Some \<lparr>clt_uid = 1, clt_code = CL_TYPE_INT, clt_size = 4, clt_items = [],
     clt_is_unsigned = False\<rparr>), mem_initials = (\<lambda>_. [])\<rparr>"

lemma wit_switch_runs:
  "(case filter_run (us_step wit_switch_mem 2)
      (insn_switch_open cl_loc_unknown wit_cst # wit_switch @ [insn_switch_close]) unfold_switch_ctor of
    None \<Rightarrow> False | Some (out, u) \<Rightarrow> length out = 10) \<and>
   switch_goto wit_switch 2 = ''A'' \<and> switch_goto wit_switch 3 = ''D''"
  by code_simp

theorem unfold_switch_same_target_witness:
  "\<exists>out u'. filter_run (us_step wit_switch_mem 2)
      (insn_switch_open cl_loc_unknown wit_cst # wit_switch @ [insn_switch_close]) unfold_switch_ctor = Some (out, u') \<and>
    chain_goto wit_cst 2 out = Some ''A'' \<and> chain_goto wit_cst 3 out = Some ''D''"
proof -
  obtain out u' where r: "filter_run (us_step wit_switch_mem 2)
      (insn_switch_open cl_loc_unknown wit_cst # wit_switch @ [insn_switch_close]) unfold_switch_ctor = Some (out, u')"
    using wit_switch_runs by (auto split: option.splits)
  have "list_all is_switch_case wit_switch" "list_all int_labels wit_switch" "us_defLabel unfold_switch_ctor = []"
    by (simp_all add: wit_switch_def wit_case_def unfold_switch_ctor_def)
  from unfold_switch_same_target [OF r this] r wit_switch_runs show ?thesis by auto
qed

text \<open>
  The constant of a case is read as \<open>int\<close>: the value \<open>2 ^ 32 + 1\<close> is taken for 1, so the emitted code goes to
  the label of that case for 1, where the switch statement goes to the default label, and the other way round.
\<close>

definition wit_switch_long :: "callback list" where
  "wit_switch_long = [wit_case (2 ^ 32 + 1) (2 ^ 32 + 1) ''A'', insn_switch_case cl_loc_unknown CL_OPERAND_VOID CL_OPERAND_VOID ''D'']"

lemma unfold_switch_truncates:
  "(case filter_run (us_step wit_switch_mem 2)
      (insn_switch_open cl_loc_unknown wit_cst # wit_switch_long @ [insn_switch_close]) unfold_switch_ctor of
    None \<Rightarrow> False
  | Some (out, u) \<Rightarrow> chain_goto wit_cst 1 out = Some ''A'' \<and> switch_goto wit_switch_long 1 = ''D'' \<and>
      chain_goto wit_cst (2 ^ 32 + 1) out = Some ''D'' \<and> switch_goto wit_switch_long (2 ^ 32 + 1) = ''A'')"
  by code_simp

section \<open>The order of callbacks\<close>

text \<open>An open switch statement of the input is the level of blocks for the output.\<close>

definition out_state :: "EState \<Rightarrow> EState" where
  "out_state s = (if s = S_INSN_SWITCH then S_BLOCK_LEVEL else s)"

fun is_switch_cb :: "callback \<Rightarrow> bool" where
  "is_switch_cb (insn_switch_open loc src) = True"
| "is_switch_cb (insn_switch_case loc lo hi label) = True"
| "is_switch_cb insn_switch_close = True"
| "is_switch_cb cb = False"

lemma seq_step_repeat:
  assumes "seq_step cb c = Some c'" "seq_trans cb (sc_state d) s'" "sc_errors d = []"
  shows "\<exists>d'. seq_step cb d = Some d' \<and> sc_errors d' = [] \<and> sc_state d' = s'"
  using assms by (cases cb)
    (auto simp: seq_step_def setState_def chk_in_def chk_insn_def bind_eq_Some_conv split: cl_insn_e.splits)

lemma seq_run_append: "seq_run (xs @ ys) c = do { c \<leftarrow> seq_run xs c; seq_run ys c }"
  by (simp add: seq_run_def ofold_append)

lemma emitCases_accepted:
  assumes "emitCases btype vs ty label u = (out, u')" "sc_state d = S_BLOCK_LEVEL" "sc_errors d = []"
  shows "\<exists>d'. seq_run out d = Some d' \<and> sc_errors d' = [] \<and> sc_state d' = S_BLOCK_LEVEL \<and> \<not> list_ex is_switch_cb out"
  using assms
proof (induction vs arbitrary: u out d)
  case (Cons v vs)
  obtain o1 u1 o2 where e: "emitCase btype v ty label u = (o1, u1)" "emitCases btype vs ty label u1 = (o2, u')"
    "out = o1 @ o2" using Cons.prems(1) by (auto split: prod.splits)
  have "\<exists>d'. seq_run o1 d = Some d' \<and> sc_errors d' = [] \<and> sc_state d' = S_BLOCK_LEVEL \<and> \<not> list_ex is_switch_cb o1"
    using e(1) Cons.prems(2,3)
    by (auto simp: emitCase_def Let_def seq_run_def seq_step_def chk_insn_def chk_in_def setState_def)
  with Cons.IH [OF e(2)] show ?case unfolding e(3) seq_run_append by auto
qed (simp add: seq_run_def)

lemma seq_trans_no_switch:
  "seq_trans cb s s' \<Longrightarrow> \<not> is_switch_cb cb \<Longrightarrow> s \<noteq> S_INSN_SWITCH \<and> s' \<noteq> S_INSN_SWITCH"
  by (cases cb) (elim seq_trans.elims; auto split: if_splits)+

lemma us_step_other: "\<not> is_switch_cb cb \<Longrightarrow> us_step M btype cb u = Some ([cb], u)"
  by (cases cb) (simp_all add: us_step_def)

lemma jmp_accepted:
  assumes "sc_state d = S_BLOCK_LEVEL" "sc_errors d = []"
  shows "\<exists>d'. seq_run [insn_cb \<lparr>cli_code = CL_INSN_JMP, cli_loc = loc, cli_data = dat\<rparr>] d = Some d' \<and>
    sc_errors d' = [] \<and> sc_state d' = S_FNC_BODY"
  using assms by (simp add: seq_run_def seq_step_def chk_insn_def chk_in_def)

lemma us_step_accepted:
  assumes s: "seq_step cb c = Some c'" "sc_errors c' = []" and u: "us_step M btype cb u = Some (out, u')"
    and d: "sc_state d = out_state (sc_state c)" "sc_errors d = []"
  shows "\<exists>d'. seq_run out d = Some d' \<and> sc_errors d' = [] \<and> sc_state d' = out_state (sc_state c') \<and>
    \<not> list_ex is_switch_cb out"
proof -
  note t = seq_step_ok [OF s]
  show ?thesis
  proof (cases "is_switch_cb cb")
    case False
    then have out: "out = [cb]" using u us_step_other by simp
    have "sc_state c \<noteq> S_INSN_SWITCH" "sc_state c' \<noteq> S_INSN_SWITCH"
      using seq_trans_no_switch [OF conjunct2 [OF t] False] by blast+
    then have "seq_trans cb (sc_state d) (sc_state c')" "sc_state c' \<noteq> S_INSN_SWITCH"
      using t d(1) by (simp_all add: out_state_def)
    moreover have "seq_run [cb] d = seq_step cb d" by (simp add: seq_run_def) (cases "seq_step cb d", simp_all)
    ultimately show ?thesis using seq_step_repeat [OF s(1) _ d(2)] False by (simp add: out out_state_def)
  next
    case True
    then consider loc src where "cb = insn_switch_open loc src" | loc lo hi label where "cb = insn_switch_case loc lo hi label"
      | "cb = insn_switch_close" by (cases cb) auto
    then show ?thesis
    proof cases
      case 1
      then show ?thesis using t d u by (auto simp: us_step_def seq_run_def out_state_def)
    next
      case 2
      then have st: "sc_state d = S_BLOCK_LEVEL" "sc_state c' = S_INSN_SWITCH" using t d by (auto simp: out_state_def)
      show ?thesis
      proof (cases "lo = CL_OPERAND_VOID \<and> hi = CL_OPERAND_VOID")
        case True
        then have "out = []" using u 2 by (auto simp: us_step_def us_switch_case_def)
        then show ?thesis using st d by (simp add: seq_run_def out_state_def)
      next
        case False
        then obtain vs where "emitCases btype vs (op_type lo) label (u\<lparr>us_loc := loc\<rparr>) = (out, u')"
          using u 2 by (auto simp: us_step_def us_switch_case_def bind_eq_Some_conv split: if_splits)
        from emitCases_accepted [OF this st(1) d(2)] st show ?thesis by (simp add: out_state_def)
      qed
    next
      case 3
      then have st: "sc_state d = S_BLOCK_LEVEL" "sc_state c' = S_FNC_BODY" using t d by (auto simp: out_state_def)
      have "out = [insn_cb \<lparr>cli_code = CL_INSN_JMP, cli_loc = us_defLoc u, cli_data = InsnJmp (us_defLabel u)\<rparr>]"
        using u 3 by (auto simp: us_step_def emitDefault_def split: if_splits)
      with jmp_accepted [OF st(1) d(2)] st(2) show ?thesis by (simp add: out_state_def)
    qed
  qed
qed

lemma seq_run_errors: "seq_run cbs c = Some c' \<Longrightarrow> sc_errors c' = [] \<Longrightarrow> sc_errors c = []"
proof (induction cbs arbitrary: c)
  case (Cons cb cbs)
  then obtain c1 where "seq_step cb c = Some c1" "seq_run cbs c1 = Some c'" by (auto simp: seq_run_def bind_eq_Some_conv)
  with Cons seq_step_ok show ?case by blast
qed (simp add: seq_run_def)

text \<open>The filter turns a stream without an error report into one without an error report and without switches.\<close>

lemma unfold_switch_accepted:
  assumes "seq_run cbs c = Some c'" "sc_errors c' = []" "filter_run (us_step M btype) cbs u = Some (out, u')"
    and "sc_state d = out_state (sc_state c)" "sc_errors d = []"
  shows "\<exists>d'. seq_run out d = Some d' \<and> sc_errors d' = [] \<and> sc_state d' = out_state (sc_state c') \<and>
    \<not> list_ex is_switch_cb out"
  using assms
proof (induction cbs arbitrary: c u out d)
  case (Cons cb cbs)
  from Cons.prems(1) obtain c1 where c1: "seq_step cb c = Some c1" "seq_run cbs c1 = Some c'"
    by (auto simp: seq_run_def bind_eq_Some_conv)
  from Cons.prems(3) obtain o1 u1 o2 where u1: "us_step M btype cb u = Some (o1, u1)"
    "filter_run (us_step M btype) cbs u1 = Some (o2, u')" "out = o1 @ o2"
    by (auto simp: bind_eq_Some_conv split: prod.splits)
  have "sc_errors c1 = []" using seq_run_errors [OF c1(2) Cons.prems(2)] .
  from us_step_accepted [OF c1(1) this u1(1) Cons.prems(4,5)]
  obtain d1 where d1: "seq_run o1 d = Some d1" "sc_errors d1 = []" "sc_state d1 = out_state (sc_state c1)"
    "\<not> list_ex is_switch_cb o1" by blast
  from Cons.IH [OF c1(2) Cons.prems(2) u1(2) d1(3,2)] d1 show ?case
    unfolding u1(3) seq_run_append by auto
qed (auto simp: seq_run_def)

end
