(* ===== verification/ClFactory.thy ===== *)
theory ClFactory
  imports ClCode "HOL-Library.List_Lexorder" "HOL-Library.Char_ord"
begin

text \<open>
  \<open>src/cl/cl_factory.cc\<close>: the parsers of the configuration string of a code listener and of its list of
  filters, and the factory that builds the chain they describe.  A configuration that is written out
  with quoted and escaped values is read back unchanged.
\<close>

section \<open>The list of filters\<close>

definition isspaceWrap :: "char \<Rightarrow> bool" where
  "isspaceWrap c \<longleftrightarrow> c \<in> {CHR '' '', CHR 0x09, CHR 0x0A, CHR 0x0B, CHR 0x0C, CHR 0x0D}"

text \<open>A loop over a zero-terminated string.\<close>

definition c_str :: "string \<Rightarrow> string" where
  "c_str s = takeWhile (\<lambda>c. c \<noteq> CHR 0x00) s"

datatype clf_state = CLF_INIT | CLF_READING_CLF | CLF_READING_COMMA

record clf_parser =
  cp_state :: clf_state
  cp_clf :: string
  cp_dst :: "string list"

definition clf_read :: "char \<Rightarrow> clf_parser \<Rightarrow> clf_parser option" where
  "clf_read c p = do {
     cl_break_if ((c = CHR '','' \<or> isspaceWrap c) \<and> cp_clf p = []);
     let p = (if c = CHR '','' \<or> isspaceWrap c then p\<lparr>cp_dst := cp_dst p @ [cp_clf p], cp_clf := []\<rparr> else p);
     Some (if isspaceWrap c then p\<lparr>cp_state := CLF_READING_COMMA\<rparr>
           else if c = CHR '','' then p\<lparr>cp_state := CLF_INIT\<rparr>
           else p\<lparr>cp_clf := cp_clf p @ [c]\<rparr>)
   }"

definition clf_char :: "char \<Rightarrow> clf_parser \<Rightarrow> clf_parser option" where
  "clf_char c p = (case cp_state p of
     CLF_INIT \<Rightarrow> if isspaceWrap c then Some p else clf_read c (p\<lparr>cp_state := CLF_READING_CLF\<rparr>)
   | CLF_READING_CLF \<Rightarrow> clf_read c p
   | CLF_READING_COMMA \<Rightarrow>
       if isspaceWrap c then Some p
       else if c = CHR '','' then Some (p\<lparr>cp_state := CLF_INIT\<rparr>)
       else None)"

text \<open>\<open>parseClfString\<close>: \<open>None\<close> when the code returns \<open>false\<close>.\<close>

definition parseClfString :: "string \<Rightarrow> string list option" where
  "parseClfString s = do {
     p \<leftarrow> ofold clf_char (c_str s) \<lparr>cp_state = CLF_INIT, cp_clf = [], cp_dst = []\<rparr>;
     Some (if cp_clf p \<noteq> [] then cp_dst p @ [cp_clf p] else cp_dst p)
   }"

section \<open>The configuration string\<close>

datatype cfg_state = CFG_INIT | CFG_READING_KEY | CFG_READING_KEY_DONE | CFG_READING_LQ | CFG_READING_VAL
  | CFG_READING_ESC

record cfg_parser =
  gp_state :: cfg_state
  gp_key :: string
  gp_value :: string
  gp_dst :: "(string, string) omap"

definition cfg_key :: "char \<Rightarrow> cfg_parser \<Rightarrow> cfg_parser option" where
  "cfg_key c p = do {
     cl_break_if (gp_key p = [] \<and> (c = CHR ''='' \<or> isspaceWrap c));
     Some (if isspaceWrap c then p\<lparr>gp_state := CFG_READING_KEY_DONE\<rparr>
           else if c = CHR ''='' then p\<lparr>gp_state := CFG_READING_LQ\<rparr>
           else p\<lparr>gp_key := gp_key p @ [c]\<rparr>)
   }"

definition cfg_char :: "char \<Rightarrow> cfg_parser \<Rightarrow> cfg_parser option" where
  "cfg_char c p = (case gp_state p of
     CFG_INIT \<Rightarrow> if isspaceWrap c then Some p else cfg_key c (p\<lparr>gp_state := CFG_READING_KEY\<rparr>)
   | CFG_READING_KEY \<Rightarrow> cfg_key c p
   | CFG_READING_KEY_DONE \<Rightarrow>
       if isspaceWrap c then Some p
       else if c = CHR ''='' then Some (p\<lparr>gp_state := CFG_READING_LQ\<rparr>)
       else None
   | CFG_READING_LQ \<Rightarrow>
       if isspaceWrap c then Some p
       else if c = CHR 0x22 then Some (p\<lparr>gp_state := CFG_READING_VAL\<rparr>)
       else None
   | CFG_READING_VAL \<Rightarrow>
       if c = CHR 0x22 then Some (p\<lparr>gp_dst := omap_put (gp_key p) (gp_value p) (gp_dst p), gp_key := [],
         gp_value := [], gp_state := CFG_INIT\<rparr>)
       else if c = CHR 0x5C then Some (p\<lparr>gp_state := CFG_READING_ESC\<rparr>)
       else Some (p\<lparr>gp_value := gp_value p @ [c]\<rparr>)
   | CFG_READING_ESC \<Rightarrow>
       if c = CHR 0x22 then Some (p\<lparr>gp_value := gp_value p @ [CHR 0x22], gp_state := CFG_READING_VAL\<rparr>)
       else if c = CHR 0x5C then Some (p\<lparr>gp_value := gp_value p @ [CHR 0x5C], gp_state := CFG_READING_VAL\<rparr>)
       else None)"

definition cfg_parser_init :: cfg_parser where
  "cfg_parser_init = \<lparr>gp_state = CFG_INIT, gp_key = [], gp_value = [], gp_dst = []\<rparr>"

definition parseConfigString :: "string \<Rightarrow> (string, string) omap option" where
  "parseConfigString s = do {
     p \<leftarrow> ofold cfg_char (c_str s) cfg_parser_init;
     cl_break_if (\<not> (gp_key p = [] \<and> gp_value p = []));
     Some (gp_dst p)
   }"

section \<open>The factory\<close>

text \<open>A chain of listeners: a listener with its arguments behind filters.\<close>

datatype listener =
    Listener string string
  | IntegrityChk listener
  | UniLabel cl_scope_e listener
  | UnfoldSwitch listener

definition createClfUnfoldSwitch :: "listener \<Rightarrow> listener" where
  "createClfUnfoldSwitch slave = UniLabel CL_SCOPE_GLOBAL (UnfoldSwitch (UniLabel CL_SCOPE_GLOBAL slave))"

definition clf_map :: "string \<Rightarrow> (listener \<Rightarrow> listener) option" where
  "clf_map nm =
     (if nm = ''unify_labels_gl'' then Some (UniLabel CL_SCOPE_GLOBAL)
      else if nm = ''unify_labels_static'' then Some (UniLabel CL_SCOPE_STATIC)
      else if nm = ''unify_labels_fnc'' then Some (UniLabel CL_SCOPE_FUNCTION)
      else if nm = ''unfold_switch'' then Some createClfUnfoldSwitch
      else None)"

definition clf_create :: "string \<Rightarrow> listener \<Rightarrow> listener option" where
  "clf_create clfString slave = do {
     clfList \<leftarrow> parseClfString clfString;
     ofold (\<lambda>clf chain. do { f \<leftarrow> clf_map clf; Some (f chain) }) (rev clfList) slave
   }"

definition listener_names :: "string list" where
  "listener_names = [''dotgen'', ''easy'', ''locator'', ''pp'', ''pp_with_types'', ''typedot'']"

text \<open>\<open>ClFactory::create\<close>; \<open>mk\<close> says whether the constructor of a listener succeeds on its arguments.\<close>

definition cl_factory_create :: "(string \<Rightarrow> string \<Rightarrow> bool) \<Rightarrow> string \<Rightarrow> listener option" where
  "cl_factory_create mk config_string = do {
     args \<leftarrow> parseConfigString config_string;
     nm \<leftarrow> omap_find args ''listener'';
     cl_break_if (nm \<notin> set listener_names);
     let listenerArgs = omap_at [] args ''listener_args'';
     cl_break_if (\<not> mk nm listenerArgs);
     let cl = IntegrityChk (Listener nm listenerArgs);
     case omap_find args ''clf'' of None \<Rightarrow> Some cl | Some clf \<Rightarrow> clf_create clf cl
   }"

section \<open>Writing and reading back\<close>

definition escape :: "string \<Rightarrow> string" where
  "escape v = concat (map (\<lambda>c. if c = CHR 0x22 \<or> c = CHR 0x5C then [CHR 0x5C, c] else [c]) v)"

definition render_arg :: "string \<times> string \<Rightarrow> string" where
  "render_arg = (\<lambda>(k, v). k @ [CHR ''='', CHR 0x22] @ escape v @ [CHR 0x22, CHR '' ''])"

definition render :: "(string, string) omap \<Rightarrow> string" where
  "render m = concat (map render_arg m)"

definition arg_ok :: "string \<times> string \<Rightarrow> bool" where
  "arg_ok = (\<lambda>(k, v). k \<noteq> [] \<and> (\<forall>c \<in> set k. c \<noteq> CHR ''='' \<and> \<not> isspaceWrap c \<and> c \<noteq> CHR 0x00) \<and>
     CHR 0x00 \<notin> set v)"

lemma cfg_char_at:
  "gp_state p = CFG_INIT \<Longrightarrow> cfg_char c p =
     (if isspaceWrap c then Some p else cfg_key c (p\<lparr>gp_state := CFG_READING_KEY\<rparr>))"
  "gp_state p = CFG_READING_KEY \<Longrightarrow> cfg_char c p = cfg_key c p"
  "gp_state p = CFG_READING_LQ \<Longrightarrow> cfg_char c p =
     (if isspaceWrap c then Some p
      else if c = CHR 0x22 then Some (p\<lparr>gp_state := CFG_READING_VAL\<rparr>) else None)"
  "gp_state p = CFG_READING_VAL \<Longrightarrow> cfg_char c p =
     (if c = CHR 0x22 then Some (p\<lparr>gp_dst := omap_put (gp_key p) (gp_value p) (gp_dst p), gp_key := [],
         gp_value := [], gp_state := CFG_INIT\<rparr>)
      else if c = CHR 0x5C then Some (p\<lparr>gp_state := CFG_READING_ESC\<rparr>)
      else Some (p\<lparr>gp_value := gp_value p @ [c]\<rparr>))"
  "gp_state p = CFG_READING_ESC \<Longrightarrow> c = CHR 0x22 \<or> c = CHR 0x5C \<Longrightarrow>
     cfg_char c p = Some (p\<lparr>gp_value := gp_value p @ [c], gp_state := CFG_READING_VAL\<rparr>)"
  by (auto simp: cfg_char_def)

lemma read_value:
  "gp_state p = CFG_READING_VAL \<Longrightarrow> ofold cfg_char (escape v) p = Some (p\<lparr>gp_value := gp_value p @ v\<rparr>)"
proof (induction v arbitrary: p)
  case (Cons c v)
  have e: "escape (c # v) = (if c = CHR 0x22 \<or> c = CHR 0x5C then [CHR 0x5C, c] else [c]) @ escape v"
    by (simp add: escape_def)
  have "(p\<lparr>gp_state := CFG_READING_ESC\<rparr>)\<lparr>gp_value := w, gp_state := CFG_READING_VAL\<rparr> = p\<lparr>gp_value := w\<rparr>" for w
    using Cons.prems by simp
  then have "ofold cfg_char (if c = CHR 0x22 \<or> c = CHR 0x5C then [CHR 0x5C, c] else [c]) p
      = Some (p\<lparr>gp_value := gp_value p @ [c]\<rparr>)"
    using Cons.prems by (auto simp: cfg_char_at)
  then show ?case using Cons.IH [of "p\<lparr>gp_value := gp_value p @ [c]\<rparr>"] Cons.prems by (simp add: e ofold_append)
qed (simp add: escape_def)

lemma read_key:
  "\<forall>c \<in> set k. c \<noteq> CHR ''='' \<and> \<not> isspaceWrap c \<Longrightarrow> gp_state p = CFG_READING_KEY \<Longrightarrow>
    ofold cfg_char k p = Some (p\<lparr>gp_key := gp_key p @ k\<rparr>)"
proof (induction k arbitrary: p)
  case (Cons c k)
  then show ?case using Cons.IH [of "p\<lparr>gp_key := gp_key p @ [c]\<rparr>"] by (simp add: cfg_char_at cfg_key_def)
qed simp

lemma read_arg:
  assumes "arg_ok (k, v)" "gp_state p = CFG_INIT" "gp_key p = []" "gp_value p = []"
  shows "ofold cfg_char (render_arg (k, v)) p = Some (p\<lparr>gp_dst := omap_put k v (gp_dst p)\<rparr>)"
proof -
  from assms(1) obtain c k' where k: "k = c # k'" "c \<noteq> CHR ''=''" "\<not> isspaceWrap c"
    "\<forall>c \<in> set k'. c \<noteq> CHR ''='' \<and> \<not> isspaceWrap c"
    by (cases k) (auto simp: arg_ok_def)
  have "ofold cfg_char k p = Some (p\<lparr>gp_state := CFG_READING_KEY, gp_key := k\<rparr>)"
    using read_key [OF k(4), of "p\<lparr>gp_state := CFG_READING_KEY, gp_key := [c]\<rparr>"] assms(2,3) k(2,3)
    by (simp add: k(1) cfg_char_at cfg_key_def)
  moreover have "k \<noteq> []" using k(1) by simp
  moreover have "\<not> isspaceWrap (CHR ''='')" "\<not> isspaceWrap (CHR 0x22)" "isspaceWrap (CHR '' '')"
    by (simp_all add: isspaceWrap_def)
  moreover have "p\<lparr>gp_state := CFG_INIT, gp_key := [], gp_value := [], gp_dst := d\<rparr> = p\<lparr>gp_dst := d\<rparr>" for d
    using assms by simp
  ultimately show ?thesis
    using read_value [of "p\<lparr>gp_key := k, gp_state := CFG_READING_VAL\<rparr>" v] assms \<open>k \<noteq> []\<close>
    by (simp add: render_arg_def ofold_append cfg_char_at cfg_key_def)
qed

lemma omap_put_last: "(\<forall>e \<in> set m. fst e < k) \<Longrightarrow> omap_put k v m = m @ [(k, v)]"
  by (induction m) auto

lemma read_args:
  assumes "list_all arg_ok m" "omap_wf (d @ m)" "gp_dst p = d" "gp_state p = CFG_INIT" "gp_key p = []" "gp_value p = []"
  shows "ofold cfg_char (render m) p = Some (p\<lparr>gp_dst := d @ m\<rparr>)"
  using assms
proof (induction m arbitrary: p d)
  case (Cons e m)
  obtain k v where e: "e = (k, v)" by (cases e)
  have "\<forall>x \<in> set d. fst x < k" using Cons.prems(2) e by (auto simp: omap_wf_append)
  then have "ofold cfg_char (render_arg e) p = Some (p\<lparr>gp_dst := d @ [e]\<rparr>)"
    using read_arg [of k v p] Cons.prems omap_put_last [of d k v] by (simp add: e)
  then show ?case using Cons.IH [of "d @ [e]" "p\<lparr>gp_dst := d @ [e]\<rparr>"] Cons.prems by (simp add: render_def ofold_append)
qed (simp add: render_def)

lemma c_str_id: "CHR 0x00 \<notin> set s \<Longrightarrow> c_str s = s"
  unfolding c_str_def by (rule takeWhile_eq_all_conv [THEN iffD2]) auto

lemma set_escape: "set (escape v) \<subseteq> insert (CHR 0x5C) (set v)"
  by (induction v) (auto simp: escape_def)

lemma render_no_nul: "list_all arg_ok m \<Longrightarrow> CHR 0x00 \<notin> set (render m)"
proof (induction m)
  case (Cons e m)
  obtain k v where e: "e = (k, v)" by (cases e)
  have "CHR 0x00 \<notin> set (escape v)" "CHR 0x00 \<notin> set k"
    using Cons.prems set_escape [of v] by (auto simp: e arg_ok_def)
  moreover have "render (e # m) = render_arg e @ render m" by (simp add: render_def)
  ultimately show ?case using Cons by (simp add: e render_arg_def)
qed (simp add: render_def)

text \<open>
  C40: a configuration (a map from keys, which are non-empty and free of spaces and equal signs, to
  arbitrary values) that is written as \<open>key="value"\<close> pairs, with quotes and backslashes of the values
  escaped, is read back by \<open>parseConfigString\<close> as it was.
\<close>

theorem parseConfigString_render:
  assumes "omap_wf m" "list_all arg_ok m"
  shows "parseConfigString (render m) = Some m"
  using read_args [OF assms(2), of "[]" cfg_parser_init] assms(1) c_str_id [OF render_no_nul [OF assms(2)]]
  by (simp add: parseConfigString_def cfg_parser_init_def)

theorem parseConfigString_render_witness:
  "parseConfigString (render [(''a'', [CHR 0x22, CHR ''b'']), (''listener'', [CHR 0x5C, CHR ''=''])]) =
    Some [(''a'', [CHR 0x22, CHR ''b'']), (''listener'', [CHR 0x5C, CHR ''=''])]"
  by (rule parseConfigString_render) (simp_all add: arg_ok_def isspaceWrap_def)

section \<open>The list of filters\<close>

definition clf_ok :: "string \<Rightarrow> bool" where
  "clf_ok nm \<longleftrightarrow> nm \<noteq> [] \<and> (\<forall>c \<in> set nm. c \<noteq> CHR '','' \<and> \<not> isspaceWrap c \<and> c \<noteq> CHR 0x00)"

lemma read_clf:
  assumes "clf_ok nm" "cp_state p = CLF_INIT" "cp_clf p = []"
  shows "ofold clf_char nm p = Some (p\<lparr>cp_state := CLF_READING_CLF, cp_clf := nm\<rparr>)"
proof -
  have r: "ofold clf_char xs q = Some (q\<lparr>cp_clf := cp_clf q @ xs\<rparr>)"
    if "\<forall>c \<in> set xs. c \<noteq> CHR '','' \<and> \<not> isspaceWrap c" "cp_state q = CLF_READING_CLF" for xs q
    using that
  proof (induction xs arbitrary: q)
    case (Cons c xs)
    then show ?case using Cons.IH [of "q\<lparr>cp_clf := cp_clf q @ [c]\<rparr>"] by (simp add: clf_char_def clf_read_def)
  qed simp
  from assms(1) obtain c xs where n: "nm = c # xs" "c \<noteq> CHR '',''" "\<not> isspaceWrap c"
    "\<forall>c \<in> set xs. c \<noteq> CHR '','' \<and> \<not> isspaceWrap c" by (cases nm) (auto simp: clf_ok_def)
  then show ?thesis using r [OF n(4), of "p\<lparr>cp_state := CLF_READING_CLF, cp_clf := [c]\<rparr>"] assms(2,3)
    by (simp add: clf_char_def clf_read_def)
qed


fun clf_join :: "string list \<Rightarrow> string" where
  "clf_join [] = []"
| "clf_join [nm] = nm"
| "clf_join (nm # nms) = nm @ CHR '','' # clf_join nms"

lemma read_clfs:
  "list_all clf_ok nms \<Longrightarrow> cp_state p = CLF_INIT \<Longrightarrow> cp_clf p = [] \<Longrightarrow>
    \<exists>q. ofold clf_char (clf_join nms) p = Some q \<and>
      (if cp_clf q \<noteq> [] then cp_dst q @ [cp_clf q] else cp_dst q) = cp_dst p @ nms"
proof (induction nms arbitrary: p rule: clf_join.induct)
  case (2 nm)
  then show ?case using read_clf [of nm p] by (auto simp: clf_ok_def)
next
  case (3 nm nm' nms)
  let ?q = "p\<lparr>cp_state := CLF_INIT, cp_clf := [], cp_dst := cp_dst p @ [nm]\<rparr>"
  have "nm \<noteq> []" using 3(2) by (simp add: clf_ok_def)
  then have "clf_char (CHR '','') (p\<lparr>cp_state := CLF_READING_CLF, cp_clf := nm\<rparr>) = Some ?q"
    by (simp add: clf_char_def clf_read_def isspaceWrap_def)
  moreover have "ofold clf_char nm p = Some (p\<lparr>cp_state := CLF_READING_CLF, cp_clf := nm\<rparr>)"
    using read_clf 3 by simp
  ultimately show ?case using 3(1) [of ?q] 3(2) by (simp add: ofold_append)
qed simp

lemma clf_join_no_nul: "list_all clf_ok nms \<Longrightarrow> CHR 0x00 \<notin> set (clf_join nms)"
  by (induction nms rule: clf_join.induct) (auto simp: clf_ok_def)

text \<open>A list of filters that is written with commas is read back, and built from its end.\<close>

lemma parseClfString_join:
  assumes "list_all clf_ok nms"
  shows "parseClfString (clf_join nms) = Some nms"
  using read_clfs [OF assms, of "\<lparr>cp_state = CLF_INIT, cp_clf = [], cp_dst = []\<rparr>"] c_str_id [OF clf_join_no_nul [OF assms]]
  by (auto simp: parseClfString_def)

lemma cl_factory_builds:
  assumes "nm \<in> set listener_names" "mk nm []"
  shows "cl_factory_create mk (render [(''clf'', ''unfold_switch''), (''listener'', nm)]) =
    Some (createClfUnfoldSwitch (IntegrityChk (Listener nm [])))"
proof -
  have n: "CHR 0x00 \<notin> set nm" using assms(1) by (auto simp: listener_names_def)
  have "parseConfigString (render [(''clf'', ''unfold_switch''), (''listener'', nm)])
      = Some [(''clf'', ''unfold_switch''), (''listener'', nm)]"
    using read_args [of "[(''clf'', ''unfold_switch''), (''listener'', nm)]" "[]" cfg_parser_init] n
      c_str_id [OF render_no_nul [of "[(''clf'', ''unfold_switch''), (''listener'', nm)]"]]
    by (simp add: parseConfigString_def cfg_parser_init_def arg_ok_def isspaceWrap_def)
  moreover have "parseClfString ''unfold_switch'' = Some [''unfold_switch'']"
    using parseClfString_join [of "[''unfold_switch'']"] by (simp add: clf_ok_def isspaceWrap_def)
  ultimately show ?thesis using assms
    by (simp add: cl_factory_create_def clf_create_def clf_map_def omap_at_def)
qed

end
