(* ===== verification/ClFlow.thy ===== *)
theory ClFlow
  imports ClFront
begin

text \<open>
  The interface between the code model and its analyses: a finite graph whose nodes know their successors
  and their predecessors, with as many entries in the one as in the other.  The graphs that the builder
  makes behind the integrity checks are such graphs.
\<close>

lemma count_list_two:
  assumes "i < length xs" "j < length xs" "i \<noteq> j" "xs ! i = x" "xs ! j = x"
  shows "2 \<le> count_list xs x"
proof -
  have "{i, j} \<subseteq> {k. k < length xs \<and> xs ! k = x}" using assms by auto
  then have "card {i, j} \<le> card {k. k < length xs \<and> xs ! k = x}" by (intro card_mono) auto
  then show ?thesis using assms(3) by (simp add: count_list_eq_length_filter length_filter_conv_card conj_commute eq_commute)
qed

lemma count_list_le_length: "count_list xs x \<le> length xs"
  by (simp add: count_list_eq_length_filter)

lemma count_list_two_elems:
  assumes "x \<in> set xs" "y \<in> set xs" "x \<noteq> y"
  shows "2 \<le> length xs"
proof -
  have "card {x, y} \<le> card (set xs)" using assms by (intro card_mono) auto
  then show ?thesis using assms(3) card_length [of xs] by simp
qed

locale flow_graph =
  fixes ok :: "'g \<Rightarrow> bool" and nodes :: "'g \<Rightarrow> 'n set"
    and succs :: "'g \<Rightarrow> 'n \<Rightarrow> 'n list" and preds :: "'g \<Rightarrow> 'n \<Rightarrow> 'n list"
  assumes finite_nodes: "ok g \<Longrightarrow> finite (nodes g)"
    and succs_nodes: "ok g \<Longrightarrow> u \<in> nodes g \<Longrightarrow> set (succs g u) \<subseteq> nodes g"
    and preds_nodes: "ok g \<Longrightarrow> u \<in> nodes g \<Longrightarrow> set (preds g u) \<subseteq> nodes g"
    and preds_count: "ok g \<Longrightarrow> u \<in> nodes g \<Longrightarrow> v \<in> nodes g \<Longrightarrow>
      count_list (preds g v) u = count_list (succs g u) v"
begin

definition edges :: "'g \<Rightarrow> ('n \<times> 'n) set" where
  "edges g = {(u, v). u \<in> nodes g \<and> v \<in> set (succs g u)}"

lemma mem_preds:
  assumes "ok g" "u \<in> nodes g" "v \<in> nodes g"
  shows "u \<in> set (preds g v) \<longleftrightarrow> v \<in> set (succs g u)"
  using preds_count [OF assms] by (metis count_list_0_iff)

lemma preds_edges:
  assumes "ok g" "v \<in> nodes g"
  shows "u \<in> set (preds g v) \<longleftrightarrow> (u, v) \<in> edges g"
  using assms mem_preds preds_nodes unfolding edges_def by blast

text \<open>A node with one predecessor is entered by one edge only, counted with its position.\<close>

lemma single_pred:
  assumes g: "ok g" and v: "length (preds g v) \<le> 1"
    and u: "u \<in> nodes g" "i < length (succs g u)" "succs g u ! i = v"
    and u': "u' \<in> nodes g" "j < length (succs g u')" "succs g u' ! j = v"
  shows "u = u' \<and> i = j"
proof -
  have vn: "v \<in> nodes g" using succs_nodes [OF g u(1)] u by (metis nth_mem subsetD)
  have m: "u \<in> set (preds g v)" "u' \<in> set (preds g v)"
    using mem_preds [OF g _ vn] u u' by (metis nth_mem)+
  then have "u = u'" using count_list_two_elems [of u "preds g v" u'] v by force
  moreover have "i = j"
  proof (rule ccontr)
    assume "i \<noteq> j"
    with u u' \<open>u = u'\<close> have "2 \<le> count_list (succs g u) v" using count_list_two by metis
    then have "2 \<le> count_list (preds g v) u" using preds_count [OF g u(1) vn] by simp
    then show False using v count_list_le_length [of "preds g v" u] by linarith
  qed
  ultimately show ?thesis ..
qed

lemma reach_nodes:
  assumes "(u, v) \<in> (edges g)\<^sup>*" "ok g" "u \<in> nodes g"
  shows "v \<in> nodes g"
  using assms by (induction rule: rtrancl_induct) (use succs_nodes in \<open>auto simp: edges_def\<close>)

end

section \<open>Graphs of the storage\<close>

definition cfg_succs :: "cfg \<Rightarrow> TBlock \<Rightarrow> TBlock list" where
  "cfg_succs g u = (case bb_targets g u of None \<Rightarrow> [] | Some ts \<Rightarrow> ts)"

definition cfg_preds :: "cfg \<Rightarrow> TBlock \<Rightarrow> TBlock list" where
  "cfg_preds g u = (case bb_at g u of None \<Rightarrow> [] | Some b \<Rightarrow> inbound b)"

lemma bb_at_in: "u \<in> cfg_blocks g \<Longrightarrow> bb_at g u = Some (blk g u)"
  by simp

lemma cfg_done_targets:
  assumes "cfg_done g" "u \<in> cfg_blocks g"
  shows "bb_targets g u = Some (cfg_succs g u) \<and> bb_back g u = Some (last (bb_insns (blk g u))) \<and>
    targets (last (bb_insns (blk g u))) = cfg_succs g u"
proof -
  from cfg_done_block [OF assms] obtain "is" i where "bb_insns (blk g u) = is @ [i]" "is_term i" by blast
  then have "bb_targets g u = Some (targets (last (bb_insns (blk g u))))" "bb_back g u = Some (last (bb_insns (blk g u)))"
    by (simp_all add: bb_targets_def bb_back_def bb_at_in [OF assms(2)] Block_targets_def Block_back_def is_term_def)
  then show ?thesis by (simp add: cfg_succs_def)
qed

interpretation fg: flow_graph cfg_done cfg_blocks cfg_succs cfg_preds
proof
  fix g u v
  assume g: "cfg_done g"
  show "finite (cfg_blocks g)" by (simp add: cfg_blocks_def)
  assume u: "u \<in> cfg_blocks g"
  from cfg_done_block [OF g u] obtain "is" i where i: "bb_insns (blk g u) = is @ [i]" "set (targets i) \<subseteq> cfg_blocks g"
    "set (inbound (blk g u)) \<subseteq> cfg_blocks g"
    "\<forall>v \<in> cfg_blocks g. count_list (inbound (blk g v)) u = count_list (targets i) v" by blast
  have s: "cfg_succs g u = targets i" using cfg_done_targets [OF g u] i(1) by simp
  show "set (cfg_succs g u) \<subseteq> cfg_blocks g" using i s by simp
  show "set (cfg_preds g u) \<subseteq> cfg_blocks g" using i by (simp add: cfg_preds_def bb_at_in [OF u])
  assume v: "v \<in> cfg_blocks g"
  show "count_list (cfg_preds g v) u = count_list (cfg_succs g u) v"
    using i(4) v s by (simp add: cfg_preds_def bb_at_in [OF v])
qed


definition cfg_edges :: "cfg \<Rightarrow> (TBlock \<times> TBlock) set" where
  "cfg_edges g = {(u, v). u \<in> cfg_blocks g \<and> v \<in> set (cfg_succs g u)}"

lemma fg_edges: "fg.edges g = cfg_edges g"
  by (simp add: fg.edges_def cfg_edges_def)

lemma front_cfg_done:
  assumes "front M l c b" "no_errors l c" "j < length (db_tab (fncs (b_stor b)))" "b_fnc b \<noteq> Some j"
  shows "cfg_done (fnc_cfg (db_tab (fncs (b_stor b)) ! j))"
  using front_invariant [OF assms(1,2)] assms(3,4) by (auto simp: front_inv_def cfgs_def)

end
