(* ===== verification/LoopScan.thy ===== *)
theory LoopScan
  imports ClFlow
begin

text \<open>
  \<open>src/cl/loopscan.cc\<close>: a depth-first search through the control flow graph of a function marks the
  edges that close a loop.  The symbolic execution joins states and looks for abstraction there, so
  it relies on every loop of the program having such an edge.
\<close>

section \<open>The search\<close>

record dfs =
  ls_stack :: "(TBlock \<times> nat) list"
  ls_path :: "TBlock set"
  ls_done :: "TBlock set"
  ls_edges :: "(TBlock \<times> TBlock) set"
  ls_cfg :: cfg

definition bb_inbound :: "cfg \<Rightarrow> TBlock \<Rightarrow> TBlock list option" where
  "bb_inbound g bb = do { b \<leftarrow> bb_at g bb; Some (inbound b) }"

text \<open>\<open>term->loopClosingTargets.push_back(target)\<close>\<close>

definition add_loop_target :: "TBlock \<Rightarrow> nat \<Rightarrow> cfg \<Rightarrow> cfg option" where
  "add_loop_target bb target g = do {
     ins \<leftarrow> bb_back g bb;
     Some (bb_upd bb (\<lambda>b. b\<lparr>bb_insns := butlast (bb_insns b) @
       [ins\<lparr>loopClosingTargets := loopClosingTargets ins @ [target]\<rparr>]\<rparr>) g)
   }"

text \<open>One iteration of the loop, with a non-empty stack whose top is the head of the list.\<close>

definition ls_step :: "TBlock \<Rightarrow> nat \<Rightarrow> (TBlock \<times> nat) list \<Rightarrow> dfs \<Rightarrow> dfs option" where
  "ls_step bb target rest s = do {
     tlist \<leftarrow> bb_targets (ls_cfg s) bb;
     if length tlist \<le> target then do {
       cl_break_if (bb \<in> ls_done s);
       Some (s\<lparr>ls_done := insert bb (ls_done s), ls_path := ls_path s - {bb}, ls_stack := rest\<rparr>)
     } else do {
       let s = s\<lparr>ls_stack := (bb, target + 1) # rest\<rparr>;
       let bbNext = tlist ! target;
       if bbNext \<in> ls_done s then Some s
       else if bbNext \<notin> ls_path s then do {
         inb \<leftarrow> bb_inbound (ls_cfg s) bbNext;
         Some (s\<lparr>ls_stack := (bbNext, 0) # ls_stack s,
                 ls_path := (if 1 < length inb then insert bbNext (ls_path s) else ls_path s)\<rparr>)
       }
       else if (bb, bbNext) \<in> ls_edges s then Some s
       else do {
         g \<leftarrow> add_loop_target bb target (ls_cfg s);
         Some (s\<lparr>ls_edges := insert (bb, bbNext) (ls_edges s), ls_cfg := g\<rparr>)
       }
     }
   }"

partial_function (option) ls_loop :: "dfs \<Rightarrow> dfs option" where
  "ls_loop s = (case ls_stack s of
     [] \<Rightarrow> Some s
   | hd_item # rest \<Rightarrow> do {
       s' \<leftarrow> ls_step (fst hd_item) (snd hd_item) rest s;
       ls_loop s'
     })"

declare ls_loop.simps [code]

definition ls_init :: "TBlock \<Rightarrow> TBlock list \<Rightarrow> cfg \<Rightarrow> dfs" where
  "ls_init entry inb g = \<lparr>ls_stack = [(entry, 0)], ls_path = (if inb \<noteq> [] then {entry} else {}),
     ls_done = {}, ls_edges = {}, ls_cfg = g\<rparr>"

definition ls_analyzeFnc :: "cfg \<Rightarrow> cfg option" where
  "ls_analyzeFnc g = do {
     entry \<leftarrow> cfg_entry g;
     inb \<leftarrow> bb_inbound g entry;
     s \<leftarrow> ls_loop (ls_init entry inb g);
     Some (ls_cfg s)
   }"

text \<open>\<open>findLoopClosingEdges\<close> goes through the functions in the order of their table.\<close>

definition findLoopClosingEdges :: "cl_mem \<Rightarrow> storage \<Rightarrow> storage option" where
  "findLoopClosingEdges M st = ofold (\<lambda>j st. do {
     let f = db_tab (fncs st) ! j;
     def \<leftarrow> isDefined M f;
     if \<not> def then Some st
     else do {
       g \<leftarrow> ls_analyzeFnc (fnc_cfg f);
       Some (st\<lparr>fncs := db_upd j (\<lambda>f. f\<lparr>fnc_cfg := g\<rparr>) (fncs st)\<rparr>)
     }
   }) [0..<length (db_tab (fncs st))] st"

text \<open>\<open>isLoopClosingEdge\<close> of \<open>src/sl/symexec.cc\<close>, which reads the result.\<close>

definition isLoopClosingEdge :: "insn \<Rightarrow> TBlock \<Rightarrow> bool option" where
  "isLoopClosingEdge ins ofBlock = ofold (\<lambda>idx found.
     if found then Some True
     else do { cl_break_if (length (targets ins) \<le> idx); Some (targets ins ! idx = ofBlock) })
     (loopClosingTargets ins) False"

section \<open>What the search changes\<close>

text \<open>Only the lists of loop-closing targets differ, and they hold the edges the search has collected.\<close>

definition closing :: "insn \<Rightarrow> TBlock set" where
  "closing ins = (\<lambda>k. targets ins ! k) ` set (loopClosingTargets ins)"

definition ls_ext :: "cfg \<Rightarrow> (TBlock \<times> TBlock) set \<Rightarrow> cfg \<Rightarrow> bool" where
  "ls_ext g0 L g \<longleftrightarrow> cfg_blocks g = cfg_blocks g0 \<and> db_map g = db_map g0 \<and>
     (\<forall>u \<in> cfg_blocks g0. bb_name (blk g u) = bb_name (blk g0 u) \<and> inbound (blk g u) = inbound (blk g0 u) \<and>
        (\<exists>ks. bb_insns (blk g u) = butlast (bb_insns (blk g0 u)) @
            [(last (bb_insns (blk g0 u)))\<lparr>loopClosingTargets := ks\<rparr>] \<and>
          set ks \<subseteq> {..<length (cfg_succs g0 u)} \<and> (\<lambda>k. cfg_succs g0 u ! k) ` set ks = {v. (u, v) \<in> L}))"

lemma ls_ext_refl:
  assumes "cfg_done g"
  shows "ls_ext g {} g"
proof -
  have "\<exists>ks. bb_insns (blk g u) = butlast (bb_insns (blk g u)) @ [(last (bb_insns (blk g u)))\<lparr>loopClosingTargets := ks\<rparr>] \<and>
      set ks \<subseteq> {..<length (cfg_succs g u)} \<and> (\<lambda>k. cfg_succs g u ! k) ` set ks = {v. (u, v) \<in> {}}"
    if "u \<in> cfg_blocks g" for u
  proof -
    from cfg_done_block [OF assms that] obtain "is" i where "bb_insns (blk g u) = is @ [i]" "loopClosingTargets i = []"
      by auto
    then show ?thesis by (intro exI [of _ "[]"]) simp
  qed
  then show ?thesis by (auto simp: ls_ext_def)
qed

lemma ls_ext_targets:
  assumes d: "cfg_done g0" and e: "ls_ext g0 L g" and u: "u \<in> cfg_blocks g0"
  shows "bb_targets g u = Some (cfg_succs g0 u)" "bb_inbound g u = Some (cfg_preds g0 u)"
    "\<exists>ins. bb_back g u = Some ins \<and> bb_insns (blk g u) = butlast (bb_insns (blk g u)) @ [ins] \<and>
       ins = (last (bb_insns (blk g0 u)))\<lparr>loopClosingTargets := loopClosingTargets ins\<rparr> \<and>
       set (loopClosingTargets ins) \<subseteq> {..<length (cfg_succs g0 u)} \<and>
       (\<lambda>k. cfg_succs g0 u ! k) ` set (loopClosingTargets ins) = {v. (u, v) \<in> L}"
proof -
  have u': "u \<in> cfg_blocks g" using e u by (simp add: ls_ext_def)
  from e u obtain ks where ks: "bb_insns (blk g u) = butlast (bb_insns (blk g0 u)) @
      [(last (bb_insns (blk g0 u)))\<lparr>loopClosingTargets := ks\<rparr>]" "set ks \<subseteq> {..<length (cfg_succs g0 u)}"
    "(\<lambda>k. cfg_succs g0 u ! k) ` set ks = {v. (u, v) \<in> L}" unfolding ls_ext_def by blast
  from cfg_done_block [OF d u] have "is_term (last (bb_insns (blk g0 u)))" by auto
  then show "bb_targets g u = Some (cfg_succs g0 u)"
    using ks(1) cfg_done_targets [OF d u]
    by (simp add: bb_targets_def bb_at_in [OF u'] Block_targets_def Block_back_def is_term_def)
  show "bb_inbound g u = Some (cfg_preds g0 u)"
    using e u by (simp add: bb_inbound_def bb_at_in [OF u'] bb_at_in [OF u] cfg_preds_def ls_ext_def)
  show "\<exists>ins. bb_back g u = Some ins \<and> bb_insns (blk g u) = butlast (bb_insns (blk g u)) @ [ins] \<and>
       ins = (last (bb_insns (blk g0 u)))\<lparr>loopClosingTargets := loopClosingTargets ins\<rparr> \<and>
       set (loopClosingTargets ins) \<subseteq> {..<length (cfg_succs g0 u)} \<and>
       (\<lambda>k. cfg_succs g0 u ! k) ` set (loopClosingTargets ins) = {v. (u, v) \<in> L}"
    using ks by (intro exI [of _ "(last (bb_insns (blk g0 u)))\<lparr>loopClosingTargets := ks\<rparr>"])
      (simp add: bb_back_def bb_at_in [OF u'] Block_back_def)
qed

lemma ls_ext_add:
  assumes d: "cfg_done g0" and e: "ls_ext g0 L g" and u: "u \<in> cfg_blocks g0" and k: "k < length (cfg_succs g0 u)"
  shows "\<exists>g'. add_loop_target u k g = Some g' \<and> ls_ext g0 (insert (u, cfg_succs g0 u ! k) L) g'"
proof -
  have u': "u \<in> cfg_blocks g" using e u by (simp add: ls_ext_def)
  from ls_ext_targets(3) [OF d e u] obtain ins where i: "bb_back g u = Some ins"
    "bb_insns (blk g u) = butlast (bb_insns (blk g u)) @ [ins]"
    "ins = (last (bb_insns (blk g0 u)))\<lparr>loopClosingTargets := loopClosingTargets ins\<rparr>"
    "set (loopClosingTargets ins) \<subseteq> {..<length (cfg_succs g0 u)}"
    "(\<lambda>k. cfg_succs g0 u ! k) ` set (loopClosingTargets ins) = {v. (u, v) \<in> L}" by blast
  let ?g = "bb_upd u (\<lambda>b. b\<lparr>bb_insns := butlast (bb_insns b) @
       [ins\<lparr>loopClosingTargets := loopClosingTargets ins @ [k]\<rparr>]\<rparr>) g"
  have b: "butlast (bb_insns (blk g u)) = butlast (bb_insns (blk g0 u))"
    using e u unfolding ls_ext_def by (metis butlast_snoc)
  have ins: "ins\<lparr>loopClosingTargets := ks\<rparr> = (last (bb_insns (blk g0 u)))\<lparr>loopClosingTargets := ks\<rparr>" for ks
    using i(3) by (metis insn.update_convs(8) insn.surjective)
  have "bb_name (blk ?g v) = bb_name (blk g0 v) \<and> inbound (blk ?g v) = inbound (blk g0 v) \<and>
        (\<exists>ks. bb_insns (blk ?g v) = butlast (bb_insns (blk g0 v)) @
            [(last (bb_insns (blk g0 v)))\<lparr>loopClosingTargets := ks\<rparr>] \<and>
          set ks \<subseteq> {..<length (cfg_succs g0 v)} \<and>
          (\<lambda>k. cfg_succs g0 v ! k) ` set ks = {w. (v, w) \<in> insert (u, cfg_succs g0 u ! k) L})"
    if v: "v \<in> cfg_blocks g0" for v
  proof (cases "v = u")
    case True
    let ?ks = "loopClosingTargets ins @ [k]"
    have "(\<lambda>j. cfg_succs g0 u ! j) ` set ?ks = {w. (u, w) \<in> insert (u, cfg_succs g0 u ! k) L}"
      using i(5) by auto
    moreover have "set ?ks \<subseteq> {..<length (cfg_succs g0 u)}" using i(4) k by simp
    moreover have "bb_insns (blk ?g u) = butlast (bb_insns (blk g0 u)) @
        [(last (bb_insns (blk g0 u)))\<lparr>loopClosingTargets := ?ks\<rparr>]" using u' b ins by simp
    moreover have "bb_name (blk ?g u) = bb_name (blk g0 u)" "inbound (blk ?g u) = inbound (blk g0 u)"
      using u u' e by (auto simp: ls_ext_def)
    ultimately show ?thesis using True by blast
  next
    case False
    then show ?thesis using v u u' e by (simp add: ls_ext_def)
  qed
  then have "ls_ext g0 (insert (u, cfg_succs g0 u ! k) L) ?g" using e by (simp add: ls_ext_def)
  then show ?thesis using i(1) by (simp add: add_loop_target_def)
qed


section \<open>The invariant of the search\<close>

text \<open>
  The stack is a path from the entry; \<open>above\<close> is the block a stack item has been left for.  The targets
  an item is through with are finished, or closed a loop, or are the block above.
\<close>

fun stack_ok :: "cfg \<Rightarrow> TBlock set \<Rightarrow> (TBlock \<times> TBlock) set \<Rightarrow> TBlock option \<Rightarrow> (TBlock \<times> nat) list \<Rightarrow> bool" where
  "stack_ok g dn L abv [] = True"
| "stack_ok g dn L abv ((bb, t) # rest) \<longleftrightarrow>
     bb \<in> cfg_blocks g \<and> t \<le> length (cfg_succs g bb) \<and>
     (\<forall>a. abv = Some a \<longrightarrow> 0 < t \<and> cfg_succs g bb ! (t - 1) = a) \<and>
     (\<forall>k < t. cfg_succs g bb ! k \<in> dn \<or> (bb, cfg_succs g bb ! k) \<in> L \<or> abv = Some (cfg_succs g bb ! k)) \<and>
     stack_ok g dn L (Some bb) rest"

definition ordered :: "cfg \<Rightarrow> (TBlock \<times> TBlock) set \<Rightarrow> TBlock list \<Rightarrow> bool" where
  "ordered g L ord \<longleftrightarrow> (\<forall>n < length ord. \<forall>v \<in> set (cfg_succs g (ord ! n)).
     (ord ! n, v) \<in> L \<or> v \<in> set (take n ord))"

definition ls_inv :: "cfg \<Rightarrow> dfs \<Rightarrow> bool" where
  "ls_inv g s \<longleftrightarrow> ls_ext g (ls_edges s) (ls_cfg s) \<and>
     distinct (map fst (ls_stack s)) \<and> fst ` set (ls_stack s) \<inter> ls_done s = {} \<and>
     (ls_stack s \<noteq> [] \<longrightarrow> fst (last (ls_stack s)) = 1) \<and> (ls_stack s = [] \<longrightarrow> 1 \<in> ls_done s) \<and>
     stack_ok g (ls_done s) (ls_edges s) None (ls_stack s) \<and>
     ls_path s \<subseteq> fst ` set (ls_stack s) \<and>
     (\<forall>b \<in> fst ` set (ls_stack s). (1 < length (cfg_preds g b) \<or> b = 1 \<and> cfg_preds g b \<noteq> []) \<longrightarrow> b \<in> ls_path s) \<and>
     (\<exists>ord. set ord = ls_done s \<and> ordered g (ls_edges s) ord) \<and> ls_done s \<subseteq> cfg_blocks g \<and>
     (\<forall>(u, v) \<in> ls_edges s. {u, v} \<subseteq> ls_done s \<union> fst ` set (ls_stack s) \<and> v \<in> set (cfg_succs g u) \<and>
        (v, u) \<in> (fg.edges g)\<^sup>*)"

lemma ls_invD:
  assumes "ls_inv g s"
  shows "ls_ext g (ls_edges s) (ls_cfg s)" "distinct (map fst (ls_stack s))"
    "fst ` set (ls_stack s) \<inter> ls_done s = {}" "ls_stack s \<noteq> [] \<Longrightarrow> fst (last (ls_stack s)) = 1"
    "ls_stack s = [] \<Longrightarrow> 1 \<in> ls_done s" "stack_ok g (ls_done s) (ls_edges s) None (ls_stack s)"
    "ls_path s \<subseteq> fst ` set (ls_stack s)"
    "\<forall>b \<in> fst ` set (ls_stack s). (1 < length (cfg_preds g b) \<or> b = 1 \<and> cfg_preds g b \<noteq> []) \<longrightarrow> b \<in> ls_path s"
    "\<exists>ord. set ord = ls_done s \<and> ordered g (ls_edges s) ord" "ls_done s \<subseteq> cfg_blocks g"
    "\<forall>(u, v) \<in> ls_edges s. {u, v} \<subseteq> ls_done s \<union> fst ` set (ls_stack s) \<and> v \<in> set (cfg_succs g u) \<and>
        (v, u) \<in> (fg.edges g)\<^sup>*"
  using assms unfolding ls_inv_def by (simp_all only: simp_thms) (elim conjE, assumption)+

lemma ls_invI:
  assumes "ls_ext g L h" "distinct (map fst st)"
    "fst ` set st \<inter> dn = {}" "st \<noteq> [] \<Longrightarrow> fst (last st) = 1"
    "st = [] \<Longrightarrow> 1 \<in> dn" "stack_ok g dn L None st" "P \<subseteq> fst ` set st"
    "\<forall>b \<in> fst ` set st. (1 < length (cfg_preds g b) \<or> b = 1 \<and> cfg_preds g b \<noteq> []) \<longrightarrow> b \<in> P"
    "\<exists>ord. set ord = dn \<and> ordered g L ord" "dn \<subseteq> cfg_blocks g"
    "\<forall>(u, v) \<in> L. {u, v} \<subseteq> dn \<union> fst ` set st \<and> v \<in> set (cfg_succs g u) \<and> (v, u) \<in> (fg.edges g)\<^sup>*"
    and "ls_stack s = st" "ls_path s = P" "ls_done s = dn" "ls_edges s = L" "ls_cfg s = h"
  shows "ls_inv g s"
  unfolding ls_inv_def assms(12-) by (intro conjI impI assms)

lemma stack_ok_mono:
  "stack_ok g dn L a st \<Longrightarrow> dn \<subseteq> dn' \<Longrightarrow> L \<subseteq> L' \<Longrightarrow> stack_ok g dn' L' a st"
  by (induction st arbitrary: a) (auto, blast)

lemma stack_ok_blocks: "stack_ok g dn L a st \<Longrightarrow> fst ` set st \<subseteq> cfg_blocks g"
  by (induction g dn L a st rule: stack_ok.induct) auto

text \<open>When the block above is finished, the item below is through with it.\<close>

lemma stack_ok_pop: "stack_ok g dn L (Some bb) rest \<Longrightarrow> stack_ok g (insert bb dn) L None rest"
proof (cases rest)
  case (Cons p rest')
  assume "stack_ok g dn L (Some bb) rest"
  then show ?thesis using stack_ok_mono [of g dn L _ rest' "insert bb dn" L]
    unfolding Cons by (cases p) auto
qed simp

lemma stack_path:
  assumes "stack_ok g dn L None ((bb, t) # rest)" "b \<in> fst ` set ((bb, t) # rest)"
  shows "(b, bb) \<in> (fg.edges g)\<^sup>*"
  using assms
proof -
  have "(b, a) \<in> (fg.edges g)\<^sup>*" if "stack_ok g dn L (Some a) st" "b \<in> fst ` set st" for a b st
    using that
  proof (induction st arbitrary: a)
    case (Cons p st)
    obtain c t where p: "p = (c, t)" by (cases p)
    with Cons.prems have c: "c \<in> cfg_blocks g" "0 < t" "t \<le> length (cfg_succs g c)" "cfg_succs g c ! (t - 1) = a"
      "stack_ok g dn L (Some c) st" by auto
    then have "(c, a) \<in> fg.edges g" by (auto simp: fg.edges_def)
    moreover have "(b, c) \<in> (fg.edges g)\<^sup>*" using Cons.IH [OF c(5)] Cons.prems(2) p by auto
    ultimately show ?case by simp
  qed simp
  with assms show ?thesis by auto
qed

text \<open>The parent of a block on the stack, other than the bottom.\<close>

lemma stack_parent:
  assumes "stack_ok g dn L a st" "b \<in> fst ` set st" "fst (last st) \<noteq> b"
  shows "\<exists>c k. c \<in> fst ` set (tl st) \<and> c \<in> cfg_blocks g \<and> k < length (cfg_succs g c) \<and> cfg_succs g c ! k = b"
  using assms
proof (induction st arbitrary: a)
  case (Cons p st)
  obtain d t where p: "p = (d, t)" by (cases p)
  from Cons.prems p have rest: "stack_ok g dn L (Some d) st" by simp
  have "st \<noteq> []" using Cons.prems(2,3) p by auto
  then obtain c t' st' where st: "st = (c, t') # st'" by (cases st) auto
  show ?case
  proof (cases "d = b")
    case True
    with rest st have "c \<in> cfg_blocks g" "t' - 1 < length (cfg_succs g c)" "cfg_succs g c ! (t' - 1) = b" by auto
    then show ?thesis using st by auto
  next
    case False
    have "b \<in> fst ` set st" using Cons.prems(2) p False by auto
    moreover have "fst (last st) \<noteq> b" using Cons.prems(3) \<open>st \<noteq> []\<close> by simp
    ultimately show ?thesis using Cons.IH [OF rest] st by fastforce
  qed
qed simp

text \<open>A block that is not marked as a part of the path is not on the stack.\<close>

lemma fresh_not_on_stack:
  assumes d: "cfg_done g" and i: "ls_inv g s" and st: "ls_stack s = (bb, t) # rest"
    and t: "t < length (cfg_succs g bb)" and p: "cfg_succs g bb ! t \<notin> ls_path s"
  shows "cfg_succs g bb ! t \<notin> fst ` set (ls_stack s)"
proof
  let ?v = "cfg_succs g bb ! t"
  assume v: "?v \<in> fst ` set (ls_stack s)"
  have so: "stack_ok g (ls_done s) (ls_edges s) None (ls_stack s)" and dis: "distinct (map fst (ls_stack s))"
    and pth: "\<forall>b \<in> fst ` set (ls_stack s). (1 < length (cfg_preds g b) \<or> b = 1 \<and> cfg_preds g b \<noteq> []) \<longrightarrow> b \<in> ls_path s"
    and bot: "fst (last (ls_stack s)) = 1" using i st by (auto simp: ls_inv_def)
  have bb: "bb \<in> cfg_blocks g" using so st by simp
  have vn: "?v \<in> cfg_blocks g" using fg.succs_nodes [OF d bb] t by (meson nth_mem subsetD)
  have "bb \<in> set (cfg_preds g ?v)" using fg.mem_preds [OF d bb vn] t by simp
  then have ne: "cfg_preds g ?v \<noteq> []" by auto
  with v p pth have "?v \<noteq> 1" "length (cfg_preds g ?v) \<le> 1" by auto
  with stack_parent [OF so v] bot obtain c k where c: "c \<in> fst ` set rest" "c \<in> cfg_blocks g"
    "k < length (cfg_succs g c)" "cfg_succs g c ! k = ?v" unfolding st by auto
  have "bb = c" using fg.single_pred [OF d _ bb t refl c(2,3,4)] \<open>length (cfg_preds g ?v) \<le> 1\<close> by blast
  with c(1) dis st show False by auto
qed


section \<open>One iteration\<close>

definition ls_weight :: "cfg \<Rightarrow> dfs \<Rightarrow> TBlock \<Rightarrow> nat" where
  "ls_weight g s u = (case map_of (ls_stack s) u of
     None \<Rightarrow> length (cfg_succs g u) + 2 | Some t \<Rightarrow> length (cfg_succs g u) + 1 - t)"

definition ls_measure :: "cfg \<Rightarrow> dfs \<Rightarrow> nat" where
  "ls_measure g s = sum (ls_weight g s) (cfg_blocks g - ls_done s)"

lemma ordered_snoc:
  assumes "ordered g L ord" "\<forall>v \<in> set (cfg_succs g bb). (bb, v) \<in> L \<or> v \<in> set ord"
  shows "ordered g L (ord @ [bb])"
  using assms unfolding ordered_def by (auto simp: nth_append less_Suc_eq)

lemma ordered_mono: "ordered g L ord \<Longrightarrow> L \<subseteq> L' \<Longrightarrow> ordered g L' ord"
  unfolding ordered_def by blast

lemma ls_measure_less:
  assumes "bb \<in> cfg_blocks g - ls_done s" "ls_done s' = ls_done s" "ls_weight g s' bb < ls_weight g s bb"
    and "\<And>u. u \<noteq> bb \<Longrightarrow> ls_weight g s' u \<le> ls_weight g s u"
  shows "ls_measure g s' < ls_measure g s"
  unfolding ls_measure_def assms(2)
proof (rule sum_strict_mono_ex1)
  show "finite (cfg_blocks g - ls_done s)" by (simp add: cfg_blocks_def)
  show "\<forall>u \<in> cfg_blocks g - ls_done s. ls_weight g s' u \<le> ls_weight g s u"
    using assms(3,4) by (metis less_imp_le)
  show "\<exists>u \<in> cfg_blocks g - ls_done s. ls_weight g s' u < ls_weight g s u" using assms(1,3) by blast
qed

lemma ls_step_pop:
  assumes d: "cfg_done g" and i: "ls_inv g s" and st: "ls_stack s = (bb, t) # rest"
    and t: "length (cfg_succs g bb) \<le> t"
  shows "\<exists>s'. ls_step bb t rest s = Some s' \<and> ls_inv g s' \<and> ls_measure g s' < ls_measure g s"
proof -
  let ?s = "s\<lparr>ls_done := insert bb (ls_done s), ls_path := ls_path s - {bb}, ls_stack := rest\<rparr>"
  note iv = ls_invD [OF i, unfolded st]
  have so: "bb \<in> cfg_blocks g" "t = length (cfg_succs g bb)" "stack_ok g (ls_done s) (ls_edges s) (Some bb) rest"
    "\<forall>k < t. cfg_succs g bb ! k \<in> ls_done s \<or> (bb, cfg_succs g bb ! k) \<in> ls_edges s" using iv(6) t by auto
  have nd: "bb \<notin> ls_done s" "bb \<notin> fst ` set rest" using iv(2,3) by auto
  have "\<forall>v \<in> set (cfg_succs g bb). (bb, v) \<in> ls_edges s \<or> v \<in> ls_done s"
    using so(2,4) by (auto simp: in_set_conv_nth)
  with iv(9) obtain ord where "set ord = ls_done s" "ordered g (ls_edges s) (ord @ [bb])"
    using ordered_snoc [of g "ls_edges s"] by metis
  then have ord: "\<exists>ord. set ord = insert bb (ls_done s) \<and> ordered g (ls_edges s) ord"
    by (intro exI [of _ "ord @ [bb]"]) auto
  have "ls_step bb t rest s = Some ?s"
    using ls_ext_targets(1) [OF d iv(1) so(1)] so(2) nd by (simp add: ls_step_def)
  moreover have "ls_inv g ?s"
  proof (rule ls_invI [where st = rest and P = "ls_path s - {bb}" and dn = "insert bb (ls_done s)"
        and L = "ls_edges s" and h = "ls_cfg s"])
    show "ls_ext g (ls_edges s) (ls_cfg s)" by (rule iv(1))
    show "distinct (map fst rest)" "fst ` set rest \<inter> insert bb (ls_done s) = {}" using iv(2,3) nd by auto
    show "fst (last rest) = 1" if "rest \<noteq> []" using iv(4) that by simp
    show "1 \<in> insert bb (ls_done s)" if "rest = []" using iv(4) that by simp
    show "stack_ok g (insert bb (ls_done s)) (ls_edges s) None rest" by (rule stack_ok_pop [OF so(3)])
    show "ls_path s - {bb} \<subseteq> fst ` set rest" using iv(7) by auto
    show "\<forall>b \<in> fst ` set rest. (1 < length (cfg_preds g b) \<or> b = 1 \<and> cfg_preds g b \<noteq> []) \<longrightarrow> b \<in> ls_path s - {bb}"
      using iv(8) nd(2) by (metis Diff_iff image_insert insertCI list.simps(15) singletonD)
    show "\<exists>ord. set ord = insert bb (ls_done s) \<and> ordered g (ls_edges s) ord" by (rule ord)
    show "insert bb (ls_done s) \<subseteq> cfg_blocks g" using iv(10) so(1) by blast
    show "\<forall>(u, v) \<in> ls_edges s. {u, v} \<subseteq> insert bb (ls_done s) \<union> fst ` set rest \<and> v \<in> set (cfg_succs g u) \<and>
        (v, u) \<in> (fg.edges g)\<^sup>*" using iv(11) by auto
  qed simp_all
  moreover have "ls_measure g ?s < ls_measure g s"
  proof -
    have w: "ls_weight g ?s u = ls_weight g s u" if "u \<noteq> bb" for u
      using that st by (simp add: ls_weight_def)
    have "ls_measure g s = ls_weight g s bb + sum (ls_weight g s) (cfg_blocks g - ls_done s - {bb})"
      unfolding ls_measure_def using so(1) nd by (intro sum.remove) (auto simp: cfg_blocks_def)
    moreover have "ls_measure g ?s = sum (ls_weight g s) (cfg_blocks g - ls_done s - {bb})"
      unfolding ls_measure_def by (intro sum.cong) (auto simp: w)
    moreover have "0 < ls_weight g s bb" using st so(2) by (simp add: ls_weight_def)
    ultimately show ?thesis by simp
  qed
  ultimately show ?thesis by blast
qed

text \<open>The top item moves on to its next target, and the edge to this one may be new.\<close>

lemma ls_inv_advance:
  assumes i: "ls_inv g s" and st: "ls_stack s = (bb, t) # rest" and t: "t < length (cfg_succs g bb)"
    and v: "cfg_succs g bb ! t \<in> ls_done s \<or> (bb, cfg_succs g bb ! t) \<in> L"
    and L: "L = ls_edges s \<or> L = insert (bb, cfg_succs g bb ! t) (ls_edges s) \<and> cfg_succs g bb ! t \<in> ls_path s"
    and e: "ls_ext g L h"
  shows "ls_inv g (s\<lparr>ls_stack := (bb, t + 1) # rest, ls_edges := L, ls_cfg := h\<rparr>)"
proof -
  let ?v = "cfg_succs g bb ! t"
  note iv = ls_invD [OF i, unfolded st]
  have sub: "ls_edges s \<subseteq> L" using L by blast
  have so: "bb \<in> cfg_blocks g" "stack_ok g (ls_done s) (ls_edges s) (Some bb) rest"
    "\<forall>k < t. cfg_succs g bb ! k \<in> ls_done s \<or> (bb, cfg_succs g bb ! k) \<in> ls_edges s" using iv(6) by auto
  let ?st = "(bb, t + 1) # rest"
  have names: "fst ` set ?st = fst ` set ((bb, t) # rest)" by simp
  have new: "{bb, ?v} \<subseteq> ls_done s \<union> fst ` set ((bb, t) # rest) \<and> ?v \<in> set (cfg_succs g bb) \<and> (?v, bb) \<in> (fg.edges g)\<^sup>*"
    if "?v \<in> ls_path s"
    using stack_path [OF iv(6), of ?v] that iv(7) t by auto
  show ?thesis
  proof (rule ls_invI [where st = ?st and P = "ls_path s" and dn = "ls_done s" and L = L and h = h])
    show "ls_ext g L h" by (rule e)
    show "distinct (map fst ?st)" using iv(2) by simp
    show "fst ` set ?st \<inter> ls_done s = {}" unfolding names by (rule iv(3))
    show "fst (last ?st) = 1" using iv(4) by (simp split: if_splits)
    show "stack_ok g (ls_done s) L None ?st"
      using so t v sub stack_ok_mono [OF so(2) subset_refl sub] by (auto simp: less_Suc_eq)
    show "ls_path s \<subseteq> fst ` set ?st" unfolding names by (rule iv(7))
    show "\<forall>b \<in> fst ` set ?st. (1 < length (cfg_preds g b) \<or> b = 1 \<and> cfg_preds g b \<noteq> []) \<longrightarrow> b \<in> ls_path s"
      unfolding names by (rule iv(8))
    show "\<exists>ord. set ord = ls_done s \<and> ordered g L ord" using iv(9) ordered_mono [OF _ sub] by blast
    show "ls_done s \<subseteq> cfg_blocks g" by (rule iv(10))
    show "\<forall>(u, v) \<in> L. {u, v} \<subseteq> ls_done s \<union> fst ` set ?st \<and> v \<in> set (cfg_succs g u) \<and>
        (v, u) \<in> (fg.edges g)\<^sup>*" unfolding names using L iv(11) new by blast
  qed simp_all
qed

lemma ls_inv_nest:
  assumes d: "cfg_done g" and i: "ls_inv g s" and st: "ls_stack s = (bb, t) # rest"
    and t: "t < length (cfg_succs g bb)" and v: "v = cfg_succs g bb ! t" "v \<notin> ls_done s" "v \<notin> ls_path s"
  shows "v \<notin> fst ` set (ls_stack s) \<and> ls_inv g (s\<lparr>ls_stack := (v, 0) # (bb, t + 1) # rest,
    ls_path := (if 1 < length (cfg_preds g v) then insert v (ls_path s) else ls_path s)\<rparr>)"
proof -
  note iv = ls_invD [OF i, unfolded st]
  have fresh: "v \<notin> fst ` set ((bb, t) # rest)" using fresh_not_on_stack [OF d i st t] v st by simp
  have so: "bb \<in> cfg_blocks g" "stack_ok g (ls_done s) (ls_edges s) (Some bb) rest"
    "\<forall>k < t. cfg_succs g bb ! k \<in> ls_done s \<or> (bb, cfg_succs g bb ! k) \<in> ls_edges s" using iv(6) by auto
  have vn: "v \<in> cfg_blocks g" using fg.succs_nodes [OF d so(1)] t v(1) by (meson nth_mem subsetD)
  have "fst (last ((bb, t) # rest)) \<in> fst ` set ((bb, t) # rest)" by (intro imageI last_in_set) simp
  then have v1: "v \<noteq> 1" using fresh iv(4) by auto
  let ?st = "(v, 0) # (bb, t + 1) # rest"
  let ?P = "if 1 < length (cfg_preds g v) then insert v (ls_path s) else ls_path s"
  have names: "fst ` set ?st = insert v (fst ` set ((bb, t) # rest))" by simp
  have "ls_inv g (s\<lparr>ls_stack := (v, 0) # (bb, t + 1) # rest,
    ls_path := (if 1 < length (cfg_preds g v) then insert v (ls_path s) else ls_path s)\<rparr>)"
  proof (rule ls_invI [where st = ?st and P = ?P and dn = "ls_done s" and L = "ls_edges s" and h = "ls_cfg s"])
    show "ls_ext g (ls_edges s) (ls_cfg s)" by (rule iv(1))
    show "distinct (map fst ?st)" using iv(2) fresh by auto
    show "fst ` set ?st \<inter> ls_done s = {}" unfolding names using iv(3) v(2) by blast
    show "fst (last ?st) = 1" using iv(4) by (simp split: if_splits)
    show "stack_ok g (ls_done s) (ls_edges s) None ?st"
      using so t vn v(1) by (auto simp: less_Suc_eq)
    show "?P \<subseteq> fst ` set ?st" unfolding names using iv(7) by auto
    show "\<forall>b \<in> fst ` set ?st. (1 < length (cfg_preds g b) \<or> b = 1 \<and> cfg_preds g b \<noteq> []) \<longrightarrow> b \<in> ?P"
      unfolding names using iv(8) v1 by auto
    show "\<exists>ord. set ord = ls_done s \<and> ordered g (ls_edges s) ord" by (rule iv(9))
    show "ls_done s \<subseteq> cfg_blocks g" by (rule iv(10))
    show "\<forall>(u, w) \<in> ls_edges s. {u, w} \<subseteq> ls_done s \<union> fst ` set ?st \<and>
        w \<in> set (cfg_succs g u) \<and> (w, u) \<in> (fg.edges g)\<^sup>*" unfolding names using iv(11) by blast
  qed simp_all
  with fresh st show ?thesis by simp
qed

lemma ls_measure_advance:
  assumes "bb \<in> cfg_blocks g - ls_done s" "ls_stack s = (bb, t) # rest" "t < length (cfg_succs g bb)"
    and s': "ls_done s' = ls_done s" "map_of (ls_stack s') bb = Some (t + 1)"
    "\<And>u. u \<noteq> bb \<Longrightarrow> map_of (ls_stack s') u = map_of (ls_stack s) u \<or> map_of (ls_stack s) u = None"
  shows "ls_measure g s' < ls_measure g s"
proof (rule ls_measure_less [OF assms(1) s'(1)])
  show "ls_weight g s' bb < ls_weight g s bb" using s'(2) assms(2,3) by (simp add: ls_weight_def)
  show "ls_weight g s' u \<le> ls_weight g s u" if "u \<noteq> bb" for u
    using s'(3) [OF that] by (auto simp: ls_weight_def split: option.splits)
qed

lemma ls_step_next:
  assumes d: "cfg_done g" and i: "ls_inv g s" and st: "ls_stack s = (bb, t) # rest"
    and t: "t < length (cfg_succs g bb)"
  shows "\<exists>s'. ls_step bb t rest s = Some s' \<and> ls_inv g s' \<and> ls_measure g s' < ls_measure g s"
proof -
  let ?v = "cfg_succs g bb ! t"
  note iv = ls_invD [OF i, unfolded st]
  have bb: "bb \<in> cfg_blocks g" and nd: "bb \<in> cfg_blocks g - ls_done s" using iv(3,6) by auto
  have vn: "?v \<in> cfg_blocks g" using fg.succs_nodes [OF d bb] t by (meson nth_mem subsetD)
  note tg = ls_ext_targets(1) [OF d iv(1) bb]
  note less = ls_measure_advance [OF nd st t]
  show ?thesis
  proof (cases "?v \<in> ls_done s \<or> (?v \<in> ls_path s \<and> (bb, ?v) \<in> ls_edges s)")
    case True
    let ?s = "s\<lparr>ls_stack := (bb, t + 1) # rest, ls_edges := ls_edges s, ls_cfg := ls_cfg s\<rparr>"
    have "ls_step bb t rest s = Some ?s" using tg True t by (auto simp: ls_step_def Let_def)
    moreover have "ls_inv g ?s" using ls_inv_advance [OF i st t _ _ iv(1)] True by blast
    moreover have "ls_measure g ?s < ls_measure g s" using st by (intro less) auto
    ultimately show ?thesis by blast
  next
    case False
    show ?thesis
    proof (cases "?v \<in> ls_path s")
      case True
      let ?L = "insert (bb, ?v) (ls_edges s)"
      from ls_ext_add [OF d iv(1) bb t] obtain h where h: "add_loop_target bb t (ls_cfg s) = Some h" "ls_ext g ?L h"
        by blast
      let ?s = "s\<lparr>ls_stack := (bb, t + 1) # rest, ls_edges := ?L, ls_cfg := h\<rparr>"
      have "ls_step bb t rest s = Some ?s" using tg False True t h(1) by (simp add: ls_step_def Let_def)
      moreover have "ls_inv g ?s" using ls_inv_advance [OF i st t _ _ h(2)] True by blast
      moreover have "ls_measure g ?s < ls_measure g s" using st by (intro less) auto
      ultimately show ?thesis by blast
    next
      case new: False
      let ?s = "s\<lparr>ls_stack := (?v, 0) # (bb, t + 1) # rest,
        ls_path := (if 1 < length (cfg_preds g ?v) then insert ?v (ls_path s) else ls_path s)\<rparr>"
      note nest = ls_inv_nest [OF d i st t refl, of] 
      have n: "?v \<notin> fst ` set (ls_stack s)" "ls_inv g ?s" using nest False new by blast+
      have "ls_step bb t rest s = Some ?s"
        using tg False new t ls_ext_targets(2) [OF d iv(1) vn] by (simp add: ls_step_def Let_def)
      moreover have "ls_measure g ?s < ls_measure g s" using st n(1)
        by (intro less) (auto simp: map_of_eq_None_iff)
      ultimately show ?thesis using n(2) by blast
    qed
  qed
qed

lemma ls_loop_total:
  assumes d: "cfg_done g" and i: "ls_inv g s"
  shows "\<exists>s'. ls_loop s = Some s' \<and> ls_inv g s' \<and> ls_stack s' = []"
  using i
proof (induction "ls_measure g s" arbitrary: s rule: less_induct)
  case less
  show ?case
  proof (cases "ls_stack s")
    case Nil
    then show ?thesis using less.prems by (subst ls_loop.simps) simp
  next
    case (Cons p rest)
    then have st: "ls_stack s = (fst p, snd p) # rest" by simp
    have "\<exists>s'. ls_step (fst p) (snd p) rest s = Some s' \<and> ls_inv g s' \<and> ls_measure g s' < ls_measure g s"
      using ls_step_pop [OF d less.prems st] ls_step_next [OF d less.prems st] by (meson leI)
    then obtain s' where s': "ls_step (fst p) (snd p) rest s = Some s'" "ls_inv g s'" "ls_measure g s' < ls_measure g s"
      by blast
    from less.hyps [OF s'(3,2)] show ?thesis using s'(1) Cons by (subst ls_loop.simps) simp
  qed
qed


section \<open>The result\<close>

lemma ls_inv_init:
  assumes d: "cfg_done g" and n: "db_tab g \<noteq> []"
  shows "ls_inv g (ls_init 1 (cfg_preds g 1) g)"
proof -
  have "1 \<in> cfg_blocks g" using n by (simp add: cfg_blocks_iff Suc_leI)
  then show ?thesis
    by (intro ls_invI [where st = "[(1, 0)]" and P = "if cfg_preds g 1 \<noteq> [] then {1} else {}" and dn = "{}"
          and L = "{}" and h = g])
      (auto simp: ls_init_def ls_ext_refl [OF d] ordered_def intro: exI [of _ "[]"])
qed

text \<open>At the end every block that can be reached is finished, in an order in which no edge leads forward.\<close>

lemma ls_inv_final:
  assumes d: "cfg_done g" and i: "ls_inv g s" and st: "ls_stack s = []"
  shows "(1, u) \<in> (fg.edges g)\<^sup>* \<Longrightarrow> u \<in> ls_done s"
    and "acyclic {(u, v) \<in> fg.edges g. u \<in> ls_done s \<and> (u, v) \<notin> ls_edges s}"
proof -
  note iv = ls_invD [OF i, unfolded st]
  from iv(9) obtain ord where ord: "set ord = ls_done s" "ordered g (ls_edges s) ord" by blast
  have earlier: "(u, v) \<in> ls_edges s \<or> (\<exists>m < n. ord ! m = v)"
    if "n < length ord" "ord ! n = u" "v \<in> set (cfg_succs g u)" for u v n
  proof -
    have "(u, v) \<in> ls_edges s \<or> v \<in> set (take n ord)" using ord(2) that unfolding ordered_def by blast
    then show ?thesis by (auto simp: in_set_conv_nth)
  qed
  have closed: "v \<in> ls_done s" if "u \<in> ls_done s" "v \<in> set (cfg_succs g u)" for u v
  proof -
    from that(1) ord(1) obtain n where n: "n < length ord" "ord ! n = u" by (metis in_set_conv_nth)
    from earlier [OF n that(2)] show ?thesis
    proof
      assume "(u, v) \<in> ls_edges s"
      then show ?thesis using iv(11) by auto
    next
      assume "\<exists>m < n. ord ! m = v"
      then show ?thesis using n(1) ord(1) by (metis less_trans nth_mem)
    qed
  qed
  show "u \<in> ls_done s" if "(1, u) \<in> (fg.edges g)\<^sup>*"
    using that by (induction rule: rtrancl_induct) (use iv(5) closed in \<open>auto simp: fg.edges_def\<close>)
  define pos where "pos u = (LEAST n. n < length ord \<and> ord ! n = u)" for u
  have pos: "pos u < length ord \<and> ord ! pos u = u" if u: "u \<in> ls_done s" for u
  proof -
    from u ord(1) obtain n where "n < length ord \<and> ord ! n = u" by (metis in_set_conv_nth)
    then show ?thesis unfolding pos_def by (rule LeastI)
  qed
  have "{(u, v) \<in> fg.edges g. u \<in> ls_done s \<and> (u, v) \<notin> ls_edges s} \<subseteq> (measure pos)\<inverse>"
  proof (clarsimp simp: fg.edges_def)
    fix u v
    assume u: "u \<in> ls_done s" and v: "v \<in> set (cfg_succs g u)" and n: "(u, v) \<notin> ls_edges s"
    from earlier [OF conjunct1 [OF pos [OF u]] conjunct2 [OF pos [OF u]] v] n
    obtain m where m: "m < pos u" "ord ! m = v" by blast
    have "pos v \<le> m" unfolding pos_def using m pos [OF u] by (intro Least_le) auto
    then show "pos v < pos u" using m(1) by simp
  qed
  moreover have "acyclic ((measure pos)\<inverse>)" by (simp add: acyclic_converse wf_acyclic)
  ultimately show "acyclic {(u, v) \<in> fg.edges g. u \<in> ls_done s \<and> (u, v) \<notin> ls_edges s}"
    by (rule acyclic_subset [rotated])
qed

lemma isLoopClosingEdge_iff:
  assumes "set (loopClosingTargets ins) \<subseteq> {..<length (targets ins)}"
  shows "isLoopClosingEdge ins v = Some (v \<in> closing ins)"
proof -
  have "ofold (\<lambda>idx found. if found then Some True
      else do { cl_break_if (length (targets ins) \<le> idx); Some (targets ins ! idx = v) }) ks b
      = Some (b \<or> v \<in> (\<lambda>k. targets ins ! k) ` set ks)" if "set ks \<subseteq> {..<length (targets ins)}" for ks b
    using that by (induction ks arbitrary: b) auto
  with assms show ?thesis by (simp add: isLoopClosingEdge_def closing_def)
qed

text \<open>The edges that the symbolic execution takes for loop-closing.\<close>

definition closing_edges :: "cfg \<Rightarrow> (TBlock \<times> TBlock) set" where
  "closing_edges g = {(u, v). u \<in> cfg_blocks g \<and>
     (case bb_back g u of None \<Rightarrow> False | Some ins \<Rightarrow> isLoopClosingEdge ins v = Some True)}"

lemma ls_ext_closing:
  assumes d: "cfg_done g" and e: "ls_ext g L h" and L: "\<And>u v. (u, v) \<in> L \<Longrightarrow> u \<in> cfg_blocks g"
  shows "closing_edges h = L"
proof -
  have "cfg_blocks h = cfg_blocks g" using e by (simp add: ls_ext_def)
  moreover have "(case bb_back h u of None \<Rightarrow> False | Some ins \<Rightarrow> isLoopClosingEdge ins v = Some True) \<longleftrightarrow> (u, v) \<in> L"
    if u: "u \<in> cfg_blocks g" for u v
  proof -
    from ls_ext_targets(3) [OF d e u] obtain ins where i: "bb_back h u = Some ins"
      "ins = (last (bb_insns (blk g u)))\<lparr>loopClosingTargets := loopClosingTargets ins\<rparr>"
      "set (loopClosingTargets ins) \<subseteq> {..<length (cfg_succs g u)}"
      "(\<lambda>k. cfg_succs g u ! k) ` set (loopClosingTargets ins) = {v. (u, v) \<in> L}" by blast
    have t: "targets ins = cfg_succs g u"
      using cfg_done_targets [OF d u] i(2) by (metis insn.select_convs(7) insn.surjective insn.update_convs(8))
    have "closing ins = {v. (u, v) \<in> L}" using i(4) t by (simp add: closing_def)
    then show ?thesis using i(1,3) t isLoopClosingEdge_iff [of ins v] by simp
  qed
  ultimately show ?thesis using L unfolding closing_edges_def by auto
qed

lemma ls_analyzeFnc_result:
  assumes d: "cfg_done g" and n: "db_tab g \<noteq> []"
  shows "\<exists>h. ls_analyzeFnc g = Some h \<and> ls_ext g (closing_edges h) h \<and>
    acyclic {(u, v) \<in> fg.edges g. (1, u) \<in> (fg.edges g)\<^sup>* \<and> (u, v) \<notin> closing_edges h} \<and>
    (\<forall>(u, v) \<in> closing_edges h. (u, v) \<in> fg.edges g \<and> (v, u) \<in> (fg.edges g)\<^sup>*)"
proof -
  have "1 \<in> cfg_blocks g" using n by (simp add: cfg_blocks_iff Suc_leI)
  note inb = ls_ext_targets(2) [OF d ls_ext_refl [OF d] this]
  from ls_loop_total [OF d ls_inv_init [OF d n]] obtain s where
    s: "ls_loop (ls_init 1 (cfg_preds g 1) g) = Some s" "ls_inv g s" "ls_stack s = []" by blast
  note iv = ls_invD [OF s(2), unfolded s(3)] and f = ls_inv_final [OF d s(2,3)]
  have L: "(u, v) \<in> fg.edges g \<and> (v, u) \<in> (fg.edges g)\<^sup>*" if "(u, v) \<in> ls_edges s" for u v
    using iv(10,11) that by (auto simp: fg.edges_def)
  have c: "closing_edges (ls_cfg s) = ls_edges s"
    using L by (intro ls_ext_closing [OF d iv(1)]) (auto simp: fg.edges_def)
  have "ls_analyzeFnc g = Some (ls_cfg s)" using s(1) inb n by (simp add: ls_analyzeFnc_def cfg_entry_def)
  moreover have "acyclic {(u, v) \<in> fg.edges g. (1, u) \<in> (fg.edges g)\<^sup>* \<and> (u, v) \<notin> ls_edges s}"
    by (rule acyclic_subset [OF f(2)]) (use f(1) in auto)
  ultimately show ?thesis using c iv(1) L by auto
qed


lemma ofold_search:
  assumes "\<And>x. x \<in> set xs \<Longrightarrow> f x = Some (P x)"
  shows "ofold (\<lambda>x found. if found then Some True else f x) xs b = Some (b \<or> (\<exists>x \<in> set xs. P x))"
  using assms by (induction xs arbitrary: b) auto

lemma isLoopEntry_iff:
  assumes d: "cfg_done g" and e: "ls_ext g (closing_edges h) h" and v: "v \<in> cfg_blocks g"
    and L: "closing_edges h \<subseteq> cfg_edges g"
  shows "isLoopEntry h v = Some (\<exists>u. (u, v) \<in> closing_edges h)"
proof -
  have v': "v \<in> cfg_blocks h" and inb: "inbound (blk h v) = cfg_preds g v"
    using e v by (auto simp: ls_ext_def cfg_preds_def bb_at_in [OF v])
  let ?f = "\<lambda>ref. do {
       ins \<leftarrow> bb_back h ref;
       tList \<leftarrow> bb_targets h ref;
       ofold (\<lambda>idx found. if found then Some True
         else do { cl_break_if (length tList \<le> idx); Some (tList ! idx = v) }) (loopClosingTargets ins) False
     }"
  have "?f u = Some ((u, v) \<in> closing_edges h)" if "u \<in> set (cfg_preds g v)" for u
  proof -
    have u: "u \<in> cfg_blocks g" using fg.preds_nodes [OF d v] that by blast
    from ls_ext_targets(3) [OF d e u] obtain ins where i: "bb_back h u = Some ins"
      "ins = (last (bb_insns (blk g u)))\<lparr>loopClosingTargets := loopClosingTargets ins\<rparr>"
      "set (loopClosingTargets ins) \<subseteq> {..<length (cfg_succs g u)}"
      "(\<lambda>k. cfg_succs g u ! k) ` set (loopClosingTargets ins) = {v. (u, v) \<in> closing_edges h}" by blast
    have t: "targets ins = cfg_succs g u"
      using cfg_done_targets [OF d u] i(2) by (metis insn.select_convs(7) insn.surjective insn.update_convs(8))
    have "isLoopClosingEdge ins v = Some (v \<in> closing ins)" using isLoopClosingEdge_iff [of ins v] i(3) t by simp
    moreover have "v \<in> closing ins \<longleftrightarrow> (u, v) \<in> closing_edges h" using i(4) t by (auto simp: closing_def)
    ultimately show ?thesis
      using i(1) ls_ext_targets(1) [OF d e u] by (simp add: isLoopClosingEdge_def flip: t)
  qed
  from ofold_search [of "cfg_preds g v" ?f, OF this]
  have "isLoopEntry h v = Some (\<exists>u \<in> set (cfg_preds g v). (u, v) \<in> closing_edges h)"
    by (simp add: isLoopEntry_def bb_at_in [OF v'] inb)
  moreover have "u \<in> set (cfg_preds g v)" if "(u, v) \<in> closing_edges h" for u
    using L that fg.preds_edges [OF d v] by (auto simp: fg_edges)
  ultimately show ?thesis by auto
qed

text \<open>
  C11: on the graph of a function that the builder made without an error report, the search returns, and
  it changes nothing but the lists of loop-closing targets.  What is left of the graph that the entry
  reaches after the removal of the loop-closing edges has no cycle: every loop has such an edge.  Every
  loop-closing edge is an edge of the graph that closes a cycle, and \<open>isLoopEntry\<close> holds for the blocks
  these edges lead to.
\<close>

theorem loopscan_cuts_loops:
  assumes "front M l c b" "no_errors l c" "j < length (db_tab (fncs (b_stor b)))" "b_fnc b \<noteq> Some j"
    and "g = fnc_cfg (db_tab (fncs (b_stor b)) ! j)" "db_tab g \<noteq> []"
  shows "\<exists>h. ls_analyzeFnc g = Some h \<and> ls_ext g (closing_edges h) h \<and>
    acyclic {(u, v) \<in> cfg_edges g. (1, u) \<in> (cfg_edges g)\<^sup>* \<and> (u, v) \<notin> closing_edges h} \<and>
    (\<forall>(u, v) \<in> closing_edges h. (u, v) \<in> cfg_edges g \<and> (v, u) \<in> (cfg_edges g)\<^sup>*) \<and>
    (\<forall>v \<in> cfg_blocks g. isLoopEntry h v = Some (\<exists>u. (u, v) \<in> closing_edges h))"
proof -
  have d: "cfg_done g" using front_cfg_done [OF assms(1-4)] assms(5) by simp
  from ls_analyzeFnc_result [OF d assms(6)] obtain h where h: "ls_analyzeFnc g = Some h" "ls_ext g (closing_edges h) h"
    "acyclic {(u, v) \<in> cfg_edges g. (1, u) \<in> (cfg_edges g)\<^sup>* \<and> (u, v) \<notin> closing_edges h}"
    "\<forall>(u, v) \<in> closing_edges h. (u, v) \<in> cfg_edges g \<and> (v, u) \<in> (cfg_edges g)\<^sup>*"
    unfolding fg_edges by blast
  have "closing_edges h \<subseteq> cfg_edges g" using h(4) by auto
  then have "\<forall>v \<in> cfg_blocks g. isLoopEntry h v = Some (\<exists>u. (u, v) \<in> closing_edges h)"
    using isLoopEntry_iff [OF d h(2)] by blast
  with h show ?thesis by blast
qed

theorem loopscan_cuts_loops_witness:
  "\<exists>l c b h. wit_front = Some (l, c, b) \<and>
     ls_analyzeFnc (fnc_cfg (db_tab (fncs (b_stor b)) ! 0)) = Some h \<and>
     acyclic {(u, v) \<in> cfg_edges (fnc_cfg (db_tab (fncs (b_stor b)) ! 0)).
       (1, u) \<in> (cfg_edges (fnc_cfg (db_tab (fncs (b_stor b)) ! 0)))\<^sup>* \<and> (u, v) \<notin> closing_edges h}"
proof -
  obtain l c b where w: "wit_front = Some (l, c, b)" and n: "no_errors l c" "length (db_tab (fncs (b_stor b))) = 1"
    "b_fnc b = None" "length (db_tab (fnc_cfg (db_tab (fncs (b_stor b)) ! 0))) = 2"
    using wit_front_runs by (auto split: option.splits)
  have f: "front wit_mem l c b"
    by (rule front_run_front [OF w [unfolded wit_front_def] front.init])
  define g where "g = fnc_cfg (db_tab (fncs (b_stor b)) ! 0)"
  have "db_tab g \<noteq> []" using n(4) by (auto simp: g_def)
  with loopscan_cuts_loops [OF f n(1), of 0 g] n(2,3) show ?thesis
    unfolding g_def [symmetric] using w g_def by auto
qed

end
