(* ===== verification/VarKiller.thy ===== *)
theory VarKiller
  imports LoopScan
begin

text \<open>
  The variable killer of \<open>src/cl/killer.cc\<close>: a live variable analysis of every function, whose result is
  the list of variables to be destroyed after an instruction, or on the way to one of its targets.  A
  second kind of variable is tracked through pointers: \<open>derefAliases\<close> maps a pointer to the only variable
  of the caller that it may point to.  The points-to query behind it is a parameter, a function from
  pointers to their targets.

  Blocks are visited in the order of their addresses (\<open>std::set\<close> of pointers), given by a parameter.
\<close>

section \<open>Scanning of instructions\<close>

record block_data =
  bd_gen :: "int set"
  bd_kill :: "int set"

definition bd_empty :: block_data where
  "bd_empty = \<lparr>bd_gen = {}, bd_kill = {}\<rparr>"

type_synonym TAliasMap = "(int, int) omap"

definition isLcVar :: "svar \<Rightarrow> bool" where
  "isLcVar v \<longleftrightarrow> sv_code v \<noteq> VAR_GL"

definition scanVar :: "svar \<Rightarrow> bool \<Rightarrow> bool \<Rightarrow> block_data \<Rightarrow> block_data" where
  "scanVar v dst fieldOfComp bd =
     (if \<not> isLcVar v then bd
      else if dst \<and> fieldOfComp then bd
      else if sv_uid v \<in> bd_kill bd then bd
      else if dst then bd\<lparr>bd_kill := insert (sv_uid v) (bd_kill bd)\<rparr>
      else bd\<lparr>bd_gen := insert (sv_uid v) (bd_gen bd)\<rparr>)"

text \<open>
  \<open>stor.vars[uid]\<close>.  The builder has put the variables of all operands into the storage; the model stops
  where the code would go on with a dummy variable that has no uid.
\<close>

definition var_of :: "storage \<Rightarrow> int \<Rightarrow> svar option" where
  "var_of st uid = dbConstLookup uid (vars st)"

definition scanTarget :: "storage \<Rightarrow> TAliasMap \<Rightarrow> svar \<Rightarrow> bool \<Rightarrow> block_data \<Rightarrow> block_data option" where
  "scanTarget st al origin dst bd = (case omap_find al (sv_uid origin) of
     None \<Rightarrow> Some bd
   | Some uidAlias \<Rightarrow> do { tgt \<leftarrow> var_of st uidAlias; Some (scanVar tgt dst False bd) })"

text \<open>\<open>scanOperand\<close>, with the loop over the accessors that yields \<open>dst\<close>, \<open>fieldOfComp\<close> and \<open>deref\<close>.\<close>

fun scanOperand :: "storage \<Rightarrow> TAliasMap \<Rightarrow> cl_operand \<Rightarrow> bool \<Rightarrow> block_data \<Rightarrow> block_data option"
  and scanAccessors :: "storage \<Rightarrow> TAliasMap \<Rightarrow> cl_accessor list \<Rightarrow> bool \<Rightarrow> bool \<Rightarrow> bool \<Rightarrow> block_data \<Rightarrow>
    ((bool \<times> bool \<times> bool) \<times> block_data) option" where
  "scanOperand st al CL_OPERAND_VOID upDst bd = Some bd"
| "scanOperand st al (CL_OPERAND_CST sc t acs c) upDst bd = do {
     (_, bd) \<leftarrow> scanAccessors st al acs upDst False False bd;
     Some bd
   }"
| "scanOperand st al (CL_OPERAND_VAR sc t acs v) upDst bd = do {
     ((dst, fieldOfComp, deref), bd) \<leftarrow> scanAccessors st al acs upDst False False bd;
     if \<not> isLcVar_op (CL_OPERAND_VAR sc t acs v) then Some bd
     else do {
       var \<leftarrow> var_of st (cv_uid v);
       let bd = scanVar var dst fieldOfComp bd;
       if \<not> deref then Some bd
       else if \<not> fieldOfComp then scanTarget st al var upDst bd
       else Some bd
     }
   }"
| "scanAccessors st al [] dst fieldOfComp deref bd = Some ((dst, fieldOfComp, deref), bd)"
| "scanAccessors st al (ac # acs) dst fieldOfComp deref bd = do {
     _ \<leftarrow> (if dst then do { r \<leftarrow> seekRefAccessor (ac # acs); cl_break_if r } else Some ());
     case ac of
       CL_ACCESSOR_DEREF_ARRAY t ix \<Rightarrow> do {
         bd \<leftarrow> scanOperand st al ix False bd;
         scanAccessors st al acs False fieldOfComp True bd
       }
     | CL_ACCESSOR_DEREF t \<Rightarrow> scanAccessors st al acs False fieldOfComp True bd
     | CL_ACCESSOR_ITEM t n \<Rightarrow> scanAccessors st al acs dst True deref bd
     | CL_ACCESSOR_OFFSET t n \<Rightarrow> scanAccessors st al acs dst True deref bd
     | CL_ACCESSOR_REF t \<Rightarrow> scanAccessors st al acs dst fieldOfComp deref bd
   }"

definition isBuiltInCall :: "insn \<Rightarrow> bool option" where
  "isBuiltInCall i =
     (if in_code i \<noteq> CL_INSN_CALL then Some False
      else if length (operands i) \<le> 1 then None
      else Some (isBuiltInFnc (operands i ! 1)))"

text \<open>All operands, the destination (index 0) last.\<close>

definition scanOperands :: "storage \<Rightarrow> TAliasMap \<Rightarrow> insn \<Rightarrow> block_data \<Rightarrow> block_data option" where
  "scanOperands st al i bd = do {
     cl_break_if (operands i = []);
     ofold (\<lambda>n. scanOperand st al (operands i ! n) (n = 0)) (rev [0..<length (operands i)]) bd
   }"

definition scanInsn :: "storage \<Rightarrow> TAliasMap \<Rightarrow> insn \<Rightarrow> block_data \<Rightarrow> block_data option" where
  "scanInsn st al i bd = (case in_code i of
     CL_INSN_CALL \<Rightarrow> do {
       builtin \<leftarrow> isBuiltInCall i;
       if builtin then Some bd else scanOperands st al i bd
     }
   | CL_INSN_UNOP \<Rightarrow> scanOperands st al i bd
   | CL_INSN_BINOP \<Rightarrow> scanOperands st al i bd
   | CL_INSN_JMP \<Rightarrow> Some bd
   | CL_INSN_NOP \<Rightarrow> Some bd
   | CL_INSN_ABORT \<Rightarrow> Some bd
   | CL_INSN_LABEL \<Rightarrow> Some bd
   | _ \<Rightarrow> (case operands i of
       [] \<Rightarrow> None
     | op # _ \<Rightarrow> scanOperand st al op (in_code i = CL_INSN_CLOBBER) bd))"

section \<open>Aliases and the fixed point\<close>

text \<open>
  \<open>Data\<close>: the shared data.  A \<open>std::map\<close> from blocks that is only used through \<open>operator[]\<close> is a total
  function with the empty \<open>BlockData\<close> as its default.
\<close>

record vk_data =
  vk_todo :: "TBlock list"
  vk_blocks :: "TBlock \<Rightarrow> block_data"

text \<open>
  \<open>alias\<close>: the cache in front of the points-to query \<open>query\<close>, which stands for the call graph and the
  points-to graph of the function and gives the single variable of the caller the pointer leads to.
\<close>

definition vk_alias :: "(int \<Rightarrow> int option) \<Rightarrow> int \<Rightarrow> TAliasMap \<Rightarrow> TAliasMap" where
  "vk_alias query uid al = (if omap_find al uid \<noteq> None then al
     else case query uid of None \<Rightarrow> al | Some tgt \<Rightarrow> omap_put uid tgt al)"

fun hitAlias :: "(int \<Rightarrow> int option) \<Rightarrow> cl_operand \<Rightarrow> TAliasMap \<Rightarrow> TAliasMap" where
  "hitAlias query (CL_OPERAND_VAR sc t (CL_ACCESSOR_DEREF ty # acs) v) al = vk_alias query (cv_uid v) al"
| "hitAlias query op al = al"

definition findAliases :: "(int \<Rightarrow> int option) \<Rightarrow> cfg \<Rightarrow> TAliasMap" where
  "findAliases query g = fold (\<lambda>b. fold (\<lambda>i. fold (hitAlias query) (operands i)) (bb_insns b)) (db_tab g) []"

definition presetLive :: "TAliasMap \<Rightarrow> TBlock list \<Rightarrow> block_data \<Rightarrow> block_data" where
  "presetLive al tlist bd =
     (if tlist \<noteq> [] then bd
      else bd\<lparr>bd_gen := bd_gen bd \<union> (set (map snd al) - bd_kill bd)\<rparr>)"

definition todo_insert :: "(TBlock \<Rightarrow> nat) \<Rightarrow> TBlock \<Rightarrow> TBlock list \<Rightarrow> TBlock list" where
  "todo_insert addr bb wl = insort_insert_key addr bb wl"

text \<open>The loop over the blocks: what a block generates and kills, and all blocks to be visited.\<close>

definition scanBlock :: "(TBlock \<Rightarrow> nat) \<Rightarrow> storage \<Rightarrow> TAliasMap \<Rightarrow> cfg \<Rightarrow> TBlock \<Rightarrow> vk_data \<Rightarrow> vk_data option" where
  "scanBlock addr st al g bb d = do {
     b \<leftarrow> bb_at g bb;
     bd \<leftarrow> ofold (scanInsn st al) (bb_insns b) (vk_blocks d bb);
     tlist \<leftarrow> bb_targets g bb;
     Some (d\<lparr>vk_blocks := (vk_blocks d)(bb := presetLive al tlist bd),
             vk_todo := todo_insert addr bb (vk_todo d)\<rparr>)
   }"

text \<open>\<open>updateBlock\<close>: the variables of one successor, and the whole loop.\<close>

definition updateVar :: "TBlock \<Rightarrow> int \<Rightarrow> (TBlock \<Rightarrow> block_data) \<times> bool \<Rightarrow> (TBlock \<Rightarrow> block_data) \<times> bool" where
  "updateVar bb uid = (\<lambda>(bl, anyChange).
     if uid \<in> bd_kill (bl bb) then (bl, anyChange)
     else if uid \<in> bd_gen (bl bb) then (bl, anyChange)
     else (bl(bb := (bl bb)\<lparr>bd_gen := insert uid (bd_gen (bl bb))\<rparr>), True))"

definition updateFrom :: "TBlock \<Rightarrow> TBlock \<Rightarrow> (TBlock \<Rightarrow> block_data) \<times> bool \<Rightarrow> (TBlock \<Rightarrow> block_data) \<times> bool" where
  "updateFrom bb bbSrc s = fold (updateVar bb) (sorted_list_of_set (bd_gen (fst s bbSrc))) s"

definition updateBlock :: "(TBlock \<Rightarrow> nat) \<Rightarrow> cfg \<Rightarrow> TBlock \<Rightarrow> vk_data \<Rightarrow> vk_data option" where
  "updateBlock addr g bb d = do {
     tlist \<leftarrow> bb_targets g bb;
     inb \<leftarrow> bb_inbound g bb;
     let (bl, anyChange) = fold (updateFrom bb) tlist (vk_blocks d, False);
     Some (if \<not> anyChange then d\<lparr>vk_blocks := bl\<rparr>
           else d\<lparr>vk_blocks := bl, vk_todo := fold (todo_insert addr) inb (vk_todo d)\<rparr>)
   }"

partial_function (option) computeFixPoint :: "(TBlock \<Rightarrow> nat) \<Rightarrow> cfg \<Rightarrow> vk_data \<Rightarrow> vk_data option" where
  "computeFixPoint addr g d = (case vk_todo d of
     [] \<Rightarrow> Some d
   | bb # rest \<Rightarrow> do {
       d' \<leftarrow> updateBlock addr g bb (d\<lparr>vk_todo := rest\<rparr>);
       computeFixPoint addr g d'
     })"

declare computeFixPoint.simps [code]

section \<open>Committing the results\<close>

definition isPointedUid :: "storage \<Rightarrow> TAliasMap \<Rightarrow> int \<Rightarrow> bool option" where
  "isPointedUid st al uid =
     (if uid \<in> set (map snd al) then Some False
      else do { v \<leftarrow> var_of st uid; Some (sv_mayBePointed v) })"

definition insn_upd :: "nat \<Rightarrow> (insn \<Rightarrow> insn) \<Rightarrow> block \<Rightarrow> block" where
  "insn_upd k f b = b\<lparr>bb_insns := (bb_insns b)[k := f (bb_insns b ! k)]\<rparr>"

definition killVariablePerTarget :: "storage \<Rightarrow> TAliasMap \<Rightarrow> nat \<Rightarrow> int \<Rightarrow> block \<Rightarrow> block option" where
  "killVariablePerTarget st al target uid b = do {
     ins \<leftarrow> Block_back b;
     isPointed \<leftarrow> isPointedUid st al uid;
     cl_break_if (length (killPerTarget ins) \<le> target);
     Some (insn_upd (length (bb_insns b) - 1) (\<lambda>i. i\<lparr>killPerTarget :=
       (killPerTarget i)[target := kill_insert uid isPointed (killPerTarget i ! target)]\<rparr>) b)
   }"

text \<open>
  \<open>commitInsn\<close> on the instruction at index \<open>k\<close> of a block, with the body of its loop over the variables
  touched by the instruction.  The counters of \<open>PTStats\<close> are only printed.
\<close>

definition commitTarget :: "storage \<Rightarrow> TAliasMap \<Rightarrow> int \<Rightarrow> nat \<Rightarrow> block \<times> int set list \<Rightarrow> (block \<times> int set list) option" where
  "commitTarget st al vKill i = (\<lambda>(b, livePerTarget).
     if vKill \<in> livePerTarget ! i then Some (b, livePerTarget)
     else do {
       b \<leftarrow> killVariablePerTarget st al i vKill b;
       Some (b, livePerTarget[i := insert vKill (livePerTarget ! i)])
     })"

definition commitVar :: "storage \<Rightarrow> TAliasMap \<Rightarrow> nat \<Rightarrow> int set \<Rightarrow> nat \<Rightarrow> int \<Rightarrow>
    block \<times> int set \<times> int set list \<Rightarrow> (block \<times> int set \<times> int set list) option" where
  "commitVar st al cntTargets gen k vKill = (\<lambda>(b, live, livePerTarget). do {
     isPointed \<leftarrow> isPointedUid st al vKill;
     let fresh = vKill \<notin> live;
     let b = (if fresh then insn_upd k (\<lambda>i. i\<lparr>varsToKill := kill_insert vKill isPointed (varsToKill i)\<rparr>) b else b);
     let livePerTarget = (if fresh \<and> 1 < cntTargets then map (insert vKill) livePerTarget else livePerTarget);
     let live = insert vKill live;
     let live = (if vKill \<notin> gen then live - {vKill} else live);
     if \<not> 1 < cntTargets then Some (b, live, livePerTarget)
     else do {
       (b, livePerTarget) \<leftarrow> ofold (commitTarget st al vKill) [0..<cntTargets] (b, livePerTarget);
       Some (b, live, livePerTarget)
     }
   })"

definition commitInsn :: "storage \<Rightarrow> TAliasMap \<Rightarrow> nat \<Rightarrow> block \<times> int set \<times> int set list \<Rightarrow>
    (block \<times> int set \<times> int set list) option" where
  "commitInsn st al k s = do {
     tlist \<leftarrow> Block_targets (fst s);
     arena \<leftarrow> scanInsn st al (bb_insns (fst s) ! k) bd_empty;
     ofold (commitVar st al (length tlist) (bd_gen arena) k)
       (sorted_list_of_set (bd_kill arena \<union> bd_gen arena)) s
   }"

text \<open>The merge of the sorted sets \<open>live\<close> and \<open>livePerTarget[target]\<close> at the end of \<open>commitBlock\<close>.\<close>

fun mergeLive :: "storage \<Rightarrow> TAliasMap \<Rightarrow> nat \<Rightarrow> int list \<Rightarrow> int list \<Rightarrow> block \<Rightarrow> block option" where
  "mergeLive st al target (uidLive # liveIt) (uidPerTarget # perTargetIt) b =
     (if uidPerTarget < uidLive then mergeLive st al target (uidLive # liveIt) perTargetIt b
      else if uidLive = uidPerTarget then mergeLive st al target liveIt perTargetIt b
      else do {
        b \<leftarrow> killVariablePerTarget st al target uidLive b;
        mergeLive st al target liveIt (uidPerTarget # perTargetIt) b
      })"
| "mergeLive st al target liveIt perTargetIt b = Some b"

definition commitBlock :: "storage \<Rightarrow> TAliasMap \<Rightarrow> (TBlock \<Rightarrow> block_data) \<Rightarrow> block \<Rightarrow> block option" where
  "commitBlock st al bl b = do {
     tlist \<leftarrow> Block_targets b;
     let gens = map (\<lambda>bbSrc. bd_gen (bl bbSrc)) tlist;
     let live = \<Union> (set gens) \<union> (if tlist = [] then set (map snd al) else {});
     cl_break_if (bb_insns b = []);
     (b, live, livePerTarget) \<leftarrow> ofold (commitInsn st al) (rev [0..<length (bb_insns b)])
       (b, live, if 1 < length tlist then gens else []);
     if \<not> 1 < length tlist then Some b
     else ofold (\<lambda>target. mergeLive st al target (sorted_list_of_set live)
       (sorted_list_of_set (livePerTarget ! target))) [0..<length tlist] b
   }"

definition vk_init :: vk_data where
  "vk_init = \<lparr>vk_todo = [], vk_blocks = (\<lambda>_. bd_empty)\<rparr>"

text \<open>The analysis up to the fixed point, and the whole \<open>analyzeFnc\<close>.\<close>

definition vk_live :: "(TBlock \<Rightarrow> nat) \<Rightarrow> storage \<Rightarrow> TAliasMap \<Rightarrow> cfg \<Rightarrow> vk_data option" where
  "vk_live addr st al g = do {
     d \<leftarrow> ofold (scanBlock addr st al g) [1..<length (db_tab g) + 1] vk_init;
     computeFixPoint addr g d
   }"

definition vk_analyzeFnc :: "(TBlock \<Rightarrow> nat) \<Rightarrow> (int \<Rightarrow> int option) \<Rightarrow> storage \<Rightarrow> cfg \<Rightarrow> cfg option" where
  "vk_analyzeFnc addr query st g = do {
     let al = findAliases query g;
     d \<leftarrow> vk_live addr st al g;
     ofold (\<lambda>bb h. do {
       b \<leftarrow> bb_at h bb;
       b' \<leftarrow> commitBlock st al (vk_blocks d) b;
       Some (bb_upd bb (\<lambda>_. b') h)
     }) [1..<length (db_tab g) + 1] g
   }"

definition killLocalVariables :: "cl_mem \<Rightarrow> (nat \<Rightarrow> TBlock \<Rightarrow> nat) \<Rightarrow> (nat \<Rightarrow> int \<Rightarrow> int option) \<Rightarrow> storage \<Rightarrow>
    storage option" where
  "killLocalVariables M addr query st = ofold (\<lambda>j st. do {
     let f = db_tab (fncs st) ! j;
     def \<leftarrow> isDefined M f;
     if \<not> def then Some st
     else do {
       g \<leftarrow> vk_analyzeFnc (addr j) (query j) st (fnc_cfg f);
       Some (st\<lparr>fncs := db_upd j (\<lambda>f. f\<lparr>fnc_cfg := g\<rparr>) (fncs st)\<rparr>)
     }
   }) [0..<length (db_tab (fncs st))] st"

section \<open>Accesses to variables\<close>

text \<open>
  The reference: the accesses of an instruction to local variables in the order in which they happen, read off
  its operands.  A variable is overwritten by a destination without accessors; a pointer with a known target
  that is dereferenced as a whole gives an access to its target as well.
\<close>

datatype access = Reads int | Overwrites int

primrec access_uid :: "access \<Rightarrow> int" where
  "access_uid (Reads u) = u"
| "access_uid (Overwrites u) = u"

definition var_access :: "svar \<Rightarrow> bool \<Rightarrow> bool \<Rightarrow> access list" where
  "var_access v dst field =
     (if \<not> isLcVar v then [] else if \<not> dst then [Reads (sv_uid v)] else if field then [] else [Overwrites (sv_uid v)])"

fun ac_deref :: "cl_accessor \<Rightarrow> bool" where
  "ac_deref (CL_ACCESSOR_DEREF t) = True"
| "ac_deref (CL_ACCESSOR_DEREF_ARRAY t i) = True"
| "ac_deref _ = False"

fun ac_field :: "cl_accessor \<Rightarrow> bool" where
  "ac_field (CL_ACCESSOR_ITEM t n) = True"
| "ac_field (CL_ACCESSOR_OFFSET t n) = True"
| "ac_field _ = False"

definition own_accesses :: "storage \<Rightarrow> TAliasMap \<Rightarrow> cl_operand \<Rightarrow> bool \<Rightarrow> access list" where
  "own_accesses st al op dst =
     (if \<not> isLcVar_op op then []
      else case varIdFromOperand op of None \<Rightarrow> [] | Some uid \<Rightarrow>
        (case var_of st uid of None \<Rightarrow> [] | Some v \<Rightarrow>
          let deref = list_ex ac_deref (op_accessor op); field = list_ex ac_field (op_accessor op)
          in var_access v (dst \<and> \<not> deref) field @
             (if deref \<and> \<not> field
              then (case omap_find al (sv_uid v) of None \<Rightarrow> [] | Some tgt \<Rightarrow>
                     (case var_of st tgt of None \<Rightarrow> [] | Some w \<Rightarrow> var_access w dst False))
              else [])))"

fun op_accesses :: "storage \<Rightarrow> TAliasMap \<Rightarrow> cl_operand \<Rightarrow> bool \<Rightarrow> access list"
  and index_accesses :: "storage \<Rightarrow> TAliasMap \<Rightarrow> cl_accessor list \<Rightarrow> access list" where
  "op_accesses st al CL_OPERAND_VOID dst = []"
| "op_accesses st al (CL_OPERAND_CST sc t acs c) dst = index_accesses st al acs"
| "op_accesses st al (CL_OPERAND_VAR sc t acs v) dst =
     index_accesses st al acs @ own_accesses st al (CL_OPERAND_VAR sc t acs v) dst"
| "index_accesses st al [] = []"
| "index_accesses st al (CL_ACCESSOR_DEREF_ARRAY t ix # acs) = op_accesses st al ix False @ index_accesses st al acs"
| "index_accesses st al (ac # acs) = index_accesses st al acs"

text \<open>Sources are accessed before the destination.\<close>

definition insn_accesses :: "storage \<Rightarrow> TAliasMap \<Rightarrow> insn \<Rightarrow> access list" where
  "insn_accesses st al i = (
     if in_code i \<in> {CL_INSN_UNOP, CL_INSN_BINOP} \<or> in_code i = CL_INSN_CALL \<and> isBuiltInCall i = Some False
     then concat (rev (map (\<lambda>op. op_accesses st al op False) (tl (operands i)))) @ op_accesses st al (hd (operands i)) True
     else if in_code i \<in> {CL_INSN_CLOBBER, CL_INSN_RET, CL_INSN_COND, CL_INSN_SWITCH}
     then op_accesses st al (hd (operands i)) (in_code i = CL_INSN_CLOBBER)
     else [])"

section \<open>Scanning follows the accesses\<close>

primrec bd_access :: "access \<Rightarrow> block_data \<Rightarrow> block_data" where
  "bd_access (Reads u) bd = (if u \<in> bd_kill bd then bd else bd\<lparr>bd_gen := insert u (bd_gen bd)\<rparr>)"
| "bd_access (Overwrites u) bd = (if u \<in> bd_kill bd then bd else bd\<lparr>bd_kill := insert u (bd_kill bd)\<rparr>)"

lemma scanVar_access: "scanVar v dst field bd = fold bd_access (var_access v dst field) bd"
  by (simp add: scanVar_def var_access_def)

lemma scanAccessors_flags:
  "scanAccessors st al acs dst field deref bd = Some ((dst', field', deref'), bd') \<Longrightarrow>
     dst' = (dst \<and> \<not> list_ex ac_deref acs) \<and> field' = (field \<or> list_ex ac_field acs) \<and>
     deref' = (deref \<or> list_ex ac_deref acs)"
proof (induction acs arbitrary: dst field deref bd dst' field' deref' bd')
  case (Cons ac acs)
  show ?case using Cons.prems by (cases ac) (auto dest!: Cons.IH elim!: bind_SomeE split: if_splits)
qed simp

lemma scan_accesses:
  "scanOperand st al op dst bd = Some bd' \<Longrightarrow> bd' = fold bd_access (op_accesses st al op dst) bd"
  "scanAccessors st al acs dst field deref bd = Some (fl, bd') \<Longrightarrow> bd' = fold bd_access (index_accesses st al acs) bd"
proof (induction st al op dst bd and st al acs dst field deref bd arbitrary: bd' and fl bd'
    rule: scanOperand_scanAccessors.induct)
  case (2 st al sc t acs c upDst bd)
  then show ?case by (auto elim!: bind_SomeE)
next
  case (3 st al sc t acs v upDst bd)
  from 3(2) obtain d f r bd1 where a: "scanAccessors st al acs upDst False False bd = Some ((d, f, r), bd1)"
    and rest: "(if \<not> isLcVar_op (CL_OPERAND_VAR sc t acs v) then Some bd1
     else do {
       var \<leftarrow> var_of st (cv_uid v);
       let bd = scanVar var d f bd1;
       if \<not> r then Some bd
       else if \<not> f then scanTarget st al var upDst bd
       else Some bd
     }) = Some bd'"
    by (auto elim!: bind_SomeE)
  have b: "bd1 = fold bd_access (index_accesses st al acs) bd" by (rule 3(1) [OF a])
  have fl: "d = (upDst \<and> \<not> list_ex ac_deref acs)" "f = list_ex ac_field acs" "r = list_ex ac_deref acs"
    using scanAccessors_flags [OF a] by auto
  show ?case
    using rest unfolding b fl
    by (auto simp: own_accesses_def scanVar_access scanTarget_def Let_def elim!: bind_SomeE split: if_splits option.splits)
next
  case (5 st al ac acs dst field deref bd)
  then show ?case by (cases fl; cases ac) (auto elim!: bind_SomeE)
qed simp_all

lemma scan_any:
  "scanOperand st al op dst bd \<noteq> None \<Longrightarrow> scanOperand st al op dst bd2 \<noteq> None"
  "scanAccessors st al acs dst field deref bd \<noteq> None \<Longrightarrow>
     \<exists>fl bd'. scanAccessors st al acs dst field deref bd2 = Some (fl, bd')"
proof (induction st al op dst bd and st al acs dst field deref bd arbitrary: bd2 and bd2
    rule: scanOperand_scanAccessors.induct)
  case (2 st al sc t acs c upDst bd)
  from 2(2) have "scanAccessors st al acs upDst False False bd \<noteq> None" by (intro notI) simp
  from 2(1) [OF this, of bd2] show ?case by auto
next
  case (3 st al sc t acs v upDst bd)
  from 3(2) have n: "scanAccessors st al acs upDst False False bd \<noteq> None" by (intro notI) simp
  then obtain fl bd1 where a: "scanAccessors st al acs upDst False False bd = Some (fl, bd1)" by auto
  from 3(1) [OF n, of bd2] obtain fl' bd1' where b: "scanAccessors st al acs upDst False False bd2 = Some (fl', bd1')"
    by blast
  have "fl' = fl" using scanAccessors_flags [of st al acs upDst False False bd] scanAccessors_flags [of st al acs upDst False False bd2]
    a b by (metis prod_cases3)
  with 3(2) a b show ?case
    by (cases fl; cases "var_of st (cv_uid v)") (auto simp: scanTarget_def Let_def elim!: bind_SomeE split: if_splits option.splits)
next
  case (5 st al ac acs dst field deref bd)
  obtain u where u: "(if dst then do { r \<leftarrow> seekRefAccessor (ac # acs); cl_break_if r } else Some ()) = Some u"
    using 5(7) by (cases "(if dst then do { r \<leftarrow> seekRefAccessor (ac # acs); cl_break_if r } else Some ())") simp_all
  show ?case
  proof (cases ac)
    case (CL_ACCESSOR_DEREF_ARRAY t ix)
    with 5(7) u obtain b1 where b1: "scanOperand st al ix False bd = Some b1"
      "scanAccessors st al acs False field True b1 \<noteq> None"
      by (cases "scanOperand st al ix False bd") (simp_all split: if_splits)
    from 5(3) [OF u CL_ACCESSOR_DEREF_ARRAY, of bd2] b1 obtain b2 where b2: "scanOperand st al ix False bd2 = Some b2" by auto
    from 5(4) [OF u CL_ACCESSOR_DEREF_ARRAY b1(1,2), of b2] b2 u CL_ACCESSOR_DEREF_ARRAY show ?thesis by (auto elim!: bind_SomeE split: if_splits)
  qed (use 5(1,2,5,6,7) u in \<open>fastforce\<close>)+
qed simp_all

lemma ofold_fold:
  assumes "\<And>x s t. x \<in> set xs \<Longrightarrow> f x s = Some t \<Longrightarrow> t = g x s" "ofold f xs s = Some t"
  shows "t = fold g xs s"
  using assms by (induction xs arbitrary: s) (auto simp: bind_eq_Some_conv)

lemma ofold_any:
  assumes "\<And>x s s2. x \<in> set xs \<Longrightarrow> f x s \<noteq> None \<Longrightarrow> f x s2 \<noteq> None" "ofold f xs s \<noteq> None"
  shows "ofold f xs s2 \<noteq> None"
  using assms
proof (induction xs arbitrary: s s2)
  case (Cons x xs)
  from Cons.prems(2) obtain t where t: "f x s = Some t" "ofold f xs t \<noteq> None" by (auto simp: bind_eq_None_conv)
  from Cons.prems(1) [of x s s2] t obtain t2 where "f x s2 = Some t2" by auto
  moreover have "ofold f xs t2 \<noteq> None" by (rule Cons.IH [OF _ t(2)]) (use Cons.prems(1) in auto)
  ultimately show ?case by simp
qed simp

lemma fold_concat_map: "fold (\<lambda>x. fold f (g x)) xs s = fold f (concat (map g xs)) s"
  by (induction xs arbitrary: s) simp_all

lemma map_hd_tl_index:
  "ops \<noteq> [] \<Longrightarrow> map (\<lambda>n. F (ops ! n) (n = 0)) [0..<length ops] = F (hd ops) True # map (\<lambda>op. F op False) (tl ops)"
proof (cases ops)
  case (Cons a as)
  have "map (\<lambda>n. F (ops ! n) (n = 0)) [0..<length ops] =
      F a True # map (\<lambda>n. F (as ! n) False) [0..<length as]"
    unfolding Cons by (simp add: upt_conv_Cons map_Suc_upt [symmetric] o_def del: upt_Suc)
  also have "map (\<lambda>n. F (as ! n) False) [0..<length as] = map (\<lambda>op. F op False) as"
    by (rule nth_equalityI) auto
  finally show ?thesis using Cons by simp
qed simp

lemma scanOperands_accesses:
  assumes "scanOperands st al i bd = Some bd'"
  shows "bd' = fold bd_access (concat (rev (map (\<lambda>op. op_accesses st al op False) (tl (operands i)))) @
     op_accesses st al (hd (operands i)) True) bd"
proof -
  from assms have ne: "operands i \<noteq> []"
    and o: "ofold (\<lambda>n. scanOperand st al (operands i ! n) (n = 0)) (rev [0..<length (operands i)]) bd = Some bd'"
    by (auto simp: scanOperands_def)
  have "bd' = fold (\<lambda>n. fold bd_access (op_accesses st al (operands i ! n) (n = 0))) (rev [0..<length (operands i)]) bd"
    by (rule ofold_fold [OF _ o]) (rule scan_accesses(1))
  also have "\<dots> = fold bd_access (concat (rev (map (\<lambda>n. op_accesses st al (operands i ! n) (n = 0)) [0..<length (operands i)]))) bd"
    by (simp add: fold_concat_map rev_map)
  finally show ?thesis
    unfolding map_hd_tl_index [OF ne, of "op_accesses st al"] by simp
qed

lemma scanInsn_accesses:
  assumes "scanInsn st al i bd = Some bd'"
  shows "bd' = fold bd_access (insn_accesses st al i) bd"
  using assms
  by (cases "in_code i")
    (auto simp: scanInsn_def insn_accesses_def isBuiltInCall_def elim!: bind_SomeE
      dest!: scanOperands_accesses scan_accesses(1) split: if_splits list.splits)

lemma scanInsn_any:
  assumes "scanInsn st al i bd \<noteq> None"
  shows "scanInsn st al i bd2 = Some (fold bd_access (insn_accesses st al i) bd2)"
proof -
  have o: "scanOperands st al i bd \<noteq> None \<Longrightarrow> scanOperands st al i bd2 \<noteq> None"
    using ofold_any [of "rev [0..<length (operands i)]" "\<lambda>n. scanOperand st al (operands i ! n) (n = 0)" bd bd2]
      scan_any(1) unfolding scanOperands_def by simp
  have "scanInsn st al i bd2 \<noteq> None"
    using assms o scan_any(1) [of st al _ _ bd bd2]
    by (cases "in_code i") (auto simp: scanInsn_def isBuiltInCall_def split: if_splits list.splits)
  then show ?thesis using scanInsn_accesses by fastforce
qed

section \<open>First accesses\<close>

definition first_access :: "int \<Rightarrow> access list \<Rightarrow> access option" where
  "first_access uid as = find (\<lambda>a. access_uid a = uid) as"

lemma first_access_simps [simp]:
  "first_access uid [] = None"
  "first_access uid (a # as) = (if access_uid a = uid then Some a else first_access uid as)"
  by (simp_all add: first_access_def)

lemma first_access_append:
  "first_access uid (as @ bs) = (case first_access uid as of None \<Rightarrow> first_access uid bs | Some a \<Rightarrow> Some a)"
  by (induction as) auto

lemma first_access_None: "first_access uid as = None \<longleftrightarrow> uid \<notin> access_uid ` set as"
  by (induction as) auto

lemma first_access_Some: "first_access uid as = Some a \<Longrightarrow> a = Reads uid \<or> a = Overwrites uid"
  by (induction as) (auto split: if_splits, metis access.exhaust access_uid.simps)

definition overwritten :: "access list \<Rightarrow> int set" where
  "overwritten as = {u. Overwrites u \<in> set as}"

definition read_first :: "access list \<Rightarrow> int set" where
  "read_first as = {u. first_access u as = Some (Reads u)}"

lemma fold_bd_access:
  "bd_kill (fold bd_access as bd) = bd_kill bd \<union> overwritten as"
  "bd_gen (fold bd_access as bd) = bd_gen bd \<union> (read_first as - bd_kill bd)"
proof (induction as arbitrary: bd)
  case (Cons a as)
  { case 1 then show ?case using Cons.IH(1) by (cases a) (auto simp: overwritten_def) }
  { case 2 then show ?case using Cons.IH(2) by (cases a) (auto simp: read_first_def) }
qed (simp_all add: overwritten_def read_first_def)

lemma access_sets_subset: "overwritten as \<subseteq> access_uid ` set as" "read_first as \<subseteq> access_uid ` set as"
proof -
  show "overwritten as \<subseteq> access_uid ` set as" by (force simp: overwritten_def)
  have "u \<in> access_uid ` set as" if "first_access u as = Some a" for u a
    using that first_access_None [of u as] by simp
  then show "read_first as \<subseteq> access_uid ` set as" by (auto simp: read_first_def)
qed

lemma access_sets_finite: "finite (overwritten as)" "finite (read_first as)"
proof -
  show "finite (overwritten as)" "finite (read_first as)" using access_sets_subset [of as] by (auto dest: finite_subset)
qed

lemma access_sets_union: "overwritten as \<union> read_first as = access_uid ` set as"
proof
  show "overwritten as \<union> read_first as \<subseteq> access_uid ` set as"
    using access_sets_subset by blast
  show "access_uid ` set as \<subseteq> overwritten as \<union> read_first as"
  proof
    fix u assume "u \<in> access_uid ` set as"
    then have "first_access u as \<noteq> None" by (simp add: first_access_None)
    then obtain a where a: "first_access u as = Some a" by auto
    then have "a \<in> set as" by (auto simp: first_access_def find_Some_iff)
    with first_access_Some [OF a] a show "u \<in> overwritten as \<union> read_first as"
      by (auto simp: overwritten_def read_first_def)
  qed
qed

end
