(* ===== verification/VarLive.thy ===== *)
theory VarLive
  imports VarKiller
begin

text \<open>
  Live variables of a function, and the fixed point that the variable killer computes for every block
  (\<open>computeFixPoint\<close> of \<open>src/cl/killer.cc\<close>): it is reached, and it is the set of live variables.
\<close>

section \<open>Graphs the killer works on\<close>

text \<open>A graph of the builder, with or without the marks of the loop scan.\<close>

definition kill_ready :: "cfg \<Rightarrow> bool" where
  "kill_ready h \<longleftrightarrow> (\<exists>g L. cfg_done g \<and> ls_ext g L h)"

lemma kill_ready_block:
  assumes "kill_ready h" "u \<in> cfg_blocks h"
  shows "\<exists>is i. bb_insns (blk h u) = is @ [i] \<and> is_term i \<and> cfg_succs h u = targets i \<and>
      bb_targets h u = Some (targets i) \<and> Block_targets (blk h u) = Some (targets i) \<and>
      bb_inbound h u = Some (cfg_preds h u) \<and>
      (\<forall>x \<in> set (is @ [i]). varsToKill x = [] \<and> killPerTarget x = replicate (length (targets x)) [])"
proof -
  from assms obtain g L where g: "cfg_done g" and l: "ls_ext g L h" by (auto simp: kill_ready_def)
  have u: "u \<in> cfg_blocks g" using l assms(2) by (simp add: ls_ext_def)
  from cfg_done_block [OF g u] obtain "is" i where i: "bb_insns (blk g u) = is @ [i]" "is_term i"
    "\<forall>x \<in> set (is @ [i]). varsToKill x = [] \<and> loopClosingTargets x = [] \<and> killPerTarget x = replicate (length (targets x)) []"
    by blast
  from l u i(1) obtain ks where ks: "bb_insns (blk h u) = is @ [i\<lparr>loopClosingTargets := ks\<rparr>]"
    unfolding ls_ext_def by fastforce
  have t: "bb_targets h u = Some (targets i)"
    using ks i(2) by (simp add: bb_targets_def bb_at_in [OF assms(2)] Block_targets_def Block_back_def is_term_def)
  show ?thesis
    using ks i t by (intro exI [of _ "is"] exI [of _ "i\<lparr>loopClosingTargets := ks\<rparr>"])
      (auto simp: is_term_def cfg_succs_def cfg_preds_def bb_inbound_def bb_at_in [OF assms(2)] Block_targets_def Block_back_def)
qed

lemma ls_ext_graph:
  assumes "cfg_done g" "ls_ext g L h"
  shows "cfg_blocks h = cfg_blocks g" "u \<in> cfg_blocks g \<Longrightarrow> cfg_succs h u = cfg_succs g u"
    "u \<in> cfg_blocks g \<Longrightarrow> cfg_preds h u = cfg_preds g u"
proof -
  show b: "cfg_blocks h = cfg_blocks g" using assms(2) by (simp add: ls_ext_def)
  show "cfg_succs h u = cfg_succs g u" if "u \<in> cfg_blocks g"
    using ls_ext_targets(1) [OF assms that] by (simp add: cfg_succs_def)
  show "cfg_preds h u = cfg_preds g u" if "u \<in> cfg_blocks g"
    using ls_ext_targets(2) [OF assms that] that b by (simp add: cfg_preds_def bb_inbound_def bb_at_in)
qed

interpretation fk: flow_graph kill_ready cfg_blocks cfg_succs cfg_preds
proof
  fix h u v
  assume "kill_ready h"
  then obtain g L where g: "cfg_done g" and l: "ls_ext g L h" by (auto simp: kill_ready_def)
  note e = ls_ext_graph [OF g l]
  show "finite (cfg_blocks h)" by (simp add: cfg_blocks_def)
  assume u: "u \<in> cfg_blocks h"
  show "set (cfg_succs h u) \<subseteq> cfg_blocks h" "set (cfg_preds h u) \<subseteq> cfg_blocks h"
    using u fg.succs_nodes [OF g, of u] fg.preds_nodes [OF g, of u] by (simp_all add: e)
  assume "v \<in> cfg_blocks h"
  then show "count_list (cfg_preds h v) u = count_list (cfg_succs h u) v"
    using u fg.preds_count [OF g, of u v] by (simp add: e)
qed

section \<open>Live variables\<close>

text \<open>
  The reference: a variable is live before the instruction at index \<open>k\<close> of a block if there is a path from there on
  which the variable is read before it is overwritten, or to the end of the function when the
  caller may see it through a pointer.
\<close>

definition acc_at :: "storage \<Rightarrow> TAliasMap \<Rightarrow> cfg \<Rightarrow> TBlock \<Rightarrow> nat \<Rightarrow> access list" where
  "acc_at st al g u k = insn_accesses st al (bb_insns (blk g u) ! k)"

inductive live_at :: "storage \<Rightarrow> TAliasMap \<Rightarrow> cfg \<Rightarrow> TBlock \<Rightarrow> nat \<Rightarrow> int \<Rightarrow> bool" for st al g where
  read_here: "k < length (bb_insns (blk g u)) \<Longrightarrow> first_access x (acc_at st al g u k) = Some (Reads x) \<Longrightarrow>
    live_at st al g u k x"
| untouched: "k < length (bb_insns (blk g u)) \<Longrightarrow> first_access x (acc_at st al g u k) = None \<Longrightarrow>
    live_at st al g u (k + 1) x \<Longrightarrow> live_at st al g u k x"
| successor: "k = length (bb_insns (blk g u)) \<Longrightarrow> v \<in> set (cfg_succs g u) \<Longrightarrow> live_at st al g v 0 x \<Longrightarrow>
    live_at st al g u k x"
| at_exit: "k = length (bb_insns (blk g u)) \<Longrightarrow> cfg_succs g u = [] \<Longrightarrow> x \<in> set (map snd al) \<Longrightarrow>
    live_at st al g u k x"

inductive_cases live_atE: "live_at st al g u k x"

text \<open>The accesses from the instruction at index \<open>k\<close> to the end of the block.\<close>

definition acc_from :: "storage \<Rightarrow> TAliasMap \<Rightarrow> cfg \<Rightarrow> TBlock \<Rightarrow> nat \<Rightarrow> access list" where
  "acc_from st al g u k = concat (map (insn_accesses st al) (drop k (bb_insns (blk g u))))"

lemma acc_from_step:
  "k < length (bb_insns (blk g u)) \<Longrightarrow> acc_from st al g u k = acc_at st al g u k @ acc_from st al g u (k + 1)"
  by (simp add: acc_from_def acc_at_def Cons_nth_drop_Suc [symmetric])

lemma acc_from_end: "length (bb_insns (blk g u)) \<le> k \<Longrightarrow> acc_from st al g u k = []"
  by (simp add: acc_from_def)

text \<open>Liveness inside a block, given the variables that are live where it ends.\<close>

definition live_out :: "storage \<Rightarrow> TAliasMap \<Rightarrow> cfg \<Rightarrow> TBlock \<Rightarrow> int \<Rightarrow> bool" where
  "live_out st al g u x \<longleftrightarrow> live_at st al g u (length (bb_insns (blk g u))) x"

lemma live_out_iff:
  "live_out st al g u x \<longleftrightarrow> (\<exists>v \<in> set (cfg_succs g u). live_at st al g v 0 x) \<or>
     cfg_succs g u = [] \<and> x \<in> set (map snd al)"
proof
  assume "live_out st al g u x"
  then show "(\<exists>v \<in> set (cfg_succs g u). live_at st al g v 0 x) \<or> cfg_succs g u = [] \<and> x \<in> set (map snd al)"
    unfolding live_out_def by (cases rule: live_at.cases) auto
qed (auto simp: live_out_def simp del: set_map intro: live_at.successor live_at.at_exit)

lemma live_at_iff:
  assumes "k \<le> length (bb_insns (blk g u))"
  shows "live_at st al g u k x \<longleftrightarrow> first_access x (acc_from st al g u k) = Some (Reads x) \<or>
     first_access x (acc_from st al g u k) = None \<and> live_out st al g u x"
  using assms
proof (induction rule: inc_induct)
  case base
  then show ?case by (simp add: acc_from_end live_out_def)
next
  case (step k)
  have k: "k < length (bb_insns (blk g u))" using step by simp
  have "live_at st al g u k x \<longleftrightarrow> first_access x (acc_at st al g u k) = Some (Reads x) \<or>
     first_access x (acc_at st al g u k) = None \<and> live_at st al g u (k + 1) x"
    using k by (auto elim: live_atE intro: live_at.read_here live_at.untouched)
  then show ?case using step.IH k
    by (auto simp: acc_from_step first_access_append split: option.splits)
qed

lemma live_at_start:
  "live_at st al g u 0 x \<longleftrightarrow> x \<in> read_first (acc_from st al g u 0) \<or>
     x \<notin> overwritten (acc_from st al g u 0) \<and> live_out st al g u x"
proof -
  have "first_access x as = None \<or> first_access x as = Some (Reads x) \<or> x \<in> overwritten as" for as
    using access_sets_union [of as] first_access_None [of x as] by (auto simp: read_first_def)
  moreover have "first_access x as = None \<Longrightarrow> x \<notin> overwritten as" for as
    using access_sets_subset [of as] first_access_None [of x as] by auto
  ultimately show ?thesis using live_at_iff [of 0 g u st al x] by (auto simp: read_first_def)
qed

section \<open>The fixed point\<close>

definition scans :: "storage \<Rightarrow> TAliasMap \<Rightarrow> cfg \<Rightarrow> bool" where
  "scans st al g \<longleftrightarrow> (\<forall>b \<in> set (db_tab g). \<forall>i \<in> set (bb_insns b). scanInsn st al i bd_empty \<noteq> None)"

lemma scans_insn:
  assumes "scans st al g" "u \<in> cfg_blocks g" "i \<in> set (bb_insns (blk g u))"
  shows "scanInsn st al i bd = Some (fold bd_access (insn_accesses st al i) bd)"
proof -
  have "blk g u \<in> set (db_tab g)" using assms(2) by (auto simp: blk_def cfg_blocks_def)
  with assms show ?thesis unfolding scans_def by (blast intro: scanInsn_any)
qed

definition gen0 :: "storage \<Rightarrow> TAliasMap \<Rightarrow> cfg \<Rightarrow> TBlock \<Rightarrow> int set" where
  "gen0 st al g u = read_first (acc_from st al g u 0) \<union>
     (if cfg_succs g u = [] then set (map snd al) - overwritten (acc_from st al g u 0) else {})"

abbreviation kill0 :: "storage \<Rightarrow> TAliasMap \<Rightarrow> cfg \<Rightarrow> TBlock \<Rightarrow> int set" where
  "kill0 st al g u \<equiv> overwritten (acc_from st al g u 0)"

lemma gen0_finite: "finite (gen0 st al g u)"
  by (simp add: gen0_def access_sets_finite)

lemma gen0_live: "x \<in> gen0 st al g u \<Longrightarrow> live_at st al g u 0 x"
  unfolding gen0_def live_at_start [of st al g u x] live_out_iff [of st al g u x] by (auto split: if_splits)

lemma set_todo_insert: "inj addr \<Longrightarrow> set (todo_insert addr x xs) = insert x (set xs)"
  by (auto simp: todo_insert_def insort_insert_key_def set_insort_key dest: injD)

lemma set_todo_fold: "inj addr \<Longrightarrow> set (fold (todo_insert addr) ys xs) = set ys \<union> set xs"
  by (induction ys arbitrary: xs) (auto simp: set_todo_insert)

lemma scanBlock_result:
  assumes "kill_ready h" "scans st al h" "inj addr" "u \<in> cfg_blocks h" "vk_blocks d u = bd_empty"
  shows "\<exists>wl. scanBlock addr st al h u d = Some (d\<lparr>vk_blocks := (vk_blocks d)(u :=
     \<lparr>bd_gen = gen0 st al h u, bd_kill = kill0 st al h u\<rparr>), vk_todo := wl\<rparr>) \<and> set wl = insert u (set (vk_todo d))"
proof -
  let ?A = "acc_from st al h u 0"
  have "ofold (scanInsn st al) (bb_insns (blk h u)) bd_empty \<noteq> None"
    using ofold_total [where P = "\<lambda>_. True" and f = "scanInsn st al" and s = bd_empty] scans_insn [OF assms(2,4)]
    by (metis option.distinct(1))
  then obtain bd where bd: "ofold (scanInsn st al) (bb_insns (blk h u)) bd_empty = Some bd" by auto
  have "bd = fold (\<lambda>i. fold bd_access (insn_accesses st al i)) (bb_insns (blk h u)) bd_empty"
    by (rule ofold_fold [OF _ bd]) (rule scanInsn_accesses)
  then have e: "bd = fold bd_access ?A bd_empty" by (simp add: fold_concat_map acc_from_def)
  have p: "presetLive al (cfg_succs h u) bd = \<lparr>bd_gen = gen0 st al h u, bd_kill = kill0 st al h u\<rparr>"
    by (rule block_data.equality) (auto simp: presetLive_def e fold_bd_access gen0_def bd_empty_def)
  obtain ts where ts: "bb_targets h u = Some ts" "cfg_succs h u = ts" using kill_ready_block [OF assms(1,4)] by auto
  show ?thesis
    using bd p ts set_todo_insert [OF assms(3)]
    by (intro exI [of _ "todo_insert addr u (vk_todo d)"]) (simp add: scanBlock_def bb_at_in [OF assms(4)] assms(5))
qed

lemma scan_all:
  assumes "kill_ready h" "scans st al h" "inj addr" "n \<le> length (db_tab h)"
  shows "\<exists>d. ofold (scanBlock addr st al h) [1..<n + 1] vk_init = Some d \<and> set (vk_todo d) = {1..n} \<and>
    (\<forall>u. vk_blocks d u = (if u \<in> {1..n} then \<lparr>bd_gen = gen0 st al h u, bd_kill = kill0 st al h u\<rparr> else bd_empty))"
  using assms(4)
proof (induction n)
  case (Suc n)
  then obtain d where d: "ofold (scanBlock addr st al h) [1..<n + 1] vk_init = Some d" "set (vk_todo d) = {1..n}"
    "\<forall>u. vk_blocks d u = (if u \<in> {1..n} then \<lparr>bd_gen = gen0 st al h u, bd_kill = kill0 st al h u\<rparr> else bd_empty)"
    by auto
  have "Suc n \<in> cfg_blocks h" "vk_blocks d (Suc n) = bd_empty" using Suc.prems d(3) by (simp_all add: cfg_blocks_def)
  from scanBlock_result [OF assms(1-3) this] obtain wl where w: "scanBlock addr st al h (Suc n) d =
      Some (d\<lparr>vk_blocks := (vk_blocks d)(Suc n := \<lparr>bd_gen = gen0 st al h (Suc n), bd_kill = kill0 st al h (Suc n)\<rparr>),
        vk_todo := wl\<rparr>)" "set wl = insert (Suc n) (set (vk_todo d))" by blast
  have r: "[1..<Suc n + 1] = [1..<n + 1] @ [Suc n]" by simp
  show ?case
    unfolding r ofold_append d(1) using w d(2,3) by (auto simp: atLeastAtMostSuc_conv)
qed (simp add: vk_init_def)

lemma updateVar_fold:
  "fold (updateVar bb) xs (bl, c) =
     (bl(bb := (bl bb)\<lparr>bd_gen := bd_gen (bl bb) \<union> (set xs - bd_kill (bl bb))\<rparr>),
      c \<or> \<not> set xs \<subseteq> bd_kill (bl bb) \<union> bd_gen (bl bb))"
proof (induction xs arbitrary: bl c)
  case (Cons x xs)
  have g: "x \<in> bd_kill (bl bb) \<or> x \<in> bd_gen (bl bb) \<Longrightarrow>
      bd_gen (bl bb) \<union> (set (x # xs) - bd_kill (bl bb)) = bd_gen (bl bb) \<union> (set xs - bd_kill (bl bb))" by auto
  have n: "x \<notin> bd_kill (bl bb) \<Longrightarrow>
      bd_gen (bl bb) \<union> (set (x # xs) - bd_kill (bl bb)) = insert x (bd_gen (bl bb)) \<union> (set xs - bd_kill (bl bb))" by auto
  show ?case
  proof (cases "x \<in> bd_kill (bl bb) \<or> x \<in> bd_gen (bl bb)")
    case True
    then have "updateVar bb x (bl, c) = (bl, c)" by (auto simp: updateVar_def)
    with g [OF True] True show ?thesis using Cons.IH [of bl c] by auto
  next
    case False
    then have u: "updateVar bb x (bl, c) = (bl(bb := (bl bb)\<lparr>bd_gen := insert x (bd_gen (bl bb))\<rparr>), True)"
      by (simp add: updateVar_def)
    have x: "x \<notin> bd_kill (bl bb)" using False by simp
    show ?thesis unfolding n [OF x] using False by (simp add: u Cons.IH fun_eq_iff)
  qed
qed simp

definition new_gen :: "(TBlock \<Rightarrow> block_data) \<Rightarrow> TBlock \<Rightarrow> TBlock list \<Rightarrow> int set" where
  "new_gen bl bb ts = bd_gen (bl bb) \<union> ((\<Union>t \<in> set ts. bd_gen (bl t)) - bd_kill (bl bb))"

lemma updateFrom_fold:
  assumes "\<forall>t. finite (bd_gen (bl t))"
  shows "fold (updateFrom bb) ts (bl, c) = (bl(bb := (bl bb)\<lparr>bd_gen := new_gen bl bb ts\<rparr>),
     c \<or> new_gen bl bb ts \<noteq> bd_gen (bl bb))"
  using assms
proof (induction ts arbitrary: bl c)
  case Nil
  then show ?case by (simp add: new_gen_def)
next
  case (Cons t ts)
  let ?b = "bl(bb := (bl bb)\<lparr>bd_gen := bd_gen (bl bb) \<union> (bd_gen (bl t) - bd_kill (bl bb))\<rparr>)"
  have s: "updateFrom bb t (bl, c) = (?b, c \<or> \<not> bd_gen (bl t) \<subseteq> bd_kill (bl bb) \<union> bd_gen (bl bb))"
    using Cons.prems by (simp add: updateFrom_def updateVar_fold)
  have f: "\<forall>t. finite (bd_gen (?b t))" using Cons.prems by simp
  have n: "new_gen ?b bb ts = new_gen bl bb (t # ts)"
    by (auto simp: new_gen_def split: if_splits)
  have "bd_gen (bl bb) \<subseteq> bd_gen (?b bb)" "bd_gen (?b bb) \<subseteq> new_gen ?b bb ts" by (auto simp: new_gen_def)
  then have c: "(\<not> bd_gen (bl t) \<subseteq> bd_kill (bl bb) \<union> bd_gen (bl bb)) \<or> new_gen ?b bb ts \<noteq> bd_gen (?b bb) \<longleftrightarrow>
      new_gen ?b bb ts \<noteq> bd_gen (bl bb)" by auto
  have "fold (updateFrom bb) (t # ts) (bl, c) =
      (?b(bb := (?b bb)\<lparr>bd_gen := new_gen ?b bb ts\<rparr>), (c \<or> \<not> bd_gen (bl t) \<subseteq> bd_kill (bl bb) \<union> bd_gen (bl bb)) \<or>
        new_gen ?b bb ts \<noteq> bd_gen (?b bb))"
    unfolding fold_simps(2) s by (rule Cons.IH [OF f])
  also have "\<dots> = (bl(bb := (bl bb)\<lparr>bd_gen := new_gen ?b bb ts\<rparr>), c \<or> new_gen ?b bb ts \<noteq> bd_gen (bl bb))"
    using c by (simp add: fun_eq_iff)
  finally show ?case unfolding n .
qed

lemma updateBlock_result:
  assumes "kill_ready h" "u \<in> cfg_blocks h" "\<forall>t. finite (bd_gen (vk_blocks d t))"
  shows "updateBlock addr h u d = Some (
    let n = new_gen (vk_blocks d) u (cfg_succs h u)
    in d\<lparr>vk_blocks := (vk_blocks d)(u := (vk_blocks d u)\<lparr>bd_gen := n\<rparr>),
         vk_todo := (if n = bd_gen (vk_blocks d u) then vk_todo d else fold (todo_insert addr) (cfg_preds h u) (vk_todo d))\<rparr>)"
proof -
  obtain ts where t: "bb_targets h u = Some ts" "cfg_succs h u = ts" "bb_inbound h u = Some (cfg_preds h u)"
    using kill_ready_block [OF assms(1,2)] by auto
  show ?thesis
    by (simp add: updateBlock_def t updateFrom_fold [OF assms(3)] Let_def)
qed

definition uses :: "storage \<Rightarrow> TAliasMap \<Rightarrow> cfg \<Rightarrow> int set" where
  "uses st al g = (\<Union>u \<in> cfg_blocks g. gen0 st al g u)"

lemma uses_finite: "finite (uses st al g)"
  by (simp add: uses_def gen0_finite cfg_blocks_def)

text \<open>
  The invariant of the loop: what is generated is live, it comes from the accesses of the function, and only the blocks
  that wait may miss something of their successors.
\<close>

definition fix_inv :: "storage \<Rightarrow> TAliasMap \<Rightarrow> cfg \<Rightarrow> vk_data \<Rightarrow> bool" where
  "fix_inv st al g d \<longleftrightarrow> set (vk_todo d) \<subseteq> cfg_blocks g \<and> (\<forall>u. finite (bd_gen (vk_blocks d u))) \<and>
     (\<forall>u \<in> cfg_blocks g. bd_kill (vk_blocks d u) = kill0 st al g u \<and> gen0 st al g u \<subseteq> bd_gen (vk_blocks d u) \<and>
        bd_gen (vk_blocks d u) \<subseteq> uses st al g \<inter> {x. live_at st al g u 0 x}) \<and>
     (\<forall>u \<in> cfg_blocks g - set (vk_todo d). \<forall>v \<in> set (cfg_succs g u).
        bd_gen (vk_blocks d v) - kill0 st al g u \<subseteq> bd_gen (vk_blocks d u))"

lemma fix_invD:
  assumes "fix_inv st al g d"
  shows "set (vk_todo d) \<subseteq> cfg_blocks g" "finite (bd_gen (vk_blocks d u))"
    and "u \<in> cfg_blocks g \<Longrightarrow> bd_kill (vk_blocks d u) = kill0 st al g u"
    and "u \<in> cfg_blocks g \<Longrightarrow> gen0 st al g u \<subseteq> bd_gen (vk_blocks d u)"
    and "u \<in> cfg_blocks g \<Longrightarrow> bd_gen (vk_blocks d u) \<subseteq> uses st al g"
    and "u \<in> cfg_blocks g \<Longrightarrow> x \<in> bd_gen (vk_blocks d u) \<Longrightarrow> live_at st al g u 0 x"
    and "u \<in> cfg_blocks g \<Longrightarrow> u \<notin> set (vk_todo d) \<Longrightarrow> v \<in> set (cfg_succs g u) \<Longrightarrow>
      bd_gen (vk_blocks d v) - kill0 st al g u \<subseteq> bd_gen (vk_blocks d u)"
  using assms unfolding fix_inv_def by auto

lemma fix_inv_init:
  assumes "kill_ready h" "scans st al h" "inj addr"
  shows "\<exists>d. ofold (scanBlock addr st al h) [1..<length (db_tab h) + 1] vk_init = Some d \<and> fix_inv st al h d"
proof -
  from scan_all [OF assms, of "length (db_tab h)"] obtain d where d: "ofold (scanBlock addr st al h) [1..<length (db_tab h) + 1] vk_init = Some d"
    "set (vk_todo d) = cfg_blocks h" "\<forall>u. vk_blocks d u = (if u \<in> cfg_blocks h
      then \<lparr>bd_gen = gen0 st al h u, bd_kill = kill0 st al h u\<rparr> else bd_empty)"
    unfolding cfg_blocks_def by blast
  then have "fix_inv st al h d"
    by (auto simp: fix_inv_def gen0_finite bd_empty_def gen0_live uses_def)
  with d(1) show ?thesis by blast
qed

definition fix_meas :: "storage \<Rightarrow> TAliasMap \<Rightarrow> cfg \<Rightarrow> vk_data \<Rightarrow> nat" where
  "fix_meas st al g d = (\<Sum>u \<in> cfg_blocks g. card (uses st al g - bd_gen (vk_blocks d u)))"

lemma new_gen_live:
  assumes "kill_ready h" "fix_inv st al h d" "u \<in> cfg_blocks h"
    and "x \<in> new_gen (vk_blocks d) u (cfg_succs h u)"
  shows "live_at st al h u 0 x" "x \<in> uses st al h"
proof -
  have s: "set (cfg_succs h u) \<subseteq> cfg_blocks h" by (rule fk.succs_nodes [OF assms(1,3)])
  note i = fix_invD [OF assms(2)]
  consider "x \<in> bd_gen (vk_blocks d u)"
    | v where "v \<in> set (cfg_succs h u)" "x \<in> bd_gen (vk_blocks d v)" "x \<notin> kill0 st al h u"
    using assms(4) i(3) [OF assms(3)] by (auto simp: new_gen_def)
  then have "live_at st al h u 0 x \<and> x \<in> uses st al h"
  proof cases
    case 1
    then show ?thesis using i(5,6) [OF assms(3)] by blast
  next
    case 2
    then have v: "v \<in> cfg_blocks h" using s by blast
    have "live_out st al h u x" using i(6) [OF v 2(2)] 2(1) unfolding live_out_iff by blast
    then show ?thesis using 2(3) i(5) [OF v] 2(2) live_at_start by blast
  qed
  then show "live_at st al h u 0 x" "x \<in> uses st al h" by auto
qed

lemma fix_inv_step:
  assumes r: "kill_ready h" and a: "inj addr" and i: "fix_inv st al h d" and t: "vk_todo d = u # rest"
  shows "\<exists>d'. updateBlock addr h u (d\<lparr>vk_todo := rest\<rparr>) = Some d' \<and> fix_inv st al h d' \<and>
    (fix_meas st al h d' < fix_meas st al h d \<or> fix_meas st al h d' = fix_meas st al h d \<and> vk_todo d' = rest)"
proof -
  let ?n = "new_gen (vk_blocks d) u (cfg_succs h u)"
  have u: "u \<in> cfg_blocks h" using fix_invD(1) [OF i] t by simp
  have gn: "bd_gen (vk_blocks d u) \<subseteq> ?n" by (auto simp: new_gen_def)
  have fn: "finite ?n" using fix_invD(2) [OF i] by (simp add: new_gen_def)
  define wl where "wl = (if ?n = bd_gen (vk_blocks d u) then rest else fold (todo_insert addr) (cfg_preds h u) rest)"
  define d' where "d' = d\<lparr>vk_todo := wl, vk_blocks := (vk_blocks d)(u := (vk_blocks d u)\<lparr>bd_gen := ?n\<rparr>)\<rparr>"
  have upd: "updateBlock addr h u (d\<lparr>vk_todo := rest\<rparr>) = Some d'"
    using updateBlock_result [OF r u, of "d\<lparr>vk_todo := rest\<rparr>" addr] fix_invD(2) [OF i]
    by (simp add: d'_def wl_def Let_def)
  have set_wl: "set wl = set rest \<union> (if ?n = bd_gen (vk_blocks d u) then {} else set (cfg_preds h u))"
    using set_todo_fold [OF a] by (auto simp: wl_def)
  have b': "vk_blocks d' v = (if v = u then (vk_blocks d u)\<lparr>bd_gen := ?n\<rparr> else vk_blocks d v)" for v
    by (simp add: d'_def)
  have "fix_inv st al h d'"
    unfolding fix_inv_def
  proof (intro conjI allI ballI)
    show "set (vk_todo d') \<subseteq> cfg_blocks h"
      using fix_invD(1) [OF i] t fk.preds_nodes [OF r u] set_wl by (auto simp: d'_def split: if_splits)
    show "finite (bd_gen (vk_blocks d' v))" for v using fn fix_invD(2) [OF i] by (simp add: b')
    fix v assume v: "v \<in> cfg_blocks h"
    show "bd_kill (vk_blocks d' v) = kill0 st al h v" using fix_invD(3) [OF i v] by (auto simp: b')
    show "gen0 st al h v \<subseteq> bd_gen (vk_blocks d' v)" using fix_invD(4) [OF i v] gn by (auto simp: b')
    show "bd_gen (vk_blocks d' v) \<subseteq> uses st al h \<inter> {x. live_at st al h v 0 x}"
      using fix_invD(5,6) [OF i v] new_gen_live [OF r i u] by (auto simp: b')
  next
    fix v w assume v: "v \<in> cfg_blocks h - set (vk_todo d')" and w: "w \<in> set (cfg_succs h v)"
    have wb: "w \<in> cfg_blocks h" using fk.succs_nodes [OF r] v w by blast
    show "bd_gen (vk_blocks d' w) - kill0 st al h v \<subseteq> bd_gen (vk_blocks d' v)"
    proof (cases "v = u")
      case True
      have "bd_gen (vk_blocks d w) - kill0 st al h u \<subseteq> ?n"
        using w True fix_invD(3) [OF i u] by (auto simp: new_gen_def)
      then show ?thesis using True by (auto simp: b')
    next
      case False
      have "v \<notin> set (vk_todo d)" using v False set_wl t by (auto simp: d'_def)
      then have old: "bd_gen (vk_blocks d w) - kill0 st al h v \<subseteq> bd_gen (vk_blocks d v)"
        using fix_invD(7) [OF i _ _ w] v by blast
      show ?thesis
      proof (cases "w = u \<and> ?n \<noteq> bd_gen (vk_blocks d u)")
        case True
        then have "v \<in> set (cfg_preds h u)" using fk.mem_preds [OF r _ u] v w by blast
        then show ?thesis using v True set_wl by (auto simp: d'_def)
      next
        case ne: False
        then show ?thesis using old False by (auto simp: b')
      qed
    qed
  qed
  moreover have "fix_meas st al h d' < fix_meas st al h d \<or> fix_meas st al h d' = fix_meas st al h d \<and> vk_todo d' = rest"
  proof (cases "?n = bd_gen (vk_blocks d u)")
    case True
    then show ?thesis by (auto simp: fix_meas_def b' d'_def wl_def intro!: sum.cong)
  next
    case False
    have "card (uses st al h - ?n) < card (uses st al h - bd_gen (vk_blocks d u))"
      using False gn new_gen_live(2) [OF r i u] by (intro psubset_card_mono) (auto simp: uses_finite)
    moreover have "card (uses st al h - bd_gen (vk_blocks d' v)) \<le> card (uses st al h - bd_gen (vk_blocks d v))" for v
      using gn by (intro card_mono) (auto simp: uses_finite b')
    ultimately have "fix_meas st al h d' < fix_meas st al h d"
      unfolding fix_meas_def using u by (intro sum_strict_mono_ex1) (auto simp: b' fk.finite_nodes [OF r])
    then show ?thesis ..
  qed
  ultimately show ?thesis using upd by blast
qed

lemma computeFixPoint_total:
  assumes "kill_ready h" "inj addr" "fix_inv st al h d"
  shows "\<exists>d'. computeFixPoint addr h d = Some d' \<and> fix_inv st al h d' \<and> vk_todo d' = []"
  using assms(3)
proof (induction d rule: wf_induct_rule [OF wf_measures [of "[fix_meas st al h, \<lambda>d. length (vk_todo d)]"]])
  case (1 d)
  show ?case
  proof (cases "vk_todo d")
    case Nil
    then show ?thesis using 1(2) by (simp add: computeFixPoint.simps)
  next
    case (Cons u rest)
    from fix_inv_step [OF assms(1,2) 1(2) Cons] obtain d' where d': "updateBlock addr h u (d\<lparr>vk_todo := rest\<rparr>) = Some d'"
      "fix_inv st al h d'" "fix_meas st al h d' < fix_meas st al h d \<or> fix_meas st al h d' = fix_meas st al h d \<and> vk_todo d' = rest"
      by blast
    have "(d', d) \<in> measures [fix_meas st al h, \<lambda>d. length (vk_todo d)]" using d'(3) Cons by auto
    from 1(1) [OF this d'(2)] show ?thesis using d'(1) Cons by (simp add: computeFixPoint.simps [of addr h d])
  qed
qed

text \<open>At the end every live variable is generated.\<close>

definition gen_live :: "storage \<Rightarrow> TAliasMap \<Rightarrow> cfg \<Rightarrow> vk_data \<Rightarrow> TBlock \<Rightarrow> nat \<Rightarrow> int \<Rightarrow> bool" where
  "gen_live st al h d u k x \<longleftrightarrow> first_access x (acc_from st al h u k) = Some (Reads x) \<or>
     first_access x (acc_from st al h u k) = None \<and>
       ((\<exists>v \<in> set (cfg_succs h u). x \<in> bd_gen (vk_blocks d v)) \<or> cfg_succs h u = [] \<and> x \<in> set (map snd al))"

lemma gen_live_start:
  assumes "fix_inv st al h d" "vk_todo d = []" "u \<in> cfg_blocks h" "gen_live st al h d u 0 x"
  shows "x \<in> bd_gen (vk_blocks d u)"
proof -
  have "first_access x (acc_from st al h u 0) = None \<Longrightarrow> x \<notin> kill0 st al h u"
    using access_sets_subset [of "acc_from st al h u 0"] first_access_None [of x "acc_from st al h u 0"] by auto
  then have "x \<in> gen0 st al h u \<or> (\<exists>v \<in> set (cfg_succs h u). x \<in> bd_gen (vk_blocks d v) - kill0 st al h u)"
    using assms(4) by (auto simp: gen_live_def gen0_def read_first_def)
  then show ?thesis using fix_invD(4) [OF assms(1,3)] fix_invD(7) [OF assms(1,3)] assms(2) by auto
qed

lemma live_at_gen:
  assumes "kill_ready h" "fix_inv st al h d" "vk_todo d = []" "live_at st al h u k x" "u \<in> cfg_blocks h"
  shows "gen_live st al h d u k x"
  using assms(4,5)
proof (induction rule: live_at.induct)
  case (read_here k u x)
  then show ?case by (simp add: gen_live_def acc_from_step first_access_append)
next
  case (untouched k u x)
  then show ?case by (simp add: gen_live_def acc_from_step first_access_append)
next
  case (successor k u v x)
  have v: "v \<in> cfg_blocks h" using fk.succs_nodes [OF assms(1)] successor by blast
  have "x \<in> bd_gen (vk_blocks d v)" by (rule gen_live_start [OF assms(2,3) v successor.IH [OF v]])
  with successor.hyps(1,2) show ?case by (auto simp: gen_live_def acc_from_end)
next
  case (at_exit k u x)
  then show ?case by (simp add: gen_live_def acc_from_end)
qed

lemma vk_live_exact:
  assumes "kill_ready h" "scans st al h" "inj addr"
  shows "\<exists>d. vk_live addr st al h = Some d \<and>
    (\<forall>u \<in> cfg_blocks h. finite (bd_gen (vk_blocks d u)) \<and> bd_gen (vk_blocks d u) = {x. live_at st al h u 0 x})"
proof -
  from fix_inv_init [OF assms] obtain d0 where d0: "ofold (scanBlock addr st al h) [1..<length (db_tab h) + 1] vk_init = Some d0"
    "fix_inv st al h d0" by blast
  from computeFixPoint_total [OF assms(1,3) d0(2)] obtain d where d: "computeFixPoint addr h d0 = Some d"
    "fix_inv st al h d" "vk_todo d = []" by blast
  have "bd_gen (vk_blocks d u) = {x. live_at st al h u 0 x}" if u: "u \<in> cfg_blocks h" for u
    using fix_invD(6) [OF d(2) u] gen_live_start [OF d(2,3) u] live_at_gen [OF assms(1) d(2,3) _ u] by blast
  moreover have "vk_live addr st al h = Some d" using d(1) d0(1) by (simp add: vk_live_def del: upt_Suc)
  ultimately show ?thesis using fix_invD(2) [OF d(2)] by (intro exI [of _ d]) metis
qed

end
