(* ===== verification/VarCommit.thy ===== *)
theory VarCommit
  imports VarLive
begin

text \<open>
  The kill lists that \<open>commitBlock\<close> of \<open>src/cl/killer.cc\<close> writes: which variables an instruction kills, and
  which are killed on the way to a target.
\<close>

section \<open>Kill lists\<close>

text \<open>A kill list with exactly the variables of a set, each with the flag \<open>p\<close> gives it.\<close>

definition kill_is :: "(int \<Rightarrow> bool) \<Rightarrow> int set \<Rightarrow> TKillVarList \<Rightarrow> bool" where
  "kill_is p S kl \<longleftrightarrow> omap_find kl = (\<lambda>x. if x \<in> S then Some (p x) else None)"

lemma kill_is_empty [simp]: "kill_is p {} []"
  by (simp add: kill_is_def fun_eq_iff)

lemma kill_is_insert: "kill_is p S kl \<Longrightarrow> kill_is p (insert x S) (kill_insert x (p x) kl)"
  by (auto simp: kill_is_def kill_insert_def fun_eq_iff omap_simps)

text \<open>An instruction without its kill lists.\<close>

definition strip :: "insn \<Rightarrow> insn" where
  "strip i = i\<lparr>varsToKill := [], killPerTarget := []\<rparr>"

lemma strip_simps [simp]:
  "strip (i\<lparr>varsToKill := v\<rparr>) = strip i" "strip (i\<lparr>killPerTarget := t\<rparr>) = strip i"
  by (simp_all add: strip_def)

lemma strip_fields:
  assumes "strip i = strip j"
  shows "in_code i = in_code j" "operands i = operands j" "targets i = targets j"
proof -
  have "in_code (strip i) = in_code (strip j)" "operands (strip i) = operands (strip j)" "targets (strip i) = targets (strip j)"
    using assms by simp_all
  then show "in_code i = in_code j" "operands i = operands j" "targets i = targets j" by (simp_all add: strip_def)
qed

lemma strip_scan: "strip i = strip j \<Longrightarrow> scanInsn st al i bd = scanInsn st al j bd"
  by (simp add: scanInsn_def isBuiltInCall_def scanOperands_def strip_fields [of i j] cong: cl_insn_e.case_cong list.case_cong)

text \<open>
  A block \<open>b\<close> that differs from \<open>b0\<close> in its kill lists only: the variables \<open>V j\<close> are killed by the instruction at
  index \<open>j\<close>, and the variables \<open>K t\<close> on the way to the target at index \<open>t\<close>.
\<close>

definition kills :: "(int \<Rightarrow> bool) \<Rightarrow> block \<Rightarrow> (nat \<Rightarrow> int set) \<Rightarrow> (nat \<Rightarrow> int set) \<Rightarrow> block \<Rightarrow> bool" where
  "kills p b0 V K b \<longleftrightarrow> bb_name b = bb_name b0 \<and> inbound b = inbound b0 \<and>
     map strip (bb_insns b) = map strip (bb_insns b0) \<and>
     (\<forall>j < length (bb_insns b0). kill_is p (V j) (varsToKill (bb_insns b ! j))) \<and>
     (\<forall>j. j + 1 < length (bb_insns b0) \<longrightarrow> killPerTarget (bb_insns b ! j) = killPerTarget (bb_insns b0 ! j)) \<and>
     length (killPerTarget (last (bb_insns b))) = length (targets (last (bb_insns b0))) \<and>
     (\<forall>t < length (targets (last (bb_insns b0))). kill_is p (K t) (killPerTarget (last (bb_insns b)) ! t))"

lemma kills_length: "kills p b0 V K b \<Longrightarrow> length (bb_insns b) = length (bb_insns b0)"
  unfolding kills_def by (metis length_map)

lemma kills_insn:
  assumes "kills p b0 V K b" "j < length (bb_insns b0)"
  shows "strip (bb_insns b ! j) = strip (bb_insns b0 ! j)"
  using assms kills_length [OF assms(1)] unfolding kills_def by (metis nth_map)

lemma kills_last:
  assumes "kills p b0 V K b" "bb_insns b0 \<noteq> []"
  shows "bb_insns b \<noteq> []" "strip (last (bb_insns b)) = strip (last (bb_insns b0))"
    "last (bb_insns b) = bb_insns b ! (length (bb_insns b0) - 1)"
proof -
  have l: "length (bb_insns b) = length (bb_insns b0)" by (rule kills_length [OF assms(1)])
  with assms(2) show n: "bb_insns b \<noteq> []" by auto
  show e: "last (bb_insns b) = bb_insns b ! (length (bb_insns b0) - 1)" using n l by (simp add: last_conv_nth)
  show "strip (last (bb_insns b)) = strip (last (bb_insns b0))"
    using kills_insn [OF assms(1), of "length (bb_insns b0) - 1"] assms(2) e by (simp add: last_conv_nth)
qed

lemma kills_targets:
  assumes "kills p b0 V K b" "Block_targets b0 = Some ts"
  shows "Block_targets b = Some ts"
proof -
  have n: "bb_insns b0 \<noteq> []" using assms(2) by (auto simp: Block_targets_def Block_back_def)
  show ?thesis
    using assms(2) kills_last(1) [OF assms(1) n] strip_fields [OF kills_last(2) [OF assms(1) n]] n
    by (auto simp: Block_targets_def Block_back_def)
qed

lemma last_update: "xs \<noteq> [] \<Longrightarrow> last (xs[k := y]) = (if k = length xs - 1 then y else last xs)"
  by (simp add: last_conv_nth nth_list_update)

lemma kills_insnI:
  assumes "kills p b0 V K b" "k < length (bb_insns b0)"
  shows "kills p b0 (V(k := insert x (V k))) K
    (insn_upd k (\<lambda>i. i\<lparr>varsToKill := kill_insert x (p x) (varsToKill i)\<rparr>) b)"
proof -
  have l: "length (bb_insns b) = length (bb_insns b0)" by (rule kills_length [OF assms(1)])
  have "bb_insns b \<noteq> []" using l assms(2) by auto
  have m: "map strip ((bb_insns b)[k := (bb_insns b ! k)\<lparr>varsToKill := v\<rparr>]) = map strip (bb_insns b)" for v
    using assms(2) l by (simp add: map_update list_update_same_conv)
  have e: "bb_insns (insn_upd k (\<lambda>i. i\<lparr>varsToKill := kill_insert x (p x) (varsToKill i)\<rparr>) b) =
      (bb_insns b)[k := (bb_insns b ! k)\<lparr>varsToKill := kill_insert x (p x) (varsToKill (bb_insns b ! k))\<rparr>]"
    by (simp add: insn_upd_def)
  have lst: "killPerTarget (last ((bb_insns b)[k := (bb_insns b ! k)\<lparr>varsToKill := v\<rparr>])) = killPerTarget (last (bb_insns b))" for v
    using \<open>bb_insns b \<noteq> []\<close> by (auto simp: last_update) (simp add: last_conv_nth)
  show ?thesis
    using assms l unfolding kills_def e m lst
    by (auto simp: insn_upd_def nth_list_update kill_is_insert)
qed

lemma kills_targetI:
  assumes "kills p b0 V K b" "bb_insns b0 \<noteq> []" "t < length (targets (last (bb_insns b0)))"
    and "isPointedUid st al x = Some (p x)"
  shows "\<exists>b'. killVariablePerTarget st al t x b = Some b' \<and> kills p b0 V (K(t := insert x (K t))) b'"
proof -
  have l: "length (bb_insns b) = length (bb_insns b0)" by (rule kills_length [OF assms(1)])
  note n = kills_last [OF assms(1,2)]
  let ?k = "length (bb_insns b0) - 1"
  let ?i = "(bb_insns b ! ?k)\<lparr>killPerTarget := (killPerTarget (bb_insns b ! ?k))[t :=
    kill_insert x (p x) (killPerTarget (bb_insns b ! ?k) ! t)]\<rparr>"
  let ?b = "b\<lparr>bb_insns := (bb_insns b)[?k := ?i]\<rparr>"
  have len: "length (killPerTarget (last (bb_insns b))) = length (targets (last (bb_insns b0)))"
    using assms(1) by (simp add: kills_def)
  have r: "killVariablePerTarget st al t x b = Some ?b"
    using assms(3,4) n(1) l len by (simp add: killVariablePerTarget_def Block_back_def insn_upd_def)
  have m: "map strip ((bb_insns b)[?k := ?i]) = map strip (bb_insns b)"
    using assms(2) l by (simp add: map_update list_update_same_conv)
  have lst: "last ((bb_insns b)[?k := ?i]) = ?i" using n(1) l by (simp add: last_update)
  have e: "bb_insns ?b = (bb_insns b)[?k := ?i]" by simp
  have "kills p b0 V (K(t := insert x (K t))) ?b"
    using assms(1,3) l n(3) len unfolding kills_def e m lst
    by (auto simp: nth_list_update kill_is_insert)
  with r show ?thesis by blast
qed

lemma commitTarget_fold:
  assumes "kills p b0 V K b" "bb_insns b0 \<noteq> []" "length lpt = length (targets (last (bb_insns b0)))"
    and "isPointedUid st al x = Some (p x)" "m \<le> length lpt"
  shows "\<exists>b'. ofold (commitTarget st al x) [0..<m] (b, lpt) = Some (b', map (insert x) (take m lpt) @ drop m lpt) \<and>
    kills p b0 V (\<lambda>t. if t < m \<and> x \<notin> lpt ! t then insert x (K t) else K t) b'"
  using assms(5)
proof (induction m)
  case (Suc m)
  then obtain b' where b': "ofold (commitTarget st al x) [0..<m] (b, lpt) = Some (b', map (insert x) (take m lpt) @ drop m lpt)"
    "kills p b0 V (\<lambda>t. if t < m \<and> x \<notin> lpt ! t then insert x (K t) else K t) b'" by auto
  let ?l = "map (insert x) (take m lpt) @ drop m lpt"
  have m: "m < length lpt" using Suc.prems by simp
  have nth: "?l ! m = lpt ! m" using m by (simp add: nth_append)
  have upd: "?l[m := insert x (lpt ! m)] = map (insert x) (take (Suc m) lpt) @ drop (Suc m) lpt"
    using m by (intro nth_equalityI) (auto simp: nth_append nth_list_update min_def less_Suc_eq)
  have same: "insert x (lpt ! m) = lpt ! m \<Longrightarrow> ?l = map (insert x) (take (Suc m) lpt) @ drop (Suc m) lpt"
    using m upd nth by (metis list_update_id)
  show ?case
  proof (cases "x \<in> lpt ! m")
    case True
    have "(\<lambda>t. if t < Suc m \<and> x \<notin> lpt ! t then insert x (K t) else K t) = (\<lambda>t. if t < m \<and> x \<notin> lpt ! t then insert x (K t) else K t)"
      using True by (auto simp: fun_eq_iff less_Suc_eq)
    moreover have "commitTarget st al x m (b', ?l) = Some (b', map (insert x) (take (Suc m) lpt) @ drop (Suc m) lpt)"
      using True nth same by (simp add: commitTarget_def insert_absorb)
    ultimately show ?thesis using b' by (simp add: ofold_append)
  next
    case False
    have t: "m < length (targets (last (bb_insns b0)))" using m assms(3) by simp
    from kills_targetI [OF b'(2) assms(2) t assms(4)] obtain b'' where b'': "killVariablePerTarget st al m x b' = Some b''"
      "kills p b0 V ((\<lambda>t. if t < m \<and> x \<notin> lpt ! t then insert x (K t) else K t)(m := insert x (K m))) b''" by auto
    have "(\<lambda>t. if t < Suc m \<and> x \<notin> lpt ! t then insert x (K t) else K t) =
        (\<lambda>t. if t < m \<and> x \<notin> lpt ! t then insert x (K t) else K t)(m := insert x (K m))"
      using False by (auto simp: fun_eq_iff less_Suc_eq)
    moreover have "commitTarget st al x m (b', ?l) = Some (b'', map (insert x) (take (Suc m) lpt) @ drop (Suc m) lpt)"
      using b''(1) False nth upd by (simp add: commitTarget_def)
    ultimately show ?thesis using b'(1) b''(2) by (simp add: ofold_append)
  qed
qed (use assms(1) in simp)

text \<open>
  The state of \<open>commitBlock\<close>: \<open>L\<close> is live, \<open>T\<close> has been touched so far, \<open>LO\<close> is live at the end of the block, and
  \<open>gens\<close> are the variables that are live at the beginning of its successors.
\<close>

definition cinv :: "(int \<Rightarrow> bool) \<Rightarrow> block \<Rightarrow> int set list \<Rightarrow> int set \<Rightarrow> (nat \<Rightarrow> int set) \<Rightarrow> int set \<Rightarrow> int set \<Rightarrow>
    block \<times> int set \<times> int set list \<Rightarrow> bool" where
  "cinv p b0 gens LO V L T = (\<lambda>(b, live, lpt).
     kills p b0 V (\<lambda>t. if 1 < length gens then T \<inter> LO - gens ! t else {}) b \<and> live = L \<and>
     lpt = (if 1 < length gens then map (\<lambda>G. G \<union> T) gens else []))"

lemma kills_cong:
  "kills p b0 V K b \<Longrightarrow> (\<And>t. t < length (targets (last (bb_insns b0))) \<Longrightarrow> K t = K' t) \<Longrightarrow> kills p b0 V K' b"
  by (simp add: kills_def)

lemma commitVar_step:
  assumes c: "cinv p b0 gens LO V L T s" and k: "k < length (bb_insns b0)"
    and len: "length gens = length (targets (last (bb_insns b0)))"
    and p: "isPointedUid st al x = Some (p x)" and x: "x \<notin> T \<Longrightarrow> x \<in> L \<longleftrightarrow> x \<in> LO"
  shows "\<exists>s'. commitVar st al (length gens) G k x s = Some s' \<and>
    cinv p b0 gens LO (V(k := V k \<union> ({x} - L))) (if x \<in> G then insert x L else L - {x}) (insert x T) s'"
proof -
  obtain b where s: "s = (b, L, if 1 < length gens then map (\<lambda>G. G \<union> T) gens else [])"
    and b: "kills p b0 V (\<lambda>t. if 1 < length gens then T \<inter> LO - gens ! t else {}) b"
    using c by (cases s) (auto simp: cinv_def)
  define b1 where "b1 = (if x \<notin> L then insn_upd k (\<lambda>i. i\<lparr>varsToKill := kill_insert x (p x) (varsToKill i)\<rparr>) b else b)"
  have V: "x \<in> L \<Longrightarrow> V(k := V k \<union> ({x} - L)) = V" "x \<notin> L \<Longrightarrow> V(k := V k \<union> ({x} - L)) = V(k := insert x (V k))" by (auto simp: fun_eq_iff)
  have b1: "kills p b0 (V(k := V k \<union> ({x} - L))) (\<lambda>t. if 1 < length gens then T \<inter> LO - gens ! t else {}) b1"
    using b kills_insnI [OF b k] V by (auto simp: b1_def)
  show ?thesis
  proof (cases "1 < length gens")
    case False
    then show ?thesis using b1 p by (auto simp: s commitVar_def cinv_def Let_def b1_def)
  next
    case True
    define lpt where "lpt = (if x \<notin> L then map (insert x) (map (\<lambda>G. G \<union> T) gens) else map (\<lambda>G. G \<union> T) gens)"
    have ne: "bb_insns b0 \<noteq> []" using k by auto
    have l: "length lpt = length (targets (last (bb_insns b0)))" "length lpt = length gens" using len by (simp_all add: lpt_def)
    from commitTarget_fold [OF b1 ne l(1) p order_refl] obtain b2 where
      b2: "ofold (commitTarget st al x) [0..<length gens] (b1, lpt) = Some (b2, map (insert x) lpt)"
      "kills p b0 (V(k := V k \<union> ({x} - L))) (\<lambda>t. if t < length gens \<and> x \<notin> lpt ! t
        then insert x (if 1 < length gens then T \<inter> LO - gens ! t else {})
        else if 1 < length gens then T \<inter> LO - gens ! t else {}) b2" using l(2) by auto
    have "kills p b0 (V(k := V k \<union> ({x} - L))) (\<lambda>t. if 1 < length gens then insert x T \<inter> LO - gens ! t else {}) b2"
    proof (rule kills_cong [OF b2(2)])
      fix t assume "t < length (targets (last (bb_insns b0)))"
      then have t: "t < length gens" using len by simp
      then have "x \<in> lpt ! t \<longleftrightarrow> x \<notin> L \<or> x \<in> gens ! t \<or> x \<in> T" by (simp add: lpt_def)
      then show "(if t < length gens \<and> x \<notin> lpt ! t then insert x (if 1 < length gens then T \<inter> LO - gens ! t else {})
          else if 1 < length gens then T \<inter> LO - gens ! t else {}) =
        (if 1 < length gens then insert x T \<inter> LO - gens ! t else {})"
        using x True t by (auto simp: insert_absorb)
    qed
    moreover have "map (insert x) lpt = map (\<lambda>G. G \<union> insert x T) gens" by (auto simp: lpt_def)
    ultimately show ?thesis using b2(1) p True
      by (simp add: s commitVar_def cinv_def Let_def b1_def [symmetric] lpt_def [symmetric])
  qed
qed

lemma commitVar_fold:
  assumes "cinv p b0 gens LO V L T s" "k < length (bb_insns b0)" "length gens = length (targets (last (bb_insns b0)))"
    and "distinct xs" "\<And>x. x \<in> set xs \<Longrightarrow> isPointedUid st al x = Some (p x)"
    and "\<And>x. x \<in> set xs \<Longrightarrow> x \<notin> T \<Longrightarrow> x \<in> L \<longleftrightarrow> x \<in> LO"
  shows "\<exists>s'. ofold (commitVar st al (length gens) G k) xs s = Some s' \<and>
    cinv p b0 gens LO (V(k := V k \<union> (set xs - L))) ((L - set xs) \<union> (set xs \<inter> G)) (T \<union> set xs) s'"
  using assms(1,4,5,6)
proof (induction xs arbitrary: s V L T)
  case (Cons x xs)
  from commitVar_step [OF Cons.prems(1) assms(2,3), of st al x G] Cons.prems(3,4) obtain s1 where
    s1: "commitVar st al (length gens) G k x s = Some s1"
      "cinv p b0 gens LO (V(k := V k \<union> ({x} - L))) (if x \<in> G then insert x L else L - {x}) (insert x T) s1" by auto
  let ?L = "if x \<in> G then insert x L else L - {x}"
  have d: "distinct xs" "x \<notin> set xs" using Cons.prems(2) by simp_all
  have known: "isPointedUid st al y = Some (p y)" if "y \<in> set xs" for y using Cons.prems(3) that by simp
  have live: "y \<in> ?L \<longleftrightarrow> y \<in> LO" if "y \<in> set xs" "y \<notin> insert x T" for y
    using Cons.prems(4) [of y] that by auto
  from Cons.IH [OF s1(2) d(1) known live] obtain s' where
    s': "ofold (commitVar st al (length gens) G k) xs s1 = Some s'"
      "cinv p b0 gens LO ((V(k := V k \<union> ({x} - L)))(k := (V(k := V k \<union> ({x} - L))) k \<union> (set xs - ?L)))
        ((?L - set xs) \<union> (set xs \<inter> G)) (insert x T \<union> set xs) s'" by blast
  have e1: "(V(k := V k \<union> ({x} - L)))(k := (V(k := V k \<union> ({x} - L))) k \<union> (set xs - ?L)) = V(k := V k \<union> (set (x # xs) - L))"
    using Cons.prems(2) by (auto simp: fun_eq_iff)
  have e2: "(?L - set xs) \<union> (set xs \<inter> G) = (L - set (x # xs)) \<union> (set (x # xs) \<inter> G)"
    using Cons.prems(2) by auto
  have e3: "insert x T \<union> set xs = T \<union> set (x # xs)" by auto
  have "ofold (commitVar st al (length gens) G k) (x # xs) s = Some s'" using s1(1) s'(1) by simp
  then show ?case using s'(2) unfolding e1 e2 e3 by blast
qed simp

lemma mergeLive_result:
  assumes "kills p b0 V K b" "bb_insns b0 \<noteq> []" "t < length (targets (last (bb_insns b0)))"
    and "sorted_wrt (<) ls" "sorted_wrt (<) ps" "\<And>x. x \<in> set ls \<Longrightarrow> isPointedUid st al x = Some (p x)"
  shows "\<exists>b'. mergeLive st al t ls ps b = Some b' \<and>
    kills p b0 V (K(t := K t \<union> {x \<in> set ls - set ps. \<exists>w \<in> set ps. x < w})) b'"
  using assms(1,3,4,5,6)
proof (induction st al t ls ps b arbitrary: K rule: mergeLive.induct [case_names both noLive noTarget])
  case (both st al t x ls w ps b)
  let ?S = "\<lambda>ls ps. {y \<in> set ls - set ps. \<exists>v \<in> set ps. y < v}"
  have o: "sorted_wrt (<) ls" "\<forall>y \<in> set ls. x < y" "sorted_wrt (<) ps" "\<forall>v \<in> set ps. w < v" using both(6,7) by simp_all
  have known: "isPointedUid st al y = Some (p y)" if "y \<in> set ls" for y using both(8) that by simp
  consider "w < x" | "x = w" | "x < w" by (rule linorder_cases)
  then show ?case
  proof cases
    assume c: "w < x"
    have e: "?S (x # ls) (w # ps) = ?S (x # ls) ps" using c o(2,4) by fastforce
    obtain b' where b': "mergeLive st al t (x # ls) ps b = Some b'" "kills p b0 V (K(t := K t \<union> ?S (x # ls) ps)) b'"
      using both(1) [OF c both(4,5,6) o(3) both(8)] by blast
    have "mergeLive st al t (x # ls) (w # ps) b = Some b'" using b'(1) c by simp
    then show ?thesis unfolding e using b'(2) by blast
  next
    assume c: "x = w"
    have e: "?S (x # ls) (w # ps) = ?S ls ps" using c o(2,4) by fastforce
    obtain b' where b': "mergeLive st al t ls ps b = Some b'" "kills p b0 V (K(t := K t \<union> ?S ls ps)) b'"
      using both(2) [OF _ c both(4,5) o(1,3) known] c by blast
    have "mergeLive st al t (x # ls) (w # ps) b = Some b'" using b'(1) c by simp
    then show ?thesis unfolding e using b'(2) by blast
  next
    assume c: "x < w"
    have px: "isPointedUid st al x = Some (p x)" using both(8) by simp
    from kills_targetI [OF both(4) assms(2) both(5) px] obtain b1 where b1: "killVariablePerTarget st al t x b = Some b1"
      "kills p b0 V (K(t := insert x (K t))) b1" by blast
    have "\<not> w < x" "x \<noteq> w" using c by simp_all
    from both(3) [OF this b1 both(5) o(1) both(7) known] obtain b' where b': "mergeLive st al t ls (w # ps) b1 = Some b'"
      "kills p b0 V ((K(t := insert x (K t)))(t := (K(t := insert x (K t))) t \<union> ?S ls (w # ps))) b'" by blast
    have "?S (x # ls) (w # ps) = insert x (?S ls (w # ps))" using c o(2,4) by auto
    then have e: "(K(t := insert x (K t)))(t := (K(t := insert x (K t))) t \<union> ?S ls (w # ps)) = K(t := K t \<union> ?S (x # ls) (w # ps))"
      by (simp add: fun_eq_iff)
    have "mergeLive st al t (x # ls) (w # ps) b = Some b'" using b1(1) b'(1) c by simp
    then show ?thesis using b'(2) unfolding e by blast
  qed
next
  case (noLive st al t ps b)
  then show ?case by (intro exI [of _ b]) simp
next
  case (noTarget st al t ls b)
  then show ?case by (intro exI [of _ b]) (cases ls; simp)
qed

section \<open>The result of the analysis\<close>

text \<open>The variables of the storage carry the uid they are stored under.\<close>

definition vars_ok :: "storage \<Rightarrow> bool" where
  "vars_ok st \<longleftrightarrow> (\<forall>uid v. var_of st uid = Some v \<longrightarrow> sv_uid v = uid)"

abbreviation pointed :: "storage \<Rightarrow> TAliasMap \<Rightarrow> int \<Rightarrow> bool" where
  "pointed st al x \<equiv> (case isPointedUid st al x of Some c \<Rightarrow> c | None \<Rightarrow> False)"

definition known :: "storage \<Rightarrow> TAliasMap \<Rightarrow> int \<Rightarrow> bool" where
  "known st al x \<longleftrightarrow> isPointedUid st al x \<noteq> None"

lemma known_pointed: "known st al x \<Longrightarrow> isPointedUid st al x = Some (pointed st al x)"
  by (auto simp: known_def)

lemma var_access_known:
  assumes "vars_ok st" "var_of st uid = Some v" "a \<in> set (var_access v dst field)"
  shows "known st al (access_uid a)"
proof -
  have "sv_uid v = uid" using assms(1,2) by (simp add: vars_ok_def)
  then show ?thesis using assms(2,3) by (auto simp: var_access_def known_def isPointedUid_def split: if_splits)
qed

lemma set_if_subset: "set (if c then xs else []) \<subseteq> set xs"
  by (cases c) auto

lemma own_accesses_local:
  assumes "isLcVar_op op" "varIdFromOperand op = Some uid" "var_of st uid = Some v"
  shows "own_accesses st al op dst = var_access v (dst \<and> \<not> list_ex ac_deref (op_accessor op)) (list_ex ac_field (op_accessor op)) @
     (if list_ex ac_deref (op_accessor op) \<and> \<not> list_ex ac_field (op_accessor op)
      then (case omap_find al (sv_uid v) of None \<Rightarrow> [] | Some tgt \<Rightarrow>
             (case var_of st tgt of None \<Rightarrow> [] | Some w \<Rightarrow> var_access w dst False))
      else [])"
    using assms by (simp add: own_accesses_def Let_def)

lemma own_accesses_var:
  assumes "a \<in> set (own_accesses st al op dst)"
  shows "\<exists>uid v d f. var_of st uid = Some v \<and> a \<in> set (var_access v d f)"
proof -
  have l: "isLcVar_op op" using assms by (rule contrapos_pp) (simp add: own_accesses_def)
  obtain uid where i: "varIdFromOperand op = Some uid"
    using assms by (cases "varIdFromOperand op") (simp_all add: own_accesses_def split: if_splits)
  obtain v where v: "var_of st uid = Some v"
    using assms i by (cases "var_of st uid") (simp_all add: own_accesses_def split: if_splits)
  let ?X = "case omap_find al (sv_uid v) of None \<Rightarrow> [] | Some tgt \<Rightarrow>
      (case var_of st tgt of None \<Rightarrow> [] | Some w \<Rightarrow> var_access w dst False)"
  consider d f where "a \<in> set (var_access v d f)" | "a \<in> set ?X"
    using assms set_if_subset unfolding own_accesses_local [OF l i v] set_append by (metis (no_types) UnE subsetD)
  then show ?thesis
  proof cases
    case 2
    then obtain tgt where "a \<in> set (case var_of st tgt of None \<Rightarrow> [] | Some w \<Rightarrow> var_access w dst False)"
      by (cases "omap_find al (sv_uid v)") simp_all
    then obtain w where "var_of st tgt = Some w" "a \<in> set (var_access w dst False)"
      by (cases "var_of st tgt") simp_all
    then show ?thesis by blast
  qed (use v in blast)
qed
lemma own_accesses_known:
  assumes "vars_ok st" "a \<in> set (own_accesses st al op dst)"
  shows "known st al (access_uid a)"
  using own_accesses_var [OF assms(2)] var_access_known [OF assms(1)] by blast

lemma op_accesses_known:
  "vars_ok st \<Longrightarrow> a \<in> set (op_accesses st al op dst) \<Longrightarrow> known st al (access_uid a)"
  "vars_ok st \<Longrightarrow> a \<in> set (index_accesses st al acs) \<Longrightarrow> known st al (access_uid a)"
  by (induction st al op dst and st al acs rule: op_accesses_index_accesses.induct) (auto intro: own_accesses_known)

lemma insn_accesses_known:
  assumes "vars_ok st" "a \<in> set (insn_accesses st al i)"
  shows "known st al (access_uid a)"
  using assms(2) op_accesses_known(1) [OF assms(1)] by (auto simp: insn_accesses_def split: if_splits)

definition touched :: "storage \<Rightarrow> TAliasMap \<Rightarrow> cfg \<Rightarrow> TBlock \<Rightarrow> nat \<Rightarrow> int set" where
  "touched st al g u k = access_uid ` set (acc_at st al g u k)"

definition touched_from :: "storage \<Rightarrow> TAliasMap \<Rightarrow> cfg \<Rightarrow> TBlock \<Rightarrow> nat \<Rightarrow> int set" where
  "touched_from st al g u k = access_uid ` set (acc_from st al g u k)"

lemma touched_from_step:
  "k < length (bb_insns (blk g u)) \<Longrightarrow> touched_from st al g u k = touched_from st al g u (k + 1) \<union> touched st al g u k"
  by (auto simp: touched_from_def touched_def acc_from_step)

lemma touched_known: "vars_ok st \<Longrightarrow> x \<in> touched st al g u k \<Longrightarrow> known st al x"
  unfolding touched_def acc_at_def using insn_accesses_known by blast

lemma live_known:
  assumes "vars_ok st" "live_at st al g u k x"
  shows "known st al x"
  using assms(2)
proof (induction rule: live_at.induct)
  case (read_here k u x)
  then have "x \<in> touched st al g u k" using first_access_None [of x "acc_at st al g u k"] by (simp add: touched_def)
  then show ?case by (rule touched_known [OF assms(1)])
next
  case (at_exit k u x)
  then show ?case by (simp add: known_def isPointedUid_def)
qed

lemma live_at_unfold:
  assumes "k < length (bb_insns (blk g u))"
  shows "live_at st al g u k x \<longleftrightarrow> first_access x (acc_at st al g u k) = Some (Reads x) \<or>
     first_access x (acc_at st al g u k) = None \<and> live_at st al g u (k + 1) x"
  using assms by (auto elim: live_atE intro: live_at.read_here live_at.untouched)

lemma live_untouched:
  assumes "k \<le> length (bb_insns (blk g u))" "x \<notin> touched_from st al g u k"
  shows "live_at st al g u k x \<longleftrightarrow> live_out st al g u x"
  using live_at_iff [OF assms(1), of st al x] assms(2) first_access_None [of x "acc_from st al g u k"]
  by (auto simp: touched_from_def)

lemma commitInsn_step:
  assumes r: "kill_ready h" and sc: "scans st al h" and v: "vars_ok st" and u: "u \<in> cfg_blocks h"
    and k: "k < length (bb_insns (blk h u))" and g: "length gens = length (cfg_succs h u)"
    and c: "cinv (pointed st al) (blk h u) gens {x. live_out st al h u x} V {x. live_at st al h u (k + 1) x}
      (touched_from st al h u (k + 1)) s"
  shows "\<exists>s'. commitInsn st al k s = Some s' \<and> cinv (pointed st al) (blk h u) gens {x. live_out st al h u x}
    (V(k := V k \<union> (touched st al h u k - {x. live_at st al h u (k + 1) x}))) {x. live_at st al h u k x} (touched_from st al h u k) s'"
proof -
  let ?p = "pointed st al" and ?b0 = "blk h u" and ?A = "acc_at st al h u k"
  let ?L = "{x. live_at st al h u (k + 1) x}"
  from kill_ready_block [OF r u] obtain ts where ts: "Block_targets ?b0 = Some ts" "cfg_succs h u = ts" "targets (last (bb_insns ?b0)) = ts"
    by auto
  define b where "b = fst s"
  have b: "kills ?p ?b0 V (\<lambda>t. if 1 < length gens
      then touched_from st al h u (k + 1) \<inter> {x. live_out st al h u x} - gens ! t else {}) b"
    using c by (cases s) (simp add: cinv_def b_def cong: if_cong)
  have scan: "scanInsn st al (bb_insns b ! k) bd_empty = Some (fold bd_access ?A bd_empty)"
    using strip_scan [OF kills_insn [OF b k], of st al bd_empty] scans_insn [OF sc u nth_mem [OF k], of bd_empty]
    by (simp add: acc_at_def)
  have G: "bd_gen (fold bd_access ?A bd_empty) = read_first ?A" "bd_kill (fold bd_access ?A bd_empty) = overwritten ?A"
    by (simp_all add: fold_bd_access bd_empty_def)
  have t: "overwritten ?A \<union> read_first ?A = touched st al h u k" by (simp add: access_sets_union touched_def)
  have fin: "finite (touched st al h u k)" by (simp add: touched_def)
  have known': "isPointedUid st al x = Some (?p x)" if "x \<in> set (sorted_list_of_set (touched st al h u k))" for x
    using that fin by (intro known_pointed touched_known [OF v, of _ al h u k]) simp
  have untouched: "x \<in> ?L \<longleftrightarrow> x \<in> {x. live_out st al h u x}" if "x \<notin> touched_from st al h u (k + 1)" for x
    using live_untouched [OF _ that] k by simp
  have len: "length gens = length (targets (last (bb_insns ?b0)))" using g ts by simp
  let ?xs = "sorted_list_of_set (touched st al h u k)"
  have "\<exists>s'. ofold (commitVar st al (length gens) (read_first ?A) k) ?xs s = Some s' \<and>
      cinv ?p ?b0 gens {x. live_out st al h u x} (V(k := V k \<union> (set ?xs - ?L)))
        ((?L - set ?xs) \<union> (set ?xs \<inter> read_first ?A)) (touched_from st al h u (k + 1) \<union> set ?xs) s'"
    by (rule commitVar_fold [OF c k len distinct_sorted_list_of_set known' untouched])
  then obtain s' where s': "ofold (commitVar st al (length gens) (read_first ?A) k) ?xs s = Some s'"
      "cinv ?p ?b0 gens {x. live_out st al h u x} (V(k := V k \<union> (touched st al h u k - ?L)))
        ((?L - touched st al h u k) \<union> (touched st al h u k \<inter> read_first ?A))
        (touched_from st al h u (k + 1) \<union> touched st al h u k) s'"
    unfolding set_sorted_list_of_set [OF fin] by blast
  have "(?L - touched st al h u k) \<union> (touched st al h u k \<inter> read_first ?A) = {x. live_at st al h u k x}"
    using live_at_unfold [OF k, of st al] first_access_None [of _ ?A] access_sets_subset(2) [of ?A]
    by (auto simp: touched_def read_first_def)
  moreover have "commitInsn st al k s = Some s'"
    using s'(1) scan kills_targets [OF b ts(1)] ts(2) g by (simp add: commitInsn_def b_def [symmetric] G t)
  ultimately show ?thesis using s'(2) touched_from_step [OF k, of st al] by metis
qed

lemma commitInsns:
  assumes r: "kill_ready h" and sc: "scans st al h" and v: "vars_ok st" and u: "u \<in> cfg_blocks h"
    and g: "length gens = length (cfg_succs h u)" and m: "m \<le> length (bb_insns (blk h u))"
    and c: "cinv (pointed st al) (blk h u) gens {x. live_out st al h u x} (\<lambda>_. {}) {x. live_out st al h u x} {} s"
  shows "\<exists>s'. ofold (commitInsn st al) (rev [m..<length (bb_insns (blk h u))]) s = Some s' \<and>
    cinv (pointed st al) (blk h u) gens {x. live_out st al h u x}
      (\<lambda>k. if m \<le> k \<and> k < length (bb_insns (blk h u)) then touched st al h u k - {x. live_at st al h u (k + 1) x} else {})
      {x. live_at st al h u m x} (touched_from st al h u m) s'"
  using m
proof (induction rule: inc_induct)
  case base
  have "(\<lambda>k. if length (bb_insns (blk h u)) \<le> k \<and> k < length (bb_insns (blk h u))
      then touched st al h u k - {x. live_at st al h u (k + 1) x} else {}) = (\<lambda>_. {})" by (auto simp: fun_eq_iff)
  moreover have "touched_from st al h u (length (bb_insns (blk h u))) = {}" by (simp add: touched_from_def acc_from_end)
  ultimately show ?case using c by (simp add: live_out_def)
next
  case (step m)
  then obtain s1 where s1: "ofold (commitInsn st al) (rev [Suc m..<length (bb_insns (blk h u))]) s = Some s1"
    "cinv (pointed st al) (blk h u) gens {x. live_out st al h u x}
      (\<lambda>k. if Suc m \<le> k \<and> k < length (bb_insns (blk h u)) then touched st al h u k - {x. live_at st al h u (k + 1) x} else {})
      {x. live_at st al h u (m + 1) x} (touched_from st al h u (m + 1)) s1" by auto
  have m: "m < length (bb_insns (blk h u))" using step.hyps by simp
  from commitInsn_step [OF r sc v u m g s1(2)] obtain s2 where s2: "commitInsn st al m s1 = Some s2"
    "cinv (pointed st al) (blk h u) gens {x. live_out st al h u x}
      ((\<lambda>k. if Suc m \<le> k \<and> k < length (bb_insns (blk h u)) then touched st al h u k - {x. live_at st al h u (k + 1) x} else {})
        (m := touched st al h u m - {x. live_at st al h u (m + 1) x}))
      {x. live_at st al h u m x} (touched_from st al h u m) s2" by auto
  have e1: "(\<lambda>k. if Suc m \<le> k \<and> k < length (bb_insns (blk h u)) then touched st al h u k - {x. live_at st al h u (k + 1) x} else {})
        (m := touched st al h u m - {x. live_at st al h u (m + 1) x}) =
      (\<lambda>k. if m \<le> k \<and> k < length (bb_insns (blk h u)) then touched st al h u k - {x. live_at st al h u (k + 1) x} else {})"
    using m by (auto simp: fun_eq_iff)
  have e2: "rev [m..<length (bb_insns (blk h u))] = rev [Suc m..<length (bb_insns (blk h u))] @ [m]"
    using m by (simp add: upt_conv_Cons)
  have "ofold (commitInsn st al) (rev [Suc m..<length (bb_insns (blk h u))] @ [m]) s = Some s2"
    unfolding ofold_append s1(1) using s2(1) by simp
  then show ?case using s2(2) unfolding e1 e2 by blast
qed

text \<open>The variables killed by an instruction, and on the way to a target.\<close>

definition dead_after :: "storage \<Rightarrow> TAliasMap \<Rightarrow> cfg \<Rightarrow> TBlock \<Rightarrow> nat \<Rightarrow> int set" where
  "dead_after st al g u k = {x \<in> touched st al g u k. \<not> live_at st al g u (k + 1) x}"

definition dead_at_target :: "storage \<Rightarrow> TAliasMap \<Rightarrow> cfg \<Rightarrow> TBlock \<Rightarrow> nat \<Rightarrow> int set" where
  "dead_at_target st al g u t = (let v = cfg_succs g u ! t in
     {x. 1 < length (cfg_succs g u) \<and> live_out st al g u x \<and> \<not> live_at st al g v 0 x \<and>
         (x \<in> touched_from st al g u 0 \<or> (\<exists>w. (live_at st al g v 0 w \<or> w \<in> touched_from st al g u 0) \<and> x < w))})"

lemma kills_same:
  assumes "kills p b0 V K b" "\<And>j. j < length (bb_insns b0) \<Longrightarrow> V j = V' j"
    "\<And>t. t < length (targets (last (bb_insns b0))) \<Longrightarrow> K t = K' t"
  shows "kills p b0 V' K' b"
  using assms by (simp add: kills_def)

lemma kills_start:
  assumes "kill_ready h" "u \<in> cfg_blocks h"
  shows "kills p (blk h u) (\<lambda>_. {}) (\<lambda>_. {}) (blk h u)"
proof -
  from kill_ready_block [OF assms] obtain "is" i where i: "bb_insns (blk h u) = is @ [i]"
    "\<forall>x \<in> set (is @ [i]). varsToKill x = [] \<and> killPerTarget x = replicate (length (targets x)) []" by blast
  have "kill_is p {} (varsToKill (bb_insns (blk h u) ! j))" if "j < length (bb_insns (blk h u))" for j
    using i(2) nth_mem [OF that] i(1) by auto
  then show ?thesis using i by (simp add: kills_def)
qed

lemma merge_targets:
  assumes "kills p b0 V K b" "bb_insns b0 \<noteq> []" "n \<le> length (targets (last (bb_insns b0)))"
    and "finite L" "\<And>t. t < length (targets (last (bb_insns b0))) \<Longrightarrow> finite (P t)"
    and "\<And>x. x \<in> L \<Longrightarrow> isPointedUid st al x = Some (p x)"
  shows "\<exists>b'. ofold (\<lambda>t. mergeLive st al t (sorted_list_of_set L) (sorted_list_of_set (P t))) [0..<n] b = Some b' \<and>
    kills p b0 V (\<lambda>t. if t < n then K t \<union> {x \<in> L - P t. \<exists>w \<in> P t. x < w} else K t) b'"
  using assms(3)
proof (induction n)
  case (Suc n)
  let ?K = "\<lambda>t. if t < n then K t \<union> {x \<in> L - P t. \<exists>w \<in> P t. x < w} else K t"
  from Suc obtain b1 where b1: "ofold (\<lambda>t. mergeLive st al t (sorted_list_of_set L) (sorted_list_of_set (P t))) [0..<n] b = Some b1"
    "kills p b0 V ?K b1" by auto
  have n: "n < length (targets (last (bb_insns b0)))" using Suc.prems by simp
  have "\<exists>b2. mergeLive st al n (sorted_list_of_set L) (sorted_list_of_set (P n)) b1 = Some b2 \<and>
      kills p b0 V (?K(n := ?K n \<union> {x \<in> set (sorted_list_of_set L) - set (sorted_list_of_set (P n)).
        \<exists>w \<in> set (sorted_list_of_set (P n)). x < w})) b2"
    using assms(4,6) by (intro mergeLive_result [OF b1(2) assms(2) n]) (auto simp: strict_sorted_list_of_set)
  then obtain b2 where b2: "mergeLive st al n (sorted_list_of_set L) (sorted_list_of_set (P n)) b1 = Some b2"
    "kills p b0 V (?K(n := ?K n \<union> {x \<in> L - P n. \<exists>w \<in> P n. x < w})) b2"
    using assms(4) assms(5) [OF n] by auto
  have "ofold (\<lambda>t. mergeLive st al t (sorted_list_of_set L) (sorted_list_of_set (P t))) [0..<Suc n] b = Some b2"
    using b1(1) b2(1) by (simp add: ofold_append)
  moreover have "kills p b0 V (\<lambda>t. if t < Suc n then K t \<union> {x \<in> L - P t. \<exists>w \<in> P t. x < w} else K t) b2"
    by (rule kills_cong [OF b2(2)]) auto
  ultimately show ?case by blast
qed (use assms(1) in simp)

lemma commitBlock_result:
  assumes r: "kill_ready h" and sc: "scans st al h" and v: "vars_ok st" and u: "u \<in> cfg_blocks h"
    and bl: "\<And>w. w \<in> cfg_blocks h \<Longrightarrow> finite (bd_gen (bl w)) \<and> bd_gen (bl w) = {x. live_at st al h w 0 x}"
  shows "\<exists>b. commitBlock st al bl (blk h u) = Some b \<and>
    kills (pointed st al) (blk h u) (dead_after st al h u) (dead_at_target st al h u) b"
proof -
  let ?p = "pointed st al" and ?b0 = "blk h u" and ?n = "length (bb_insns (blk h u))"
  from kill_ready_block [OF r u] obtain ts where ts: "Block_targets ?b0 = Some ts" "cfg_succs h u = ts" "targets (last (bb_insns ?b0)) = ts"
    and ne: "bb_insns ?b0 \<noteq> []" by auto
  define gens where "gens = map (\<lambda>t. bd_gen (bl t)) ts"
  have tb: "set ts \<subseteq> cfg_blocks h" using fk.succs_nodes [OF r u] ts(2) by simp
  have bt: "finite (bd_gen (bl (ts ! t)))" "bd_gen (bl (ts ! t)) = {x. live_at st al h (ts ! t) 0 x}" if "t < length ts" for t
    using bl [OF subsetD [OF tb nth_mem [OF that]]] by blast+
  have gens: "gens ! t = {x. live_at st al h (ts ! t) 0 x}" "finite (gens ! t)" if "t < length ts" for t
    using that bt(2) [OF that] bt(1) [OF that] by (simp_all only: gens_def nth_map)
  have len: "length gens = length (cfg_succs h u)" by (simp add: gens_def ts)
  have "x \<in> \<Union> (set gens) \<longleftrightarrow> (\<exists>t \<in> set ts. live_at st al h t 0 x)" for x
    using tb bl by (auto simp: gens_def)
  then have live: "\<Union> (set gens) \<union> (if ts = [] then set (map snd al) else {}) = {x. live_out st al h u x}"
    by (auto simp: live_out_iff ts(2))
  let ?s = "(?b0, {x. live_out st al h u x}, if 1 < length ts then gens else [])"
  have c: "cinv ?p ?b0 gens {x. live_out st al h u x} (\<lambda>_. {}) {x. live_out st al h u x} {} ?s"
    using kills_start [OF r u] by (simp add: cinv_def gens_def)
  from commitInsns [OF r sc v u len _ c, of 0] obtain b1 where
    b1: "ofold (commitInsn st al) (rev [0..<?n]) ?s = Some (b1, {x. live_at st al h u 0 x},
        if 1 < length gens then map (\<lambda>G. G \<union> touched_from st al h u 0) gens else [])"
      "kills ?p ?b0 (\<lambda>k. if 0 \<le> k \<and> k < ?n then touched st al h u k - {x. live_at st al h u (k + 1) x} else {})
        (\<lambda>t. if 1 < length gens then touched_from st al h u 0 \<inter> {x. live_out st al h u x} - gens ! t else {}) b1"
    unfolding cinv_def by auto
  have cb: "commitBlock st al bl ?b0 = do {
      (b, live, livePerTarget) \<leftarrow> ofold (commitInsn st al) (rev [0..<?n]) ?s;
      if \<not> 1 < length ts then Some b
      else ofold (\<lambda>target. mergeLive st al target (sorted_list_of_set live)
        (sorted_list_of_set (livePerTarget ! target))) [0..<length ts] b
    }"
    using ne by (simp only: commitBlock_def ts(1) bind.bind_lunit Let_def gens_def [symmetric] live cl_break_if_bind if_False)
  note k1 = kills_same [OF b1(2), of "dead_after st al h u"]
  show ?thesis
  proof (cases "1 < length ts")
    case False
    have "commitBlock st al bl ?b0 = Some b1"
      unfolding cb b1(1) using False by simp
    moreover have "kills ?p ?b0 (dead_after st al h u) (dead_at_target st al h u) b1"
      using False by (intro k1) (auto simp: dead_after_def dead_at_target_def Let_def ts(2) gens_def)
    ultimately show ?thesis by blast
  next
    case True
    let ?T = "touched_from st al h u 0" and ?L = "{x. live_at st al h u 0 x}"
    have fin: "finite ?L" using bl [OF u] by auto
    have fT: "finite ?T" by (simp add: touched_from_def)
    have known': "isPointedUid st al x = Some (?p x)" if "x \<in> ?L" for x
      using that live_known [OF v] known_pointed by blast
    have "\<exists>b2. ofold (\<lambda>t. mergeLive st al t (sorted_list_of_set ?L) (sorted_list_of_set (map (\<lambda>G. G \<union> ?T) gens ! t))) [0..<length ts] b1 = Some b2 \<and>
      kills ?p ?b0 (\<lambda>k. if 0 \<le> k \<and> k < ?n then touched st al h u k - {x. live_at st al h u (k + 1) x} else {})
        (\<lambda>t. if t < length ts then (if 1 < length gens then ?T \<inter> {x. live_out st al h u x} - gens ! t else {}) \<union>
            {x \<in> ?L - map (\<lambda>G. G \<union> ?T) gens ! t. \<exists>w \<in> map (\<lambda>G. G \<union> ?T) gens ! t. x < w}
          else if 1 < length gens then ?T \<inter> {x. live_out st al h u x} - gens ! t else {}) b2"
      by (rule merge_targets [OF b1(2) ne _ fin _ known']) (auto simp: ts gens_def bt(1) fT)
    then obtain b2 where b2: "ofold (\<lambda>t. mergeLive st al t (sorted_list_of_set ?L) (sorted_list_of_set (map (\<lambda>G. G \<union> ?T) gens ! t))) [0..<length ts] b1 = Some b2"
      "kills ?p ?b0 (\<lambda>k. if 0 \<le> k \<and> k < ?n then touched st al h u k - {x. live_at st al h u (k + 1) x} else {})
        (\<lambda>t. if t < length ts then (if 1 < length gens then ?T \<inter> {x. live_out st al h u x} - gens ! t else {}) \<union>
            {x \<in> ?L - map (\<lambda>G. G \<union> ?T) gens ! t. \<exists>w \<in> map (\<lambda>G. G \<union> ?T) gens ! t. x < w}
          else if 1 < length gens then ?T \<inter> {x. live_out st al h u x} - gens ! t else {}) b2" by blast
    have "commitBlock st al bl ?b0 = Some b2"
      unfolding cb b1(1) using b2(1) True len ts(2) by simp
    moreover have "kills ?p ?b0 (dead_after st al h u) (dead_at_target st al h u) b2"
    proof (rule kills_same [OF b2(2)])
      fix t assume "t < length (targets (last (bb_insns ?b0)))"
      then have t: "t < length ts" by (simp add: ts)
      have "x \<notin> ?T \<Longrightarrow> live_at st al h u 0 x \<longleftrightarrow> live_out st al h u x" for x
        by (rule live_untouched) simp
      then show "(if t < length ts then (if 1 < length gens then ?T \<inter> {x. live_out st al h u x} - gens ! t else {}) \<union>
            {x \<in> ?L - map (\<lambda>G. G \<union> ?T) gens ! t. \<exists>w \<in> map (\<lambda>G. G \<union> ?T) gens ! t. x < w}
          else if 1 < length gens then ?T \<inter> {x. live_out st al h u x} - gens ! t else {}) = dead_at_target st al h u t"
        using t True gens(1) [OF t] by (auto simp: dead_at_target_def Let_def ts(2) gens_def)
    qed (auto simp: dead_after_def)
    ultimately show ?thesis by blast
  qed
qed

end
