(* ===== verification/VarKillRun.thy ===== *)
theory VarKillRun
  imports VarCommit
begin

text \<open>
  The variable killer behind the builder and the loop scan: the storage of the builder has its variables under
  their uids, and the analysis of a function returns with exact kill lists.
\<close>

section \<open>Variables of the builder\<close>

text \<open>The builder stores a variable under its uid.\<close>

definition vars_inv :: "(int, svar) db \<Rightarrow> bool" where
  "vars_inv vs \<longleftrightarrow> db_wf vs \<and> (\<forall>uid v. dbConstLookup uid vs = Some v \<longrightarrow> sv_uid v = uid)"

definition vars_rel :: "builder \<Rightarrow> builder \<Rightarrow> bool" where
  "vars_rel b b' \<longleftrightarrow> (vars_inv (vars (b_stor b)) \<longrightarrow>
     vars_inv (vars (b_stor b')) \<and> dom (db_map (vars (b_stor b))) \<subseteq> dom (db_map (vars (b_stor b'))))"

lemma vars_rel_refl [intro]: "vars_rel b b"
  by (simp add: vars_rel_def)

lemma vars_rel_trans: "vars_rel a b \<Longrightarrow> vars_rel b c \<Longrightarrow> vars_rel a c"
  unfolding vars_rel_def by blast

lemma vars_relI: "vars (b_stor b') = vars (b_stor b) \<Longrightarrow> vars_rel b b'"
  by (simp add: vars_rel_def)

lemma vars_relD:
  assumes "vars_rel b b'" "vars_inv (vars (b_stor b))"
  shows "vars_inv (vars (b_stor b'))" "db_map (vars (b_stor b)) k \<noteq> None \<Longrightarrow> db_map (vars (b_stor b')) k \<noteq> None"
  using assms unfolding vars_rel_def by (blast, metis domIff subsetD)

lemma db_upd_lookup:
  assumes "db_wf d" "db_map d key = Some i"
  shows "dbConstLookup k (db_upd i f d) = (if k = key then map_option f (dbConstLookup k d) else dbConstLookup k d)"
proof -
  have "j \<noteq> i" if "db_map d k = Some j" "k \<noteq> key" for j
    using that assms unfolding db_wf_def inj_on_def by (metis domI)
  then show ?thesis using assms(2) db_wf_less [OF assms]
    by (auto simp: dbConstLookup_def db_upd_def split: option.splits)
qed

lemma vars_inv_upd:
  assumes "vars_inv vs" "db_map vs key = Some i" "\<And>v. dbConstLookup key vs = Some v \<Longrightarrow> sv_uid (f v) = key"
  shows "vars_inv (db_upd i f vs)" "db_map (db_upd i f vs) = db_map vs"
proof -
  show "db_map (db_upd i f vs) = db_map vs" by (simp add: db_upd_def)
  have w: "db_wf vs" using assms(1) by (simp add: vars_inv_def)
  then show "vars_inv (db_upd i f vs)"
    using assms(1,3) unfolding vars_inv_def by (auto simp: db_upd_lookup [OF w assms(2)] split: if_splits)
qed

lemma dbLookup_found: "db_map d k = Some i \<Longrightarrow> dbLookup tpl k d = (i, d)"
  by (simp add: dbLookup_def)

lemma vars_rel_set:
  assumes "db_map (vars (b_stor b)) key = Some i" "\<And>v. sv_uid (f v) = sv_uid v"
  shows "vars_rel b (b\<lparr>b_stor := (b_stor b)\<lparr>vars := db_upd i f (vars (b_stor b))\<rparr>\<rparr>)"
proof -
  have "vars_inv (db_upd i f (vars (b_stor b)))" if v: "vars_inv (vars (b_stor b))"
    by (rule vars_inv_upd(1) [OF v assms(1)]) (use v assms(2) in \<open>simp add: vars_inv_def\<close>)
  then show ?thesis by (simp add: vars_rel_def db_upd_def)
qed

lemma mark_pointed_vars: "db_map (vars (b_stor b)) vid \<noteq> None \<Longrightarrow> vars_rel b (mark_pointed vid b)"
  by (auto simp: mark_pointed_def dbLookup_found intro!: vars_rel_set)

lemma push_initial_vars: "db_map (vars (b_stor b)) vid \<noteq> None \<Longrightarrow> vars_rel b (push_initial vid i b)"
  by (auto simp: push_initial_def dbLookup_found intro!: vars_rel_set)

lemma push_initial_dom: "db_map (vars (b_stor b)) vid \<noteq> None \<Longrightarrow> db_map (vars (b_stor (push_initial vid i b))) = db_map (vars (b_stor b))"
  by (auto simp: push_initial_def dbLookup_found db_upd_def)

lemma upd_cur_vars:
  assumes "upd_cur u b = Some b'"
  shows "vars (b_stor b') = vars (b_stor b)"
  using upd_cur_SomeD [OF assms] by (auto simp: upd_fnc_def)

lemma vars_inv_new:
  assumes "vars_inv vs" "dbLookup Var_dummy vid vs = (i, vs1)" "sv_uid v = vid"
  shows "vars_inv (db_upd i (\<lambda>_. v) vs1) \<and> dom (db_map vs) \<subseteq> dom (db_map (db_upd i (\<lambda>_. v) vs1)) \<and>
    db_map (db_upd i (\<lambda>_. v) vs1) vid = Some i"
proof (cases "db_map vs vid")
  case None
  have e: "i = length (db_tab vs)" "vs1 = vs\<lparr>db_map := (db_map vs)(vid := Some i), db_tab := db_tab vs @ [Var_dummy]\<rparr>"
    using assms(2) None by (auto simp: dbLookup_def)
  have w: "db_wf vs1" using db_wf_add [OF _ None] assms(1) e by (simp add: vars_inv_def)
  have m: "db_map vs1 vid = Some i" using e by simp
  have "dbConstLookup k vs1 = dbConstLookup k vs" if "k \<noteq> vid" for k
    using that e assms(1) by (auto simp: dbConstLookup_def nth_append vars_inv_def dest: db_wf_less split: option.splits)
  then have "vars_inv (db_upd i (\<lambda>_. v) vs1)"
    using w assms(1,3) unfolding vars_inv_def by (auto simp: db_upd_lookup [OF w m] split: if_splits)
  then show ?thesis using m e by (auto simp: db_upd_def)
next
  case (Some j)
  with assms vars_inv_upd [OF assms(1) Some, of "\<lambda>_. v"] show ?thesis by (auto simp: dbLookup_found)
qed

lemma Var_ctor_uid: "Var_ctor c op = Some v \<Longrightarrow> varIdFromOperand op = Some (sv_uid v)"
  by (cases op) (auto simp: Let_def bind_eq_Some_conv split: if_splits)

lemma digOperandVar_vars:
  assumes "digOperandVar op isArgDecl b = Some (fresh, b')"
  shows "vars_rel b b' \<and> (\<exists>vid. varIdFromOperand op = Some vid \<and> (vars_inv (vars (b_stor b)) \<longrightarrow> db_map (vars (b_stor b')) vid \<noteq> None))"
proof (cases op)
  case (CL_OPERAND_VAR sc t acs cv)
  obtain idx vs where l: "dbLookup Var_dummy (cv_uid cv) (vars (b_stor b)) = (idx, vs)" by fastforce
  from assms obtain b1 where u: "upd_cur (\<lambda>f. Some (f\<lparr>fnc_vars := insert (cv_uid cv) (fnc_vars f)\<rparr>)) b = Some b1"
    unfolding CL_OPERAND_VAR digOperandVar.simps Let_def by (elim bind_SomeE)
  have b1: "vars (b_stor b1) = vars (b_stor b)" by (rule upd_cur_vars [OF u])
  show ?thesis
  proof (cases "sv_code (db_tab vs ! idx) = VAR_VOID")
    case True
    from assms True obtain v where v: "Var_ctor (varCodeByScope sc isArgDecl) op = Some v"
      and b': "vars (b_stor b') = db_upd idx (\<lambda>_. v) vs"
      unfolding CL_OPERAND_VAR digOperandVar.simps Let_def u bind.bind_lunit b1 l prod.case
      by (auto simp: bind_eq_Some_conv)
    have "sv_uid v = cv_uid cv" using Var_ctor_uid [OF v] CL_OPERAND_VAR by simp
    then show ?thesis using vars_inv_new [OF _ l] b' CL_OPERAND_VAR by (auto simp: vars_rel_def)
  next
    case False
    then have b': "vars (b_stor b') = vs"
      using assms unfolding CL_OPERAND_VAR digOperandVar.simps Let_def u bind.bind_lunit b1 l prod.case by auto
    have "db_map (vars (b_stor b)) (cv_uid cv) \<noteq> None"
    proof
      assume "db_map (vars (b_stor b)) (cv_uid cv) = None"
      then show False using l False by (auto simp: dbLookup_def Var_dummy_def)
    qed
    then show ?thesis using l b' CL_OPERAND_VAR by (auto simp: dbLookup_def vars_rel_def)
  qed
qed (use assms in auto)

lemma digOperandCst_vars: "digOperandCst op b = Some b' \<Longrightarrow> vars_rel b b'"
  by (cases "(op, b)" rule: digOperandCst.cases)
    (auto simp: bind_eq_Some_conv Let_def intro!: vars_relI split: if_splits prod.splits)

lemma ofold_vars_rel:
  assumes "ofold f xs b = Some b'" "\<And>x b b'. f x b = Some b' \<Longrightarrow> vars_rel b b'"
  shows "vars_rel b b'"
  using assms by (intro ofold_invariant [OF assms(1), of "vars_rel b"]) (auto intro: vars_rel_trans)

lemma digInitials_vars:
  assumes d: "digInitials dig M op b = Some b'" and dig: "\<And>op b b'. dig op b = Some b' \<Longrightarrow> vars_rel b b'"
    and vid: "varIdFromOperand op = Some vid" "vars_inv (vars (b_stor b)) \<longrightarrow> db_map (vars (b_stor b)) vid \<noteq> None"
  shows "vars_rel b b'"
proof -
  let ?P = "\<lambda>x. vars_rel b x \<and> (vars_inv (vars (b_stor b)) \<longrightarrow> db_map (vars (b_stor x)) vid \<noteq> None)"
  have o: "ofold (\<lambda>cli b. do { (i, _) \<leftarrow> createInsn cli None; ofold dig (operands i) (push_initial vid i b) })
      (mem_initials M vid) b = Some b'"
    using d vid(1) by (simp add: digInitials_def)
  have "?P b'"
  proof (rule ofold_invariant [OF o])
    fix cli x y
    assume p: "?P x" and s: "do { (i, _) \<leftarrow> createInsn cli None; ofold dig (operands i) (push_initial vid i x) } = Some y"
    from s obtain i where i: "ofold dig (operands i) (push_initial vid i x) = Some y" by (auto simp: bind_eq_Some_conv)
    have r: "vars_rel (push_initial vid i x) y" by (rule ofold_vars_rel [OF i dig])
    show "?P y"
    proof (cases "vars_inv (vars (b_stor b))")
      case True
      then have m: "db_map (vars (b_stor x)) vid \<noteq> None" using p by blast
      have q: "vars_rel b (push_initial vid i x)" using p push_initial_vars [OF m] by (blast intro: vars_rel_trans)
      then have "db_map (vars (b_stor y)) vid \<noteq> None"
        using vars_relD(2) [OF r vars_relD(1) [OF q True]] m push_initial_dom [OF m, of i] by simp
      then show ?thesis using vars_rel_trans [OF q r] by blast
    qed (simp add: vars_rel_def)
  qed (use vid in auto)
  then show ?thesis ..
qed

lemma digOperand_vars:
  assumes "digOperand M op b = Some b'"
  shows "vars_rel b b'"
proof (rule digOperand.raw_induct [where P = "\<lambda>M op b b'. vars_rel b b'", OF _ assms])
  fix dig M op b b'
  assume 2: "\<And>M op b b'. dig M op b = Some b' \<Longrightarrow> vars_rel b b'" and 3: "(case op of
     CL_OPERAND_VOID \<Rightarrow> Some b
   | CL_OPERAND_CST sc t acs c \<Rightarrow> do {
       db \<leftarrow> dig_types M op (types (b_stor b));
       digOperandCst op (b\<lparr>b_stor := (b_stor b)\<lparr>types := db\<rparr>\<rparr>)
     }
   | CL_OPERAND_VAR sc t acs cv \<Rightarrow> do {
       db \<leftarrow> dig_types M op (types (b_stor b));
       (fresh, b) \<leftarrow> digOperandVar op False (b\<lparr>b_stor := (b_stor b)\<lparr>types := db\<rparr>\<rparr>);
       ref \<leftarrow> takes_ref (b_preventRefOps b) acs;
       let b = (if ref then mark_pointed (cv_uid cv) b else b);
       if \<not> fresh then Some b else digInitials (dig M) M op b
     }) = Some b'"
  have types: "vars_rel b (b\<lparr>b_stor := (b_stor b)\<lparr>types := db\<rparr>\<rparr>)" for db by (rule vars_relI) simp
  show "vars_rel b b'"
  proof (cases op)
    case CL_OPERAND_VOID
    with 3 show ?thesis by auto
  next
    case (CL_OPERAND_CST sc t acs c)
    with 3 obtain db where "digOperandCst op (b\<lparr>b_stor := (b_stor b)\<lparr>types := db\<rparr>\<rparr>) = Some b'"
      by (auto simp: bind_eq_Some_conv)
    then show ?thesis by (rule vars_rel_trans [OF types digOperandCst_vars])
  next
    case (CL_OPERAND_VAR sc t acs cv)
    from 3 obtain db fresh b1 ref b2 where
      v: "digOperandVar op False (b\<lparr>b_stor := (b_stor b)\<lparr>types := db\<rparr>\<rparr>) = Some (fresh, b1)"
      and b2: "b2 = (if ref then mark_pointed (cv_uid cv) b1 else b1)"
      and r: "(if \<not> fresh then Some b2 else digInitials (dig M) M op b2) = Some b'"
      unfolding CL_OPERAND_VAR cl_operand.case Let_def by (elim bind_SomeE prod_SomeE) auto
    have id: "varIdFromOperand op = Some (cv_uid cv)" using CL_OPERAND_VAR by simp
    have r1: "vars_rel b b1" by (rule vars_rel_trans [OF types conjunct1 [OF digOperandVar_vars [OF v]]])
    have m1: "vars_inv (vars (b_stor b)) \<longrightarrow> db_map (vars (b_stor b1)) (cv_uid cv) \<noteq> None"
      using conjunct2 [OF digOperandVar_vars [OF v]] unfolding id by simp
    show ?thesis
    proof (cases "vars_inv (vars (b_stor b))")
      case True
      then have m: "db_map (vars (b_stor b1)) (cv_uid cv) \<noteq> None" using m1 by blast
      have r2: "vars_rel b1 b2" using mark_pointed_vars [OF m] by (auto simp: b2)
      have m2: "db_map (vars (b_stor b2)) (cv_uid cv) \<noteq> None"
        by (rule vars_relD(2) [OF r2 vars_relD(1) [OF r1 True] m])
      have "vars_rel b2 b'"
      proof (cases fresh)
        case True
        then have "digInitials (dig M) M op b2 = Some b'" using r by simp
        then show ?thesis by (rule digInitials_vars [OF _ 2 [of M] id]) (simp_all add: m2)
      qed (use r in auto)
      then show ?thesis using r1 r2 by (blast intro: vars_rel_trans)
    qed (simp add: vars_rel_def)
  qed
qed

lemma upd_open_vars: "upd_open f b = Some b' \<Longrightarrow> vars (b_stor b') = vars (b_stor b)"
  unfolding upd_open_def by (auto simp: bind_eq_Some_conv dest: upd_cur_vars)

lemma openInsn_vars: "openInsn i b = Some b' \<Longrightarrow> vars (b_stor b') = vars (b_stor b)"
  unfolding openInsn_def by (auto simp: bind_eq_Some_conv dest: upd_cur_vars split: if_splits)

lemma closeInsn_vars:
  assumes "closeInsn M b = Some b'"
  shows "vars_rel b b'"
proof -
  from assms obtain i :: insn and b1 b2 b3 :: builder where b1: "ofold (digOperand M) (operands i) b = Some b1"
    and b2: "upd_cur (\<lambda>f. do { g \<leftarrow> add_preds (b_bb b1) (targets i) (fnc_cfg f); Some (f\<lparr>fnc_cfg := g\<rparr>) }) b1 = Some b2"
    and b3: "upd_open (\<lambda>i. i\<lparr>killPerTarget := replicate (length (targets i)) []\<rparr>) b2 = Some b3" "b' = b3\<lparr>b_insn := None\<rparr>"
    unfolding closeInsn_def by (elim bind_SomeE) auto
  have v: "vars (b_stor b') = vars (b_stor b1)" using upd_cur_vars [OF b2] upd_open_vars [OF b3(1)] b3(2) by simp
  show ?thesis by (rule vars_rel_trans [OF ofold_vars_rel [OF b1 digOperand_vars] vars_relI [OF v]])
qed

lemma b_insn_cb_vars: "b_insn_cb M cli b = Some b' \<Longrightarrow> vars_rel b b'"
  unfolding b_insn_cb_def
proof (elim if_SomeE bind_SomeE prod_SomeE)
  fix i g g' b1 b2 f p
  assume "upd_cur (\<lambda>f. Some (f\<lparr>fnc_cfg := g'\<rparr>)) b = Some b1" "openInsn i b1 = Some b2" and c: "closeInsn M b2 = Some b'"
  then have "vars (b_stor b2) = vars (b_stor b)" by (simp add: upd_cur_vars openInsn_vars)
  then show "vars_rel b b'" by (rule vars_rel_trans [OF vars_relI closeInsn_vars [OF c]])
qed auto

lemma b_fnc_open_vars:
  assumes "b_fnc_open M op b = Some b'"
  shows "vars_rel b b'"
proof -
  from assms obtain b1 b2 where "digOperand M op b1 = Some b2" "vars (b_stor b1) = vars (b_stor b)" "b' = b2\<lparr>b_bb := 0\<rparr>"
    unfolding b_fnc_open_def
    by (auto simp: bind_eq_Some_conv Let_def split: cl_operand.splits cl_cst.splits if_splits prod.splits)
  then show ?thesis using digOperand_vars [of M op b1 b2] by (simp add: vars_rel_def)
qed

lemma b_fnc_arg_decl_vars:
  assumes "b_fnc_arg_decl pos op b = Some b'"
  shows "vars_rel b b'"
proof -
  from assms obtain fresh b1 u where d: "digOperandVar op True b = Some (fresh, b1)" "upd_cur u b1 = Some b'"
    unfolding b_fnc_arg_decl_def by (elim bind_SomeE prod_SomeE) auto
  show ?thesis using conjunct1 [OF digOperandVar_vars [OF d(1)]] upd_cur_vars [OF d(2)] by (simp add: vars_rel_def)
qed

lemma b_bb_open_vars: "b_bb_open nm b = Some b' \<Longrightarrow> vars (b_stor b') = vars (b_stor b)"
  unfolding b_bb_open_def Let_def by (elim bind_SomeE prod_SomeE) (auto dest: upd_cur_vars)

lemma b_insn_switch_case_vars:
  assumes "b_insn_switch_case lo hi label b = Some b'"
  shows "vars (b_stor b') = vars (b_stor b)"
  using assms unfolding b_insn_switch_case_def
  by (elim bind_SomeE)
    (auto simp: bind_eq_Some_conv Let_def dest!: upd_cur_vars upd_open_vars split: cl_operand.splits cl_cst.splits if_splits prod.splits)

lemma builder_step_vars:
  assumes "builder_step M cb b = Some b'"
  shows "vars_rel b b'"
proof (cases cb)
  case (insn_call_open loc dst fn)
  with assms openInsn_vars show ?thesis
    by (fastforce simp: builder_step_def b_insn_call_open_def intro: vars_relI)
next
  case insn_call_close
  with assms obtain b1 where "closeInsn M b = Some b1" "b' = b1\<lparr>b_preventRefOps := False\<rparr>"
    by (auto simp: builder_step_def b_insn_call_close_def bind_eq_Some_conv)
  then show ?thesis using closeInsn_vars [of M b b1] by (simp add: vars_rel_def)
qed (use assms in \<open>auto simp: builder_step_def b_insn_call_arg_def b_insn_switch_open_def
      dest: upd_open_vars openInsn_vars b_bb_open_vars b_insn_switch_case_vars
      intro: vars_relI b_fnc_open_vars b_fnc_arg_decl_vars b_insn_cb_vars closeInsn_vars\<close>)

lemma front_vars: "front M l c b \<Longrightarrow> vars_inv (vars (b_stor b))"
proof (induction rule: front.induct)
  case init
  show ?case by (simp add: vars_inv_def builder_ctor_def storage_empty_def dbConstLookup_def db_wf_def db_empty_def)
next
  case (step l c b cb l' c' b')
  then show ?case using builder_step_vars [OF step.hyps(5)] by (simp add: vars_rel_def)
qed

lemma front_vars_ok: "front M l c b \<Longrightarrow> vars_ok (b_stor b)"
  using front_vars by (simp add: vars_inv_def vars_ok_def var_of_def)

lemma loopscan_kill_ready:
  assumes "front M l c b" "no_errors l c" "j < length (db_tab (fncs (b_stor b)))" "b_fnc b \<noteq> Some j"
    and "ls_analyzeFnc (fnc_cfg (db_tab (fncs (b_stor b)) ! j)) = Some h"
  shows "kill_ready h"
proof -
  have d: "cfg_done (fnc_cfg (db_tab (fncs (b_stor b)) ! j))" by (rule front_cfg_done [OF assms(1-4)])
  have "db_tab (fnc_cfg (db_tab (fncs (b_stor b)) ! j)) \<noteq> []"
    using assms(5) by (auto simp: ls_analyzeFnc_def cfg_entry_def)
  from ls_analyzeFnc_result [OF d this] assms(5) show ?thesis using d unfolding kill_ready_def by auto
qed

lemma commit_all:
  assumes r: "kill_ready h" and sc: "scans st al h" and v: "vars_ok st" and n: "n \<le> length (db_tab h)"
    and bl: "\<And>w. w \<in> cfg_blocks h \<Longrightarrow> finite (bd_gen (bl w)) \<and> bd_gen (bl w) = {x. live_at st al h w 0 x}"
  shows "\<exists>g. ofold (\<lambda>bb h. do { b \<leftarrow> bb_at h bb; b' \<leftarrow> commitBlock st al bl b; Some (bb_upd bb (\<lambda>_. b') h) })
      [1..<n + 1] h = Some g \<and> db_map g = db_map h \<and> cfg_blocks g = cfg_blocks h \<and>
    (\<forall>u \<in> cfg_blocks h. if u \<le> n
       then kills (pointed st al) (blk h u) (dead_after st al h u) (dead_at_target st al h u) (blk g u)
       else blk g u = blk h u)"
  using n
proof (induction n)
  case (Suc n)
  let ?f = "\<lambda>bb h. do { b \<leftarrow> bb_at h bb; b' \<leftarrow> commitBlock st al bl b; Some (bb_upd bb (\<lambda>_. b') h) }"
  from Suc obtain g where g: "ofold ?f [1..<n + 1] h = Some g" "db_map g = db_map h" "cfg_blocks g = cfg_blocks h"
    "\<forall>u \<in> cfg_blocks h. if u \<le> n
       then kills (pointed st al) (blk h u) (dead_after st al h u) (dead_at_target st al h u) (blk g u)
       else blk g u = blk h u" by auto
  have u: "Suc n \<in> cfg_blocks h" "Suc n \<in> cfg_blocks g" using Suc.prems g(3) by (simp_all add: cfg_blocks_iff)
  have e: "blk g (Suc n) = blk h (Suc n)" using g(4) u(1) by (metis Suc_n_not_le_n)
  from commitBlock_result [OF r sc v u(1) bl] obtain b where b: "commitBlock st al bl (blk h (Suc n)) = Some b"
    "kills (pointed st al) (blk h (Suc n)) (dead_after st al h (Suc n)) (dead_at_target st al h (Suc n)) b" by blast
  have "ofold ?f ([1..<n + 1] @ [Suc n]) h = Some (bb_upd (Suc n) (\<lambda>_. b) g)"
    unfolding ofold_append g(1) by (simp add: bb_at_in [OF u(2)] e b(1))
  moreover have "[1..<Suc n + 1] = [1..<n + 1] @ [Suc n]" by simp
  moreover have "if w \<le> Suc n
       then kills (pointed st al) (blk h w) (dead_after st al h w) (dead_at_target st al h w) (blk (bb_upd (Suc n) (\<lambda>_. b) g) w)
       else blk (bb_upd (Suc n) (\<lambda>_. b) g) w = blk h w" if w: "w \<in> cfg_blocks h" for w
    using w u g(3,4) b(2) by (cases "w = Suc n") (auto simp: le_Suc_eq)
  ultimately show ?case using g(2,3) by (intro exI [of _ "bb_upd (Suc n) (\<lambda>_. b) g"]) simp
qed (use cfg_blocks_iff in auto)

lemma vk_analyzeFnc_result:
  assumes r: "kill_ready h" and al: "al = findAliases query h" and sc: "scans st al h" and v: "vars_ok st" and a: "inj addr"
  shows "\<exists>g. vk_analyzeFnc addr query st h = Some g \<and> db_map g = db_map h \<and> cfg_blocks g = cfg_blocks h \<and>
    (\<forall>u \<in> cfg_blocks h.
       kills (pointed st al) (blk h u) (dead_after st al h u) (dead_at_target st al h u) (blk g u))"
proof -
  from vk_live_exact [OF r sc a] obtain d where d: "vk_live addr st al h = Some d"
    "\<forall>u \<in> cfg_blocks h. finite (bd_gen (vk_blocks d u)) \<and> bd_gen (vk_blocks d u) = {x. live_at st al h u 0 x}" by blast
  from commit_all [OF r sc v order_refl, of "vk_blocks d"] d(2) obtain g where
    g: "ofold (\<lambda>bb h. do { b \<leftarrow> bb_at h bb; b' \<leftarrow> commitBlock st al (vk_blocks d) b; Some (bb_upd bb (\<lambda>_. b') h) })
      [1..<length (db_tab h) + 1] h = Some g" "db_map g = db_map h" "cfg_blocks g = cfg_blocks h"
    "\<forall>u \<in> cfg_blocks h. if u \<le> length (db_tab h)
       then kills (pointed st al) (blk h u) (dead_after st al h u) (dead_at_target st al h u) (blk g u)
       else blk g u = blk h u" by blast
  have "vk_analyzeFnc addr query st h = Some g"
    unfolding vk_analyzeFnc_def al [symmetric] Let_def d(1) bind.bind_lunit g(1) ..
  moreover have "kills (pointed st al) (blk h u) (dead_after st al h u) (dead_at_target st al h u) (blk g u)"
    if "u \<in> cfg_blocks h" for u using g(4) that by (simp add: cfg_blocks_iff)
  ultimately show ?thesis using g(2,3) by blast
qed

text \<open>
  A function \<open>A: x = 1; if (x) goto B; goto C; B: return y; C: return 1;\<close> with the argument \<open>y\<close>.
\<close>

definition vk_wit_mem :: cl_mem where
  "vk_wit_mem = \<lparr>mem_types = (\<lambda>t. if t = 1 then Some \<lparr>clt_uid = 1, clt_code = CL_TYPE_INT, clt_size = 4, clt_items = [],
     clt_is_unsigned = False\<rparr> else None), mem_initials = (\<lambda>_. [])\<rparr>"

definition vk_wit_var :: "int \<Rightarrow> cl_operand" where
  "vk_wit_var uid = CL_OPERAND_VAR CL_SCOPE_FUNCTION 1 [] \<lparr>cv_uid = uid, cv_name = None, cv_artificial = False,
     cv_loc = cl_loc_unknown, cv_initialized = False, cv_is_extern = False\<rparr>"

definition vk_wit_cbs :: "callback list" where
  "vk_wit_cbs = [file_open ''f'',
     fnc_open (CL_OPERAND_CST CL_SCOPE_GLOBAL 0 []
       (CstFnc 7 (Some ''m'') False \<lparr>loc_file = Some ''f'', loc_line = 1, loc_column = 1, loc_sysp = False\<rparr>)),
     fnc_arg_decl 1 (vk_wit_var 5),
     wit_insn CL_INSN_JMP (InsnJmp ''A''),
     bb_open ''A'', wit_insn CL_INSN_UNOP (InsnUnop 0 (vk_wit_var 1) wit_cst),
     wit_insn CL_INSN_COND (InsnCond (vk_wit_var 1) ''B'' ''C''),
     bb_open ''B'', wit_insn CL_INSN_RET (InsnRet (vk_wit_var 5)),
     bb_open ''C'', wit_insn CL_INSN_RET (InsnRet wit_cst),
     fnc_close]"

definition vk_wit :: "(label_chk \<times> seq_chk \<times> builder) option" where
  "vk_wit = front_run vk_wit_mem vk_wit_cbs (label_chk_ctor, seq_chk_ctor, builder_ctor)"

lemma vk_wit_runs:
  "case vk_wit of None \<Rightarrow> False | Some (l, c, b) \<Rightarrow> no_errors l c \<and> length (db_tab (fncs (b_stor b))) = 1 \<and> b_fnc b = None \<and>
     (case ls_analyzeFnc (fnc_cfg (db_tab (fncs (b_stor b)) ! 0)) of None \<Rightarrow> False | Some h \<Rightarrow>
        findAliases (\<lambda>_. None) h = [] \<and> scans (b_stor b) [] h)"
  by code_simp

lemma vk_wit_front:
  obtains l c b h where "vk_wit = Some (l, c, b)" "front vk_wit_mem l c b" "no_errors l c"
    "0 < length (db_tab (fncs (b_stor b)))" "b_fnc b \<noteq> Some 0"
    "ls_analyzeFnc (fnc_cfg (db_tab (fncs (b_stor b)) ! 0)) = Some h" "[] = findAliases (\<lambda>_. None) h" "scans (b_stor b) [] h"
proof -
  obtain l c b h where w: "vk_wit = Some (l, c, b)" "no_errors l c" "0 < length (db_tab (fncs (b_stor b)))" "b_fnc b \<noteq> Some 0"
    "ls_analyzeFnc (fnc_cfg (db_tab (fncs (b_stor b)) ! 0)) = Some h" "[] = findAliases (\<lambda>_. None) h" "scans (b_stor b) [] h"
    using vk_wit_runs by (auto simp del: length_greater_0_conv split: option.splits)
  have "front vk_wit_mem l c b" by (rule front_run_front [OF w(1) [unfolded vk_wit_def] front.init])
  then show ?thesis using w that by blast
qed

text \<open>
  Here the condition kills \<open>x\<close> (uid 1).  The argument \<open>y\<close> (uid 5) is dead on the way to \<open>C\<close>, but it is not
  killed there.
\<close>

lemma vk_wit_result:
  "case vk_wit of None \<Rightarrow> False | Some (l, c, b) \<Rightarrow>
     (case ls_analyzeFnc (fnc_cfg (db_tab (fncs (b_stor b)) ! 0)) of None \<Rightarrow> False | Some h \<Rightarrow>
        (case vk_analyzeFnc id (\<lambda>_. None) (b_stor b) h of None \<Rightarrow> False | Some g \<Rightarrow>
          map (\<lambda>b. map (\<lambda>i. (varsToKill i, killPerTarget i)) (bb_insns b)) (db_tab g) =
            [[([], []), ([(1, False)], [[], []])], [([(5, False)], [])], [([], [])]]))"
  by code_simp

text \<open>
  C9: on the graph of a function that the builder made without an error report, after the search for
  loop-closing edges, the fixed-point computation of the variable killer returns, whatever the addresses of the blocks are and
  whatever the aliases, and what it computes for a block are exactly the variables that are live at its beginning.
  Each instruction has to be in order for the scan (\<open>scans\<close>: known variables, no reference as a destination).
\<close>

theorem vk_live_is_liveness:
  assumes "front M l c b" "no_errors l c" "j < length (db_tab (fncs (b_stor b)))" "b_fnc b \<noteq> Some j"
    and "ls_analyzeFnc (fnc_cfg (db_tab (fncs (b_stor b)) ! j)) = Some h" "scans (b_stor b) al h" "inj addr"
  shows "\<exists>d. vk_live addr (b_stor b) al h = Some d \<and>
    (\<forall>u \<in> cfg_blocks h. bd_gen (vk_blocks d u) = {x. live_at (b_stor b) al h u 0 x})"
  using vk_live_exact [OF loopscan_kill_ready [OF assms(1-5)] assms(6,7)] by blast

theorem vk_live_is_liveness_witness:
  "\<exists>l c b h d. vk_wit = Some (l, c, b) \<and> ls_analyzeFnc (fnc_cfg (db_tab (fncs (b_stor b)) ! 0)) = Some h \<and>
     vk_live id (b_stor b) [] h = Some d \<and> (\<forall>u \<in> cfg_blocks h. bd_gen (vk_blocks d u) = {x. live_at (b_stor b) [] h u 0 x})"
proof -
  obtain l c b h where w: "vk_wit = Some (l, c, b)" and f: "front vk_wit_mem l c b" "no_errors l c"
    "0 < length (db_tab (fncs (b_stor b)))" "b_fnc b \<noteq> Some 0"
    and h: "ls_analyzeFnc (fnc_cfg (db_tab (fncs (b_stor b)) ! 0)) = Some h" "scans (b_stor b) [] h"
    by (rule vk_wit_front)
  from vk_live_is_liveness [OF f h, of id] obtain d where "vk_live id (b_stor b) [] h = Some d"
    "\<forall>u \<in> cfg_blocks h. bd_gen (vk_blocks d u) = {x. live_at (b_stor b) [] h u 0 x}" by auto
  with w h(1) show ?thesis by blast
qed

text \<open>
  C10: on the same graphs the variable killer returns and changes nothing but the kill lists of the
  instructions.  An instruction kills exactly the variables it touches that are not live after it.  On the way to a target of
  a block with several targets exactly those variables are killed that are live at the end of the block and dead at the target, and that
  the block touches or that are smaller than a variable which is live at the target or touched by the block: the
  merge of the two sorted lists ends with the shorter one, so a larger dead variable is left alone.  Nothing that is
  live is ever killed.  A flag says which of the variables may be pointed to.
\<close>

theorem vk_kills_dead_variables:
  assumes "front M l c b" "no_errors l c" "j < length (db_tab (fncs (b_stor b)))" "b_fnc b \<noteq> Some j"
    and "ls_analyzeFnc (fnc_cfg (db_tab (fncs (b_stor b)) ! j)) = Some h"
    and "al = findAliases query h" "scans (b_stor b) al h" "inj addr"
  shows "\<exists>g. vk_analyzeFnc addr query (b_stor b) h = Some g \<and> db_map g = db_map h \<and> cfg_blocks g = cfg_blocks h \<and>
    (\<forall>u \<in> cfg_blocks h. kills (pointed (b_stor b) al) (blk h u)
       (dead_after (b_stor b) al h u) (dead_at_target (b_stor b) al h u) (blk g u))"
  by (rule vk_analyzeFnc_result [OF loopscan_kill_ready [OF assms(1-5)] assms(6,7) front_vars_ok [OF assms(1)] assms(8)])

theorem vk_kills_dead_variables_witness:
  "\<exists>l c b h g. vk_wit = Some (l, c, b) \<and> ls_analyzeFnc (fnc_cfg (db_tab (fncs (b_stor b)) ! 0)) = Some h \<and>
     vk_analyzeFnc id (\<lambda>_. None) (b_stor b) h = Some g \<and>
     (\<forall>u \<in> cfg_blocks h. kills (pointed (b_stor b) []) (blk h u)
       (dead_after (b_stor b) [] h u) (dead_at_target (b_stor b) [] h u) (blk g u))"
proof -
  obtain l c b h where w: "vk_wit = Some (l, c, b)" and f: "front vk_wit_mem l c b" "no_errors l c"
    "0 < length (db_tab (fncs (b_stor b)))" "b_fnc b \<noteq> Some 0"
    and h: "ls_analyzeFnc (fnc_cfg (db_tab (fncs (b_stor b)) ! 0)) = Some h" "[] = findAliases (\<lambda>_. None) h" "scans (b_stor b) [] h"
    by (rule vk_wit_front)
  from vk_kills_dead_variables [OF f h, of id] obtain g where "vk_analyzeFnc id (\<lambda>_. None) (b_stor b) h = Some g"
    "\<forall>u \<in> cfg_blocks h. kills (pointed (b_stor b) []) (blk h u)
       (dead_after (b_stor b) [] h u) (dead_at_target (b_stor b) [] h u) (blk g u)" by auto
  with w h(1) show ?thesis by blast
qed

end
