(* ===== verification/SymState.thy ===== *)
theory SymState
  imports LoopScan "HOL-Library.Multiset"
begin

text \<open>
  Symbolic states (\<open>src/sl/symstate.cc\<close>, \<open>src/sl/symstate.hh\<close>): sets of symbolic heaps that join heaps on
  insertion and remember which of them have been processed, one such set per basic block, and
  the scheduler of basic blocks.

  A heap is a value of an arbitrary type here.  The comparison and the join of heaps are given as functions
  (\<open>join_ops\<close>); the model of the comparison is in \<open>SymCmp\<close>.  The trace nodes of heaps, which document how a heap came about,
  are left out, and with them \<open>updateTraceOf\<close>.

  The lemmas show that an insertion keeps a state well-formed, never loses a concrete state that the heaps stand
  for, never marks a heap as processed, and that the scheduler names every block once.
\<close>

section \<open>Options and operations on heaps\<close>

datatype EJoinStatus = JS_USE_ANY | JS_USE_SH1 | JS_USE_SH2 | JS_THREE_WAY

text \<open>The part of \<open>GlConf::data\<close> that the symbolic states and the engine read.\<close>

record glconf =
  joinOnLoopEdgesOnly :: int
  stateLiveOrdering :: int
  forbidHeapReplace :: bool
  exitLeaks :: bool

record 'h join_ops =
  op_equal :: "'h \<Rightarrow> 'h \<Rightarrow> bool"
  op_join :: "'h \<Rightarrow> 'h \<Rightarrow> bool \<Rightarrow> (EJoinStatus \<times> 'h) option"

section \<open>Marked states\<close>

record 'h marked =
  sm_heaps :: "'h list"
  sm_done :: "bool list"
  sm_pending :: int

definition sm_empty :: "'h marked" where
  "sm_empty = \<lparr>sm_heaps = [], sm_done = [], sm_pending = 0\<rparr>"

definition sm_clear :: "'h marked \<Rightarrow> 'h marked" where
  "sm_clear s = s\<lparr>sm_heaps := [], sm_done := [], sm_pending := 0\<rparr>"

text \<open>Assignment of a state, and the new contents after a swap with one: all heaps are pending.\<close>

definition sm_assign :: "'h list \<Rightarrow> 'h marked" where
  "sm_assign hs = \<lparr>sm_heaps = hs, sm_done = replicate (length hs) False, sm_pending = int (length hs)\<rparr>"

definition sm_insertNew :: "'h \<Rightarrow> 'h marked \<Rightarrow> 'h marked" where
  "sm_insertNew sh s = s\<lparr>sm_heaps := sm_heaps s @ [sh], sm_done := sm_done s @ [False], sm_pending := sm_pending s + 1\<rparr>"

definition remove_nth :: "nat \<Rightarrow> 'a list \<Rightarrow> 'a list" where
  "remove_nth n xs = take n xs @ drop (n + 1) xs"

definition sm_eraseExisting :: "nat \<Rightarrow> 'h marked \<Rightarrow> 'h marked" where
  "sm_eraseExisting n s = s\<lparr>sm_heaps := remove_nth n (sm_heaps s),
     sm_pending := (if \<not> sm_done s ! n then sm_pending s - 1 else sm_pending s),
     sm_done := remove_nth n (sm_done s)\<rparr>"

text \<open>The heap that is swapped in replaces the one at the given index, which the caller gets back.\<close>

definition sm_swapExisting :: "nat \<Rightarrow> 'h \<Rightarrow> 'h marked \<Rightarrow> ('h \<times> 'h marked) option" where
  "sm_swapExisting n sh s =
     (if length (sm_heaps s) \<le> n \<or> length (sm_done s) \<le> n then None
      else let s1 = s\<lparr>sm_heaps := (sm_heaps s)[n := sh]\<rparr> in
        Some (sm_heaps s ! n,
          if \<not> sm_done s ! n then s1
          else s1\<lparr>sm_done := (sm_done s)[n := False], sm_pending := sm_pending s + 1\<rparr>))"

text \<open>\<open>std::rotate\<close> on the range from \<open>a\<close> to the end of a list, with the new first element at \<open>b\<close>.\<close>

definition rotate_at :: "nat \<Rightarrow> nat \<Rightarrow> 'a list \<Rightarrow> 'a list" where
  "rotate_at a b xs = take a xs @ drop b xs @ drop a (take b xs)"

definition sm_rotateExisting :: "nat \<Rightarrow> nat \<Rightarrow> 'h marked \<Rightarrow> 'h marked" where
  "sm_rotateExisting idxA idxB s = s\<lparr>sm_heaps := rotate_at idxA idxB (sm_heaps s), sm_done := rotate_at idxA idxB (sm_done s)\<rparr>"

definition sm_isDone :: "nat \<Rightarrow> 'h marked \<Rightarrow> bool option" where
  "sm_isDone n s = (if length (sm_done s) \<le> n then None else Some (sm_done s ! n))"

definition sm_setDone :: "nat \<Rightarrow> 'h marked \<Rightarrow> 'h marked option" where
  "sm_setDone n s =
     (if length (sm_done s) \<le> n then None
      else Some (s\<lparr>sm_pending := (if \<not> sm_done s ! n then sm_pending s - 1 else sm_pending s),
                   sm_done := (sm_done s)[n := True]\<rparr>))"

text \<open>\<open>SymHeapUnion::lookup\<close>: the index of the first equal heap, which may be moved to the front.\<close>

fun find_from :: "('a \<Rightarrow> bool) \<Rightarrow> nat \<Rightarrow> 'a list \<Rightarrow> nat option" where
  "find_from P n [] = None"
| "find_from P n (x # xs) = (if P x then Some n else find_from P (n + 1) xs)"

definition sm_lookup :: "glconf \<Rightarrow> ('h, 'x) join_ops_scheme \<Rightarrow> 'h \<Rightarrow> 'h marked \<Rightarrow> nat option \<times> 'h marked" where
  "sm_lookup cfg ops lookFor s = (case find_from (op_equal ops lookFor) 0 (sm_heaps s) of
     None \<Rightarrow> (None, s)
   | Some idx \<Rightarrow> (Some idx, if 1 < stateLiveOrdering cfg then sm_rotateExisting 0 idx s else s))"

text \<open>\<open>SymState::insert\<close>\<close>

definition sm_insertUnion :: "glconf \<Rightarrow> ('h, 'x) join_ops_scheme \<Rightarrow> 'h \<Rightarrow> 'h marked \<Rightarrow> bool \<times> 'h marked" where
  "sm_insertUnion cfg ops sh s = (case sm_lookup cfg ops sh s of
     (Some idx, s) \<Rightarrow> (False, s)
   | (None, s) \<Rightarrow> (True, sm_insertNew sh s))"

text \<open>
  The loop of \<open>packState\<close>: every other heap is joined with the one at \<open>idxNew\<close>, and removed if that
  succeeds.  The result has the new index of the heap.
\<close>

lemma remove_nth_length: "n < length xs \<Longrightarrow> length (remove_nth n xs) = length xs - 1"
  by (auto simp: remove_nth_def min_def)

definition pack_replace :: "EJoinStatus \<Rightarrow> 'h \<Rightarrow> nat \<Rightarrow> nat \<Rightarrow> 'h marked \<Rightarrow> 'h marked option" where
  "pack_replace status result idxOld idxNew s = (case status of
     JS_USE_SH1 \<Rightarrow> do {
       (out, s) \<leftarrow> sm_swapExisting idxNew (sm_heaps s ! idxOld) s;
       Some (s\<lparr>sm_heaps := (sm_heaps s)[idxOld := out]\<rparr>)
     }
   | JS_THREE_WAY \<Rightarrow> do { (out, s) \<leftarrow> sm_swapExisting idxNew result s; Some s }
   | _ \<Rightarrow> Some s)"

lemma pack_replace_length: "pack_replace st r i j s = Some s' \<Longrightarrow> length (sm_heaps s') = length (sm_heaps s)"
  by (auto simp: pack_replace_def sm_swapExisting_def Let_def bind_eq_Some_conv split: EJoinStatus.splits if_splits)

function packLoop :: "glconf \<Rightarrow> ('h, 'x) join_ops_scheme \<Rightarrow> bool \<Rightarrow> nat \<Rightarrow> nat \<Rightarrow> 'h marked \<Rightarrow> (nat \<times> 'h marked) option" where
  "packLoop cfg ops allowThreeWay idxOld idxNew s =
     (if length (sm_heaps s) \<le> idxOld then Some (idxNew, s)
      else if idxNew = idxOld then packLoop cfg ops allowThreeWay (idxOld + 1) idxNew s
      else if length (sm_heaps s) \<le> idxNew then None
      else (case op_join ops (sm_heaps s ! idxOld) (sm_heaps s ! idxNew) allowThreeWay of
        None \<Rightarrow> packLoop cfg ops allowThreeWay (idxOld + 1) idxNew s
      | Some (status, result) \<Rightarrow>
          if forbidHeapReplace cfg \<and> status = JS_USE_SH2 then packLoop cfg ops allowThreeWay (idxOld + 1) idxNew s
          else (case pack_replace status result idxOld idxNew s of
            None \<Rightarrow> None
          | Some s' \<Rightarrow> packLoop cfg ops allowThreeWay idxOld (if idxOld < idxNew then idxNew - 1 else idxNew)
              (sm_eraseExisting idxOld s'))))"
  by pat_completeness auto

termination
  by (relation "measure (\<lambda>(cfg, ops, w, idxOld, idxNew, s). length (sm_heaps s) - idxOld)")
    (auto simp: sm_eraseExisting_def remove_nth_length dest: pack_replace_length)

declare packLoop.simps [simp del]

definition packState :: "glconf \<Rightarrow> ('h, 'x) join_ops_scheme \<Rightarrow> nat \<Rightarrow> bool \<Rightarrow> 'h marked \<Rightarrow> 'h marked option" where
  "packState cfg ops idxNew allowThreeWay s = do {
     (idxNew, s) \<leftarrow> packLoop cfg ops allowThreeWay 0 idxNew s;
     Some (if stateLiveOrdering cfg \<noteq> 0 then sm_rotateExisting 0 idxNew s else s)
   }"

definition joinRequested :: "glconf \<Rightarrow> bool \<Rightarrow> bool" where
  "joinRequested cfg allowThreeWay =
     (if joinOnLoopEdgesOnly cfg < 0 then False
      else if joinOnLoopEdgesOnly cfg < 2 then True
      else allowThreeWay)"

text \<open>The search of \<open>SymStateWithJoin::insert\<close> for a heap that can be joined with the given one.\<close>

fun find_join :: "glconf \<Rightarrow> ('h, 'x) join_ops_scheme \<Rightarrow> bool \<Rightarrow> 'h \<Rightarrow> nat \<Rightarrow> 'h list \<Rightarrow> (nat \<times> EJoinStatus \<times> 'h) option" where
  "find_join cfg ops allowThreeWay shNew idx [] = None"
| "find_join cfg ops allowThreeWay shNew idx (shOld # hs) = (case op_join ops shOld shNew allowThreeWay of
     None \<Rightarrow> find_join cfg ops allowThreeWay shNew (idx + 1) hs
   | Some (status, result) \<Rightarrow>
       if forbidHeapReplace cfg \<and> status = JS_USE_SH2 then find_join cfg ops allowThreeWay shNew (idx + 1) hs
       else Some (idx, status, result))"

definition sm_insert :: "glconf \<Rightarrow> ('h, 'x) join_ops_scheme \<Rightarrow> 'h \<Rightarrow> bool \<Rightarrow> 'h marked \<Rightarrow> (bool \<times> 'h marked) option" where
  "sm_insert cfg ops shNew allowThreeWay s =
     (if \<not> joinRequested cfg allowThreeWay then Some (sm_insertUnion cfg ops shNew s)
      else (case find_join cfg ops allowThreeWay shNew 0 (sm_heaps s) of
        None \<Rightarrow> Some (True, sm_insertNew shNew s)
      | Some (idx, status, result) \<Rightarrow>
          if status = JS_USE_SH2 \<or> status = JS_THREE_WAY then do {
            (out, s) \<leftarrow> sm_swapExisting idx (if status = JS_USE_SH2 then shNew else result) s;
            s \<leftarrow> packState cfg ops idx allowThreeWay s;
            Some (True, s)
          } else
            Some (False, if stateLiveOrdering cfg \<noteq> 0 then sm_rotateExisting 0 idx s else s)))"

section \<open>States of all basic blocks\<close>

record 'h block_state =
  bs_state :: "'h marked"
  bs_anyHit :: bool

type_synonym 'h smap = "TBlock \<Rightarrow> 'h block_state"

definition smap_empty :: "'h smap" where
  "smap_empty = (\<lambda>_. \<lparr>bs_state = sm_empty, bs_anyHit = False\<rparr>)"

text \<open>The blocks for which \<open>SymStateMap::insert\<close> skips even the check for equal heaps.\<close>

definition bypass_block :: "glconf \<Rightarrow> cfg \<Rightarrow> TBlock \<Rightarrow> bool option" where
  "bypass_block cf g dst =
     (if \<not> 2 < joinOnLoopEdgesOnly cf then Some False
      else do {
        b \<leftarrow> bb_at g dst;
        if length (inbound b) \<noteq> 1 then Some False
        else do {
          frt \<leftarrow> Block_front b;
          bck \<leftarrow> Block_back b;
          Some (cl_is_term_insn (in_code frt) \<or> in_code bck = CL_INSN_COND \<and> length (bb_insns b) = 2)
        }
      })"

definition smap_insert :: "glconf \<Rightarrow> ('h, 'x) join_ops_scheme \<Rightarrow> cfg \<Rightarrow> TBlock \<Rightarrow> 'h \<Rightarrow> bool \<Rightarrow> 'h smap \<Rightarrow> (bool \<times> 'h smap) option" where
  "smap_insert cf ops g dst sh allowThreeWay m = do {
     bypass \<leftarrow> bypass_block cf g dst;
     let ref = m dst;
     (changed, s) \<leftarrow> (if bypass then Some (True, sm_insertNew sh (bs_state ref))
                      else sm_insert cf ops sh allowThreeWay (bs_state ref));
     Some (changed, m(dst := ref\<lparr>bs_state := s,
       bs_anyHit := bs_anyHit ref \<or> length (sm_heaps s) \<le> length (sm_heaps (bs_state ref))\<rparr>))
   }"

section \<open>The scheduler of basic blocks\<close>

text \<open>
  The depth-first scheduler (\<open>SE_BLOCK_SCHEDULER_KIND\<close> is 2).  The end of the vector \<open>sc_sched\<close> is the top.
\<close>

record block_sched =
  sc_todo :: "TBlock set"
  sc_sched :: "TBlock list"
  sc_done :: "TBlock \<Rightarrow> nat"

definition sched_empty :: block_sched where
  "sched_empty = \<lparr>sc_todo = {}, sc_sched = [], sc_done = (\<lambda>_. 0)\<rparr>"

fun find_last :: "TBlock \<Rightarrow> TBlock list \<Rightarrow> nat option" where
  "find_last bb [] = None"
| "find_last bb (x # xs) = (case find_last bb xs of
     Some i \<Rightarrow> Some (i + 1)
   | None \<Rightarrow> if x = bb then Some 0 else None)"

definition sched_schedule :: "TBlock \<Rightarrow> block_sched \<Rightarrow> (bool \<times> block_sched) option" where
  "sched_schedule bb s =
     (if bb \<notin> sc_todo s
      then Some (True, s\<lparr>sc_todo := insert bb (sc_todo s), sc_sched := sc_sched s @ [bb]\<rparr>)
      else (let cnt = length (sc_sched s) in case find_last bb (sc_sched s) of
        None \<Rightarrow> None
      | Some idx \<Rightarrow>
          if idx + 1 = cnt then Some (False, s)
          else Some (False, s\<lparr>sc_sched := rotate_at idx (cnt - 1) (sc_sched s)\<rparr>)))"

definition sched_getNext :: "block_sched \<Rightarrow> (TBlock option \<times> block_sched) option" where
  "sched_getNext s =
     (if sc_todo s = {} then Some (None, s)
      else if sc_sched s = [] then None
      else do {
        let bb = last (sc_sched s);
        cl_break_if (bb \<notin> sc_todo s);
        Some (Some bb, s\<lparr>sc_sched := butlast (sc_sched s), sc_todo := sc_todo s - {bb},
          sc_done := (sc_done s)(bb := sc_done s bb + 1)\<rparr>)
      })"

section \<open>States as lists of heaps with their marks\<close>

definition sm_of :: "('h \<times> bool) list \<Rightarrow> 'h marked" where
  "sm_of P = \<lparr>sm_heaps = map fst P, sm_done = map snd P, sm_pending = int (length (filter (\<lambda>p. \<not> snd p) P))\<rparr>"

text \<open>The invariant: every heap has a mark, and the pending heaps are counted.\<close>

definition sm_ok :: "'h marked \<Rightarrow> bool" where
  "sm_ok s \<longleftrightarrow> length (sm_done s) = length (sm_heaps s) \<and> sm_pending s = int (length (filter Not (sm_done s)))"

lemma sm_ok_of: "sm_ok (sm_of P)"
  by (simp add: sm_ok_def sm_of_def filter_map o_def)

lemma sm_okE:
  assumes "sm_ok s"
  obtains P where "s = sm_of P"
proof
  have "map snd (zip (sm_heaps s) (sm_done s)) = sm_done s" "map fst (zip (sm_heaps s) (sm_done s)) = sm_heaps s"
    using assms by (simp_all add: sm_ok_def)
  moreover have "length (filter (\<lambda>p. \<not> snd p) (zip (sm_heaps s) (sm_done s))) =
      length (filter Not (map snd (zip (sm_heaps s) (sm_done s))))"
    by (simp add: filter_map o_def)
  ultimately show "s = sm_of (zip (sm_heaps s) (sm_done s))"
    using assms by (simp add: sm_of_def sm_ok_def)
qed

lemma sm_of_fields [simp]:
  "sm_heaps (sm_of P) = map fst P" "sm_done (sm_of P) = map snd P"
  by (simp_all add: sm_of_def)

lemma remove_nth_map: "remove_nth n (map f xs) = map f (remove_nth n xs)"
  by (simp add: remove_nth_def take_map drop_map)

lemma remove_nth_update: "remove_nth n (xs[n := y]) = remove_nth n xs"
  by (simp add: remove_nth_def)

lemma set_remove_nth: "n < length xs \<Longrightarrow> set xs = insert (xs ! n) (set (remove_nth n xs))"
  by (subst id_take_nth_drop [of n xs]) (auto simp: remove_nth_def)

lemma filter_remove_nth:
  "n < length xs \<Longrightarrow> int (length (filter Q (remove_nth n xs))) = int (length (filter Q xs)) - (if Q (xs ! n) then 1 else 0)"
  by (subst (2) id_take_nth_drop [of n xs]) (auto simp: remove_nth_def)

lemma filter_update:
  assumes "n < length xs"
  shows "int (length (filter Q (xs[n := y]))) = int (length (filter Q xs)) - (if Q (xs ! n) then 1 else 0) + (if Q y then 1 else 0)"
  using filter_remove_nth [of n xs Q] filter_remove_nth [of n "xs[n := y]" Q] assms by (simp add: remove_nth_update)

lemma rotate_at_map: "rotate_at a b (map f xs) = map f (rotate_at a b xs)"
  by (simp add: rotate_at_def take_map drop_map)

lemma mset_rotate_at: "a \<le> b \<Longrightarrow> mset (rotate_at a b xs) = mset xs"
proof -
  assume "a \<le> b"
  then have "take a xs @ drop a (take b xs) = take b xs" by (metis append_take_drop_id min.absorb1 take_take)
  then have "mset (take a xs) + mset (drop a (take b xs)) = mset (take b xs)" by (metis mset_append)
  moreover have "mset (take b xs) + mset (drop b xs) = mset xs" by (metis append_take_drop_id mset_append)
  ultimately show ?thesis by (simp add: rotate_at_def) (metis add.assoc add.commute)
qed

lemma set_rotate_at: "a \<le> b \<Longrightarrow> set (rotate_at a b xs) = set xs"
  by (metis mset_rotate_at set_mset_mset)

lemma filter_rotate_at: "a \<le> b \<Longrightarrow> length (filter Q (rotate_at a b xs)) = length (filter Q xs)"
  by (metis mset_filter mset_rotate_at size_mset)

lemma sm_of_ops:
  "sm_empty = sm_of []"
  "sm_clear s = sm_of []"
  "sm_assign hs = sm_of (map (\<lambda>h. (h, False)) hs)"
  "sm_insertNew sh (sm_of P) = sm_of (P @ [(sh, False)])"
  "n < length P \<Longrightarrow> sm_eraseExisting n (sm_of P) = sm_of (remove_nth n P)"
  "sm_rotateExisting 0 n (sm_of P) = sm_of (rotate_at 0 n P)"
  "sm_swapExisting n sh (sm_of P) = (if n < length P then Some (fst (P ! n), sm_of (P[n := (sh, False)])) else None)"
  "sm_isDone n (sm_of P) = (if n < length P then Some (snd (P ! n)) else None)"
  "sm_setDone n (sm_of P) = (if n < length P then Some (sm_of (P[n := (fst (P ! n), True)])) else None)"
  by (auto simp: sm_empty_def sm_clear_def sm_assign_def sm_insertNew_def sm_eraseExisting_def sm_rotateExisting_def
      sm_swapExisting_def sm_isDone_def sm_setDone_def sm_of_def remove_nth_map rotate_at_map filter_rotate_at Let_def
      filter_remove_nth filter_update map_update o_def nth_list_update intro!: nth_equalityI split: if_splits)

section \<open>Coverage\<close>

definition heaps_gamma :: "('h \<Rightarrow> 'c set) \<Rightarrow> 'h list \<Rightarrow> 'c set" where
  "heaps_gamma \<gamma> hs = (\<Union>h \<in> set hs. \<gamma> h)"

text \<open>
  What the join of heaps promises, with the sets of concrete states the heaps stand for: the heap that
  is to be used according to the status covers both.
\<close>

definition join_sound :: "('h \<Rightarrow> 'c set) \<Rightarrow> ('h, 'x) join_ops_scheme \<Rightarrow> bool" where
  "join_sound \<gamma> ops \<longleftrightarrow> (\<forall>a b. op_equal ops a b \<longrightarrow> \<gamma> a = \<gamma> b) \<and>
     (\<forall>a b w st r. op_join ops a b w = Some (st, r) \<longrightarrow> (case st of
        JS_USE_ANY \<Rightarrow> \<gamma> a = \<gamma> b
      | JS_USE_SH1 \<Rightarrow> \<gamma> b \<subseteq> \<gamma> a
      | JS_USE_SH2 \<Rightarrow> \<gamma> a \<subseteq> \<gamma> b
      | JS_THREE_WAY \<Rightarrow> \<gamma> a \<union> \<gamma> b \<subseteq> \<gamma> r))"

text \<open>A state only grows: it covers what it has covered, and it has no new heap marked as done.\<close>

definition grows :: "('h \<Rightarrow> 'c set) \<Rightarrow> ('h \<times> bool) list \<Rightarrow> ('h \<times> bool) list \<Rightarrow> bool" where
  "grows \<gamma> P P' \<longleftrightarrow> heaps_gamma \<gamma> (map fst P) \<subseteq> heaps_gamma \<gamma> (map fst P') \<and>
     (\<forall>h. (h, True) \<in> set P' \<longrightarrow> (h, True) \<in> set P)"

lemma grows_refl [intro]: "grows \<gamma> P P"
  by (simp add: grows_def)

lemma grows_trans: "grows \<gamma> P Q \<Longrightarrow> grows \<gamma> Q R \<Longrightarrow> grows \<gamma> P R"
  unfolding grows_def by blast

lemma grows_same_set: "set P' = set P \<Longrightarrow> grows \<gamma> P P'"
  by (simp add: grows_def heaps_gamma_def)

lemma grows_insertNew: "grows \<gamma> P (P @ [(sh, False)])" "\<gamma> sh \<subseteq> heaps_gamma \<gamma> (map fst (P @ [(sh, False)]))"
  by (auto simp: grows_def heaps_gamma_def)

lemma grows_update:
  assumes "n < length P" "\<gamma> (fst (P ! n)) \<subseteq> \<gamma> sh"
  shows "grows \<gamma> P (P[n := (sh, False)])" "\<gamma> sh \<subseteq> heaps_gamma \<gamma> (map fst (P[n := (sh, False)]))"
proof -
  have s: "set P = insert (P ! n) (set (remove_nth n P))" "set (P[n := (sh, False)]) = insert (sh, False) (set (remove_nth n P))"
    using set_remove_nth [OF assms(1)] set_remove_nth [of n "P[n := (sh, False)]"] assms(1) by (simp_all add: remove_nth_update)
  then show "grows \<gamma> P (P[n := (sh, False)])" "\<gamma> sh \<subseteq> heaps_gamma \<gamma> (map fst (P[n := (sh, False)]))"
    using assms(2) by (auto simp: grows_def heaps_gamma_def)
qed

text \<open>A heap that another one covers may be removed.\<close>

lemma grows_remove:
  assumes "i < length P" "j < length P" "i \<noteq> j" "\<gamma> (fst (P ! i)) \<subseteq> \<gamma> (fst (P ! j))"
  shows "grows \<gamma> P (remove_nth i P)"
proof -
  have s: "set P = insert (P ! i) (set (remove_nth i P))" by (rule set_remove_nth [OF assms(1)])
  have "P ! j \<in> set (remove_nth i P)"
  proof (cases "j < i")
    case True
    then have "P ! j = take i P ! j" "j < length (take i P)" using assms(1) by simp_all
    then show ?thesis unfolding remove_nth_def by (metis UnI1 nth_mem set_append)
  next
    case False
    then have "P ! j = drop (i + 1) P ! (j - (i + 1))" "j - (i + 1) < length (drop (i + 1) P)" using assms by simp_all
    then show ?thesis unfolding remove_nth_def by (metis UnI2 nth_mem set_append)
  qed
  then have "\<gamma> (fst (P ! i)) \<subseteq> heaps_gamma \<gamma> (map fst (remove_nth i P))"
    using assms(4) by (force simp: heaps_gamma_def)
  moreover have "heaps_gamma \<gamma> (map fst P) = \<gamma> (fst (P ! i)) \<union> heaps_gamma \<gamma> (map fst (remove_nth i P))"
    unfolding heaps_gamma_def set_map s by auto
  ultimately show ?thesis using s by (auto simp: grows_def)
qed

lemma pack_replace_grows:
  assumes j: "join_sound \<gamma> ops" "op_join ops (fst (P ! i)) (fst (P ! n)) w = Some (st, r)"
    and len: "i < length P" "n < length P" "i \<noteq> n" and s: "pack_replace st r i n (sm_of P) = Some s'"
  shows "\<exists>P'. sm_eraseExisting i s' = sm_of P' \<and> grows \<gamma> P P' \<and> length P' = length P - 1"
proof -
  have js: "case st of JS_USE_ANY \<Rightarrow> \<gamma> (fst (P ! i)) = \<gamma> (fst (P ! n)) | JS_USE_SH1 \<Rightarrow> \<gamma> (fst (P ! n)) \<subseteq> \<gamma> (fst (P ! i))
    | JS_USE_SH2 \<Rightarrow> \<gamma> (fst (P ! i)) \<subseteq> \<gamma> (fst (P ! n)) | JS_THREE_WAY \<Rightarrow> \<gamma> (fst (P ! i)) \<union> \<gamma> (fst (P ! n)) \<subseteq> \<gamma> r"
    using j unfolding join_sound_def by blast
  have *: "\<exists>P'. sm_eraseExisting i (sm_of (P[n := (x, False)])) = sm_of P' \<and> grows \<gamma> P P' \<and> length P' = length P - 1"
    if "\<gamma> (fst (P ! i)) \<subseteq> \<gamma> x" "\<gamma> (fst (P ! n)) \<subseteq> \<gamma> x" for x
  proof (intro exI conjI)
    show "sm_eraseExisting i (sm_of (P[n := (x, False)])) = sm_of (remove_nth i (P[n := (x, False)]))"
      using len by (simp add: sm_of_ops)
    show "grows \<gamma> P (remove_nth i (P[n := (x, False)]))"
      using that len by (intro grows_trans [OF grows_update(1) grows_remove [of i _ n]]) auto
  qed (use len in \<open>simp add: remove_nth_length\<close>)
  show ?thesis
  proof (cases st)
    case JS_USE_SH1
    let ?x = "fst (P ! i)"
    have e: "s' = (sm_of (P[n := (?x, False)]))\<lparr>sm_heaps := (sm_heaps (sm_of (P[n := (?x, False)])))[i := fst (P ! n)]\<rparr>"
      using s JS_USE_SH1 len by (simp add: pack_replace_def sm_of_ops)
    have "sm_eraseExisting i s' = sm_eraseExisting i (sm_of (P[n := (?x, False)]))"
      unfolding e by (simp add: sm_eraseExisting_def remove_nth_update)
    then show ?thesis using * [of ?x] js JS_USE_SH1 by simp
  next
    case JS_THREE_WAY
    then have "s' = sm_of (P[n := (r, False)])" using s len by (simp add: pack_replace_def sm_of_ops)
    then show ?thesis using * [of r] js JS_THREE_WAY by simp
  next
    case JS_USE_ANY
    then have "s' = sm_of P" "\<gamma> (fst (P ! i)) \<subseteq> \<gamma> (fst (P ! n))" using s js by (simp_all add: pack_replace_def)
    then show ?thesis using grows_remove [of i P n \<gamma>] len by (auto simp: sm_of_ops remove_nth_length)
  next
    case JS_USE_SH2
    then have "s' = sm_of P" "\<gamma> (fst (P ! i)) \<subseteq> \<gamma> (fst (P ! n))" using s js by (simp_all add: pack_replace_def)
    then show ?thesis using grows_remove [of i P n \<gamma>] len by (auto simp: sm_of_ops remove_nth_length)
  qed
qed

lemma packLoop_grows:
  assumes js: "join_sound \<gamma> ops" and p: "packLoop cfg ops w i n (sm_of P) = Some (n', s')"
  shows "\<exists>P'. s' = sm_of P' \<and> grows \<gamma> P P'"
  using p
proof (induction "length P - i" arbitrary: P i n rule: less_induct)
  case less
  have skip: ?case if "i < length P" "packLoop cfg ops w (i + 1) n (sm_of P) = Some (n', s')"
    using that by (intro less.hyps [of P "i + 1" n]) auto
  show ?case
  proof (cases "i < length P \<and> n \<noteq> i")
    case False
    then consider "length P \<le> i" | "i < length P" "n = i" by force
    then show ?thesis using less.prems skip by cases (auto simp: packLoop.simps [of _ _ _ i])
  next
    case True
    show ?thesis
    proof (cases "op_join ops (fst (P ! i)) (fst (P ! n)) w")
      case None
      then show ?thesis using less.prems True skip by (auto simp: packLoop.simps [of _ _ _ i] split: if_splits)
    next
      case (Some p)
      obtain st r where st: "op_join ops (fst (P ! i)) (fst (P ! n)) w = Some (st, r)" using Some by (cases p) auto
      have nl: "n < length P" using less.prems True by (auto simp: packLoop.simps [of _ _ _ i] split: if_splits)
      show ?thesis
      proof (cases "forbidHeapReplace cfg \<and> st = JS_USE_SH2")
        case True
        then show ?thesis using less.prems \<open>i < length P \<and> n \<noteq> i\<close> nl st skip
          by (auto simp: packLoop.simps [of _ _ _ i] split: if_splits)
      next
        case False
        from less.prems True nl st False obtain s1 where s1: "pack_replace st r i n (sm_of P) = Some s1"
          "packLoop cfg ops w i (if i < n then n - 1 else n) (sm_eraseExisting i s1) = Some (n', s')"
          by (auto simp: packLoop.simps [of _ _ _ i] split: option.splits)
        from pack_replace_grows [OF js st _ nl _ s1(1)] True obtain P1 where P1: "sm_eraseExisting i s1 = sm_of P1"
          "grows \<gamma> P P1" "length P1 = length P - 1" by auto
        have "\<exists>P'. s' = sm_of P' \<and> grows \<gamma> P1 P'"
          using s1(2) P1 True by (intro less.hyps) auto
        then show ?thesis using grows_trans [OF P1(2)] by blast
      qed
    qed
  qed
qed

lemma find_from_Some: "find_from Q n xs = Some i \<Longrightarrow> \<exists>k. i = n + k \<and> k < length xs \<and> Q (xs ! k)"
proof (induction xs arbitrary: n)
  case (Cons x xs)
  show ?case
  proof (cases "Q x")
    case True
    then show ?thesis using Cons.prems by (intro exI [of _ 0]) auto
  next
    case False
    with Cons.IH [of "n + 1"] Cons.prems obtain k where "i = n + 1 + k" "k < length xs" "Q (xs ! k)" by auto
    then show ?thesis by (intro exI [of _ "Suc k"]) auto
  qed
qed simp

lemma find_join_Some:
  "find_join cfg ops w sh n hs = Some (i, st, r) \<Longrightarrow> \<exists>k. i = n + k \<and> k < length hs \<and> op_join ops (hs ! k) sh w = Some (st, r)"
proof (induction hs arbitrary: n)
  case (Cons x hs)
  show ?case
  proof (cases "find_join cfg ops w sh (n + 1) hs = Some (i, st, r)")
    case True
    with Cons.IH [of "n + 1"] obtain k where "i = n + 1 + k" "k < length hs" "op_join ops (hs ! k) sh w = Some (st, r)" by auto
    then show ?thesis by (intro exI [of _ "Suc k"]) auto
  next
    case False
    then show ?thesis using Cons.prems by (intro exI [of _ 0]) (auto split: if_splits option.splits)
  qed
qed simp

text \<open>
  Insertion: the state grows and covers the given heap; when nothing is reported to have changed, the
  heaps and their marks are the same up to their order.
\<close>

definition inserted :: "('h \<Rightarrow> 'c set) \<Rightarrow> 'h \<Rightarrow> bool \<Rightarrow> ('h \<times> bool) list \<Rightarrow> ('h \<times> bool) list \<Rightarrow> bool" where
  "inserted \<gamma> sh ch P P' \<longleftrightarrow> grows \<gamma> P P' \<and> \<gamma> sh \<subseteq> heaps_gamma \<gamma> (map fst P') \<and> (\<not> ch \<longrightarrow> set P' = set P)"

lemma inserted_covered:
  assumes "set P' = set P" "n < length P" "\<gamma> sh \<subseteq> \<gamma> (fst (P ! n))"
  shows "inserted \<gamma> sh ch P P'"
proof -
  have "P ! n \<in> set P'" using assms(1,2) by simp
  then have "\<gamma> (fst (P ! n)) \<subseteq> heaps_gamma \<gamma> (map fst P')" by (force simp: heaps_gamma_def)
  then show ?thesis using assms grows_same_set [OF assms(1)] by (auto simp: inserted_def)
qed

lemma sm_insertUnion_inserted:
  assumes "join_sound \<gamma> ops" "sm_insertUnion cfg ops sh (sm_of P) = (ch, s')"
  shows "\<exists>P'. s' = sm_of P' \<and> inserted \<gamma> sh ch P P'"
proof (cases "find_from (op_equal ops sh) 0 (map fst P)")
  case None
  then show ?thesis using assms(2) grows_insertNew(1) [of \<gamma> P sh] grows_insertNew(2) [of \<gamma> sh P]
    by (intro exI [of _ "P @ [(sh, False)]"]) (auto simp: sm_insertUnion_def sm_lookup_def sm_of_ops inserted_def)
next
  case (Some i)
  from find_from_Some [OF Some] have i: "i < length P" "op_equal ops sh (fst (P ! i))" by auto
  then have c: "\<gamma> sh \<subseteq> \<gamma> (fst (P ! i))" using assms(1) unfolding join_sound_def by blast
  define P' where "P' = (if 1 < stateLiveOrdering cfg then rotate_at 0 i P else P)"
  have "s' = sm_of P'" "ch = False"
    using assms(2) Some by (auto simp: sm_insertUnion_def sm_lookup_def sm_of_ops P'_def)
  moreover have "set P' = set P" by (simp add: P'_def set_rotate_at)
  ultimately show ?thesis using inserted_covered [OF _ i(1) c] by blast
qed

lemma sm_insert_inserted:
  assumes js: "join_sound \<gamma> ops" and s: "sm_insert cfg ops sh w (sm_of P) = Some (ch, s')"
  shows "\<exists>P'. s' = sm_of P' \<and> inserted \<gamma> sh ch P P'"
proof (cases "joinRequested cfg w")
  case False
  then show ?thesis using sm_insertUnion_inserted [OF js] s by (simp add: sm_insert_def)
next
  case req: True
  show ?thesis
  proof (cases "find_join cfg ops w sh 0 (map fst P)")
    case None
    then show ?thesis using req s grows_insertNew(1) [of \<gamma> P sh] grows_insertNew(2) [of \<gamma> sh P]
      by (intro exI [of _ "P @ [(sh, False)]"]) (auto simp: sm_insert_def sm_of_ops inserted_def)
  next
    case (Some t)
    then obtain i st r where f: "find_join cfg ops w sh 0 (map fst P) = Some (i, st, r)" by (cases t) auto
    from find_join_Some [OF f] have i: "i < length P" and jn: "op_join ops (fst (P ! i)) sh w = Some (st, r)" by auto
    have c: "case st of JS_USE_ANY \<Rightarrow> \<gamma> (fst (P ! i)) = \<gamma> sh | JS_USE_SH1 \<Rightarrow> \<gamma> sh \<subseteq> \<gamma> (fst (P ! i))
        | JS_USE_SH2 \<Rightarrow> \<gamma> (fst (P ! i)) \<subseteq> \<gamma> sh | JS_THREE_WAY \<Rightarrow> \<gamma> (fst (P ! i)) \<union> \<gamma> sh \<subseteq> \<gamma> r"
      using js jn unfolding join_sound_def by blast
    show ?thesis
    proof (cases "st = JS_USE_SH2 \<or> st = JS_THREE_WAY")
      case True
      let ?x = "if st = JS_USE_SH2 then sh else r"
      have x: "\<gamma> (fst (P ! i)) \<subseteq> \<gamma> ?x" "\<gamma> sh \<subseteq> \<gamma> ?x" using c True by (auto split: EJoinStatus.splits)
      let ?P = "P[i := (?x, False)]"
      from s req f True i obtain s1 where s1: "packState cfg ops i w (sm_of ?P) = Some s1" "s' = s1" "ch = True"
        by (auto simp: sm_insert_def sm_of_ops bind_eq_Some_conv)
      from s1(1) obtain n s2 where s2: "packLoop cfg ops w 0 i (sm_of ?P) = Some (n, s2)"
        "s1 = (if stateLiveOrdering cfg \<noteq> 0 then sm_rotateExisting 0 n s2 else s2)"
        by (auto simp: packState_def bind_eq_Some_conv)
      from packLoop_grows [OF js s2(1)] obtain P2 where P2: "s2 = sm_of P2" "grows \<gamma> ?P P2" by blast
      define P' where "P' = (if stateLiveOrdering cfg \<noteq> 0 then rotate_at 0 n P2 else P2)"
      have "s' = sm_of P'" using s1(2) s2(2) P2(1) by (simp add: P'_def sm_of_ops)
      moreover have "grows \<gamma> P P'"
      proof -
        have "grows \<gamma> P2 P'" by (rule grows_same_set) (simp add: P'_def set_rotate_at)
        then show ?thesis using grows_update(1) [OF i x(1)] P2(2) by (blast intro: grows_trans)
      qed
      moreover have "\<gamma> sh \<subseteq> heaps_gamma \<gamma> (map fst P')"
      proof -
        have "heaps_gamma \<gamma> (map fst P') = heaps_gamma \<gamma> (map fst P2)" by (simp add: P'_def heaps_gamma_def set_rotate_at)
        then show ?thesis using x(2) grows_update(2) [OF i x(1)] P2(2) unfolding grows_def by blast
      qed
      ultimately show ?thesis using s1(3) by (auto simp: inserted_def)
    next
      case False
      define P' where "P' = (if stateLiveOrdering cfg \<noteq> 0 then rotate_at 0 i P else P)"
      have "s' = sm_of P'" using s req f False by (auto simp: sm_insert_def sm_of_ops P'_def)
      moreover have "set P' = set P" by (simp add: P'_def set_rotate_at)
      moreover have "\<gamma> sh \<subseteq> \<gamma> (fst (P ! i))" using c False by (cases st) auto
      ultimately show ?thesis using inserted_covered [OF _ i] by blast
    qed
  qed
qed

section \<open>The scheduler\<close>

definition sched_ok :: "block_sched \<Rightarrow> bool" where
  "sched_ok s \<longleftrightarrow> set (sc_sched s) = sc_todo s \<and> distinct (sc_sched s)"

lemma find_last_Some: "find_last bb xs = Some i \<Longrightarrow> i < length xs \<and> xs ! i = bb"
  by (induction xs arbitrary: i) (auto split: option.splits if_splits)

lemma find_last_None: "find_last bb xs = None \<Longrightarrow> bb \<notin> set xs"
  by (induction xs) (auto split: option.splits if_splits)

lemma sched_schedule_ok:
  assumes "sched_ok s"
  shows "\<exists>r s'. sched_schedule bb s = Some (r, s') \<and> sched_ok s' \<and> sc_todo s' = insert bb (sc_todo s)"
proof (cases "bb \<in> sc_todo s")
  case True
  then obtain i where i: "find_last bb (sc_sched s) = Some i" using assms find_last_None by (fastforce simp: sched_ok_def)
  have "i \<le> length (sc_sched s) - 1" using find_last_Some [OF i] by linarith
  then have "set (rotate_at i (length (sc_sched s) - 1) (sc_sched s)) = set (sc_sched s)"
    "distinct (rotate_at i (length (sc_sched s) - 1) (sc_sched s)) = distinct (sc_sched s)"
    by (simp_all add: set_rotate_at, metis mset_rotate_at mset_eq_imp_distinct_iff)
  then show ?thesis using True assms i by (auto simp: sched_schedule_def sched_ok_def insert_absorb Let_def)
qed (use assms in \<open>auto simp: sched_schedule_def sched_ok_def\<close>)

lemma sched_getNext_ok:
  assumes "sched_ok s" "sc_todo s \<noteq> {}"
  shows "\<exists>bb s'. sched_getNext s = Some (Some bb, s') \<and> sched_ok s' \<and> bb \<in> sc_todo s \<and> sc_todo s' = sc_todo s - {bb}"
proof -
  have "sc_sched s \<noteq> []" using assms by (auto simp: sched_ok_def)
  then obtain xs x where x: "sc_sched s = xs @ [x]" by (metis append_butlast_last_id)
  have "set xs = sc_todo s - {x}" "x \<in> sc_todo s" "distinct xs" using assms(1) x by (auto simp: sched_ok_def)
  then show ?thesis using x assms(2) by (auto simp: sched_getNext_def sched_ok_def Let_def)
qed

end
