(* ===== verification/SymEngine.thy ===== *)
theory SymEngine
  imports SymState
begin

text \<open>
  The engine of the symbolic execution (\<open>SymExecEngine\<close> of \<open>src/sl/symexec.cc\<close>): it takes a basic block from the
  scheduler, executes the heaps of the block that have not been processed yet instruction by instruction, inserts the
  results into the states of the successors and schedules the successors that have changed.

  The effect of single instructions on a heap is given by functions (\<open>exec_ops\<close>).  When an instruction is a call,
  the engine is suspended until the results of the called function are there; here these results are given by
  \<open>op_call\<close>, and the engine goes on with them in place.  Signals, plots and statistics are left out; the heaps that
  are captured at every instruction (\<open>GlConf::data.fixedPoint\<close>) are kept in \<open>en_fixed\<close>, and the heaps that are
  handed over to \<open>dst_\<close>, which belongs to the caller, in \<open>en_dst\<close>.
\<close>

section \<open>Operations of the symbolic execution\<close>

text \<open>
  \<^item> \<open>op_core\<close>: \<open>SymExecCore::exec\<close>, the resulting heaps and whether a fatal error has been reported; \<open>None\<close> when the instruction is a
    call that has to be entered,
  \<^item> \<open>op_call\<close>: the results of a call, and whether the callee has reported an error instead of results,
  \<^item> \<open>op_cond\<close>: the decisions of \<open>execCondInsn\<close>, the heaps that go on to the target of the given index,
  \<^item> \<open>op_return\<close>: the heap at the end of the function,
  \<^item> \<open>op_setExit\<close> and \<open>op_exit\<close>: set the exit point of a heap, and the heap for the caller if it is set,
  \<^item> \<open>op_abstract\<close>: \<open>abstractIfNeeded\<close>.
\<close>

record 'h exec_ops = "'h join_ops" +
  op_core :: "insn \<Rightarrow> 'h \<Rightarrow> ('h list \<times> bool) option"
  op_call :: "insn \<Rightarrow> 'h \<Rightarrow> 'h list \<times> bool"
  op_cond :: "insn \<Rightarrow> insn \<Rightarrow> 'h \<Rightarrow> (nat \<times> 'h) list"
  op_return :: "insn \<Rightarrow> 'h \<Rightarrow> 'h"
  op_setExit :: "'h \<Rightarrow> 'h"
  op_exit :: "'h \<Rightarrow> 'h option"
  op_abstract :: "'h \<Rightarrow> 'h"

section \<open>The engine\<close>

record 'h engine =
  en_map :: "'h smap"
  en_sched :: block_sched
  en_block :: TBlock
  en_local :: "'h list"
  en_next :: "'h list"
  en_dst :: "'h list"
  en_end :: bool
  en_fixed :: "((TBlock \<times> nat) \<times> 'h) list"

text \<open>\<open>initEngine\<close>\<close>

definition eng_init :: "glconf \<Rightarrow> 'h exec_ops \<Rightarrow> cfg \<Rightarrow> 'h \<Rightarrow> 'h engine option" where
  "eng_init cf ops g entry_heap = do {
     entry \<leftarrow> cfg_entry g;
     (_, m) \<leftarrow> smap_insert cf ops g entry entry_heap True smap_empty;
     (_, s) \<leftarrow> sched_schedule entry sched_empty;
     Some \<lparr>en_map = m, en_sched = s, en_block = 0, en_local = [], en_next = [], en_dst = [], en_end = False, en_fixed = []\<rparr>
   }"

definition eng_updateState :: "glconf \<Rightarrow> 'h exec_ops \<Rightarrow> cfg \<Rightarrow> 'h \<Rightarrow> TBlock \<Rightarrow> 'h engine \<Rightarrow> 'h engine option" where
  "eng_updateState cf ops g sh ofBlock e = do {
     ins \<leftarrow> bb_back g (en_block e);
     closingLoop \<leftarrow> isLoopClosingEdge ins ofBlock;
     let sh = (if closingLoop then op_abstract ops sh else sh);
     let closingLoop = (closingLoop \<or> joinOnLoopEdgesOnly cf = 0);
     (changed, m) \<leftarrow> smap_insert cf ops g ofBlock sh closingLoop (en_map e);
     let e = e\<lparr>en_map := m\<rparr>;
     if changed then do { (_, s) \<leftarrow> sched_schedule ofBlock (en_sched e); Some (e\<lparr>en_sched := s\<rparr>) }
     else Some e
   }"

definition target_at :: "insn \<Rightarrow> nat \<Rightarrow> TBlock option" where
  "target_at i n = (if n < length (targets i) then Some (targets i ! n) else None)"

text \<open>\<open>handleExitPoint\<close>: \<open>None\<close> when the heap has no exit point.\<close>

definition eng_handleExit :: "'h exec_ops \<Rightarrow> 'h \<Rightarrow> 'h engine \<Rightarrow> 'h engine option" where
  "eng_handleExit ops h e = (case op_exit ops h of
     None \<Rightarrow> None
   | Some sh \<Rightarrow> Some (e\<lparr>en_end := True, en_dst := en_dst e @ [sh]\<rparr>))"

definition eng_execTerm :: "glconf \<Rightarrow> 'h exec_ops \<Rightarrow> cfg \<Rightarrow> block \<Rightarrow> nat \<Rightarrow> 'h \<Rightarrow> 'h engine \<Rightarrow> 'h engine option" where
  "eng_execTerm cf ops g b k h e = (let i = bb_insns b ! k in case in_code i of
     CL_INSN_RET \<Rightarrow> do {
       cl_break_if (length (operands i) \<noteq> 1);
       Some (e\<lparr>en_dst := en_dst e @ [op_return ops i h], en_end := True\<rparr>)
     }
   | CL_INSN_JMP \<Rightarrow> do { t \<leftarrow> target_at i 0; eng_updateState cf ops g h t e }
   | CL_INSN_COND \<Rightarrow> do {
       cl_break_if (k = 0);
       cl_break_if (in_code (bb_insns b ! (k - 1)) \<noteq> CL_INSN_BINOP);
       ofold (\<lambda>(n, sh) e. do { t \<leftarrow> target_at i n; eng_updateState cf ops g sh t e })
         (op_cond ops (bb_insns b ! (k - 1)) i h) e
     }
   | CL_INSN_ABORT \<Rightarrow> (let e = e\<lparr>en_end := True\<rparr> in
       if \<not> exitLeaks cf then Some e
       else (case eng_handleExit ops (op_setExit ops h) e of None \<Rightarrow> Some e | Some e' \<Rightarrow> Some e'))
   | _ \<Rightarrow> None)"

text \<open>\<open>joinCallResults\<close>: the results of a call are joined with the heaps that are already there.\<close>

definition eng_joinCallResults :: "glconf \<Rightarrow> 'h exec_ops \<Rightarrow> 'h list \<Rightarrow> 'h engine \<Rightarrow> 'h engine option" where
  "eng_joinCallResults cf ops results e = do {
     s \<leftarrow> ofold (\<lambda>h s. do { (_, s) \<leftarrow> sm_insert cf ops h True s; Some s }) results (sm_assign (en_next e));
     Some (e\<lparr>en_next := sm_heaps s\<rparr>)
   }"

definition eng_execNonterm :: "glconf \<Rightarrow> 'h exec_ops \<Rightarrow> insn \<Rightarrow> 'h \<Rightarrow> 'h engine \<Rightarrow> 'h engine option" where
  "eng_execNonterm cf ops i h e = (case op_core ops i h of
     Some (hs, fatal) \<Rightarrow> Some (e\<lparr>en_next := en_next e @ hs, en_end := en_end e \<or> fatal\<rparr>)
   | None \<Rightarrow> do {
       cl_break_if (in_code i \<noteq> CL_INSN_CALL);
       let (results, forceEnd) = op_call ops i h;
       e \<leftarrow> eng_joinCallResults cf ops results e;
       Some (e\<lparr>en_end := en_end e \<or> forceEnd\<rparr>)
     })"

text \<open>\<open>execInsn\<close>: the look-ahead for a conditional jump, one heap, and the loop over all heaps.\<close>

definition next_is_cond :: "block \<Rightarrow> nat \<Rightarrow> bool option" where
  "next_is_cond b k =
     (if cl_is_term_insn (in_code (bb_insns b ! k)) then Some False
      else if length (bb_insns b) \<le> k + 1 then None
      else if in_code (bb_insns b ! (k + 1)) = CL_INSN_COND
      then do { cl_break_if (in_code (bb_insns b ! k) \<noteq> CL_INSN_BINOP); Some True }
      else Some False)"

definition upd_marked :: "TBlock \<Rightarrow> 'h marked \<Rightarrow> 'h engine \<Rightarrow> 'h engine" where
  "upd_marked bb s e = e\<lparr>en_map := (en_map e)(bb := (en_map e bb)\<lparr>bs_state := s\<rparr>)\<rparr>"

definition eng_execHeap :: "glconf \<Rightarrow> 'h exec_ops \<Rightarrow> cfg \<Rightarrow> block \<Rightarrow> nat \<Rightarrow> bool \<Rightarrow> 'h \<Rightarrow> 'h engine \<Rightarrow> 'h engine option" where
  "eng_execHeap cf ops g b k nextInsnIsCond h e = do {
     let e = e\<lparr>en_fixed := en_fixed e @ [((en_block e, k), h)]\<rparr>;
     if nextInsnIsCond then Some e
     else (case eng_handleExit ops h e of
         Some e' \<Rightarrow> Some e'
       | None \<Rightarrow>
           if cl_is_term_insn (in_code (bb_insns b ! k)) then eng_execTerm cf ops g b k h e
           else eng_execNonterm cf ops (bb_insns b ! k) h e)
   }"

definition eng_stepHeap :: "glconf \<Rightarrow> 'h exec_ops \<Rightarrow> cfg \<Rightarrow> block \<Rightarrow> nat \<Rightarrow> bool \<Rightarrow> 'h list \<Rightarrow> nat \<Rightarrow> 'h engine \<Rightarrow> 'h engine option" where
  "eng_stepHeap cf ops g b k nextInsnIsCond localState heapIdx e =
     (if k \<noteq> 0 then eng_execHeap cf ops g b k nextInsnIsCond (localState ! heapIdx) e
      else do {
        let origin = bs_state (en_map e (en_block e));
        isDone \<leftarrow> sm_isDone heapIdx origin;
        if isDone then Some e
        else do {
          origin \<leftarrow> sm_setDone heapIdx origin;
          eng_execHeap cf ops g b k nextInsnIsCond (localState ! heapIdx) (upd_marked (en_block e) origin e)
        }
      })"

definition eng_execInsn :: "glconf \<Rightarrow> 'h exec_ops \<Rightarrow> cfg \<Rightarrow> block \<Rightarrow> nat \<Rightarrow> 'h engine \<Rightarrow> 'h engine option" where
  "eng_execInsn cf ops g b k e = do {
     nextInsnIsCond \<leftarrow> next_is_cond b k;
     let localState = en_local e;
     e \<leftarrow> ofold (eng_stepHeap cf ops g b k nextInsnIsCond localState) [0..<length localState] (e\<lparr>en_next := []\<rparr>);
     Some (if nextInsnIsCond then e\<lparr>en_local := en_next e, en_next := en_local e\<rparr> else e)
   }"

text \<open>\<open>pruneOrigin\<close>, with the thresholds of \<open>src/sl/config.h\<close>.\<close>

definition SE_STATE_PRUNING_MISS_THR :: nat where
  "SE_STATE_PRUNING_MISS_THR = 8"

definition SE_STATE_PRUNING_TOTAL_THR :: nat where
  "SE_STATE_PRUNING_TOTAL_THR = 128"

definition prune_wanted :: "block \<Rightarrow> 'h block_state \<Rightarrow> bool option" where
  "prune_wanted b bs = (let size = length (sm_heaps (bs_state bs)) in
     if \<not> bs_anyHit bs \<and> SE_STATE_PRUNING_MISS_THR \<le> size then Some True
     else if SE_STATE_PRUNING_TOTAL_THR \<le> size then Some True
     else do {
       frt \<leftarrow> Block_front b;
       bck \<leftarrow> Block_back b;
       Some (\<not> (\<not> cl_is_term_insn (in_code frt) \<and> (in_code bck \<noteq> CL_INSN_COND \<or> 2 < length (bb_insns b))) \<and>
             \<not> 1 < length (inbound b))
     })"

definition eng_pruneOrigin :: "cfg \<Rightarrow> block \<Rightarrow> 'h engine \<Rightarrow> 'h engine option" where
  "eng_pruneOrigin g b e = do {
     loopEntry \<leftarrow> isLoopEntry g (en_block e);
     if loopEntry then Some e
     else do {
       let bs = en_map e (en_block e);
       wanted \<leftarrow> prune_wanted b bs;
       if \<not> wanted then Some e
       else do {
         _ \<leftarrow> ofold (\<lambda>i _. do { d \<leftarrow> sm_isDone i (bs_state bs); cl_break_if (\<not> d) }) [0..<length (sm_heaps (bs_state bs))] ();
         Some (upd_marked (en_block e) (sm_clear (bs_state bs)) e)
       }
     }
   }"

text \<open>\<open>execBlock\<close>: the loop over the instructions from index \<open>k\<close> on ends early when no heap is left.\<close>

fun eng_execInsns :: "glconf \<Rightarrow> 'h exec_ops \<Rightarrow> cfg \<Rightarrow> block \<Rightarrow> nat list \<Rightarrow> 'h engine \<Rightarrow> 'h engine option" where
  "eng_execInsns cf ops g b [] e = Some e"
| "eng_execInsns cf ops g b (k # ks) e = do {
     e \<leftarrow> eng_execInsn cf ops g b k e;
     e \<leftarrow> (if k = 0 then eng_pruneOrigin g b e else Some e);
     if en_next e = [] then Some e
     else eng_execInsns cf ops g b ks (e\<lparr>en_local := en_next e, en_next := en_local e\<rparr>)
   }"

definition eng_execBlock :: "glconf \<Rightarrow> 'h exec_ops \<Rightarrow> cfg \<Rightarrow> 'h engine \<Rightarrow> 'h engine option" where
  "eng_execBlock cf ops g e = do {
     b \<leftarrow> bb_at g (en_block e);
     eng_execInsns cf ops g b [0..<length (bb_insns b)]
       (e\<lparr>en_local := sm_heaps (bs_state (en_map e (en_block e)))\<rparr>)
   }"

text \<open>One turn of the main loop of \<open>run\<close>, which returns \<open>None\<close> inside when nothing is scheduled, and the loop itself.\<close>

definition eng_turn :: "glconf \<Rightarrow> 'h exec_ops \<Rightarrow> cfg \<Rightarrow> 'h engine \<Rightarrow> 'h engine option option" where
  "eng_turn cf ops g e = do {
     (nxt, s) \<leftarrow> sched_getNext (en_sched e);
     case nxt of
       None \<Rightarrow> Some None
     | Some bb \<Rightarrow> do {
         b \<leftarrow> bb_at g bb;
         _ \<leftarrow> Block_front b;
         e' \<leftarrow> eng_execBlock cf ops g (e\<lparr>en_sched := s, en_block := bb\<rparr>);
         Some (Some e')
       }
   }"

partial_function (option) eng_run :: "glconf \<Rightarrow> 'h exec_ops \<Rightarrow> cfg \<Rightarrow> 'h engine \<Rightarrow> 'h engine option" where
  "eng_run cf ops g e = do {
     r \<leftarrow> eng_turn cf ops g e;
     case r of None \<Rightarrow> Some e | Some e' \<Rightarrow> eng_run cf ops g e'
   }"

declare eng_run.simps [code]

text \<open>A fresh engine, with the check that exactly the entry block is scheduled.\<close>

definition eng_start :: "glconf \<Rightarrow> 'h exec_ops \<Rightarrow> cfg \<Rightarrow> 'h \<Rightarrow> 'h engine option" where
  "eng_start cf ops g entry_heap = do {
     e \<leftarrow> eng_init cf ops g entry_heap;
     cl_break_if (card (sc_todo (en_sched e)) \<noteq> 1);
     eng_run cf ops g e
   }"

end
