(* ===== verification/EngSteps.thy ===== *)
theory EngSteps
  imports SymEngine
begin

text \<open>
  The steps of a program on concrete states, what the operations on heaps promise with regard to them, and the invariant of the engine of
  \<open>SymEngine\<close> for the insertion into the states of blocks and for the execution of one heap.
\<close>

section \<open>Executions of the program\<close>

text \<open>
  The instructions of the program on concrete states: \<open>cs_core\<close> relates the states before and after a
  non-terminal instruction (a call with the run of its callee), \<open>cs_cond\<close> the states before and after a comparison
  with a conditional jump to the target of the given index, and \<open>cs_exited\<close> holds for states in which the program
  has been left by a call of \<open>exit\<close>.
\<close>

record 'c csem =
  cs_core :: "insn \<Rightarrow> 'c \<Rightarrow> 'c \<Rightarrow> bool"
  cs_cond :: "insn \<Rightarrow> insn \<Rightarrow> 'c \<Rightarrow> nat \<Rightarrow> 'c \<Rightarrow> bool"
  cs_exited :: "'c \<Rightarrow> bool"

inductive cstep :: "cfg \<Rightarrow> 'c csem \<Rightarrow> (TBlock \<times> nat) \<times> 'c \<Rightarrow> (TBlock \<times> nat) \<times> 'c \<Rightarrow> bool" for g cs where
  look: "bb_at g bb = Some b \<Longrightarrow> k < length (bb_insns b) \<Longrightarrow> next_is_cond b k = Some True \<Longrightarrow>
    cstep g cs ((bb, k), c) ((bb, k + 1), c)"
| core: "bb_at g bb = Some b \<Longrightarrow> k < length (bb_insns b) \<Longrightarrow> next_is_cond b k = Some False \<Longrightarrow>
    \<not> cl_is_term_insn (in_code (bb_insns b ! k)) \<Longrightarrow> \<not> cs_exited cs c \<Longrightarrow> cs_core cs (bb_insns b ! k) c c' \<Longrightarrow>
    cstep g cs ((bb, k), c) ((bb, k + 1), c')"
| jmp: "bb_at g bb = Some b \<Longrightarrow> k < length (bb_insns b) \<Longrightarrow> in_code (bb_insns b ! k) = CL_INSN_JMP \<Longrightarrow>
    \<not> cs_exited cs c \<Longrightarrow> target_at (bb_insns b ! k) 0 = Some t \<Longrightarrow> cstep g cs ((bb, k), c) ((t, 0), c)"
| cond: "bb_at g bb = Some b \<Longrightarrow> k < length (bb_insns b) \<Longrightarrow> in_code (bb_insns b ! k) = CL_INSN_COND \<Longrightarrow> 0 < k \<Longrightarrow>
    \<not> cs_exited cs c \<Longrightarrow> cs_cond cs (bb_insns b ! (k - 1)) (bb_insns b ! k) c n c' \<Longrightarrow> target_at (bb_insns b ! k) n = Some t \<Longrightarrow>
    cstep g cs ((bb, k), c) ((t, 0), c')"

section \<open>What the operations promise\<close>

definition reports_error :: "'h exec_ops \<Rightarrow> insn \<Rightarrow> 'h \<Rightarrow> bool" where
  "reports_error ops i h = (case op_core ops i h of Some (hs, fatal) \<Rightarrow> fatal | None \<Rightarrow> snd (op_call ops i h))"

definition exec_sound :: "('h \<Rightarrow> 'c set) \<Rightarrow> 'h exec_ops \<Rightarrow> 'c csem \<Rightarrow> bool" where
  "exec_sound \<gamma> ops cs \<longleftrightarrow>
     (\<forall>i h c c'. \<not> reports_error ops i h \<longrightarrow> c \<in> \<gamma> h \<longrightarrow> cs_core cs i c c' \<longrightarrow>
        c' \<in> heaps_gamma \<gamma> (case op_core ops i h of Some (hs, fatal) \<Rightarrow> hs | None \<Rightarrow> fst (op_call ops i h))) \<and>
     (\<forall>i j h c n c'. c \<in> \<gamma> h \<longrightarrow> cs_cond cs i j c n c' \<longrightarrow> (\<exists>h'. (n, h') \<in> set (op_cond ops i j h) \<and> c' \<in> \<gamma> h')) \<and>
     (\<forall>h h' c. op_exit ops h = Some h' \<longrightarrow> c \<in> \<gamma> h \<longrightarrow> cs_exited cs c) \<and>
     (\<forall>h. \<gamma> h \<subseteq> \<gamma> (op_abstract ops h))"

definition error_free :: "'h exec_ops \<Rightarrow> cfg \<Rightarrow> TBlock \<times> nat \<Rightarrow> 'h \<Rightarrow> bool" where
  "error_free ops g p h \<longleftrightarrow> (\<forall>b. bb_at g (fst p) = Some b \<longrightarrow> next_is_cond b (snd p) = Some False \<longrightarrow>
     \<not> cl_is_term_insn (in_code (bb_insns b ! snd p)) \<longrightarrow> \<not> reports_error ops (bb_insns b ! snd p) h)"

text \<open>
  The block jumps to itself with its first instruction.  An execution that enters such a block never leaves it, and the marks
  of its heaps move while its heaps are walked, so that a heap of it may be passed over.
\<close>

definition self_jump :: "cfg \<Rightarrow> TBlock \<Rightarrow> bool" where
  "self_jump g bb = (case bb_at g bb of None \<Rightarrow> False | Some b \<Rightarrow> bb_insns b \<noteq> [] \<and>
     in_code (bb_insns b ! 0) = CL_INSN_JMP \<and> target_at (bb_insns b ! 0) 0 = Some bb)"

section \<open>Invariants of the engine\<close>

definition logged :: "('h \<Rightarrow> 'c set) \<Rightarrow> 'h engine \<Rightarrow> TBlock \<times> nat \<Rightarrow> 'c \<Rightarrow> bool" where
  "logged \<gamma> e p c \<longleftrightarrow> (\<exists>h. (p, h) \<in> set (en_fixed e) \<and> c \<in> \<gamma> h)"

abbreviation marks :: "'h engine \<Rightarrow> TBlock \<Rightarrow> 'h marked" where
  "marks e t \<equiv> bs_state (en_map e t)"

definition covers :: "cfg \<Rightarrow> ('h \<Rightarrow> 'c set) \<Rightarrow> 'h engine \<Rightarrow> TBlock \<Rightarrow> 'c \<Rightarrow> bool" where
  "covers g \<gamma> e t c \<longleftrightarrow> self_jump g t \<or> c \<in> heaps_gamma \<gamma> (sm_heaps (marks e t)) \<or> logged \<gamma> e (t, 0) c"

text \<open>
  The states are well-formed, processed heaps have been captured, and blocks with pending heaps
  are scheduled, except for those in \<open>U\<close> and for blocks that jump to themselves.
\<close>

definition mark_ok :: "cfg \<Rightarrow> 'h engine \<Rightarrow> TBlock \<Rightarrow> bool \<Rightarrow> ('h \<times> bool) list \<Rightarrow> bool" where
  "mark_ok g e t u P \<longleftrightarrow> \<not> self_jump g t \<longrightarrow> (\<forall>h. (h, True) \<in> set P \<longrightarrow> ((t, 0), h) \<in> set (en_fixed e)) \<and>
     (\<forall>h. (h, False) \<in> set P \<longrightarrow> \<not> u \<longrightarrow> t \<in> sc_todo (en_sched e))"

definition eng_base :: "cfg \<Rightarrow> 'h engine \<Rightarrow> TBlock set \<Rightarrow> bool" where
  "eng_base g e U \<longleftrightarrow> sched_ok (en_sched e) \<and> (\<forall>t. \<exists>P. marks e t = sm_of P \<and> mark_ok g e t (t \<in> U) P)"

lemma eng_baseD: "eng_base g e U \<Longrightarrow> \<exists>P. marks e t = sm_of P \<and> mark_ok g e t (t \<in> U) P"
  by (simp add: eng_base_def)

lemma eng_base_cong:
  "eng_base g e U \<Longrightarrow> en_map e' = en_map e \<Longrightarrow> en_sched e' = en_sched e \<Longrightarrow> set (en_fixed e) \<subseteq> set (en_fixed e') \<Longrightarrow> eng_base g e' U"
  unfolding eng_base_def mark_ok_def by (auto, blast)

definition eng_keeps :: "cfg \<Rightarrow> ('h \<Rightarrow> 'c set) \<Rightarrow> 'h engine \<Rightarrow> 'h engine \<Rightarrow> bool" where
  "eng_keeps g \<gamma> e e' \<longleftrightarrow> en_block e' = en_block e \<and> set (en_fixed e) \<subseteq> set (en_fixed e') \<and>
     (\<forall>t c. covers g \<gamma> e t c \<longrightarrow> covers g \<gamma> e' t c)"

lemma eng_keeps_trans: "eng_keeps g \<gamma> e1 e2 \<Longrightarrow> eng_keeps g \<gamma> e2 e3 \<Longrightarrow> eng_keeps g \<gamma> e1 e3"
  unfolding eng_keeps_def by auto

lemma eng_keepsI:
  "en_map e' = en_map e \<Longrightarrow> en_block e' = en_block e \<Longrightarrow> set (en_fixed e) \<subseteq> set (en_fixed e') \<Longrightarrow> eng_keeps g \<gamma> e e'"
  unfolding eng_keeps_def covers_def logged_def by (metis subsetD)

lemma logged_mono: "set (en_fixed e) \<subseteq> set (en_fixed e') \<Longrightarrow> logged \<gamma> e p c \<Longrightarrow> logged \<gamma> e' p c"
  unfolding logged_def by blast

section \<open>Insertion into the states of blocks\<close>

lemma smap_insert_inserted:
  assumes js: "join_sound \<gamma> ops" and s: "smap_insert cf ops g t sh w m = Some (ch, m')" and P: "bs_state (m t) = sm_of P"
  shows "\<exists>P'. bs_state (m' t) = sm_of P' \<and> inserted \<gamma> sh ch P P' \<and> (\<forall>u. u \<noteq> t \<longrightarrow> m' u = m u)"
proof -
  from s obtain byp s' where b: "bypass_block cf g t = Some byp" and
    i: "(if byp then Some (True, sm_insertNew sh (sm_of P)) else sm_insert cf ops sh w (sm_of P)) = Some (ch, s')"
    and m': "bs_state (m' t) = s'" "\<forall>u. u \<noteq> t \<longrightarrow> m' u = m u"
    unfolding smap_insert_def P [symmetric] by (auto simp: bind_eq_Some_conv Let_def)
  have "\<exists>P'. s' = sm_of P' \<and> inserted \<gamma> sh ch P P'"
  proof (cases byp)
    case True
    then show ?thesis using i grows_insertNew(1) [of \<gamma> P sh] grows_insertNew(2) [of \<gamma> sh P]
      by (intro exI [of _ "P @ [(sh, False)]"]) (auto simp: sm_of_ops inserted_def)
  next
    case False
    then show ?thesis using sm_insert_inserted [OF js] i by simp
  qed
  then show ?thesis using m' by auto
qed

text \<open>What an insertion into the state of block \<open>t\<close> does to the engine.\<close>

definition eng_updated :: "cfg \<Rightarrow> ('h \<Rightarrow> 'c set) \<Rightarrow> TBlock set \<Rightarrow> TBlock set \<Rightarrow> 'h engine \<Rightarrow> 'h engine \<Rightarrow> bool" where
  "eng_updated g \<gamma> U T e e' \<longleftrightarrow> eng_base g e' U \<and> eng_keeps g \<gamma> e e' \<and> en_fixed e' = en_fixed e \<and> en_next e' = en_next e \<and>
     en_local e' = en_local e \<and> (\<forall>t. t \<notin> T \<longrightarrow> en_map e' t = en_map e t)"

lemma eng_updated_refl: "eng_base g e U \<Longrightarrow> eng_updated g \<gamma> U T e e"
  by (simp add: eng_updated_def eng_keeps_def)

lemma eng_updated_trans: "eng_updated g \<gamma> U T e1 e2 \<Longrightarrow> eng_updated g \<gamma> U T e2 e3 \<Longrightarrow> eng_updated g \<gamma> U T e1 e3"
  unfolding eng_updated_def by (auto intro: eng_keeps_trans)

lemma eng_updateState_updated:
  assumes js: "join_sound \<gamma> ops" and ab: "\<forall>h. \<gamma> h \<subseteq> \<gamma> (op_abstract ops h)" and base: "eng_base g e U"
    and s: "eng_updateState cf ops g sh t e = Some e'" and T: "t \<in> T"
  shows "eng_updated g \<gamma> U T e e'" "\<forall>c \<in> \<gamma> sh. covers g \<gamma> e' t c"
proof -
  from s obtain cl ch m where i: "smap_insert cf ops g t (if cl then op_abstract ops sh else sh) (cl \<or> joinOnLoopEdgesOnly cf = 0)
      (en_map e) = Some (ch, m)"
    and e': "(if ch then do { (_, s) \<leftarrow> sched_schedule t (en_sched e); Some (e\<lparr>en_map := m, en_sched := s\<rparr>) }
      else Some (e\<lparr>en_map := m\<rparr>)) = Some e'"
    unfolding eng_updateState_def Let_def by (auto simp: bind_eq_Some_conv cong: if_cong)
  define sh' where "sh' = (if cl then op_abstract ops sh else sh)"
  have sub: "\<gamma> sh \<subseteq> \<gamma> sh'" using ab by (simp add: sh'_def)
  note i = i [folded sh'_def]
  from eng_baseD [OF base, of t] obtain P where P: "marks e t = sm_of P" "mark_ok g e t (t \<in> U) P" by blast
  from smap_insert_inserted [OF js i P(1)] obtain P' where P': "bs_state (m t) = sm_of P'" "inserted \<gamma> sh' ch P P'"
    and m: "\<forall>u. u \<noteq> t \<longrightarrow> m u = en_map e u" by blast
  from base have so: "sched_ok (en_sched e)" by (simp add: eng_base_def)
  from sched_schedule_ok [OF so, of t] obtain r s' where s': "sched_schedule t (en_sched e) = Some (r, s')" "sched_ok s'"
    "sc_todo s' = insert t (sc_todo (en_sched e))" by blast
  define s2 where "s2 = (if ch then s' else en_sched e)"
  have e2: "e' = e\<lparr>en_map := m, en_sched := s2\<rparr>" using e' s'(1) by (auto simp: s2_def split: if_splits)
  have td: "sc_todo (en_sched e) \<subseteq> sc_todo s2" "ch \<longrightarrow> t \<in> sc_todo s2" "sched_ok s2" using s' so by (auto simp: s2_def)
  have mk: "mark_ok g e' t (t \<in> U) P'"
  proof -
    have "(h, True) \<in> set P' \<longrightarrow> (h, True) \<in> set P" for h using P'(2) by (auto simp: inserted_def grows_def)
    moreover have "(h, False) \<in> set P' \<longrightarrow> \<not> ch \<longrightarrow> (h, False) \<in> set P" for h using P'(2) by (auto simp: inserted_def)
    ultimately show ?thesis using P(2) td unfolding mark_ok_def e2 by simp blast
  qed
  have "\<exists>Q. marks e' u = sm_of Q \<and> mark_ok g e' u (u \<in> U) Q" for u
  proof (cases "u = t")
    case True
    then show ?thesis using mk P'(1) by (auto simp: e2)
  next
    case False
    from eng_baseD [OF base, of u] obtain Q where "marks e u = sm_of Q" "mark_ok g e u (u \<in> U) Q" by blast
    then show ?thesis using m False td by (intro exI [of _ Q]) (auto simp: e2 mark_ok_def)
  qed
  then have b': "eng_base g e' U" using td by (simp add: eng_base_def e2)
  have cv: "covers g \<gamma> e u c \<longrightarrow> covers g \<gamma> e' u c" for u c
  proof (cases "u = t")
    case True
    then show ?thesis using P'(2) unfolding inserted_def grows_def by (auto simp: covers_def logged_def e2 P(1) P'(1))
  next
    case False
    then show ?thesis using m by (simp add: covers_def logged_def e2)
  qed
  moreover have "\<forall>u. u \<notin> T \<longrightarrow> m u = en_map e u"
  proof (intro allI impI)
    fix u
    assume "u \<notin> T"
    then have "u \<noteq> t" using T by auto
    then show "m u = en_map e u" using m by simp
  qed
  ultimately show "eng_updated g \<gamma> U T e e'" using b' by (auto simp: eng_updated_def eng_keeps_def e2)
  show "\<forall>c \<in> \<gamma> sh. covers g \<gamma> e' t c"
    using P' sub by (auto simp: covers_def e2 inserted_def)
qed

section \<open>One heap\<close>

lemma exec_soundD:
  assumes "exec_sound \<gamma> ops cs"
  shows "\<not> reports_error ops i h \<Longrightarrow> c \<in> \<gamma> h \<Longrightarrow> cs_core cs i c c' \<Longrightarrow>
      c' \<in> heaps_gamma \<gamma> (case op_core ops i h of Some (hs, fatal) \<Rightarrow> hs | None \<Rightarrow> fst (op_call ops i h))"
    "c \<in> \<gamma> h \<Longrightarrow> cs_cond cs i j c n c' \<Longrightarrow> \<exists>h'. (n, h') \<in> set (op_cond ops i j h) \<and> c' \<in> \<gamma> h'"
    "op_exit ops h = Some h' \<Longrightarrow> c \<in> \<gamma> h \<Longrightarrow> cs_exited cs c"
    "\<forall>h. \<gamma> h \<subseteq> \<gamma> (op_abstract ops h)"
  using assms unfolding exec_sound_def by blast+

text \<open>The decisions of a conditional jump are handed on one after the other.\<close>

lemma ofold_updateState:
  assumes js: "join_sound \<gamma> ops" and ab: "\<forall>h. \<gamma> h \<subseteq> \<gamma> (op_abstract ops h)"
  shows "eng_base g e U \<Longrightarrow>
    ofold (\<lambda>(n, sh) e. do { t \<leftarrow> target_at i n; eng_updateState cf ops g sh t e }) ds e = Some e' \<Longrightarrow>
    eng_updated g \<gamma> U (set (targets i)) e e' \<and>
    (\<forall>(n, sh) \<in> set ds. \<forall>t. target_at i n = Some t \<longrightarrow> (\<forall>c \<in> \<gamma> sh. covers g \<gamma> e' t c))"
proof (induction ds arbitrary: e)
  case Nil
  then show ?case by (simp add: eng_updated_refl)
next
  case (Cons d ds)
  obtain n sh where d: "d = (n, sh)" by (cases d) auto
  from Cons.prems(2) obtain t e1 where t: "target_at i n = Some t" and e1: "eng_updateState cf ops g sh t e = Some e1"
    and r: "ofold (\<lambda>(n, sh) e. do { t \<leftarrow> target_at i n; eng_updateState cf ops g sh t e }) ds e1 = Some e'"
    by (auto simp: d bind_eq_Some_conv)
  have tT: "t \<in> set (targets i)" using t by (auto simp: target_at_def split: if_splits)
  note u = eng_updateState_updated [OF js ab Cons.prems(1) e1 tT]
  have "eng_base g e1 U" using u(1) by (simp add: eng_updated_def)
  note ih = Cons.IH [OF this r]
  then have "eng_keeps g \<gamma> e1 e'" by (simp add: eng_updated_def)
  then have "\<forall>c \<in> \<gamma> sh. covers g \<gamma> e' t c" using u(2) unfolding eng_keeps_def by blast
  then show ?case using ih t eng_updated_trans [OF u(1)] by (auto simp: d)
qed

text \<open>The steps of the program from a heap go to covered places or to the next instruction.\<close>

definition steps_covered :: "('h \<Rightarrow> 'c set) \<Rightarrow> cfg \<Rightarrow> 'c csem \<Rightarrow> TBlock \<times> nat \<Rightarrow> 'h \<Rightarrow> 'h engine \<Rightarrow> 'c set \<Rightarrow> bool" where
  "steps_covered \<gamma> g cs p h e N \<longleftrightarrow> (\<forall>c \<in> \<gamma> h. \<forall>p' c'. cstep g cs (p, c) (p', c') \<longrightarrow>
     (if snd p' = 0 then covers g \<gamma> e (fst p') c' else p' = (fst p, snd p + 1) \<and> c' \<in> N))"

inductive_cases cstepE: "cstep g cs ((bb, k), c) (p', c')"

lemma next_is_cond_term: "cl_is_term_insn (in_code (bb_insns b ! k)) \<Longrightarrow> next_is_cond b k = Some False"
  by (simp add: next_is_cond_def)

text \<open>The blocks that a heap is handed on to.\<close>

definition jump_targets :: "block \<Rightarrow> nat \<Rightarrow> TBlock set" where
  "jump_targets b k = (let i = bb_insns b ! k in
     if in_code i = CL_INSN_JMP then set_option (target_at i 0) else if in_code i = CL_INSN_COND \<and> 0 < k then set (targets i) else {})"

lemma eng_execTerm_step:
  assumes js: "join_sound \<gamma> ops" and es: "exec_sound \<gamma> ops cs" and base: "eng_base g e U"
    and b: "bb_at g bb = Some b" and tm: "cl_is_term_insn (in_code (bb_insns b ! k))"
    and s: "eng_execTerm cf ops g b k h e = Some e'"
  shows "eng_updated g \<gamma> U (jump_targets b k) e e' \<and> steps_covered \<gamma> g cs (bb, k) h e' N"
proof -
  note ab = exec_soundD(4) [OF es]
  let ?i = "bb_insns b ! k"
  have nostep: "steps_covered \<gamma> g cs (bb, k) h e' N" if "in_code ?i \<noteq> CL_INSN_JMP" "in_code ?i \<noteq> CL_INSN_COND"
    using that b tm unfolding steps_covered_def by (auto elim!: cstepE simp: next_is_cond_term)
  have upd: "eng_updated g \<gamma> U T e (e\<lparr>en_dst := d, en_end := x\<rparr>)" for T d x
    using base by (auto simp: eng_updated_def intro!: eng_keepsI elim: eng_base_cong)
  show ?thesis
  proof (cases "in_code ?i")
    case CL_INSN_JMP
    from s CL_INSN_JMP obtain t where t: "target_at ?i 0 = Some t" and u: "eng_updateState cf ops g h t e = Some e'"
      by (auto simp: eng_execTerm_def Let_def bind_eq_Some_conv)
    have "t \<in> jump_targets b k" using t CL_INSN_JMP by (simp add: jump_targets_def)
    note u = eng_updateState_updated [OF js ab base u this]
    have "steps_covered \<gamma> g cs (bb, k) h e' N"
      using b tm t CL_INSN_JMP u(2) unfolding steps_covered_def by (auto elim!: cstepE simp: next_is_cond_term)
    then show ?thesis using u(1) by blast
  next
    case CL_INSN_COND
    from s CL_INSN_COND have T: "jump_targets b k = set (targets ?i)" by (auto simp: eng_execTerm_def jump_targets_def Let_def split: if_splits)
    from s CL_INSN_COND have "ofold (\<lambda>(n, sh) e. do { t \<leftarrow> target_at ?i n; eng_updateState cf ops g sh t e })
         (op_cond ops (bb_insns b ! (k - 1)) ?i h) e = Some e'"
      by (auto simp: eng_execTerm_def Let_def bind_eq_Some_conv)
    note u = ofold_updateState [OF js ab base this, folded T]
    have "covers g \<gamma> e' t c'" if "c \<in> \<gamma> h" "cs_cond cs (bb_insns b ! (k - 1)) ?i c n c'" "target_at ?i n = Some t" for c n c' t
      using u exec_soundD(2) [OF es that(1,2)] that(3) by blast
    then have "steps_covered \<gamma> g cs (bb, k) h e' N"
      using b tm CL_INSN_COND unfolding steps_covered_def by (auto elim!: cstepE simp: next_is_cond_term)
    then show ?thesis using u by blast
  next
    case CL_INSN_RET
    then have "e' = e\<lparr>en_dst := en_dst e @ [op_return ops ?i h], en_end := True\<rparr>"
      using s by (auto simp: eng_execTerm_def Let_def bind_eq_Some_conv)
    then show ?thesis using upd nostep CL_INSN_RET by simp
  next
    case CL_INSN_ABORT
    then have "\<exists>d. e' = e\<lparr>en_dst := d, en_end := True\<rparr>"
      using s by (auto simp: eng_execTerm_def eng_handleExit_def Let_def split: if_splits option.splits)
        (metis engine.surjective engine.update_convs)+
    then show ?thesis using upd nostep CL_INSN_ABORT by auto
  qed (use tm s in \<open>simp_all add: eng_execTerm_def\<close>)
qed


lemma ofold_sm_insert_gamma:
  assumes js: "join_sound \<gamma> ops"
  shows "ofold (\<lambda>h s. do { (_, s) \<leftarrow> sm_insert cf ops h True s; Some s }) hs (sm_of P) = Some s' \<Longrightarrow>
    \<exists>P'. s' = sm_of P' \<and> heaps_gamma \<gamma> (map fst P) \<union> heaps_gamma \<gamma> hs \<subseteq> heaps_gamma \<gamma> (map fst P')"
proof (induction hs arbitrary: P)
  case Nil
  then show ?case by (auto simp: heaps_gamma_def)
next
  case (Cons h hs)
  from Cons.prems obtain ch s1 where s1: "sm_insert cf ops h True (sm_of P) = Some (ch, s1)"
    and r: "ofold (\<lambda>h s. do { (_, s) \<leftarrow> sm_insert cf ops h True s; Some s }) hs s1 = Some s'"
    by (auto simp: bind_eq_Some_conv)
  from sm_insert_inserted [OF js s1] obtain P1 where P1: "s1 = sm_of P1" "inserted \<gamma> h ch P P1" by blast
  from Cons.IH [OF r [unfolded P1(1)]] obtain P' where P': "s' = sm_of P'"
    "heaps_gamma \<gamma> (map fst P1) \<union> heaps_gamma \<gamma> hs \<subseteq> heaps_gamma \<gamma> (map fst P')" by blast
  have "heaps_gamma \<gamma> (h # hs) = \<gamma> h \<union> heaps_gamma \<gamma> hs" by (simp add: heaps_gamma_def)
  then show ?case using P' P1(2) unfolding inserted_def grows_def by blast
qed

lemma eng_execNonterm_step:
  assumes js: "join_sound \<gamma> ops" and es: "exec_sound \<gamma> ops cs" and base: "eng_base g e U"
    and b: "bb_at g bb = Some b" and nt: "\<not> cl_is_term_insn (in_code (bb_insns b ! k))" "next_is_cond b k = Some False"
    and s: "eng_execNonterm cf ops (bb_insns b ! k) h e = Some e'"
  shows "eng_updated g \<gamma> U T (e\<lparr>en_next := en_next e'\<rparr>) e'"
    "heaps_gamma \<gamma> (en_next e) \<subseteq> heaps_gamma \<gamma> (en_next e')"
    "error_free ops g (bb, k) h \<Longrightarrow> steps_covered \<gamma> g cs (bb, k) h e' (heaps_gamma \<gamma> (en_next e'))"
proof -
  let ?i = "bb_insns b ! k"
  let ?hs = "case op_core ops ?i h of Some (hs, fatal) \<Rightarrow> hs | None \<Rightarrow> fst (op_call ops ?i h)"
  have "\<exists>x. e' = e\<lparr>en_next := en_next e', en_end := x\<rparr> \<and>
    heaps_gamma \<gamma> (en_next e) \<union> heaps_gamma \<gamma> ?hs \<subseteq> heaps_gamma \<gamma> (en_next e')"
  proof (cases "op_core ops ?i h")
    case None
    obtain rs fe where c: "op_call ops ?i h = (rs, fe)" by (cases "op_call ops ?i h") auto
    from s None c obtain s1 where s1: "ofold (\<lambda>h s. do { (_, s) \<leftarrow> sm_insert cf ops h True s; Some s }) rs (sm_assign (en_next e)) = Some s1"
      and e': "e' = e\<lparr>en_next := sm_heaps s1, en_end := en_end e \<or> fe\<rparr>"
      by (auto simp: eng_execNonterm_def eng_joinCallResults_def bind_eq_Some_conv)
    from ofold_sm_insert_gamma [OF js s1 [unfolded sm_of_ops(3)]] show ?thesis
      using None c by (auto simp: e' o_def)
  next
    case (Some r)
    then show ?thesis using s by (cases r) (auto simp: eng_execNonterm_def heaps_gamma_def)
  qed
  then obtain x where x: "e' = e\<lparr>en_next := en_next e', en_end := x\<rparr>"
    and sub: "heaps_gamma \<gamma> (en_next e) \<union> heaps_gamma \<gamma> ?hs \<subseteq> heaps_gamma \<gamma> (en_next e')" by blast
  have f: "en_map e' = en_map e" "en_sched e' = en_sched e" "en_fixed e' = en_fixed e" "en_local e' = en_local e" "en_block e' = en_block e"
    by (subst x, simp)+
  show "eng_updated g \<gamma> U T (e\<lparr>en_next := en_next e'\<rparr>) e'"
    using base f by (auto simp: eng_updated_def intro!: eng_keepsI elim: eng_base_cong)
  show "heaps_gamma \<gamma> (en_next e) \<subseteq> heaps_gamma \<gamma> (en_next e')" using sub by blast
  assume ef: "error_free ops g (bb, k) h"
  have "\<not> reports_error ops ?i h" using ef b nt by (simp add: error_free_def)
  then have "c' \<in> heaps_gamma \<gamma> (en_next e')" if "c \<in> \<gamma> h" "cs_core cs ?i c c'" for c c'
    using exec_soundD(1) [OF es _ that] sub by blast
  then show "steps_covered \<gamma> g cs (bb, k) h e' (heaps_gamma \<gamma> (en_next e'))"
    using b nt unfolding steps_covered_def by (auto elim!: cstepE)
qed

abbreviation log_heap :: "nat \<Rightarrow> 'h \<Rightarrow> 'h engine \<Rightarrow> 'h engine" where
  "log_heap k h e \<equiv> e\<lparr>en_fixed := en_fixed e @ [((en_block e, k), h)]\<rparr>"

definition heap_stepped :: "cfg \<Rightarrow> ('h \<Rightarrow> 'c set) \<Rightarrow> TBlock set \<Rightarrow> TBlock set \<Rightarrow> 'h engine \<Rightarrow> 'h engine \<Rightarrow> bool" where
  "heap_stepped g \<gamma> U T e e' \<longleftrightarrow> eng_base g e' U \<and> eng_keeps g \<gamma> e e' \<and> en_fixed e' = en_fixed e \<and> en_local e' = en_local e \<and>
     heaps_gamma \<gamma> (en_next e) \<subseteq> heaps_gamma \<gamma> (en_next e') \<and> (\<forall>t. t \<notin> T \<longrightarrow> en_map e' t = en_map e t)"

lemma next_is_cond_not_term: "next_is_cond b k = Some True \<Longrightarrow> \<not> cl_is_term_insn (in_code (bb_insns b ! k))"
  by (auto simp: next_is_cond_def)

lemma eng_execHeap_step:
  assumes js: "join_sound \<gamma> ops" and es: "exec_sound \<gamma> ops cs" and base: "eng_base g (log_heap k h e) U"
    and b: "bb_at g (en_block e) = Some b" and nic: "next_is_cond b k = Some nic"
    and s: "eng_execHeap cf ops g b k nic h e = Some e'"
  shows "heap_stepped g \<gamma> U (jump_targets b k) (log_heap k h e) e'"
    "cl_is_term_insn (in_code (bb_insns b ! k)) \<Longrightarrow> en_next e' = en_next e"
    "error_free ops g (en_block e, k) h \<Longrightarrow>
      steps_covered \<gamma> g cs (en_block e, k) h e' (if nic then \<gamma> h else heaps_gamma \<gamma> (en_next e'))"
proof -
  let ?bb = "en_block e" and ?e = "log_heap k h e" and ?N = "if nic then \<gamma> h else heaps_gamma \<gamma> (en_next e')"
  have "heap_stepped g \<gamma> U (jump_targets b k) ?e e' \<and> (cl_is_term_insn (in_code (bb_insns b ! k)) \<longrightarrow> en_next e' = en_next e) \<and>
    (error_free ops g (?bb, k) h \<longrightarrow> steps_covered \<gamma> g cs (?bb, k) h e' ?N)"
  proof (cases nic)
    case True
    then have e': "e' = ?e" using s by (simp add: eng_execHeap_def)
    have "steps_covered \<gamma> g cs (?bb, k) h e' (\<gamma> h)"
      using b nic True next_is_cond_not_term [of b k] unfolding steps_covered_def by (auto elim!: cstepE)
    then show ?thesis using True base e' by (simp add: heap_stepped_def eng_keeps_def)
  next
    case nn: False
    show ?thesis
    proof (cases "op_exit ops h")
      case (Some sh)
      then have e': "e' = ?e\<lparr>en_end := True, en_dst := en_dst e @ [sh]\<rparr>" using s nn by (simp add: eng_execHeap_def eng_handleExit_def)
      have "\<forall>c \<in> \<gamma> h. cs_exited cs c" using exec_soundD(3) [OF es Some] by blast
      then have "steps_covered \<gamma> g cs (?bb, k) h e' ?N"
        using b nic nn unfolding steps_covered_def by (auto elim!: cstepE)
      moreover have "heap_stepped g \<gamma> U (jump_targets b k) ?e e'"
        unfolding heap_stepped_def e' by (auto intro!: eng_keepsI eng_base_cong [OF base])
      ultimately show ?thesis by (simp add: e')
    next
      case None
      show ?thesis
      proof (cases "cl_is_term_insn (in_code (bb_insns b ! k))")
        case True
        then have "eng_execTerm cf ops g b k h ?e = Some e'" using s nn None by (simp add: eng_execHeap_def eng_handleExit_def)
        from eng_execTerm_step [OF js es base b True this] show ?thesis
          using True by (auto simp: heap_stepped_def eng_updated_def jump_targets_def)
      next
        case False
        then have s': "eng_execNonterm cf ops (bb_insns b ! k) h ?e = Some e'" using s nn None by (simp add: eng_execHeap_def eng_handleExit_def)
        note n = eng_execNonterm_step [OF js es base b False _ s']
        have nf: "next_is_cond b k = Some False" using nic nn by simp
        have "eng_keeps g \<gamma> ?e (?e\<lparr>en_next := en_next e'\<rparr>)" by (rule eng_keepsI) auto
        then have "heap_stepped g \<gamma> U (jump_targets b k) ?e e'"
          using n(1) [OF nf, of "jump_targets b k"] n(2) [OF nf] unfolding heap_stepped_def eng_updated_def
          by (auto intro: eng_keeps_trans)
        then show ?thesis using n(3) [OF nf] nn False by auto
      qed
    qed
  qed
  then show "heap_stepped g \<gamma> U (jump_targets b k) ?e e'" "cl_is_term_insn (in_code (bb_insns b ! k)) \<Longrightarrow> en_next e' = en_next e"
    "error_free ops g (?bb, k) h \<Longrightarrow> steps_covered \<gamma> g cs (?bb, k) h e' ?N" by blast+
qed

section \<open>Steps of the captured heaps\<close>

text \<open>Every step of the program from a captured heap is covered, or it is still to be captured according to \<open>B\<close>.\<close>

definition eng_closed :: "('h \<Rightarrow> 'c set) \<Rightarrow> 'h exec_ops \<Rightarrow> cfg \<Rightarrow> 'c csem \<Rightarrow> 'h engine \<Rightarrow> ((TBlock \<times> nat) \<times> 'c) set \<Rightarrow> bool" where
  "eng_closed \<gamma> ops g cs e B \<longleftrightarrow> (\<forall>p h c p' c'. (p, h) \<in> set (en_fixed e) \<longrightarrow> error_free ops g p h \<longrightarrow> c \<in> \<gamma> h \<longrightarrow>
     cstep g cs (p, c) (p', c') \<longrightarrow>
     (if snd p' = 0 then covers g \<gamma> e (fst p') c' else logged \<gamma> e p' c' \<or> (p', c') \<in> B))"

lemma eng_closed_weaken:
  assumes "eng_closed \<gamma> ops g cs e B" "set (en_fixed e') = set (en_fixed e)" "\<forall>t c. covers g \<gamma> e t c \<longrightarrow> covers g \<gamma> e' t c"
    and "\<forall>p c. (p, c) \<in> B \<longrightarrow> snd p \<noteq> 0 \<longrightarrow> (p, c) \<in> B'"
  shows "eng_closed \<gamma> ops g cs e' B'"
  unfolding eng_closed_def
proof (intro allI impI)
  fix p h c p' c'
  assume "(p, h) \<in> set (en_fixed e')" "error_free ops g p h" "c \<in> \<gamma> h" "cstep g cs (p, c) (p', c')"
  with assms(1,2) have "if snd p' = 0 then covers g \<gamma> e (fst p') c' else logged \<gamma> e p' c' \<or> (p', c') \<in> B"
    unfolding eng_closed_def by blast
  moreover have "logged \<gamma> e p' c' \<longrightarrow> logged \<gamma> e' p' c'" using assms(2) by (simp add: logged_def)
  ultimately show "if snd p' = 0 then covers g \<gamma> e' (fst p') c' else logged \<gamma> e' p' c' \<or> (p', c') \<in> B'"
    using assms(3,4) by (cases p') (auto split: if_splits)
qed

lemma eng_closed_execHeap:
  assumes cl: "eng_closed \<gamma> ops g cs e B" and hs: "heap_stepped g \<gamma> U T (log_heap k h e) e'"
    and sc: "error_free ops g (en_block e, k) h \<Longrightarrow> steps_covered \<gamma> g cs (en_block e, k) h e' N"
    and B': "\<forall>p c. (p, c) \<in> B \<longrightarrow> p \<noteq> (en_block e, k) \<or> c \<notin> \<gamma> h \<longrightarrow> (p, c) \<in> B'" "\<forall>c \<in> N. ((en_block e, k + 1), c) \<in> B'"
  shows "eng_closed \<gamma> ops g cs e' B'"
  unfolding eng_closed_def
proof (intro allI impI)
  fix p h' c p' c'
  assume a: "(p, h') \<in> set (en_fixed e')" "error_free ops g p h'" "c \<in> \<gamma> h'" "cstep g cs (p, c) (p', c')"
  have fx: "set (en_fixed e') = insert ((en_block e, k), h) (set (en_fixed e))" using hs by (simp add: heap_stepped_def)
  have "eng_keeps g \<gamma> e (log_heap k h e)" by (rule eng_keepsI) auto
  then have kp: "eng_keeps g \<gamma> e e'" using hs by (auto simp: heap_stepped_def intro: eng_keeps_trans)
  show "if snd p' = 0 then covers g \<gamma> e' (fst p') c' else logged \<gamma> e' p' c' \<or> (p', c') \<in> B'"
  proof (cases "(p, h') \<in> set (en_fixed e)")
    case True
    with cl a have "if snd p' = 0 then covers g \<gamma> e (fst p') c' else logged \<gamma> e p' c' \<or> (p', c') \<in> B"
      unfolding eng_closed_def by blast
    moreover have "logged \<gamma> e p' c' \<longrightarrow> logged \<gamma> e' p' c'" using fx by (auto simp: logged_def)
    moreover have "logged \<gamma> e' (en_block e, k) c" if "c \<in> \<gamma> h" for c using fx that by (auto simp: logged_def)
    ultimately show ?thesis using B'(1) kp unfolding eng_keeps_def by (cases p') (auto split: if_splits)
  next
    case False
    then have p: "p = (en_block e, k)" "h' = h" using a(1) fx by auto
    have "if snd p' = 0 then covers g \<gamma> e' (fst p') c' else p' = (en_block e, k + 1) \<and> c' \<in> N"
      using sc a(2-4) unfolding p steps_covered_def fst_conv snd_conv by blast
    then show ?thesis using B'(2) by (auto split: if_splits)
  qed
qed

end
