(* ===== verification/EngRun.thy ===== *)
theory EngRun
  imports EngSteps ClFront
begin

text \<open>
  The invariant of the engine of \<open>SymEngine\<close> for one instruction, one block and the main loop, and the coverage of
  all executions.
\<close>

section \<open>One instruction\<close>

lemma ofold_upt_invariant:
  assumes "ofold f [j..<n] s = Some s'" "I j s" "j \<le> n"
    and "\<And>i s s'. i < n \<Longrightarrow> I i s \<Longrightarrow> f i s = Some s' \<Longrightarrow> I (Suc i) s'"
  shows "I n s'"
  using assms(1-3)
proof (induction "n - j" arbitrary: j s)
  case (Suc d)
  then have j: "j < n" by simp
  with Suc.prems(1) obtain s1 where s1: "f j s = Some s1" "ofold f [Suc j..<n] s1 = Some s'"
    by (auto simp: upt_conv_Cons bind_eq_Some_conv)
  show ?case using Suc.hyps(1) [of "Suc j" s1] Suc.hyps(2) s1 j assms(4) [OF j Suc.prems(2) s1(1)] by auto
qed simp

text \<open>
  What holds after \<open>j\<close> of the heaps \<open>L\<close> of instruction \<open>k\<close> of block \<open>bb\<close>, when the block has been entered with \<open>e0\<close>.
\<close>

definition insn_todo :: "('h \<Rightarrow> 'c set) \<Rightarrow> TBlock \<Rightarrow> nat \<Rightarrow> bool \<Rightarrow> 'h list \<Rightarrow> nat \<Rightarrow> 'h engine \<Rightarrow> ((TBlock \<times> nat) \<times> 'c) set" where
  "insn_todo \<gamma> bb k nic L j e = {(bb, k)} \<times> heaps_gamma \<gamma> (drop j L) \<union>
     {(bb, k + 1)} \<times> (if nic then heaps_gamma \<gamma> L else heaps_gamma \<gamma> (en_next e))"

definition insn_inv :: "('h \<Rightarrow> 'c set) \<Rightarrow> 'h exec_ops \<Rightarrow> cfg \<Rightarrow> 'c csem \<Rightarrow> 'h engine \<Rightarrow> TBlock \<Rightarrow> block \<Rightarrow> nat \<Rightarrow> bool \<Rightarrow>
    'h list \<Rightarrow> nat \<Rightarrow> 'h engine \<Rightarrow> bool" where
  "insn_inv \<gamma> ops g cs e0 bb b k nic L j e \<longleftrightarrow>
     eng_base g e (if k = 0 then {bb} else {}) \<and> eng_keeps g \<gamma> e0 e \<and> en_block e = bb \<and> en_local e = L \<and>
     (cl_is_term_insn (in_code (bb_insns b ! k)) \<longrightarrow> en_next e = []) \<and>
     eng_closed \<gamma> ops g cs e (insn_todo \<gamma> bb k nic L j e) \<and>
     (k = 0 \<longrightarrow> \<not> self_jump g bb \<longrightarrow> (\<exists>P. marks e bb = sm_of P \<and> map fst P = L \<and> (\<forall>i < j. snd (P ! i))))"

lemma heaps_gamma_drop: "j < length L \<Longrightarrow> heaps_gamma \<gamma> (drop j L) = \<gamma> (L ! j) \<union> heaps_gamma \<gamma> (drop (Suc j) L)"
  by (simp add: Cons_nth_drop_Suc [symmetric] heaps_gamma_def)

lemma heaps_gamma_nth: "j < length L \<Longrightarrow> \<gamma> (L ! j) \<subseteq> heaps_gamma \<gamma> L"
  unfolding heaps_gamma_def using nth_mem by blast

text \<open>The common part of the step: a heap has been executed from an engine \<open>e\<close> that satisfies the invariant but for the marks.\<close>

lemma insn_inv_execHeap:
  assumes js: "join_sound \<gamma> ops" and es: "exec_sound \<gamma> ops cs" and b: "bb_at g bb = Some b" and nic: "next_is_cond b k = Some nic"
    and j: "j < length L" and base: "eng_base g (log_heap k (L ! j) e) (if k = 0 then {bb} else {})" and kp: "eng_keeps g \<gamma> e0 e"
    and bb: "en_block e = bb" and L: "en_local e = L" and nx: "cl_is_term_insn (in_code (bb_insns b ! k)) \<longrightarrow> en_next e = []"
    and cl: "eng_closed \<gamma> ops g cs e (insn_todo \<gamma> bb k nic L j e)"
    and s: "eng_execHeap cf ops g b k nic (L ! j) e = Some e'"
    and m: "k = 0 \<longrightarrow> \<not> self_jump g bb \<longrightarrow> bb \<notin> jump_targets b k" "k = 0 \<longrightarrow> \<not> self_jump g bb \<longrightarrow> (\<exists>P. marks e bb = sm_of P \<and> map fst P = L \<and> (\<forall>i < Suc j. snd (P ! i)))"
  shows "insn_inv \<gamma> ops g cs e0 bb b k nic L (Suc j) e'"
proof -
  note st = eng_execHeap_step [OF js es base b [folded bb] nic s]
  have kp': "eng_keeps g \<gamma> e e'"
    using st(1) eng_keeps_trans [OF eng_keepsI [of "log_heap k (L ! j) e" e]] by (auto simp: heap_stepped_def)
  have cl': "eng_closed \<gamma> ops g cs e' (insn_todo \<gamma> bb k nic L (Suc j) e')"
  proof (rule eng_closed_execHeap [OF cl st(1) st(3)])
    have ng: "heaps_gamma \<gamma> (en_next e) \<subseteq> heaps_gamma \<gamma> (en_next e')" using st(1) by (simp add: heap_stepped_def)
    show "\<forall>p c. (p, c) \<in> insn_todo \<gamma> bb k nic L j e \<longrightarrow> p \<noteq> (en_block e, k) \<or> c \<notin> \<gamma> (L ! j) \<longrightarrow>
        (p, c) \<in> insn_todo \<gamma> bb k nic L (Suc j) e'"
      unfolding insn_todo_def heaps_gamma_drop [OF j] bb using ng by auto
    show "\<forall>c \<in> (if nic then \<gamma> (L ! j) else heaps_gamma \<gamma> (en_next e')). ((en_block e, k + 1), c) \<in> insn_todo \<gamma> bb k nic L (Suc j) e'"
      using heaps_gamma_nth [OF j, of \<gamma>] unfolding insn_todo_def bb by auto
  qed
  have "en_map e' bb = en_map e bb" if "k = 0" "\<not> self_jump g bb" using st(1) m(1) that by (simp add: heap_stepped_def)
  then show ?thesis
    using st(1,2) cl' m(2) kp' eng_keeps_trans [OF kp kp'] nx bb L unfolding insn_inv_def heap_stepped_def
    by (auto simp: eng_keeps_def)
qed

text \<open>A pending heap is marked as done and captured.\<close>

lemma eng_base_setDone:
  assumes base: "eng_base g e {bb}" and bb: "en_block e = bb" and P: "marks e bb = sm_of P" and h: "self_jump g bb \<or> h = fst (P ! j)"
  shows "eng_base g (log_heap 0 h (upd_marked bb (sm_of (P[j := (fst (P ! j), True)])) e)) {bb}"
proof -
  let ?P = "P[j := (fst (P ! j), True)]"
  let ?e = "log_heap 0 h (upd_marked bb (sm_of ?P) e)"
  have mk: "mark_ok g ?e bb True ?P"
  proof (cases "self_jump g bb")
    case False
    have "set ?P \<subseteq> insert (fst (P ! j), True) (set P)" by (rule set_update_subset_insert)
    moreover obtain Q where Q: "marks e bb = sm_of Q" "mark_ok g e bb True Q" using eng_baseD [OF base, of bb] by auto
    moreover have "Q = P" using Q(1) P by (metis sm_of_fields zip_map_fst_snd)
    ultimately show ?thesis using bb h False unfolding mark_ok_def by (auto simp: upd_marked_def)
  qed (simp add: mark_ok_def)
  have "\<exists>Q. marks ?e t = sm_of Q \<and> mark_ok g ?e t (t \<in> {bb}) Q" for t
  proof (cases "t = bb")
    case True
    then show ?thesis using mk by (intro exI [of _ ?P]) (simp add: upd_marked_def)
  next
    case False
    from eng_baseD [OF base, of t] obtain Q where "marks e t = sm_of Q" "mark_ok g e t (t \<in> {bb}) Q" by blast
    then show ?thesis using False by (intro exI [of _ Q]) (auto simp: mark_ok_def upd_marked_def)
  qed
  then show ?thesis using base by (simp add: eng_base_def upd_marked_def)
qed

text \<open>In a block that jumps to itself the states of the block may change while its heaps are walked.\<close>

lemma eng_stepHeap_own:
  assumes js: "join_sound \<gamma> ops" and es: "exec_sound \<gamma> ops cs" and b: "bb_at g bb = Some b" and nic: "next_is_cond b k = Some nic"
    and j: "j < length L" and I: "insn_inv \<gamma> ops g cs e0 bb b k nic L j e" and own: "k = 0" "self_jump g bb"
    and s: "eng_stepHeap cf ops g b k nic L j e = Some e'"
  shows "insn_inv \<gamma> ops g cs e0 bb b k nic L (Suc j) e'"
proof -
  have I1: "eng_base g e {bb}" "eng_keeps g \<gamma> e0 e" "en_block e = bb" "en_local e = L"
    "cl_is_term_insn (in_code (bb_insns b ! k)) \<longrightarrow> en_next e = []" "eng_closed \<gamma> ops g cs e (insn_todo \<gamma> bb k nic L j e)"
    using I own by (simp_all add: insn_inv_def)
  from eng_baseD [OF I1(1), of bb] obtain P where P: "marks e bb = sm_of P" by auto
  from s own I1(3) P obtain d where d: "sm_isDone j (sm_of P) = Some d"
    by (cases "sm_isDone j (sm_of P)") (auto simp: eng_stepHeap_def)
  then have jP: "j < length P" by (auto simp: sm_isDone_def sm_of_def split: if_splits)
  show ?thesis
  proof (cases d)
    case True
    then have e': "e' = e" using s own d by (simp add: eng_stepHeap_def I1(3) P(1))
    have "eng_closed \<gamma> ops g cs e (insn_todo \<gamma> bb k nic L (Suc j) e)"
      by (rule eng_closed_weaken [OF I1(6)]) (auto simp: insn_todo_def own(1))
    then show ?thesis using I1 own unfolding e' insn_inv_def by simp
  next
    case False
    define P' where "P' = P[j := (fst (P ! j), True)]"
    define e2 where "e2 = upd_marked bb (sm_of P') e"
    have s2: "eng_execHeap cf ops g b k nic (L ! j) e2 = Some e'"
      using s own jP d False by (simp add: eng_stepHeap_def I1(3) P(1) sm_of_ops e2_def P'_def)
    have f2: "en_block e2 = bb" "en_local e2 = L" "en_next e2 = en_next e" "en_fixed e2 = en_fixed e" "en_sched e2 = en_sched e"
      "marks e2 bb = sm_of P'" "\<And>t. t \<noteq> bb \<Longrightarrow> en_map e2 t = en_map e t"
      using I1 by (simp_all add: e2_def upd_marked_def)
    have cv: "covers g \<gamma> e2 t c = covers g \<gamma> e t c" for t c
      using f2 own by (cases "t = bb") (simp_all add: covers_def logged_def)
    have base2: "eng_base g (log_heap k (L ! j) e2) (if k = 0 then {bb} else {})"
      using eng_base_setDone [OF I1(1,3) P, of "L ! j" j] own by (simp add: e2_def P'_def)
    have kp2: "eng_keeps g \<gamma> e0 e2" using I1(2,3) cv f2 by (auto simp: eng_keeps_def)
    have cl2: "eng_closed \<gamma> ops g cs e2 (insn_todo \<gamma> bb k nic L j e2)"
      by (rule eng_closed_weaken [OF I1(6)]) (auto simp: insn_todo_def f2 cv)
    have nx2: "cl_is_term_insn (in_code (bb_insns b ! k)) \<longrightarrow> en_next e2 = []" using I1(5) f2 by simp
    show ?thesis by (rule insn_inv_execHeap [OF js es b(1) nic j base2 kp2 f2(1,2) nx2 cl2 s2]) (simp_all add: own)
  qed
qed

lemma eng_stepHeap_inv:
  assumes js: "join_sound \<gamma> ops" and es: "exec_sound \<gamma> ops cs"
    and b: "bb_at g bb = Some b" "bb_insns b \<noteq> []" and nic: "next_is_cond b k = Some nic"
    and j: "j < length L" and I: "insn_inv \<gamma> ops g cs e0 bb b k nic L j e"
    and s: "eng_stepHeap cf ops g b k nic L j e = Some e'"
  shows "insn_inv \<gamma> ops g cs e0 bb b k nic L (Suc j) e'"
proof -
  have I1: "eng_base g e (if k = 0 then {bb} else {})" "eng_keeps g \<gamma> e0 e" "en_block e = bb" "en_local e = L"
    "cl_is_term_insn (in_code (bb_insns b ! k)) \<longrightarrow> en_next e = []" "eng_closed \<gamma> ops g cs e (insn_todo \<gamma> bb k nic L j e)"
    using I by (simp_all add: insn_inv_def)
  have nt: "k = 0 \<longrightarrow> \<not> self_jump g bb \<longrightarrow> bb \<notin> jump_targets b k"
    unfolding self_jump_def b(1) option.case using b(2) by (simp add: jump_targets_def Let_def)
  consider (later) "k \<noteq> 0" | (own) "k = 0" "self_jump g bb" | (first) "k = 0" "\<not> self_jump g bb" by blast
  then show ?thesis
  proof cases
    case later
    then have "eng_execHeap cf ops g b k nic (L ! j) e = Some e'" using s by (simp add: eng_stepHeap_def)
    moreover have "eng_base g (log_heap k (L ! j) e) (if k = 0 then {bb} else {})" by (rule eng_base_cong [OF I1(1)]) auto
    ultimately show ?thesis using insn_inv_execHeap [OF js es b(1) nic j _ I1(2-6)] later by blast
  next
    case own
    show ?thesis by (rule eng_stepHeap_own [OF js es b(1) nic j I own s])
  next
    case first
    note k = first(1)
    from I first obtain P where P: "marks e bb = sm_of P" "map fst P = L" "\<forall>i < j. snd (P ! i)" by (auto simp: insn_inv_def)
    have jP: "j < length P" using j P(2) by auto
    have Lj: "fst (P ! j) = L ! j" using P(2) jP by auto
    show ?thesis
    proof (cases "snd (P ! j)")
      case True
      then have e': "e' = e" using s k jP by (simp add: eng_stepHeap_def I1(3) P(1) sm_of_ops)
      have "eng_closed \<gamma> ops g cs e (insn_todo \<gamma> bb k nic L (Suc j) e)"
        by (rule eng_closed_weaken [OF I1(6)]) (auto simp: insn_todo_def k)
      moreover have "\<forall>i < Suc j. snd (P ! i)" using P(3) True by (simp add: less_Suc_eq)
      ultimately show ?thesis using I1 P unfolding e' insn_inv_def by blast
    next
      case False
      define P' where "P' = P[j := (fst (P ! j), True)]"
      define e2 where "e2 = upd_marked bb (sm_of P') e"
      have s2: "eng_execHeap cf ops g b k nic (L ! j) e2 = Some e'"
        using s k jP False by (simp add: eng_stepHeap_def I1(3) P(1) sm_of_ops e2_def P'_def)
      have f2: "en_block e2 = bb" "en_local e2 = L" "en_next e2 = en_next e" "en_fixed e2 = en_fixed e" "en_sched e2 = en_sched e"
        "marks e2 bb = sm_of P'" "\<And>t. t \<noteq> bb \<Longrightarrow> en_map e2 t = en_map e t"
        using I1 by (simp_all add: e2_def upd_marked_def)
      have P'L: "map fst P' = L" using P(2) jP by (simp add: P'_def map_update) (metis list_update_id nth_map)
      have cv: "covers g \<gamma> e2 t c = covers g \<gamma> e t c" for t c
        using f2 P P'L by (cases "t = bb") (simp_all add: covers_def logged_def)
      have base2: "eng_base g (log_heap k (L ! j) e2) (if k = 0 then {bb} else {})"
        using eng_base_setDone [OF _ I1(3) P(1), where h = "L ! j" and j = j] I1(1) k Lj by (simp add: e2_def P'_def)
      have kp2: "eng_keeps g \<gamma> e0 e2" using I1(2,3) cv f2 by (auto simp: eng_keeps_def)
      have cl2: "eng_closed \<gamma> ops g cs e2 (insn_todo \<gamma> bb k nic L j e2)"
        by (rule eng_closed_weaken [OF I1(6)]) (auto simp: insn_todo_def f2 cv)
      have "\<forall>i < Suc j. snd (P' ! i)" using P(3) jP by (auto simp: P'_def nth_list_update less_Suc_eq)
      then have mm: "k = 0 \<longrightarrow> \<not> self_jump g bb \<longrightarrow> (\<exists>P. marks e2 bb = sm_of P \<and> map fst P = L \<and> (\<forall>i < Suc j. snd (P ! i)))" using f2 P'L by blast
      have nx2: "cl_is_term_insn (in_code (bb_insns b ! k)) \<longrightarrow> en_next e2 = []" using I1(5) f2 by simp
      show ?thesis by (rule insn_inv_execHeap [OF js es b(1) nic j base2 kp2 f2(1,2) nx2 cl2 s2 nt mm])
    qed
  qed
qed

section \<open>One block\<close>

text \<open>What holds after all heaps of instruction \<open>k\<close>.\<close>

definition insn_post :: "('h \<Rightarrow> 'c set) \<Rightarrow> 'h exec_ops \<Rightarrow> cfg \<Rightarrow> 'c csem \<Rightarrow> 'h engine \<Rightarrow> TBlock \<Rightarrow> nat \<Rightarrow> 'h engine \<Rightarrow> bool" where
  "insn_post \<gamma> ops g cs e0 bb k e \<longleftrightarrow> eng_base g e {} \<and> eng_keeps g \<gamma> e0 e \<and> en_block e = bb \<and>
     eng_closed \<gamma> ops g cs e ({(bb, k + 1)} \<times> heaps_gamma \<gamma> (en_next e))"

lemma eng_base_all_done:
  assumes "eng_base g e {bb}" "\<not> self_jump g bb \<Longrightarrow> \<exists>P. marks e bb = sm_of P \<and> (\<forall>p \<in> set P. snd p)"
  shows "eng_base g e {}"
proof -
  have "\<exists>Q. marks e t = sm_of Q \<and> mark_ok g e t (t \<in> {}) Q" for t
  proof (cases "t = bb \<and> \<not> self_jump g bb")
    case True
    then obtain P where P: "marks e bb = sm_of P" "\<forall>p \<in> set P. snd p" using assms(2) by blast
    from eng_baseD [OF assms(1), of bb] obtain Q where Q: "marks e bb = sm_of Q" "mark_ok g e bb True Q" by auto
    then have "Q = P" using P(1) by (metis sm_of_fields zip_map_fst_snd)
    then show ?thesis using Q P(2) True by (intro exI [of _ P]) (auto simp: mark_ok_def)
  next
    case False
    then show ?thesis using eng_baseD [OF assms(1), of t] by (auto simp: mark_ok_def)
  qed
  then show ?thesis using assms(1) by (simp add: eng_base_def)
qed

lemma eng_execInsn_post:
  assumes js: "join_sound \<gamma> ops" and es: "exec_sound \<gamma> ops cs"
    and b: "bb_at g bb = Some b" "bb_insns b \<noteq> []"
    and pre: "eng_base g e (if k = 0 then {bb} else {})" "eng_keeps g \<gamma> e0 e" "en_block e = bb"
      "eng_closed \<gamma> ops g cs e ({(bb, k)} \<times> heaps_gamma \<gamma> (en_local e))" "k = 0 \<longrightarrow> sm_heaps (marks e bb) = en_local e"
    and s: "eng_execInsn cf ops g b k e = Some e'"
  shows "insn_post \<gamma> ops g cs e0 bb k e'" "k < length (bb_insns b) \<Longrightarrow> en_next e' \<noteq> [] \<Longrightarrow> k + 1 < length (bb_insns b)"
proof -
  let ?L = "en_local e"
  from s obtain nic e1 where nic: "next_is_cond b k = Some nic"
    and e1: "ofold (eng_stepHeap cf ops g b k nic ?L) [0..<length ?L] (e\<lparr>en_next := []\<rparr>) = Some e1"
    and e': "e' = (if nic then e1\<lparr>en_local := en_next e1, en_next := en_local e1\<rparr> else e1)"
    by (auto simp: eng_execInsn_def Let_def bind_eq_Some_conv)
  have I0: "insn_inv \<gamma> ops g cs e0 bb b k nic ?L 0 (e\<lparr>en_next := []\<rparr>)"
  proof -
    have "eng_keeps g \<gamma> e (e\<lparr>en_next := []\<rparr>)" by (rule eng_keepsI) auto
    moreover have "eng_closed \<gamma> ops g cs (e\<lparr>en_next := []\<rparr>) (insn_todo \<gamma> bb k nic ?L 0 (e\<lparr>en_next := []\<rparr>))"
      by (rule eng_closed_weaken [OF pre(4)]) (auto simp: insn_todo_def covers_def logged_def)
    moreover have "k = 0 \<longrightarrow> (\<exists>P. marks e bb = sm_of P \<and> map fst P = ?L)"
      using pre(5) eng_baseD [OF pre(1), of bb] by auto
    moreover have "eng_base g (e\<lparr>en_next := []\<rparr>) (if k = 0 then {bb} else {})" by (rule eng_base_cong [OF pre(1)]) auto
    ultimately show ?thesis using pre(3) eng_keeps_trans [OF pre(2)] unfolding insn_inv_def by auto
  qed
  have I: "insn_inv \<gamma> ops g cs e0 bb b k nic ?L (length ?L) e1"
    by (rule ofold_upt_invariant [where I = "insn_inv \<gamma> ops g cs e0 bb b k nic ?L", OF e1 I0]) (auto intro: eng_stepHeap_inv [OF js es b nic])
  then have L1: "en_local e1 = ?L" by (simp add: insn_inv_def)
  have base1: "eng_base g e1 {}"
  proof (cases "k = 0")
    case True
    show ?thesis
    proof (rule eng_base_all_done)
      show "eng_base g e1 {bb}" using I True by (simp add: insn_inv_def)
      assume "\<not> self_jump g bb"
      with I True obtain P where P: "marks e1 bb = sm_of P" "map fst P = ?L" "\<forall>i < length ?L. snd (P ! i)" by (auto simp: insn_inv_def)
      have "length P = length ?L" using P(2) by (metis length_map)
      then have "\<forall>p \<in> set P. snd p" using P(3) by (metis in_set_conv_nth)
      then show "\<exists>P. marks e1 bb = sm_of P \<and> (\<forall>p \<in> set P. snd p)" using P(1) by blast
    qed
  next
    case False
    then show ?thesis using I by (simp add: insn_inv_def)
  qed
  have sw: "eng_base g e' {}" "eng_keeps g \<gamma> e1 e'" "en_block e' = en_block e1"
    using base1 by (auto simp: e' intro!: eng_keepsI elim: eng_base_cong)
  have "eng_closed \<gamma> ops g cs e' ({(bb, k + 1)} \<times> heaps_gamma \<gamma> (en_next e'))"
    using I unfolding insn_inv_def
    by (elim conjE) (rule eng_closed_weaken, assumption, auto simp: e' insn_todo_def covers_def logged_def heaps_gamma_def L1)
  then show "insn_post \<gamma> ops g cs e0 bb k e'"
    using sw I unfolding insn_post_def insn_inv_def by (auto intro: eng_keeps_trans)
  assume k: "k < length (bb_insns b)" and ne: "en_next e' \<noteq> []"
  have "\<not> cl_is_term_insn (in_code (bb_insns b ! k))"
    using I ne nic next_is_cond_not_term unfolding e' insn_inv_def by (auto split: if_splits)
  then show "k + 1 < length (bb_insns b)" using nic by (auto simp: next_is_cond_def split: if_splits)
qed

lemma ofold_each: "ofold f xs s = Some t \<Longrightarrow> x \<in> set xs \<Longrightarrow> \<exists>u v. f x u = Some v"
proof (induction xs arbitrary: s)
  case (Cons y ys)
  then obtain s1 where "f y s = Some s1" "ofold f ys s1 = Some t" by (auto simp: bind_eq_Some_conv)
  then show ?case using Cons.IH [of s1] Cons.prems(2) by (cases "x = y") auto
qed simp

lemma ofold_isDone:
  assumes "ofold (\<lambda>i _. do { d \<leftarrow> sm_isDone i s; cl_break_if (\<not> d) }) xs () = Some v" "i \<in> set xs"
  shows "sm_isDone i s = Some True"
  using ofold_each [OF assms] by (cases "sm_isDone i s") simp_all

text \<open>Pruning removes processed heaps only, which have been captured.\<close>

lemma eng_pruneOrigin_cases:
  assumes "eng_pruneOrigin g b e = Some e'"
  shows "e' = e \<or> e' = upd_marked (en_block e) (sm_of []) e \<and>
    (\<forall>i < length (sm_heaps (marks e (en_block e))). sm_isDone i (marks e (en_block e)) = Some True)"
proof -
  let ?s = "marks e (en_block e)"
  let ?chk = "ofold (\<lambda>i _. do { d \<leftarrow> sm_isDone i ?s; cl_break_if (\<not> d) }) [0..<length (sm_heaps ?s)] ()"
  from assms have "e' = e \<or> (do { _ \<leftarrow> ?chk; Some (upd_marked (en_block e) (sm_clear ?s) e) }) = Some e'"
    unfolding eng_pruneOrigin_def Let_def
    by (cases "isLoopEntry g (en_block e)"; cases "prune_wanted b (en_map e (en_block e))") (simp_all split: if_splits)
  then show ?thesis
  proof
    assume c: "(do { _ \<leftarrow> ?chk; Some (upd_marked (en_block e) (sm_clear ?s) e) }) = Some e'"
    then obtain v where "?chk = Some v" by (cases ?chk) auto
    then have "\<forall>i < length (sm_heaps ?s). sm_isDone i ?s = Some True" using ofold_isDone by fastforce
    then show ?thesis using c \<open>?chk = Some v\<close> by (simp add: sm_of_ops)
  qed simp
qed

lemma eng_pruneOrigin_post:
  assumes I: "insn_post \<gamma> ops g cs e0 bb k e" and s: "eng_pruneOrigin g b e = Some e'"
  shows "insn_post \<gamma> ops g cs e0 bb k e' \<and> en_next e' = en_next e"
proof (cases "e' = e")
  case True
  then show ?thesis using I by simp
next
  case False
  from I have base: "eng_base g e {}" and bb: "en_block e = bb" by (simp_all add: insn_post_def)
  from eng_baseD [OF base, of bb] obtain P where P: "marks e bb = sm_of P" "mark_ok g e bb False P" by auto
  from eng_pruneOrigin_cases [OF s] False have e': "e' = upd_marked bb (sm_of []) e" and
    dn: "\<forall>i < length P. snd (P ! i)" by (auto simp: bb P(1) sm_of_ops)
  have lg: "((bb, 0), h) \<in> set (en_fixed e)" if "h \<in> set (map fst P)" "\<not> self_jump g bb" for h
  proof -
    from that(1) obtain p where p: "p \<in> set P" "h = fst p" by auto
    then have "snd p" using dn by (metis in_set_conv_nth)
    then have "(h, True) = p" using p(2) by (simp add: prod_eq_iff)
    then have "(h, True) \<in> set P" using p(1) by simp
    then show ?thesis using P(2) that(2) by (simp add: mark_ok_def)
  qed
  have f: "en_fixed e' = en_fixed e" "en_sched e' = en_sched e" "en_block e' = bb" "en_next e' = en_next e" "marks e' bb = sm_of []"
    "\<And>t. t \<noteq> bb \<Longrightarrow> en_map e' t = en_map e t"
    using bb by (simp_all add: e' upd_marked_def)
  have cv: "covers g \<gamma> e' t c" if "covers g \<gamma> e t c" for t c
  proof (cases "t = bb")
    case True
    have "logged \<gamma> e (bb, 0) c" if "c \<in> heaps_gamma \<gamma> (map fst P)" "\<not> self_jump g bb"
      using that lg unfolding heaps_gamma_def logged_def by blast
    then have "self_jump g bb \<or> logged \<gamma> e (bb, 0) c" using that True P(1) by (auto simp: covers_def)
    then show ?thesis using True f(1) by (auto simp: covers_def logged_def)
  next
    case False
    then show ?thesis using that f(1,6) by (simp add: covers_def logged_def)
  qed
  have "\<exists>Q. marks e' t = sm_of Q \<and> mark_ok g e' t (t \<in> {}) Q" for t
  proof (cases "t = bb")
    case True
    then show ?thesis using f(5) by (intro exI [of _ "[]"]) (simp add: mark_ok_def)
  next
    case False
    then show ?thesis using eng_baseD [OF base, of t] f by (simp add: mark_ok_def)
  qed
  then have "eng_base g e' {}" using base f(2) by (simp add: eng_base_def)
  moreover have "eng_keeps g \<gamma> e e'" using cv f bb by (simp add: eng_keeps_def)
  then have "eng_keeps g \<gamma> e0 e'" using I eng_keeps_trans unfolding insn_post_def by blast
  moreover have "eng_closed \<gamma> ops g cs e' ({(bb, k + 1)} \<times> heaps_gamma \<gamma> (en_next e'))"
    using I cv f unfolding insn_post_def by (elim conjE) (rule eng_closed_weaken, assumption, auto)
  ultimately show ?thesis using f by (simp add: insn_post_def)
qed

lemma eng_execInsns_post:
  assumes js: "join_sound \<gamma> ops" and es: "exec_sound \<gamma> ops cs"
    and b: "bb_at g bb = Some b" "bb_insns b \<noteq> []"
  shows "k < length (bb_insns b) \<Longrightarrow> eng_base g e (if k = 0 then {bb} else {}) \<Longrightarrow> eng_keeps g \<gamma> e0 e \<Longrightarrow> en_block e = bb \<Longrightarrow>
    eng_closed \<gamma> ops g cs e ({(bb, k)} \<times> heaps_gamma \<gamma> (en_local e)) \<Longrightarrow> k = 0 \<longrightarrow> sm_heaps (marks e bb) = en_local e \<Longrightarrow>
    eng_execInsns cf ops g b [k..<length (bb_insns b)] e = Some e' \<Longrightarrow>
    eng_base g e' {} \<and> eng_keeps g \<gamma> e0 e' \<and> eng_closed \<gamma> ops g cs e' {}"
proof (induction "length (bb_insns b) - k" arbitrary: k e)
  case (Suc d)
  from Suc.prems(1,7) obtain e1 e2 where e1: "eng_execInsn cf ops g b k e = Some e1"
    and e2: "(if k = 0 then eng_pruneOrigin g b e1 else Some e1) = Some e2"
    and r: "(if en_next e2 = [] then Some e2 else
      eng_execInsns cf ops g b [Suc k..<length (bb_insns b)] (e2\<lparr>en_local := en_next e2, en_next := en_local e2\<rparr>)) = Some e'"
    by (auto simp: upt_conv_Cons bind_eq_Some_conv)
  note I1 = eng_execInsn_post [OF js es b Suc.prems(2-6) e1]
  have I2: "insn_post \<gamma> ops g cs e0 bb k e2" "en_next e2 = en_next e1"
    using I1(1) e2 eng_pruneOrigin_post [OF I1(1)] by (auto split: if_splits)
  show ?case
  proof (cases "en_next e2 = []")
    case True
    then show ?thesis using I2(1) r by (simp add: insn_post_def heaps_gamma_def)
  next
    case False
    let ?e = "e2\<lparr>en_local := en_next e2, en_next := en_local e2\<rparr>"
    have k1: "k + 1 < length (bb_insns b)" using I1(2) [OF Suc.prems(1)] False I2(2) by simp
    have "eng_keeps g \<gamma> e2 ?e" by (rule eng_keepsI) auto
    then have kp: "eng_keeps g \<gamma> e0 ?e" using I2(1) by (auto simp: insn_post_def intro: eng_keeps_trans)
    have cl: "eng_closed \<gamma> ops g cs ?e ({(bb, k + 1)} \<times> heaps_gamma \<gamma> (en_local ?e))"
      using I2(1) unfolding insn_post_def by (elim conjE) (rule eng_closed_weaken, assumption, auto simp: covers_def logged_def)
    have "eng_base g ?e {}" using I2(1) by (auto simp: insn_post_def elim: eng_base_cong)
    then show ?thesis using Suc.hyps(1) [of "k + 1" ?e] Suc.hyps(2) k1 kp cl I2(1) r False by (simp add: insn_post_def)
  qed
qed simp

section \<open>The main loop\<close>

text \<open>What holds between the turns of the main loop.\<close>

definition eng_inv :: "('h \<Rightarrow> 'c set) \<Rightarrow> 'h exec_ops \<Rightarrow> cfg \<Rightarrow> 'c csem \<Rightarrow> 'h \<Rightarrow> 'h engine \<Rightarrow> bool" where
  "eng_inv \<gamma> ops g cs h0 e \<longleftrightarrow> eng_base g e {} \<and> eng_closed \<gamma> ops g cs e {} \<and> (\<forall>c \<in> \<gamma> h0. covers g \<gamma> e 1 c)"

lemma eng_init_inv:
  assumes js: "join_sound \<gamma> ops" and s: "eng_init cf ops g h0 = Some e"
  shows "eng_inv \<gamma> ops g cs h0 e"
proof -
  from s obtain ch m r sc where m: "smap_insert cf ops g 1 h0 True smap_empty = Some (ch, m)"
    and sc: "sched_schedule 1 sched_empty = Some (r, sc)"
    and e: "e = \<lparr>en_map = m, en_sched = sc, en_block = 0, en_local = [], en_next = [], en_dst = [], en_end = False, en_fixed = []\<rparr>"
    by (auto simp: eng_init_def cfg_entry_def bind_eq_Some_conv)
  have m0: "bs_state ((smap_empty :: 'a smap) t) = sm_of []" for t by (simp add: smap_empty_def sm_of_ops)
  from smap_insert_inserted [OF js m m0] obtain P where P: "bs_state (m 1) = sm_of P" "inserted \<gamma> h0 ch [] P"
    "\<forall>u. u \<noteq> 1 \<longrightarrow> m u = smap_empty u" by blast
  from sched_schedule_ok [of sched_empty 1] sc have so: "sched_ok sc" "sc_todo sc = {1}"
    by (auto simp: sched_empty_def sched_ok_def)
  have "\<exists>Q. marks e t = sm_of Q \<and> mark_ok g e t (t \<in> {}) Q" for t
  proof (cases "t = 1")
    case True
    have "mark_ok g e 1 False P" using P(2) so by (auto simp: mark_ok_def e inserted_def grows_def)
    then show ?thesis using True P(1) by (intro exI [of _ P]) (simp add: e)
  next
    case False
    then show ?thesis using P(3) m0 [of t] by (intro exI [of _ "[]"]) (simp add: e mark_ok_def)
  qed
  then have "eng_base g e {}" using so by (simp add: eng_base_def e)
  moreover have "eng_closed \<gamma> ops g cs e {}" by (simp add: eng_closed_def e)
  moreover have "\<forall>c \<in> \<gamma> h0. covers g \<gamma> e 1 c" using P(1,2) by (auto simp: covers_def e inserted_def)
  ultimately show ?thesis by (simp add: eng_inv_def)
qed

lemma eng_turn_inv:
  assumes js: "join_sound \<gamma> ops" and es: "exec_sound \<gamma> ops cs"
    and I: "eng_inv \<gamma> ops g cs h0 e" and s: "eng_turn cf ops g e = Some (Some e')"
  shows "eng_inv \<gamma> ops g cs h0 e'"
proof -
  from s obtain bb sc b where n: "sched_getNext (en_sched e) = Some (Some bb, sc)" and b: "bb_at g bb = Some b" "bb_insns b \<noteq> []"
    and x: "eng_execBlock cf ops g (e\<lparr>en_sched := sc, en_block := bb\<rparr>) = Some e'"
    by (auto simp: eng_turn_def bind_eq_Some_conv Block_front_def split: option.splits)
  from I have base: "eng_base g e {}" and cl: "eng_closed \<gamma> ops g cs e {}" and cv: "\<forall>c \<in> \<gamma> h0. covers g \<gamma> e 1 c"
    by (simp_all add: eng_inv_def)
  have so: "sched_ok (en_sched e)" using base by (simp add: eng_base_def)
  have "sc_todo (en_sched e) \<noteq> {}" using n by (auto simp: sched_getNext_def)
  from sched_getNext_ok [OF so this] n have sc: "sched_ok sc" "sc_todo sc = sc_todo (en_sched e) - {bb}" by auto
  let ?L = "sm_heaps (marks e bb)"
  let ?e = "e\<lparr>en_sched := sc, en_block := bb, en_local := ?L\<rparr>"
  have x: "eng_execInsns cf ops g b [0..<length (bb_insns b)] ?e = Some e'"
    using x b(1) by (simp add: eng_execBlock_def)
  have c0: "covers g \<gamma> ?e t c = covers g \<gamma> e t c" for t c by (simp add: covers_def logged_def)
  have "\<exists>Q. marks ?e t = sm_of Q \<and> mark_ok g ?e t (t \<in> {bb}) Q" for t
  proof -
    from eng_baseD [OF base, of t] obtain Q where "marks e t = sm_of Q" "mark_ok g e t False Q" by auto
    then show ?thesis using sc(2) by (intro exI [of _ Q]) (auto simp: mark_ok_def)
  qed
  then have base': "eng_base g ?e (if (0::nat) = 0 then {bb} else {})" using sc(1) by (simp add: eng_base_def)
  have kp: "eng_keeps g \<gamma> ?e ?e" by (simp add: eng_keeps_def)
  have cl': "eng_closed \<gamma> ops g cs ?e ({(bb, 0)} \<times> heaps_gamma \<gamma> (en_local ?e))"
    by (rule eng_closed_weaken [OF cl]) (auto simp: c0)
  have "eng_base g e' {} \<and> eng_keeps g \<gamma> ?e e' \<and> eng_closed \<gamma> ops g cs e' {}"
    using b(2) by (intro eng_execInsns_post [OF js es b _ base' kp _ cl' _ x]) simp_all
  then show ?thesis using cv c0 by (auto simp: eng_inv_def eng_keeps_def)
qed

text \<open>The engines that are reached from a fresh one.\<close>

inductive eng_reach :: "glconf \<Rightarrow> 'h exec_ops \<Rightarrow> cfg \<Rightarrow> 'h \<Rightarrow> 'h engine \<Rightarrow> bool" for cf ops g h0 where
  start: "eng_init cf ops g h0 = Some e \<Longrightarrow> eng_reach cf ops g h0 e"
| turn: "eng_reach cf ops g h0 e \<Longrightarrow> eng_turn cf ops g e = Some (Some e') \<Longrightarrow> eng_reach cf ops g h0 e'"

lemma eng_reach_inv:
  assumes "join_sound \<gamma> ops" "exec_sound \<gamma> ops cs"
  shows "eng_reach cf ops g h0 e \<Longrightarrow> eng_inv \<gamma> ops g cs h0 e"
  by (induction rule: eng_reach.induct) (auto intro: eng_init_inv eng_turn_inv assms)

lemma eng_turn_done: "eng_turn cf ops g e = Some None \<Longrightarrow> sc_todo (en_sched e) = {}"
  by (auto simp: eng_turn_def sched_getNext_def bind_eq_Some_conv Let_def split: if_splits)

lemma eng_run_reach:
  assumes "eng_run cf ops g e = Some e'" "eng_reach cf ops g h0 e"
  shows "eng_reach cf ops g h0 e' \<and> sc_todo (en_sched e') = {}"
proof -
  let ?P = "\<lambda>cf ops g e e'. eng_reach cf ops g h0 e \<longrightarrow> eng_reach cf ops g h0 e' \<and> sc_todo (en_sched e') = {}"
  have "?P cf ops g e e'"
  proof (rule eng_run.raw_induct [of ?P, OF _ assms(1)])
    fix run cf ops g e y
    assume ih: "\<And>cf ops g e y. run cf ops g e = Some y \<Longrightarrow> ?P cf ops g e y"
      and r: "(do { r \<leftarrow> eng_turn cf ops g e; case r of None \<Rightarrow> Some e | Some e' \<Rightarrow> run cf ops g e' }) = Some y"
    show "?P cf ops g e y"
    proof (cases "eng_turn cf ops g e")
      case (Some t)
      show ?thesis
      proof (cases t)
        case None
        then show ?thesis using r Some eng_turn_done [of cf ops g e] by simp
      next
        case (Some e1)
        then have "run cf ops g e1 = Some y" "eng_turn cf ops g e = Some (Some e1)" using r \<open>eng_turn cf ops g e = Some t\<close> by simp_all
        then show ?thesis using ih [of cf ops g e1 y] eng_reach.turn [of cf ops g h0 e e1] by blast
      qed
    qed (use r in simp)
  qed
  then show ?thesis using assms(2) by blast
qed

text \<open>When nothing is scheduled any more, everything that is covered has been captured.\<close>

lemma eng_inv_final:
  assumes I: "eng_inv \<gamma> ops g cs h0 e" and td: "sc_todo (en_sched e) = {}" and ef: "\<forall>(p, h) \<in> set (en_fixed e). error_free ops g p h"
  shows "\<forall>c \<in> \<gamma> h0. self_jump g 1 \<or> logged \<gamma> e (1, 0) c"
    "logged \<gamma> e p c \<Longrightarrow> cstep g cs (p, c) (p', c') \<Longrightarrow> snd p' = 0 \<and> self_jump g (fst p') \<or> logged \<gamma> e p' c'"
proof -
  have lg: "self_jump g t \<or> logged \<gamma> e (t, 0) c" if "covers g \<gamma> e t c" for t c
  proof (cases "self_jump g t \<or> logged \<gamma> e (t, 0) c")
    case False
    from I have base: "eng_base g e {}" by (simp add: eng_inv_def)
    from eng_baseD [OF base, of t] obtain P where P: "marks e t = sm_of P" "mark_ok g e t False P" by auto
    from that False P(1) obtain h d where h: "(h, d) \<in> set P" "c \<in> \<gamma> h" by (auto simp: covers_def heaps_gamma_def)
    then have "((t, 0), h) \<in> set (en_fixed e)" using P(2) td False by (cases d) (auto simp: mark_ok_def)
    then show ?thesis using h(2) by (auto simp: logged_def)
  qed
  show "\<forall>c \<in> \<gamma> h0. self_jump g 1 \<or> logged \<gamma> e (1, 0) c" using I lg by (simp add: eng_inv_def)
  assume "logged \<gamma> e p c" and st: "cstep g cs (p, c) (p', c')"
  then obtain h where "(p, h) \<in> set (en_fixed e)" "c \<in> \<gamma> h" by (auto simp: logged_def)
  moreover from this have "error_free ops g p h" using ef by blast
  ultimately have "if snd p' = 0 then covers g \<gamma> e (fst p') c' else logged \<gamma> e p' c' \<or> (p', c') \<in> {}"
    using I st unfolding eng_inv_def eng_closed_def by blast
  then show "snd p' = 0 \<and> self_jump g (fst p') \<or> logged \<gamma> e p' c'" using lg [of "fst p'" c'] by (cases p') (auto split: if_splits)
qed

text \<open>A block that jumps to itself with its first instruction is not left any more.\<close>

lemma self_jump_step:
  assumes "self_jump g bb" "cstep g cs ((bb, 0), c) (p', c')"
  shows "p' = (bb, 0)"
  using assms(2,1) by cases (auto simp: self_jump_def dest: next_is_cond_not_term)

section \<open>A loop\<close>

text \<open>
  A counter that is increased until it is three, on heaps that are intervals: the engine joins the heaps at the
  beginning of the loop.
\<close>

definition ew_insn :: "cl_insn_e \<Rightarrow> TBlock list \<Rightarrow> nat list \<Rightarrow> insn" where
  "ew_insn c ts ls = (new_insn c cl_loc_unknown)\<lparr>operands := (if c = CL_INSN_RET then [wit_cst] else []), targets := ts, loopClosingTargets := ls\<rparr>"

definition ew_cfg :: cfg where
  "ew_cfg = \<lparr>db_map = (\<lambda>_. None), db_tab = [
     \<lparr>bb_name = ''L1'', bb_insns = [ew_insn CL_INSN_UNOP [] [], ew_insn CL_INSN_BINOP [] [], ew_insn CL_INSN_COND [1, 2] [0]], inbound = [1]\<rparr>,
     \<lparr>bb_name = ''L2'', bb_insns = [ew_insn CL_INSN_RET [] []], inbound = [1]\<rparr>]\<rparr>"

definition ew_gamma :: "nat \<times> nat \<Rightarrow> nat set" where
  "ew_gamma h = {fst h..snd h}"

definition ew_join :: "nat \<times> nat \<Rightarrow> nat \<times> nat \<Rightarrow> bool \<Rightarrow> (EJoinStatus \<times> nat \<times> nat) option" where
  "ew_join a b w =
     (if fst a \<le> fst b \<and> snd b \<le> snd a then Some (JS_USE_SH1, a)
      else if fst b \<le> fst a \<and> snd a \<le> snd b then Some (JS_USE_SH2, b)
      else if w then Some (JS_THREE_WAY, (min (fst a) (fst b), max (snd a) (snd b)))
      else None)"

definition ew_ops :: "(nat \<times> nat) exec_ops" where
  "ew_ops = \<lparr>op_equal = (=), op_join = ew_join,
     op_core = (\<lambda>i h. Some ([(fst h + 1, snd h + 1)], False)),
     op_call = (\<lambda>i h. ([], True)),
     op_cond = (\<lambda>i j h. (if fst h < 3 then [(0, (fst h, min (snd h) 2))] else []) @ (if 3 \<le> snd h then [(1, (max (fst h) 3, snd h))] else [])),
     op_return = (\<lambda>i h. h), op_setExit = (\<lambda>h. h), op_exit = (\<lambda>h. None), op_abstract = (\<lambda>h. h)\<rparr>"

definition ew_cs :: "nat csem" where
  "ew_cs = \<lparr>cs_core = (\<lambda>i c c'. c' = c + 1), cs_cond = (\<lambda>i j c n c'. c' = c \<and> n = (if c < 3 then 0 else 1)), cs_exited = (\<lambda>c. False)\<rparr>"

definition ew_cf :: glconf where
  "ew_cf = \<lparr>joinOnLoopEdgesOnly = 1, stateLiveOrdering = 1, forbidHeapReplace = False, exitLeaks = False\<rparr>"

lemma ew_runs: "map_option en_fixed (eng_start ew_cf ew_ops ew_cfg (0, 0)) = Some
   [((1, 0), 0, 0), ((1, 1), 1, 1), ((1, 2), 1, 1), ((1, 0), 0, 1), ((1, 1), 1, 2), ((1, 2), 1, 2), ((1, 0), 0, 2),
    ((1, 1), 1, 3), ((1, 2), 1, 3), ((2, 0), 3, 3)]"
  by code_simp

lemma ew_sound: "join_sound ew_gamma ew_ops" "exec_sound ew_gamma ew_ops ew_cs"
  unfolding join_sound_def exec_sound_def
  by (auto simp: ew_gamma_def ew_ops_def ew_join_def ew_cs_def reports_error_def heaps_gamma_def split: EJoinStatus.splits if_splits)

lemma ew_self_jump: "\<not> self_jump ew_cfg 2"
  by (simp add: self_jump_def bb_at_def ew_cfg_def ew_insn_def new_insn_def)

lemma ew_error_free: "error_free ew_ops g p h"
  by (simp add: error_free_def reports_error_def ew_ops_def)

lemma ew_steps:
  "cstep ew_cfg ew_cs ((1, 0), c) ((1, 1), c + 1)"
  "cstep ew_cfg ew_cs ((1, 1), c) ((1, 2), c)"
  "c < 3 \<Longrightarrow> cstep ew_cfg ew_cs ((1, 2), c) ((1, 0), c)"
  "\<not> c < 3 \<Longrightarrow> cstep ew_cfg ew_cs ((1, 2), c) ((2, 0), c)"
proof -
  have b: "bb_at ew_cfg 1 = Some (db_tab ew_cfg ! 0)" by (simp add: bb_at_def ew_cfg_def)
  note d = ew_cfg_def ew_insn_def new_insn_def next_is_cond_def ew_cs_def target_at_def
  show "cstep ew_cfg ew_cs ((1, 0), c) ((1, 1), c + 1)" using cstep.core [OF b, of 0 ew_cs c "c + 1"] by (simp add: d)
  show "cstep ew_cfg ew_cs ((1, 1), c) ((1, 2), c)" using cstep.look [OF b, of 1 ew_cs c] by (simp add: d numeral_2_eq_2)
  show "cstep ew_cfg ew_cs ((1, 2), c) ((1, 0), c)" if "c < 3" using that cstep.cond [OF b, of 2 ew_cs c 0 c 1] by (simp add: d)
  show "cstep ew_cfg ew_cs ((1, 2), c) ((2, 0), c)" if "\<not> c < 3" using that cstep.cond [OF b, of 2 ew_cs c 1 c 2] by (simp add: d)
qed

lemma ew_round: "c < 2 \<Longrightarrow> (cstep ew_cfg ew_cs)\<^sup>*\<^sup>* ((1, 0), c) ((1, 0), c + 1)"
  using ew_steps(1) [of c] ew_steps(2,3) [of "c + 1"] by (auto intro: converse_rtranclp_into_rtranclp)

lemma ew_path: "(cstep ew_cfg ew_cs)\<^sup>*\<^sup>* ((1, 0), 0) ((2, 0), 3)"
proof -
  have "(cstep ew_cfg ew_cs)\<^sup>*\<^sup>* ((1, 0), 2) ((2, 0), 3)"
    using ew_steps(1) [of 2] ew_steps(2,4) [of 3] by (auto intro: converse_rtranclp_into_rtranclp)
  then show ?thesis using ew_round [of 0] ew_round [of 1] by (auto simp: numeral_2_eq_2 intro: rtranclp_trans)
qed

section \<open>A block that jumps to itself\<close>

text \<open>
  The comparison of the first block hands three heaps that cannot be joined to the second one, which is \<open>L: goto L;\<close>.  With
  \<open>stateLiveOrdering\<close> the walk over its heaps rotates them with their marks, so that the third heap is taken for a
  processed one: the engine finishes and has never captured it, although an execution reaches it.
\<close>

definition sj_cfg :: cfg where
  "sj_cfg = \<lparr>db_map = (\<lambda>_. None), db_tab = [
     \<lparr>bb_name = ''L1'', bb_insns = [ew_insn CL_INSN_BINOP [] [], ew_insn CL_INSN_COND [2, 2] []], inbound = []\<rparr>,
     \<lparr>bb_name = ''L2'', bb_insns = [ew_insn CL_INSN_JMP [2] [0]], inbound = [1, 1, 2]\<rparr>]\<rparr>"

definition sj_ops :: "nat exec_ops" where
  "sj_ops = \<lparr>op_equal = (=), op_join = (\<lambda>a b w. if a = b then Some (JS_USE_ANY, a) else None), op_core = (\<lambda>i h. Some ([h], False)), op_call = (\<lambda>i h. ([], True)),
     op_cond = (\<lambda>i j h. [(0, 1), (0, 2), (0, 3)]), op_return = (\<lambda>i h. h), op_setExit = (\<lambda>h. h), op_exit = (\<lambda>h. None), op_abstract = (\<lambda>h. h)\<rparr>"

definition sj_cs :: "nat csem" where
  "sj_cs = \<lparr>cs_core = (\<lambda>i c c'. c' = c), cs_cond = (\<lambda>i j c n c'. n = 0 \<and> c' \<in> {1, 2, 3}), cs_exited = (\<lambda>c. False)\<rparr>"

lemma sj_sound: "join_sound (\<lambda>h. {h}) sj_ops" "exec_sound (\<lambda>h. {h}) sj_ops sj_cs"
  unfolding join_sound_def exec_sound_def by (auto simp: sj_ops_def sj_cs_def reports_error_def heaps_gamma_def)

lemma sj_steps: "c \<in> {1, 2, 3} \<Longrightarrow> (cstep sj_cfg sj_cs)\<^sup>*\<^sup>* ((1, 0), 0) ((2, 0), c)"
proof -
  assume c: "c \<in> {1, 2, 3}"
  have b: "bb_at sj_cfg 1 = Some (db_tab sj_cfg ! 0)" by (simp add: bb_at_def sj_cfg_def)
  note d = sj_cfg_def ew_insn_def new_insn_def next_is_cond_def sj_cs_def target_at_def
  have "cstep sj_cfg sj_cs ((1, 0), 0) ((1, 1), 0)" using cstep.look [OF b, of 0 sj_cs 0] by (simp add: d)
  moreover have "cstep sj_cfg sj_cs ((1, 1), 0) ((2, 0), c)" using cstep.cond [OF b, of 1 sj_cs 0 0 c 2] c by (simp add: d)
  ultimately show ?thesis by (auto intro: converse_rtranclp_into_rtranclp)
qed

lemma sj_run:
  "map_option en_fixed (eng_start ew_cf sj_ops sj_cfg 0) = Some [((1, 0), 0), ((1, 1), 0), ((2, 0), 1), ((2, 0), 2)]"
  by code_simp

lemma self_jump_skips_heap:
  "(cstep sj_cfg sj_cs)\<^sup>*\<^sup>* ((1, 0), 0) ((2, 0), 3) \<and>
   (\<exists>e. eng_start ew_cf sj_ops sj_cfg 0 = Some e \<and> \<not> (\<exists>h. ((2, 0), h) \<in> set (en_fixed e) \<and> 3 \<in> {h}))"
  using sj_steps [of 3] sj_run by auto

section \<open>Coverage\<close>

text \<open>
  C1: when the engine has finished a function and has reported no fatal error, every state that an execution of the
  function reaches at an instruction is covered by a heap that the engine has captured there, for the instructions outside
  of blocks that jump to themselves with their first instruction (an execution never leaves such a block, and
  \<open>self_jump_skips_heap\<close> shows that the engine may pass over a heap in it).  The join, the abstraction and the execution
  of single instructions are sound with regard to the concretisation \<open>\<gamma>\<close> by hypothesis.
\<close>

theorem engine_covers_executions:
  assumes "join_sound \<gamma> ops" "exec_sound \<gamma> ops cs"
    and r: "eng_start cf ops g h0 = Some e" and ef: "\<forall>(p, h) \<in> set (en_fixed e). error_free ops g p h"
    and c0: "c0 \<in> \<gamma> h0" and ex: "(cstep g cs)\<^sup>*\<^sup>* ((1, 0), c0) (p, c)" and ns: "\<not> self_jump g (fst p)"
  shows "\<exists>h. (p, h) \<in> set (en_fixed e) \<and> c \<in> \<gamma> h"
proof -
  from r obtain e0 where e0: "eng_init cf ops g h0 = Some e0" "eng_run cf ops g e0 = Some e"
    by (auto simp: eng_start_def bind_eq_Some_conv)
  note er = eng_run_reach [OF e0(2) eng_reach.start [OF e0(1)]]
  have I: "eng_inv \<gamma> ops g cs h0 e" using eng_reach_inv [OF assms(1,2)] er by blast
  note f = eng_inv_final [OF I _ ef]
  have "snd (fst x) = 0 \<and> self_jump g (fst (fst x)) \<or> logged \<gamma> e (fst x) (snd x)" if "(cstep g cs)\<^sup>*\<^sup>* ((1, 0), c0) x" for x
    using that
  proof (induction rule: rtranclp_induct)
    case base
    then show ?case using f(1) er c0 by auto
  next
    case (step y z)
    then show ?case using f(2) [of "fst y" "snd y" "fst z" "snd z"] self_jump_step [of g "fst (fst y)" cs "snd y" "fst z" "snd z"] er
      by (metis eq_fst_iff eq_snd_iff fst_conv snd_conv prod.collapse)
  qed
  from this [OF ex] ns show ?thesis by (simp add: logged_def)
qed

theorem engine_covers_executions_witness:
  "\<exists>e. eng_start ew_cf ew_ops ew_cfg (0, 0) = Some e \<and> (\<exists>h. ((2, 0), h) \<in> set (en_fixed e) \<and> 3 \<in> ew_gamma h)"
proof -
  from ew_runs obtain e where e: "eng_start ew_cf ew_ops ew_cfg (0, 0) = Some e" by auto
  have "0 \<in> ew_gamma (0, 0)" by (simp add: ew_gamma_def)
  from engine_covers_executions [OF ew_sound e _ this ew_path] ew_self_jump ew_error_free e show ?thesis by auto
qed

end
