(* ===== verification/Spec2Isabelle.thy ===== *)
theory Spec2Isabelle
  imports IntArena IntRange EntStore WorkList IdMapper ClTypes SymPred SymHeap HeapRel HeapEvol HeapLive HeapWrite SymGc SymSeg SymRuns SymBt SymCmp SymAbstract ClSwitch ClFactory LoopScan VarKillRun EngRun
begin

text \<open>
  Verification of the Predator shape analyser (\<open>src/sl\<close>) and of the parts of the Code Listener infrastructure
  (\<open>src/cl\<close>, \<open>src/include/cl\<close>) it is built on.

  \<^bold>\<open>The program.\<close>  A compiler plug-in sends the intermediate code of a C program as a sequence of callbacks to a
  chain of code listeners.  Filters check and rewrite the sequence, the storage builder turns it into the code
  storage, and analyses annotate the storage: the loop scan marks the edges that close loops, the variable killer
  lists the variables that are dead after an instruction.  Predator then executes every function symbolically.
  A symbolic heap describes a set of memory configurations by objects, fields and values, with list segments
  as abstract objects.  The engine keeps a set of symbolic heaps per basic block, executes the heaps that have not been
  processed yet and inserts the results into the sets of the successors, until nothing changes.

  \<^bold>\<open>Conventions.\<close>  The assertion \<open>CL_BREAK_IF\<close>, exceptions and dead accesses are the value \<open>None\<close>, so a definition
  that returns \<open>Some\<close> has passed all assertions of the code.  State is passed explicitly in records.  The ids of
  entities are integers as in the code; ranges are kept within 64 bits with the wrap-around written out.
  Ordered containers of the standard library are association lists in the order of their keys (\<open>omap\<close>)
  where the order is observable, and sets or functions otherwise.

  \<^bold>\<open>Shared theory.\<close>  \<open>Prelude\<close> has the assertion, failing folds (\<open>ofold\<close>), ordered maps and their lemmas.

  \<^bold>\<open>Containers and helpers.\<close>
  \<^item> \<open>WorkList\<close> (\<open>src/cl/worklist.hh\<close>): both schedulers; the locale \<open>worklist\<close> proves that a search with such a list ends
    after the reachable items, each visited once.
  \<^item> \<open>IntArena\<close> (\<open>src/sl/intarena.hh\<close>): the two-level map of chunks; the locale \<open>interval_store\<close> states it as a map from
    bytes to sets of ids.
  \<^item> \<open>IntRange\<close> (\<open>src/sl/intrange.cc\<close>): ranges with infinite ends and an alignment; every operator is sound
    under its stated bounds.
  \<^item> \<open>IdMapper\<close> (\<open>src/sl/id_mapper.hh\<close>): queries and composition as relations.
  \<^item> \<open>SymPred\<close> (\<open>src/sl/sympred.hh\<close>): predicates on pairs of values, with the locale \<open>sym_relation\<close>.
  \<^item> \<open>EntStore\<close> (\<open>src/sl/syments.hh\<close>): reference-counted entities with copy on write over an explicit memory; the locale
    \<open>versioned_store\<close> gives the refinement of plain maps, isolation of copies and exact reference counts.
  \<^item> \<open>SymBt\<close> (\<open>src/sl/symbt.cc\<close>): the call stack and its counters.

  \<^bold>\<open>The symbolic heap.\<close>
  \<^item> \<open>ClTypes\<close>: types of the program and their comparison (\<open>src/cl/clutil.cc\<close>).
  \<^item> \<open>HeapEnts\<close>, \<open>HeapVals\<close>, \<open>HeapFields\<close>, \<open>HeapObjs\<close>, \<open>HeapAlloc\<close>: \<open>SymHeapCore\<close> of \<open>src/sl/symheap.cc\<close>, operation by
    operation: entities, values, has-value edges with data reinterpretation, objects, program variables.
  \<^item> \<open>HeapRel\<close>, \<open>HeapEvol\<close>: one locale per layer of operations (\<open>value_ops\<close>, \<open>block_ops\<close>, \<open>heap_ops\<close>, \<open>object_ops\<close>), in which it is
    proved once that every operation keeps a relation that the elementary updates keep; \<open>heap_step\<close> is one call of a public
    operation.  Ids are handed out once, and entities keep their kind.
  \<^item> \<open>HeapLive\<close>: the valid objects and the program variables; \<open>HeapWrite\<close>: a field reads back what was written, and fields
    without a common byte do not change.
  \<^item> \<open>SymHeap\<close>, \<open>SymSeg\<close>, \<open>SymRuns\<close>: \<open>SymHeap\<close> with abstract objects, segments (\<open>src/sl/symseg.cc\<close>) and prototypes
    (\<open>src/sl/prototype.cc\<close>), runs of public operations and their invariant (locales \<open>core_ops\<close>, \<open>symheap_ops\<close>).
  \<^item> \<open>SymGc\<close> (\<open>src/sl/symgc.cc\<close>): an object is junk exactly when no non-heap object reaches it; what the collection leaves.
  \<^item> \<open>SymCmp\<close> (\<open>src/sl/symcmp.cc\<close>): heaps that compare equal are isomorphic from their program variables on.
  \<^item> \<open>SymAbstract\<close> (\<open>src/sl/symabstract.cc\<close>): unfolding and splicing out of abstract objects (locale \<open>clone_ops\<close>).

  \<^bold>\<open>The code model.\<close>
  \<^item> \<open>ClCode\<close>: operands, instructions, blocks, graphs, functions and the storage (\<open>src/include/cl/storage.hh\<close>,
    \<open>src/cl/storage.cc\<close>); \<open>ClBuild\<close>: the storage builder (\<open>src/cl/cl_storage.cc\<close>).
  \<^item> \<open>ClFilters\<close>, \<open>ClSwitch\<close>: integrity checks, unique labels and the unfolding of switches (\<open>src/cl/clf_*.cc\<close>).
  \<^item> \<open>ClFront\<close>: the builder behind the checks (relation \<open>front\<close>); without an error report its graphs are well formed.
    Its hypothesis on the callbacks is that files are nested (\<open>file_nested\<close>), as the front ends send them.
  \<^item> \<open>ClFlow\<close>: the locale \<open>flow_graph\<close>, a graph with matching lists of successors and predecessors, which the graphs of the
    builder interpret.
  \<^item> \<open>LoopScan\<close> (\<open>src/cl/loopscan.cc\<close>): the search ends, and every cycle has a marked edge.
  \<^item> \<open>VarKiller\<close>, \<open>VarLive\<close>, \<open>VarCommit\<close>, \<open>VarKillRun\<close> (\<open>src/cl/killer.cc\<close>): the fixed point is reached, it is the set of live
    variables, and the kill lists are those of dead variables.  The query of the points-to graph is a parameter.
  \<^item> \<open>ClFactory\<close> (\<open>src/cl/cl_factory.cc\<close>): the parsers of configuration strings and the construction of the chain.

  \<^bold>\<open>The engine.\<close>
  \<^item> \<open>SymState\<close> (\<open>src/sl/symstate.cc\<close>): sets of heaps with join, packing and marks of processed heaps, one per block, and the
    scheduler of blocks.  An insertion never loses a concrete state and keeps the marks exact.
  \<^item> \<open>SymEngine\<close> (\<open>SymExecEngine\<close> of \<open>src/sl/symexec.cc\<close>): blocks, instructions and heaps in their loops, with pruning.
  \<^item> \<open>EngSteps\<close>, \<open>EngRun\<close>: when the engine is through and has reported no fatal error, every state of every execution is
    covered by a captured heap, outside of blocks that jump to themselves with their first instruction: no execution leaves
    such a block, and \<open>self_jump_skips_heap\<close> shows that the engine can skip a heap there.  The join, the abstraction and single instructions are parameters; what they promise are the hypotheses
    \<open>join_sound\<close> and \<open>exec_sound\<close>.  Whether the engine ends depends on these parameters, so the
    theorem is about a run that has ended, and its witness shows one for a loop.

  \<^bold>\<open>Loops.\<close>  Loops over a work list or along pointers are \<open>partial_function (option)\<close>: \<open>digOperand\<close>, \<open>readTypeTree_loop\<close>,
  \<open>ls_loop\<close>, \<open>dfsCmp\<close>, \<open>isJunk_loop\<close>, \<open>gc_loop\<close>, \<open>lookThrough_loop\<close>, \<open>protoCollector_loop\<close>, \<open>computeFixPoint\<close> and \<open>eng_run\<close>.  For the loop scan,
  the variable killer and the junk test it is proved that they return.  The comparison of types runs with fuel
  (\<open>clt_eq_fuel\<close>, the number of pairs of types it can meet), and more fuel is proved to make no difference.

  \<^bold>\<open>Not modelled.\<close>
  \<^item> The join of heaps (\<open>src/sl/symjoin.cc\<close>), the discovery of shapes (\<open>src/sl/symdiscover.cc\<close>) and with it the abstraction
    step, the semantics of single instructions (\<open>src/sl/symproc.cc\<close>, \<open>src/sl/symbin.cc\<close>), calls and their cache
    (\<open>src/sl/symcall.cc\<close>, \<open>src/sl/symcut.cc\<close>): they appear as parameters of the engine.
  \<^item> Trace graphs, plots, dumps, messages, statistics and signals, which have no influence on the heaps.
  \<^item> The points-to analyses and the call graph of \<open>src/cl\<close>; the printers and dot writers.
  \<^item> The compiler front ends, which depend on GCC and LLVM; the separate tools Forester (\<open>src/fa\<close>), \<open>src/fwnull\<close> and
    \<open>src/vra\<close>, which share the Code Listener only; container shapes, an experiment on top of the analysis.
\<close>

end
